(* ===== verification/Kern_Prelude.thy ===== *)
theory Kern_Prelude
  imports Main "HOL-Library.Word" "HOL-Library.Monad_Syntax"
begin

unbundle bit_operations_syntax

text \<open>
  Shared vocabulary of the development: the machine integers of the C sources, the error
  numbers the modelled functions return, the bitmap helpers of \<open>linux/bitmap.h\<close> and
  \<open>linux/find.h\<close> that several allocators use, bounds-checked access to byte buffers, and
  the generic lemmas on words, lists and bitmaps the component theories share.
\<close>

section \<open>Machine integers and error numbers\<close>

type_synonym u8 = "8 word"
type_synonym u16 = "16 word"
type_synonym u32 = "32 word"
type_synonym u64 = "64 word"

datatype errno = EPERM | ENOENT | EAGAIN | ENOMEM | EFAULT | EBUSY | ENODEV | EINVAL | ENOSPC
  | ENOSYS | EOPNOTSUPP | EOTHER int

text \<open>
  A C function that returns a negative error number or zero, with its results stored through
  pointers, returns \<open>Inl e\<close> or \<open>Inr v\<close>.
\<close>

type_synonym 'a result = "errno + 'a"

named_theorems kern_simps \<open>generic facts the component proofs rewrite with\<close>
named_theorems flag_defs \<open>values of the C flag constants\<close>

section \<open>Flag masks\<close>

text \<open>The C condition \<open>mask & flag\<close>.\<close>

definition has_flag :: "'a::len word \<Rightarrow> 'a word \<Rightarrow> bool" where
  "has_flag m flag \<longleftrightarrow> m AND flag \<noteq> 0"

text \<open>\<open>covers mask req\<close> is the C test \<open>(mask & req) == req\<close>: every bit of \<open>req\<close> is in \<open>mask\<close>.\<close>

definition covers :: "'a::len word \<Rightarrow> 'a word \<Rightarrow> bool" where
  "covers m req \<longleftrightarrow> m AND req = req"

lemma covers_iff_bits: "covers m r \<longleftrightarrow> (\<forall>n. bit r n \<longrightarrow> bit m n)"
  unfolding covers_def by (metis bit_and_iff bit_eqI)

lemma covers_refl [simp, intro]: "covers m m"
  by (simp add: covers_def)

lemma covers_zero [simp, intro]: "covers m 0"
  by (simp add: covers_def)

lemma covers_trans: "covers a b \<Longrightarrow> covers b c \<Longrightarrow> covers a c"
  by (auto simp: covers_iff_bits)

lemma covers_or [kern_simps]: "covers m (a OR b) \<longleftrightarrow> covers m a \<and> covers m b"
  by (auto simp: covers_iff_bits bit_or_iff)

lemma covers_or_left: "covers a r \<Longrightarrow> covers (a OR b) r"
  by (auto simp: covers_iff_bits bit_or_iff)

lemma covers_or_right: "covers b r \<Longrightarrow> covers (a OR b) r"
  by (auto simp: covers_iff_bits bit_or_iff)

lemma and_not_zero_iff_covers: "m AND NOT r = 0 \<longleftrightarrow> covers r (m :: 'a::len word)"
  unfolding covers_iff_bits
  by (simp add: bit_eq_iff bit_and_iff bit_not_iff) (metis bit_imp_le_length leD)

lemma not_bit_of_less:
  assumes "unat (x :: 'a::len word) < 2 ^ n" and "n \<le> j"
  shows "\<not> bit x j"
proof
  assume "bit x j"
  then have "odd (unat x div 2 ^ j)" by (simp add: bit_unsigned_iff flip: bit_iff_odd)
  then have "2 ^ j \<le> unat x" by (metis div_less even_zero not_le_imp_less)
  moreover have "(2::nat) ^ n \<le> 2 ^ j" using assms(2) by simp
  ultimately show False using assms(1) by linarith
qed

section \<open>Bounds-checked arrays\<close>

text \<open>An access outside a C array is undefined; the model returns \<open>None\<close> for it.\<close>

definition arr_get :: "'a list \<Rightarrow> nat \<Rightarrow> 'a option" where
  "arr_get a i = (if i < length a then Some (a ! i) else None)"

definition arr_set :: "'a list \<Rightarrow> nat \<Rightarrow> 'a \<Rightarrow> 'a list option" where
  "arr_set a i v = (if i < length a then Some (a[i := v]) else None)"

lemma arr_get_in [simp]: "i < length a \<Longrightarrow> arr_get a i = Some (a ! i)"
  by (simp add: arr_get_def)

lemma arr_set_in [simp]: "i < length a \<Longrightarrow> arr_set a i v = Some (a[i := v])"
  by (simp add: arr_set_def)

lemma arr_get_eq_Some [simp]: "arr_get a i = Some v \<longleftrightarrow> i < length a \<and> a ! i = v"
  by (simp add: arr_get_def)

lemma arr_set_eq_Some [simp]: "arr_set a i v = Some b \<longleftrightarrow> i < length a \<and> b = a[i := v]"
  by (auto simp: arr_set_def)

section \<open>Lists\<close>

lemma count_list_remove1: "count_list (remove1 x xs) y = count_list xs y - (if y = x then 1 else 0)"
  by (induction xs) auto

section \<open>Definedness of option-valued computations\<close>

text \<open>
  \<open>defined x\<close> says that a computation meets no undefined access. The rules follow the shape of
  the computation, so that \<open>intro defined_intros\<close> reduces it to the index bounds.
\<close>

definition defined :: "'a option \<Rightarrow> bool" where
  "defined x \<longleftrightarrow> x \<noteq> None"

lemma defined_iff: "defined x \<longleftrightarrow> (\<exists>y. x = Some y)"
  by (auto simp: defined_def)

lemma defined_Some [simp]: "defined (Some v)"
  by (simp add: defined_def)

lemma defined_if: "(c \<Longrightarrow> defined x) \<Longrightarrow> (\<not> c \<Longrightarrow> defined y) \<Longrightarrow> defined (if c then x else y)"
  by simp

lemma defined_get: "i < length a \<Longrightarrow> defined (arr_get a i)"
  by (simp add: defined_def)

lemma defined_set: "i < length a \<Longrightarrow> defined (arr_set a i v)"
  by (simp add: defined_def)

lemma defined_bind: "defined x \<Longrightarrow> (\<And>v. x = Some v \<Longrightarrow> defined (f v)) \<Longrightarrow> defined (x \<bind> f)"
  by (auto simp: defined_def)

lemma defined_map_option [simp]: "defined (map_option f x) = defined x"
  by (simp add: defined_def)

lemmas defined_intros = defined_Some defined_if defined_get defined_set defined_bind

lemma bind_eq_SomeE:
  assumes "x \<bind> f = Some z"
  obtains y where "x = Some y" and "f y = Some z"
  using assms by (cases x) auto

section \<open>Guarded systems\<close>

text \<open>Runs of a system whose environment chooses among the steps that are allowed, and what an invariant with progress gives for them.\<close>

fun guarded_run :: "('a \<Rightarrow> 's \<Rightarrow> bool) \<Rightarrow> ('a \<Rightarrow> 's \<Rightarrow> 's option) \<Rightarrow> 'a list \<Rightarrow> 's \<Rightarrow> 's option" where
  "guarded_run may act [] s = Some s"
| "guarded_run may act (a # l) s = (if may a s then case act a s of None \<Rightarrow> None | Some t \<Rightarrow> guarded_run may act l t else None)"

locale guarded_system =
  fixes may :: "'a \<Rightarrow> 's \<Rightarrow> bool" and act :: "'a \<Rightarrow> 's \<Rightarrow> 's option" and inv :: "'s \<Rightarrow> bool"
  assumes progress: "inv s \<Longrightarrow> may a s \<Longrightarrow> \<exists>s'. act a s = Some s' \<and> inv s'"
begin

lemma act_defined: "inv s \<Longrightarrow> may a s \<Longrightarrow> act a s \<noteq> None"
  using progress by fastforce

lemma act_keeps: "inv s \<Longrightarrow> may a s \<Longrightarrow> act a s = Some s' \<Longrightarrow> inv s'"
  using progress by fastforce

lemma run_keeps: "inv s \<Longrightarrow> guarded_run may act l s = Some s' \<Longrightarrow> inv s'"
  by (induction l arbitrary: s) (auto split: if_splits option.splits dest: act_keeps)

end

end
