(* ===== verification/Verbs_Qp.thy ===== *)
theory Verbs_Qp
  imports Kern_Prelude
begin

unbundle bit_operations_syntax

text \<open>
  The queue-pair state machine of \<open>drivers/infiniband/core/verbs.c\<close>: the transition table
  \<open>qp_state_table\<close>, row by row, and \<open>ib_modify_qp_is_ok\<close>, which every hardware
  driver asks before it changes a QP; the static-rate conversions, the event and completion
  status strings, the transport and link-layer queries and the Ethernet speed encoding of the
  same file. A QP is followed through sequences of accepted \<open>modify\<close> calls and
  asynchronous hardware transitions by an inductive step relation.
\<close>

section \<open>Static rates\<close>

datatype ib_rate = IB_RATE_PORT_CURRENT
  | IB_RATE_2_5_GBPS
  | IB_RATE_5_GBPS
  | IB_RATE_10_GBPS
  | IB_RATE_20_GBPS
  | IB_RATE_30_GBPS
  | IB_RATE_40_GBPS
  | IB_RATE_60_GBPS
  | IB_RATE_80_GBPS
  | IB_RATE_120_GBPS
  | IB_RATE_14_GBPS
  | IB_RATE_56_GBPS
  | IB_RATE_112_GBPS
  | IB_RATE_168_GBPS
  | IB_RATE_25_GBPS
  | IB_RATE_100_GBPS
  | IB_RATE_200_GBPS
  | IB_RATE_300_GBPS
  | IB_RATE_28_GBPS
  | IB_RATE_50_GBPS
  | IB_RATE_400_GBPS
  | IB_RATE_600_GBPS
  | IB_RATE_800_GBPS

fun ib_rate_to_mult :: "ib_rate \<Rightarrow> int" where
  "ib_rate_to_mult IB_RATE_2_5_GBPS = 1"
| "ib_rate_to_mult IB_RATE_5_GBPS = 2"
| "ib_rate_to_mult IB_RATE_10_GBPS = 4"
| "ib_rate_to_mult IB_RATE_20_GBPS = 8"
| "ib_rate_to_mult IB_RATE_30_GBPS = 12"
| "ib_rate_to_mult IB_RATE_40_GBPS = 16"
| "ib_rate_to_mult IB_RATE_60_GBPS = 24"
| "ib_rate_to_mult IB_RATE_80_GBPS = 32"
| "ib_rate_to_mult IB_RATE_120_GBPS = 48"
| "ib_rate_to_mult IB_RATE_14_GBPS = 6"
| "ib_rate_to_mult IB_RATE_56_GBPS = 22"
| "ib_rate_to_mult IB_RATE_112_GBPS = 45"
| "ib_rate_to_mult IB_RATE_168_GBPS = 67"
| "ib_rate_to_mult IB_RATE_25_GBPS = 10"
| "ib_rate_to_mult IB_RATE_100_GBPS = 40"
| "ib_rate_to_mult IB_RATE_200_GBPS = 80"
| "ib_rate_to_mult IB_RATE_300_GBPS = 120"
| "ib_rate_to_mult IB_RATE_28_GBPS = 11"
| "ib_rate_to_mult IB_RATE_50_GBPS = 20"
| "ib_rate_to_mult IB_RATE_400_GBPS = 160"
| "ib_rate_to_mult IB_RATE_600_GBPS = 240"
| "ib_rate_to_mult IB_RATE_800_GBPS = 320"
| "ib_rate_to_mult _ = -1"

definition mult_to_ib_rate :: "int \<Rightarrow> ib_rate" where
  "mult_to_ib_rate m =
    (if m = 1 then IB_RATE_2_5_GBPS
     else if m = 2 then IB_RATE_5_GBPS
     else if m = 4 then IB_RATE_10_GBPS
     else if m = 8 then IB_RATE_20_GBPS
     else if m = 12 then IB_RATE_30_GBPS
     else if m = 16 then IB_RATE_40_GBPS
     else if m = 24 then IB_RATE_60_GBPS
     else if m = 32 then IB_RATE_80_GBPS
     else if m = 48 then IB_RATE_120_GBPS
     else if m = 6 then IB_RATE_14_GBPS
     else if m = 22 then IB_RATE_56_GBPS
     else if m = 45 then IB_RATE_112_GBPS
     else if m = 67 then IB_RATE_168_GBPS
     else if m = 10 then IB_RATE_25_GBPS
     else if m = 40 then IB_RATE_100_GBPS
     else if m = 80 then IB_RATE_200_GBPS
     else if m = 120 then IB_RATE_300_GBPS
     else if m = 11 then IB_RATE_28_GBPS
     else if m = 20 then IB_RATE_50_GBPS
     else if m = 160 then IB_RATE_400_GBPS
     else if m = 240 then IB_RATE_600_GBPS
     else if m = 320 then IB_RATE_800_GBPS
     else IB_RATE_PORT_CURRENT)"

fun ib_rate_to_mbps :: "ib_rate \<Rightarrow> int" where
  "ib_rate_to_mbps IB_RATE_2_5_GBPS = 2500"
| "ib_rate_to_mbps IB_RATE_5_GBPS = 5000"
| "ib_rate_to_mbps IB_RATE_10_GBPS = 10000"
| "ib_rate_to_mbps IB_RATE_20_GBPS = 20000"
| "ib_rate_to_mbps IB_RATE_30_GBPS = 30000"
| "ib_rate_to_mbps IB_RATE_40_GBPS = 40000"
| "ib_rate_to_mbps IB_RATE_60_GBPS = 60000"
| "ib_rate_to_mbps IB_RATE_80_GBPS = 80000"
| "ib_rate_to_mbps IB_RATE_120_GBPS = 120000"
| "ib_rate_to_mbps IB_RATE_14_GBPS = 14062"
| "ib_rate_to_mbps IB_RATE_56_GBPS = 56250"
| "ib_rate_to_mbps IB_RATE_112_GBPS = 112500"
| "ib_rate_to_mbps IB_RATE_168_GBPS = 168750"
| "ib_rate_to_mbps IB_RATE_25_GBPS = 25781"
| "ib_rate_to_mbps IB_RATE_100_GBPS = 103125"
| "ib_rate_to_mbps IB_RATE_200_GBPS = 206250"
| "ib_rate_to_mbps IB_RATE_300_GBPS = 309375"
| "ib_rate_to_mbps IB_RATE_28_GBPS = 28125"
| "ib_rate_to_mbps IB_RATE_50_GBPS = 53125"
| "ib_rate_to_mbps IB_RATE_400_GBPS = 425000"
| "ib_rate_to_mbps IB_RATE_600_GBPS = 637500"
| "ib_rate_to_mbps IB_RATE_800_GBPS = 850000"
| "ib_rate_to_mbps _ = -1"

section \<open>Event and completion status strings\<close>

definition ib_events :: "string option list" where
  "ib_events = [
    Some ''CQ error'',
    Some ''QP fatal error'',
    Some ''QP request error'',
    Some ''QP access error'',
    Some ''communication established'',
    Some ''send queue drained'',
    Some ''path migration successful'',
    Some ''path migration error'',
    Some ''device fatal error'',
    Some ''port active'',
    Some ''port error'',
    Some ''LID change'',
    Some ''P_key change'',
    Some ''SM change'',
    Some ''SRQ error'',
    Some ''SRQ limit reached'',
    Some ''last WQE reached'',
    Some ''client reregister'',
    Some ''GID changed'',
    None,
    Some ''XRQ QP error'',
    Some ''XRQ NVMF backend ctrl PCI error'',
    Some ''XRQ NVMF backend ctrl timeout error'']"

definition ib_event_msg :: "nat \<Rightarrow> string" where
  "ib_event_msg index =
     (if index < length ib_events then
        (case ib_events ! index of Some s \<Rightarrow> s | None \<Rightarrow> ''unrecognized event'')
      else ''unrecognized event'')"

definition wc_statuses :: "string option list" where
  "wc_statuses = [
    Some ''success'',
    Some ''local length error'',
    Some ''local QP operation error'',
    Some ''local EE context operation error'',
    Some ''local protection error'',
    Some ''WR flushed'',
    Some ''memory bind operation error'',
    Some ''bad response error'',
    Some ''local access error'',
    Some ''remote invalid request error'',
    Some ''remote access error'',
    Some ''remote operation error'',
    Some ''transport retry counter exceeded'',
    Some ''RNR retry counter exceeded'',
    Some ''local RDD violation error'',
    Some ''remote invalid RD request'',
    Some ''operation aborted'',
    Some ''invalid EE context number'',
    Some ''invalid EE context state'',
    Some ''fatal error'',
    Some ''response timeout error'',
    Some ''general error'',
    Some ''pipelined WR canceled'']"

definition ib_wc_status_msg :: "nat \<Rightarrow> string" where
  "ib_wc_status_msg index =
     (if index < length wc_statuses then
        (case wc_statuses ! index of Some s \<Rightarrow> s | None \<Rightarrow> ''unrecognized status'')
      else ''unrecognized status'')"

section \<open>Node types, transports and link layers\<close>

datatype rdma_transport_type = RDMA_TRANSPORT_IB | RDMA_TRANSPORT_IWARP | RDMA_TRANSPORT_USNIC
  | RDMA_TRANSPORT_USNIC_UDP | RDMA_TRANSPORT_UNSPECIFIED

datatype rdma_link_layer = IB_LINK_LAYER_UNSPECIFIED | IB_LINK_LAYER_INFINIBAND
  | IB_LINK_LAYER_ETHERNET

datatype rdma_node_type = RDMA_NODE_IB_CA | RDMA_NODE_IB_SWITCH | RDMA_NODE_IB_ROUTER
  | RDMA_NODE_RNIC | RDMA_NODE_USNIC | RDMA_NODE_USNIC_UDP | RDMA_NODE_UNSPECIFIED

definition rdma_node_get_transport :: "rdma_node_type \<Rightarrow> rdma_transport_type" where
  "rdma_node_get_transport node_type =
     (if node_type = RDMA_NODE_USNIC then RDMA_TRANSPORT_USNIC
      else if node_type = RDMA_NODE_USNIC_UDP then RDMA_TRANSPORT_USNIC_UDP
      else if node_type = RDMA_NODE_RNIC then RDMA_TRANSPORT_IWARP
      else if node_type = RDMA_NODE_UNSPECIFIED then RDMA_TRANSPORT_UNSPECIFIED
      else RDMA_TRANSPORT_IB)"

text \<open>
  \<open>get_link_layer\<close> is the optional driver callback \<open>device->ops.get_link_layer\<close>.
\<close>

definition rdma_port_get_link_layer ::
  "(u32 \<Rightarrow> rdma_link_layer) option \<Rightarrow> rdma_node_type \<Rightarrow> u32 \<Rightarrow> rdma_link_layer" where
  "rdma_port_get_link_layer get_link_layer node_type port_num =
     (case get_link_layer of
        Some f \<Rightarrow> f port_num
      | None \<Rightarrow>
          if rdma_node_get_transport node_type = RDMA_TRANSPORT_IB
          then IB_LINK_LAYER_INFINIBAND else IB_LINK_LAYER_ETHERNET)"

section \<open>Ethernet link speed as IB width and speed\<close>

datatype ib_port_width = IB_WIDTH_1X | IB_WIDTH_2X | IB_WIDTH_4X | IB_WIDTH_8X | IB_WIDTH_12X

datatype ib_port_speed = IB_SPEED_SDR | IB_SPEED_DDR | IB_SPEED_QDR | IB_SPEED_FDR10
  | IB_SPEED_FDR | IB_SPEED_EDR | IB_SPEED_HDR | IB_SPEED_NDR | IB_SPEED_XDR

fun ib_width_enum_to_int :: "ib_port_width \<Rightarrow> int" where
  "ib_width_enum_to_int IB_WIDTH_1X = 1"
| "ib_width_enum_to_int IB_WIDTH_2X = 2"
| "ib_width_enum_to_int IB_WIDTH_4X = 4"
| "ib_width_enum_to_int IB_WIDTH_8X = 8"
| "ib_width_enum_to_int IB_WIDTH_12X = 12"

definition ib_get_width_and_speed :: "u32 \<Rightarrow> u32 \<Rightarrow> ib_port_speed \<times> ib_port_width" where
  "ib_get_width_and_speed netdev_speed lanes =
     (if lanes = 0 then
        (if netdev_speed \<le> 1000 then (IB_SPEED_SDR, IB_WIDTH_1X)
         else if netdev_speed \<le> 10000 then (IB_SPEED_FDR10, IB_WIDTH_1X)
         else if netdev_speed \<le> 20000 then (IB_SPEED_DDR, IB_WIDTH_4X)
         else if netdev_speed \<le> 25000 then (IB_SPEED_EDR, IB_WIDTH_1X)
         else if netdev_speed \<le> 40000 then (IB_SPEED_FDR10, IB_WIDTH_4X)
         else if netdev_speed \<le> 50000 then (IB_SPEED_EDR, IB_WIDTH_2X)
         else if netdev_speed \<le> 100000 then (IB_SPEED_EDR, IB_WIDTH_4X)
         else if netdev_speed \<le> 200000 then (IB_SPEED_HDR, IB_WIDTH_4X)
         else (IB_SPEED_NDR, IB_WIDTH_4X))
      else
        (let width = (if lanes = 1 then IB_WIDTH_1X
                      else if lanes = 2 then IB_WIDTH_2X
                      else if lanes = 4 then IB_WIDTH_4X
                      else if lanes = 8 then IB_WIDTH_8X
                      else if lanes = 12 then IB_WIDTH_12X
                      else IB_WIDTH_1X);
             per_lane = netdev_speed div lanes;
             speed = (if per_lane = 2500 then IB_SPEED_SDR
                      else if per_lane = 5000 then IB_SPEED_DDR
                      else if per_lane = 10000 then IB_SPEED_FDR10
                      else if per_lane = 14000 then IB_SPEED_FDR
                      else if per_lane = 25000 then IB_SPEED_EDR
                      else if per_lane = 50000 then IB_SPEED_HDR
                      else if per_lane = 100000 then IB_SPEED_NDR
                      else IB_SPEED_SDR)
         in (speed, width)))"

section \<open>QP types, states and attribute masks\<close>

datatype ib_qp_state = IB_QPS_RESET | IB_QPS_INIT | IB_QPS_RTR | IB_QPS_RTS | IB_QPS_SQD
  | IB_QPS_SQE | IB_QPS_ERR

datatype ib_qp_type = IB_QPT_SMI | IB_QPT_GSI | IB_QPT_RC | IB_QPT_UC | IB_QPT_UD
  | IB_QPT_RAW_IPV6 | IB_QPT_RAW_ETHERTYPE | IB_QPT_SRM | IB_QPT_RAW_PACKET | IB_QPT_XRC_INI
  | IB_QPT_XRC_TGT | IB_QPT_MAX | IB_QPT_DRIVER | IB_QPT_RESERVED nat

text \<open>The values of the enumeration; \<open>IB_QPT_RESERVED n\<close> is \<open>IB_QPT_RESERVED1 + n\<close>.\<close>

fun ib_qp_type_val :: "ib_qp_type \<Rightarrow> nat" where
  "ib_qp_type_val IB_QPT_SMI = 0"
| "ib_qp_type_val IB_QPT_GSI = 1"
| "ib_qp_type_val IB_QPT_RC = 2"
| "ib_qp_type_val IB_QPT_UC = 3"
| "ib_qp_type_val IB_QPT_UD = 4"
| "ib_qp_type_val IB_QPT_RAW_IPV6 = 5"
| "ib_qp_type_val IB_QPT_RAW_ETHERTYPE = 6"
| "ib_qp_type_val IB_QPT_SRM = 7"
| "ib_qp_type_val IB_QPT_RAW_PACKET = 8"
| "ib_qp_type_val IB_QPT_XRC_INI = 9"
| "ib_qp_type_val IB_QPT_XRC_TGT = 10"
| "ib_qp_type_val IB_QPT_MAX = 11"
| "ib_qp_type_val IB_QPT_DRIVER = 255"
| "ib_qp_type_val (IB_QPT_RESERVED n) = 4096 + n"

definition IB_QP_STATE :: u32 where [flag_defs]: "IB_QP_STATE = 0x1"
definition IB_QP_CUR_STATE :: u32 where [flag_defs]: "IB_QP_CUR_STATE = 0x2"
definition IB_QP_EN_SQD_ASYNC_NOTIFY :: u32 where [flag_defs]: "IB_QP_EN_SQD_ASYNC_NOTIFY = 0x4"
definition IB_QP_ACCESS_FLAGS :: u32 where [flag_defs]: "IB_QP_ACCESS_FLAGS = 0x8"
definition IB_QP_PKEY_INDEX :: u32 where [flag_defs]: "IB_QP_PKEY_INDEX = 0x10"
definition IB_QP_PORT :: u32 where [flag_defs]: "IB_QP_PORT = 0x20"
definition IB_QP_QKEY :: u32 where [flag_defs]: "IB_QP_QKEY = 0x40"
definition IB_QP_AV :: u32 where [flag_defs]: "IB_QP_AV = 0x80"
definition IB_QP_PATH_MTU :: u32 where [flag_defs]: "IB_QP_PATH_MTU = 0x100"
definition IB_QP_TIMEOUT :: u32 where [flag_defs]: "IB_QP_TIMEOUT = 0x200"
definition IB_QP_RETRY_CNT :: u32 where [flag_defs]: "IB_QP_RETRY_CNT = 0x400"
definition IB_QP_RNR_RETRY :: u32 where [flag_defs]: "IB_QP_RNR_RETRY = 0x800"
definition IB_QP_RQ_PSN :: u32 where [flag_defs]: "IB_QP_RQ_PSN = 0x1000"
definition IB_QP_MAX_QP_RD_ATOMIC :: u32 where [flag_defs]: "IB_QP_MAX_QP_RD_ATOMIC = 0x2000"
definition IB_QP_ALT_PATH :: u32 where [flag_defs]: "IB_QP_ALT_PATH = 0x4000"
definition IB_QP_MIN_RNR_TIMER :: u32 where [flag_defs]: "IB_QP_MIN_RNR_TIMER = 0x8000"
definition IB_QP_SQ_PSN :: u32 where [flag_defs]: "IB_QP_SQ_PSN = 0x10000"
definition IB_QP_MAX_DEST_RD_ATOMIC :: u32 where [flag_defs]: "IB_QP_MAX_DEST_RD_ATOMIC = 0x20000"
definition IB_QP_PATH_MIG_STATE :: u32 where [flag_defs]: "IB_QP_PATH_MIG_STATE = 0x40000"
definition IB_QP_CAP :: u32 where [flag_defs]: "IB_QP_CAP = 0x80000"
definition IB_QP_DEST_QPN :: u32 where [flag_defs]: "IB_QP_DEST_QPN = 0x100000"
definition IB_QP_RESERVED1 :: u32 where [flag_defs]: "IB_QP_RESERVED1 = 0x200000"
definition IB_QP_RESERVED2 :: u32 where [flag_defs]: "IB_QP_RESERVED2 = 0x400000"
definition IB_QP_RESERVED3 :: u32 where [flag_defs]: "IB_QP_RESERVED3 = 0x800000"
definition IB_QP_OFFLOAD_TYPE :: u32 where [flag_defs]: "IB_QP_OFFLOAD_TYPE = 0x1000000"
definition IB_QP_RATE_LIMIT :: u32 where [flag_defs]: "IB_QP_RATE_LIMIT = 0x2000000"
definition IB_QP_RMPN_XRQN :: u32 where [flag_defs]: "IB_QP_RMPN_XRQN = 0x4000000"

section \<open>The transition table\<close>

record qp_trans =
  valid :: bool
  req_param :: "ib_qp_type \<Rightarrow> u32"
  opt_param :: "ib_qp_type \<Rightarrow> u32"

text \<open>A slot of the static array that no initialiser names is all zero.\<close>

definition qp_trans_zero :: qp_trans where
  "qp_trans_zero = \<lparr>valid = False, req_param = (\<lambda>_. 0), opt_param = (\<lambda>_. 0)\<rparr>"

fun qp_state_row_RESET :: "ib_qp_state \<Rightarrow> qp_trans" where
  "qp_state_row_RESET IB_QPS_RESET =
     \<lparr>valid = True,
      req_param = (\<lambda>_. 0),
      opt_param = (\<lambda>_. 0)\<rparr>"
| "qp_state_row_RESET IB_QPS_INIT =
     \<lparr>valid = True,
      req_param = (\<lambda>t. case t of
          IB_QPT_UD \<Rightarrow> IB_QP_PKEY_INDEX OR IB_QP_PORT OR IB_QP_QKEY
        | IB_QPT_RAW_PACKET \<Rightarrow> IB_QP_PORT
        | IB_QPT_UC \<Rightarrow> IB_QP_PKEY_INDEX OR IB_QP_PORT OR IB_QP_ACCESS_FLAGS
        | IB_QPT_RC \<Rightarrow> IB_QP_PKEY_INDEX OR IB_QP_PORT OR IB_QP_ACCESS_FLAGS
        | IB_QPT_XRC_INI \<Rightarrow> IB_QP_PKEY_INDEX OR IB_QP_PORT OR IB_QP_ACCESS_FLAGS
        | IB_QPT_XRC_TGT \<Rightarrow> IB_QP_PKEY_INDEX OR IB_QP_PORT OR IB_QP_ACCESS_FLAGS
        | IB_QPT_SMI \<Rightarrow> IB_QP_PKEY_INDEX OR IB_QP_QKEY
        | IB_QPT_GSI \<Rightarrow> IB_QP_PKEY_INDEX OR IB_QP_QKEY
        | _ \<Rightarrow> 0),
      opt_param = (\<lambda>_. 0)\<rparr>"
| "qp_state_row_RESET _ = qp_trans_zero"

fun qp_state_row_INIT :: "ib_qp_state \<Rightarrow> qp_trans" where
  "qp_state_row_INIT IB_QPS_RESET =
     \<lparr>valid = True,
      req_param = (\<lambda>_. 0),
      opt_param = (\<lambda>_. 0)\<rparr>"
| "qp_state_row_INIT IB_QPS_ERR =
     \<lparr>valid = True,
      req_param = (\<lambda>_. 0),
      opt_param = (\<lambda>_. 0)\<rparr>"
| "qp_state_row_INIT IB_QPS_INIT =
     \<lparr>valid = True,
      req_param = (\<lambda>_. 0),
      opt_param = (\<lambda>t. case t of
          IB_QPT_UD \<Rightarrow> IB_QP_PKEY_INDEX OR IB_QP_PORT OR IB_QP_QKEY
        | IB_QPT_UC \<Rightarrow> IB_QP_PKEY_INDEX OR IB_QP_PORT OR IB_QP_ACCESS_FLAGS
        | IB_QPT_RC \<Rightarrow> IB_QP_PKEY_INDEX OR IB_QP_PORT OR IB_QP_ACCESS_FLAGS
        | IB_QPT_XRC_INI \<Rightarrow> IB_QP_PKEY_INDEX OR IB_QP_PORT OR IB_QP_ACCESS_FLAGS
        | IB_QPT_XRC_TGT \<Rightarrow> IB_QP_PKEY_INDEX OR IB_QP_PORT OR IB_QP_ACCESS_FLAGS
        | IB_QPT_SMI \<Rightarrow> IB_QP_PKEY_INDEX OR IB_QP_QKEY
        | IB_QPT_GSI \<Rightarrow> IB_QP_PKEY_INDEX OR IB_QP_QKEY
        | _ \<Rightarrow> 0)\<rparr>"
| "qp_state_row_INIT IB_QPS_RTR =
     \<lparr>valid = True,
      req_param = (\<lambda>t. case t of
          IB_QPT_UC \<Rightarrow> IB_QP_AV OR IB_QP_PATH_MTU OR IB_QP_DEST_QPN OR IB_QP_RQ_PSN
        | IB_QPT_RC \<Rightarrow> IB_QP_AV OR IB_QP_PATH_MTU OR IB_QP_DEST_QPN OR IB_QP_RQ_PSN OR IB_QP_MAX_DEST_RD_ATOMIC OR IB_QP_MIN_RNR_TIMER
        | IB_QPT_XRC_INI \<Rightarrow> IB_QP_AV OR IB_QP_PATH_MTU OR IB_QP_DEST_QPN OR IB_QP_RQ_PSN
        | IB_QPT_XRC_TGT \<Rightarrow> IB_QP_AV OR IB_QP_PATH_MTU OR IB_QP_DEST_QPN OR IB_QP_RQ_PSN OR IB_QP_MAX_DEST_RD_ATOMIC OR IB_QP_MIN_RNR_TIMER
        | _ \<Rightarrow> 0),
      opt_param = (\<lambda>t. case t of
          IB_QPT_UD \<Rightarrow> IB_QP_PKEY_INDEX OR IB_QP_QKEY
        | IB_QPT_UC \<Rightarrow> IB_QP_ALT_PATH OR IB_QP_ACCESS_FLAGS OR IB_QP_PKEY_INDEX
        | IB_QPT_RC \<Rightarrow> IB_QP_ALT_PATH OR IB_QP_ACCESS_FLAGS OR IB_QP_PKEY_INDEX
        | IB_QPT_XRC_INI \<Rightarrow> IB_QP_ALT_PATH OR IB_QP_ACCESS_FLAGS OR IB_QP_PKEY_INDEX
        | IB_QPT_XRC_TGT \<Rightarrow> IB_QP_ALT_PATH OR IB_QP_ACCESS_FLAGS OR IB_QP_PKEY_INDEX
        | IB_QPT_SMI \<Rightarrow> IB_QP_PKEY_INDEX OR IB_QP_QKEY
        | IB_QPT_GSI \<Rightarrow> IB_QP_PKEY_INDEX OR IB_QP_QKEY
        | _ \<Rightarrow> 0)\<rparr>"
| "qp_state_row_INIT _ = qp_trans_zero"

fun qp_state_row_RTR :: "ib_qp_state \<Rightarrow> qp_trans" where
  "qp_state_row_RTR IB_QPS_RESET =
     \<lparr>valid = True,
      req_param = (\<lambda>_. 0),
      opt_param = (\<lambda>_. 0)\<rparr>"
| "qp_state_row_RTR IB_QPS_ERR =
     \<lparr>valid = True,
      req_param = (\<lambda>_. 0),
      opt_param = (\<lambda>_. 0)\<rparr>"
| "qp_state_row_RTR IB_QPS_RTS =
     \<lparr>valid = True,
      req_param = (\<lambda>t. case t of
          IB_QPT_UD \<Rightarrow> IB_QP_SQ_PSN
        | IB_QPT_UC \<Rightarrow> IB_QP_SQ_PSN
        | IB_QPT_RC \<Rightarrow> IB_QP_TIMEOUT OR IB_QP_RETRY_CNT OR IB_QP_RNR_RETRY OR IB_QP_SQ_PSN OR IB_QP_MAX_QP_RD_ATOMIC
        | IB_QPT_XRC_INI \<Rightarrow> IB_QP_TIMEOUT OR IB_QP_RETRY_CNT OR IB_QP_RNR_RETRY OR IB_QP_SQ_PSN OR IB_QP_MAX_QP_RD_ATOMIC
        | IB_QPT_XRC_TGT \<Rightarrow> IB_QP_TIMEOUT OR IB_QP_SQ_PSN
        | IB_QPT_SMI \<Rightarrow> IB_QP_SQ_PSN
        | IB_QPT_GSI \<Rightarrow> IB_QP_SQ_PSN
        | _ \<Rightarrow> 0),
      opt_param = (\<lambda>t. case t of
          IB_QPT_UD \<Rightarrow> IB_QP_CUR_STATE OR IB_QP_QKEY
        | IB_QPT_UC \<Rightarrow> IB_QP_CUR_STATE OR IB_QP_ALT_PATH OR IB_QP_ACCESS_FLAGS OR IB_QP_PATH_MIG_STATE
        | IB_QPT_RC \<Rightarrow> IB_QP_CUR_STATE OR IB_QP_ALT_PATH OR IB_QP_ACCESS_FLAGS OR IB_QP_MIN_RNR_TIMER OR IB_QP_PATH_MIG_STATE OR IB_QP_OFFLOAD_TYPE
        | IB_QPT_XRC_INI \<Rightarrow> IB_QP_CUR_STATE OR IB_QP_ALT_PATH OR IB_QP_ACCESS_FLAGS OR IB_QP_PATH_MIG_STATE
        | IB_QPT_XRC_TGT \<Rightarrow> IB_QP_CUR_STATE OR IB_QP_ALT_PATH OR IB_QP_ACCESS_FLAGS OR IB_QP_MIN_RNR_TIMER OR IB_QP_PATH_MIG_STATE
        | IB_QPT_SMI \<Rightarrow> IB_QP_CUR_STATE OR IB_QP_QKEY
        | IB_QPT_GSI \<Rightarrow> IB_QP_CUR_STATE OR IB_QP_QKEY
        | IB_QPT_RAW_PACKET \<Rightarrow> IB_QP_RATE_LIMIT
        | _ \<Rightarrow> 0)\<rparr>"
| "qp_state_row_RTR _ = qp_trans_zero"

fun qp_state_row_RTS :: "ib_qp_state \<Rightarrow> qp_trans" where
  "qp_state_row_RTS IB_QPS_RESET =
     \<lparr>valid = True,
      req_param = (\<lambda>_. 0),
      opt_param = (\<lambda>_. 0)\<rparr>"
| "qp_state_row_RTS IB_QPS_ERR =
     \<lparr>valid = True,
      req_param = (\<lambda>_. 0),
      opt_param = (\<lambda>_. 0)\<rparr>"
| "qp_state_row_RTS IB_QPS_RTS =
     \<lparr>valid = True,
      req_param = (\<lambda>_. 0),
      opt_param = (\<lambda>t. case t of
          IB_QPT_UD \<Rightarrow> IB_QP_CUR_STATE OR IB_QP_QKEY
        | IB_QPT_UC \<Rightarrow> IB_QP_CUR_STATE OR IB_QP_ACCESS_FLAGS OR IB_QP_ALT_PATH OR IB_QP_PATH_MIG_STATE
        | IB_QPT_RC \<Rightarrow> IB_QP_CUR_STATE OR IB_QP_ACCESS_FLAGS OR IB_QP_ALT_PATH OR IB_QP_PATH_MIG_STATE OR IB_QP_MIN_RNR_TIMER OR IB_QP_OFFLOAD_TYPE OR IB_QP_RMPN_XRQN
        | IB_QPT_XRC_INI \<Rightarrow> IB_QP_CUR_STATE OR IB_QP_ACCESS_FLAGS OR IB_QP_ALT_PATH OR IB_QP_PATH_MIG_STATE
        | IB_QPT_XRC_TGT \<Rightarrow> IB_QP_CUR_STATE OR IB_QP_ACCESS_FLAGS OR IB_QP_ALT_PATH OR IB_QP_PATH_MIG_STATE OR IB_QP_MIN_RNR_TIMER
        | IB_QPT_SMI \<Rightarrow> IB_QP_CUR_STATE OR IB_QP_QKEY
        | IB_QPT_GSI \<Rightarrow> IB_QP_CUR_STATE OR IB_QP_QKEY
        | IB_QPT_RAW_PACKET \<Rightarrow> IB_QP_RATE_LIMIT
        | _ \<Rightarrow> 0)\<rparr>"
| "qp_state_row_RTS IB_QPS_SQD =
     \<lparr>valid = True,
      req_param = (\<lambda>_. 0),
      opt_param = (\<lambda>t. case t of
          IB_QPT_UD \<Rightarrow> IB_QP_EN_SQD_ASYNC_NOTIFY
        | IB_QPT_UC \<Rightarrow> IB_QP_EN_SQD_ASYNC_NOTIFY
        | IB_QPT_RC \<Rightarrow> IB_QP_EN_SQD_ASYNC_NOTIFY
        | IB_QPT_XRC_INI \<Rightarrow> IB_QP_EN_SQD_ASYNC_NOTIFY
        | IB_QPT_XRC_TGT \<Rightarrow> IB_QP_EN_SQD_ASYNC_NOTIFY
        | IB_QPT_SMI \<Rightarrow> IB_QP_EN_SQD_ASYNC_NOTIFY
        | IB_QPT_GSI \<Rightarrow> IB_QP_EN_SQD_ASYNC_NOTIFY
        | _ \<Rightarrow> 0)\<rparr>"
| "qp_state_row_RTS _ = qp_trans_zero"

fun qp_state_row_SQD :: "ib_qp_state \<Rightarrow> qp_trans" where
  "qp_state_row_SQD IB_QPS_RESET =
     \<lparr>valid = True,
      req_param = (\<lambda>_. 0),
      opt_param = (\<lambda>_. 0)\<rparr>"
| "qp_state_row_SQD IB_QPS_ERR =
     \<lparr>valid = True,
      req_param = (\<lambda>_. 0),
      opt_param = (\<lambda>_. 0)\<rparr>"
| "qp_state_row_SQD IB_QPS_RTS =
     \<lparr>valid = True,
      req_param = (\<lambda>_. 0),
      opt_param = (\<lambda>t. case t of
          IB_QPT_UD \<Rightarrow> IB_QP_CUR_STATE OR IB_QP_QKEY
        | IB_QPT_UC \<Rightarrow> IB_QP_CUR_STATE OR IB_QP_ALT_PATH OR IB_QP_ACCESS_FLAGS OR IB_QP_PATH_MIG_STATE
        | IB_QPT_RC \<Rightarrow> IB_QP_CUR_STATE OR IB_QP_ALT_PATH OR IB_QP_ACCESS_FLAGS OR IB_QP_MIN_RNR_TIMER OR IB_QP_PATH_MIG_STATE
        | IB_QPT_XRC_INI \<Rightarrow> IB_QP_CUR_STATE OR IB_QP_ALT_PATH OR IB_QP_ACCESS_FLAGS OR IB_QP_PATH_MIG_STATE
        | IB_QPT_XRC_TGT \<Rightarrow> IB_QP_CUR_STATE OR IB_QP_ALT_PATH OR IB_QP_ACCESS_FLAGS OR IB_QP_MIN_RNR_TIMER OR IB_QP_PATH_MIG_STATE
        | IB_QPT_SMI \<Rightarrow> IB_QP_CUR_STATE OR IB_QP_QKEY
        | IB_QPT_GSI \<Rightarrow> IB_QP_CUR_STATE OR IB_QP_QKEY
        | _ \<Rightarrow> 0)\<rparr>"
| "qp_state_row_SQD IB_QPS_SQD =
     \<lparr>valid = True,
      req_param = (\<lambda>_. 0),
      opt_param = (\<lambda>t. case t of
          IB_QPT_UD \<Rightarrow> IB_QP_PKEY_INDEX OR IB_QP_QKEY
        | IB_QPT_UC \<Rightarrow> IB_QP_AV OR IB_QP_ALT_PATH OR IB_QP_ACCESS_FLAGS OR IB_QP_PKEY_INDEX OR IB_QP_PATH_MIG_STATE
        | IB_QPT_RC \<Rightarrow> IB_QP_PORT OR IB_QP_AV OR IB_QP_TIMEOUT OR IB_QP_RETRY_CNT OR IB_QP_RNR_RETRY OR IB_QP_MAX_QP_RD_ATOMIC OR IB_QP_MAX_DEST_RD_ATOMIC OR IB_QP_ALT_PATH OR IB_QP_ACCESS_FLAGS OR IB_QP_PKEY_INDEX OR IB_QP_MIN_RNR_TIMER OR IB_QP_PATH_MIG_STATE
        | IB_QPT_XRC_INI \<Rightarrow> IB_QP_PORT OR IB_QP_AV OR IB_QP_TIMEOUT OR IB_QP_RETRY_CNT OR IB_QP_RNR_RETRY OR IB_QP_MAX_QP_RD_ATOMIC OR IB_QP_ALT_PATH OR IB_QP_ACCESS_FLAGS OR IB_QP_PKEY_INDEX OR IB_QP_PATH_MIG_STATE
        | IB_QPT_XRC_TGT \<Rightarrow> IB_QP_PORT OR IB_QP_AV OR IB_QP_TIMEOUT OR IB_QP_MAX_DEST_RD_ATOMIC OR IB_QP_ALT_PATH OR IB_QP_ACCESS_FLAGS OR IB_QP_PKEY_INDEX OR IB_QP_MIN_RNR_TIMER OR IB_QP_PATH_MIG_STATE
        | IB_QPT_SMI \<Rightarrow> IB_QP_PKEY_INDEX OR IB_QP_QKEY
        | IB_QPT_GSI \<Rightarrow> IB_QP_PKEY_INDEX OR IB_QP_QKEY
        | _ \<Rightarrow> 0)\<rparr>"
| "qp_state_row_SQD _ = qp_trans_zero"

fun qp_state_row_SQE :: "ib_qp_state \<Rightarrow> qp_trans" where
  "qp_state_row_SQE IB_QPS_RESET =
     \<lparr>valid = True,
      req_param = (\<lambda>_. 0),
      opt_param = (\<lambda>_. 0)\<rparr>"
| "qp_state_row_SQE IB_QPS_ERR =
     \<lparr>valid = True,
      req_param = (\<lambda>_. 0),
      opt_param = (\<lambda>_. 0)\<rparr>"
| "qp_state_row_SQE IB_QPS_RTS =
     \<lparr>valid = True,
      req_param = (\<lambda>_. 0),
      opt_param = (\<lambda>t. case t of
          IB_QPT_UD \<Rightarrow> IB_QP_CUR_STATE OR IB_QP_QKEY
        | IB_QPT_UC \<Rightarrow> IB_QP_CUR_STATE OR IB_QP_ACCESS_FLAGS
        | IB_QPT_SMI \<Rightarrow> IB_QP_CUR_STATE OR IB_QP_QKEY
        | IB_QPT_GSI \<Rightarrow> IB_QP_CUR_STATE OR IB_QP_QKEY
        | _ \<Rightarrow> 0)\<rparr>"
| "qp_state_row_SQE _ = qp_trans_zero"

fun qp_state_row_ERR :: "ib_qp_state \<Rightarrow> qp_trans" where
  "qp_state_row_ERR IB_QPS_RESET =
     \<lparr>valid = True,
      req_param = (\<lambda>_. 0),
      opt_param = (\<lambda>_. 0)\<rparr>"
| "qp_state_row_ERR IB_QPS_ERR =
     \<lparr>valid = True,
      req_param = (\<lambda>_. 0),
      opt_param = (\<lambda>_. 0)\<rparr>"
| "qp_state_row_ERR _ = qp_trans_zero"

fun qp_state_table :: "ib_qp_state \<Rightarrow> ib_qp_state \<Rightarrow> qp_trans" where
  "qp_state_table IB_QPS_RESET = qp_state_row_RESET"
| "qp_state_table IB_QPS_INIT = qp_state_row_INIT"
| "qp_state_table IB_QPS_RTR = qp_state_row_RTR"
| "qp_state_table IB_QPS_RTS = qp_state_row_RTS"
| "qp_state_table IB_QPS_SQD = qp_state_row_SQD"
| "qp_state_table IB_QPS_SQE = qp_state_row_SQE"
| "qp_state_table IB_QPS_ERR = qp_state_row_ERR"

text \<open>
  \<open>req_param\<close> and \<open>opt_param\<close> are arrays of \<open>IB_QPT_MAX\<close> entries: a larger type reads
  outside the array, which the model returns as \<open>None\<close>.
\<close>

definition ib_modify_qp_is_ok ::
  "ib_qp_state \<Rightarrow> ib_qp_state \<Rightarrow> ib_qp_type \<Rightarrow> u32 \<Rightarrow> bool option" where
  "ib_modify_qp_is_ok cur_state next_state type attr_mask =
     (if has_flag attr_mask IB_QP_CUR_STATE \<and> cur_state \<noteq> IB_QPS_RTR \<and> cur_state \<noteq> IB_QPS_RTS
         \<and> cur_state \<noteq> IB_QPS_SQD \<and> cur_state \<noteq> IB_QPS_SQE
      then Some False
      else if \<not> valid (qp_state_table cur_state next_state) then Some False
      else if \<not> ib_qp_type_val type < ib_qp_type_val IB_QPT_MAX then None
      else
        (let req = req_param (qp_state_table cur_state next_state) type;
             opt = opt_param (qp_state_table cur_state next_state) type
         in if attr_mask AND req \<noteq> req then Some False
            else if attr_mask AND NOT (req OR opt OR IB_QP_STATE) \<noteq> 0 then Some False
            else Some True))"

section \<open>Following a queue pair\<close>

text \<open>
  A queue pair is followed by its state and the attributes supplied since it last left RESET.
  A step is a \<open>modify\<close> call the core accepts, whose new state is the requested one when
  \<open>IB_QP_STATE\<close> is in the mask and the current one otherwise, or a transition the hardware
  makes on its own: to SQE after a send error, to ERR after any other error.
\<close>

record qp_sm =
  qp_st :: ib_qp_state
  qp_set :: u32

definition qp_created :: qp_sm where
  "qp_created = \<lparr>qp_st = IB_QPS_RESET, qp_set = 0\<rparr>"

inductive qp_step :: "ib_qp_type \<Rightarrow> qp_sm \<Rightarrow> qp_sm \<Rightarrow> bool" for t where
  qp_modify: "has_flag m IB_QP_STATE \<or> n = qp_st q \<Longrightarrow>
     ib_modify_qp_is_ok (qp_st q) n t m = Some True \<Longrightarrow>
     qp_step t q \<lparr>qp_st = n, qp_set = (if n = IB_QPS_RESET then 0 else qp_set q OR m)\<rparr>"
| qp_hw_sqe: "qp_st q = IB_QPS_RTS \<Longrightarrow> qp_step t q (q\<lparr>qp_st := IB_QPS_SQE\<rparr>)"
| qp_hw_err: "qp_step t q (q\<lparr>qp_st := IB_QPS_ERR\<rparr>)"

inductive qp_reachable :: "ib_qp_type \<Rightarrow> qp_sm \<Rightarrow> bool" for t where
  qp_start: "qp_reachable t qp_created"
| qp_next: "qp_reachable t q \<Longrightarrow> qp_step t q q' \<Longrightarrow> qp_reachable t q'"

text \<open>
  The attributes the InfiniBand architecture requires of a QP in a state, by transport: the
  address of the peer for the connected transports, the responder resources for those that
  answer RDMA reads and atomics, the retry parameters for those that send them.
\<close>

definition is_connected :: "ib_qp_type \<Rightarrow> bool" where
  "is_connected t \<longleftrightarrow> t \<in> {IB_QPT_UC, IB_QPT_RC, IB_QPT_XRC_INI, IB_QPT_XRC_TGT}"

definition is_responder :: "ib_qp_type \<Rightarrow> bool" where
  "is_responder t \<longleftrightarrow> t \<in> {IB_QPT_RC, IB_QPT_XRC_TGT}"

definition is_requester :: "ib_qp_type \<Rightarrow> bool" where
  "is_requester t \<longleftrightarrow> t \<in> {IB_QPT_RC, IB_QPT_XRC_INI}"

definition is_datagram :: "ib_qp_type \<Rightarrow> bool" where
  "is_datagram t \<longleftrightarrow> t \<in> {IB_QPT_UD, IB_QPT_SMI, IB_QPT_GSI}"

definition init_attrs :: "ib_qp_type \<Rightarrow> u32" where
  "init_attrs t =
     (if is_connected t then IB_QP_PKEY_INDEX OR IB_QP_PORT OR IB_QP_ACCESS_FLAGS else 0)
     OR (if is_datagram t then IB_QP_PKEY_INDEX OR IB_QP_QKEY else 0)
     OR (if t = IB_QPT_UD \<or> t = IB_QPT_RAW_PACKET then IB_QP_PORT else 0)"

definition rtr_attrs :: "ib_qp_type \<Rightarrow> u32" where
  "rtr_attrs t =
     (if is_connected t then IB_QP_AV OR IB_QP_PATH_MTU OR IB_QP_DEST_QPN OR IB_QP_RQ_PSN else 0)
     OR (if is_responder t then IB_QP_MAX_DEST_RD_ATOMIC OR IB_QP_MIN_RNR_TIMER else 0)"

definition rts_attrs :: "ib_qp_type \<Rightarrow> u32" where
  "rts_attrs t =
     (if is_connected t \<or> is_datagram t then IB_QP_SQ_PSN else 0)
     OR (if is_requester t then IB_QP_RETRY_CNT OR IB_QP_RNR_RETRY OR IB_QP_MAX_QP_RD_ATOMIC else 0)
     OR (if is_requester t \<or> is_responder t then IB_QP_TIMEOUT else 0)"

fun qp_needs :: "ib_qp_type \<Rightarrow> ib_qp_state \<Rightarrow> u32" where
  "qp_needs t IB_QPS_RESET = 0"
| "qp_needs t IB_QPS_ERR = 0"
| "qp_needs t IB_QPS_INIT = init_attrs t"
| "qp_needs t IB_QPS_RTR = init_attrs t OR rtr_attrs t"
| "qp_needs t _ = init_attrs t OR rtr_attrs t OR rts_attrs t"

lemmas qp_transport_defs = is_connected_def is_responder_def is_requester_def is_datagram_def
lemmas qp_spec_defs = qp_transport_defs init_attrs_def rtr_attrs_def rts_attrs_def

lemma modify_qp_is_ok_iff:
  "ib_modify_qp_is_ok c n t m = Some True \<longleftrightarrow>
     \<not> (has_flag m IB_QP_CUR_STATE \<and> c \<in> {IB_QPS_RESET, IB_QPS_INIT, IB_QPS_ERR}) \<and>
     valid (qp_state_table c n) \<and> ib_qp_type_val t < ib_qp_type_val IB_QPT_MAX \<and>
     covers m (req_param (qp_state_table c n) t) \<and>
     covers (req_param (qp_state_table c n) t OR opt_param (qp_state_table c n) t OR IB_QP_STATE) m"
  unfolding ib_modify_qp_is_ok_def Let_def and_not_zero_iff_covers
  by (cases c) (auto simp: covers_def and_not_zero_iff_covers)

text \<open>Before RTR no entry of the table lists \<open>IB_QP_CUR_STATE\<close>.\<close>

lemma no_cur_state_bit:
  assumes "c \<in> {IB_QPS_RESET, IB_QPS_INIT, IB_QPS_ERR}"
  shows "(req_param (qp_state_table c n) t OR opt_param (qp_state_table c n) t OR IB_QP_STATE)
         AND IB_QP_CUR_STATE = 0"
  using assms by (auto; cases n; cases t; simp add: qp_trans_zero_def flag_defs)

lemma covers_has_flag: "covers r m \<Longrightarrow> has_flag m f \<Longrightarrow> has_flag r f"
  unfolding covers_iff_bits has_flag_def by (auto simp: bit_eq_iff bit_and_iff)

lemma qp_needs_step:
  assumes "valid (qp_state_table c n)"
  shows "covers (qp_needs t c OR req_param (qp_state_table c n) t) (qp_needs t n)"
  using assms
  by (cases c; cases n; cases t)
     (simp_all add: qp_trans_zero_def covers_def flag_defs qp_spec_defs)

inductive_cases qp_stepE [elim]: "qp_step t q q'"

lemma qp_step_needs:
  assumes "qp_step t q q'" and "covers (qp_set q) (qp_needs t (qp_st q))"
  shows "covers (qp_set q') (qp_needs t (qp_st q'))"
  using assms(1)
proof cases
  case (qp_modify m n)
  then have v: "valid (qp_state_table (qp_st q) n)"
    and r: "covers m (req_param (qp_state_table (qp_st q) n) t)"
    by (simp_all add: modify_qp_is_ok_iff)
  have "covers (qp_set q OR m) (qp_needs t (qp_st q) OR req_param (qp_state_table (qp_st q) n) t)"
    using assms(2) r by (simp add: covers_or covers_or_left covers_or_right)
  with qp_needs_step [OF v, of t] have "covers (qp_set q OR m) (qp_needs t n)"
    using covers_trans by blast
  then show ?thesis
    using qp_modify(1) by simp
qed (use assms(2) in auto)

section \<open>Properties of the QP state machine\<close>

text \<open>C3: Along every sequence of accepted \<open>modify\<close> calls and asynchronous hardware
  transitions, a queue pair in a state has been given, since it last left RESET, every attribute
  its transport needs there: in particular no connected QP receives or sends without an address
  vector, a path MTU, a destination QPN and its packet sequence numbers.\<close>

theorem qp_attrs_established:
  "qp_reachable t q \<Longrightarrow> covers (qp_set q) (qp_needs t (qp_st q))"
proof (induction rule: qp_reachable.induct)
  case qp_start
  show ?case by (simp add: qp_created_def)
next
  case (qp_next q q')
  then show ?case by (blast intro: qp_step_needs)
qed

lemma qp_reachable_init_example:
  "qp_reachable IB_QPT_RAW_PACKET \<lparr>qp_st = IB_QPS_INIT, qp_set = 0x21\<rparr>"
proof -
  have "qp_step IB_QPT_RAW_PACKET qp_created
          \<lparr>qp_st = IB_QPS_INIT, qp_set = (if IB_QPS_INIT = IB_QPS_RESET then 0 else qp_set qp_created OR 0x21)\<rparr>"
    by (rule qp_modify)
       (simp_all add: qp_created_def has_flag_def flag_defs modify_qp_is_ok_iff covers_def)
  then show ?thesis
    using qp_reachable.qp_next [OF qp_reachable.qp_start] by (simp add: qp_created_def)
qed

theorem qp_attrs_established_witness:
  "qp_reachable IB_QPT_RAW_PACKET \<lparr>qp_st = IB_QPS_INIT, qp_set = 0x21\<rparr> \<and> covers 0x21 IB_QP_PORT"
  using qp_reachable_init_example qp_attrs_established [OF qp_reachable_init_example]
  by (simp add: qp_spec_defs)

text \<open>The verdict of \<open>ib_modify_qp_is_ok\<close> is decided by the table alone: a call is
  accepted exactly when the transition is valid, the type has a slot, every required attribute is
  present and no attribute outside the required, optional and state bits is. The separate test of
  \<open>IB_QP_CUR_STATE\<close> never rejects a call the table would accept.\<close>

theorem modify_qp_is_ok_table:
  "ib_modify_qp_is_ok c n t m = Some True \<longleftrightarrow>
     valid (qp_state_table c n) \<and> ib_qp_type_val t < ib_qp_type_val IB_QPT_MAX \<and>
     covers m (req_param (qp_state_table c n) t) \<and>
     covers (req_param (qp_state_table c n) t OR opt_param (qp_state_table c n) t OR IB_QP_STATE) m"
  using no_cur_state_bit [of c n t] covers_has_flag [of _ m IB_QP_CUR_STATE]
  unfolding modify_qp_is_ok_iff has_flag_def by blast

text \<open>A queue pair can always be recovered: from every state a bare state change to RESET is
  accepted for every type the table knows, and to ERR from every state but RESET.\<close>

theorem qp_always_recoverable:
  assumes "ib_qp_type_val t < ib_qp_type_val IB_QPT_MAX"
  shows "ib_modify_qp_is_ok c IB_QPS_RESET t IB_QP_STATE = Some True \<and>
         (c \<noteq> IB_QPS_RESET \<longrightarrow> ib_modify_qp_is_ok c IB_QPS_ERR t IB_QP_STATE = Some True)"
  using assms
  by (cases c; simp add: ib_modify_qp_is_ok_def has_flag_def flag_defs)

theorem qp_always_recoverable_witness:
  "ib_modify_qp_is_ok IB_QPS_SQE IB_QPS_RESET IB_QPT_UD IB_QP_STATE = Some True \<and>
   ib_modify_qp_is_ok IB_QPS_SQE IB_QPS_ERR IB_QPT_UD IB_QP_STATE = Some True"
  using qp_always_recoverable [of IB_QPT_UD IB_QPS_SQE] by simp

text \<open>For the QP type this repository adds, \<open>IB_QPT_SRM\<close>, the table has no attribute
  entry: the core check accepts a valid transition with at most the state bit and rejects every
  call that carries an attribute, so an SRM queue pair cannot be brought up under this check.\<close>

theorem srm_accepts_state_only:
  "ib_modify_qp_is_ok c n IB_QPT_SRM m = Some True \<longleftrightarrow>
     valid (qp_state_table c n) \<and> (m = 0 \<or> m = IB_QP_STATE)"
proof -
  have z: "req_param (qp_state_table c n) IB_QPT_SRM = 0" "opt_param (qp_state_table c n) IB_QPT_SRM = 0"
    by (cases c; cases n; simp add: qp_trans_zero_def)+
  have m: "covers IB_QP_STATE m \<longleftrightarrow> m = 0 \<or> m = IB_QP_STATE"
    by (cases "odd m") (auto simp: covers_def flag_defs one_and_eq mod_2_eq_odd)
  show ?thesis
    unfolding modify_qp_is_ok_iff z
    using m no_cur_state_bit [of c n IB_QPT_SRM] by (auto simp: has_flag_def flag_defs)
qed

text \<open>The two rate conversions are inverse to each other: away from \<open>IB_RATE_PORT_CURRENT\<close>,
  a multiple of 2.5 Gb/s decodes to a rate exactly when the rate encodes to that multiple, and the
  exact speeds in Mb/s are ordered as the multiples are.\<close>

theorem ib_rate_roundtrip:
  assumes "r \<noteq> IB_RATE_PORT_CURRENT" and "r' \<noteq> IB_RATE_PORT_CURRENT"
  shows "(mult_to_ib_rate m = r \<longleftrightarrow> ib_rate_to_mult r = m) \<and>
         (ib_rate_to_mult r < ib_rate_to_mult r' \<longleftrightarrow> ib_rate_to_mbps r < ib_rate_to_mbps r')"
proof (rule conjI)
  show "mult_to_ib_rate m = r \<longleftrightarrow> ib_rate_to_mult r = m"
    using assms(1) by (cases r; simp add: mult_to_ib_rate_def)
  show "ib_rate_to_mult r < ib_rate_to_mult r' \<longleftrightarrow> ib_rate_to_mbps r < ib_rate_to_mbps r'"
    using assms by (cases r; cases r'; simp)
qed

theorem ib_rate_roundtrip_witness:
  "mult_to_ib_rate 22 = IB_RATE_56_GBPS \<and> ib_rate_to_mbps IB_RATE_56_GBPS < ib_rate_to_mbps IB_RATE_60_GBPS"
  using ib_rate_roundtrip [of IB_RATE_56_GBPS IB_RATE_60_GBPS 22] by simp

end
