(* ===== verification/Smi.thy ===== *)
theory Smi
  imports Kern_Prelude
begin

unbundle bit_operations_syntax

text \<open>
  Directed-route subnet management packets: \<open>drivers/infiniband/core/smi.c\<close> with the inline
  checks of \<open>smi.h\<close> and \<open>opa_smi.h\<close>, and the receive-side handlers
  \<open>handle_ib_smi\<close> and \<open>handle_opa_smi\<close> of \<open>mad.c\<close> that compose them. The InfiniBand
  and the Omni-Path packet formats share the same hop processing; the interface between the
  format and the processing is the locale \<open>dr_smp\<close>, interpreted on both.

  Fields in network byte order are modelled by their value. Array accesses are bounds-checked:
  \<open>None\<close> stands for an access outside \<open>initial_path\<close> or \<open>return_path\<close>.
\<close>

section \<open>Hop processing\<close>

datatype smi_action = IB_SMI_DISCARD | IB_SMI_HANDLE

datatype smi_forward_action = IB_SMI_LOCAL | IB_SMI_SEND | IB_SMI_FORWARD

definition IB_SMP_MAX_PATH_HOPS :: nat where
  "IB_SMP_MAX_PATH_HOPS = 64"

definition handle_if :: "bool \<Rightarrow> smi_action" where
  "handle_if b = (if b then IB_SMI_HANDLE else IB_SMI_DISCARD)"

text \<open>\<open>__smi_handle_dr_smp_send\<close>: the action and the new hop pointer.\<close>

definition do_smi_handle_dr_smp_send ::
  "bool \<Rightarrow> u32 \<Rightarrow> u8 \<Rightarrow> u8 \<Rightarrow> u8 list \<Rightarrow> u8 list \<Rightarrow> bool \<Rightarrow> bool \<Rightarrow> bool \<Rightarrow> (smi_action \<times> u8) option" where
  "do_smi_handle_dr_smp_send is_switch port_num hop_ptr hop_cnt initial_path return_path direction
     dr_dlid_is_permissive dr_slid_is_permissive =
   (if IB_SMP_MAX_PATH_HOPS \<le> unat hop_cnt then Some (IB_SMI_DISCARD, hop_ptr)
    else if \<not> direction then
      (if hop_cnt \<noteq> 0 \<and> hop_ptr = 0 then
         do { p \<leftarrow> arr_get initial_path (unat (hop_ptr + 1));
              Some (handle_if (ucast p = port_num), hop_ptr + 1) }
       else if hop_ptr \<noteq> 0 \<and> hop_ptr < hop_cnt then
         (if \<not> is_switch then Some (IB_SMI_DISCARD, hop_ptr)
          else do { p \<leftarrow> arr_get initial_path (unat (hop_ptr + 1));
                    Some (handle_if (ucast p = port_num), hop_ptr + 1) })
       else if hop_ptr = hop_cnt then
         Some (handle_if (is_switch \<or> dr_dlid_is_permissive), hop_ptr + 1)
       else Some (handle_if (unat hop_ptr = unat hop_cnt + 1), hop_ptr))
    else
      (if hop_cnt \<noteq> 0 \<and> unat hop_ptr = unat hop_cnt + 1 then
         do { p \<leftarrow> arr_get return_path (unat (hop_ptr - 1));
              Some (handle_if (ucast p = port_num), hop_ptr - 1) }
       else if 2 \<le> hop_ptr \<and> hop_ptr \<le> hop_cnt then
         (if \<not> is_switch then Some (IB_SMI_DISCARD, hop_ptr)
          else do { p \<leftarrow> arr_get return_path (unat (hop_ptr - 1));
                    Some (handle_if (ucast p = port_num), hop_ptr - 1) })
       else if hop_ptr = 1 then
         Some (handle_if (is_switch \<or> dr_slid_is_permissive), hop_ptr - 1)
       else if hop_ptr = 0 then Some (IB_SMI_HANDLE, hop_ptr)
       else Some (IB_SMI_DISCARD, hop_ptr)))"

text \<open>\<open>__smi_handle_dr_smp_recv\<close>: the action, the new hop pointer and the new return path.\<close>

definition do_smi_handle_dr_smp_recv ::
  "bool \<Rightarrow> u32 \<Rightarrow> int \<Rightarrow> u8 \<Rightarrow> u8 \<Rightarrow> u8 list \<Rightarrow> u8 list \<Rightarrow> bool \<Rightarrow> bool \<Rightarrow> bool
    \<Rightarrow> (smi_action \<times> u8 \<times> u8 list) option" where
  "do_smi_handle_dr_smp_recv is_switch port_num phys_port_cnt hop_ptr hop_cnt initial_path
     return_path direction dr_dlid_is_permissive dr_slid_is_permissive =
   (if IB_SMP_MAX_PATH_HOPS \<le> unat hop_cnt then Some (IB_SMI_DISCARD, hop_ptr, return_path)
    else if \<not> direction then
      (if hop_cnt \<noteq> 0 \<and> hop_ptr = 0 then Some (IB_SMI_DISCARD, hop_ptr, return_path)
       else if hop_ptr \<noteq> 0 \<and> hop_ptr < hop_cnt then
         (if \<not> is_switch then Some (IB_SMI_DISCARD, hop_ptr, return_path)
          else do { rp \<leftarrow> arr_set return_path (unat hop_ptr) (ucast port_num);
                    p \<leftarrow> arr_get initial_path (unat hop_ptr + 1);
                    Some (handle_if (int (unat p) \<le> phys_port_cnt), hop_ptr, rp) })
       else if hop_ptr = hop_cnt then
         do { rp \<leftarrow> (if hop_cnt \<noteq> 0 then arr_set return_path (unat hop_ptr) (ucast port_num)
                     else Some return_path);
              Some (handle_if (is_switch \<or> dr_dlid_is_permissive), hop_ptr, rp) }
       else Some (handle_if (unat hop_ptr = unat hop_cnt + 1), hop_ptr, return_path))
    else
      (if hop_cnt \<noteq> 0 \<and> unat hop_ptr = unat hop_cnt + 1 then
         do { p \<leftarrow> arr_get return_path (unat (hop_ptr - 1));
              Some (handle_if (ucast p = port_num), hop_ptr - 1, return_path) }
       else if 2 \<le> hop_ptr \<and> hop_ptr \<le> hop_cnt then
         (if \<not> is_switch then Some (IB_SMI_DISCARD, hop_ptr, return_path)
          else do { p \<leftarrow> arr_get return_path (unat hop_ptr - 1);
                    Some (handle_if (int (unat p) \<le> phys_port_cnt), hop_ptr, return_path) })
       else if hop_ptr = 1 then
         (if dr_slid_is_permissive then Some (IB_SMI_HANDLE, hop_ptr - 1, return_path)
          else Some (handle_if is_switch, hop_ptr, return_path))
       else Some (handle_if (hop_ptr = 0), hop_ptr, return_path)))"

text \<open>\<open>__smi_check_forward_dr_smp\<close>.\<close>

definition do_smi_check_forward_dr_smp :: "u8 \<Rightarrow> u8 \<Rightarrow> bool \<Rightarrow> bool \<Rightarrow> bool \<Rightarrow> smi_forward_action" where
  "do_smi_check_forward_dr_smp hop_ptr hop_cnt direction dr_dlid_is_permissive dr_slid_is_permissive =
   (if \<not> direction then
      (if hop_ptr \<noteq> 0 \<and> hop_ptr < hop_cnt then IB_SMI_FORWARD
       else if hop_ptr = hop_cnt then (if dr_dlid_is_permissive then IB_SMI_SEND else IB_SMI_LOCAL)
       else if unat hop_ptr = unat hop_cnt + 1 then IB_SMI_SEND
       else IB_SMI_LOCAL)
    else
      (if 2 \<le> hop_ptr \<and> hop_ptr \<le> hop_cnt then IB_SMI_FORWARD
       else if hop_ptr = 1 then (if \<not> dr_slid_is_permissive then IB_SMI_SEND else IB_SMI_LOCAL)
       else IB_SMI_LOCAL))"

section \<open>The InfiniBand packet\<close>

record ib_smp =
  base_version :: u8
  mgmt_class :: u8
  class_version :: u8
  smp_method :: u8
  status :: u16
  hop_ptr :: u8
  hop_cnt :: u8
  tid :: u64
  attr_id :: u16
  resv :: u16
  attr_mod :: u32
  mkey :: u64
  dr_slid :: u16
  dr_dlid :: u16
  reserved :: "u8 list"
  smp_data :: "u8 list"
  initial_path :: "u8 list"
  return_path :: "u8 list"

definition IB_SMP_DIRECTION :: u16 where "IB_SMP_DIRECTION = 0x8000"

definition IB_LID_PERMISSIVE :: u16 where "IB_LID_PERMISSIVE = 0xFFFF"

definition ib_get_smp_direction :: "ib_smp \<Rightarrow> bool" where
  "ib_get_smp_direction smp \<longleftrightarrow> status smp AND IB_SMP_DIRECTION = IB_SMP_DIRECTION"

definition smi_handle_dr_smp_send :: "ib_smp \<Rightarrow> bool \<Rightarrow> u32 \<Rightarrow> (smi_action \<times> ib_smp) option" where
  "smi_handle_dr_smp_send smp is_switch port_num =
     map_option (\<lambda>(a, h). (a, smp\<lparr>hop_ptr := h\<rparr>))
       (do_smi_handle_dr_smp_send is_switch port_num (hop_ptr smp) (hop_cnt smp)
          (initial_path smp) (return_path smp) (ib_get_smp_direction smp)
          (dr_dlid smp = IB_LID_PERMISSIVE) (dr_slid smp = IB_LID_PERMISSIVE))"

definition smi_handle_dr_smp_recv ::
  "ib_smp \<Rightarrow> bool \<Rightarrow> u32 \<Rightarrow> int \<Rightarrow> (smi_action \<times> ib_smp) option" where
  "smi_handle_dr_smp_recv smp is_switch port_num phys_port_cnt =
     map_option (\<lambda>(a, h, rp). (a, smp\<lparr>hop_ptr := h, return_path := rp\<rparr>))
       (do_smi_handle_dr_smp_recv is_switch port_num phys_port_cnt (hop_ptr smp) (hop_cnt smp)
          (initial_path smp) (return_path smp) (ib_get_smp_direction smp)
          (dr_dlid smp = IB_LID_PERMISSIVE) (dr_slid smp = IB_LID_PERMISSIVE))"

definition smi_check_forward_dr_smp :: "ib_smp \<Rightarrow> smi_forward_action" where
  "smi_check_forward_dr_smp smp =
     do_smi_check_forward_dr_smp (hop_ptr smp) (hop_cnt smp) (ib_get_smp_direction smp)
       (dr_dlid smp = IB_LID_PERMISSIVE) (dr_slid smp = IB_LID_PERMISSIVE)"

definition smi_get_fwd_port :: "ib_smp \<Rightarrow> u8 option" where
  "smi_get_fwd_port smp =
     (if \<not> ib_get_smp_direction smp then arr_get (initial_path smp) (unat (hop_ptr smp) + 1)
      else if hop_ptr smp = 0 then None
      else arr_get (return_path smp) (unat (hop_ptr smp) - 1))"

text \<open>\<open>process_mad\<close> says whether the driver implements \<open>device->ops.process_mad\<close>.\<close>

definition smi_check_local_smp :: "bool \<Rightarrow> ib_smp \<Rightarrow> smi_action" where
  "smi_check_local_smp process_mad smp =
     handle_if (process_mad \<and> \<not> ib_get_smp_direction smp \<and> unat (hop_ptr smp) = unat (hop_cnt smp) + 1)"

definition smi_check_local_returning_smp :: "bool \<Rightarrow> ib_smp \<Rightarrow> smi_action" where
  "smi_check_local_returning_smp process_mad smp =
     handle_if (process_mad \<and> ib_get_smp_direction smp \<and> hop_ptr smp = 0)"

text \<open>
  \<open>handle_ib_smi\<close> returns its action, the packet as it left it and, when the packet was passed
  to \<open>agent_send_response\<close>, the port it was sent to. \<open>is_switch\<close> is
  \<open>rdma_cap_ib_switch(device)\<close>.
\<close>

definition handle_ib_smi ::
  "bool \<Rightarrow> bool \<Rightarrow> int \<Rightarrow> u32 \<Rightarrow> ib_smp \<Rightarrow> (smi_action \<times> ib_smp \<times> u8 option) option" where
  "handle_ib_smi process_mad is_switch phys_port_cnt port_num recv =
     do {
       (a, smp) \<leftarrow> smi_handle_dr_smp_recv recv is_switch port_num phys_port_cnt;
       if a = IB_SMI_DISCARD then Some (IB_SMI_DISCARD, smp, None)
       else case smi_check_forward_dr_smp smp of
         IB_SMI_LOCAL \<Rightarrow> Some (IB_SMI_HANDLE, smp, None)
       | IB_SMI_SEND \<Rightarrow>
           do {
             (b, smp) \<leftarrow> smi_handle_dr_smp_send smp is_switch port_num;
             if b = IB_SMI_DISCARD then Some (IB_SMI_DISCARD, smp, None)
             else if smi_check_local_smp process_mad smp = IB_SMI_DISCARD
               then Some (IB_SMI_DISCARD, smp, None)
             else Some (IB_SMI_HANDLE, smp, None)
           }
       | IB_SMI_FORWARD \<Rightarrow>
           if is_switch then
             do { p \<leftarrow> smi_get_fwd_port smp; Some (IB_SMI_DISCARD, smp, Some p) }
           else Some (IB_SMI_HANDLE, smp, None)
     }"

text \<open>
  What \<open>handle_outgoing_dr_smp\<close> decides before it allocates anything: reject the packet,
  post it on the QP, or process it on this node. The hop pointer moves only when the LID-routed
  part at this end is empty.
\<close>

datatype 's dr_out = DR_INVALID | DR_POST 's | DR_LOCAL 's

definition handle_outgoing_ib_smp ::
  "bool \<Rightarrow> bool \<Rightarrow> u32 \<Rightarrow> ib_smp \<Rightarrow> ib_smp dr_out option" where
  "handle_outgoing_ib_smp process_mad is_switch port_num smp =
     do {
       (a, smp) \<leftarrow> (if (if ib_get_smp_direction smp then dr_dlid smp else dr_slid smp) = IB_LID_PERMISSIVE
                   then smi_handle_dr_smp_send smp is_switch port_num
                   else Some (IB_SMI_HANDLE, smp));
       Some (if a = IB_SMI_DISCARD then DR_INVALID
             else if smi_check_local_smp process_mad smp = IB_SMI_DISCARD \<and>
                     smi_check_local_returning_smp process_mad smp = IB_SMI_DISCARD
               then DR_POST smp
             else DR_LOCAL smp)
     }"

section \<open>The Omni-Path packet\<close>

text \<open>The directed-route view \<open>route.dr\<close> of the packet's union.\<close>

record opa_smp =
  opa_base_version :: u8
  opa_mgmt_class :: u8
  opa_class_version :: u8
  opa_method :: u8
  opa_status :: u16
  opa_hop_ptr :: u8
  opa_hop_cnt :: u8
  opa_tid :: u64
  opa_attr_id :: u16
  opa_resv :: u16
  opa_attr_mod :: u32
  opa_mkey :: u64
  opa_dr_slid :: u32
  opa_dr_dlid :: u32
  opa_initial_path :: "u8 list"
  opa_return_path :: "u8 list"
  opa_reserved :: "u8 list"
  opa_data :: "u8 list"

definition OPA_LID_PERMISSIVE :: u32 where "OPA_LID_PERMISSIVE = 0xFFFFFFFF"

definition opa_get_smp_direction :: "opa_smp \<Rightarrow> bool" where
  "opa_get_smp_direction smp \<longleftrightarrow> opa_status smp AND IB_SMP_DIRECTION = IB_SMP_DIRECTION"

definition opa_smi_handle_dr_smp_send ::
  "opa_smp \<Rightarrow> bool \<Rightarrow> u32 \<Rightarrow> (smi_action \<times> opa_smp) option" where
  "opa_smi_handle_dr_smp_send smp is_switch port_num =
     map_option (\<lambda>(a, h). (a, smp\<lparr>opa_hop_ptr := h\<rparr>))
       (do_smi_handle_dr_smp_send is_switch port_num (opa_hop_ptr smp) (opa_hop_cnt smp)
          (opa_initial_path smp) (opa_return_path smp) (opa_get_smp_direction smp)
          (opa_dr_dlid smp = OPA_LID_PERMISSIVE) (opa_dr_slid smp = OPA_LID_PERMISSIVE))"

definition opa_smi_handle_dr_smp_recv ::
  "opa_smp \<Rightarrow> bool \<Rightarrow> u32 \<Rightarrow> int \<Rightarrow> (smi_action \<times> opa_smp) option" where
  "opa_smi_handle_dr_smp_recv smp is_switch port_num phys_port_cnt =
     map_option (\<lambda>(a, h, rp). (a, smp\<lparr>opa_hop_ptr := h, opa_return_path := rp\<rparr>))
       (do_smi_handle_dr_smp_recv is_switch port_num phys_port_cnt (opa_hop_ptr smp)
          (opa_hop_cnt smp) (opa_initial_path smp) (opa_return_path smp)
          (opa_get_smp_direction smp)
          (opa_dr_dlid smp = OPA_LID_PERMISSIVE) (opa_dr_slid smp = OPA_LID_PERMISSIVE))"

definition opa_smi_check_forward_dr_smp :: "opa_smp \<Rightarrow> smi_forward_action" where
  "opa_smi_check_forward_dr_smp smp =
     do_smi_check_forward_dr_smp (opa_hop_ptr smp) (opa_hop_cnt smp) (opa_get_smp_direction smp)
       (opa_dr_dlid smp = OPA_LID_PERMISSIVE) (opa_dr_slid smp = OPA_LID_PERMISSIVE)"

definition opa_smi_get_fwd_port :: "opa_smp \<Rightarrow> u8 option" where
  "opa_smi_get_fwd_port smp =
     (if \<not> opa_get_smp_direction smp
      then arr_get (opa_initial_path smp) (unat (opa_hop_ptr smp) + 1)
      else if opa_hop_ptr smp = 0 then None
      else arr_get (opa_return_path smp) (unat (opa_hop_ptr smp) - 1))"

definition opa_smi_check_local_smp :: "bool \<Rightarrow> opa_smp \<Rightarrow> smi_action" where
  "opa_smi_check_local_smp process_mad smp =
     handle_if (process_mad \<and> \<not> opa_get_smp_direction smp \<and>
                unat (opa_hop_ptr smp) = unat (opa_hop_cnt smp) + 1)"

definition opa_smi_check_local_returning_smp :: "bool \<Rightarrow> opa_smp \<Rightarrow> smi_action" where
  "opa_smi_check_local_returning_smp process_mad smp =
     handle_if (process_mad \<and> opa_get_smp_direction smp \<and> opa_hop_ptr smp = 0)"

definition handle_opa_smi ::
  "bool \<Rightarrow> bool \<Rightarrow> int \<Rightarrow> u32 \<Rightarrow> opa_smp \<Rightarrow> (smi_action \<times> opa_smp \<times> u8 option) option" where
  "handle_opa_smi process_mad is_switch phys_port_cnt port_num recv =
     do {
       (a, smp) \<leftarrow> opa_smi_handle_dr_smp_recv recv is_switch port_num phys_port_cnt;
       if a = IB_SMI_DISCARD then Some (IB_SMI_DISCARD, smp, None)
       else case opa_smi_check_forward_dr_smp smp of
         IB_SMI_LOCAL \<Rightarrow> Some (IB_SMI_HANDLE, smp, None)
       | IB_SMI_SEND \<Rightarrow>
           do {
             (b, smp) \<leftarrow> opa_smi_handle_dr_smp_send smp is_switch port_num;
             if b = IB_SMI_DISCARD then Some (IB_SMI_DISCARD, smp, None)
             else if opa_smi_check_local_smp process_mad smp = IB_SMI_DISCARD
               then Some (IB_SMI_DISCARD, smp, None)
             else Some (IB_SMI_HANDLE, smp, None)
           }
       | IB_SMI_FORWARD \<Rightarrow>
           if is_switch then
             do { p \<leftarrow> opa_smi_get_fwd_port smp; Some (IB_SMI_DISCARD, smp, Some p) }
           else Some (IB_SMI_HANDLE, smp, None)
     }"

text \<open>The Omni-Path branch of \<open>handle_outgoing_dr_smp\<close> also rejects a source LID over 16 bits.\<close>

definition handle_outgoing_opa_smp ::
  "bool \<Rightarrow> bool \<Rightarrow> u32 \<Rightarrow> opa_smp \<Rightarrow> opa_smp dr_out option" where
  "handle_outgoing_opa_smp process_mad is_switch port_num smp =
     do {
       (a, smp) \<leftarrow> (if (if opa_get_smp_direction smp then opa_dr_dlid smp else opa_dr_slid smp)
                       = OPA_LID_PERMISSIVE
                   then opa_smi_handle_dr_smp_send smp is_switch port_num
                   else Some (IB_SMI_HANDLE, smp));
       Some (if a = IB_SMI_DISCARD then DR_INVALID
             else if opa_dr_slid smp \<noteq> OPA_LID_PERMISSIVE \<and> has_flag (opa_dr_slid smp) 0xffff0000
               then DR_INVALID
             else if opa_smi_check_local_smp process_mad smp = IB_SMI_DISCARD \<and>
                     opa_smi_check_local_returning_smp process_mad smp = IB_SMI_DISCARD
               then DR_POST smp
             else DR_LOCAL smp)
     }"

section \<open>A route through the fabric\<close>

text \<open>
  A switch that receives a packet on port \<open>q\<close> runs the receive handler and posts the packet it
  forwards on the port the handler chose. A route is a list of switches, each given by the port
  the packet arrives on and its number of ports; the result collects the ports the packet left on.
\<close>

definition dr_switch_hop ::
  "(int \<Rightarrow> u32 \<Rightarrow> 's \<Rightarrow> (smi_action \<times> 's \<times> u8 option) option) \<Rightarrow> (u32 \<Rightarrow> 's \<Rightarrow> 's dr_out option)
    \<Rightarrow> u32 \<Rightarrow> int \<Rightarrow> 's \<Rightarrow> (u8 \<times> 's) option" where
  "dr_switch_hop handle out q phys s =
     (case handle phys q s of
        Some (IB_SMI_DISCARD, s', Some p) \<Rightarrow>
          (case out (ucast p) s' of Some (DR_POST s'') \<Rightarrow> Some (p, s'') | _ \<Rightarrow> None)
      | _ \<Rightarrow> None)"

fun dr_route ::
  "(u32 \<Rightarrow> int \<Rightarrow> 's \<Rightarrow> (u8 \<times> 's) option) \<Rightarrow> (u32 \<times> int) list \<Rightarrow> 's \<Rightarrow> (u8 list \<times> 's) option" where
  "dr_route hop [] s = Some ([], s)"
| "dr_route hop ((q, phys) # sws) s =
     do { (p, s') \<leftarrow> hop q phys s; (ps, s'') \<leftarrow> dr_route hop sws s'; Some (p # ps, s'') }"

text \<open>The return path after the ports \<open>qs\<close> have been recorded from slot \<open>k\<close> on.\<close>

fun record_ports :: "nat \<Rightarrow> u32 list \<Rightarrow> u8 list \<Rightarrow> u8 list" where
  "record_ports k [] rp = rp"
| "record_ports k (q # qs) rp = record_ports (Suc k) qs (rp[k := ucast q])"

lemma length_record_ports [simp]: "length (record_ports k qs rp) = length rp"
  by (induction k qs rp rule: record_ports.induct) auto

lemma record_ports_other: "i < k \<or> k + length qs \<le> i \<Longrightarrow> record_ports k qs rp ! i = rp ! i"
  by (induction k qs rp rule: record_ports.induct) auto

lemma record_ports_nth:
  "k + length qs \<le> length rp \<Longrightarrow> i < length qs \<Longrightarrow> record_ports k qs rp ! (k + i) = ucast (qs ! i)"
proof (induction k qs rp arbitrary: i rule: record_ports.induct)
  case (2 k q qs rp)
  show ?case
  proof (cases i)
    case 0
    with 2 show ?thesis by (simp add: record_ports_other)
  next
    case (Suc j)
    with 2 "2.IH" [of j] show ?thesis by simp
  qed
qed simp

lemma record_ports_snoc: "record_ports k (qs @ [q]) rp = (record_ports k qs rp)[k + length qs := ucast q]"
  by (induction k qs rp rule: record_ports.induct) auto

section \<open>Facts about the hop processing\<close>

definition path_arrays :: "u8 list \<Rightarrow> u8 list \<Rightarrow> bool" where
  "path_arrays ip rp \<longleftrightarrow> length ip = IB_SMP_MAX_PATH_HOPS \<and> length rp = IB_SMP_MAX_PATH_HOPS"

lemma unat_u8_suc: "unat x < 255 \<Longrightarrow> unat (x + 1 :: u8) = Suc (unat x)"
  by (simp add: unat_word_ariths)

lemma unat_u8_pred: "x \<noteq> 0 \<Longrightarrow> unat (x - 1 :: u8) = unat x - 1"
  by (simp add: unat_minus_one)

lemma unat_ne_0: "2 \<le> unat x \<Longrightarrow> x \<noteq> (0 :: u8)"
  by auto

lemma u8_two_one: "\<not> (2 :: u8) \<le> 1"
  by (simp add: word_le_nat_alt)

lemma u8_pos: "x \<noteq> (0 :: u8) \<Longrightarrow> 0 < unat x"
  by (simp add: unat_gt_0)

lemma hop_next_bound:
  "hp < hc \<Longrightarrow> unat hc < 64 \<Longrightarrow> unat (hp + 1 :: u8) < 64"
  "hp < hc \<Longrightarrow> unat hc < 64 \<Longrightarrow> Suc (unat (hp :: u8)) < 64"
  "hp < hc \<Longrightarrow> unat hc < 64 \<Longrightarrow> unat (hp :: u8) < 64"
  by (auto simp: word_less_nat_alt unat_u8_suc)

lemma hop_prev_bound:
  "unat hp = Suc (unat (hc :: u8)) \<Longrightarrow> unat hc < 64 \<Longrightarrow> unat (hp - 1 :: u8) < 64"
  "2 \<le> hp \<Longrightarrow> hp \<le> hc \<Longrightarrow> unat hc < 64 \<Longrightarrow> unat (hp - 1 :: u8) < 64"
  "hp \<le> hc \<Longrightarrow> unat hc < 64 \<Longrightarrow> unat (hp :: u8) - Suc 0 < 64"
proof -
  show "unat (hp - 1) < 64" if "unat hp = Suc (unat hc)" "unat hc < 64"
    using that by (metis unat_u8_pred diff_Suc_1 nat.distinct(1) unat_0)
  show "unat (hp - 1) < 64" if "2 \<le> hp" "hp \<le> hc" "unat hc < 64"
  proof -
    have "hp \<noteq> 0" using that(1) by auto
    then show ?thesis using that(2,3) by (simp add: unat_u8_pred word_le_nat_alt)
  qed
qed (simp add: word_le_nat_alt)

lemma send_core_total:
  assumes "path_arrays ip rp"
  shows "defined (do_smi_handle_dr_smp_send sw p hp hc ip rp d dp sp)"
  unfolding do_smi_handle_dr_smp_send_def
  using assms hop_next_bound [of hp hc] hop_prev_bound [of hp hc]
  by (intro defined_intros) (auto simp: path_arrays_def IB_SMP_MAX_PATH_HOPS_def not_le)

lemma recv_core_total:
  assumes "path_arrays ip rp"
  shows "defined (do_smi_handle_dr_smp_recv sw p n hp hc ip rp d dp sp)"
  unfolding do_smi_handle_dr_smp_recv_def
  using assms hop_next_bound [of hp hc] hop_prev_bound [of hp hc]
  by (intro defined_intros) (auto simp: path_arrays_def IB_SMP_MAX_PATH_HOPS_def not_le)

lemma recv_core_length:
  "do_smi_handle_dr_smp_recv sw p n hp hc ip rp d dp sp = Some (a, h, r) \<Longrightarrow> length r = length rp"
  unfolding do_smi_handle_dr_smp_recv_def
  by (auto elim!: bind_eq_SomeE split: if_split_asm)

lemma recv_core_handle_cnt:
  "do_smi_handle_dr_smp_recv sw p n hp hc ip rp d dp sp = Some (IB_SMI_HANDLE, h, r) \<Longrightarrow>
   unat hc < IB_SMP_MAX_PATH_HOPS"
  unfolding do_smi_handle_dr_smp_recv_def by (auto split: if_split_asm)

section \<open>The interface to the packet format\<close>

text \<open>
  What the hop processing relies on in a packet format: the accessors, one joint update of the
  hop pointer and the return path, and the operations of the format, each of which runs the
  shared hop processing on the accessors.
\<close>

locale dr_smp =
  fixes hptr :: "'s \<Rightarrow> u8" and hcnt :: "'s \<Rightarrow> u8"
    and ipath :: "'s \<Rightarrow> u8 list" and rpath :: "'s \<Rightarrow> u8 list"
    and dir :: "'s \<Rightarrow> bool" and dperm :: "'s \<Rightarrow> bool" and sperm :: "'s \<Rightarrow> bool"
    and set_hop :: "u8 \<Rightarrow> u8 list \<Rightarrow> 's \<Rightarrow> 's"
    and send :: "'s \<Rightarrow> bool \<Rightarrow> u32 \<Rightarrow> (smi_action \<times> 's) option"
    and recv :: "'s \<Rightarrow> bool \<Rightarrow> u32 \<Rightarrow> int \<Rightarrow> (smi_action \<times> 's) option"
    and fwd_port :: "'s \<Rightarrow> u8 option"
    and handle :: "bool \<Rightarrow> bool \<Rightarrow> int \<Rightarrow> u32 \<Rightarrow> 's \<Rightarrow> (smi_action \<times> 's \<times> u8 option) option"
    and out :: "bool \<Rightarrow> bool \<Rightarrow> u32 \<Rightarrow> 's \<Rightarrow> 's dr_out option"
  assumes set_hop_get [simp]:
      "hptr (set_hop h r s) = h" "hcnt (set_hop h r s) = hcnt s"
      "ipath (set_hop h r s) = ipath s" "rpath (set_hop h r s) = r"
      "dir (set_hop h r s) = dir s" "dperm (set_hop h r s) = dperm s"
      "sperm (set_hop h r s) = sperm s"
    and set_hop_twice [simp]: "set_hop h r (set_hop h' r' s) = set_hop h r s"
    and set_hop_same [simp]: "set_hop (hptr s) (rpath s) s = s"
    and send_eq: "send s sw p = map_option (\<lambda>(a, h). (a, set_hop h (rpath s) s))
        (do_smi_handle_dr_smp_send sw p (hptr s) (hcnt s) (ipath s) (rpath s) (dir s) (dperm s) (sperm s))"
    and recv_eq: "recv s sw p n = map_option (\<lambda>(a, h, r). (a, set_hop h r s))
        (do_smi_handle_dr_smp_recv sw p n (hptr s) (hcnt s) (ipath s) (rpath s) (dir s) (dperm s) (sperm s))"
    and fwd_port_eq: "fwd_port s =
        (if \<not> dir s then arr_get (ipath s) (unat (hptr s) + 1)
         else if hptr s = 0 then None else arr_get (rpath s) (unat (hptr s) - 1))"
    and handle_eq: "handle pm sw n p s =
        do { (a, s) \<leftarrow> recv s sw p n;
             if a = IB_SMI_DISCARD then Some (IB_SMI_DISCARD, s, None)
             else case do_smi_check_forward_dr_smp (hptr s) (hcnt s) (dir s) (dperm s) (sperm s) of
               IB_SMI_LOCAL \<Rightarrow> Some (IB_SMI_HANDLE, s, None)
             | IB_SMI_SEND \<Rightarrow>
                 do { (b, s) \<leftarrow> send s sw p;
                      Some (if b = IB_SMI_DISCARD \<or> \<not> (pm \<and> \<not> dir s \<and> unat (hptr s) = unat (hcnt s) + 1)
                            then IB_SMI_DISCARD else IB_SMI_HANDLE, s, None) }
             | IB_SMI_FORWARD \<Rightarrow>
                 if sw then do { p \<leftarrow> fwd_port s; Some (IB_SMI_DISCARD, s, Some p) }
                 else Some (IB_SMI_HANDLE, s, None) }"
    and out_perm: "(if dir s then dperm s else sperm s) \<Longrightarrow> sperm s \<Longrightarrow> out pm sw p s =
        do { (a, s) \<leftarrow> send s sw p;
             Some (if a = IB_SMI_DISCARD then DR_INVALID
                   else if pm \<and> (if dir s then hptr s = 0 else unat (hptr s) = unat (hcnt s) + 1)
                     then DR_LOCAL s
                   else DR_POST s) }"
begin

text \<open>Sending and receiving never leave the path arrays, whatever the packet says.\<close>

lemma send_total: "path_arrays (ipath s) (rpath s) \<Longrightarrow> defined (send s sw p)"
  by (simp add: send_eq send_core_total)

lemma recv_total:
  assumes "path_arrays (ipath s) (rpath s)"
  obtains a h r where
    "do_smi_handle_dr_smp_recv sw p n (hptr s) (hcnt s) (ipath s) (rpath s) (dir s) (dperm s) (sperm s)
       = Some (a, h, r)"
    and "recv s sw p n = Some (a, set_hop h r s)" and "length r = length (rpath s)"
proof -
  obtain a h r where "do_smi_handle_dr_smp_recv sw p n (hptr s) (hcnt s) (ipath s) (rpath s) (dir s)
      (dperm s) (sperm s) = Some (a, h, r)"
    using recv_core_total [OF assms] by (metis defined_iff prod_cases3)
  with that recv_core_length show thesis by (simp add: recv_eq)
qed

text \<open>The port a packet is forwarded to is read inside the paths.\<close>

lemma fwd_port_total:
  assumes "path_arrays (ipath s) (rpath s)" and "unat (hcnt s) < IB_SMP_MAX_PATH_HOPS"
    and "do_smi_check_forward_dr_smp (hptr s) (hcnt s) (dir s) (dperm s) (sperm s) = IB_SMI_FORWARD"
  shows "defined (fwd_port s)"
  using assms hop_next_bound(2) [of "hptr s" "hcnt s"] hop_prev_bound(3) [of "hptr s" "hcnt s"]
  by (auto simp: fwd_port_eq do_smi_check_forward_dr_smp_def path_arrays_def IB_SMP_MAX_PATH_HOPS_def
      split: if_split_asm intro!: defined_get)

lemma handle_total:
  assumes "path_arrays (ipath s) (rpath s)"
  shows "defined (handle pm sw n p s)"
proof -
  obtain a h r where core: "do_smi_handle_dr_smp_recv sw p n (hptr s) (hcnt s) (ipath s) (rpath s)
        (dir s) (dperm s) (sperm s) = Some (a, h, r)"
    and recv: "recv s sw p n = Some (a, set_hop h r s)" and len: "length r = length (rpath s)"
    using recv_total [OF assms] by metis
  have arrays: "path_arrays (ipath (set_hop h r s)) (rpath (set_hop h r s))"
    using assms len by (simp add: path_arrays_def)
  obtain b u where snd: "send (set_hop h r s) sw p = Some (b, u)"
    using send_total [OF arrays] by (metis defined_iff surj_pair)
  have cnt: "unat (hcnt (set_hop h r s)) < IB_SMP_MAX_PATH_HOPS" if "a \<noteq> IB_SMI_DISCARD"
    using that core by (cases a) (auto dest: recv_core_handle_cnt)
  show ?thesis
    unfolding handle_eq recv
    using fwd_port_total [OF arrays cnt] snd
    by (auto simp: defined_def split: smi_forward_action.split)
qed

text \<open>One switch on the way out: it records the port the packet came in on and passes it to the
  next port of the initial path.\<close>

lemma request_hop:
  assumes "path_arrays (ipath s) (rpath s)" and "\<not> dir s" and "sperm s"
    and "0 < unat (hptr s)" and "unat (hptr s) < unat (hcnt s)" and "unat (hcnt s) < IB_SMP_MAX_PATH_HOPS"
    and "int (unat (ipath s ! Suc (unat (hptr s)))) \<le> phys"
  shows "dr_switch_hop (handle pm True) (out pm True) q phys s =
     Some (ipath s ! Suc (unat (hptr s)), set_hop (hptr s + 1) ((rpath s)[unat (hptr s) := ucast q]) s)"
proof -
  let ?p = "ipath s ! Suc (unat (hptr s))"
  let ?r = "(rpath s)[unat (hptr s) := ucast q]"
  have hp: "hptr s \<noteq> 0" "hptr s < hcnt s" "hptr s \<noteq> hcnt s" "unat (hptr s + 1) = Suc (unat (hptr s))"
    "\<not> IB_SMP_MAX_PATH_HOPS \<le> unat (hcnt s)"
    using assms(4-6) by (auto simp: word_less_nat_alt IB_SMP_MAX_PATH_HOPS_def intro: unat_u8_suc)
  have len: "unat (hptr s) < length (rpath s)" "Suc (unat (hptr s)) < length (ipath s)"
    using assms(1,5,6) by (auto simp: path_arrays_def)
  have "recv s True q phys = Some (IB_SMI_HANDLE, set_hop (hptr s) ?r s)"
    using assms(2,7) hp len by (simp add: recv_eq do_smi_handle_dr_smp_recv_def handle_if_def)
  then have handle: "handle pm True phys q s = Some (IB_SMI_DISCARD, set_hop (hptr s) ?r s, Some ?p)"
    using assms(2) hp len by (simp add: handle_eq do_smi_check_forward_dr_smp_def fwd_port_eq)
  have "send (set_hop (hptr s) ?r s) True (ucast ?p) = Some (IB_SMI_HANDLE, set_hop (hptr s + 1) ?r s)"
    using assms(2) hp len by (simp add: send_eq do_smi_handle_dr_smp_send_def handle_if_def)
  then have "out pm True (ucast ?p) (set_hop (hptr s) ?r s) = Some (DR_POST (set_hop (hptr s + 1) ?r s))"
    using assms(2,3,5) hp by (subst out_perm) auto
  with handle show ?thesis by (simp add: dr_switch_hop_def)
qed

text \<open>One switch on the way back: it passes the packet to the port it had recorded.\<close>

lemma response_hop:
  assumes "path_arrays (ipath s) (rpath s)" and "dir s" and "dperm s" and "sperm s"
    and "2 \<le> unat (hptr s)" and "unat (hptr s) \<le> unat (hcnt s)" and "unat (hcnt s) < IB_SMP_MAX_PATH_HOPS"
    and "int (unat (rpath s ! (unat (hptr s) - 1))) \<le> phys"
  shows "dr_switch_hop (handle pm True) (out pm True) q phys s =
     Some (rpath s ! (unat (hptr s) - 1), set_hop (hptr s - 1) (rpath s) s)"
proof -
  let ?p = "rpath s ! (unat (hptr s) - 1)"
  have hp: "hptr s \<noteq> 0" "hptr s \<noteq> 1" "2 \<le> hptr s" "hptr s \<le> hcnt s" "unat (hptr s) \<noteq> Suc (unat (hcnt s))"
    "unat (hptr s - 1) = unat (hptr s) - 1" "\<not> IB_SMP_MAX_PATH_HOPS \<le> unat (hcnt s)"
    using assms(5-7) by (auto simp: word_le_nat_alt unat_u8_pred [OF unat_ne_0])
  have hp1: "hptr s - 1 \<noteq> 0"
    using hp(2) by simp
  have len: "unat (hptr s) - 1 < length (rpath s)"
    using assms(1,6,7) by (auto simp: path_arrays_def)
  have "recv s True q phys = Some (IB_SMI_HANDLE, s)"
    using assms(2,8) hp len by (simp add: recv_eq do_smi_handle_dr_smp_recv_def handle_if_def)
  then have handle: "handle pm True phys q s = Some (IB_SMI_DISCARD, s, Some ?p)"
    using assms(2) hp len by (simp add: handle_eq do_smi_check_forward_dr_smp_def fwd_port_eq)
  have "send s True (ucast ?p) = Some (IB_SMI_HANDLE, set_hop (hptr s - 1) (rpath s) s)"
    using assms(2) hp len by (simp add: send_eq do_smi_handle_dr_smp_send_def handle_if_def)
  then have "out pm True (ucast ?p) s = Some (DR_POST (set_hop (hptr s - 1) (rpath s) s))"
    using assms(2-4) hp1 by (subst out_perm) auto
  with handle show ?thesis by (simp add: dr_switch_hop_def)
qed

lemma request_route:
  assumes "path_arrays (ipath s) (rpath s)" and "\<not> dir s" and "sperm s"
    and "0 < unat (hptr s)" and "unat (hptr s) + length sws = unat (hcnt s)"
    and "unat (hcnt s) < IB_SMP_MAX_PATH_HOPS"
    and "\<forall>i < length sws. int (unat (ipath s ! (Suc (unat (hptr s)) + i))) \<le> snd (sws ! i)"
  shows "dr_route (dr_switch_hop (handle pm True) (out pm True)) sws s =
     Some (map (\<lambda>i. ipath s ! (Suc (unat (hptr s)) + i)) [0..<length sws],
           set_hop (hcnt s) (record_ports (unat (hptr s)) (map fst sws) (rpath s)) s)"
  using assms
proof (induction sws arbitrary: s)
  case Nil
  then have "hcnt s = hptr s" by (simp add: word_unat_eq_iff)
  then show ?case by simp
next
  case (Cons x sws)
  obtain q phys where x: "x = (q, phys)" by force
  let ?s = "set_hop (hptr s + 1) ((rpath s)[unat (hptr s) := ucast q]) s"
  have hop: "dr_switch_hop (handle pm True) (out pm True) q phys s = Some (ipath s ! Suc (unat (hptr s)), ?s)"
    using Cons.prems x by (intro request_hop) (auto dest: spec [of _ 0])
  have up: "unat (hptr s + 1) = Suc (unat (hptr s))"
    using Cons.prems(5,6) by (intro unat_u8_suc) (simp add: IB_SMP_MAX_PATH_HOPS_def)
  have bound: "int (unat (ipath s ! (Suc (Suc (unat (hptr s))) + i))) \<le> snd (sws ! i)" if "i < length sws" for i
    using Cons.prems(7) that by (auto dest!: spec [of _ "Suc i"])
  have IH: "dr_route (dr_switch_hop (handle pm True) (out pm True)) sws ?s =
     Some (map (\<lambda>i. ipath s ! (Suc (Suc (unat (hptr s))) + i)) [0..<length sws],
           set_hop (hcnt s) (record_ports (Suc (unat (hptr s))) (map fst sws) ((rpath s)[unat (hptr s) := ucast q])) s)"
    using Cons.IH [of ?s] Cons.prems bound up by (simp add: path_arrays_def)
  show ?case
    using hop IH x by (simp add: upt_conv_Cons map_Suc_upt [symmetric] comp_def del: upt_Suc)
qed

lemma response_route:
  assumes "path_arrays (ipath s) (rpath s)" and "dir s" and "dperm s" and "sperm s"
    and "unat (hptr s) = Suc (length sws)" and "unat (hptr s) \<le> unat (hcnt s)"
    and "unat (hcnt s) < IB_SMP_MAX_PATH_HOPS"
    and "\<forall>i < length sws. int (unat (rpath s ! (length sws - i))) \<le> snd (sws ! i)"
  shows "dr_route (dr_switch_hop (handle pm True) (out pm True)) sws s =
     Some (map (\<lambda>i. rpath s ! (length sws - i)) [0..<length sws], set_hop 1 (rpath s) s)"
  using assms
proof (induction sws arbitrary: s)
  case Nil
  then have "hptr s = 1" by (simp add: word_unat_eq_iff)
  then show ?case using set_hop_same [of s] by simp
next
  case (Cons x sws)
  obtain q phys where x: "x = (q, phys)" by force
  let ?s = "set_hop (hptr s - 1) (rpath s) s"
  have hop: "dr_switch_hop (handle pm True) (out pm True) q phys s = Some (rpath s ! Suc (length sws), ?s)"
    using Cons.prems x response_hop [of s phys pm q] by (auto dest: spec [of _ 0])
  have down: "unat (hptr s - 1) = Suc (length sws)"
    using Cons.prems(5) by (subst unat_u8_pred) auto
  have bound: "int (unat (rpath s ! (length sws - i))) \<le> snd (sws ! i)" if "i < length sws" for i
    using Cons.prems(8) that by (auto dest!: spec [of _ "Suc i"])
  have IH: "dr_route (dr_switch_hop (handle pm True) (out pm True)) sws ?s =
     Some (map (\<lambda>i. rpath s ! (length sws - i)) [0..<length sws], set_hop 1 (rpath s) s)"
    using Cons.IH [of ?s] Cons.prems bound down by (simp add: path_arrays_def)
  show ?case
    using hop IH x by (simp add: upt_conv_Cons map_Suc_upt [symmetric] comp_def del: upt_Suc)
qed

text \<open>A request that starts at the subnet manager's port and is delivered to the agent of the last
  node of its path.\<close>

lemma request_delivered:
  assumes "path_arrays (ipath s) (rpath s)" and "\<not> dir s" and "dperm s" and "sperm s"
    and "hptr s = 0" and "unat (hcnt s) = Suc (length sws)" and "unat (hcnt s) < IB_SMP_MAX_PATH_HOPS"
    and "\<forall>i < length sws. int (unat (ipath s ! (2 + i))) \<le> snd (sws ! i)"
  obtains s1 s2 where
    "out pm sw (ucast (ipath s ! 1)) s = Some (DR_POST s1)"
    and "dr_route (dr_switch_hop (handle pm True) (out pm True)) sws s1 =
           Some (map (\<lambda>i. ipath s ! (2 + i)) [0..<length sws], s2)"
    and "handle True sw' n q s2 =
           Some (IB_SMI_HANDLE, set_hop (hcnt s + 1) (record_ports 1 (map fst sws @ [q]) (rpath s)) s, None)"
proof -
  let ?s1 = "set_hop 1 (rpath s) s"
  let ?s2 = "set_hop (hcnt s) (record_ports 1 (map fst sws) (rpath s)) s"
  have cnt: "hcnt s \<noteq> 0" "\<not> IB_SMP_MAX_PATH_HOPS \<le> unat (hcnt s)" "unat (hcnt s + 1) = Suc (unat (hcnt s))"
    using assms(6,7) unat_u8_suc [of "hcnt s"] by (auto simp: IB_SMP_MAX_PATH_HOPS_def)
  have len: "Suc 0 < length (ipath s)" "unat (hcnt s) < length (rpath s)"
    using assms(1,7) by (auto simp: path_arrays_def IB_SMP_MAX_PATH_HOPS_def)
  have "send s sw (ucast (ipath s ! 1)) = Some (IB_SMI_HANDLE, ?s1)"
    using assms(2,5) cnt len by (simp add: send_eq do_smi_handle_dr_smp_send_def handle_if_def)
  then have first: "out pm sw (ucast (ipath s ! 1)) s = Some (DR_POST ?s1)"
    using assms(2,4,6) by (subst out_perm) auto
  have route: "dr_route (dr_switch_hop (handle pm True) (out pm True)) sws ?s1 =
      Some (map (\<lambda>i. ipath s ! (2 + i)) [0..<length sws], ?s2)"
    using request_route [of ?s1 sws pm] assms by (simp add: path_arrays_def)
  have "recv ?s2 sw' q n = Some (IB_SMI_HANDLE, set_hop (hcnt s) (record_ports 1 (map fst sws @ [q]) (rpath s)) s)"
    using assms(2,3,6) cnt len
    by (simp add: recv_eq do_smi_handle_dr_smp_recv_def handle_if_def record_ports_snoc)
  moreover have "send (set_hop (hcnt s) r s) sw' q = Some (IB_SMI_HANDLE, set_hop (hcnt s + 1) r s)" for r
    using assms(2,3) cnt by (simp add: send_eq do_smi_handle_dr_smp_send_def handle_if_def)
  ultimately have "handle True sw' n q ?s2 =
      Some (IB_SMI_HANDLE, set_hop (hcnt s + 1) (record_ports 1 (map fst sws @ [q]) (rpath s)) s, None)"
    using assms(2,3) cnt by (simp add: handle_eq do_smi_check_forward_dr_smp_def)
  with that first route show thesis by blast
qed

text \<open>A response that leaves the last node and is delivered to the subnet manager.\<close>

lemma response_delivered:
  assumes "path_arrays (ipath s) (rpath s)" and "dir s" and "dperm s" and "sperm s"
    and "hptr s = hcnt s + 1" and "unat (hcnt s) = Suc (length sws)" and "unat (hcnt s) < IB_SMP_MAX_PATH_HOPS"
    and "\<forall>i < length sws. int (unat (rpath s ! (length sws - i))) \<le> snd (sws ! i)"
  obtains s1 s2 where
    "out pm sw (ucast (rpath s ! unat (hcnt s))) s = Some (DR_POST s1)"
    and "dr_route (dr_switch_hop (handle pm True) (out pm True)) sws s1 =
           Some (map (\<lambda>i. rpath s ! (length sws - i)) [0..<length sws], s2)"
    and "handle pm' sw' n q s2 = Some (IB_SMI_HANDLE, set_hop 0 (rpath s) s, None)"
proof -
  let ?s1 = "set_hop (hcnt s) (rpath s) s"
  let ?s2 = "set_hop 1 (rpath s) s"
  have cnt: "hcnt s \<noteq> 0" "\<not> IB_SMP_MAX_PATH_HOPS \<le> unat (hcnt s)" "unat (hcnt s + 1) = Suc (unat (hcnt s))"
    "Suc 0 \<noteq> Suc (unat (hcnt s))"
    using assms(6,7) unat_u8_suc [of "hcnt s"] by (auto simp: IB_SMP_MAX_PATH_HOPS_def)
  have len: "unat (hcnt s) < length (rpath s)"
    using assms(1,7) by (auto simp: path_arrays_def)
  have "send s sw (ucast (rpath s ! unat (hcnt s))) = Some (IB_SMI_HANDLE, ?s1)"
    using assms(2,5) cnt len by (simp add: send_eq do_smi_handle_dr_smp_send_def handle_if_def)
  then have first: "out pm sw (ucast (rpath s ! unat (hcnt s))) s = Some (DR_POST ?s1)"
    using assms(2-4) cnt by (subst out_perm) auto
  have route: "dr_route (dr_switch_hop (handle pm True) (out pm True)) sws ?s1 =
      Some (map (\<lambda>i. rpath s ! (length sws - i)) [0..<length sws], ?s2)"
    using response_route [of ?s1 sws pm] assms by (simp add: path_arrays_def)
  have "recv ?s2 sw' q n = Some (IB_SMI_HANDLE, set_hop 0 (rpath s) s)"
    using assms(2,4) cnt u8_two_one
    by (simp add: recv_eq do_smi_handle_dr_smp_recv_def handle_if_def)
  then have "handle pm' sw' n q ?s2 = Some (IB_SMI_HANDLE, set_hop 0 (rpath s) s, None)"
    using assms(2) by (simp add: handle_eq do_smi_check_forward_dr_smp_def)
  with that first route show thesis by blast
qed

end

section \<open>Both packet formats implement the interface\<close>

lemma handle_if_DISCARD [simp]: "handle_if b = IB_SMI_DISCARD \<longleftrightarrow> \<not> b"
  by (simp add: handle_if_def)

interpretation ib: dr_smp hop_ptr hop_cnt initial_path return_path ib_get_smp_direction
  "\<lambda>s. dr_dlid s = IB_LID_PERMISSIVE" "\<lambda>s. dr_slid s = IB_LID_PERMISSIVE"
  "\<lambda>h r s. s\<lparr>hop_ptr := h, return_path := r\<rparr>"
  smi_handle_dr_smp_send smi_handle_dr_smp_recv smi_get_fwd_port handle_ib_smi handle_outgoing_ib_smp
proof unfold_locales
  fix pm sw n p and s :: ib_smp
  show "handle_ib_smi pm sw n p s =
        do { (a, s) \<leftarrow> smi_handle_dr_smp_recv s sw p n;
             if a = IB_SMI_DISCARD then Some (IB_SMI_DISCARD, s, None)
             else case do_smi_check_forward_dr_smp (hop_ptr s) (hop_cnt s) (ib_get_smp_direction s)
                         (dr_dlid s = IB_LID_PERMISSIVE) (dr_slid s = IB_LID_PERMISSIVE) of
               IB_SMI_LOCAL \<Rightarrow> Some (IB_SMI_HANDLE, s, None)
             | IB_SMI_SEND \<Rightarrow>
                 do { (b, s) \<leftarrow> smi_handle_dr_smp_send s sw p;
                      Some (if b = IB_SMI_DISCARD \<or>
                              \<not> (pm \<and> \<not> ib_get_smp_direction s \<and> unat (hop_ptr s) = unat (hop_cnt s) + 1)
                            then IB_SMI_DISCARD else IB_SMI_HANDLE, s, None) }
             | IB_SMI_FORWARD \<Rightarrow>
                 if sw then do { p \<leftarrow> smi_get_fwd_port s; Some (IB_SMI_DISCARD, s, Some p) }
                 else Some (IB_SMI_HANDLE, s, None) }"
    unfolding handle_ib_smi_def smi_check_forward_dr_smp_def smi_check_local_smp_def
    by (intro bind_option_cong refl) (auto split: smi_forward_action.split intro!: bind_option_cong)
next
  fix pm sw p and s :: ib_smp
  assume "if ib_get_smp_direction s then dr_dlid s = IB_LID_PERMISSIVE else dr_slid s = IB_LID_PERMISSIVE"
  then show "handle_outgoing_ib_smp pm sw p s =
        do { (a, s) \<leftarrow> smi_handle_dr_smp_send s sw p;
             Some (if a = IB_SMI_DISCARD then DR_INVALID
                   else if pm \<and> (if ib_get_smp_direction s then hop_ptr s = 0
                                 else unat (hop_ptr s) = unat (hop_cnt s) + 1)
                     then DR_LOCAL s
                   else DR_POST s) }"
    unfolding handle_outgoing_ib_smp_def smi_check_local_smp_def smi_check_local_returning_smp_def
    by (auto split: if_split_asm intro!: bind_option_cong)
qed (simp_all add: ib_get_smp_direction_def smi_handle_dr_smp_send_def smi_handle_dr_smp_recv_def
      smi_get_fwd_port_def)

interpretation opa: dr_smp opa_hop_ptr opa_hop_cnt opa_initial_path opa_return_path opa_get_smp_direction
  "\<lambda>s. opa_dr_dlid s = OPA_LID_PERMISSIVE" "\<lambda>s. opa_dr_slid s = OPA_LID_PERMISSIVE"
  "\<lambda>h r s. s\<lparr>opa_hop_ptr := h, opa_return_path := r\<rparr>"
  opa_smi_handle_dr_smp_send opa_smi_handle_dr_smp_recv opa_smi_get_fwd_port handle_opa_smi handle_outgoing_opa_smp
proof unfold_locales
  fix pm sw n p and s :: opa_smp
  show "handle_opa_smi pm sw n p s =
        do { (a, s) \<leftarrow> opa_smi_handle_dr_smp_recv s sw p n;
             if a = IB_SMI_DISCARD then Some (IB_SMI_DISCARD, s, None)
             else case do_smi_check_forward_dr_smp (opa_hop_ptr s) (opa_hop_cnt s) (opa_get_smp_direction s)
                         (opa_dr_dlid s = OPA_LID_PERMISSIVE) (opa_dr_slid s = OPA_LID_PERMISSIVE) of
               IB_SMI_LOCAL \<Rightarrow> Some (IB_SMI_HANDLE, s, None)
             | IB_SMI_SEND \<Rightarrow>
                 do { (b, s) \<leftarrow> opa_smi_handle_dr_smp_send s sw p;
                      Some (if b = IB_SMI_DISCARD \<or>
                              \<not> (pm \<and> \<not> opa_get_smp_direction s \<and> unat (opa_hop_ptr s) = unat (opa_hop_cnt s) + 1)
                            then IB_SMI_DISCARD else IB_SMI_HANDLE, s, None) }
             | IB_SMI_FORWARD \<Rightarrow>
                 if sw then do { p \<leftarrow> opa_smi_get_fwd_port s; Some (IB_SMI_DISCARD, s, Some p) }
                 else Some (IB_SMI_HANDLE, s, None) }"
    unfolding handle_opa_smi_def opa_smi_check_forward_dr_smp_def opa_smi_check_local_smp_def
    by (intro bind_option_cong refl) (auto split: smi_forward_action.split intro!: bind_option_cong)
next
  fix pm sw p and s :: opa_smp
  assume "if opa_get_smp_direction s then opa_dr_dlid s = OPA_LID_PERMISSIVE else opa_dr_slid s = OPA_LID_PERMISSIVE"
  moreover assume "opa_dr_slid s = OPA_LID_PERMISSIVE"
  ultimately show "handle_outgoing_opa_smp pm sw p s =
        do { (a, s) \<leftarrow> opa_smi_handle_dr_smp_send s sw p;
             Some (if a = IB_SMI_DISCARD then DR_INVALID
                   else if pm \<and> (if opa_get_smp_direction s then opa_hop_ptr s = 0
                                 else unat (opa_hop_ptr s) = unat (opa_hop_cnt s) + 1)
                     then DR_LOCAL s
                   else DR_POST s) }"
    unfolding handle_outgoing_opa_smp_def opa_smi_check_local_smp_def opa_smi_check_local_returning_smp_def
    by (auto simp: opa_smi_handle_dr_smp_send_def split: if_split_asm intro!: bind_option_cong)
qed (simp_all add: opa_get_smp_direction_def opa_smi_handle_dr_smp_send_def opa_smi_handle_dr_smp_recv_def
      opa_smi_get_fwd_port_def)

section \<open>Properties of directed routing\<close>

text \<open>The receive handler never reads or writes outside the two 64-entry path arrays of the
  packet, for any hop pointer, hop count, status and port in the packet; the same holds for the send
  side and for the Omni-Path format.\<close>

theorem smi_paths_in_bounds:
  "(path_arrays (initial_path s) (return_path s) \<longrightarrow>
      defined (handle_ib_smi pm sw n p s) \<and> defined (smi_handle_dr_smp_send s sw p)) \<and>
   (path_arrays (opa_initial_path t) (opa_return_path t) \<longrightarrow>
      defined (handle_opa_smi pm sw n p t) \<and> defined (opa_smi_handle_dr_smp_send t sw p))"
  using ib.handle_total ib.send_total opa.handle_total opa.send_total by blast

definition smp_example :: ib_smp where
  "smp_example = \<lparr>base_version = 1, mgmt_class = 0x81, class_version = 1, smp_method = 1, status = 0,
     hop_ptr = 0, hop_cnt = 2, tid = 7, attr_id = 0x11, resv = 0, attr_mod = 0, mkey = 0,
     dr_slid = 0xFFFF, dr_dlid = 0xFFFF, reserved = replicate 28 0, smp_data = replicate 64 0,
     initial_path = [0, 1, 5] @ replicate 61 0, return_path = replicate 64 0\<rparr>"

definition opa_smp_example :: opa_smp where
  "opa_smp_example = \<lparr>opa_base_version = 0x80, opa_mgmt_class = 0x81, opa_class_version = 0x80,
     opa_method = 1, opa_status = 0, opa_hop_ptr = 0, opa_hop_cnt = 2, opa_tid = 7, opa_attr_id = 0x11,
     opa_resv = 0, opa_attr_mod = 0, opa_mkey = 0, opa_dr_slid = 0xFFFFFFFF, opa_dr_dlid = 0xFFFFFFFF,
     opa_initial_path = [0, 1, 5] @ replicate 61 0, opa_return_path = replicate 64 0,
     opa_reserved = replicate 8 0, opa_data = []\<rparr>"

theorem smi_paths_in_bounds_witness:
  "defined (handle_ib_smi True True 36 3 smp_example) \<and>
   defined (handle_opa_smi True True 36 3 opa_smp_example)"
  using smi_paths_in_bounds [of smp_example True True 36 3 opa_smp_example]
  by (simp add: path_arrays_def IB_SMP_MAX_PATH_HOPS_def smp_example_def opa_smp_example_def)

text \<open>C4: A directed-route request with an empty LID-routed part visits exactly the ports of its
  initial path, is delivered to the agent of the last node with the ports it arrived on recorded in
  the return path, and the response, sent with the direction bit set, leaves every switch by the
  port the request arrived on, in reverse order, and is delivered to the subnet manager with the
  hop pointer back at zero.\<close>

theorem dr_smp_round_trip:
  assumes "path_arrays (initial_path s) (return_path s)" and "\<not> ib_get_smp_direction s"
    and "dr_dlid s = IB_LID_PERMISSIVE" and "dr_slid s = IB_LID_PERMISSIVE"
    and "hop_ptr s = 0" and "unat (hop_cnt s) = Suc (length sws)" and "unat (hop_cnt s) < 64"
    and "\<forall>i < length sws. int (unat (initial_path s ! (2 + i))) \<le> snd (sws ! i)"
    and "\<forall>i < length sws. int (unat (ucast (fst (sws ! i)) :: u8)) \<le> snd (sws ! i)"
    and "length bk = length sws" and "map snd bk = rev (map snd sws)"
  shows "\<exists>s1 s2 s3 t1 t2 t3.
     handle_outgoing_ib_smp pm sw (ucast (initial_path s ! 1)) s = Some (DR_POST s1) \<and>
     dr_route (dr_switch_hop (handle_ib_smi pm True) (handle_outgoing_ib_smp pm True)) sws s1 =
       Some (map (\<lambda>i. initial_path s ! (2 + i)) [0..<length sws], s2) \<and>
     handle_ib_smi True sw' n q s2 = Some (IB_SMI_HANDLE, s3, None) \<and>
     handle_outgoing_ib_smp pm sw' (ucast (ucast q :: u8)) (s3\<lparr>status := status s3 OR IB_SMP_DIRECTION\<rparr>)
       = Some (DR_POST t1) \<and>
     dr_route (dr_switch_hop (handle_ib_smi pm True) (handle_outgoing_ib_smp pm True)) bk t1 =
       Some (map (\<lambda>i. ucast (fst (sws ! (length sws - Suc i)))) [0..<length sws], t2) \<and>
     handle_ib_smi pm' sw n' q' t2 = Some (IB_SMI_HANDLE, t3, None) \<and> hop_ptr t3 = 0"
proof -
  let ?hop = "dr_switch_hop (handle_ib_smi pm True) (handle_outgoing_ib_smp pm True)"
  let ?rp = "record_ports 1 (map fst sws @ [q]) (return_path s)"
  let ?s3 = "s\<lparr>hop_ptr := hop_cnt s + 1, return_path := ?rp\<rparr>"
  let ?t = "?s3\<lparr>status := status ?s3 OR IB_SMP_DIRECTION\<rparr>"
  obtain s1 s2 where req: "handle_outgoing_ib_smp pm sw (ucast (initial_path s ! 1)) s = Some (DR_POST s1)"
      "dr_route ?hop sws s1 = Some (map (\<lambda>i. initial_path s ! (2 + i)) [0..<length sws], s2)"
      "handle_ib_smi True sw' n q s2 = Some (IB_SMI_HANDLE, ?s3, None)"
    using ib.request_delivered [of s sws] assms(1-8) by (metis IB_SMP_MAX_PATH_HOPS_def)
  have len: "length (map fst sws @ [q]) = Suc (length sws)" "1 + length (map fst sws @ [q]) \<le> length (return_path s)"
    using assms(1,6,7) by (auto simp: path_arrays_def IB_SMP_MAX_PATH_HOPS_def)
  have rp: "?rp ! (1 + i) = ucast ((map fst sws @ [q]) ! i)" if "i < Suc (length sws)" for i
    using record_ports_nth [OF len(2)] that by simp
  have last: "?rp ! unat (hop_cnt s) = ucast q"
    using rp [of "length sws"] assms(6) by (simp add: nth_append)
  have mid: "?rp ! (length sws - i) = ucast (fst (sws ! (length sws - Suc i)))" if "i < length sws" for i
  proof -
    have "length sws - Suc i < length sws" using that by arith
    then show ?thesis
      using rp [of "length sws - Suc i"] that by (simp add: nth_append Suc_diff_Suc)
  qed
  have snd_back: "snd (bk ! i) = snd (sws ! (length sws - Suc i))" if "i < length sws" for i
  proof -
    have "snd (bk ! i) = rev (map snd sws) ! i"
      using that assms(10) by (simp flip: assms(11))
    then show ?thesis using that by (simp add: rev_nth)
  qed
  have dir: "ib_get_smp_direction ?t"
    by (simp add: ib_get_smp_direction_def IB_SMP_DIRECTION_def bit.conj_disj_distrib2)
  obtain t1 t2 where resp: "handle_outgoing_ib_smp pm sw' (ucast (return_path ?t ! unat (hop_cnt ?t))) ?t = Some (DR_POST t1)"
      "dr_route ?hop bk t1 = Some (map (\<lambda>i. return_path ?t ! (length bk - i)) [0..<length bk], t2)"
      "handle_ib_smi pm' sw n' q' t2 = Some (IB_SMI_HANDLE, ?t\<lparr>hop_ptr := 0, return_path := return_path ?t\<rparr>, None)"
    using ib.response_delivered [of ?t bk pm sw' pm' sw n' q'] dir assms(1,3,4,6,7,9,10) mid snd_back
    by (auto simp: path_arrays_def IB_SMP_MAX_PATH_HOPS_def)
  have "map (\<lambda>i. return_path ?t ! (length bk - i)) [0..<length bk] =
        map (\<lambda>i. ucast (fst (sws ! (length sws - Suc i)))) [0..<length sws]"
    using mid assms(10) by simp
  with req resp last show ?thesis by auto
qed

theorem dr_smp_round_trip_witness:
  "\<exists>s1 s2 s3 t1 t2 t3.
     handle_outgoing_ib_smp True False 1 smp_example = Some (DR_POST s1) \<and>
     dr_route (dr_switch_hop (handle_ib_smi True True) (handle_outgoing_ib_smp True True)) [(9, 36)] s1 =
       Some ([5], s2) \<and>
     handle_ib_smi True False 1 1 s2 = Some (IB_SMI_HANDLE, s3, None) \<and>
     handle_outgoing_ib_smp True False 1 (s3\<lparr>status := status s3 OR IB_SMP_DIRECTION\<rparr>) = Some (DR_POST t1) \<and>
     dr_route (dr_switch_hop (handle_ib_smi True True) (handle_outgoing_ib_smp True True)) [(5, 36)] t1 =
       Some ([9], t2) \<and>
     handle_ib_smi True False 1 1 t2 = Some (IB_SMI_HANDLE, t3, None) \<and> hop_ptr t3 = 0"
  using dr_smp_round_trip [of smp_example "[(9, 36)]" "[(5, 36)]" True False False 1 1 True 1 1]
  by (simp add: path_arrays_def IB_SMP_MAX_PATH_HOPS_def smp_example_def ib_get_smp_direction_def
      IB_SMP_DIRECTION_def IB_LID_PERMISSIVE_def)

end
