(* ===== verification/Packer.thy ===== *)
theory Packer
  imports Kern_Prelude
begin

unbundle bit_operations_syntax

text \<open>
  The bit-field packer \<open>drivers/infiniband/core/packer.c\<close>: \<open>ib_pack\<close> copies the fields
  of a structure into a network-order buffer, \<open>ib_unpack\<close> copies them back, both driven by a
  table of \<open>struct ib_field\<close>. A structure and a buffer are byte lists; an access outside of
  them is \<open>None\<close>. Big-endian loads and stores are modelled by the value they have in host
  order, so that the bitwise read-modify-write of \<open>ib_pack\<close>, which the code performs on
  byte-swapped operands, is the same operation on the values.
\<close>

section \<open>Byte buffers\<close>

definition read_bytes :: "nat \<Rightarrow> nat \<Rightarrow> u8 list \<Rightarrow> u8 list option" where
  "read_bytes off n b = (if off + n \<le> length b then Some (take n (drop off b)) else None)"

definition write_bytes :: "nat \<Rightarrow> u8 list \<Rightarrow> u8 list \<Rightarrow> u8 list option" where
  "write_bytes off bs b =
     (if off + length bs \<le> length b then Some (take off b @ bs @ drop (off + length bs) b) else None)"

fun be_val :: "u8 list \<Rightarrow> u64" where
  "be_val [] = 0"
| "be_val (b # bs) = push_bit (8 * length bs) (ucast b) OR be_val bs"

definition be_bytes :: "nat \<Rightarrow> u64 \<Rightarrow> u8 list" where
  "be_bytes n w = map (\<lambda>i. ucast (drop_bit (8 * (n - Suc i)) w)) [0..<n]"

section \<open>The packer\<close>

record ib_field =
  struct_offset_bytes :: nat
  struct_size_bytes :: nat
  offset_words :: nat
  offset_bits :: nat
  size_bits :: nat
  field_name :: string

definition value_read :: "nat \<Rightarrow> nat \<Rightarrow> u8 list \<Rightarrow> u64 option" where
  "value_read offset sz structure =
     (if sz = 1 \<or> sz = 2 \<or> sz = 4 \<or> sz = 8
      then map_option be_val (read_bytes offset sz structure)
      else Some 0)"

definition value_write :: "nat \<Rightarrow> nat \<Rightarrow> u64 \<Rightarrow> u8 list \<Rightarrow> u8 list option" where
  "value_write offset sz v structure =
     (if sz = 1 \<or> sz = 2 \<or> sz = 4 \<or> sz = 8
      then write_bytes offset (be_bytes sz v) structure
      else Some structure)"

text \<open>One turn of the loop of \<open>ib_pack\<close>. A negative shift is undefined.\<close>

definition ib_pack_field :: "ib_field \<Rightarrow> u8 list \<Rightarrow> u8 list \<Rightarrow> u8 list option" where
  "ib_pack_field d structure buf =
     (if size_bits d \<le> 32 then
        (if 32 < offset_bits d + size_bits d then None
         else
           let shift = 32 - offset_bits d - size_bits d;
               msk = ucast (push_bit shift (push_bit (size_bits d) 1 - 1 :: u64)) :: u32
           in do {
             v \<leftarrow> (if struct_size_bytes d \<noteq> 0
                  then value_read (struct_offset_bytes d) (struct_size_bytes d) structure
                  else Some 0);
             w \<leftarrow> map_option be_val (read_bytes (4 * offset_words d) 4 buf);
             write_bytes (4 * offset_words d)
               (be_bytes 4 (ucast ((ucast w AND NOT msk) OR (ucast (push_bit shift v) AND msk)))) buf
           })
      else if size_bits d \<le> 64 then
        (if 64 < offset_bits d + size_bits d then None
         else
           let shift = 64 - offset_bits d - size_bits d;
               msk = push_bit shift (drop_bit (64 - size_bits d) (NOT 0)) :: u64
           in do {
             v \<leftarrow> (if struct_size_bytes d \<noteq> 0
                  then value_read (struct_offset_bytes d) (struct_size_bytes d) structure
                  else Some 0);
             w \<leftarrow> map_option be_val (read_bytes (4 * offset_words d) 8 buf);
             write_bytes (4 * offset_words d)
               (be_bytes 8 ((w AND NOT msk) OR (push_bit shift v AND msk))) buf
           })
      else
        (let off = 4 * offset_words d + offset_bits d div 8; n = size_bits d div 8
         in if struct_size_bytes d \<noteq> 0 then
              do { bs \<leftarrow> read_bytes (struct_offset_bytes d) n structure; write_bytes off bs buf }
            else write_bytes off (replicate n 0) buf))"

fun ib_pack :: "ib_field list \<Rightarrow> u8 list \<Rightarrow> u8 list \<Rightarrow> u8 list option" where
  "ib_pack [] structure buf = Some buf"
| "ib_pack (d # desc) structure buf =
     do { buf \<leftarrow> ib_pack_field d structure buf; ib_pack desc structure buf }"

text \<open>
  One turn of the loop of \<open>ib_unpack\<close>. For fields of 33 to 64 bits the buffer address is
  computed in units of eight bytes, where \<open>ib_pack\<close> counts four.
\<close>

definition ib_unpack_field :: "ib_field \<Rightarrow> u8 list \<Rightarrow> u8 list \<Rightarrow> u8 list option" where
  "ib_unpack_field d buf structure =
     (if struct_size_bytes d = 0 then Some structure
      else if size_bits d \<le> 32 then
        (if 32 < offset_bits d + size_bits d then None
         else
           let shift = 32 - offset_bits d - size_bits d;
               msk = ucast (push_bit shift (push_bit (size_bits d) 1 - 1 :: u64)) :: u32
           in do {
             w \<leftarrow> map_option be_val (read_bytes (4 * offset_words d) 4 buf);
             value_write (struct_offset_bytes d) (struct_size_bytes d)
               (ucast (drop_bit shift (ucast w AND msk))) structure
           })
      else if size_bits d \<le> 64 then
        (if 64 < offset_bits d + size_bits d then None
         else
           let shift = 64 - offset_bits d - size_bits d;
               msk = push_bit shift (drop_bit (64 - size_bits d) (NOT 0)) :: u64
           in do {
             w \<leftarrow> map_option be_val (read_bytes (8 * offset_words d) 8 buf);
             value_write (struct_offset_bytes d) (struct_size_bytes d)
               (drop_bit shift (w AND msk)) structure
           })
      else
        do {
          bs \<leftarrow> read_bytes (4 * offset_words d + offset_bits d div 8) (size_bits d div 8) buf;
          write_bytes (struct_offset_bytes d) bs structure
        })"

fun ib_unpack :: "ib_field list \<Rightarrow> u8 list \<Rightarrow> u8 list \<Rightarrow> u8 list option" where
  "ib_unpack [] buf structure = Some structure"
| "ib_unpack (d # desc) buf structure =
     do { structure \<leftarrow> ib_unpack_field d buf structure; ib_unpack desc buf structure }"

section \<open>Buffers as bit strings\<close>

text \<open>Bit \<open>k\<close> of a buffer in the order of transmission: the high bit of byte 0 comes first.\<close>

definition bbit :: "u8 list \<Rightarrow> nat \<Rightarrow> bool" where
  "bbit b k = bit (b ! (k div 8)) (7 - k mod 8)"

lemma bbit_Cons: "bbit (x # b) k = (if k < 8 then bit x (7 - k) else bbit b (k - 8))"
  by (simp add: bbit_def le_div_geq le_mod_geq)

lemma bbit_append: "k < 8 * length a \<Longrightarrow> bbit (a @ b) k = bbit a k"
  "8 * length a \<le> k \<Longrightarrow> bbit (a @ b) k = bbit b (k - 8 * length a)"
proof (induction a arbitrary: k)
  case (Cons x a)
  case 1
  then show ?case using Cons by (auto simp: bbit_Cons)
next
  case (Cons x a)
  case 2
  then show ?case using Cons by (auto simp: bbit_Cons)
qed simp_all

lemma bbit_take_drop: "8 * off + k < 8 * length b \<Longrightarrow> k < 8 * n \<Longrightarrow> bbit (take n (drop off b)) k = bbit b (8 * off + k)"
  by (simp add: bbit_def)

lemma bbit_eqI:
  assumes "length a = length b" and "\<And>k. k < 8 * length a \<Longrightarrow> bbit a k = bbit b k"
  shows "a = b"
proof (rule nth_equalityI)
  fix i assume i: "i < length a"
  show "a ! i = b ! i"
  proof (rule bit_word_eqI)
    fix n assume n: "n < LENGTH(8)"
    have "bbit a (8 * i + (7 - n)) = bbit b (8 * i + (7 - n))"
      using i n by (intro assms(2)) simp
    moreover have "(8 * i + (7 - n)) div 8 = i" "7 - (8 * i + (7 - n)) mod 8 = n"
      using n div_mult_self4 [of 8 i "7 - n"] mod_mult_self4 [of 8 i "7 - n"] by (simp_all del: div_mult_self4 mod_mult_self4)
    ultimately show "bit (a ! i) n = bit (b ! i) n"
      by (simp only: bbit_def)
  qed
qed (use assms(1) in simp)

lemma bit_be_val:
  "length bs \<le> 8 \<Longrightarrow> bit (be_val bs) j \<longleftrightarrow> j < 8 * length bs \<and> bbit bs (8 * length bs - Suc j)"
proof (induction bs)
  case (Cons b bs)
  have b: "bit b i \<Longrightarrow> i < 8" for i
    using bit_imp_le_length [of b i] by simp
  have e: "bit b (7 - (7 + 8 * length bs - j))" if "8 * length bs \<le> j" "bit b (j - 8 * length bs)"
  proof -
    have "7 - (7 + 8 * length bs - j) = j - 8 * length bs" using that(1) b [OF that(2)] by linarith
    then show ?thesis using that(2) by simp
  qed
  show ?case
    using Cons by (auto simp: bit_or_iff bit_push_bit_iff bit_ucast_iff bbit_Cons dest: b e)
qed simp

lemma length_be_bytes [simp]: "length (be_bytes n w) = n"
  by (simp add: be_bytes_def)

lemma bbit_be_bytes: "k < 8 * n \<Longrightarrow> bbit (be_bytes n w) k = bit w (8 * n - Suc k)"
proof -
  assume k: "k < 8 * n"
  have "k = 8 * (k div 8) + k mod 8" "k mod 8 < 8" "k div 8 < n" using k by (simp_all add: less_mult_imp_div_less mult.commute)
  then have e: "8 * (n - Suc (k div 8)) + (7 - k mod 8) = 8 * n - Suc k" by linarith
  show ?thesis
    using k e by (auto simp: bbit_def be_bytes_def less_mult_imp_div_less bit_ucast_iff bit_drop_bit_eq add.commute mult.commute)
qed


lemma read_bytes_Some [simp]:
  "off + n \<le> length b \<Longrightarrow> read_bytes off n b = Some (take n (drop off b))"
  by (simp add: read_bytes_def)

lemma write_bytes_Some [simp]:
  "off + length bs \<le> length b \<Longrightarrow>
     write_bytes off bs b = Some (take off b @ bs @ drop (off + length bs) b)"
  by (simp add: write_bytes_def)

lemma bbit_splice:
  assumes "off + length bs \<le> length b" and "k < 8 * length b"
  shows "bbit (take off b @ bs @ drop (off + length bs) b) k =
    (if 8 * off \<le> k \<and> k < 8 * (off + length bs) then bbit bs (k - 8 * off) else bbit b k)"
proof (cases "k < 8 * off")
  case True
  then have "k div 8 < off" by auto
  then show ?thesis using True assms by (simp add: bbit_def nth_append)
next
  case False
  then have "off \<le> k div 8" and "k = 8 * off + (k - 8 * off)" by auto
  define r where "r = k - 8 * off"
  have k: "k = 8 * off + r" using False by (simp add: r_def)
  have d: "k div 8 = off + r div 8" "k mod 8 = r mod 8" by (simp_all add: k)
  have l: "r div 8 < length bs \<longleftrightarrow> r < 8 * length bs" by auto
  show ?thesis using assms l by (auto simp: bbit_def nth_append d k min_def)
qed

section \<open>Fields as bit ranges\<close>

text \<open>\<open>b'\<close> is \<open>b\<close> with the \<open>z\<close> bits from \<open>lo\<close> on replaced by \<open>P 0, P 1, \<dots>\<close>.\<close>

definition bits_updated :: "nat \<Rightarrow> nat \<Rightarrow> (nat \<Rightarrow> bool) \<Rightarrow> u8 list \<Rightarrow> u8 list \<Rightarrow> bool" where
  "bits_updated lo z P b b' \<longleftrightarrow> length b' = length b \<and>
     (\<forall>k < 8 * length b. bbit b' k = (if lo \<le> k \<and> k < lo + z then P (k - lo) else bbit b k))"

definition field_start :: "ib_field \<Rightarrow> nat" where
  "field_start d = 32 * offset_words d + offset_bits d"

definition field_src :: "ib_field \<Rightarrow> nat" where
  "field_src d = 8 * (struct_offset_bytes d + struct_size_bytes d) - size_bits d"

definition field_ok :: "nat \<Rightarrow> nat \<Rightarrow> ib_field \<Rightarrow> bool" where
  "field_ok slen blen d \<longleftrightarrow>
     (if size_bits d \<le> 32
      then offset_bits d + size_bits d \<le> 32 \<and> 4 * offset_words d + 4 \<le> blen
      else if size_bits d \<le> 64
      then offset_bits d + size_bits d \<le> 64 \<and> 4 * offset_words d + 8 \<le> blen
      else offset_bits d mod 8 = 0 \<and> size_bits d mod 8 = 0 \<and> field_start d + size_bits d \<le> 8 * blen) \<and>
     (struct_size_bytes d \<noteq> 0 \<longrightarrow>
        (if size_bits d \<le> 64
         then struct_size_bytes d \<in> {1, 2, 4, 8} \<and> size_bits d \<le> 8 * struct_size_bytes d
         else 8 * struct_size_bytes d = size_bits d) \<and>
        struct_offset_bytes d + struct_size_bytes d \<le> slen)"

lemma be_val_take_drop:
  assumes "off + n \<le> length b" and "n \<le> 8"
  shows "bit (be_val (take n (drop off b))) j \<longleftrightarrow> j < 8 * n \<and> bbit b (8 * (off + n) - Suc j)"
proof (cases "j < 8 * n")
  case True
  then have "bbit (take n (drop off b)) (8 * n - Suc j) = bbit b (8 * off + (8 * n - Suc j))"
    using assms by (intro bbit_take_drop) auto
  moreover have "8 * off + (8 * n - Suc j) = 8 * (off + n) - Suc j" using True by auto
  ultimately show ?thesis using assms True by (simp add: bit_be_val)
qed (use assms in \<open>simp add: bit_be_val\<close>)

lemma bit_msk32:
  assumes "s + z \<le> 32"
  shows "bit (ucast (push_bit s (push_bit z 1 - 1 :: u64)) :: u32) j \<longleftrightarrow> s \<le> j \<and> j < s + z"
  using assms
  by (auto simp: bit_ucast_iff bit_push_bit_iff bit_mask_iff push_bit_of_1 mask_eq_exp_minus_1 [symmetric])

lemma bit_msk64:
  assumes "s + z \<le> 64" "0 < z"
  shows "bit (push_bit s (drop_bit (64 - z) (NOT 0)) :: u64) j \<longleftrightarrow> s \<le> j \<and> j < s + z"
  using assms by (auto simp: bit_push_bit_iff bit_drop_bit_eq bit_mask_iff)


lemma value_read_bits:
  assumes "sz \<in> {1, 2, 4, 8}" and "off + sz \<le> length b"
  obtains v where "value_read off sz b = Some v"
    and "\<And>j. bit v j \<longleftrightarrow> j < 8 * sz \<and> bbit b (8 * (off + sz) - Suc j)"
proof -
  have "sz \<le> 8" using assms(1) by auto
  with assms show ?thesis
    by (intro that [of "be_val (take sz (drop off b))"]) (auto simp: value_read_def be_val_take_drop)
qed

lemma value_write_bits:
  assumes "sz \<in> {1, 2, 4, 8}" and "off + sz \<le> length b"
  obtains b' where "value_write off sz v b = Some b'" and "length b' = length b"
    and "\<And>k. k < 8 * length b \<Longrightarrow> bbit b' k =
          (if 8 * off \<le> k \<and> k < 8 * (off + sz) then bit v (8 * (off + sz) - Suc k) else bbit b k)"
proof -
  let ?b = "take off b @ be_bytes sz v @ drop (off + length (be_bytes sz v)) b"
  have "bbit ?b k = (if 8 * off \<le> k \<and> k < 8 * (off + sz) then bit v (8 * (off + sz) - Suc k) else bbit b k)"
    if "k < 8 * length b" for k
  proof -
    have "8 * sz - Suc (k - 8 * off) = 8 * (off + sz) - Suc k" if "8 * off \<le> k"
      using that by (auto simp: algebra_simps)
    then show ?thesis
      using bbit_splice [of off "be_bytes sz v" b k] that assms(2) by (auto simp: bbit_be_bytes)
  qed
  moreover have "value_write off sz v b = Some ?b" "length ?b = length b"
    using assms by (auto simp: value_write_def)
  ultimately show ?thesis using that by blast
qed

text \<open>The value \<open>ib_pack\<close> loads for a field, in either of the word-sized branches.\<close>

lemma pack_value:
  assumes "field_ok (length s) blen d" and "size_bits d \<le> 64"
  obtains v where
    "(if struct_size_bytes d \<noteq> 0 then value_read (struct_offset_bytes d) (struct_size_bytes d) s else Some 0) = Some v"
    and "\<And>i. i < size_bits d \<Longrightarrow>
           bit v (size_bits d - Suc i) \<longleftrightarrow> struct_size_bytes d \<noteq> 0 \<and> bbit s (field_src d + i)"
proof (cases "struct_size_bytes d = 0")
  case True
  then show ?thesis using that [of 0] by simp
next
  case False
  then have ok: "struct_size_bytes d \<in> {1, 2, 4, 8}" "size_bits d \<le> 8 * struct_size_bytes d"
    "struct_offset_bytes d + struct_size_bytes d \<le> length s"
    using assms by (auto simp: field_ok_def split: if_splits)
  from value_read_bits [OF ok(1,3)] obtain v where v:
    "value_read (struct_offset_bytes d) (struct_size_bytes d) s = Some v"
    "\<And>j. bit v j \<longleftrightarrow> j < 8 * struct_size_bytes d \<and>
       bbit s (8 * (struct_offset_bytes d + struct_size_bytes d) - Suc j)"
    by blast
  have "8 * (struct_offset_bytes d + struct_size_bytes d) - Suc (size_bits d - Suc i) = field_src d + i"
    if "i < size_bits d" for i
    using that ok(2) by (auto simp: field_src_def)
  then show ?thesis
    using v False ok(2) by (intro that [of v]) auto
qed

text \<open>The two read-modify-write forms of \<open>ib_pack\<close>, as an update of a bit range.\<close>

lemma rmw_bits:
  assumes "off + n \<le> length b" and "n \<le> 8" and "o_b + z \<le> 8 * n"
    and w: "\<And>j. j < 8 * n \<Longrightarrow> bit w j \<longleftrightarrow>
        (if 8 * n - o_b - z \<le> j \<and> j < 8 * n - o_b then P (8 * n - Suc j - o_b)
         else bit (be_val (take n (drop off b))) j)"
  shows "\<exists>b'. write_bytes off (be_bytes n w) b = Some b' \<and> bits_updated (8 * off + o_b) z P b b'"
proof -
  let ?b = "take off b @ be_bytes n w @ drop (off + length (be_bytes n w)) b"
  have "bbit ?b k = (if 8 * off + o_b \<le> k \<and> k < 8 * off + o_b + z then P (k - (8 * off + o_b)) else bbit b k)"
    if k: "k < 8 * length b" for k
  proof (cases "8 * off \<le> k \<and> k < 8 * (off + n)")
    case True
    define r where "r = k - 8 * off"
    have r: "k = 8 * off + r" "r < 8 * n" using True by (auto simp: r_def)
    have "bbit ?b k = bit w (8 * n - Suc r)"
      using bbit_splice [of off "be_bytes n w" b k] k assms(1) r by (simp add: bbit_be_bytes)
    also have "\<dots> = (if o_b \<le> r \<and> r < o_b + z then P (r - o_b) else bbit b k)"
      using r assms by (auto simp: w be_val_take_drop)
    finally show ?thesis using r by auto
  next
    case False
    then show ?thesis
      using bbit_splice [of off "be_bytes n w" b k] k assms(1,3) by auto
  qed
  then show ?thesis using assms(1) by (simp add: bits_updated_def)
qed


text \<open>What one turn of \<open>ib_pack\<close> does to the bits of the buffer.\<close>

definition packed_bit :: "ib_field \<Rightarrow> u8 list \<Rightarrow> nat \<Rightarrow> bool" where
  "packed_bit d s i \<longleftrightarrow> struct_size_bytes d \<noteq> 0 \<and> bbit s (field_src d + i)"

lemma ib_pack_field_le32:
  assumes ok: "field_ok (length s) (length buf) d" and sz: "size_bits d \<le> 32"
  shows "\<exists>buf'. ib_pack_field d s buf = Some buf' \<and>
           bits_updated (field_start d) (size_bits d) (packed_bit d s) buf buf'"
proof -
  from ok sz have le: "offset_bits d + size_bits d \<le> 32" "4 * offset_words d + 4 \<le> length buf"
    by (simp_all add: field_ok_def)
  obtain v where v:
    "(if struct_size_bytes d \<noteq> 0 then value_read (struct_offset_bytes d) (struct_size_bytes d) s else Some 0) = Some v"
    "\<And>i. i < size_bits d \<Longrightarrow> bit v (size_bits d - Suc i) \<longleftrightarrow> packed_bit d s i"
    using pack_value [OF ok] sz unfolding packed_bit_def by auto
  define sh where "sh = 32 - offset_bits d - size_bits d"
  define m where "m = (ucast (push_bit sh (push_bit (size_bits d) 1 - 1 :: u64)) :: u32)"
  let ?w = "be_val (take 4 (drop (4 * offset_words d) buf))"
  let ?n = "ucast ((ucast ?w AND NOT m) OR (ucast (push_bit sh v) AND m)) :: u64"
  have mb: "bit m j \<longleftrightarrow> sh \<le> j \<and> j < sh + size_bits d" for j
    using le unfolding m_def by (intro bit_msk32) (simp add: sh_def)
  have n: "bit ?n j \<longleftrightarrow>
        (if 8 * 4 - offset_bits d - size_bits d \<le> j \<and> j < 8 * 4 - offset_bits d
         then packed_bit d s (8 * 4 - Suc j - offset_bits d) else bit ?w j)" if j: "j < 8 * 4" for j
  proof (cases "sh \<le> j \<and> j < sh + size_bits d")
    case True
    then have "bit ?n j \<longleftrightarrow> bit v (j - sh)"
      using j by (simp add: bit_ucast_iff bit_or_iff bit_and_iff bit_not_iff mb bit_push_bit_iff)
    moreover have "j - sh = size_bits d - Suc (8 * 4 - Suc j - offset_bits d)"
      using True le unfolding sh_def by linarith
    moreover have "8 * 4 - Suc j - offset_bits d < size_bits d" using True le unfolding sh_def by linarith
    ultimately have "bit ?n j = packed_bit d s (8 * 4 - Suc j - offset_bits d)"
      using v(2) by metis
    moreover have "8 * 4 - offset_bits d - size_bits d \<le> j \<and> j < 8 * 4 - offset_bits d"
      using True le unfolding sh_def by linarith
    ultimately show ?thesis by (simp only: if_True simp_thms)
  next
    case False
    then have "bit ?n j \<longleftrightarrow> bit ?w j"
      using j by (auto simp: bit_ucast_iff bit_or_iff bit_and_iff bit_not_iff mb)
    then show ?thesis using False le by (auto simp: sh_def)
  qed
  have "ib_pack_field d s buf = write_bytes (4 * offset_words d) (be_bytes 4 ?n) buf"
    using le sz v(1) by (simp add: ib_pack_field_def Let_def sh_def m_def)
  moreover have "\<exists>b'. write_bytes (4 * offset_words d) (be_bytes 4 ?n) buf = Some b' \<and>
      bits_updated (8 * (4 * offset_words d) + offset_bits d) (size_bits d) (packed_bit d s) buf b'"
    using le n by (intro rmw_bits) auto
  ultimately show ?thesis by (simp add: field_start_def)
qed

lemma ib_pack_field_le64:
  assumes ok: "field_ok (length s) (length buf) d" and sz: "32 < size_bits d" "size_bits d \<le> 64"
  shows "\<exists>buf'. ib_pack_field d s buf = Some buf' \<and>
           bits_updated (field_start d) (size_bits d) (packed_bit d s) buf buf'"
proof -
  from ok sz have le: "offset_bits d + size_bits d \<le> 64" "4 * offset_words d + 8 \<le> length buf"
    by (simp_all add: field_ok_def)
  obtain v where v:
    "(if struct_size_bytes d \<noteq> 0 then value_read (struct_offset_bytes d) (struct_size_bytes d) s else Some 0) = Some v"
    "\<And>i. i < size_bits d \<Longrightarrow> bit v (size_bits d - Suc i) \<longleftrightarrow> packed_bit d s i"
    using pack_value [OF ok] sz unfolding packed_bit_def by auto
  define sh where "sh = 64 - offset_bits d - size_bits d"
  define m where "m = (push_bit sh (drop_bit (64 - size_bits d) (NOT 0)) :: u64)"
  let ?w = "be_val (take 8 (drop (4 * offset_words d) buf))"
  let ?n = "(?w AND NOT m) OR (push_bit sh v AND m)"
  have mb: "bit m j \<longleftrightarrow> sh \<le> j \<and> j < sh + size_bits d" for j
    using le sz unfolding m_def by (intro bit_msk64) (simp_all add: sh_def)
  have n: "bit ?n j \<longleftrightarrow>
        (if 8 * 8 - offset_bits d - size_bits d \<le> j \<and> j < 8 * 8 - offset_bits d
         then packed_bit d s (8 * 8 - Suc j - offset_bits d) else bit ?w j)" if j: "j < 8 * 8" for j
  proof (cases "sh \<le> j \<and> j < sh + size_bits d")
    case True
    then have "bit ?n j \<longleftrightarrow> bit v (j - sh)"
      using j by (simp add: bit_or_iff bit_and_iff bit_not_iff mb bit_push_bit_iff)
    moreover have "j - sh = size_bits d - Suc (8 * 8 - Suc j - offset_bits d)"
      using True le unfolding sh_def by linarith
    moreover have "8 * 8 - Suc j - offset_bits d < size_bits d" using True le unfolding sh_def by linarith
    ultimately have "bit ?n j = packed_bit d s (8 * 8 - Suc j - offset_bits d)"
      using v(2) by metis
    moreover have "8 * 8 - offset_bits d - size_bits d \<le> j \<and> j < 8 * 8 - offset_bits d"
      using True le unfolding sh_def by linarith
    ultimately show ?thesis by (simp only: if_True simp_thms)
  next
    case False
    then have "bit ?n j \<longleftrightarrow> bit ?w j"
      using j by (auto simp: bit_or_iff bit_and_iff bit_not_iff mb)
    then show ?thesis using False le by (auto simp: sh_def)
  qed
  have "ib_pack_field d s buf = write_bytes (4 * offset_words d) (be_bytes 8 ?n) buf"
    using le sz v(1) by (simp add: ib_pack_field_def Let_def sh_def m_def)
  moreover have "\<exists>b'. write_bytes (4 * offset_words d) (be_bytes 8 ?n) buf = Some b' \<and>
      bits_updated (8 * (4 * offset_words d) + offset_bits d) (size_bits d) (packed_bit d s) buf b'"
    using le n by (intro rmw_bits) auto
  ultimately show ?thesis by (simp add: field_start_def)
qed

lemma copy_bytes_bits:
  assumes "off + length bs \<le> length b"
  shows "\<exists>b'. write_bytes off bs b = Some b' \<and> bits_updated (8 * off) (8 * length bs) (bbit bs) b b'"
  using assms bbit_splice [OF assms] by (simp add: bits_updated_def algebra_simps)

lemma ib_pack_field_gt64:
  assumes ok: "field_ok (length s) (length buf) d" and sz: "64 < size_bits d"
  shows "\<exists>buf'. ib_pack_field d s buf = Some buf' \<and>
           bits_updated (field_start d) (size_bits d) (packed_bit d s) buf buf'"
proof -
  define off where "off = 4 * offset_words d + offset_bits d div 8"
  let ?n = "size_bits d div 8"
  define bs where "bs = (if struct_size_bytes d \<noteq> 0 then take ?n (drop (struct_offset_bytes d) s) else replicate ?n 0)"
  have al: "8 * ?n = size_bits d" "8 * off = field_start d"
    using ok sz by (auto simp: field_ok_def field_start_def off_def algebra_simps)
  have fit: "field_start d + size_bits d \<le> 8 * length buf"
    and src: "struct_size_bytes d \<noteq> 0 \<Longrightarrow> 8 * struct_size_bytes d = size_bits d \<and>
                struct_offset_bytes d + struct_size_bytes d \<le> length s"
    using ok sz by (auto simp: field_ok_def)
  have len: "length bs = ?n" and "off + length bs \<le> length buf"
    using src fit al by (auto simp: bs_def)
  then obtain b' where b': "write_bytes off bs buf = Some b'"
    "bits_updated (8 * off) (8 * length bs) (bbit bs) buf b'"
    using copy_bytes_bits by blast
  have "bbit bs i = packed_bit d s i" if "i < size_bits d" for i
  proof (cases "struct_size_bytes d = 0")
    case True
    then show ?thesis using that al by (simp add: bs_def packed_bit_def bbit_def less_mult_imp_div_less)
  next
    case False
    then have "field_src d = 8 * struct_offset_bytes d" using src by (simp add: field_src_def)
    then show ?thesis using False that al src
      by (simp add: bs_def packed_bit_def bbit_take_drop)
  qed
  moreover have "ib_pack_field d s buf = Some b'"
    using b'(1) sz src al by (auto simp: ib_pack_field_def Let_def off_def bs_def split: if_splits)
  ultimately show ?thesis using b'(2) al len by (auto simp: bits_updated_def)
qed

lemma ib_pack_field_bits:
  assumes "field_ok (length s) (length buf) d"
  shows "\<exists>buf'. ib_pack_field d s buf = Some buf' \<and>
           bits_updated (field_start d) (size_bits d) (packed_bit d s) buf buf'"
  using ib_pack_field_le32 [OF assms] ib_pack_field_le64 [OF assms] ib_pack_field_gt64 [OF assms]
  by (meson not_le_imp_less)

text \<open>
  What one turn of \<open>ib_unpack\<close> does to the bits of the structure: the field's value, extended
  with zeros on the left. It agrees with \<open>ib_pack\<close> on where a field of 33 to 64 bits is only
  at word 0.
\<close>

definition unpack_ok :: "ib_field \<Rightarrow> bool" where
  "unpack_ok d \<longleftrightarrow> (32 < size_bits d \<and> size_bits d \<le> 64 \<longrightarrow> offset_words d = 0)"

definition unpacked_bit :: "ib_field \<Rightarrow> u8 list \<Rightarrow> nat \<Rightarrow> bool" where
  "unpacked_bit d buf i \<longleftrightarrow> 8 * struct_size_bytes d \<le> i + size_bits d \<and>
     bbit buf (field_start d + (i + size_bits d - 8 * struct_size_bytes d))"

lemma value_write_field:
  assumes "struct_size_bytes d \<in> {1, 2, 4, 8}" "size_bits d \<le> 8 * struct_size_bytes d"
    "struct_offset_bytes d + struct_size_bytes d \<le> length s"
    and v: "\<And>j. bit v j \<longleftrightarrow> j < size_bits d \<and> bbit buf (field_start d + (size_bits d - Suc j))"
  shows "\<exists>s'. value_write (struct_offset_bytes d) (struct_size_bytes d) v s = Some s' \<and>
    bits_updated (8 * struct_offset_bytes d) (8 * struct_size_bytes d) (unpacked_bit d buf) s s'"
proof -
  obtain s' where s': "value_write (struct_offset_bytes d) (struct_size_bytes d) v s = Some s'"
    "length s' = length s"
    "\<And>k. k < 8 * length s \<Longrightarrow> bbit s' k =
       (if 8 * struct_offset_bytes d \<le> k \<and> k < 8 * (struct_offset_bytes d + struct_size_bytes d)
        then bit v (8 * (struct_offset_bytes d + struct_size_bytes d) - Suc k) else bbit s k)"
    using value_write_bits [OF assms(1,3)] by blast
  have "bit v (8 * (struct_offset_bytes d + struct_size_bytes d) - Suc k) =
        unpacked_bit d buf (k - 8 * struct_offset_bytes d)"
    if k: "8 * struct_offset_bytes d \<le> k" "k < 8 * (struct_offset_bytes d + struct_size_bytes d)" for k
  proof -
    define i where "i = k - 8 * struct_offset_bytes d"
    have i: "8 * (struct_offset_bytes d + struct_size_bytes d) - Suc k = 8 * struct_size_bytes d - Suc i"
      "i < 8 * struct_size_bytes d"
      using k by (auto simp: i_def)
    have "8 * struct_size_bytes d - Suc i < size_bits d \<longleftrightarrow> 8 * struct_size_bytes d \<le> i + size_bits d"
      using i(2) by linarith
    moreover have "size_bits d - Suc (8 * struct_size_bytes d - Suc i) = i + size_bits d - 8 * struct_size_bytes d"
      using i(2) assms(2) by linarith
    ultimately show ?thesis
      unfolding i_def [symmetric] i(1) v unpacked_bit_def by simp
  qed
  then show ?thesis using s' by (auto simp: bits_updated_def algebra_simps)
qed

lemma ib_unpack_field_le64:
  assumes ok: "field_ok (length s) (length buf) d" "unpack_ok d" "struct_size_bytes d \<noteq> 0"
    and sz: "size_bits d \<le> 64"
  shows "\<exists>s'. ib_unpack_field d buf s = Some s' \<and>
    bits_updated (8 * struct_offset_bytes d) (8 * struct_size_bytes d) (unpacked_bit d buf) s s'"
proof (cases "size_bits d \<le> 32")
  case True
  from ok True have le: "offset_bits d + size_bits d \<le> 32" "4 * offset_words d + 4 \<le> length buf"
    by (simp_all add: field_ok_def)
  define sh where "sh = 32 - offset_bits d - size_bits d"
  define m where "m = (ucast (push_bit sh (push_bit (size_bits d) 1 - 1 :: u64)) :: u32)"
  define w where "w = be_val (take 4 (drop (4 * offset_words d) buf))"
  let ?v = "ucast (drop_bit sh (ucast w AND m)) :: u64"
  have m: "bit m j \<longleftrightarrow> sh \<le> j \<and> j < sh + size_bits d" for j
    using le unfolding m_def by (intro bit_msk32) (simp add: sh_def)
  have w: "bit w j \<longleftrightarrow> j < 32 \<and> bbit buf (8 * (4 * offset_words d + 4) - Suc j)" for j
    using le unfolding w_def by (subst be_val_take_drop) auto
  have "bit ?v j \<longleftrightarrow> j < size_bits d \<and> bbit buf (field_start d + (size_bits d - Suc j))" for j
  proof (cases "j < size_bits d")
    case j: True
    have "sh + j < 32" "sh + size_bits d \<le> 32" using j le unfolding sh_def by linarith+
    with j have "bit ?v j = bbit buf (8 * (4 * offset_words d + 4) - Suc (sh + j))"
      by (simp add: bit_ucast_iff bit_and_iff bit_drop_bit_eq m w)
    also have "8 * (4 * offset_words d + 4) - Suc (sh + j) = field_start d + (size_bits d - Suc j)"
    proof -
      have "8 * (4 * offset_words d + 4) = 32 * offset_words d + (sh + offset_bits d + size_bits d)"
        using le by (simp add: sh_def)
      then show ?thesis using j by (simp add: field_start_def)
    qed
    finally show ?thesis using j by simp
  qed (simp add: bit_ucast_iff bit_and_iff bit_drop_bit_eq m)
  moreover have "ib_unpack_field d buf s = value_write (struct_offset_bytes d) (struct_size_bytes d) ?v s"
    using ok True le by (simp add: ib_unpack_field_def Let_def sh_def m_def w_def)
  ultimately show ?thesis
    using value_write_field [of d s ?v buf] ok True by (simp add: field_ok_def)
next
  case False
  from ok sz False have le: "offset_bits d + size_bits d \<le> 64" "8 \<le> length buf" "offset_words d = 0"
    by (simp_all add: field_ok_def unpack_ok_def)
  define sh where "sh = 64 - offset_bits d - size_bits d"
  define m where "m = (push_bit sh (drop_bit (64 - size_bits d) (NOT 0)) :: u64)"
  define w where "w = be_val (take 8 (drop 0 buf))"
  let ?v = "drop_bit sh (w AND m) :: u64"
  have m: "bit m j \<longleftrightarrow> sh \<le> j \<and> j < sh + size_bits d" for j
    using le False unfolding m_def by (intro bit_msk64) (simp_all add: sh_def)
  have w: "bit w j \<longleftrightarrow> j < 64 \<and> bbit buf (64 - Suc j)" for j
    using le unfolding w_def by (subst be_val_take_drop) auto
  have "bit ?v j \<longleftrightarrow> j < size_bits d \<and> bbit buf (field_start d + (size_bits d - Suc j))" for j
  proof (cases "j < size_bits d")
    case j: True
    have "sh + j < 64" "sh + size_bits d \<le> 64" using j le unfolding sh_def by linarith+
    with j have "bit ?v j = bbit buf (64 - Suc (sh + j))"
      by (simp add: bit_and_iff bit_drop_bit_eq m w)
    also have "64 - Suc (sh + j) = field_start d + (size_bits d - Suc j)"
      using j le unfolding sh_def field_start_def by linarith
    finally show ?thesis using j by simp
  qed (simp add: bit_and_iff bit_drop_bit_eq m)
  moreover have "ib_unpack_field d buf s = value_write (struct_offset_bytes d) (struct_size_bytes d) ?v s"
    using ok sz False le by (simp add: ib_unpack_field_def Let_def sh_def m_def w_def)
  ultimately show ?thesis
    using value_write_field [of d s ?v buf] ok sz by (simp add: field_ok_def split: if_splits)
qed

lemma ib_unpack_field_gt64:
  assumes ok: "field_ok (length s) (length buf) d" "struct_size_bytes d \<noteq> 0"
    and sz: "64 < size_bits d"
  shows "\<exists>s'. ib_unpack_field d buf s = Some s' \<and>
    bits_updated (8 * struct_offset_bytes d) (8 * struct_size_bytes d) (unpacked_bit d buf) s s'"
proof -
  define off where "off = 4 * offset_words d + offset_bits d div 8"
  define bs where "bs = take (size_bits d div 8) (drop off buf)"
  have al: "8 * (size_bits d div 8) = size_bits d" "8 * off = field_start d"
    and src: "8 * struct_size_bytes d = size_bits d" "struct_offset_bytes d + struct_size_bytes d \<le> length s"
    and fit: "field_start d + size_bits d \<le> 8 * length buf"
    using ok sz by (auto simp: field_ok_def field_start_def off_def algebra_simps)
  then have fit': "off + size_bits d div 8 \<le> length buf" by linarith
  then have len: "length bs = struct_size_bytes d" using src by (simp add: bs_def)
  have "bbit bs i = unpacked_bit d buf i" if "i < 8 * struct_size_bytes d" for i
    using that src al fit by (simp add: bs_def unpacked_bit_def bbit_take_drop)
  moreover have "ib_unpack_field d buf s = write_bytes (struct_offset_bytes d) bs s"
    using ok sz fit' by (simp add: ib_unpack_field_def off_def [symmetric] bs_def)
  ultimately show ?thesis
    using copy_bytes_bits [of "struct_offset_bytes d" bs s] src len by (auto simp: bits_updated_def)
qed

lemma ib_unpack_field_bits:
  assumes "field_ok (length s) (length buf) d" "unpack_ok d"
  shows "\<exists>s'. ib_unpack_field d buf s = Some s' \<and>
    bits_updated (8 * struct_offset_bytes d) (8 * struct_size_bytes d) (unpacked_bit d buf) s s'"
proof (cases "struct_size_bytes d = 0")
  case True
  then show ?thesis by (auto simp: ib_unpack_field_def bits_updated_def)
next
  case False
  then show ?thesis
    using ib_unpack_field_le64 [OF assms False] ib_unpack_field_gt64 [OF assms(1) False]
    by (meson not_le_imp_less)
qed


section \<open>Tables of fields\<close>

text \<open>
  A routine that updates one bit range per table entry. When the ranges are pairwise disjoint,
  the whole run is defined, every range holds its source bits at the end and nothing else
  changes, whatever the order of the table.
\<close>

fun fold_steps :: "('d \<Rightarrow> u8 list \<Rightarrow> u8 list option) \<Rightarrow> 'd list \<Rightarrow> u8 list \<Rightarrow> u8 list option" where
  "fold_steps f [] b = Some b"
| "fold_steps f (d # ds) b = do { b \<leftarrow> f d b; fold_steps f ds b }"

locale range_writer =
  fixes step :: "'d \<Rightarrow> u8 list \<Rightarrow> u8 list option"
    and lo :: "'d \<Rightarrow> nat" and len :: "'d \<Rightarrow> nat"
    and src :: "'d \<Rightarrow> nat \<Rightarrow> bool"
    and ok :: "nat \<Rightarrow> 'd \<Rightarrow> bool"
  assumes step_bits: "ok (length b) d \<Longrightarrow> \<exists>b'. step d b = Some b' \<and> bits_updated (lo d) (len d) (src d) b b'"
    and in_range: "ok n d \<Longrightarrow> lo d + len d \<le> 8 * n"
begin

definition in_field :: "'d \<Rightarrow> nat \<Rightarrow> bool" where
  "in_field d k \<longleftrightarrow> lo d \<le> k \<and> k < lo d + len d"

definition disjoint_fields :: "'d \<Rightarrow> 'd \<Rightarrow> bool" where
  "disjoint_fields d e \<longleftrightarrow> lo d + len d \<le> lo e \<or> lo e + len e \<le> lo d"

lemma fold_steps_bits:
  assumes "\<forall>d \<in> set ds. ok (length b) d" and "sorted_wrt disjoint_fields ds"
  shows "\<exists>b'. fold_steps step ds b = Some b' \<and> length b' = length b \<and>
    (\<forall>d \<in> set ds. \<forall>i < len d. bbit b' (lo d + i) = src d i) \<and>
    (\<forall>k < 8 * length b. (\<forall>d \<in> set ds. \<not> in_field d k) \<longrightarrow> bbit b' k = bbit b k)"
  using assms
proof (induction ds arbitrary: b)
  case (Cons d ds)
  then obtain b1 where b1: "step d b = Some b1" "bits_updated (lo d) (len d) (src d) b b1"
    using step_bits [of b d] by auto
  then have l1: "length b1 = length b" by (simp add: bits_updated_def)
  with Cons obtain b' where b': "fold_steps step ds b1 = Some b'" "length b' = length b"
    "\<forall>d \<in> set ds. \<forall>i < len d. bbit b' (lo d + i) = src d i"
    "\<forall>k < 8 * length b. (\<forall>d \<in> set ds. \<not> in_field d k) \<longrightarrow> bbit b' k = bbit b1 k"
    using Cons.IH [of b1] by auto
  have "bbit b' (lo d + i) = src d i" if "i < len d" for i
  proof -
    have "\<not> in_field e (lo d + i)" if "e \<in> set ds" for e
      using Cons.prems(2) that \<open>i < len d\<close> by (auto simp: in_field_def disjoint_fields_def)
    moreover have "lo d + i < 8 * length b"
      using in_range [of "length b" d] Cons.prems(1) that by fastforce
    ultimately show ?thesis using b'(4) b1(2) that by (auto simp: bits_updated_def)
  qed
  moreover have "bbit b' k = bbit b k"
    if "k < 8 * length b" "\<forall>e \<in> set (d # ds). \<not> in_field e k" for k
    using that b'(4) b1(2) by (auto simp: bits_updated_def in_field_def)
  ultimately show ?case using b' b1(1) by auto
qed simp

end

lemma field_ok_bounds:
  assumes "field_ok slen blen d"
  shows "field_start d + size_bits d \<le> 8 * blen"
    and "struct_size_bytes d \<noteq> 0 \<Longrightarrow> struct_offset_bytes d + struct_size_bytes d \<le> slen"
  using assms by (auto simp: field_ok_def field_start_def split: if_splits)

lemma ib_pack_fold: "ib_pack desc s buf = fold_steps (\<lambda>d. ib_pack_field d s) desc buf"
  by (induction desc arbitrary: buf) (auto intro: bind_option_cong)

lemma ib_unpack_fold: "ib_unpack desc buf s = fold_steps (\<lambda>d. ib_unpack_field d buf) desc s"
  by (induction desc arbitrary: s) (auto intro: bind_option_cong)

interpretation pk: range_writer "\<lambda>d. ib_pack_field d s" field_start size_bits "\<lambda>d. packed_bit d s"
  "field_ok (length s)" for s
  by unfold_locales (use ib_pack_field_bits field_ok_bounds in blast)+

interpretation un: range_writer "\<lambda>d. ib_unpack_field d buf" "\<lambda>d. 8 * struct_offset_bytes d"
  "\<lambda>d. 8 * struct_size_bytes d" "\<lambda>d. unpacked_bit d buf"
  "\<lambda>n d. field_ok n (length buf) d \<and> unpack_ok d \<and> struct_offset_bytes d + struct_size_bytes d \<le> n" for buf
  by unfold_locales (use ib_unpack_field_bits in auto)


text \<open>
  A table is well formed for a structure of \<open>slen\<close> and a buffer of \<open>blen\<close> bytes: every field
  fits both, the bit ranges of the fields are disjoint in the buffer, and their bytes are
  disjoint in the structure.
\<close>

definition struct_disjoint :: "ib_field \<Rightarrow> ib_field \<Rightarrow> bool" where
  "struct_disjoint d e \<longleftrightarrow> struct_size_bytes d = 0 \<or> struct_size_bytes e = 0 \<or>
     struct_offset_bytes d + struct_size_bytes d \<le> struct_offset_bytes e \<or>
     struct_offset_bytes e + struct_size_bytes e \<le> struct_offset_bytes d"

definition buf_disjoint :: "ib_field \<Rightarrow> ib_field \<Rightarrow> bool" where
  "buf_disjoint d e \<longleftrightarrow> field_start d + size_bits d \<le> field_start e \<or>
     field_start e + size_bits e \<le> field_start d"

definition table_ok :: "nat \<Rightarrow> nat \<Rightarrow> ib_field list \<Rightarrow> bool" where
  "table_ok slen blen desc \<longleftrightarrow> (\<forall>d \<in> set desc. field_ok slen blen d \<and> unpack_ok d) \<and>
     sorted_wrt buf_disjoint desc \<and> sorted_wrt struct_disjoint desc"

text \<open>The structure's fields hold values that fit the width they have on the wire.\<close>

definition value_fits :: "u8 list \<Rightarrow> ib_field \<Rightarrow> bool" where
  "value_fits s d \<longleftrightarrow> (\<forall>i < 8 * struct_size_bytes d - size_bits d. \<not> bbit s (8 * struct_offset_bytes d + i))"

lemma ib_pack_bits:
  assumes "table_ok (length s) (length buf) desc"
  shows "\<exists>buf'. ib_pack desc s buf = Some buf' \<and> length buf' = length buf \<and>
    (\<forall>d \<in> set desc. \<forall>i < size_bits d. bbit buf' (field_start d + i) = packed_bit d s i) \<and>
    (\<forall>k < 8 * length buf. (\<forall>d \<in> set desc. \<not> (field_start d \<le> k \<and> k < field_start d + size_bits d)) \<longrightarrow>
       bbit buf' k = bbit buf k)"
  using pk.fold_steps_bits [of desc s buf] assms
  by (simp add: ib_pack_fold table_ok_def pk.in_field_def pk.disjoint_fields_def [abs_def] buf_disjoint_def [abs_def])

text \<open>Reserved entries are skipped by \<open>ib_unpack\<close>.\<close>

lemma ib_unpack_filter:
  "ib_unpack desc buf s = ib_unpack (filter (\<lambda>d. struct_size_bytes d \<noteq> 0) desc) buf s"
  by (induction desc arbitrary: s) (auto simp: ib_unpack_field_def [of d] ib_unpack_field_def intro: bind_option_cong)

lemma ib_unpack_bits:
  assumes "table_ok (length s) (length buf) desc"
  shows "\<exists>s'. ib_unpack desc buf s = Some s' \<and> length s' = length s \<and>
    (\<forall>d \<in> set desc. \<forall>i < 8 * struct_size_bytes d. bbit s' (8 * struct_offset_bytes d + i) = unpacked_bit d buf i) \<and>
    (\<forall>k < 8 * length s. (\<forall>d \<in> set desc. \<not> (8 * struct_offset_bytes d \<le> k \<and>
         k < 8 * struct_offset_bytes d + 8 * struct_size_bytes d)) \<longrightarrow> bbit s' k = bbit s k)"
proof -
  let ?ds = "filter (\<lambda>d. struct_size_bytes d \<noteq> 0) desc"
  have "\<forall>d \<in> set ?ds. field_ok (length s) (length buf) d \<and> unpack_ok d \<and>
          struct_offset_bytes d + struct_size_bytes d \<le> length s"
    using assms field_ok_bounds(2) by (auto simp: table_ok_def)
  moreover have "sorted_wrt un.disjoint_fields ?ds"
  proof -
    have "sorted_wrt struct_disjoint ?ds" using assms by (simp add: table_ok_def sorted_wrt_filter)
    then show ?thesis
      by (rule sorted_wrt_mono_rel [rotated]) (auto simp: un.disjoint_fields_def struct_disjoint_def)
  qed
  ultimately obtain s' where s': "fold_steps (\<lambda>d. ib_unpack_field d buf) ?ds s = Some s'" "length s' = length s"
    "\<forall>d \<in> set ?ds. \<forall>i < 8 * struct_size_bytes d. bbit s' (8 * struct_offset_bytes d + i) = unpacked_bit d buf i"
    "\<forall>k < 8 * length s. (\<forall>d \<in> set ?ds. \<not> un.in_field d k) \<longrightarrow> bbit s' k = bbit s k"
    using un.fold_steps_bits [of ?ds s buf] by blast
  show ?thesis
    by (subst ib_unpack_filter, rule exI [of _ s']) (use s' in \<open>auto simp: ib_unpack_fold un.in_field_def\<close>)
qed


lemma unpacked_packed:
  assumes "field_ok slen blen d" and "value_fits s d" and "i < 8 * struct_size_bytes d"
    and "\<forall>i < size_bits d. bbit buf (field_start d + i) = packed_bit d s i"
  shows "unpacked_bit d buf i = bbit s (8 * struct_offset_bytes d + i)"
proof -
  have le: "size_bits d \<le> 8 * struct_size_bytes d"
    using assms(1,3) by (auto simp: field_ok_def split: if_splits)
  show ?thesis
  proof (cases "8 * struct_size_bytes d \<le> i + size_bits d")
    case True
    define j where "j = i + size_bits d - 8 * struct_size_bytes d"
    have j: "j < size_bits d" "field_src d + j = 8 * struct_offset_bytes d + i"
      using True assms(3) le by (auto simp: j_def field_src_def)
    then show ?thesis
      using True assms(3,4) by (simp add: unpacked_bit_def j_def [symmetric] packed_bit_def)
  next
    case False
    then show ?thesis using assms(2) by (auto simp: unpacked_bit_def value_fits_def)
  qed
qed

text \<open>The bytes of a field in a structure.\<close>

definition field_bytes :: "ib_field \<Rightarrow> u8 list \<Rightarrow> u8 list" where
  "field_bytes d s = take (struct_size_bytes d) (drop (struct_offset_bytes d) s)"

lemma field_bytes_eqI:
  assumes "length s = length t" and "struct_offset_bytes d + struct_size_bytes d \<le> length s"
    and "\<And>i. i < 8 * struct_size_bytes d \<Longrightarrow>
          bbit s (8 * struct_offset_bytes d + i) = bbit t (8 * struct_offset_bytes d + i)"
  shows "field_bytes d s = field_bytes d t"
proof (rule bbit_eqI)
  fix k assume "k < 8 * length (field_bytes d s)"
  then have "k < 8 * struct_size_bytes d" using assms(2) by (simp add: field_bytes_def)
  then show "bbit (field_bytes d s) k = bbit (field_bytes d t) k"
    using assms by (simp add: field_bytes_def bbit_take_drop)
qed (simp add: field_bytes_def assms(1))

lemma unpacked_field_bytes:
  assumes "field_ok (length t) blen d" and "value_fits s d" and "length t = length s" and "length s' = length t"
    and "\<forall>i < size_bits d. bbit buf (field_start d + i) = packed_bit d s i"
    and "\<forall>i < 8 * struct_size_bytes d. bbit s' (8 * struct_offset_bytes d + i) = unpacked_bit d buf i"
  shows "field_bytes d s' = field_bytes d s"
proof (cases "struct_size_bytes d = 0")
  case False
  then show ?thesis
    using field_ok_bounds(2) [OF assms(1)] unpacked_packed [OF assms(1,2) _ assms(5)] assms(3,4,6)
    by (intro field_bytes_eqI) simp_all
qed (simp add: field_bytes_def)

lemma pack_unpack_fields:
  assumes tab: "table_ok (length s) (length buf) desc" and fits: "\<forall>d \<in> set desc. value_fits s d"
    and len: "length t = length s"
  shows "\<exists>buf' s'. ib_pack desc s buf = Some buf' \<and> length buf' = length buf \<and>
    ib_unpack desc buf' t = Some s' \<and> length s' = length s \<and>
    (\<forall>d \<in> set desc. field_bytes d s' = field_bytes d s)"
proof -
  obtain buf' where b: "ib_pack desc s buf = Some buf'" "length buf' = length buf"
    "\<forall>d \<in> set desc. \<forall>i < size_bits d. bbit buf' (field_start d + i) = packed_bit d s i"
    using ib_pack_bits [OF tab] by blast
  obtain s' where s: "ib_unpack desc buf' t = Some s'" "length s' = length t"
    "\<forall>d \<in> set desc. \<forall>i < 8 * struct_size_bytes d. bbit s' (8 * struct_offset_bytes d + i) = unpacked_bit d buf' i"
    using ib_unpack_bits [of t buf' desc] tab b(2) len by auto
  have "field_bytes d s' = field_bytes d s" if d: "d \<in> set desc" for d
    using unpacked_field_bytes [of t "length buf" d s s' buf'] tab d fits b(3) s(2,3) len
    by (simp add: table_ok_def)
  then show ?thesis using b s len by auto
qed

text \<open>A structure whose bytes all belong to fields is determined by its fields.\<close>

definition fields_cover :: "nat \<Rightarrow> ib_field list \<Rightarrow> bool" where
  "fields_cover n desc \<longleftrightarrow> list_all (\<lambda>k. list_ex (\<lambda>d. struct_offset_bytes d \<le> k \<and>
     k < struct_offset_bytes d + struct_size_bytes d) desc) [0..<n]"

lemma fields_cover_eqI:
  assumes "fields_cover (length s) desc" and "length s = length t"
    and "\<And>d. d \<in> set desc \<Longrightarrow> field_bytes d s = field_bytes d t"
  shows "s = t"
proof (rule nth_equalityI)
  fix k assume k: "k < length s"
  then have "k \<in> set [0..<length s]" by simp
  then obtain d where d: "d \<in> set desc" "struct_offset_bytes d \<le> k"
    "k < struct_offset_bytes d + struct_size_bytes d"
    using assms(1) unfolding fields_cover_def list_all_iff list_ex_iff
    by blast
  have "field_bytes d x ! (k - struct_offset_bytes d) = x ! k" if "length x = length s" for x
    using d k that by (simp add: field_bytes_def)
  then show "s ! k = t ! k" using assms(2,3) d(1) by metis
qed (rule assms(2))


text \<open>
  C17: packing a structure and unpacking the buffer again gives the structure back. The table must
  be well formed for the two sizes, every byte of the structure must belong to a field and every
  field must hold a value of its width on the wire; whatever was in the buffer and in the target
  structure before is irrelevant, and no access leaves either of them.
\<close>

theorem ib_pack_unpack_roundtrip:
  assumes "table_ok (length s) (length buf) desc" and "fields_cover (length s) desc"
    and "list_all (value_fits s) desc" and "length t = length s"
  shows "ib_pack desc s buf \<bind> (\<lambda>buf. ib_unpack desc buf t) = Some s"
proof -
  obtain buf' s' where "ib_pack desc s buf = Some buf'" "ib_unpack desc buf' t = Some s'"
    "length s' = length s" "\<forall>d \<in> set desc. field_bytes d s' = field_bytes d s"
    using pack_unpack_fields [OF assms(1) _ assms(4)] assms(3) by (auto simp: list_all_iff)
  moreover from this have "s' = s"
    using fields_cover_eqI [of s' desc s] assms(2) by simp
  ultimately show ?thesis by simp
qed

text \<open>An executable form of \<open>value_fits\<close> for the evaluation of concrete structures.\<close>

lemma value_fits_code [code]:
  "value_fits s d \<longleftrightarrow> list_all (\<lambda>i. \<not> bbit s (8 * struct_offset_bytes d + i))
     [0..<8 * struct_size_bytes d - size_bits d]"
  by (auto simp: value_fits_def list_all_iff)

theorem ib_pack_unpack_roundtrip_witness:
  "let desc = [\<lparr>struct_offset_bytes = 0, struct_size_bytes = 2, offset_words = 0, offset_bits = 4, size_bits = 12,
                field_name = ''a''\<rparr>,
               \<lparr>struct_offset_bytes = 2, struct_size_bytes = 1, offset_words = 0, offset_bits = 0, size_bits = 4,
                field_name = ''b''\<rparr>];
       s = [0x0a, 0xbc, 0x05]
   in ib_pack desc s [1, 2, 3, 4] \<bind> (\<lambda>buf. ib_unpack desc buf [7, 7, 7]) = Some s"
  unfolding Let_def
  by (rule ib_pack_unpack_roundtrip) code_simp+

text \<open>
  Where \<open>ib_unpack\<close> looks for a field of 33 to 64 bits: as if the buffer began \<open>offset_words\<close>
  double words later and the field were at word 0 of it.
\<close>

lemma ib_unpack_field_wide:
  assumes "32 < size_bits d" and "size_bits d \<le> 64" and "8 * offset_words d + 8 \<le> length buf"
  shows "ib_unpack_field d buf s = ib_unpack_field (d\<lparr>offset_words := 0\<rparr>) (drop (8 * offset_words d) buf) s"
  using assms by (simp add: ib_unpack_field_def Let_def)

lemma ib_unpack_field_wide_None:
  assumes "32 < size_bits d" and "size_bits d \<le> 64" and "struct_size_bytes d \<noteq> 0"
    and "length buf < 8 * offset_words d + 8"
  shows "ib_unpack_field d buf s = None"
  using assms by (simp add: ib_unpack_field_def Let_def read_bytes_def)

lemma ib_pack_single: "ib_pack [d] s buf = ib_pack_field d s buf"
  by (cases "ib_pack_field d s buf") simp_all

lemma ib_unpack_single: "ib_unpack [d] buf s = ib_unpack_field d buf s"
  by (cases "ib_unpack_field d buf s") simp_all

lemma bbit_drop: "n \<le> length b \<Longrightarrow> bbit (drop n b) k = bbit b (8 * n + k)"
  by (simp add: bbit_def)

lemma ib_unpack_field_wide_bits:
  assumes ok: "field_ok (length s) (length buf) d" and sz: "32 < size_bits d" "size_bits d \<le> 64"
    and st: "struct_size_bytes d \<noteq> 0" and fit: "8 * offset_words d + 8 \<le> length buf"
  shows "\<exists>s'. ib_unpack_field d buf s = Some s' \<and> length s' = length s \<and>
    (\<forall>i < size_bits d. bbit s' (field_src d + i) = bbit buf (64 * offset_words d + offset_bits d + i))"
proof -
  let ?d = "d\<lparr>offset_words := 0\<rparr>" and ?b = "drop (8 * offset_words d) buf"
  have "field_ok (length s) (length ?b) ?d" "unpack_ok ?d"
    using ok sz fit by (simp_all add: field_ok_def unpack_ok_def)
  then obtain s' where s': "ib_unpack_field ?d ?b s = Some s'"
    "bits_updated (8 * struct_offset_bytes d) (8 * struct_size_bytes d) (unpacked_bit ?d ?b) s s'"
    using ib_unpack_field_bits [of s ?b ?d] by auto
  have le: "size_bits d \<le> 8 * struct_size_bytes d" "struct_offset_bytes d + struct_size_bytes d \<le> length s"
    using ok sz st by (simp_all add: field_ok_def split: if_splits)
  have "bbit s' (field_src d + i) = bbit buf (64 * offset_words d + offset_bits d + i)" if i: "i < size_bits d" for i
  proof -
    let ?k = "field_src d + i"
    have k: "8 * struct_offset_bytes d \<le> ?k" "?k < 8 * struct_offset_bytes d + 8 * struct_size_bytes d"
      "?k < 8 * length s" "?k - 8 * struct_offset_bytes d + size_bits d - 8 * struct_size_bytes d = i"
      "8 * struct_size_bytes d \<le> ?k - 8 * struct_offset_bytes d + size_bits d"
    proof -
      have "?k + size_bits d = 8 * struct_offset_bytes d + 8 * struct_size_bytes d + i"
        using le(1) by (simp add: field_src_def)
      with le i show "8 * struct_offset_bytes d \<le> ?k" "?k < 8 * struct_offset_bytes d + 8 * struct_size_bytes d"
        "?k < 8 * length s" "?k - 8 * struct_offset_bytes d + size_bits d - 8 * struct_size_bytes d = i"
        "8 * struct_size_bytes d \<le> ?k - 8 * struct_offset_bytes d + size_bits d"
        by linarith+
    qed
    then have "bbit s' ?k = unpacked_bit ?d ?b (?k - 8 * struct_offset_bytes d)"
      using s'(2) unfolding bits_updated_def by simp
    then show ?thesis
      using k(4,5) fit by (simp add: unpacked_bit_def field_start_def bbit_drop add.assoc)
  qed
  then show ?thesis
    using s' ib_unpack_field_wide [OF sz fit] by (auto simp: bits_updated_def)
qed

lemma bits_updated_drop:
  assumes "bits_updated lo z P b b'" and "lo + z \<le> 8 * n"
  shows "drop n b' = drop n b"
proof (rule bbit_eqI)
  fix k assume "k < 8 * length (drop n b')"
  then have "n \<le> length b'" "8 * n + k < 8 * length b'" by auto
  then show "bbit (drop n b') k = bbit (drop n b) k"
    using assms by (simp add: bbit_drop bits_updated_def)
qed (use assms in \<open>simp add: bits_updated_def\<close>)

text \<open>
  C33: the round trip fails for every field of 33 to 64 bits behind word 0 of the buffer.
  \<open>ib_pack\<close> places its value \<open>offset_words\<close> words into the buffer, and is defined as soon as the
  field fits there; \<open>ib_unpack\<close> takes the value from \<open>offset_words\<close> double words into the buffer.
  When the buffer does not reach that far it reads past its end; otherwise it returns the bits
  that stand there; and from word 2 on these are none of the bits \<open>ib_pack\<close> wrote, so that what
  was packed is not read at all.
\<close>

theorem ib_unpack_wide_field_stride:
  assumes "field_ok (length s) (length buf) d" and "32 < size_bits d" and "size_bits d \<le> 64"
    and "struct_size_bytes d \<noteq> 0" and "0 < offset_words d" and "length t = length s"
  shows "\<exists>buf'. ib_pack [d] s buf = Some buf' \<and>
    (\<forall>i < size_bits d. bbit buf' (32 * offset_words d + offset_bits d + i) = bbit s (field_src d + i)) \<and>
    (if length buf < 8 * offset_words d + 8 then ib_unpack [d] buf' t = None
     else (\<exists>t'. ib_unpack [d] buf' t = Some t' \<and>
            (\<forall>i < size_bits d. bbit t' (field_src d + i) = bbit buf' (64 * offset_words d + offset_bits d + i))) \<and>
          (2 \<le> offset_words d \<longrightarrow> ib_unpack [d] buf' t = ib_unpack [d] buf t))"
proof -
  obtain buf' where b: "ib_pack_field d s buf = Some buf'"
    "bits_updated (field_start d) (size_bits d) (packed_bit d s) buf buf'"
    using ib_pack_field_bits [OF assms(1)] by blast
  then have len: "length buf' = length buf" by (simp add: bits_updated_def)
  have "bbit buf' (32 * offset_words d + offset_bits d + i) = bbit s (field_src d + i)" if "i < size_bits d" for i
    using b(2) that field_ok_bounds(1) [OF assms(1)] assms(4)
    by (simp add: bits_updated_def field_start_def packed_bit_def)
  moreover have "ib_unpack_field d buf' t = None" if "length buf < 8 * offset_words d + 8"
    using ib_unpack_field_wide_None [OF assms(2-4)] that len by simp
  moreover have "\<exists>t'. ib_unpack_field d buf' t = Some t' \<and>
      (\<forall>i < size_bits d. bbit t' (field_src d + i) = bbit buf' (64 * offset_words d + offset_bits d + i))"
    if "\<not> length buf < 8 * offset_words d + 8"
    using ib_unpack_field_wide_bits [of t buf' d] assms len that by auto
  moreover have "ib_unpack_field d buf' t = ib_unpack_field d buf t"
    if "\<not> length buf < 8 * offset_words d + 8" "2 \<le> offset_words d"
  proof -
    have "field_start d + size_bits d \<le> 8 * (8 * offset_words d)"
      using assms(1-3) that(2) by (simp add: field_ok_def field_start_def)
    from bits_updated_drop [OF b(2) this] show ?thesis
      using ib_unpack_field_wide [OF assms(2,3)] that(1) len by simp
  qed
  ultimately show ?thesis
    using b(1) by (intro exI [of _ buf']) (simp only: ib_pack_single ib_unpack_single, simp)
qed

theorem ib_unpack_wide_field_stride_witness:
  "let d = \<lparr>struct_offset_bytes = 0, struct_size_bytes = 8, offset_words = 1, offset_bits = 0, size_bits = 64,
            field_name = ''wide''\<rparr>;
       e = d\<lparr>offset_words := 2\<rparr>;
       s = [1, 2, 3, 4, 5, 6, 7, 8]; t = replicate 8 0
   in (\<exists>buf'. ib_pack [d] s (replicate 12 0) = Some buf' \<and> ib_unpack [d] buf' t = None) \<and>
      (\<exists>buf'. ib_pack [e] s (replicate 24 0) = Some buf' \<and>
              ib_unpack [e] buf' t = ib_unpack [e] (replicate 24 0) t)"
proof -
  let ?d = "\<lparr>struct_offset_bytes = 0, struct_size_bytes = 8, offset_words = 1, offset_bits = 0, size_bits = 64,
            field_name = ''wide''\<rparr>"
  let ?s = "[1, 2, 3, 4, 5, 6, 7, 8] :: u8 list"
  have "\<exists>buf'. ib_pack [?d] ?s (replicate 12 0) = Some buf' \<and> ib_unpack [?d] buf' (replicate 8 0) = None"
    using ib_unpack_wide_field_stride [of ?s "replicate 12 0" ?d "replicate 8 0"] by (auto simp: field_ok_def)
  moreover have "\<exists>buf'. ib_pack [?d\<lparr>offset_words := 2\<rparr>] ?s (replicate 24 0) = Some buf' \<and>
      ib_unpack [?d\<lparr>offset_words := 2\<rparr>] buf' (replicate 8 0) =
      ib_unpack [?d\<lparr>offset_words := 2\<rparr>] (replicate 24 0) (replicate 8 0)"
    using ib_unpack_wide_field_stride [of ?s "replicate 24 0" "?d\<lparr>offset_words := 2\<rparr>" "replicate 8 0"]
    by (auto simp: field_ok_def)
  ultimately show ?thesis by (simp only: Let_def) 
qed

end
