(* ===== verification/Ud_Header.thy ===== *)
theory Ud_Header
  imports Packer
begin

unbundle bit_operations_syntax

text \<open>
  The headers of an unreliable-datagram packet, \<open>drivers/infiniband/core/ud_header.c\<close> with the
  structures of \<open>include/rdma/ib_pack.h\<close>. A structure is a record; \<open>*_bytes\<close> is the memory it
  occupies (fields at their natural alignment, big-endian fields in network order) and
  \<open>*_of_bytes\<close> reads it back. The records hold the value of a big-endian field. Padding, which the code never reads, is
  zero. \<open>ib_pack\<close> and \<open>ib_unpack\<close> work on these bytes through the tables of the source.
\<close>

section \<open>Structures\<close>

record ib_unpacked_lrh =
  lrh_virtual_lane :: u8
  lrh_link_version :: u8
  lrh_service_level :: u8
  lrh_link_next_header :: u8
  lrh_destination_lid :: u16
  lrh_packet_length :: u16
  lrh_source_lid :: u16

record ib_unpacked_grh =
  grh_ip_version :: u8
  grh_traffic_class :: u8
  grh_flow_label :: u32
  grh_payload_length :: u16
  grh_next_header :: u8
  grh_hop_limit :: u8
  grh_source_gid :: "u8 list"
  grh_destination_gid :: "u8 list"

record ib_unpacked_bth =
  bth_opcode :: u8
  bth_solicited_event :: u8
  bth_mig_req :: u8
  bth_pad_count :: u8
  bth_transport_header_version :: u8
  bth_pkey :: u16
  bth_destination_qpn :: u32
  bth_ack_req :: u8
  bth_psn :: u32

record ib_unpacked_deth =
  deth_qkey :: u32
  deth_source_qpn :: u32

record ib_unpacked_eth =
  eth_dmac_h :: "u8 list"
  eth_dmac_l :: "u8 list"
  eth_smac_h :: "u8 list"
  eth_smac_l :: "u8 list"
  eth_type :: u16

record ib_unpacked_ip4 =
  ip4_ver :: u8
  ip4_hdr_len :: u8
  ip4_tos :: u8
  ip4_tot_len :: u16
  ip4_id :: u16
  ip4_frag_off :: u16
  ip4_ttl :: u8
  ip4_protocol :: u8
  ip4_check :: u16
  ip4_saddr :: u32
  ip4_daddr :: u32

record ib_unpacked_udp =
  udp_sport :: u16
  udp_dport :: u16
  udp_length :: u16
  udp_csum :: u16

record ib_unpacked_vlan =
  vlan_tag :: u16
  vlan_type :: u16

record ib_ud_header =
  lrh_present :: bool
  lrh :: ib_unpacked_lrh
  eth_present :: bool
  eth :: ib_unpacked_eth
  vlan_present :: bool
  vlan :: ib_unpacked_vlan
  grh_present :: bool
  grh :: ib_unpacked_grh
  ipv4_present :: bool
  ip4 :: ib_unpacked_ip4
  udp_present :: bool
  udp :: ib_unpacked_udp
  bth :: ib_unpacked_bth
  deth :: ib_unpacked_deth
  immediate_present :: bool
  immediate_data :: u32

section \<open>Memory layout\<close>

abbreviation pad :: "nat \<Rightarrow> u8 list" where
  "pad n \<equiv> replicate n 0"

definition lrh_bytes :: "ib_unpacked_lrh \<Rightarrow> u8 list" where
  "lrh_bytes h =
     be_bytes 1 (ucast (lrh_virtual_lane h)) @
     be_bytes 1 (ucast (lrh_link_version h)) @
     be_bytes 1 (ucast (lrh_service_level h)) @
     be_bytes 1 (ucast (lrh_link_next_header h)) @
     be_bytes 2 (ucast (lrh_destination_lid h)) @
     be_bytes 2 (ucast (lrh_packet_length h)) @
     be_bytes 2 (ucast (lrh_source_lid h))"

definition lrh_of_bytes :: "u8 list \<Rightarrow> ib_unpacked_lrh" where
  "lrh_of_bytes s = \<lparr>
     lrh_virtual_lane = ucast (be_val (take 1 (drop 0 s))),
     lrh_link_version = ucast (be_val (take 1 (drop 1 s))),
     lrh_service_level = ucast (be_val (take 1 (drop 2 s))),
     lrh_link_next_header = ucast (be_val (take 1 (drop 3 s))),
     lrh_destination_lid = ucast (be_val (take 2 (drop 4 s))),
     lrh_packet_length = ucast (be_val (take 2 (drop 6 s))),
     lrh_source_lid = ucast (be_val (take 2 (drop 8 s)))\<rparr>"

definition grh_bytes :: "ib_unpacked_grh \<Rightarrow> u8 list" where
  "grh_bytes h =
     be_bytes 1 (ucast (grh_ip_version h)) @
     be_bytes 1 (ucast (grh_traffic_class h)) @
     pad 2 @
     be_bytes 4 (ucast (grh_flow_label h)) @
     be_bytes 2 (ucast (grh_payload_length h)) @
     be_bytes 1 (ucast (grh_next_header h)) @
     be_bytes 1 (ucast (grh_hop_limit h)) @
     pad 4 @
     grh_source_gid h @
     grh_destination_gid h"

definition grh_of_bytes :: "u8 list \<Rightarrow> ib_unpacked_grh" where
  "grh_of_bytes s = \<lparr>
     grh_ip_version = ucast (be_val (take 1 (drop 0 s))),
     grh_traffic_class = ucast (be_val (take 1 (drop 1 s))),
     grh_flow_label = ucast (be_val (take 4 (drop 4 s))),
     grh_payload_length = ucast (be_val (take 2 (drop 8 s))),
     grh_next_header = ucast (be_val (take 1 (drop 10 s))),
     grh_hop_limit = ucast (be_val (take 1 (drop 11 s))),
     grh_source_gid = take 16 (drop 16 s),
     grh_destination_gid = take 16 (drop 32 s)\<rparr>"

definition bth_bytes :: "ib_unpacked_bth \<Rightarrow> u8 list" where
  "bth_bytes h =
     be_bytes 1 (ucast (bth_opcode h)) @
     be_bytes 1 (ucast (bth_solicited_event h)) @
     be_bytes 1 (ucast (bth_mig_req h)) @
     be_bytes 1 (ucast (bth_pad_count h)) @
     be_bytes 1 (ucast (bth_transport_header_version h)) @
     pad 1 @
     be_bytes 2 (ucast (bth_pkey h)) @
     be_bytes 4 (ucast (bth_destination_qpn h)) @
     be_bytes 1 (ucast (bth_ack_req h)) @
     pad 3 @
     be_bytes 4 (ucast (bth_psn h))"

definition bth_of_bytes :: "u8 list \<Rightarrow> ib_unpacked_bth" where
  "bth_of_bytes s = \<lparr>
     bth_opcode = ucast (be_val (take 1 (drop 0 s))),
     bth_solicited_event = ucast (be_val (take 1 (drop 1 s))),
     bth_mig_req = ucast (be_val (take 1 (drop 2 s))),
     bth_pad_count = ucast (be_val (take 1 (drop 3 s))),
     bth_transport_header_version = ucast (be_val (take 1 (drop 4 s))),
     bth_pkey = ucast (be_val (take 2 (drop 6 s))),
     bth_destination_qpn = ucast (be_val (take 4 (drop 8 s))),
     bth_ack_req = ucast (be_val (take 1 (drop 12 s))),
     bth_psn = ucast (be_val (take 4 (drop 16 s)))\<rparr>"

definition deth_bytes :: "ib_unpacked_deth \<Rightarrow> u8 list" where
  "deth_bytes h =
     be_bytes 4 (ucast (deth_qkey h)) @
     be_bytes 4 (ucast (deth_source_qpn h))"

definition deth_of_bytes :: "u8 list \<Rightarrow> ib_unpacked_deth" where
  "deth_of_bytes s = \<lparr>
     deth_qkey = ucast (be_val (take 4 (drop 0 s))),
     deth_source_qpn = ucast (be_val (take 4 (drop 4 s)))\<rparr>"

definition eth_bytes :: "ib_unpacked_eth \<Rightarrow> u8 list" where
  "eth_bytes h =
     eth_dmac_h h @
     eth_dmac_l h @
     eth_smac_h h @
     eth_smac_l h @
     be_bytes 2 (ucast (eth_type h))"

definition eth_of_bytes :: "u8 list \<Rightarrow> ib_unpacked_eth" where
  "eth_of_bytes s = \<lparr>
     eth_dmac_h = take 4 (drop 0 s),
     eth_dmac_l = take 2 (drop 4 s),
     eth_smac_h = take 2 (drop 6 s),
     eth_smac_l = take 4 (drop 8 s),
     eth_type = ucast (be_val (take 2 (drop 12 s)))\<rparr>"

definition ip4_bytes :: "ib_unpacked_ip4 \<Rightarrow> u8 list" where
  "ip4_bytes h =
     be_bytes 1 (ucast (ip4_ver h)) @
     be_bytes 1 (ucast (ip4_hdr_len h)) @
     be_bytes 1 (ucast (ip4_tos h)) @
     pad 1 @
     be_bytes 2 (ucast (ip4_tot_len h)) @
     be_bytes 2 (ucast (ip4_id h)) @
     be_bytes 2 (ucast (ip4_frag_off h)) @
     be_bytes 1 (ucast (ip4_ttl h)) @
     be_bytes 1 (ucast (ip4_protocol h)) @
     be_bytes 2 (ucast (ip4_check h)) @
     pad 2 @
     be_bytes 4 (ucast (ip4_saddr h)) @
     be_bytes 4 (ucast (ip4_daddr h))"

definition ip4_of_bytes :: "u8 list \<Rightarrow> ib_unpacked_ip4" where
  "ip4_of_bytes s = \<lparr>
     ip4_ver = ucast (be_val (take 1 (drop 0 s))),
     ip4_hdr_len = ucast (be_val (take 1 (drop 1 s))),
     ip4_tos = ucast (be_val (take 1 (drop 2 s))),
     ip4_tot_len = ucast (be_val (take 2 (drop 4 s))),
     ip4_id = ucast (be_val (take 2 (drop 6 s))),
     ip4_frag_off = ucast (be_val (take 2 (drop 8 s))),
     ip4_ttl = ucast (be_val (take 1 (drop 10 s))),
     ip4_protocol = ucast (be_val (take 1 (drop 11 s))),
     ip4_check = ucast (be_val (take 2 (drop 12 s))),
     ip4_saddr = ucast (be_val (take 4 (drop 16 s))),
     ip4_daddr = ucast (be_val (take 4 (drop 20 s)))\<rparr>"

definition udp_bytes :: "ib_unpacked_udp \<Rightarrow> u8 list" where
  "udp_bytes h =
     be_bytes 2 (ucast (udp_sport h)) @
     be_bytes 2 (ucast (udp_dport h)) @
     be_bytes 2 (ucast (udp_length h)) @
     be_bytes 2 (ucast (udp_csum h))"

definition udp_of_bytes :: "u8 list \<Rightarrow> ib_unpacked_udp" where
  "udp_of_bytes s = \<lparr>
     udp_sport = ucast (be_val (take 2 (drop 0 s))),
     udp_dport = ucast (be_val (take 2 (drop 2 s))),
     udp_length = ucast (be_val (take 2 (drop 4 s))),
     udp_csum = ucast (be_val (take 2 (drop 6 s)))\<rparr>"

definition vlan_bytes :: "ib_unpacked_vlan \<Rightarrow> u8 list" where
  "vlan_bytes h =
     be_bytes 2 (ucast (vlan_tag h)) @
     be_bytes 2 (ucast (vlan_type h))"

definition vlan_of_bytes :: "u8 list \<Rightarrow> ib_unpacked_vlan" where
  "vlan_of_bytes s = \<lparr>
     vlan_tag = ucast (be_val (take 2 (drop 0 s))),
     vlan_type = ucast (be_val (take 2 (drop 2 s)))\<rparr>"

section \<open>Tables\<close>

text \<open>An entry without \<open>STRUCT_FIELD\<close> leaves the structure offset and size zero.\<close>

definition RESERVED :: "nat \<Rightarrow> nat \<Rightarrow> nat \<Rightarrow> ib_field" where
  "RESERVED w o_b z = \<lparr>struct_offset_bytes = 0, struct_size_bytes = 0, offset_words = w, offset_bits = o_b,
     size_bits = z, field_name = ''reserved''\<rparr>"

definition lrh_table :: "ib_field list" where
  "lrh_table =
    [\<lparr>struct_offset_bytes = 0, struct_size_bytes = 1, offset_words = 0, offset_bits = 0, size_bits = 4,
       field_name = ''lrh:virtual_lane''\<rparr>,
     \<lparr>struct_offset_bytes = 1, struct_size_bytes = 1, offset_words = 0, offset_bits = 4, size_bits = 4,
       field_name = ''lrh:link_version''\<rparr>,
     \<lparr>struct_offset_bytes = 2, struct_size_bytes = 1, offset_words = 0, offset_bits = 8, size_bits = 4,
       field_name = ''lrh:service_level''\<rparr>,
     RESERVED 0 12 2,
     \<lparr>struct_offset_bytes = 3, struct_size_bytes = 1, offset_words = 0, offset_bits = 14, size_bits = 2,
       field_name = ''lrh:link_next_header''\<rparr>,
     \<lparr>struct_offset_bytes = 4, struct_size_bytes = 2, offset_words = 0, offset_bits = 16, size_bits = 16,
       field_name = ''lrh:destination_lid''\<rparr>,
     RESERVED 1 0 5,
     \<lparr>struct_offset_bytes = 6, struct_size_bytes = 2, offset_words = 1, offset_bits = 5, size_bits = 11,
       field_name = ''lrh:packet_length''\<rparr>,
     \<lparr>struct_offset_bytes = 8, struct_size_bytes = 2, offset_words = 1, offset_bits = 16, size_bits = 16,
       field_name = ''lrh:source_lid''\<rparr>]"

definition eth_table :: "ib_field list" where
  "eth_table =
    [\<lparr>struct_offset_bytes = 0, struct_size_bytes = 4, offset_words = 0, offset_bits = 0, size_bits = 32,
       field_name = ''eth:dmac_h''\<rparr>,
     \<lparr>struct_offset_bytes = 4, struct_size_bytes = 2, offset_words = 1, offset_bits = 0, size_bits = 16,
       field_name = ''eth:dmac_l''\<rparr>,
     \<lparr>struct_offset_bytes = 6, struct_size_bytes = 2, offset_words = 1, offset_bits = 16, size_bits = 16,
       field_name = ''eth:smac_h''\<rparr>,
     \<lparr>struct_offset_bytes = 8, struct_size_bytes = 4, offset_words = 2, offset_bits = 0, size_bits = 32,
       field_name = ''eth:smac_l''\<rparr>,
     \<lparr>struct_offset_bytes = 12, struct_size_bytes = 2, offset_words = 3, offset_bits = 0, size_bits = 16,
       field_name = ''eth:type''\<rparr>]"

definition vlan_table :: "ib_field list" where
  "vlan_table =
    [\<lparr>struct_offset_bytes = 0, struct_size_bytes = 2, offset_words = 0, offset_bits = 0, size_bits = 16,
       field_name = ''vlan:tag''\<rparr>,
     \<lparr>struct_offset_bytes = 2, struct_size_bytes = 2, offset_words = 0, offset_bits = 16, size_bits = 16,
       field_name = ''vlan:type''\<rparr>]"

definition ip4_table :: "ib_field list" where
  "ip4_table =
    [\<lparr>struct_offset_bytes = 0, struct_size_bytes = 1, offset_words = 0, offset_bits = 0, size_bits = 4,
       field_name = ''ip4:ver''\<rparr>,
     \<lparr>struct_offset_bytes = 1, struct_size_bytes = 1, offset_words = 0, offset_bits = 4, size_bits = 4,
       field_name = ''ip4:hdr_len''\<rparr>,
     \<lparr>struct_offset_bytes = 2, struct_size_bytes = 1, offset_words = 0, offset_bits = 8, size_bits = 8,
       field_name = ''ip4:tos''\<rparr>,
     \<lparr>struct_offset_bytes = 4, struct_size_bytes = 2, offset_words = 0, offset_bits = 16, size_bits = 16,
       field_name = ''ip4:tot_len''\<rparr>,
     \<lparr>struct_offset_bytes = 6, struct_size_bytes = 2, offset_words = 1, offset_bits = 0, size_bits = 16,
       field_name = ''ip4:id''\<rparr>,
     \<lparr>struct_offset_bytes = 8, struct_size_bytes = 2, offset_words = 1, offset_bits = 16, size_bits = 16,
       field_name = ''ip4:frag_off''\<rparr>,
     \<lparr>struct_offset_bytes = 10, struct_size_bytes = 1, offset_words = 2, offset_bits = 0, size_bits = 8,
       field_name = ''ip4:ttl''\<rparr>,
     \<lparr>struct_offset_bytes = 11, struct_size_bytes = 1, offset_words = 2, offset_bits = 8, size_bits = 8,
       field_name = ''ip4:protocol''\<rparr>,
     \<lparr>struct_offset_bytes = 12, struct_size_bytes = 2, offset_words = 2, offset_bits = 16, size_bits = 16,
       field_name = ''ip4:check''\<rparr>,
     \<lparr>struct_offset_bytes = 16, struct_size_bytes = 4, offset_words = 3, offset_bits = 0, size_bits = 32,
       field_name = ''ip4:saddr''\<rparr>,
     \<lparr>struct_offset_bytes = 20, struct_size_bytes = 4, offset_words = 4, offset_bits = 0, size_bits = 32,
       field_name = ''ip4:daddr''\<rparr>]"

definition udp_table :: "ib_field list" where
  "udp_table =
    [\<lparr>struct_offset_bytes = 0, struct_size_bytes = 2, offset_words = 0, offset_bits = 0, size_bits = 16,
       field_name = ''udp:sport''\<rparr>,
     \<lparr>struct_offset_bytes = 2, struct_size_bytes = 2, offset_words = 0, offset_bits = 16, size_bits = 16,
       field_name = ''udp:dport''\<rparr>,
     \<lparr>struct_offset_bytes = 4, struct_size_bytes = 2, offset_words = 1, offset_bits = 0, size_bits = 16,
       field_name = ''udp:length''\<rparr>,
     \<lparr>struct_offset_bytes = 6, struct_size_bytes = 2, offset_words = 1, offset_bits = 16, size_bits = 16,
       field_name = ''udp:csum''\<rparr>]"

definition grh_table :: "ib_field list" where
  "grh_table =
    [\<lparr>struct_offset_bytes = 0, struct_size_bytes = 1, offset_words = 0, offset_bits = 0, size_bits = 4,
       field_name = ''grh:ip_version''\<rparr>,
     \<lparr>struct_offset_bytes = 1, struct_size_bytes = 1, offset_words = 0, offset_bits = 4, size_bits = 8,
       field_name = ''grh:traffic_class''\<rparr>,
     \<lparr>struct_offset_bytes = 4, struct_size_bytes = 4, offset_words = 0, offset_bits = 12, size_bits = 20,
       field_name = ''grh:flow_label''\<rparr>,
     \<lparr>struct_offset_bytes = 8, struct_size_bytes = 2, offset_words = 1, offset_bits = 0, size_bits = 16,
       field_name = ''grh:payload_length''\<rparr>,
     \<lparr>struct_offset_bytes = 10, struct_size_bytes = 1, offset_words = 1, offset_bits = 16, size_bits = 8,
       field_name = ''grh:next_header''\<rparr>,
     \<lparr>struct_offset_bytes = 11, struct_size_bytes = 1, offset_words = 1, offset_bits = 24, size_bits = 8,
       field_name = ''grh:hop_limit''\<rparr>,
     \<lparr>struct_offset_bytes = 16, struct_size_bytes = 16, offset_words = 2, offset_bits = 0, size_bits = 128,
       field_name = ''grh:source_gid''\<rparr>,
     \<lparr>struct_offset_bytes = 32, struct_size_bytes = 16, offset_words = 6, offset_bits = 0, size_bits = 128,
       field_name = ''grh:destination_gid''\<rparr>]"

definition bth_table :: "ib_field list" where
  "bth_table =
    [\<lparr>struct_offset_bytes = 0, struct_size_bytes = 1, offset_words = 0, offset_bits = 0, size_bits = 8,
       field_name = ''bth:opcode''\<rparr>,
     \<lparr>struct_offset_bytes = 1, struct_size_bytes = 1, offset_words = 0, offset_bits = 8, size_bits = 1,
       field_name = ''bth:solicited_event''\<rparr>,
     \<lparr>struct_offset_bytes = 2, struct_size_bytes = 1, offset_words = 0, offset_bits = 9, size_bits = 1,
       field_name = ''bth:mig_req''\<rparr>,
     \<lparr>struct_offset_bytes = 3, struct_size_bytes = 1, offset_words = 0, offset_bits = 10, size_bits = 2,
       field_name = ''bth:pad_count''\<rparr>,
     \<lparr>struct_offset_bytes = 4, struct_size_bytes = 1, offset_words = 0, offset_bits = 12, size_bits = 4,
       field_name = ''bth:transport_header_version''\<rparr>,
     \<lparr>struct_offset_bytes = 6, struct_size_bytes = 2, offset_words = 0, offset_bits = 16, size_bits = 16,
       field_name = ''bth:pkey''\<rparr>,
     RESERVED 1 0 8,
     \<lparr>struct_offset_bytes = 8, struct_size_bytes = 4, offset_words = 1, offset_bits = 8, size_bits = 24,
       field_name = ''bth:destination_qpn''\<rparr>,
     \<lparr>struct_offset_bytes = 12, struct_size_bytes = 1, offset_words = 2, offset_bits = 0, size_bits = 1,
       field_name = ''bth:ack_req''\<rparr>,
     RESERVED 2 1 7,
     \<lparr>struct_offset_bytes = 16, struct_size_bytes = 4, offset_words = 2, offset_bits = 8, size_bits = 24,
       field_name = ''bth:psn''\<rparr>]"

definition deth_table :: "ib_field list" where
  "deth_table =
    [\<lparr>struct_offset_bytes = 0, struct_size_bytes = 4, offset_words = 0, offset_bits = 0, size_bits = 32,
       field_name = ''deth:qkey''\<rparr>,
     RESERVED 1 0 8,
     \<lparr>struct_offset_bytes = 4, struct_size_bytes = 4, offset_words = 1, offset_bits = 8, size_bits = 24,
       field_name = ''deth:source_qpn''\<rparr>]"

section \<open>Operations\<close>

definition IB_LRH_BYTES :: nat where "IB_LRH_BYTES = 8"
definition IB_ETH_BYTES :: nat where "IB_ETH_BYTES = 14"
definition IB_VLAN_BYTES :: nat where "IB_VLAN_BYTES = 4"
definition IB_GRH_BYTES :: nat where "IB_GRH_BYTES = 40"
definition IB_IP4_BYTES :: nat where "IB_IP4_BYTES = 20"
definition IB_UDP_BYTES :: nat where "IB_UDP_BYTES = 8"
definition IB_BTH_BYTES :: nat where "IB_BTH_BYTES = 12"
definition IB_DETH_BYTES :: nat where "IB_DETH_BYTES = 8"

definition IB_LNH_IBA_LOCAL :: u8 where "IB_LNH_IBA_LOCAL = 2"
definition IB_LNH_IBA_GLOBAL :: u8 where "IB_LNH_IBA_GLOBAL = 3"
definition IB_OPCODE_UD_SEND_ONLY :: u8 where "IB_OPCODE_UD_SEND_ONLY = 0x60 + 0x04"
definition IB_OPCODE_UD_SEND_ONLY_WITH_IMMEDIATE :: u8 where
  "IB_OPCODE_UD_SEND_ONLY_WITH_IMMEDIATE = 0x60 + 0x05"
definition ETH_P_8021Q :: u16 where "ETH_P_8021Q = 0x8100"
definition IPPROTO_UDP :: u8 where "IPPROTO_UDP = 17"

lemmas ud_consts [flag_defs] = IB_LRH_BYTES_def IB_ETH_BYTES_def IB_VLAN_BYTES_def IB_GRH_BYTES_def
  IB_IP4_BYTES_def IB_UDP_BYTES_def IB_BTH_BYTES_def IB_DETH_BYTES_def IB_LNH_IBA_LOCAL_def
  IB_LNH_IBA_GLOBAL_def IB_OPCODE_UD_SEND_ONLY_def IB_OPCODE_UD_SEND_ONLY_WITH_IMMEDIATE_def
  ETH_P_8021Q_def IPPROTO_UDP_def

text \<open>
  The IPv4 header checksum. \<open>ip_fast_csum\<close> belongs to the architecture and is a parameter; the
  bytes it sums are those of \<open>struct iphdr\<close>.
\<close>

definition ib_ud_ip4_csum :: "(u8 list \<Rightarrow> nat \<Rightarrow> u16) \<Rightarrow> ib_ud_header \<Rightarrow> u16" where
  "ib_ud_ip4_csum ip_fast_csum header =
     (let i = ip4 header;
          iph = [0x45, ip4_tos i] @ be_bytes 2 (ucast (ip4_tot_len i)) @ be_bytes 2 (ucast (ip4_id i)) @
                be_bytes 2 (ucast (ip4_frag_off i)) @ [ip4_ttl i, ip4_protocol i] @ [0, 0] @
                be_bytes 4 (ucast (ip4_saddr i)) @ be_bytes 4 (ucast (ip4_daddr i))
      in ip_fast_csum iph 5)"

text \<open>The header after \<open>memset(header, 0, sizeof *header)\<close>.\<close>

definition zero_ud_header :: ib_ud_header where
  "zero_ud_header = \<lparr>
     lrh_present = False, lrh = lrh_of_bytes (pad 10),
     eth_present = False, eth = eth_of_bytes (pad 14),
     vlan_present = False, vlan = vlan_of_bytes (pad 4),
     grh_present = False, grh = grh_of_bytes (pad 48),
     ipv4_present = False, ip4 = ip4_of_bytes (pad 24),
     udp_present = False, udp = udp_of_bytes (pad 8),
     bth = bth_of_bytes (pad 20), deth = deth_of_bytes (pad 8),
     immediate_present = False, immediate_data = 0\<rparr>"

text \<open>The quotient of C, which rounds towards zero.\<close>

definition cdiv :: "int \<Rightarrow> int \<Rightarrow> int" where
  "cdiv a b = (if a < 0 then - (- a div b) else a div b)"

text \<open>
  \<open>ib_ud_header_init\<close> returns its error number and the header. \<open>payload_bytes\<close> and
  \<open>ip_version\<close> are C integers, the flags their truth values; a length is stored in 16 bits.
\<close>

definition init_lrh :: "bool \<Rightarrow> int \<Rightarrow> ib_unpacked_lrh \<Rightarrow> ib_unpacked_lrh" where
  "init_lrh grh_pres payload_bytes l = l\<lparr>
     lrh_link_version := 0,
     lrh_link_next_header := (if grh_pres then IB_LNH_IBA_GLOBAL else IB_LNH_IBA_LOCAL),
     lrh_packet_length := word_of_int (cdiv (int IB_LRH_BYTES + int IB_BTH_BYTES + int IB_DETH_BYTES +
        (if grh_pres then int IB_GRH_BYTES else 0) + payload_bytes + 4 + 3) 4)\<rparr>"

definition init_grh :: "bool \<Rightarrow> nat \<Rightarrow> int \<Rightarrow> ib_unpacked_grh \<Rightarrow> ib_unpacked_grh" where
  "init_grh udp_pres udp_hdr payload_bytes g = g\<lparr>
     grh_ip_version := 6,
     grh_payload_length := ucast ((word_of_int (int udp_hdr + int IB_BTH_BYTES + int IB_DETH_BYTES +
        payload_bytes + 4 + 3) :: u64) AND NOT 3),
     grh_next_header := (if udp_pres then IPPROTO_UDP else 0x1b)\<rparr>"

definition init_ip4 :: "nat \<Rightarrow> int \<Rightarrow> ib_unpacked_ip4 \<Rightarrow> ib_unpacked_ip4" where
  "init_ip4 udp_hdr payload_bytes i = i\<lparr>
     ip4_ver := 4, ip4_hdr_len := 5,
     ip4_tot_len := word_of_int (int IB_IP4_BYTES + int udp_hdr + int IB_BTH_BYTES + int IB_DETH_BYTES +
        payload_bytes + 4),
     ip4_protocol := IPPROTO_UDP\<rparr>"

definition ib_ud_header_init ::
  "int \<Rightarrow> bool \<Rightarrow> bool \<Rightarrow> bool \<Rightarrow> bool \<Rightarrow> int \<Rightarrow> bool \<Rightarrow> bool \<Rightarrow> ib_ud_header \<Rightarrow>
     unit result \<times> ib_ud_header" where
  "ib_ud_header_init payload_bytes lrh_pres eth_pres vlan_pres grh_pres0 ip_version udp_pres imm_pres header =
    (let udp_hdr = (if udp_pres then IB_UDP_BYTES else 0);
         grh_pres = (grh_pres0 \<and> ip_version = 0);
         header = zero_ud_header
     in if udp_pres \<and> ip_version \<noteq> 4 \<and> ip_version \<noteq> 6 then (Inl EINVAL, header)
        else
          let header = (if lrh_pres then header\<lparr>lrh := init_lrh grh_pres payload_bytes (lrh header)\<rparr> else header);
              header = (if vlan_pres then header\<lparr>eth := (eth header)\<lparr>eth_type := ETH_P_8021Q\<rparr>\<rparr> else header);
              header = (if ip_version = 6 \<or> grh_pres
                        then header\<lparr>grh := init_grh udp_pres udp_hdr payload_bytes (grh header)\<rparr> else header);
              header = (if ip_version = 4
                        then header\<lparr>ip4 := init_ip4 udp_hdr payload_bytes (ip4 header)\<rparr> else header);
              header = (if udp_pres \<and> ip_version \<noteq> 0
                        then header\<lparr>udp := (udp header)\<lparr>udp_length := word_of_int (int IB_UDP_BYTES +
                               int IB_BTH_BYTES + int IB_DETH_BYTES + payload_bytes + 4)\<rparr>\<rparr> else header)
          in (Inr (), header\<lparr>
                bth := (bth header)\<lparr>
                  bth_opcode := (if imm_pres then IB_OPCODE_UD_SEND_ONLY_WITH_IMMEDIATE else IB_OPCODE_UD_SEND_ONLY),
                  bth_pad_count := ucast ((word_of_int (4 - payload_bytes) :: u32) AND 3),
                  bth_transport_header_version := 0\<rparr>,
                lrh_present := lrh_pres, eth_present := eth_pres, vlan_present := vlan_pres,
                grh_present := (grh_pres \<or> ip_version = 6), ipv4_present := (ip_version = 4),
                udp_present := udp_pres, immediate_present := imm_pres\<rparr>))"

text \<open>\<open>ib_pack(table, \<dots>, structure, buf + len)\<close>\<close>

definition pack_at :: "ib_field list \<Rightarrow> u8 list \<Rightarrow> nat \<Rightarrow> u8 list \<Rightarrow> u8 list option" where
  "pack_at table s len buf = map_option (\<lambda>b. take len buf @ b) (ib_pack table s (drop len buf))"

definition pack_header ::
  "bool \<Rightarrow> ib_field list \<Rightarrow> u8 list \<Rightarrow> nat \<Rightarrow> nat \<times> u8 list \<Rightarrow> (nat \<times> u8 list) option" where
  "pack_header present table s n = (\<lambda>(len, buf).
     if present then map_option (\<lambda>b. (len + n, b)) (pack_at table s len buf) else Some (len, buf))"

definition ib_ud_header_pack :: "ib_ud_header \<Rightarrow> u8 list \<Rightarrow> (nat \<times> u8 list) option" where
  "ib_ud_header_pack header buf = do {
     r \<leftarrow> pack_header (lrh_present header) lrh_table (lrh_bytes (lrh header)) IB_LRH_BYTES (0, buf);
     r \<leftarrow> pack_header (eth_present header) eth_table (eth_bytes (eth header)) IB_ETH_BYTES r;
     r \<leftarrow> pack_header (vlan_present header) vlan_table (vlan_bytes (vlan header)) IB_VLAN_BYTES r;
     r \<leftarrow> pack_header (grh_present header) grh_table (grh_bytes (grh header)) IB_GRH_BYTES r;
     r \<leftarrow> pack_header (ipv4_present header) ip4_table (ip4_bytes (ip4 header)) IB_IP4_BYTES r;
     r \<leftarrow> pack_header (udp_present header) udp_table (udp_bytes (udp header)) IB_UDP_BYTES r;
     r \<leftarrow> pack_header True bth_table (bth_bytes (bth header)) IB_BTH_BYTES r;
     (len, buf) \<leftarrow> pack_header True deth_table (deth_bytes (deth header)) IB_DETH_BYTES r;
     if immediate_present header
     then map_option (\<lambda>b. (len + 4, b)) (write_bytes len (be_bytes 4 (ucast (immediate_data header))) buf)
     else Some (len, buf)
   }"

text \<open>
  \<open>ib_ud_header_unpack\<close> fills the caller's header, also when it returns an error. The part
  from the base transport header on is shared by the local and the global case.
\<close>

definition unpack_transport :: "u8 list \<Rightarrow> ib_ud_header \<Rightarrow> (unit result \<times> ib_ud_header) option" where
  "unpack_transport buf header = do {
     s \<leftarrow> ib_unpack bth_table buf (bth_bytes (bth header));
     let header = header\<lparr>bth := bth_of_bytes s\<rparr>;
     let buf = drop IB_BTH_BYTES buf;
     if bth_opcode (bth header) \<noteq> IB_OPCODE_UD_SEND_ONLY \<and>
        bth_opcode (bth header) \<noteq> IB_OPCODE_UD_SEND_ONLY_WITH_IMMEDIATE then Some (Inl EINVAL, header)
     else do {
       let header = header\<lparr>immediate_present :=
                      (bth_opcode (bth header) = IB_OPCODE_UD_SEND_ONLY_WITH_IMMEDIATE)\<rparr>;
       if bth_transport_header_version (bth header) \<noteq> 0 then Some (Inl EINVAL, header)
       else do {
         s \<leftarrow> ib_unpack deth_table buf (deth_bytes (deth header));
         let header = header\<lparr>deth := deth_of_bytes s\<rparr>;
         let buf = drop IB_DETH_BYTES buf;
         if immediate_present header
         then map_option (\<lambda>bs. (Inr (), header\<lparr>immediate_data := ucast (be_val bs)\<rparr>)) (read_bytes 0 4 buf)
         else Some (Inr (), header)
       }
     }
   }"

definition ib_ud_header_unpack :: "u8 list \<Rightarrow> ib_ud_header \<Rightarrow> (unit result \<times> ib_ud_header) option" where
  "ib_ud_header_unpack buf header = do {
     s \<leftarrow> ib_unpack lrh_table buf (lrh_bytes (lrh header));
     let header = header\<lparr>lrh := lrh_of_bytes s\<rparr>;
     let buf = drop IB_LRH_BYTES buf;
     if lrh_link_version (lrh header) \<noteq> 0 then Some (Inl EINVAL, header)
     else if lrh_link_next_header (lrh header) = IB_LNH_IBA_LOCAL then
       unpack_transport buf (header\<lparr>grh_present := False\<rparr>)
     else if lrh_link_next_header (lrh header) = IB_LNH_IBA_GLOBAL then do {
       let header = header\<lparr>grh_present := True\<rparr>;
       s \<leftarrow> ib_unpack grh_table buf (grh_bytes (grh header));
       let header = header\<lparr>grh := grh_of_bytes s\<rparr>;
       let buf = drop IB_GRH_BYTES buf;
       if grh_ip_version (grh header) \<noteq> 6 then Some (Inl EINVAL, header)
       else if grh_next_header (grh header) \<noteq> 0x1b then Some (Inl EINVAL, header)
       else unpack_transport buf header
     }
     else Some (Inl EINVAL, header)
   }"

section \<open>Structures on the wire\<close>

lemma be_val_be_bytes: "n \<le> 8 \<Longrightarrow> be_val (be_bytes n w) = take_bit (8 * n) w"
  by (rule bit_word_eqI) (auto simp: bit_be_val bbit_be_bytes bit_take_bit_iff)

lemma be_val_bytes_u8 [simp]: "be_val (be_bytes (Suc 0) (ucast (x :: u8))) = ucast x"
  by (rule bit_word_eqI) (auto simp: be_val_be_bytes bit_take_bit_iff bit_ucast_iff dest: bit_imp_le_length)

lemma be_val_bytes_u16 [simp]: "be_val (be_bytes 2 (ucast (x :: u16))) = ucast x"
  by (rule bit_word_eqI) (auto simp: be_val_be_bytes bit_take_bit_iff bit_ucast_iff dest: bit_imp_le_length)

lemma be_val_bytes_u32 [simp]: "be_val (be_bytes 4 (ucast (x :: u32))) = ucast x"
  by (rule bit_word_eqI) (auto simp: be_val_be_bytes bit_take_bit_iff bit_ucast_iff dest: bit_imp_le_length)

text \<open>A field that holds \<open>x\<close> fits the wire when \<open>x\<close> has no more bits than the field.\<close>

lemma value_fitsI:
  assumes "field_bytes d s = be_bytes (struct_size_bytes d) (ucast (x :: 'a::len word))"
    and "struct_offset_bytes d + struct_size_bytes d \<le> length s" and "unat x < 2 ^ size_bits d"
  shows "value_fits s d"
  unfolding value_fits_def
proof (intro allI impI)
  fix i assume i: "i < 8 * struct_size_bytes d - size_bits d"
  have "bbit s (8 * struct_offset_bytes d + i) = bbit (field_bytes d s) i"
    unfolding field_bytes_def using i assms(2) by (subst bbit_take_drop) auto
  also have "\<dots> = bit (ucast x :: u64) (8 * struct_size_bytes d - Suc i)"
    unfolding assms(1) using i by (subst bbit_be_bytes) auto
  finally show "\<not> bbit s (8 * struct_offset_bytes d + i)"
    using not_bit_of_less [OF assms(3), of "8 * struct_size_bytes d - Suc i"] i
    by (simp add: bit_ucast_iff)
qed

lemma value_fits_full: "8 * struct_size_bytes d \<le> size_bits d \<Longrightarrow> value_fits s d"
  by (simp add: value_fits_def)

text \<open>
  A header of a packet: the table describes every bit the header has in memory, so that what was
  packed at some place of a buffer is what unpacking there yields, and packing changes no byte
  outside the \<open>wlen\<close> bytes of the header. \<open>need\<close> is the room the word-wise read-modify-write
  of \<open>ib_pack\<close> touches.
\<close>

locale wire_struct =
  fixes tab :: "ib_field list"
    and enc :: "'h \<Rightarrow> u8 list" and dec :: "u8 list \<Rightarrow> 'h" and fits :: "'h \<Rightarrow> bool"
    and slen wlen need :: nat
  assumes table: "need \<le> blen \<Longrightarrow> table_ok slen blen tab"
    and within: "d \<in> set tab \<Longrightarrow> field_start d + size_bits d \<le> 8 * wlen"
    and wlen_need: "wlen \<le> need"
    and length_enc: "fits h \<Longrightarrow> length (enc h) = slen"
    and enc_fits: "fits h \<Longrightarrow> d \<in> set tab \<Longrightarrow> value_fits (enc h) d"
    and dec_cong: "\<forall>d \<in> set tab. field_bytes d s = field_bytes d t \<Longrightarrow> dec s = dec t"
    and dec_enc: "fits h \<Longrightarrow> dec (enc h) = h"
begin

definition holds :: "'h \<Rightarrow> u8 list \<Rightarrow> bool" where
  "holds h buf \<longleftrightarrow> need \<le> length buf \<and>
     (\<forall>d \<in> set tab. \<forall>i < size_bits d. bbit buf (field_start d + i) = packed_bit d (enc h) i)"

lemma pack_at_holds:
  assumes "fits h" and "off + need \<le> length buf"
  shows "\<exists>buf'. pack_at tab (enc h) off buf = Some buf' \<and> length buf' = length buf \<and>
    holds h (drop off buf') \<and> take off buf' = take off buf \<and>
    drop (off + wlen) buf' = drop (off + wlen) buf"
proof -
  let ?b = "drop off buf"
  have "table_ok (length (enc h)) (length ?b) tab"
    using table [of "length ?b"] length_enc [OF assms(1)] assms(2) by simp
  from ib_pack_bits [OF this] obtain b' where b': "ib_pack tab (enc h) ?b = Some b'" "length b' = length ?b"
    "\<forall>d \<in> set tab. \<forall>i < size_bits d. bbit b' (field_start d + i) = packed_bit d (enc h) i"
    "\<forall>k < 8 * length ?b. (\<forall>d \<in> set tab. \<not> (field_start d \<le> k \<and> k < field_start d + size_bits d)) \<longrightarrow>
       bbit b' k = bbit ?b k"
    by blast
  have "drop wlen b' = drop wlen ?b"
  proof (rule bbit_eqI)
    fix k assume "k < 8 * length (drop wlen b')"
    then have k: "8 * wlen + k < 8 * length ?b" using b'(2) assms(2) wlen_need by auto
    moreover have "\<not> (field_start d \<le> 8 * wlen + k \<and> 8 * wlen + k < field_start d + size_bits d)"
      if "d \<in> set tab" for d
      using within [OF that] by linarith
    ultimately have "bbit b' (8 * wlen + k) = bbit ?b (8 * wlen + k)"
      using b'(4) by blast
    then show "bbit (drop wlen b') k = bbit (drop wlen ?b) k"
      using bbit_take_drop [of wlen k b' "length b'"] bbit_take_drop [of wlen k ?b "length ?b"] k b'(2)
      by simp
  qed (simp add: b'(2))
  moreover have "holds h b'" using b' assms(2) by (simp add: holds_def)
  moreover have "drop (off + wlen) (take off buf @ b') = drop wlen b'" "drop off (take off buf @ b') = b'"
    "drop (off + wlen) buf = drop wlen ?b"
    using assms(2) by (simp_all add: add.commute)
  ultimately show ?thesis
    using b'(1,2) assms(2) by (simp add: pack_at_def)
qed

lemma unpack_holds:
  assumes "fits h" and "holds h buf" and "length t = slen"
  shows "\<exists>s. ib_unpack tab buf t = Some s \<and> dec s = h"
proof -
  have tab: "table_ok (length t) (length buf) tab" using assms table by (simp add: holds_def)
  then obtain s where s: "ib_unpack tab buf t = Some s" "length s = length t"
    "\<forall>d \<in> set tab. \<forall>i < 8 * struct_size_bytes d. bbit s (8 * struct_offset_bytes d + i) = unpacked_bit d buf i"
    using ib_unpack_bits by blast
  have "field_bytes d s = field_bytes d (enc h)" if d: "d \<in> set tab" for d
  proof (rule unpacked_field_bytes)
    show "field_ok (length t) (length buf) d" using tab d by (simp add: table_ok_def)
  qed (use assms d s enc_fits length_enc in \<open>auto simp: holds_def\<close>)
  then have "dec s = h" using dec_cong [of s "enc h"] dec_enc assms(1) by simp
  then show ?thesis using s(1) by blast
qed

lemma holds_cong:
  assumes "holds h buf" and "take wlen buf = take wlen buf'" and "need \<le> length buf'"
  shows "holds h buf'"
proof -
  have "bbit buf k = bbit buf' k" if "k < 8 * wlen" for k
  proof -
    have "bbit (take wlen buf) k = bbit (take wlen buf') k" using assms(2) by simp
    then show ?thesis using that by (simp add: bbit_def less_mult_imp_div_less mult.commute)
  qed
  moreover have "field_start d + i < 8 * wlen" if "d \<in> set tab" "i < size_bits d" for d i
    using within [OF that(1)] that(2) by linarith
  ultimately show ?thesis using assms(1,3) by (simp add: holds_def)
qed

end

section \<open>The headers of the source\<close>

lemma ucast_u64_u8 [simp]: "ucast (ucast (x :: u8) :: u64) = x"
  by (rule bit_word_eqI) (auto simp: bit_ucast_iff)

lemma ucast_u64_u16 [simp]: "ucast (ucast (x :: u16) :: u64) = x"
  by (rule bit_word_eqI) (auto simp: bit_ucast_iff)

lemma ucast_u64_u32 [simp]: "ucast (ucast (x :: u32) :: u64) = x"
  by (rule bit_word_eqI) (auto simp: bit_ucast_iff)

lemma value_fits_record:
  assumes "take n (drop off s) = be_bytes n (ucast (x :: 'a::len word))"
    and "off + n \<le> length s" and "unat x < 2 ^ z"
  shows "value_fits s \<lparr>struct_offset_bytes = off, struct_size_bytes = n, offset_words = w, offset_bits = b,
    size_bits = z, field_name = nm\<rparr>"
  using assms by (intro value_fitsI [where x = x]) (simp_all add: field_bytes_def)

lemma value_fits_RESERVED [simp]: "value_fits s (RESERVED w b z)"
  by (simp add: RESERVED_def value_fits_full)

text \<open>A header whose fields hold values of the width they have on the wire.\<close>

definition lrh_fits :: "ib_unpacked_lrh \<Rightarrow> bool" where
  "lrh_fits h \<longleftrightarrow> unat (lrh_virtual_lane h) < 2 ^ 4 \<and>
     unat (lrh_link_version h) < 2 ^ 4 \<and>
     unat (lrh_service_level h) < 2 ^ 4 \<and>
     unat (lrh_link_next_header h) < 2 ^ 2 \<and>
     unat (lrh_packet_length h) < 2 ^ 11"

definition grh_fits :: "ib_unpacked_grh \<Rightarrow> bool" where
  "grh_fits h \<longleftrightarrow> unat (grh_ip_version h) < 2 ^ 4 \<and>
     unat (grh_flow_label h) < 2 ^ 20 \<and>
     length (grh_source_gid h) = 16 \<and>
     length (grh_destination_gid h) = 16"

definition bth_fits :: "ib_unpacked_bth \<Rightarrow> bool" where
  "bth_fits h \<longleftrightarrow> unat (bth_solicited_event h) < 2 ^ 1 \<and>
     unat (bth_mig_req h) < 2 ^ 1 \<and>
     unat (bth_pad_count h) < 2 ^ 2 \<and>
     unat (bth_transport_header_version h) < 2 ^ 4 \<and>
     unat (bth_destination_qpn h) < 2 ^ 24 \<and>
     unat (bth_ack_req h) < 2 ^ 1 \<and>
     unat (bth_psn h) < 2 ^ 24"

definition deth_fits :: "ib_unpacked_deth \<Rightarrow> bool" where
  "deth_fits h \<longleftrightarrow> unat (deth_source_qpn h) < 2 ^ 24"

definition eth_fits :: "ib_unpacked_eth \<Rightarrow> bool" where
  "eth_fits h \<longleftrightarrow> length (eth_dmac_h h) = 4 \<and>
     length (eth_dmac_l h) = 2 \<and>
     length (eth_smac_h h) = 2 \<and>
     length (eth_smac_l h) = 4"

definition ip4_fits :: "ib_unpacked_ip4 \<Rightarrow> bool" where
  "ip4_fits h \<longleftrightarrow> unat (ip4_ver h) < 2 ^ 4 \<and>
     unat (ip4_hdr_len h) < 2 ^ 4"

definition udp_fits :: "ib_unpacked_udp \<Rightarrow> bool" where
  "udp_fits h \<longleftrightarrow> True"

definition vlan_fits :: "ib_unpacked_vlan \<Rightarrow> bool" where
  "vlan_fits h \<longleftrightarrow> True"

text \<open>The memory of each structure has its C size.\<close>

lemma length_lrh_bytes [simp]: "length (lrh_bytes h) = 10"
  by (simp add: lrh_bytes_def)

lemma length_grh_bytes [simp]: "grh_fits h \<Longrightarrow> length (grh_bytes h) = 48"
  by (simp add: grh_bytes_def grh_fits_def)

lemma length_bth_bytes [simp]: "length (bth_bytes h) = 20"
  by (simp add: bth_bytes_def)

lemma length_deth_bytes [simp]: "length (deth_bytes h) = 8"
  by (simp add: deth_bytes_def)

lemma length_eth_bytes [simp]: "eth_fits h \<Longrightarrow> length (eth_bytes h) = 14"
  by (simp add: eth_bytes_def eth_fits_def)

lemma length_ip4_bytes [simp]: "length (ip4_bytes h) = 24"
  by (simp add: ip4_bytes_def)

lemma length_udp_bytes [simp]: "length (udp_bytes h) = 8"
  by (simp add: udp_bytes_def)

lemma length_vlan_bytes [simp]: "length (vlan_bytes h) = 4"
  by (simp add: vlan_bytes_def)

lemma field_ok_mono: "field_ok slen n d \<Longrightarrow> n \<le> blen \<Longrightarrow> field_ok slen blen d"
  unfolding field_ok_def by (elim conjE, intro conjI) (simp_all split: if_splits)

lemma table_okI:
  assumes "\<forall>d \<in> set tab. field_ok slen n d \<and> unpack_ok d" and "n \<le> blen"
    and "sorted_wrt buf_disjoint tab" and "sorted_wrt struct_disjoint tab"
  shows "table_ok slen blen tab"
  using assms by (simp add: table_ok_def) (metis field_ok_mono)

lemmas table_simps = RESERVED_def field_ok_def unpack_ok_def field_start_def buf_disjoint_def struct_disjoint_def

lemma lrh_table_ok: "8 \<le> blen \<Longrightarrow> table_ok 10 blen lrh_table"
  by (rule table_okI [of _ _ 8]) (simp_all add: lrh_table_def table_simps)

lemma lrh_enc_fits: "lrh_fits h \<Longrightarrow> d \<in> set lrh_table \<Longrightarrow> value_fits (lrh_bytes h) d"
proof -
  assume "lrh_fits h"
  then have "\<forall>d \<in> set lrh_table. value_fits (lrh_bytes h) d"
    by (simp add: lrh_table_def lrh_fits_def lrh_bytes_def value_fits_record value_fits_full)
  then show "d \<in> set lrh_table \<Longrightarrow> value_fits (lrh_bytes h) d" by blast
qed

interpretation lrhw: wire_struct lrh_table lrh_bytes lrh_of_bytes lrh_fits 10 8 8
proof
  show "field_start d + size_bits d \<le> 8 * 8" if "d \<in> set lrh_table" for d
    using that by (auto simp: lrh_table_def table_simps)
  show "lrh_of_bytes s = lrh_of_bytes t" if "\<forall>d \<in> set lrh_table. field_bytes d s = field_bytes d t" for s t
    using that by (simp add: lrh_table_def field_bytes_def lrh_of_bytes_def)
  show "lrh_of_bytes (lrh_bytes h) = h" if "lrh_fits h" for h
    using that by (cases h) (simp add: lrh_of_bytes_def lrh_bytes_def lrh_fits_def)
qed (simp_all add: lrh_table_ok lrh_enc_fits)

lemma grh_table_ok: "40 \<le> blen \<Longrightarrow> table_ok 48 blen grh_table"
  by (rule table_okI [of _ _ 40]) (simp_all add: grh_table_def table_simps)

lemma grh_enc_fits: "grh_fits h \<Longrightarrow> d \<in> set grh_table \<Longrightarrow> value_fits (grh_bytes h) d"
proof -
  assume "grh_fits h"
  then have "\<forall>d \<in> set grh_table. value_fits (grh_bytes h) d"
    by (simp add: grh_table_def grh_fits_def grh_bytes_def value_fits_record value_fits_full)
  then show "d \<in> set grh_table \<Longrightarrow> value_fits (grh_bytes h) d" by blast
qed

interpretation grhw: wire_struct grh_table grh_bytes grh_of_bytes grh_fits 48 40 40
proof
  show "field_start d + size_bits d \<le> 8 * 40" if "d \<in> set grh_table" for d
    using that by (auto simp: grh_table_def table_simps)
  show "grh_of_bytes s = grh_of_bytes t" if "\<forall>d \<in> set grh_table. field_bytes d s = field_bytes d t" for s t
    using that by (simp add: grh_table_def field_bytes_def grh_of_bytes_def)
  show "grh_of_bytes (grh_bytes h) = h" if "grh_fits h" for h
    using that by (cases h) (simp add: grh_of_bytes_def grh_bytes_def grh_fits_def)
qed (simp_all add: grh_table_ok grh_enc_fits)

lemma bth_table_ok: "12 \<le> blen \<Longrightarrow> table_ok 20 blen bth_table"
  by (rule table_okI [of _ _ 12]) (simp_all add: bth_table_def table_simps)

lemma bth_enc_fits: "bth_fits h \<Longrightarrow> d \<in> set bth_table \<Longrightarrow> value_fits (bth_bytes h) d"
proof -
  assume "bth_fits h"
  then have "\<forall>d \<in> set bth_table. value_fits (bth_bytes h) d"
    by (simp add: bth_table_def bth_fits_def bth_bytes_def value_fits_record value_fits_full)
  then show "d \<in> set bth_table \<Longrightarrow> value_fits (bth_bytes h) d" by blast
qed

interpretation bthw: wire_struct bth_table bth_bytes bth_of_bytes bth_fits 20 12 12
proof
  show "field_start d + size_bits d \<le> 8 * 12" if "d \<in> set bth_table" for d
    using that by (auto simp: bth_table_def table_simps)
  show "bth_of_bytes s = bth_of_bytes t" if "\<forall>d \<in> set bth_table. field_bytes d s = field_bytes d t" for s t
    using that by (simp add: bth_table_def field_bytes_def bth_of_bytes_def)
  show "bth_of_bytes (bth_bytes h) = h" if "bth_fits h" for h
    using that by (cases h) (simp add: bth_of_bytes_def bth_bytes_def bth_fits_def)
qed (simp_all add: bth_table_ok bth_enc_fits)

lemma deth_table_ok: "8 \<le> blen \<Longrightarrow> table_ok 8 blen deth_table"
  by (rule table_okI [of _ _ 8]) (simp_all add: deth_table_def table_simps)

lemma deth_enc_fits: "deth_fits h \<Longrightarrow> d \<in> set deth_table \<Longrightarrow> value_fits (deth_bytes h) d"
proof -
  assume "deth_fits h"
  then have "\<forall>d \<in> set deth_table. value_fits (deth_bytes h) d"
    by (simp add: deth_table_def deth_fits_def deth_bytes_def value_fits_record value_fits_full)
  then show "d \<in> set deth_table \<Longrightarrow> value_fits (deth_bytes h) d" by blast
qed

interpretation dethw: wire_struct deth_table deth_bytes deth_of_bytes deth_fits 8 8 8
proof
  show "field_start d + size_bits d \<le> 8 * 8" if "d \<in> set deth_table" for d
    using that by (auto simp: deth_table_def table_simps)
  show "deth_of_bytes s = deth_of_bytes t" if "\<forall>d \<in> set deth_table. field_bytes d s = field_bytes d t" for s t
    using that by (simp add: deth_table_def field_bytes_def deth_of_bytes_def)
  show "deth_of_bytes (deth_bytes h) = h" if "deth_fits h" for h
    using that by (cases h) (simp add: deth_of_bytes_def deth_bytes_def deth_fits_def)
qed (simp_all add: deth_table_ok deth_enc_fits)

lemma eth_table_ok: "16 \<le> blen \<Longrightarrow> table_ok 14 blen eth_table"
  by (rule table_okI [of _ _ 16]) (simp_all add: eth_table_def table_simps)

lemma eth_enc_fits: "eth_fits h \<Longrightarrow> d \<in> set eth_table \<Longrightarrow> value_fits (eth_bytes h) d"
proof -
  assume "eth_fits h"
  then have "\<forall>d \<in> set eth_table. value_fits (eth_bytes h) d"
    by (simp add: eth_table_def eth_fits_def eth_bytes_def value_fits_record value_fits_full)
  then show "d \<in> set eth_table \<Longrightarrow> value_fits (eth_bytes h) d" by blast
qed

interpretation ethw: wire_struct eth_table eth_bytes eth_of_bytes eth_fits 14 14 16
proof
  show "field_start d + size_bits d \<le> 8 * 14" if "d \<in> set eth_table" for d
    using that by (auto simp: eth_table_def table_simps)
  show "eth_of_bytes s = eth_of_bytes t" if "\<forall>d \<in> set eth_table. field_bytes d s = field_bytes d t" for s t
    using that by (simp add: eth_table_def field_bytes_def eth_of_bytes_def)
  show "eth_of_bytes (eth_bytes h) = h" if "eth_fits h" for h
    using that by (cases h) (simp add: eth_of_bytes_def eth_bytes_def eth_fits_def)
qed (simp_all add: eth_table_ok eth_enc_fits)

lemma ip4_table_ok: "20 \<le> blen \<Longrightarrow> table_ok 24 blen ip4_table"
  by (rule table_okI [of _ _ 20]) (simp_all add: ip4_table_def table_simps)

lemma ip4_enc_fits: "ip4_fits h \<Longrightarrow> d \<in> set ip4_table \<Longrightarrow> value_fits (ip4_bytes h) d"
proof -
  assume "ip4_fits h"
  then have "\<forall>d \<in> set ip4_table. value_fits (ip4_bytes h) d"
    by (simp add: ip4_table_def ip4_fits_def ip4_bytes_def value_fits_record value_fits_full)
  then show "d \<in> set ip4_table \<Longrightarrow> value_fits (ip4_bytes h) d" by blast
qed

interpretation ip4w: wire_struct ip4_table ip4_bytes ip4_of_bytes ip4_fits 24 20 20
proof
  show "field_start d + size_bits d \<le> 8 * 20" if "d \<in> set ip4_table" for d
    using that by (auto simp: ip4_table_def table_simps)
  show "ip4_of_bytes s = ip4_of_bytes t" if "\<forall>d \<in> set ip4_table. field_bytes d s = field_bytes d t" for s t
    using that by (simp add: ip4_table_def field_bytes_def ip4_of_bytes_def)
  show "ip4_of_bytes (ip4_bytes h) = h" if "ip4_fits h" for h
    using that by (cases h) (simp add: ip4_of_bytes_def ip4_bytes_def ip4_fits_def)
qed (simp_all add: ip4_table_ok ip4_enc_fits)

lemma udp_table_ok: "8 \<le> blen \<Longrightarrow> table_ok 8 blen udp_table"
  by (rule table_okI [of _ _ 8]) (simp_all add: udp_table_def table_simps)

lemma udp_enc_fits: "udp_fits h \<Longrightarrow> d \<in> set udp_table \<Longrightarrow> value_fits (udp_bytes h) d"
proof -
  assume "udp_fits h"
  then have "\<forall>d \<in> set udp_table. value_fits (udp_bytes h) d"
    by (simp add: udp_table_def udp_fits_def udp_bytes_def value_fits_record value_fits_full)
  then show "d \<in> set udp_table \<Longrightarrow> value_fits (udp_bytes h) d" by blast
qed

interpretation udpw: wire_struct udp_table udp_bytes udp_of_bytes udp_fits 8 8 8
proof
  show "field_start d + size_bits d \<le> 8 * 8" if "d \<in> set udp_table" for d
    using that by (auto simp: udp_table_def table_simps)
  show "udp_of_bytes s = udp_of_bytes t" if "\<forall>d \<in> set udp_table. field_bytes d s = field_bytes d t" for s t
    using that by (simp add: udp_table_def field_bytes_def udp_of_bytes_def)
  show "udp_of_bytes (udp_bytes h) = h" if "udp_fits h" for h
    using that by (cases h) (simp add: udp_of_bytes_def udp_bytes_def udp_fits_def)
qed (simp_all add: udp_table_ok udp_enc_fits)

lemma vlan_table_ok: "4 \<le> blen \<Longrightarrow> table_ok 4 blen vlan_table"
  by (rule table_okI [of _ _ 4]) (simp_all add: vlan_table_def table_simps)

lemma vlan_enc_fits: "vlan_fits h \<Longrightarrow> d \<in> set vlan_table \<Longrightarrow> value_fits (vlan_bytes h) d"
proof -
  assume "vlan_fits h"
  then have "\<forall>d \<in> set vlan_table. value_fits (vlan_bytes h) d"
    by (simp add: vlan_table_def vlan_fits_def vlan_bytes_def value_fits_record value_fits_full)
  then show "d \<in> set vlan_table \<Longrightarrow> value_fits (vlan_bytes h) d" by blast
qed

interpretation vlanw: wire_struct vlan_table vlan_bytes vlan_of_bytes vlan_fits 4 4 4
proof
  show "field_start d + size_bits d \<le> 8 * 4" if "d \<in> set vlan_table" for d
    using that by (auto simp: vlan_table_def table_simps)
  show "vlan_of_bytes s = vlan_of_bytes t" if "\<forall>d \<in> set vlan_table. field_bytes d s = field_bytes d t" for s t
    using that by (simp add: vlan_table_def field_bytes_def vlan_of_bytes_def)
  show "vlan_of_bytes (vlan_bytes h) = h" if "vlan_fits h" for h
    using that by (cases h) (simp add: vlan_of_bytes_def vlan_bytes_def vlan_fits_def)
qed (simp_all add: vlan_table_ok vlan_enc_fits)


section \<open>Packing and unpacking a packet header\<close>

text \<open>The part of \<open>ib_ud_header_pack\<close> from the base transport header on.\<close>

definition pack_transport :: "ib_ud_header \<Rightarrow> nat \<times> u8 list \<Rightarrow> (nat \<times> u8 list) option" where
  "pack_transport header r = do {
     r \<leftarrow> pack_header True bth_table (bth_bytes (bth header)) IB_BTH_BYTES r;
     (len, buf) \<leftarrow> pack_header True deth_table (deth_bytes (deth header)) IB_DETH_BYTES r;
     if immediate_present header
     then map_option (\<lambda>b. (len + 4, b)) (write_bytes len (be_bytes 4 (ucast (immediate_data header))) buf)
     else Some (len, buf)
   }"

definition imm_len :: "ib_ud_header \<Rightarrow> nat" where
  "imm_len h = (if immediate_present h then 4 else 0)"

text \<open>What a buffer holds from the base transport header on.\<close>

definition holds_transport :: "ib_ud_header \<Rightarrow> u8 list \<Rightarrow> bool" where
  "holds_transport h b \<longleftrightarrow> bthw.holds (bth h) b \<and> dethw.holds (deth h) (drop 12 b) \<and>
     (immediate_present h \<longrightarrow> read_bytes 20 4 b = Some (be_bytes 4 (ucast (immediate_data h))))"

lemma pack_transport_holds:
  assumes fits: "bth_fits (bth h)" "deth_fits (deth h)" and len: "off + 20 + imm_len h \<le> length buf"
  shows "\<exists>buf'. pack_transport h (off, buf) = Some (off + 20 + imm_len h, buf') \<and>
    length buf' = length buf \<and> take off buf' = take off buf \<and> holds_transport h (drop off buf')"
proof -
  obtain b1 where b1: "pack_at bth_table (bth_bytes (bth h)) off buf = Some b1" "length b1 = length buf"
    "bthw.holds (bth h) (drop off b1)" "take off b1 = take off buf"
    using bthw.pack_at_holds [OF fits(1), of off buf] len by auto
  obtain b2 where b2: "pack_at deth_table (deth_bytes (deth h)) (off + 12) b1 = Some b2" "length b2 = length buf"
    "dethw.holds (deth h) (drop (off + 12) b2)" "take (off + 12) b2 = take (off + 12) b1"
    using dethw.pack_at_holds [OF fits(2), of "off + 12" b1] len b1(2) by auto
  define b3 where "b3 = (if immediate_present h
    then take (off + 20) b2 @ be_bytes 4 (ucast (immediate_data h)) @ drop (off + 24) b2 else b2)"
  have b3: "take (off + 20) b3 = take (off + 20) b2" "length b3 = length buf"
    using len b2(2) by (auto simp: b3_def imm_len_def)
  have "pack_transport h (off, buf) = Some (off + 20 + imm_len h, b3)"
    using b1 b2 len
    by (simp add: pack_transport_def pack_header_def ud_consts b3_def imm_len_def add.commute split: if_splits)
  moreover have "take off b3 = take off buf"
    using arg_cong [OF b3(1), of "take off"] arg_cong [OF b2(4), of "take off"] b1(4) by simp
  moreover have "bthw.holds (bth h) (drop off b3)"
  proof (rule bthw.holds_cong [OF b1(3)])
    have "take (off + 12) b3 = take (off + 12) b1"
      using arg_cong [OF b3(1), of "take (off + 12)"] b2(4) by (simp add: min_def)
    then show "take 12 (drop off b1) = take 12 (drop off b3)"
      by (simp add: take_drop add.commute)
  qed (use b3(2) len in simp)
  moreover have "dethw.holds (deth h) (drop (off + 12) b3)"
  proof (rule dethw.holds_cong [OF b2(3)])
    show "take 8 (drop (off + 12) b2) = take 8 (drop (off + 12) b3)"
      using b3(1) by (simp add: take_drop add.commute)
  qed (use b3(2) len in simp)
  moreover have "read_bytes 20 4 (drop off b3) = Some (be_bytes 4 (ucast (immediate_data h)))"
    if "immediate_present h"
    using that len b2(2) by (simp add: b3_def imm_len_def add.commute)
  ultimately show ?thesis using b3(2) by (simp add: holds_transport_def add.commute)
qed

text \<open>The header the receiver ends up with.\<close>

definition received :: "ib_ud_header \<Rightarrow> ib_ud_header \<Rightarrow> ib_ud_header" where
  "received h header = header\<lparr>
     lrh := lrh h, grh_present := grh_present h, grh := (if grh_present h then grh h else grh header),
     bth := bth h, deth := deth h, immediate_present := immediate_present h,
     immediate_data := (if immediate_present h then immediate_data h else immediate_data header)\<rparr>"

definition opcode_ok :: "ib_ud_header \<Rightarrow> bool" where
  "opcode_ok h \<longleftrightarrow> bth_transport_header_version (bth h) = 0 \<and>
     bth_opcode (bth h) = (if immediate_present h then IB_OPCODE_UD_SEND_ONLY_WITH_IMMEDIATE
                           else IB_OPCODE_UD_SEND_ONLY)"

lemma unpack_transport_holds:
  assumes "holds_transport h b" and "bth_fits (bth h)" "deth_fits (deth h)" and "opcode_ok h"
  shows "unpack_transport b header = Some (Inr (), header\<lparr>bth := bth h, deth := deth h,
     immediate_present := immediate_present h,
     immediate_data := (if immediate_present h then immediate_data h else immediate_data header)\<rparr>)"
proof -
  obtain s1 where "ib_unpack bth_table b (bth_bytes (bth header)) = Some s1" "bth_of_bytes s1 = bth h"
    using bthw.unpack_holds [OF assms(2), of b "bth_bytes (bth header)"] assms(1)
    by (auto simp: holds_transport_def)
  moreover obtain s2 where "ib_unpack deth_table (drop 12 b) (deth_bytes (deth header)) = Some s2"
    "deth_of_bytes s2 = deth h"
    using dethw.unpack_holds [OF assms(3), of "drop 12 b" "deth_bytes (deth header)"] assms(1)
    by (auto simp: holds_transport_def)
  moreover have "read_bytes 0 4 (drop 20 b) = Some (be_bytes 4 (ucast (immediate_data h)))"
    if "immediate_present h"
    using assms(1) that by (auto simp: holds_transport_def read_bytes_def split: if_splits)
  ultimately show ?thesis
    using assms(4) by (auto simp: unpack_transport_def opcode_ok_def ud_consts)
qed

text \<open>A header that \<open>ib_ud_header_unpack\<close> accepts, in the packet formats it knows.\<close>

definition ib_packet :: "ib_ud_header \<Rightarrow> bool" where
  "ib_packet h \<longleftrightarrow> lrh_present h \<and> \<not> eth_present h \<and> \<not> vlan_present h \<and> \<not> ipv4_present h \<and> \<not> udp_present h \<and>
     lrh_fits (lrh h) \<and> lrh_link_version (lrh h) = 0 \<and>
     lrh_link_next_header (lrh h) = (if grh_present h then IB_LNH_IBA_GLOBAL else IB_LNH_IBA_LOCAL) \<and>
     (grh_present h \<longrightarrow> grh_fits (grh h) \<and> grh_ip_version (grh h) = 6 \<and> grh_next_header (grh h) = 0x1b) \<and>
     bth_fits (bth h) \<and> deth_fits (deth h) \<and> opcode_ok h"

definition grh_len :: "ib_ud_header \<Rightarrow> nat" where
  "grh_len h = (if grh_present h then 40 else 0)"

definition ud_header_len :: "ib_ud_header \<Rightarrow> nat" where
  "ud_header_len h = 8 + grh_len h + 20 + imm_len h"

lemma take_drop_eq: "take (a + n) x = take (a + n) y \<Longrightarrow> take n (drop a x) = take n (drop a y)"
  by (simp add: take_drop add.commute)

lemma ib_ud_header_pack_holds:
  assumes "ib_packet h" and len: "ud_header_len h \<le> length buf"
  shows "\<exists>buf'. ib_ud_header_pack h buf = Some (ud_header_len h, buf') \<and> length buf' = length buf \<and>
    lrhw.holds (lrh h) buf' \<and> (grh_present h \<longrightarrow> grhw.holds (grh h) (drop 8 buf')) \<and>
    holds_transport h (drop (8 + grh_len h) buf')"
proof -
  obtain b1 where b1: "pack_at lrh_table (lrh_bytes (lrh h)) 0 buf = Some b1" "length b1 = length buf"
    "lrhw.holds (lrh h) b1"
    using lrhw.pack_at_holds [of "lrh h" 0 buf] assms by (auto simp: ib_packet_def ud_header_len_def)
  have "\<exists>b2. (if grh_present h then pack_at grh_table (grh_bytes (grh h)) 8 b1 else Some b1) = Some b2 \<and>
     length b2 = length buf \<and> take 8 b2 = take 8 b1 \<and> (grh_present h \<longrightarrow> grhw.holds (grh h) (drop 8 b2))"
    using grhw.pack_at_holds [of "grh h" 8 b1] assms b1(2)
    by (auto simp: ib_packet_def ud_header_len_def grh_len_def)
  then obtain b2 where
    b2: "(if grh_present h then pack_at grh_table (grh_bytes (grh h)) 8 b1 else Some b1) = Some b2"
    "length b2 = length buf" "take 8 b2 = take 8 b1" "grh_present h \<longrightarrow> grhw.holds (grh h) (drop 8 b2)"
    by blast
  obtain b3 where b3: "pack_transport h (8 + grh_len h, b2) = Some (ud_header_len h, b3)"
    "length b3 = length buf" "take (8 + grh_len h) b3 = take (8 + grh_len h) b2"
    "holds_transport h (drop (8 + grh_len h) b3)"
    using pack_transport_holds [of h "8 + grh_len h" b2] assms b2(2)
    by (auto simp: ib_packet_def ud_header_len_def)
  have "ib_ud_header_pack h buf = pack_transport h (8 + grh_len h, b2)"
    using assms(1) b1(1) b2(1)
    by (simp add: ib_ud_header_pack_def pack_header_def pack_transport_def ib_packet_def ud_consts grh_len_def
        split: if_splits)
  moreover have "lrhw.holds (lrh h) b3"
  proof (rule lrhw.holds_cong [OF b1(3)])
    show "take 8 b1 = take 8 b3"
      using arg_cong [OF b3(3), of "take 8"] b2(3) by (simp add: min_def)
  qed (use b3(2) len in \<open>simp add: ud_header_len_def\<close>)
  moreover have "grhw.holds (grh h) (drop 8 b3)" if "grh_present h"
  proof (rule grhw.holds_cong)
    show "grhw.holds (grh h) (drop 8 b2)" using b2(4) that by simp
    show "take 40 (drop 8 b2) = take 40 (drop 8 b3)"
      using b3(3) that by (intro take_drop_eq) (simp add: grh_len_def)
  qed (use b3(2) len that in \<open>simp add: ud_header_len_def grh_len_def\<close>)
  ultimately show ?thesis using b3 by auto
qed

text \<open>
  C16: a packet header that \<open>ib_ud_header_pack\<close> writes is what \<open>ib_ud_header_unpack\<close> reads. For
  every header in the InfiniBand formats, packing reports the length of the headers present and
  unpacking the buffer into any header structure succeeds and yields the link, routing, transport
  and datagram headers and the immediate data of the sender, leaving the rest of the receiver's
  structure alone.
\<close>

theorem ud_header_roundtrip:
  assumes "ib_packet h" and "ud_header_len h \<le> length buf"
    and "length (grh_source_gid (grh header)) = 16" and "length (grh_destination_gid (grh header)) = 16"
  shows "\<exists>buf'. ib_ud_header_pack h buf = Some (ud_header_len h, buf') \<and> length buf' = length buf \<and>
    ib_ud_header_unpack buf' header = Some (Inr (), received h header)"
proof -
  obtain b where b: "ib_ud_header_pack h buf = Some (ud_header_len h, b)" "length b = length buf"
    "lrhw.holds (lrh h) b" "grh_present h \<longrightarrow> grhw.holds (grh h) (drop 8 b)"
    "holds_transport h (drop (8 + grh_len h) b)"
    using ib_ud_header_pack_holds [OF assms(1,2)] by blast
  obtain s1 where s1: "ib_unpack lrh_table b (lrh_bytes (lrh header)) = Some s1" "lrh_of_bytes s1 = lrh h"
    using lrhw.unpack_holds [of "lrh h" b "lrh_bytes (lrh header)"] assms(1) b(3) by (auto simp: ib_packet_def)
  have "length (grh_bytes (grh header)) = 48" using assms(3,4) by (simp add: grh_bytes_def)
  then have "\<exists>s2. ib_unpack grh_table (drop 8 b) (grh_bytes (grh header)) = Some s2 \<and> grh_of_bytes s2 = grh h"
    if "grh_present h"
    using grhw.unpack_holds [of "grh h" "drop 8 b" "grh_bytes (grh header)"] assms(1) b(4) that
    by (auto simp: ib_packet_def)
  moreover have "unpack_transport (drop (8 + grh_len h) b) header' = Some (Inr (), header'\<lparr>bth := bth h,
     deth := deth h, immediate_present := immediate_present h,
     immediate_data := (if immediate_present h then immediate_data h else immediate_data header')\<rparr>)" for header'
    using unpack_transport_holds [OF b(5)] assms(1) by (simp add: ib_packet_def)
  ultimately have "ib_ud_header_unpack b header = Some (Inr (), received h header)"
    using assms(1) s1
    by (cases "grh_present h")
      (auto simp: ib_ud_header_unpack_def received_def ib_packet_def ud_consts grh_len_def add.commute)
  then show ?thesis using b by blast
qed

lemma be_val_pad [simp]: "be_val (pad n) = 0"
  by (induction n) simp_all

lemmas zero_structs = zero_ud_header_def lrh_of_bytes_def grh_of_bytes_def bth_of_bytes_def deth_of_bytes_def
  eth_of_bytes_def vlan_of_bytes_def ip4_of_bytes_def udp_of_bytes_def

text \<open>A header for the evaluation of concrete packets.\<close>

definition sample_header :: "bool \<Rightarrow> bool \<Rightarrow> ib_ud_header" where
  "sample_header g imm = (let h = snd (ib_ud_header_init 256 True False False g 0 False imm zero_ud_header) in
     h\<lparr>lrh := (lrh h)\<lparr>lrh_service_level := 3, lrh_destination_lid := 0x1234\<rparr>,
       bth := (bth h)\<lparr>bth_pkey := 0xffff, bth_destination_qpn := 1\<rparr>,
       deth := (deth h)\<lparr>deth_qkey := 0x80010000\<rparr>, immediate_data := 0xdeadbeef\<rparr>)"

theorem ud_header_roundtrip_witness:
  "\<exists>buf'. ib_ud_header_pack (sample_header True True) (replicate 80 0) =
      Some (ud_header_len (sample_header True True), buf') \<and> length buf' = length (replicate 80 (0 :: u8)) \<and>
    ib_ud_header_unpack buf' zero_ud_header = Some (Inr (), received (sample_header True True) zero_ud_header)"
proof (rule ud_header_roundtrip)
  show "ib_packet (sample_header True True)"
    by (simp add: sample_header_def ib_packet_def ib_ud_header_init_def zero_ud_header_def Let_def
        init_lrh_def init_grh_def lrh_of_bytes_def grh_of_bytes_def bth_of_bytes_def deth_of_bytes_def
        lrh_fits_def grh_fits_def bth_fits_def deth_fits_def opcode_ok_def ud_consts cdiv_def)
qed (simp_all add: sample_header_def ib_ud_header_init_def zero_ud_header_def Let_def
        ud_header_len_def grh_len_def imm_len_def grh_of_bytes_def)

section \<open>Initialisation\<close>

lemma u16_of_int: "0 \<le> x \<Longrightarrow> x < 65536 \<Longrightarrow> unat (word_of_int x :: u16) = nat x"
  by (simp add: unsigned_of_int take_bit_eq_mod)

lemma pad_count_value: "unat (ucast ((word_of_int (4 - p) :: u32) AND 3) :: u8) = nat ((4 - p) mod 4)"
proof -
  have "(word_of_int (4 - p) :: u32) AND 3 = word_of_int ((4 - p) mod 4)"
  proof (rule bit_word_eqI)
    fix n assume "n < LENGTH(32)"
    have "bit (3 :: u32) n \<longleftrightarrow> n < 2"
      using bit_mask_iff [of 2 n, where ?'a = "32 word"] \<open>n < LENGTH(32)\<close> by (simp add: mask_eq_exp_minus_1)
    moreover have "(4 - p) mod 4 = take_bit 2 (4 - p)" by (simp add: take_bit_eq_mod)
    ultimately show "bit ((word_of_int (4 - p) :: u32) AND 3) n = bit (word_of_int ((4 - p) mod 4) :: u32) n"
      using \<open>n < LENGTH(32)\<close> by (auto simp: bit_and_iff bit_of_int_iff bit_take_bit_iff simp del: of_int_diff)
  qed
  then show ?thesis by (simp add: unsigned_of_int unsigned_ucast_eq take_bit_eq_mod del: of_int_diff)
qed

lemma Suc_Suc_minus: "2 \<le> n \<Longrightarrow> Suc (Suc (n - 2)) = n"
  by simp

lemma round_up_value:
  assumes "0 \<le> x" and "x < 65536"
  shows "unat (ucast ((word_of_int x :: u64) AND NOT 3) :: u16) = nat (x div 4 * 4)"
proof -
  have "ucast ((word_of_int x :: u64) AND NOT 3) = (word_of_int (x div 4 * 4) :: u16)"
  proof (rule bit_word_eqI)
    fix n assume n: "n < LENGTH(16)"
    define m where "m = (NOT 3 :: u64)"
    have "bit (3 :: u64) n \<longleftrightarrow> n < 2"
      using bit_mask_iff [of 2 n, where ?'a = "64 word"] n by (simp add: mask_eq_exp_minus_1)
    then have "bit m n \<longleftrightarrow> 2 \<le> n" unfolding m_def bit_not_iff using n by auto
    moreover have "x div 4 * 4 = push_bit 2 (drop_bit 2 x)" by (simp add: push_bit_eq_mult drop_bit_eq_div)
    ultimately show "bit (ucast ((word_of_int x :: u64) AND NOT 3) :: u16) n = bit (word_of_int (x div 4 * 4) :: u16) n"
      unfolding m_def [symmetric]
      using n Suc_Suc_minus [of n] by (auto simp: bit_ucast_iff bit_and_iff bit_of_int_iff bit_push_bit_iff bit_drop_bit_eq)
  qed
  moreover have "0 \<le> x div 4 * 4" "x div 4 * 4 < 65536" using assms by auto
  ultimately show ?thesis using u16_of_int by metis
qed

lemma round_words: "4 * ((4 * a + 3 + p) div 4) = 4 * a + p + (4 - p) mod (4 :: int)"
  by presburger

text \<open>
  the lengths \<open>ib_ud_header_init\<close> stores describe the packet. For a payload that keeps the
  packet within the eleven bits of the length field, the initialised header is one that can be
  packed and unpacked; the link header counts, in words, the packed headers without the immediate
  data, the payload, its padding and the invariant CRC; and the routing header counts what follows it.
\<close>

theorem ud_header_init_lengths:
  assumes "0 \<le> p" and "p \<le> 8096"
  shows "\<exists>h. ib_ud_header_init p True False False g 0 False imm header = (Inr (), h) \<and> ib_packet h \<and>
     grh_present h = g \<and> immediate_present h = imm \<and>
     4 * int (unat (lrh_packet_length (lrh h))) =
       int (ud_header_len h) - int (imm_len h) + p + int (unat (bth_pad_count (bth h))) + 4 \<and>
     (g \<longrightarrow> unat (grh_payload_length (grh h)) + 48 = 4 * unat (lrh_packet_length (lrh h)))"
proof -
  let ?n = "28 + (if g then 40 else 0) + p + 7"
  have pl: "unat (word_of_int (?n div 4) :: u16) = nat (?n div 4)"
    using assms by (intro u16_of_int) auto
  have c: "cdiv ?n 4 = ?n div 4" using assms by (simp add: cdiv_def)
  have gl: "unat (ucast ((word_of_int (20 + p + 7) :: u64) AND NOT 3) :: u16) = nat ((20 + p + 7) div 4 * 4)"
    using assms by (intro round_up_value) auto
  define h where "h = snd (ib_ud_header_init p True False False g 0 False imm header)"
  have h: "ib_ud_header_init p True False False g 0 False imm header = (Inr (), h)"
    "lrh_present h" "\<not> eth_present h" "\<not> vlan_present h" "\<not> ipv4_present h" "\<not> udp_present h"
    "grh_present h = g" "immediate_present h = imm"
    "lrh h = init_lrh g p (lrh zero_ud_header)"
    "g \<Longrightarrow> grh h = init_grh False 0 p (grh zero_ud_header)"
    "bth h = (bth zero_ud_header)\<lparr>
       bth_opcode := (if imm then IB_OPCODE_UD_SEND_ONLY_WITH_IMMEDIATE else IB_OPCODE_UD_SEND_ONLY),
       bth_pad_count := ucast ((word_of_int (4 - p) :: u32) AND 3), bth_transport_header_version := 0\<rparr>"
    "deth h = deth zero_ud_header"
    by (simp_all add: h_def ib_ud_header_init_def Let_def zero_ud_header_def del: of_int_diff)
  have len: "lrh_packet_length (lrh h) = word_of_int (?n div 4)"
    using c by (cases g) (simp_all add: h(9) init_lrh_def ud_consts algebra_simps)
  have pad: "unat (bth_pad_count (bth h)) = nat ((4 - p) mod 4)"
    by (simp add: h(11) pad_count_value del: of_int_diff)
  have "ib_packet h"
  proof -
    have "nat (?n div 4) < 2048" using assms by auto
    then have "unat (lrh_packet_length (lrh h)) < 2048" unfolding len pl .
    then have "lrh_fits (lrh h)" by (simp add: lrh_fits_def h(9) init_lrh_def zero_structs ud_consts)
    moreover have "bth_fits (bth h)"
      using pad by (simp add: bth_fits_def h(11) zero_structs del: of_int_diff)
    moreover have "deth_fits (deth h)" by (simp add: deth_fits_def h(12) zero_structs)
    moreover have "grh_fits (grh h)" if g using that by (simp add: grh_fits_def h(10) init_grh_def zero_structs)
    ultimately show ?thesis
      using h by (simp add: ib_packet_def opcode_ok_def init_lrh_def init_grh_def)
  qed
  moreover have "4 * int (unat (lrh_packet_length (lrh h))) =
       int (ud_header_len h) - int (imm_len h) + p + int (unat (bth_pad_count (bth h))) + 4"
    unfolding len pl pad using assms h(7) round_words [of 18 p] round_words [of 8 p]
    by (cases g) (simp_all add: ud_header_len_def grh_len_def algebra_simps)
  moreover have "unat (grh_payload_length (grh h)) + 48 = 4 * unat (lrh_packet_length (lrh h))" if g
  proof -
    have "(p + 75) div 4 = (p + 27) div 4 + 12" by presburger
    then show ?thesis
      unfolding len pl using assms that gl by (simp add: h(10) init_grh_def ud_consts algebra_simps nat_mult_distrib nat_add_distrib)
  qed
  ultimately show ?thesis using h(1,7,8) by blast
qed

theorem ud_header_init_lengths_witness:
  "\<exists>h. ib_ud_header_init 257 True False False True 0 False False zero_ud_header = (Inr (), h) \<and> ib_packet h \<and>
     grh_present h = True \<and> immediate_present h = False \<and>
     4 * int (unat (lrh_packet_length (lrh h))) =
       int (ud_header_len h) - int (imm_len h) + 257 + int (unat (bth_pad_count (bth h))) + 4 \<and>
     unat (grh_payload_length (grh h)) + 48 = 4 * unat (lrh_packet_length (lrh h))"
  using ud_header_init_lengths [of 257 True False zero_ud_header] by simp

section \<open>The IPv4 checksum\<close>

text \<open>Every bit of \<open>n\<close> bytes belongs to a field of the table.\<close>

definition bits_cover :: "nat \<Rightarrow> ib_field list \<Rightarrow> bool" where
  "bits_cover n tab \<longleftrightarrow> list_all (\<lambda>k. list_ex (\<lambda>d. field_start d \<le> k \<and> k < field_start d + size_bits d) tab) [0..<8 * n]"

lemma bits_cover_eqI:
  assumes "bits_cover n tab" and "length a = n" and "length b = n"
    and "\<forall>d \<in> set tab. \<forall>i < size_bits d. bbit a (field_start d + i) = bbit b (field_start d + i)"
  shows "a = b"
proof (rule bbit_eqI)
  fix k assume "k < 8 * length a"
  then have "k \<in> set [0..<8 * n]" using assms(2) by simp
  then obtain d where "d \<in> set tab" "field_start d \<le> k" "k < field_start d + size_bits d"
    using assms(1) unfolding bits_cover_def list_all_iff list_ex_iff by blast
  then show "bbit a k = bbit b k"
    using assms(4) by (metis add_diff_inverse_nat add_less_cancel_left leD)
qed (use assms in simp)

lemma ip4_bits_cover: "bits_cover 20 ip4_table"
  by code_simp

text \<open>A field that fills whole bytes on the wire and in memory.\<close>

lemma whole_field_bits:
  assumes "take (struct_size_bytes d) (drop o_b w) = field_bytes d s"
    and "field_start d = 8 * o_b" "size_bits d = 8 * struct_size_bytes d" "struct_size_bytes d \<noteq> 0"
    and "o_b + struct_size_bytes d \<le> length w" "struct_offset_bytes d + struct_size_bytes d \<le> length s"
  shows "\<forall>i < size_bits d. bbit w (field_start d + i) = packed_bit d s i"
proof (intro allI impI)
  fix i assume i: "i < size_bits d"
  then have "bbit w (field_start d + i) = bbit (field_bytes d s) i"
    using assms by (simp add: bbit_take_drop flip: assms(1))
  then show "bbit w (field_start d + i) = packed_bit d s i"
    using i assms by (simp add: packed_bit_def field_src_def field_bytes_def bbit_take_drop)
qed

lemma iphdr_is_packed:
  assumes "ip4_ver i = 4" and "ip4_hdr_len i = 5" and "length buf = 20"
  shows "ib_pack ip4_table (ip4_bytes (i\<lparr>ip4_check := 0\<rparr>)) buf =
    Some ([0x45, ip4_tos i] @ be_bytes 2 (ucast (ip4_tot_len i)) @ be_bytes 2 (ucast (ip4_id i)) @
      be_bytes 2 (ucast (ip4_frag_off i)) @ [ip4_ttl i, ip4_protocol i] @ [0, 0] @
      be_bytes 4 (ucast (ip4_saddr i)) @ be_bytes 4 (ucast (ip4_daddr i)))" (is "_ = Some ?w")
proof -
  let ?s = "ip4_bytes (i\<lparr>ip4_check := 0\<rparr>)"
  have "table_ok (length ?s) (length buf) ip4_table" using ip4_table_ok [of 20] assms(3) by simp
  then obtain w where w: "ib_pack ip4_table ?s buf = Some w" "length w = 20"
    "\<forall>d \<in> set ip4_table. \<forall>i < size_bits d. bbit w (field_start d + i) = packed_bit d ?s i"
    using ib_pack_bits [of ?s buf ip4_table] assms(3) by auto
  have one: "be_bytes (Suc 0) (ucast (x :: u8)) = [x]" for x
    by (simp add: be_bytes_def)
  have ver: "be_bytes (Suc 0) 4 = [4]" "be_bytes (Suc 0) 5 = [5]" "be_bytes 2 0 = [0, 0]"
    by code_simp+
  have j4: "j < 4 \<Longrightarrow> j = 0 \<or> j = 1 \<or> j = 2 \<or> j = 3" for j :: nat by linarith
  have nib: "bbit ?w j = bbit ?s (4 + j)" "bbit ?w (4 + j) = bbit ?s (12 + j)" if "j < 4" for j
    using j4 [OF that] assms by (auto simp: ip4_bytes_def ver bbit_Cons)
  have "\<forall>d \<in> set (take 2 ip4_table). \<forall>i < size_bits d. bbit ?w (field_start d + i) = packed_bit d ?s i"
    using nib by (simp add: ip4_table_def packed_bit_def field_src_def field_start_def)
  moreover have "\<forall>i < size_bits d. bbit ?w (field_start d + i) = packed_bit d ?s i"
    if "d \<in> set (drop 2 ip4_table)" for d
  proof (rule whole_field_bits)
    show "take (struct_size_bytes d) (drop (field_start d div 8) ?w) = field_bytes d ?s"
      using that by (auto simp: ip4_table_def field_start_def field_bytes_def ip4_bytes_def one ver)
  qed (use that in \<open>auto simp: ip4_table_def field_start_def\<close>)
  ultimately have "\<forall>d \<in> set ip4_table. \<forall>i < size_bits d. bbit ?w (field_start d + i) = packed_bit d ?s i"
    by (metis Un_iff append_take_drop_id set_append)
  then have "w = ?w" using w by (intro bits_cover_eqI [OF ip4_bits_cover]) simp_all
  then show ?thesis using w(1) by simp
qed

text \<open>
  The checksum of \<open>ib_ud_ip4_csum\<close> is taken over the header that \<open>ib_pack\<close> puts on the wire
  for the same fields with a zero checksum, although it is computed from a \<open>struct iphdr\<close> built
  separately.
\<close>

theorem ip4_csum_covers_packed_header:
  assumes "ip4_ver (ip4 h) = 4" and "ip4_hdr_len (ip4 h) = 5" and "length buf = 20"
  shows "\<exists>w. ib_pack ip4_table (ip4_bytes ((ip4 h)\<lparr>ip4_check := 0\<rparr>)) buf = Some w \<and>
    (\<forall>csum. ib_ud_ip4_csum csum h = csum w 5)"
  using iphdr_is_packed [OF assms] by (simp add: ib_ud_ip4_csum_def Let_def)

theorem ip4_csum_covers_packed_header_witness:
  "\<exists>w. ib_pack ip4_table (ip4_bytes ((ip4 (snd (ib_ud_header_init 64 False True False False 4 True False zero_ud_header)))\<lparr>ip4_check := 0\<rparr>))
      (replicate 20 0) = Some w \<and>
    (\<forall>csum. ib_ud_ip4_csum csum (snd (ib_ud_header_init 64 False True False False 4 True False zero_ud_header)) = csum w 5)"
  by (rule ip4_csum_covers_packed_header)
    (simp_all add: ib_ud_header_init_def Let_def init_ip4_def)

end
