(* ===== verification/Bitmaps.thy ===== *)
theory Bitmaps
  imports Kern_Prelude
begin

text \<open>
  The bitmap routines of \<open>linux/bitmap.h\<close> and \<open>linux/find.h\<close> that the resource allocators call,
  on a bitmap of a given number of bits as a \<open>bool list\<close>, and the contract the allocators rely
  on: a pool of indices from which a free one is picked, occupied and released. The contract is
  met both by the bitmaps in which a set bit means free (\<open>find_first_bit\<close>) and by those in which
  it means used (\<open>find_first_zero_bit\<close>).
\<close>

section \<open>Bit searches\<close>

fun find_first_bit :: "bool list \<Rightarrow> nat" where
  "find_first_bit [] = 0"
| "find_first_bit (b # bs) = (if b then 0 else Suc (find_first_bit bs))"

definition find_first_zero_bit :: "bool list \<Rightarrow> nat" where
  "find_first_zero_bit bs = find_first_bit (map Not bs)"

definition set_bit_at :: "nat \<Rightarrow> bool list \<Rightarrow> bool list" where
  "set_bit_at i bs = bs[i := True]"

definition clear_bit_at :: "nat \<Rightarrow> bool list \<Rightarrow> bool list" where
  "clear_bit_at i bs = bs[i := False]"

definition bitmap_full :: "bool list \<Rightarrow> bool" where
  "bitmap_full bs \<longleftrightarrow> list_all id bs"

definition bits_on :: "bool list \<Rightarrow> nat set" where
  "bits_on bs = {i. i < length bs \<and> bs ! i}"

definition bits_off :: "bool list \<Rightarrow> nat set" where
  "bits_off bs = {i. i < length bs \<and> \<not> bs ! i}"

lemma find_first_bit_le: "find_first_bit bs \<le> length bs"
  by (induction bs) auto

lemma find_first_bit_on: "find_first_bit bs < length bs \<Longrightarrow> bs ! find_first_bit bs"
  by (induction bs) auto

lemma find_first_bit_least: "i < find_first_bit bs \<Longrightarrow> \<not> bs ! i"
  by (induction bs arbitrary: i) (auto simp: nth_Cons' split: if_splits)

lemma find_first_bit_none: "length bs \<le> find_first_bit bs \<longleftrightarrow> bits_on bs = {}"
proof
  assume "length bs \<le> find_first_bit bs"
  then show "bits_on bs = {}" using find_first_bit_least [of _ bs] by (auto simp: bits_on_def)
next
  assume "bits_on bs = {}"
  then show "length bs \<le> find_first_bit bs"
    using find_first_bit_on [of bs] by (auto simp: bits_on_def not_le [symmetric])
qed

lemma length_set_bit_at [simp]: "length (set_bit_at i bs) = length bs"
  by (simp add: set_bit_at_def)

lemma length_clear_bit_at [simp]: "length (clear_bit_at i bs) = length bs"
  by (simp add: clear_bit_at_def)

lemma bits_on_set: "i < length bs \<Longrightarrow> bits_on (set_bit_at i bs) = insert i (bits_on bs)"
  by (auto simp: bits_on_def set_bit_at_def nth_list_update)

lemma bits_on_clear: "bits_on (clear_bit_at i bs) = bits_on bs - {i}"
  by (cases "i < length bs") (auto simp: bits_on_def clear_bit_at_def nth_list_update)

lemma bits_off_set: "bits_off (set_bit_at i bs) = bits_off bs - {i}"
  by (cases "i < length bs") (auto simp: bits_off_def set_bit_at_def nth_list_update)

lemma bits_off_subset: "bits_off bs \<subseteq> {..<length bs}"
  by (auto simp: bits_off_def)

lemma bits_on_subset: "bits_on bs \<subseteq> {..<length bs}"
  by (auto simp: bits_on_def)

lemma bits_off_clear: "i < length bs \<Longrightarrow> bits_off (clear_bit_at i bs) = insert i (bits_off bs)"
  by (auto simp: bits_off_def clear_bit_at_def nth_list_update)

lemma bits_on_not: "bits_on (map Not bs) = bits_off bs"
  by (auto simp: bits_on_def bits_off_def)

lemma bits_off_replicate [simp]: "bits_off (replicate n True) = {}" "bits_off (replicate n False) = {..<n}"
  by (auto simp: bits_off_def)

lemma bits_on_replicate [simp]: "bits_on (replicate n True) = {..<n}" "bits_on (replicate n False) = {}"
  by (auto simp: bits_on_def)

lemma bitmap_full_iff: "bitmap_full bs \<longleftrightarrow> bits_off bs = {}"
  by (auto simp: bitmap_full_def bits_off_def list_all_length)

section \<open>Pools of indices\<close>

locale index_pool =
  fixes pick :: "'p \<Rightarrow> nat option"
    and occupy :: "nat \<Rightarrow> 'p \<Rightarrow> 'p" and release :: "nat \<Rightarrow> 'p \<Rightarrow> 'p"
    and used :: "'p \<Rightarrow> nat set" and cap :: "'p \<Rightarrow> nat"
  assumes pick_free: "pick p = Some i \<Longrightarrow> i < cap p \<and> i \<notin> used p"
    and pick_none: "pick p = None \<Longrightarrow> used p = {..<cap p}"
    and used_occupy: "i < cap p \<Longrightarrow> used (occupy i p) = insert i (used p)"
    and used_release: "i < cap p \<Longrightarrow> used (release i p) = used p - {i}"
    and cap_occupy [simp]: "cap (occupy i p) = cap p"
    and cap_release [simp]: "cap (release i p) = cap p"
    and used_cap: "used p \<subseteq> {..<cap p}"
begin

text \<open>Taking an index: one that was free, and now is used.\<close>

definition grab :: "'p \<Rightarrow> (nat \<times> 'p) option" where
  "grab p = map_option (\<lambda>i. (i, occupy i p)) (pick p)"

lemma finite_used [simp]: "finite (used p)"
  using used_cap finite_subset by blast

lemma grab_Some:
  assumes "grab p = Some (i, p')"
  shows "i < cap p" "i \<notin> used p" "used p' = insert i (used p)" "cap p' = cap p"
  using assms pick_free used_occupy by (auto simp: grab_def)

lemma card_grab: "grab p = Some (i, p') \<Longrightarrow> card (used p') = Suc (card (used p))"
  using grab_Some by simp

lemma grab_succeeds_iff: "grab p = None \<longleftrightarrow> card (used p) = cap p"
proof
  assume "grab p = None"
  then show "card (used p) = cap p" using pick_none by (simp add: grab_def)
next
  assume card: "card (used p) = cap p"
  then have "used p = {..<cap p}" using card_subset_eq [of "{..<cap p}" "used p"] used_cap by simp
  then show "grab p = None" using pick_free by (cases "pick p") (auto simp: grab_def)
qed

lemma release_grab: "grab p = Some (i, p') \<Longrightarrow> used (release i p') = used p"
  using grab_Some [of p i p'] used_release [of i p'] by auto

lemma card_release: "i \<in> used p \<Longrightarrow> Suc (card (used (release i p))) = card (used p)"
  using used_release [of i p] used_cap by (metis card_Suc_Diff1 finite_used lessThan_iff subsetD)

text \<open>A fresh holder: an index that is grabbed differs from every index in use.\<close>

lemma grab_disjoint: "grab p = Some (i, p') \<Longrightarrow> j \<in> used p \<Longrightarrow> i \<noteq> j"
  using grab_Some by blast

end

definition pick_set_bit :: "bool list \<Rightarrow> nat option" where
  "pick_set_bit bs = (let i = find_first_bit bs in if length bs \<le> i then None else Some i)"

definition pick_zero_bit :: "bool list \<Rightarrow> nat option" where
  "pick_zero_bit bs = (let i = find_first_zero_bit bs in if length bs \<le> i then None else Some i)"

lemma pick_set_bit_Some: "pick_set_bit bs = Some i \<longleftrightarrow> find_first_bit bs = i \<and> i < length bs"
  by (auto simp: pick_set_bit_def Let_def)

lemma pick_zero_bit_Some: "pick_zero_bit bs = Some i \<longleftrightarrow> find_first_zero_bit bs = i \<and> i < length bs"
  by (auto simp: pick_zero_bit_def Let_def)

text \<open>A set bit is a free index.\<close>

interpretation fb: index_pool pick_set_bit clear_bit_at set_bit_at bits_off length
proof
  show "pick_set_bit p = Some i \<Longrightarrow> i < length p \<and> i \<notin> bits_off p" for p i
    using find_first_bit_on [of p] by (auto simp: pick_set_bit_Some bits_off_def)
  show "pick_set_bit p = None \<Longrightarrow> bits_off p = {..<length p}" for p
    using find_first_bit_none [of p] by (auto simp: pick_set_bit_def Let_def bits_on_def bits_off_def split: if_splits)
qed (simp_all add: bits_off_set bits_off_clear bits_off_subset)

text \<open>A zero bit is a free index.\<close>

interpretation zb: index_pool pick_zero_bit set_bit_at clear_bit_at bits_on length
proof
  show "pick_zero_bit p = Some i \<Longrightarrow> i < length p \<and> i \<notin> bits_on p" for p i
    using find_first_bit_on [of "map Not p"]
    by (auto simp: pick_zero_bit_Some find_first_zero_bit_def bits_on_def)
  show "pick_zero_bit p = None \<Longrightarrow> bits_on p = {..<length p}" for p
    using find_first_bit_none [of "map Not p"]
    by (auto simp: pick_zero_bit_def Let_def find_first_zero_bit_def bits_on_def bits_on_not bits_off_def split: if_splits)
qed (simp_all add: bits_on_set bits_on_clear bits_on_subset)

end
