(* ===== verification/Mlx5_Db.thy ===== *)
theory Mlx5_Db
  imports Bitmaps "HOL-Library.Multiset"
begin

unbundle bit_operations_syntax

text \<open>
  DMA buffers and doorbell records, \<open>drivers/net/ethernet/mellanox/mlx5/core/alloc.c\<close>. The
  coherent DMA memory of the device is a multiset of live blocks (size, CPU address, bus address);
  freeing a block that is not live with exactly these attributes is \<open>None\<close>. The allocator
  \<open>dma_alloc_coherent\<close> is a parameter that sees the state of the device and the size, the outcome
  of \<open>kzalloc\<close> and its relatives is an argument, and so are \<open>PAGE_SHIFT\<close> and
  \<open>cache_line_size()\<close>. Sizes are natural numbers.
\<close>

section \<open>Coherent memory\<close>

type_synonym dma_block = "nat \<times> nat \<times> u64"

record dma_state =
  dev_node :: int
  dma_live :: "dma_block multiset"

type_synonym dma_fn = "dma_state \<Rightarrow> nat \<Rightarrow> (nat \<times> u64) option"

definition mlx5_dma_zalloc_coherent_node ::
  "dma_fn \<Rightarrow> nat \<Rightarrow> int \<Rightarrow> dma_state \<Rightarrow> (nat \<times> u64) option \<times> dma_state" where
  "mlx5_dma_zalloc_coherent_node dma sz node st =
     (let original_node = dev_node st;
          st = st\<lparr>dev_node := node\<rparr>;
          cpu_handle = dma st sz;
          st = (case cpu_handle of None \<Rightarrow> st
                | Some (b, m) \<Rightarrow> st\<lparr>dma_live := add_mset (sz, b, m) (dma_live st)\<rparr>)
      in (cpu_handle, st\<lparr>dev_node := original_node\<rparr>))"

definition dma_free_coherent :: "dma_block \<Rightarrow> dma_state \<Rightarrow> dma_state option" where
  "dma_free_coherent blk st =
     (if blk \<in># dma_live st then Some (st\<lparr>dma_live := dma_live st - {#blk#}\<rparr>) else None)"

section \<open>Fragmented buffers\<close>

type_synonym mlx5_buf_list = "nat \<times> u64"

record mlx5_frag_buf =
  fb_frags :: "mlx5_buf_list list"
  fb_npages :: nat
  fb_size :: nat
  fb_page_shift :: nat

text \<open>The loop \<open>while (i--) dma_free_coherent(\<dots>, PAGE_SIZE, \<dots>)\<close> of the error path.\<close>

fun free_frags :: "nat \<Rightarrow> mlx5_buf_list list \<Rightarrow> dma_state \<Rightarrow> dma_state option" where
  "free_frags page_size [] st = Some st"
| "free_frags page_size ((b, m) # fs) st =
     do { st \<leftarrow> dma_free_coherent (page_size, b, m) st; free_frags page_size fs st }"

fun frag_alloc_loop ::
  "dma_fn \<Rightarrow> nat \<Rightarrow> int \<Rightarrow> nat \<Rightarrow> nat \<Rightarrow> mlx5_buf_list list \<Rightarrow> dma_state \<Rightarrow>
     (mlx5_buf_list list result \<times> dma_state) option" where
  "frag_alloc_loop dma page_shift node 0 sz frags st = Some (Inr frags, st)"
| "frag_alloc_loop dma page_shift node (Suc n) sz frags st =
     (let frag_sz = min sz (2 ^ page_shift);
          (cpu, st) = mlx5_dma_zalloc_coherent_node dma frag_sz node st
      in case cpu of
           None \<Rightarrow> map_option (Pair (Inl ENOMEM)) (free_frags (2 ^ page_shift) (rev frags) st)
         | Some (b, m) \<Rightarrow>
             if m AND (2 ^ page_shift - 1) \<noteq> 0
             then do {
               st \<leftarrow> dma_free_coherent (frag_sz, b, m) st;
               map_option (Pair (Inl ENOMEM)) (free_frags (2 ^ page_shift) (rev frags) st)
             }
             else frag_alloc_loop dma page_shift node n (sz - frag_sz) (frags @ [(b, m)]) st)"

definition div_round_up :: "nat \<Rightarrow> nat \<Rightarrow> nat" where
  "div_round_up n d = (n + d - 1) div d"

definition mlx5_frag_buf_alloc_node ::
  "dma_fn \<Rightarrow> bool \<Rightarrow> nat \<Rightarrow> nat \<Rightarrow> int \<Rightarrow> dma_state \<Rightarrow> (mlx5_frag_buf result \<times> dma_state) option" where
  "mlx5_frag_buf_alloc_node dma kcalloc_ok page_shift sz node st =
     (let npages = div_round_up sz (2 ^ page_shift)
      in if \<not> kcalloc_ok then Some (Inl ENOMEM, st)
         else map_option (\<lambda>(r, st). (map_sum id (\<lambda>frags. \<lparr>fb_frags = frags, fb_npages = npages, fb_size = sz,
                                        fb_page_shift = page_shift\<rparr>) r, st))
                (frag_alloc_loop dma page_shift node npages sz [] st))"

fun frag_free_loop ::
  "nat \<Rightarrow> nat \<Rightarrow> mlx5_buf_list list \<Rightarrow> nat \<Rightarrow> dma_state \<Rightarrow> dma_state option" where
  "frag_free_loop page_size 0 frags sz st = Some st"
| "frag_free_loop page_size (Suc n) [] sz st = None"
| "frag_free_loop page_size (Suc n) ((b, m) # frags) sz st =
     (let frag_sz = min sz page_size
      in do { st \<leftarrow> dma_free_coherent (frag_sz, b, m) st; frag_free_loop page_size n frags (sz - frag_sz) st })"

definition mlx5_frag_buf_free :: "nat \<Rightarrow> mlx5_frag_buf \<Rightarrow> dma_state \<Rightarrow> dma_state option" where
  "mlx5_frag_buf_free page_shift buf st =
     frag_free_loop (2 ^ page_shift) (fb_npages buf) (fb_frags buf) (fb_size buf) st"

definition mlx5_fill_page_frag_array_perm :: "mlx5_frag_buf \<Rightarrow> u64 list \<Rightarrow> u8 \<Rightarrow> u64 list option" where
  "mlx5_fill_page_frag_array_perm buf pas perm =
     (if fb_npages buf \<le> length (fb_frags buf) \<and> fb_npages buf \<le> length pas
      then Some (map (\<lambda>(b, m). m OR ucast perm) (take (fb_npages buf) (fb_frags buf)) @ drop (fb_npages buf) pas)
      else None)"

definition mlx5_fill_page_frag_array :: "mlx5_frag_buf \<Rightarrow> u64 list \<Rightarrow> u64 list option" where
  "mlx5_fill_page_frag_array buf pas = mlx5_fill_page_frag_array_perm buf pas 0"

section \<open>Buffers are allocated whole or not at all\<close>

text \<open>The blocks of a buffer: every fragment is a page except for the last.\<close>

fun frag_blocks :: "nat \<Rightarrow> nat \<Rightarrow> mlx5_buf_list list \<Rightarrow> dma_block multiset" where
  "frag_blocks page_size sz [] = {#}"
| "frag_blocks page_size sz ((b, m) # fs) =
     add_mset (min sz page_size, b, m) (frag_blocks page_size (sz - min sz page_size) fs)"

lemma frag_blocks_snoc:
  "frag_blocks p sz (fs @ [(b, m)]) =
     add_mset (min (sz - min sz (p * length fs)) p, b, m) (frag_blocks p sz fs)"
proof (induction p sz fs rule: frag_blocks.induct)
  case (2 p sz b' m' fs)
  have "sz - min sz p - min (sz - min sz p) (p * length fs) = sz - min sz (p * length ((b', m') # fs))"
    by (simp add: min_def algebra_simps)
  with 2 show ?case by (simp add: add_mset_commute)
qed simp

lemma frag_blocks_full:
  "p * length fs \<le> sz \<Longrightarrow> frag_blocks p sz fs = image_mset (\<lambda>(b, m). (p, b, m)) (mset fs)"
proof (induction p sz fs rule: frag_blocks.induct)
  case (2 p sz b m fs)
  then have "min sz p = p" by simp
  with 2 show ?case by simp
qed simp

lemma zalloc_node [simp]:
  "mlx5_dma_zalloc_coherent_node dma sz node st =
     (dma (st\<lparr>dev_node := node\<rparr>) sz,
      case dma (st\<lparr>dev_node := node\<rparr>) sz of None \<Rightarrow> st
      | Some (b, m) \<Rightarrow> st\<lparr>dma_live := add_mset (sz, b, m) (dma_live st)\<rparr>)"
  by (simp add: mlx5_dma_zalloc_coherent_node_def Let_def split: option.split)

lemma dma_free_added [simp]:
  "dma_free_coherent blk (st\<lparr>dma_live := add_mset blk h\<rparr>) = Some (st\<lparr>dma_live := h\<rparr>)"
  by (simp add: dma_free_coherent_def)

lemma free_frags_all:
  "free_frags p fs (st\<lparr>dma_live := h + image_mset (\<lambda>(b, m). (p, b, m)) (mset fs)\<rparr>) = Some (st\<lparr>dma_live := h\<rparr>)"
  by (induction fs) auto

lemma frag_free_loop_all:
  "frag_free_loop p (length fs) fs sz (st\<lparr>dma_live := h + frag_blocks p sz fs\<rparr>) = Some (st\<lparr>dma_live := h\<rparr>)"
  by (induction p sz fs rule: frag_blocks.induct) (auto simp: Let_def)

definition page_aligned :: "nat \<Rightarrow> u64 \<Rightarrow> bool" where
  "page_aligned page_shift m \<longleftrightarrow> m AND (2 ^ page_shift - 1) = 0"

lemma frag_alloc_loop_all_or_nothing:
  assumes "dma_live st = h + frag_blocks (2 ^ ps) tot frags"
    and "tot = 2 ^ ps * length frags + sz" and "2 ^ ps * n < sz + 2 ^ ps" and "\<forall>(b, m) \<in> set frags. page_aligned ps m"
  shows "frag_alloc_loop dma ps node n sz frags st = Some (Inl ENOMEM, st\<lparr>dma_live := h\<rparr>) \<or>
    (\<exists>fs. frag_alloc_loop dma ps node n sz frags st =
            Some (Inr (frags @ fs), st\<lparr>dma_live := h + frag_blocks (2 ^ ps) tot (frags @ fs)\<rparr>) \<and>
          length fs = n \<and> (\<forall>(b, m) \<in> set fs. page_aligned ps m))"
  using assms
proof (induction n arbitrary: sz frags st)
  case 0
  then show ?case by (cases st) auto
next
  case (Suc n)
  let ?p = "2 ^ ps :: nat" and ?fs = "min sz (2 ^ ps)"
  let ?d = "dma (st\<lparr>dev_node := node\<rparr>) ?fs"
  have full: "frag_blocks ?p tot frags = image_mset (\<lambda>(b, m). (?p, b, m)) (mset (rev frags))"
    using frag_blocks_full [of ?p frags tot] Suc.prems(2) by simp
  have st: "st\<lparr>dma_live := h + image_mset (\<lambda>(b, m). (?p, b, m)) (mset (rev frags))\<rparr> = st"
    using Suc.prems(1) unfolding full by (cases st) simp
  have undo: "free_frags ?p (rev frags) st = Some (st\<lparr>dma_live := h\<rparr>)"
    using free_frags_all [of ?p "rev frags" h st] unfolding st .
  show ?case
  proof (cases ?d)
    case None
    then show ?thesis using undo by simp
  next
    case (Some bm)
    obtain b m where bm: "bm = (b, m)" by force
    show ?thesis
    proof (cases "page_aligned ps m")
      case False
      have "st\<lparr>dma_live := dma_live st\<rparr> = st" by (cases st) simp
      then show ?thesis using Some False undo bm by (simp add: page_aligned_def Let_def)
    next
      case True
      let ?st = "st\<lparr>dma_live := add_mset (?fs, b, m) (dma_live st)\<rparr>"
      have step: "frag_alloc_loop dma ps node (Suc n) sz frags st =
        frag_alloc_loop dma ps node n (sz - ?fs) (frags @ [(b, m)]) ?st"
        using Some True bm by (simp add: page_aligned_def Let_def)
      show ?thesis
      proof (cases n)
        case 0
        have "frag_blocks ?p tot (frags @ [(b, m)]) = add_mset (?fs, b, m) (frag_blocks ?p tot frags)"
          using Suc.prems(2) by (simp add: frag_blocks_snoc)
        then have "frag_alloc_loop dma ps node (Suc n) sz frags st = Some (Inr (frags @ [(b, m)]),
            st\<lparr>dma_live := h + frag_blocks ?p tot (frags @ [(b, m)])\<rparr>)"
          using step 0 Suc.prems(1) by simp
        then show ?thesis using 0 True by (intro disjI2 exI [of _ "[(b, m)]"]) simp
      next
        case (Suc k)
        then have big: "?p \<le> sz" using Suc.prems(3) by simp
        have "frag_alloc_loop dma ps node n (sz - ?fs) (frags @ [(b, m)]) ?st =
              Some (Inl ENOMEM, ?st\<lparr>dma_live := h\<rparr>) \<or>
          (\<exists>fs. frag_alloc_loop dma ps node n (sz - ?fs) (frags @ [(b, m)]) ?st =
            Some (Inr ((frags @ [(b, m)]) @ fs), ?st\<lparr>dma_live := h + frag_blocks ?p tot ((frags @ [(b, m)]) @ fs)\<rparr>) \<and>
            length fs = n \<and> (\<forall>(b, m) \<in> set fs. page_aligned ps m))"
        proof (rule Suc.IH)
          show "dma_live ?st = h + frag_blocks ?p tot (frags @ [(b, m)])"
            using Suc.prems(1,2) by (simp add: frag_blocks_snoc)
        qed (use Suc.prems big True in auto)
        then show ?thesis
        proof
          assume "\<exists>fs. frag_alloc_loop dma ps node n (sz - ?fs) (frags @ [(b, m)]) ?st =
            Some (Inr ((frags @ [(b, m)]) @ fs), ?st\<lparr>dma_live := h + frag_blocks ?p tot ((frags @ [(b, m)]) @ fs)\<rparr>) \<and>
            length fs = n \<and> (\<forall>(b, m) \<in> set fs. page_aligned ps m)"
          then obtain fs where "frag_alloc_loop dma ps node (Suc n) sz frags st =
            Some (Inr (frags @ (b, m) # fs), st\<lparr>dma_live := h + frag_blocks ?p tot (frags @ (b, m) # fs)\<rparr>)"
            "length fs = n" "\<forall>(b, m) \<in> set fs. page_aligned ps m"
            using step by auto
          then show ?thesis using True by (intro disjI2 exI [of _ "(b, m) # fs"]) simp
        qed (use step in simp)
      qed
    qed
  qed
qed


lemma div_round_up_pages: "0 < p \<Longrightarrow> p * div_round_up sz p < sz + p"
  unfolding div_round_up_def
  by (metis One_nat_def Suc_pred add_gr_0 div_times_less_eq_dividend le_imp_less_Suc mult.commute)

text \<open>
  \<open>mlx5_frag_buf_alloc_node\<close> allocates the whole buffer or nothing. Either it returns
  \<open>-ENOMEM\<close> and every block it had obtained is freed again, with the size it was allocated with,
  although the error path frees whole pages; or the buffer has a page-aligned fragment per page,
  and \<open>mlx5_frag_buf_free\<close> returns exactly the memory that was taken.
\<close>

theorem frag_buf_alloc_all_or_nothing:
  "mlx5_frag_buf_alloc_node dma kcalloc_ok ps sz node st = Some (Inl ENOMEM, st) \<or>
   (\<exists>buf st'. mlx5_frag_buf_alloc_node dma kcalloc_ok ps sz node st = Some (Inr buf, st') \<and>
      fb_npages buf = div_round_up sz (2 ^ ps) \<and> length (fb_frags buf) = fb_npages buf \<and>
      list_all (\<lambda>(b, m). page_aligned ps m) (fb_frags buf) \<and>
      mlx5_frag_buf_free ps buf st' = Some st)"
proof (cases kcalloc_ok)
  case True
  let ?n = "div_round_up sz (2 ^ ps)"
  have id: "st\<lparr>dma_live := dma_live st\<rparr> = st" by (cases st) simp
  consider "frag_alloc_loop dma ps node ?n sz [] st = Some (Inl ENOMEM, st)"
    | fs where "frag_alloc_loop dma ps node ?n sz [] st =
        Some (Inr fs, st\<lparr>dma_live := dma_live st + frag_blocks (2 ^ ps) sz fs\<rparr>)"
      "length fs = ?n" "\<forall>(b, m) \<in> set fs. page_aligned ps m"
    using frag_alloc_loop_all_or_nothing [of st "dma_live st" ps sz "[]" sz ?n dma node]
      div_round_up_pages [of "2 ^ ps" sz] id by auto
  then show ?thesis
  proof cases
    case 2
    then show ?thesis
      using True frag_free_loop_all [of "2 ^ ps" fs sz "dma_live st" st] id
      by (intro disjI2) (simp add: mlx5_frag_buf_alloc_node_def mlx5_frag_buf_free_def list_all_iff)
  qed (use True in \<open>simp add: mlx5_frag_buf_alloc_node_def\<close>)
qed (simp add: mlx5_frag_buf_alloc_node_def)

section \<open>Page lists\<close>

lemma low_bits_clear:
  assumes "page_aligned ps m" and "2 \<le> ps" and "ps < 64" and "n < 2"
  shows "\<not> bit m n"
proof
  assume "bit m n"
  moreover have "bit ((2 ^ ps - 1) :: u64) n"
    using assms(2-4) bit_mask_iff [of ps n, where ?'a = "64 word"] by (simp add: mask_eq_exp_minus_1)
  ultimately have "bit (m AND (2 ^ ps - 1)) n" by (simp add: bit_and_iff)
  then show False using assms(1) by (simp add: page_aligned_def)
qed

lemma bit_3_u64: "bit (3 :: u64) n \<longleftrightarrow> n < 2"
  using bit_mask_iff [of 2 n, where ?'a = "64 word"] by (auto simp: mask_eq_exp_minus_1)

text \<open>
  a page-list entry carries the address of the page and the permission bits without mixing
  them: with page-aligned fragments and a permission of two bits, every entry of the list has the
  bus address in its upper bits and the permission in the lower two; entries beyond the buffer
  are left alone.
\<close>

theorem fill_page_frag_array_entries:
  assumes "list_all (\<lambda>(b, m). page_aligned ps m) (fb_frags buf)" and "2 \<le> ps" and "ps < 64"
    and "unat perm < 4" and "fb_npages buf = length (fb_frags buf)" and "fb_npages buf \<le> length pas"
  shows "\<exists>pas'. mlx5_fill_page_frag_array_perm buf pas perm = Some pas' \<and> length pas' = length pas \<and>
    list_all (\<lambda>i. if i < fb_npages buf
       then pas' ! i AND NOT 3 = snd (fb_frags buf ! i) \<and> pas' ! i AND 3 = ucast perm
       else pas' ! i = pas ! i) [0..<length pas]"
proof -
  have "(m OR ucast perm) AND NOT 3 = m \<and> (m OR ucast perm) AND 3 = ucast perm" if "page_aligned ps m" for m :: u64
  proof -
    have l: "bit m n \<Longrightarrow> 2 \<le> n" for n using low_bits_clear [OF that assms(2,3), of n] by linarith
    have h: "bit perm n \<Longrightarrow> n < 2" for n using not_bit_of_less [of perm 2 n] assms(4) by (cases "2 \<le> n") auto
    define q :: u64 where "q = 3"
    have q: "bit q n \<longleftrightarrow> n < 2" for n unfolding q_def by (rule bit_3_u64)
    show ?thesis
      unfolding q_def [symmetric]
      by (auto intro!: bit_word_eqI simp: bit_and_iff bit_or_iff bit_ucast_iff bit_not_iff q not_less)
        (meson l h leD)+
  qed
  note entry = this
  have "(snd (fb_frags buf ! i) OR ucast perm) AND NOT 3 = snd (fb_frags buf ! i) \<and>
      (snd (fb_frags buf ! i) OR ucast perm) AND 3 = ucast perm" if "i < length (fb_frags buf)" for i
  proof -
    have "page_aligned ps (snd (fb_frags buf ! i))"
      using assms(1) that by (cases "fb_frags buf ! i") (fastforce simp: list_all_length)
    then show ?thesis by (rule entry)
  qed
  then show ?thesis
    using assms(5,6) by (auto simp: mlx5_fill_page_frag_array_perm_def nth_append case_prod_unfold list_all_iff)
qed


theorem fill_page_frag_array_entries_witness:
  "let buf = \<lparr>fb_frags = [(1, 0x1000), (2, 0x5000)], fb_npages = 2, fb_size = 8192, fb_page_shift = 12\<rparr> in
   \<exists>pas'. mlx5_fill_page_frag_array_perm buf [0, 0, 7] 3 = Some pas' \<and> length pas' = length [0, 0, 7 :: u64] \<and>
    list_all (\<lambda>i. if i < fb_npages buf
       then pas' ! i AND NOT 3 = snd (fb_frags buf ! i) \<and> pas' ! i AND 3 = ucast (3 :: u8)
       else pas' ! i = [0, 0, 7] ! i) [0..<length [0, 0, 7 :: u64]]"
  unfolding Let_def by (rule fill_page_frag_array_entries [where ps = 12]) (simp_all add: page_aligned_def)

section \<open>Doorbell records\<close>

text \<open>
  A doorbell page directory is known to its users by its address (\<open>pg_addr\<close>, the pointer in
  \<open>db->u.pgdir\<close>). \<open>pg_words\<close> are the 32-bit words of its page. A set bit of the bitmap is a free
  doorbell.
\<close>

record mlx5_db_pgdir =
  pg_addr :: nat
  pg_bitmap :: "bool list"
  pg_db_page :: nat
  pg_db_dma :: u64
  pg_words :: "u32 list"

record mlx5_db =
  db_word :: nat
  db_pgdir :: nat
  db_dma :: u64
  db_index :: nat

record db_state =
  pgdir_list :: "mlx5_db_pgdir list"
  db_mem :: dma_state

definition mlx5_alloc_db_pgdir ::
  "dma_fn \<Rightarrow> nat option \<Rightarrow> bool \<Rightarrow> nat \<Rightarrow> nat \<Rightarrow> int \<Rightarrow> dma_state \<Rightarrow> mlx5_db_pgdir option \<times> dma_state" where
  "mlx5_alloc_db_pgdir dma kzalloc bitmap_ok page_size cache_line node st =
     (let db_per_page = page_size div cache_line
      in case kzalloc of
           None \<Rightarrow> (None, st)
         | Some addr \<Rightarrow>
             if \<not> bitmap_ok then (None, st)
             else
               (case mlx5_dma_zalloc_coherent_node dma page_size node st of
                  (None, st) \<Rightarrow> (None, st)
                | (Some (page, dma_addr), st) \<Rightarrow>
                    (Some \<lparr>pg_addr = addr, pg_bitmap = replicate db_per_page True, pg_db_page = page,
                           pg_db_dma = dma_addr, pg_words = replicate (page_size div 4) 0\<rparr>, st)))"

definition mlx5_alloc_db_from_pgdir ::
  "nat \<Rightarrow> mlx5_db_pgdir \<Rightarrow> mlx5_db \<Rightarrow> (unit result \<times> mlx5_db_pgdir \<times> mlx5_db) option" where
  "mlx5_alloc_db_from_pgdir cache_line pgdir db =
     (case pick_set_bit (pg_bitmap pgdir) of
        None \<Rightarrow> Some (Inl ENOMEM, pgdir, db)
      | Some i \<Rightarrow>
          let offset = i * cache_line;
              db = \<lparr>db_word = offset div 4, db_pgdir = pg_addr pgdir,
                    db_dma = pg_db_dma pgdir + of_nat offset, db_index = i\<rparr>
          in do {
               ws \<leftarrow> arr_set (pg_words pgdir) (offset div 4) 0;
               ws \<leftarrow> arr_set ws (offset div 4 + 1) 0;
               Some (Inr (), pgdir\<lparr>pg_bitmap := clear_bit_at i (pg_bitmap pgdir), pg_words := ws\<rparr>, db)
             })"

text \<open>The search of \<open>mlx5_db_alloc_node\<close> through the list of page directories.\<close>

fun db_from_list ::
  "nat \<Rightarrow> mlx5_db_pgdir list \<Rightarrow> mlx5_db \<Rightarrow> (unit result \<times> mlx5_db_pgdir list \<times> mlx5_db) option" where
  "db_from_list cache_line [] db = Some (Inl ENOMEM, [], db)"
| "db_from_list cache_line (p # ps) db = do {
     (r, p, db) \<leftarrow> mlx5_alloc_db_from_pgdir cache_line p db;
     case r of
       Inr u \<Rightarrow> Some (Inr u, p # ps, db)
     | Inl e \<Rightarrow> map_option (\<lambda>(r, ps, db). (r, p # ps, db)) (db_from_list cache_line ps db)
   }"

definition mlx5_db_alloc_node ::
  "dma_fn \<Rightarrow> nat option \<Rightarrow> bool \<Rightarrow> nat \<Rightarrow> nat \<Rightarrow> int \<Rightarrow> mlx5_db \<Rightarrow> db_state \<Rightarrow>
     (unit result \<times> mlx5_db \<times> db_state) option" where
  "mlx5_db_alloc_node dma kzalloc bitmap_ok page_size cache_line node db st = do {
     (r, ps, db) \<leftarrow> db_from_list cache_line (pgdir_list st) db;
     case r of
       Inr u \<Rightarrow> Some (Inr u, db, st\<lparr>pgdir_list := ps\<rparr>)
     | Inl e \<Rightarrow>
         (case mlx5_alloc_db_pgdir dma kzalloc bitmap_ok page_size cache_line node (db_mem st) of
            (None, mem) \<Rightarrow> Some (Inl ENOMEM, db, st\<lparr>pgdir_list := ps, db_mem := mem\<rparr>)
          | (Some pgdir, mem) \<Rightarrow> do {
              (r, pgdir, db) \<leftarrow> mlx5_alloc_db_from_pgdir cache_line pgdir db;
              Some (Inr (), db, st\<lparr>pgdir_list := pgdir # ps, db_mem := mem\<rparr>)
            })
   }"

text \<open>\<open>None\<close> when the doorbell's page directory is not in the list.\<close>

fun db_release :: "mlx5_db \<Rightarrow> mlx5_db_pgdir list \<Rightarrow> (mlx5_db_pgdir option \<times> mlx5_db_pgdir list) option" where
  "db_release db [] = None"
| "db_release db (p # ps) =
     (if pg_addr p = db_pgdir db then
        if db_index db < length (pg_bitmap p) then
          let p = p\<lparr>pg_bitmap := set_bit_at (db_index db) (pg_bitmap p)\<rparr>
          in if bitmap_full (pg_bitmap p) then Some (Some p, ps) else Some (None, p # ps)
        else None
      else map_option (\<lambda>(f, ps). (f, p # ps)) (db_release db ps))"

definition mlx5_db_free :: "nat \<Rightarrow> mlx5_db \<Rightarrow> db_state \<Rightarrow> db_state option" where
  "mlx5_db_free page_size db st = do {
     (emptied, ps) \<leftarrow> db_release db (pgdir_list st);
     case emptied of
       None \<Rightarrow> Some (st\<lparr>pgdir_list := ps\<rparr>)
     | Some p \<Rightarrow> do {
         mem \<leftarrow> dma_free_coherent (page_size, pg_db_page p, pg_db_dma p) (db_mem st);
         Some (st\<lparr>pgdir_list := ps, db_mem := mem\<rparr>)
       }
   }"


section \<open>Doorbells are handed out once\<close>

text \<open>
  The bookkeeping the clients rely on: the doorbells that were allocated and not yet freed
  (\<open>live\<close>) are exactly the used bits of the page directories, none of which is empty.
\<close>

definition db_owned :: "mlx5_db list \<Rightarrow> mlx5_db_pgdir \<Rightarrow> nat set" where
  "db_owned live p = {db_index db | db. db \<in> set live \<and> db_pgdir db = pg_addr p}"

definition pgdir_ok :: "nat \<Rightarrow> nat \<Rightarrow> mlx5_db list \<Rightarrow> mlx5_db_pgdir \<Rightarrow> bool" where
  "pgdir_ok page_size cache_line live p \<longleftrightarrow>
     length (pg_bitmap p) = page_size div cache_line \<and> length (pg_words p) = page_size div 4 \<and>
     bits_off (pg_bitmap p) = db_owned live p"

definition db_key :: "mlx5_db \<Rightarrow> nat \<times> nat" where
  "db_key db = (db_pgdir db, db_index db)"

definition db_page_block :: "nat \<Rightarrow> mlx5_db_pgdir \<Rightarrow> dma_block" where
  "db_page_block page_size p = (page_size, pg_db_page p, pg_db_dma p)"

definition db_inv :: "nat \<Rightarrow> nat \<Rightarrow> dma_block multiset \<Rightarrow> db_state \<Rightarrow> mlx5_db list \<Rightarrow> bool" where
  "db_inv page_size cache_line others st live \<longleftrightarrow>
     distinct (map pg_addr (pgdir_list st)) \<and>
     (\<forall>p \<in> set (pgdir_list st). pgdir_ok page_size cache_line live p \<and> db_owned live p \<noteq> {}) \<and>
     distinct (map db_key live) \<and>
     (\<forall>db \<in> set live. \<exists>p \<in> set (pgdir_list st). pg_addr p = db_pgdir db \<and>
        db_dma db = pg_db_dma p + of_nat (db_index db * cache_line) \<and> db_word db = db_index db * cache_line div 4) \<and>
     dma_live (db_mem st) = others + image_mset (db_page_block page_size) (mset (pgdir_list st))"

definition geometry_ok :: "nat \<Rightarrow> nat \<Rightarrow> bool" where
  "geometry_ok page_size cache_line \<longleftrightarrow> 8 \<le> cache_line \<and> cache_line \<le> page_size"

lemma db_words_in_page:
  assumes "geometry_ok page_size cl" and "i < page_size div cl"
  shows "i * cl div 4 + 1 < page_size div 4"
proof -
  have "Suc i * cl \<le> page_size div cl * cl" using assms(2) by (intro mult_le_mono1) simp
  also have "\<dots> \<le> page_size" by simp
  finally have "i * cl + 8 \<le> page_size" using assms(1) by (simp add: geometry_ok_def)
  then have "(i * cl + 8) div 4 \<le> page_size div 4" by (rule div_le_mono)
  then show ?thesis by simp
qed

text \<open>One page directory: a doorbell is taken from it exactly when a bit is left.\<close>

lemma alloc_db_from_pgdir_cases:
  assumes "geometry_ok page_size cl"
    and "length (pg_bitmap p) = page_size div cl" and "length (pg_words p) = page_size div 4"
  obtains (full) "mlx5_alloc_db_from_pgdir cl p db = Some (Inl ENOMEM, p, db)" "bits_on (pg_bitmap p) = {}"
    | (ok) i ws where "mlx5_alloc_db_from_pgdir cl p db = Some (Inr (),
           p\<lparr>pg_bitmap := clear_bit_at i (pg_bitmap p), pg_words := ws\<rparr>,
           \<lparr>db_word = i * cl div 4, db_pgdir = pg_addr p, db_dma = pg_db_dma p + of_nat (i * cl), db_index = i\<rparr>)"
        "length ws = length (pg_words p)" "i < length (pg_bitmap p)" "i \<notin> bits_off (pg_bitmap p)"
proof (cases "pick_set_bit (pg_bitmap p)")
  case None
  then have "bits_on (pg_bitmap p) = {}"
    using fb.pick_none [OF None] by (auto simp: bits_on_def bits_off_def)
  then show ?thesis using None full by (simp add: mlx5_alloc_db_from_pgdir_def)
next
  case (Some i)
  note i = fb.pick_free [OF Some]
  have "i * cl div 4 + 1 < length (pg_words p)"
    using db_words_in_page [OF assms(1), of i] i assms(2,3) by simp
  then have "mlx5_alloc_db_from_pgdir cl p db = Some (Inr (),
      p\<lparr>pg_bitmap := clear_bit_at i (pg_bitmap p), pg_words := (pg_words p)[i * cl div 4 := 0, i * cl div 4 + 1 := 0]\<rparr>,
      \<lparr>db_word = i * cl div 4, db_pgdir = pg_addr p, db_dma = pg_db_dma p + of_nat (i * cl), db_index = i\<rparr>)"
    using Some by (simp add: mlx5_alloc_db_from_pgdir_def Let_def)
  then show ?thesis using ok i by simp
qed

text \<open>What a successful allocation from a list of page directories changes.\<close>

definition db_taken :: "nat \<Rightarrow> mlx5_db \<Rightarrow> mlx5_db_pgdir \<Rightarrow> mlx5_db_pgdir \<Rightarrow> bool" where
  "db_taken cl db p p' \<longleftrightarrow> pg_addr p' = pg_addr p \<and> pg_db_page p' = pg_db_page p \<and> pg_db_dma p' = pg_db_dma p \<and>
     length (pg_words p') = length (pg_words p) \<and> db_pgdir db = pg_addr p \<and>
     db_dma db = pg_db_dma p + of_nat (db_index db * cl) \<and> db_word db = db_index db * cl div 4 \<and>
     db_index db < length (pg_bitmap p) \<and> db_index db \<notin> bits_off (pg_bitmap p) \<and>
     pg_bitmap p' = clear_bit_at (db_index db) (pg_bitmap p)"

lemma db_from_list_cases:
  assumes "geometry_ok page_size cl"
    and "\<forall>p \<in> set ps. length (pg_bitmap p) = page_size div cl \<and> length (pg_words p) = page_size div 4"
  shows "db_from_list cl ps db = Some (Inl ENOMEM, ps, db) \<or>
    (\<exists>as p p' bs db'. ps = as @ p # bs \<and> db_from_list cl ps db = Some (Inr (), as @ p' # bs, db') \<and> db_taken cl db' p p')"
  using assms(2)
proof (induction ps)
  case (Cons p ps)
  have p: "length (pg_bitmap p) = page_size div cl" "length (pg_words p) = page_size div 4"
    using Cons.prems by auto
  show ?case
  proof (cases rule: alloc_db_from_pgdir_cases [OF assms(1) p, of db])
    case 1
    note full = this
    from Cons consider "db_from_list cl ps db = Some (Inl ENOMEM, ps, db)"
      | as q q' bs db' where "ps = as @ q # bs" "db_from_list cl ps db = Some (Inr (), as @ q' # bs, db')" "db_taken cl db' q q'"
      by auto
    then show ?thesis
    proof cases
      case 2
      then have "p # ps = (p # as) @ q # bs \<and>
        db_from_list cl (p # ps) db = Some (Inr (), (p # as) @ q' # bs, db') \<and> db_taken cl db' q q'"
        using full(1) by simp
      then show ?thesis by blast
    qed (use full(1) in simp)
  next
    case (2 i ws)
    note ok = this
    let ?p = "p\<lparr>pg_bitmap := clear_bit_at i (pg_bitmap p), pg_words := ws\<rparr>"
    let ?db = "\<lparr>db_word = i * cl div 4, db_pgdir = pg_addr p, db_dma = pg_db_dma p + of_nat (i * cl), db_index = i\<rparr>"
    have "p # ps = [] @ p # ps \<and> db_from_list cl (p # ps) db = Some (Inr (), [] @ ?p # ps, ?db) \<and> db_taken cl ?db p ?p"
      using ok by (simp add: db_taken_def)
    then show ?thesis by blast
  qed
qed simp


lemma db_owned_Cons:
  "db_owned (db # live) p = (if db_pgdir db = pg_addr p then insert (db_index db) (db_owned live p) else db_owned live p)"
  by (auto simp: db_owned_def)

lemma db_owned_cong: "pg_addr p = pg_addr q \<Longrightarrow> db_owned live p = db_owned live q"
  by (simp add: db_owned_def)

lemma pgdir_ok_other: "db_pgdir db \<noteq> pg_addr q \<Longrightarrow> pgdir_ok ps cl (db # live) q = pgdir_ok ps cl live q"
  by (simp add: pgdir_ok_def db_owned_Cons)

lemma db_taken_inv:
  assumes "distinct (map pg_addr (as @ p # bs))" and "pgdir_ok page_size cl live p"
    and "\<forall>q \<in> set (as @ bs). pgdir_ok page_size cl live q \<and> db_owned live q \<noteq> {}"
    and "distinct (map db_key live)"
    and "\<forall>db \<in> set live. \<exists>q \<in> set (as @ p # bs). pg_addr q = db_pgdir db \<and>
        db_dma db = pg_db_dma q + of_nat (db_index db * cl) \<and> db_word db = db_index db * cl div 4"
    and "dma_live mem = others + image_mset (db_page_block page_size) (mset (as @ p # bs))"
    and "db_taken cl db p p'"
  shows "db_inv page_size cl others \<lparr>pgdir_list = as @ p' # bs, db_mem = mem\<rparr> (db # live)"
proof -
  have t: "pg_addr p' = pg_addr p" "db_pgdir db = pg_addr p" "pg_db_dma p' = pg_db_dma p"
    "db_index db < length (pg_bitmap p)" "db_index db \<notin> db_owned live p"
    "bits_off (pg_bitmap p') = insert (db_index db) (bits_off (pg_bitmap p))"
    using assms(2,7) by (auto simp: db_taken_def pgdir_ok_def bits_off_clear)
  have "db_key db \<notin> db_key ` set live"
    using t(2,5) by (auto simp: db_key_def db_owned_def)
  moreover have "pgdir_ok page_size cl (db # live) p'"
    using assms(2,7) t by (simp add: pgdir_ok_def db_taken_def db_owned_Cons db_owned_cong [OF t(1)])
  moreover have "pgdir_ok page_size cl (db # live) q \<and> db_owned (db # live) q \<noteq> {}" if "q \<in> set (as @ bs)" for q
  proof -
    have "pg_addr q \<in> pg_addr ` set (as @ bs)" using that by blast
    then have "pg_addr q \<noteq> pg_addr p" using assms(1) by auto
    then show ?thesis using assms(3) that t(2) by (auto simp: pgdir_ok_other db_owned_Cons)
  qed
  moreover have "\<exists>q \<in> set (as @ p' # bs). pg_addr q = db_pgdir d \<and>
        db_dma d = pg_db_dma q + of_nat (db_index d * cl) \<and> db_word d = db_index d * cl div 4"
    if "d \<in> set (db # live)" for d
    using that assms(5,7) t by (fastforce simp: db_taken_def)
  moreover have "db_page_block page_size p' = db_page_block page_size p"
    using assms(7) by (simp add: db_page_block_def db_taken_def)
  ultimately show ?thesis
    using assms(1,4,6) t(1,2) by (auto simp: db_inv_def db_owned_Cons)
qed

text \<open>The address of a new page directory differs from those in use.\<close>

definition fresh_addr :: "nat option \<Rightarrow> db_state \<Rightarrow> bool" where
  "fresh_addr kzalloc st \<longleftrightarrow> (\<forall>a. kzalloc = Some a \<longrightarrow> a \<notin> pg_addr ` set (pgdir_list st))"

lemma db_state_eta: "\<lparr>pgdir_list = pgdir_list st, db_mem = db_mem st\<rparr> = st"
  by (cases st) simp

lemma db_alloc_inv:
  assumes geo: "geometry_ok page_size cl" and inv: "db_inv page_size cl others st live"
    and fresh: "fresh_addr kzalloc st"
  shows "(\<exists>db' st'. mlx5_db_alloc_node dma kzalloc bm page_size cl node db st = Some (Inr (), db', st') \<and>
            db_inv page_size cl others st' (db' # live)) \<or>
         mlx5_db_alloc_node dma kzalloc bm page_size cl node db st = Some (Inl ENOMEM, db, st)"
proof -
  let ?ps = "pgdir_list st"
  have shapes: "\<forall>p \<in> set ?ps. length (pg_bitmap p) = page_size div cl \<and> length (pg_words p) = page_size div 4"
    using inv by (auto simp: db_inv_def pgdir_ok_def)
  from db_from_list_cases [OF geo this, of db]
  consider (none) "db_from_list cl ?ps db = Some (Inl ENOMEM, ?ps, db)"
    | (some) as p p' bs db' where "?ps = as @ p # bs" "db_from_list cl ?ps db = Some (Inr (), as @ p' # bs, db')"
        "db_taken cl db' p p'" by blast
  then show ?thesis
  proof cases
    case some
    have "db_inv page_size cl others \<lparr>pgdir_list = as @ p' # bs, db_mem = db_mem st\<rparr> (db' # live)"
      using inv some(1,3) by (intro db_taken_inv [where p = p]) (auto simp: db_inv_def)
    then show ?thesis using some(2) by (cases st) (simp add: mlx5_db_alloc_node_def)
  next
    case none
    show ?thesis
    proof (cases "mlx5_alloc_db_pgdir dma kzalloc bm page_size cl node (db_mem st)")
      case (Pair r mem)
      show ?thesis
      proof (cases r)
        case None
        then have "mem = db_mem st"
          using Pair by (auto simp: mlx5_alloc_db_pgdir_def Let_def split: option.splits if_splits)
        then show ?thesis using none Pair None by (simp add: mlx5_db_alloc_node_def)
      next
        case (Some p)
        then obtain a page m where p: "p = \<lparr>pg_addr = a, pg_bitmap = replicate (page_size div cl) True,
            pg_db_page = page, pg_db_dma = m, pg_words = replicate (page_size div 4) 0\<rparr>" "kzalloc = Some a"
          "mem = (db_mem st)\<lparr>dma_live := add_mset (page_size, page, m) (dma_live (db_mem st))\<rparr>"
          using Pair by (auto simp: mlx5_alloc_db_pgdir_def Let_def split: option.splits if_splits)
        have new: "a \<notin> pg_addr ` set ?ps" using fresh p(2) by (auto simp: fresh_addr_def)
        have pos: "0 < page_size div cl" using geo by (simp add: geometry_ok_def div_greater_zero_iff)
        have "db_pgdir d \<in> pg_addr ` set ?ps" if "d \<in> set live" for d
          using inv that unfolding db_inv_def by (metis imageI)
        then have own: "db_owned live p = {}"
          using new p(1) by (auto simp: db_owned_def)
        obtain p' db' where a: "mlx5_alloc_db_from_pgdir cl p db = Some (Inr (), p', db')" "db_taken cl db' p p'"
        proof (cases rule: alloc_db_from_pgdir_cases [OF geo, of p db])
          case 3 then show ?thesis using pos p(1) by auto
        next
          case (4 i ws) then show ?thesis using that by (simp add: db_taken_def)
        qed (use p(1) in simp_all)
        have "db_inv page_size cl others \<lparr>pgdir_list = [] @ p' # ?ps, db_mem = mem\<rparr> (db' # live)"
          using inv new own p a(2) by (intro db_taken_inv [where p = p])
            (auto simp: db_inv_def pgdir_ok_def db_page_block_def)
        then show ?thesis using none Pair Some a(1) by (cases st) (simp add: mlx5_db_alloc_node_def)
      qed
    qed
  qed
qed


lemma db_release_split:
  assumes "\<forall>q \<in> set as. pg_addr q \<noteq> db_pgdir db" and "pg_addr p = db_pgdir db"
    and "db_index db < length (pg_bitmap p)"
  shows "db_release db (as @ p # bs) =
    (let p = p\<lparr>pg_bitmap := set_bit_at (db_index db) (pg_bitmap p)\<rparr>
     in if bitmap_full (pg_bitmap p) then Some (Some p, as @ bs) else Some (None, as @ p # bs))"
  using assms by (induction as) (auto simp: Let_def)

lemma db_owned_remove1:
  assumes "distinct (map db_key live)" and "db \<in> set live"
  shows "db_owned (remove1 db live) p =
    (if pg_addr p = db_pgdir db then db_owned live p - {db_index db} else db_owned live p)"
proof -
  have "set (remove1 db live) = set live - {db}"
    using assms(1) by (simp add: distinct_map set_remove1_eq)
  moreover have "d = db" if "d \<in> set live" "db_pgdir d = db_pgdir db" "db_index d = db_index db" for d
    using assms that by (auto simp: distinct_map db_key_def inj_on_def)
  ultimately show ?thesis using assms(2) by (auto simp: db_owned_def)
qed

lemma db_free_inv:
  assumes inv: "db_inv page_size cl others st live" and db: "db \<in> set live"
  shows "\<exists>st'. mlx5_db_free page_size db st = Some st' \<and> db_inv page_size cl others st' (remove1 db live)"
proof -
  have dk: "distinct (map db_key live)" using inv by (simp add: db_inv_def)
  note owned = db_owned_remove1 [OF dk db]
  obtain p where p: "p \<in> set (pgdir_list st)" "pg_addr p = db_pgdir db"
    using inv db unfolding db_inv_def by blast
  then obtain as bs where ps: "pgdir_list st = as @ p # bs" by (meson split_list)
  have da: "distinct (map pg_addr (as @ p # bs))" using inv ps by (simp add: db_inv_def)
  have other: "pg_addr q \<noteq> db_pgdir db" if "q \<in> set (as @ bs)" for q
  proof -
    have "pg_addr q \<in> pg_addr ` set (as @ bs)" using that by blast
    then show ?thesis using da p(2) by auto
  qed
  have ok: "pgdir_ok page_size cl live p" using inv p(1) by (simp add: db_inv_def)
  have i: "db_index db \<in> bits_off (pg_bitmap p)"
    using ok db p(2) by (auto simp: pgdir_ok_def db_owned_def)
  then have il: "db_index db < length (pg_bitmap p)" by (simp add: bits_off_def)
  define p' where "p' = p\<lparr>pg_bitmap := set_bit_at (db_index db) (pg_bitmap p)\<rparr>"
  have p': "pg_addr p' = pg_addr p" "pg_db_dma p' = pg_db_dma p" "db_page_block page_size p' = db_page_block page_size p"
    "bits_off (pg_bitmap p') = db_owned (remove1 db live) p'"
    "length (pg_bitmap p') = length (pg_bitmap p)" "length (pg_words p') = length (pg_words p)"
    using ok owned p(2) db_owned_cong [of p' p live]
    by (simp_all add: p'_def db_page_block_def bits_off_set pgdir_ok_def)
  have rel: "db_release db (pgdir_list st) =
    (if bitmap_full (pg_bitmap p') then Some (Some p', as @ bs) else Some (None, as @ p' # bs))"
    using db_release_split [of as db p bs] other p(2) il ps by (simp add: p'_def Let_def)
  have rest: "pgdir_ok page_size cl (remove1 db live) q \<and> db_owned (remove1 db live) q \<noteq> {}"
    if "q \<in> set (as @ bs)" for q
    using inv that other [OF that] ps owned by (auto simp: db_inv_def pgdir_ok_def)
  have home: "\<exists>q \<in> set (as @ p' # bs). pg_addr q = db_pgdir d \<and>
        db_dma d = pg_db_dma q + of_nat (db_index d * cl) \<and> db_word d = db_index d * cl div 4"
    if d: "d \<in> set (remove1 db live)" for d
  proof -
    have "d \<in> set live" using d notin_set_remove1 by fastforce
    then have "\<exists>q \<in> set (as @ p # bs). pg_addr q = db_pgdir d \<and>
        db_dma d = pg_db_dma q + of_nat (db_index d * cl) \<and> db_word d = db_index d * cl div 4"
      using inv ps unfolding db_inv_def by simp
    then show ?thesis using p'(1,2) by auto
  qed
  have dk': "distinct (map db_key (remove1 db live))"
    using dk by (auto simp: distinct_map intro: inj_on_diff)
  have mem: "dma_live (db_mem st) = others + image_mset (db_page_block page_size) (mset (as @ p # bs))"
    using inv ps by (simp add: db_inv_def)
  show ?thesis
  proof (cases "bitmap_full (pg_bitmap p')")
    case False
    then have "db_owned (remove1 db live) p' \<noteq> {}" using p'(4) by (simp add: bitmap_full_iff)
    then have "db_inv page_size cl others (st\<lparr>pgdir_list := as @ p' # bs\<rparr>) (remove1 db live)"
      using da dk' mem p' rest home ok by (auto simp: db_inv_def pgdir_ok_def)
    then show ?thesis using rel False by (simp add: mlx5_db_free_def)
  next
    case True
    then have empty: "db_owned (remove1 db live) p' = {}" using p'(4) by (simp add: bitmap_full_iff)
    let ?mem = "(db_mem st)\<lparr>dma_live := others + image_mset (db_page_block page_size) (mset (as @ bs))\<rparr>"
    have "dma_free_coherent (page_size, pg_db_page p', pg_db_dma p') (db_mem st) = Some ?mem"
      using mem by (simp add: dma_free_coherent_def db_page_block_def p'_def)
    moreover have "\<exists>q \<in> set (as @ bs). pg_addr q = db_pgdir d \<and>
        db_dma d = pg_db_dma q + of_nat (db_index d * cl) \<and> db_word d = db_index d * cl div 4"
      if d: "d \<in> set (remove1 db live)" for d
      using home [OF d] empty d by (auto simp: db_owned_def)
    then have "db_inv page_size cl others (st\<lparr>pgdir_list := as @ bs, db_mem := ?mem\<rparr>) (remove1 db live)"
      using da dk' rest by (auto simp: db_inv_def)
    ultimately show ?thesis using rel True by (simp add: mlx5_db_free_def)
  qed
qed

text \<open>
  The history of a device's doorbells: allocations and frees of live doorbells in any order, with
  any outcome of the memory allocators. \<open>live\<close> collects the doorbells in use.
\<close>

inductive db_run :: "nat \<Rightarrow> nat \<Rightarrow> dma_state \<Rightarrow> db_state \<Rightarrow> mlx5_db list \<Rightarrow> bool"
  for page_size cl mem0 where
  db_run_init: "db_run page_size cl mem0 \<lparr>pgdir_list = [], db_mem = mem0\<rparr> []"
| db_run_alloc: "db_run page_size cl mem0 st live \<Longrightarrow> fresh_addr kzalloc st \<Longrightarrow>
    mlx5_db_alloc_node dma kzalloc bm page_size cl node db0 st = Some (Inr (), db, st') \<Longrightarrow>
    db_run page_size cl mem0 st' (db # live)"
| db_run_fail: "db_run page_size cl mem0 st live \<Longrightarrow> fresh_addr kzalloc st \<Longrightarrow>
    mlx5_db_alloc_node dma kzalloc bm page_size cl node db0 st = Some (Inl e, db, st') \<Longrightarrow>
    db_run page_size cl mem0 st' live"
| db_run_free: "db_run page_size cl mem0 st live \<Longrightarrow> db \<in> set live \<Longrightarrow>
    mlx5_db_free page_size db st = Some st' \<Longrightarrow> db_run page_size cl mem0 st' (remove1 db live)"

lemma db_run_inv:
  assumes "db_run page_size cl mem0 st live" and geo: "geometry_ok page_size cl"
  shows "db_inv page_size cl (dma_live mem0) st live"
  using assms(1)
proof induction
  case db_run_init
  then show ?case by (simp add: db_inv_def)
next
  case (db_run_alloc st live kz dma bm node db0 db st')
  then show ?case using db_alloc_inv [OF geo db_run_alloc.IH db_run_alloc.hyps(2), of dma bm node db0] by auto
next
  case (db_run_fail st live kz dma bm node db0 e db st')
  then show ?case using db_alloc_inv [OF geo db_run_fail.IH db_run_fail.hyps(2), of dma bm node db0] by auto
next
  case (db_run_free st live db st')
  then show ?case using db_free_inv [OF db_run_free.IH db_run_free.hyps(2)] by auto
qed


text \<open>
  C6: no doorbell record is handed out twice. Whatever allocations and frees happened, the
  doorbells in use have pairwise different slots, each slot is a whole cache line of its page
  directory with its two words inside the page, and its bus address is that of the slot.
\<close>

theorem db_no_double_allocation:
  assumes "db_run page_size cl mem0 st live" and "geometry_ok page_size cl"
  shows "distinct (map (\<lambda>db. (db_pgdir db, db_index db)) live) \<and>
    list_all (\<lambda>db. \<exists>p \<in> set (pgdir_list st). pg_addr p = db_pgdir db \<and>
       (db_index db + 1) * cl \<le> page_size \<and> db_word db + 1 < length (pg_words p) \<and>
       \<not> pg_bitmap p ! db_index db \<and> db_dma db = pg_db_dma p + of_nat (db_index db * cl)) live"
  unfolding list_all_iff
proof (intro conjI ballI)
  note inv = db_run_inv [OF assms]
  show "distinct (map (\<lambda>db. (db_pgdir db, db_index db)) live)"
    using inv by (simp add: db_inv_def db_key_def [abs_def])
  fix db assume db: "db \<in> set live"
  then obtain p where p: "p \<in> set (pgdir_list st)" "pg_addr p = db_pgdir db"
    "db_dma db = pg_db_dma p + of_nat (db_index db * cl)" "db_word db = db_index db * cl div 4"
    using inv unfolding db_inv_def by blast
  then have ok: "pgdir_ok page_size cl live p" using inv by (simp add: db_inv_def)
  then have "db_index db \<in> bits_off (pg_bitmap p)" using db p(2) by (auto simp: pgdir_ok_def db_owned_def)
  then have i: "db_index db < page_size div cl" "\<not> pg_bitmap p ! db_index db"
    using ok by (auto simp: bits_off_def pgdir_ok_def)
  have "(db_index db + 1) * cl \<le> page_size div cl * cl" using i(1) by (intro mult_le_mono1) simp
  also have "\<dots> \<le> page_size" by simp
  finally have "(db_index db + 1) * cl \<le> page_size" .
  moreover have "db_word db + 1 < length (pg_words p)"
    using db_words_in_page [OF assms(2) i(1)] p(4) ok by (simp add: pgdir_ok_def)
  ultimately show "\<exists>p \<in> set (pgdir_list st). pg_addr p = db_pgdir db \<and>
       (db_index db + 1) * cl \<le> page_size \<and> db_word db + 1 < length (pg_words p) \<and>
       \<not> pg_bitmap p ! db_index db \<and> db_dma db = pg_db_dma p + of_nat (db_index db * cl)"
    using p i(2) by blast
qed

text \<open>Two doorbells from one page, for evaluation: a page of two slots.\<close>

definition sample_mem :: dma_state where
  "sample_mem = \<lparr>dev_node = 0, dma_live = {#}\<rparr>"

definition sample_db :: "nat \<Rightarrow> mlx5_db" where
  "sample_db i = \<lparr>db_word = 2 * i, db_pgdir = 7, db_dma = 0x1000 + of_nat (8 * i), db_index = i\<rparr>"

definition sample_dbs :: "bool list \<Rightarrow> db_state" where
  "sample_dbs bm = \<lparr>pgdir_list = [\<lparr>pg_addr = 7, pg_bitmap = bm, pg_db_page = 1, pg_db_dma = 0x1000,
       pg_words = [0, 0, 0, 0]\<rparr>],
     db_mem = \<lparr>dev_node = 0, dma_live = {#(16, 1, 0x1000)#}\<rparr>\<rparr>"

lemmas sample_defs = sample_mem_def sample_db_def sample_dbs_def mlx5_db_alloc_node_def mlx5_alloc_db_pgdir_def
  mlx5_alloc_db_from_pgdir_def pick_set_bit_def clear_bit_at_def Let_def

lemma sample_db_run: "db_run 16 8 sample_mem (sample_dbs [False, False]) [sample_db 1, sample_db 0]"
proof -
  let ?dma = "\<lambda>st sz. Some (1, 0x1000)"
  have "replicate 2 True = [True, True]" "replicate 4 (0 :: u32) = [0, 0, 0, 0]"
    by (simp_all add: numeral_eq_Suc)
  then have "mlx5_db_alloc_node ?dma (Some 7) True 16 8 0 (sample_db 5) \<lparr>pgdir_list = [], db_mem = sample_mem\<rparr> =
      Some (Inr (), sample_db 0, sample_dbs [False, True])"
    by (simp add: sample_defs)
  then have "db_run 16 8 sample_mem (sample_dbs [False, True]) [sample_db 0]"
    by (rule db_run_alloc [OF db_run_init, rotated]) (simp add: fresh_addr_def)
  moreover have "mlx5_db_alloc_node ?dma None True 16 8 0 (sample_db 5) (sample_dbs [False, True]) =
      Some (Inr (), sample_db 1, sample_dbs [False, False])"
    by (simp add: sample_defs)
  moreover have "fresh_addr None (sample_dbs [False, True])" by (simp add: fresh_addr_def)
  ultimately show ?thesis using db_run_alloc by blast
qed


theorem db_no_double_allocation_witness:
  "distinct (map (\<lambda>db. (db_pgdir db, db_index db)) [sample_db 1, sample_db 0]) \<and>
    list_all (\<lambda>db. \<exists>p \<in> set (pgdir_list (sample_dbs [False, False])). pg_addr p = db_pgdir db \<and>
       (db_index db + 1) * 8 \<le> 16 \<and> db_word db + 1 < length (pg_words p) \<and>
       \<not> pg_bitmap p ! db_index db \<and> db_dma db = pg_db_dma p + of_nat (db_index db * 8)) [sample_db 1, sample_db 0]"
  by (rule db_no_double_allocation [OF sample_db_run]) (simp add: geometry_ok_def)

text \<open>
  The doorbell allocator makes progress and does not leak. In every reachable state an
  allocation returns a doorbell or \<open>-ENOMEM\<close> with the state unchanged (the \<open>WARN_ON\<close> on a fresh
  page cannot fire), every doorbell in use can be freed, and once all of them are freed no page
  directory is left and the device holds the DMA memory it started with.
\<close>

theorem db_progress_no_leak:
  assumes "db_run page_size cl mem0 st live" and "geometry_ok page_size cl" and "fresh_addr kzalloc st"
  shows "((\<exists>db' st'. mlx5_db_alloc_node dma kzalloc bm page_size cl node db st = Some (Inr (), db', st') \<and>
         (db_pgdir db', db_index db') \<notin> (\<lambda>d. (db_pgdir d, db_index d)) ` set live) \<or>
      mlx5_db_alloc_node dma kzalloc bm page_size cl node db st = Some (Inl ENOMEM, db, st)) \<and>
    list_all (\<lambda>db. mlx5_db_free page_size db st \<noteq> None) live \<and>
    (live = [] \<longrightarrow> pgdir_list st = [] \<and> dma_live (db_mem st) = dma_live mem0)"
  unfolding list_all_iff
proof (intro conjI impI ballI)
  note inv = db_run_inv [OF assms(1,2)]
  show "(\<exists>db' st'. mlx5_db_alloc_node dma kzalloc bm page_size cl node db st = Some (Inr (), db', st') \<and>
         (db_pgdir db', db_index db') \<notin> (\<lambda>d. (db_pgdir d, db_index d)) ` set live) \<or>
      mlx5_db_alloc_node dma kzalloc bm page_size cl node db st = Some (Inl ENOMEM, db, st)"
    using db_alloc_inv [OF assms(2) inv assms(3), of dma bm node db] by (auto simp: db_inv_def db_key_def)
  show "mlx5_db_free page_size d st \<noteq> None" if "d \<in> set live" for d
    using db_free_inv [OF inv that] by auto
  have "pgdir_list st = []" if "live = []"
    using inv that by (cases "pgdir_list st") (auto simp: db_inv_def db_owned_def)
  then show "live = [] \<Longrightarrow> pgdir_list st = []" "live = [] \<Longrightarrow> dma_live (db_mem st) = dma_live mem0"
    using inv by (simp_all add: db_inv_def)
qed

theorem db_progress_no_leak_witness:
  "((\<exists>db' st'. mlx5_db_alloc_node (\<lambda>st sz. Some (2, 0x2000)) (Some 8) True 16 8 0 (sample_db 5)
            (sample_dbs [False, False]) = Some (Inr (), db', st') \<and>
         (db_pgdir db', db_index db') \<notin> (\<lambda>d. (db_pgdir d, db_index d)) ` set [sample_db 1, sample_db 0]) \<or>
      mlx5_db_alloc_node (\<lambda>st sz. Some (2, 0x2000)) (Some 8) True 16 8 0 (sample_db 5) (sample_dbs [False, False]) =
        Some (Inl ENOMEM, sample_db 5, sample_dbs [False, False])) \<and>
    list_all (\<lambda>db. mlx5_db_free 16 db (sample_dbs [False, False]) \<noteq> None) [sample_db 1, sample_db 0]"
proof -
  have "fresh_addr (Some 8) (sample_dbs [False, False])" by (simp add: fresh_addr_def sample_dbs_def)
  then show ?thesis
    using db_progress_no_leak [OF sample_db_run, of "Some 8" "\<lambda>st sz. Some (2, 0x2000)" True 0 "sample_db 5"]
    by (simp add: geometry_ok_def)
qed

end
