(* ===== verification/Rmpp_Recv.thy ===== *)
theory Rmpp_Recv
  imports Kern_Prelude "HOL-Library.Multiset"
begin

unbundle bit_operations_syntax

text \<open>
  The receive side of the reliable multi-packet protocol for management datagrams,
  \<open>drivers/infiniband/core/mad_rmpp.c\<close>. The code has two locks, the agent's around
  the list of transactions and a transaction's own around its segments. Here a handler is one step on the agent's
  state, so that handlers run one after the other; \<open>Rmpp_Race\<close> divides the two handlers that
  examine one transaction under different locks. The outcome of memory allocation, address-handle creation and posting a
  datagram is given by an environment. What a handler emits is logged in the agent: the datagrams
  it posts, the received datagrams it frees (by address) and the address handles it destroys.
  Big-endian header fields are held as their value; a C \<open>int\<close> made from a 32-bit field is its
  signed reading. Counters are unbounded integers.
\<close>

section \<open>Datagrams\<close>

record ib_mad_hdr =
  base_version :: u8
  mgmt_class :: u8
  class_version :: u8
  mad_method :: u8
  mad_status :: u16
  class_specific :: u16
  mad_tid :: u64
  attr_id :: u16
  mad_resv :: u16
  attr_mod :: u32

record ib_rmpp_hdr =
  rmpp_version :: u8
  rmpp_type :: u8
  rmpp_rtime_flags :: u8
  rmpp_status :: u8
  hdr_seg_num :: u32
  paylen_newwin :: u32

record ib_rmpp_mad =
  mad_hdr :: ib_mad_hdr
  rmpp_hdr :: ib_rmpp_hdr
  mad_data :: "u8 list"

text \<open>A received datagram in its buffer, and the work completion that describes it.\<close>

record ib_mad_recv_buf =
  rb_addr :: nat
  rb_mad :: ib_rmpp_mad

record ib_mad_recv_wc =
  wc_src_qp :: u32
  wc_slid :: u32
  wc_pkey_index :: u16
  recv_buf :: ib_mad_recv_buf
  rmpp_list :: "ib_mad_recv_buf list"
  mad_len :: int

definition IB_MGMT_RMPP_VERSION :: u8 where "IB_MGMT_RMPP_VERSION = 1"
definition IB_MGMT_RMPP_TYPE_DATA :: u8 where "IB_MGMT_RMPP_TYPE_DATA = 1"
definition IB_MGMT_RMPP_TYPE_ACK :: u8 where "IB_MGMT_RMPP_TYPE_ACK = 2"
definition IB_MGMT_RMPP_TYPE_STOP :: u8 where "IB_MGMT_RMPP_TYPE_STOP = 3"
definition IB_MGMT_RMPP_TYPE_ABORT :: u8 where "IB_MGMT_RMPP_TYPE_ABORT = 4"
definition IB_MGMT_RMPP_FLAG_ACTIVE :: u8 where "IB_MGMT_RMPP_FLAG_ACTIVE = 1"
definition IB_MGMT_RMPP_FLAG_FIRST :: u8 where "IB_MGMT_RMPP_FLAG_FIRST = 2"
definition IB_MGMT_RMPP_FLAG_LAST :: u8 where "IB_MGMT_RMPP_FLAG_LAST = 4"
definition IB_MGMT_METHOD_RESP :: u8 where "IB_MGMT_METHOD_RESP = 0x80"
definition IB_MGMT_RMPP_STATUS_RESX :: u8 where "IB_MGMT_RMPP_STATUS_RESX = 1"
definition IB_MGMT_RMPP_STATUS_ABORT_MIN :: u8 where "IB_MGMT_RMPP_STATUS_ABORT_MIN = 118"
definition IB_MGMT_RMPP_STATUS_T2L :: u8 where "IB_MGMT_RMPP_STATUS_T2L = 118"
definition IB_MGMT_RMPP_STATUS_BAD_SEG :: u8 where "IB_MGMT_RMPP_STATUS_BAD_SEG = 120"
definition IB_MGMT_RMPP_STATUS_BADT :: u8 where "IB_MGMT_RMPP_STATUS_BADT = 121"
definition IB_MGMT_RMPP_STATUS_W2S :: u8 where "IB_MGMT_RMPP_STATUS_W2S = 122"
definition IB_MGMT_RMPP_STATUS_S2B :: u8 where "IB_MGMT_RMPP_STATUS_S2B = 123"
definition IB_MGMT_RMPP_STATUS_BAD_STATUS :: u8 where "IB_MGMT_RMPP_STATUS_BAD_STATUS = 124"
definition IB_MGMT_RMPP_STATUS_UNV :: u8 where "IB_MGMT_RMPP_STATUS_UNV = 125"
definition IB_MGMT_RMPP_STATUS_ABORT_MAX :: u8 where "IB_MGMT_RMPP_STATUS_ABORT_MAX = 127"
definition OPA_MGMT_BASE_VERSION :: u8 where "OPA_MGMT_BASE_VERSION = 0x80"

lemmas rmpp_consts [flag_defs] = IB_MGMT_RMPP_VERSION_def IB_MGMT_RMPP_TYPE_DATA_def IB_MGMT_RMPP_TYPE_ACK_def
  IB_MGMT_RMPP_TYPE_STOP_def IB_MGMT_RMPP_TYPE_ABORT_def IB_MGMT_RMPP_FLAG_ACTIVE_def
  IB_MGMT_RMPP_FLAG_FIRST_def IB_MGMT_RMPP_FLAG_LAST_def IB_MGMT_METHOD_RESP_def
  IB_MGMT_RMPP_STATUS_RESX_def IB_MGMT_RMPP_STATUS_ABORT_MIN_def IB_MGMT_RMPP_STATUS_T2L_def
  IB_MGMT_RMPP_STATUS_BAD_SEG_def IB_MGMT_RMPP_STATUS_BADT_def IB_MGMT_RMPP_STATUS_W2S_def
  IB_MGMT_RMPP_STATUS_S2B_def IB_MGMT_RMPP_STATUS_BAD_STATUS_def IB_MGMT_RMPP_STATUS_UNV_def
  IB_MGMT_RMPP_STATUS_ABORT_MAX_def OPA_MGMT_BASE_VERSION_def

definition ib_get_rmpp_flags :: "ib_rmpp_hdr \<Rightarrow> u8" where
  "ib_get_rmpp_flags h = rmpp_rtime_flags h AND 0x7"

definition ib_set_rmpp_flags :: "u8 \<Rightarrow> ib_rmpp_hdr \<Rightarrow> ib_rmpp_hdr" where
  "ib_set_rmpp_flags flags h = h\<lparr>rmpp_rtime_flags := (rmpp_rtime_flags h AND 0xF8) OR (flags AND 0x7)\<rparr>"

text \<open>\<open>ib_get_mad_data_offset\<close> of \<open>mad.c\<close>: the length of the class's header.\<close>

definition ib_get_mad_data_offset :: "u8 \<Rightarrow> nat" where
  "ib_get_mad_data_offset cls =
     (if cls = 0x03 then 56
      else if cls = 0x06 \<or> cls = 0x10 \<or> cls = 0x12 then 64
      else if 0x30 \<le> cls \<and> cls \<le> 0x4F then 40
      else 24)"

text \<open>
  \<open>memcpy\<close> of the first \<open>n\<close> bytes of a datagram to a zeroed one of 256 bytes: the common header
  has 24 bytes, the RMPP header the next 12.
\<close>

definition zero_rmpp_hdr :: ib_rmpp_hdr where
  "zero_rmpp_hdr = \<lparr>rmpp_version = 0, rmpp_type = 0, rmpp_rtime_flags = 0, rmpp_status = 0, hdr_seg_num = 0,
     paylen_newwin = 0\<rparr>"

definition zero_rmpp_mad :: ib_rmpp_mad where
  "zero_rmpp_mad = \<lparr>mad_hdr = \<lparr>base_version = 0, mgmt_class = 0, class_version = 0, mad_method = 0, mad_status = 0,
       class_specific = 0, mad_tid = 0, attr_id = 0, mad_resv = 0, attr_mod = 0\<rparr>,
     rmpp_hdr = zero_rmpp_hdr, mad_data = replicate 220 0\<rparr>"

definition copy_mad_hdr :: "nat \<Rightarrow> ib_rmpp_mad \<Rightarrow> ib_rmpp_mad" where
  "copy_mad_hdr n m = \<lparr>mad_hdr = mad_hdr m,
     rmpp_hdr = (if 36 \<le> n then rmpp_hdr m else zero_rmpp_hdr),
     mad_data = take (n - 36) (mad_data m) @ replicate (220 - (n - 36)) 0\<rparr>"

section \<open>State\<close>

datatype rmpp_state = RMPP_STATE_ACTIVE | RMPP_STATE_TIMEOUT | RMPP_STATE_COMPLETE

record mad_rmpp_recv =
  rr_state :: rmpp_state
  rr_refcount :: nat
  rr_ah :: nat
  rmpp_wc :: ib_mad_recv_wc
  cur_seg_buf :: ib_mad_recv_buf
  last_ack :: int
  seg_num :: int
  newwin :: int
  repwin :: int
  rr_tid :: u64
  rr_src_qp :: u32
  rr_slid :: u32
  rr_mgmt_class :: u8
  rr_class_version :: u8
  rr_method :: u8
  rr_base_version :: u8
  timeout_queued :: bool
  cleanup_queued :: bool

text \<open>A posted datagram, with the address handle it uses; \<open>own_ah\<close> says that the handle was made for it alone.\<close>

record rmpp_msg =
  msg_mad :: ib_rmpp_mad
  msg_ah :: nat
  own_ah :: bool
  msg_qp :: u32
  msg_pkey_index :: u16

record rmpp_agent =
  rmpp_recvs :: "mad_rmpp_recv list"
  max_active :: int
  opa_mad :: bool
  posted :: "rmpp_msg list"
  freed_mads :: "nat list"
  freed_ahs :: "nat list"

text \<open>What the allocators and the send queue answer during one handler.\<close>

record rmpp_env =
  env_ah :: "nat option"
  env_kmalloc :: bool
  env_create :: bool
  env_post :: bool

section \<open>Acknowledgements\<close>

definition format_ack :: "nat \<Rightarrow> ib_rmpp_mad \<Rightarrow> mad_rmpp_recv \<Rightarrow> ib_rmpp_mad \<times> mad_rmpp_recv" where
  "format_ack hdr_len dat r =
     (let ack = copy_mad_hdr hdr_len dat;
          ack = ack\<lparr>mad_hdr := (mad_hdr ack)\<lparr>mad_method := mad_method (mad_hdr ack) XOR IB_MGMT_METHOD_RESP\<rparr>\<rparr>;
          ack = ack\<lparr>rmpp_hdr := ib_set_rmpp_flags IB_MGMT_RMPP_FLAG_ACTIVE
                      ((rmpp_hdr ack)\<lparr>rmpp_type := IB_MGMT_RMPP_TYPE_ACK\<rparr>)\<rparr>;
          r = r\<lparr>last_ack := seg_num r\<rparr>
      in (ack\<lparr>rmpp_hdr := (rmpp_hdr ack)\<lparr>hdr_seg_num := word_of_int (seg_num r),
                                         paylen_newwin := word_of_int (newwin r)\<rparr>\<rparr>, r))"

definition ack_recv ::
  "rmpp_env \<Rightarrow> mad_rmpp_recv \<Rightarrow> ib_mad_recv_wc \<Rightarrow> rmpp_agent \<Rightarrow> mad_rmpp_recv \<times> rmpp_agent" where
  "ack_recv env r wc ag =
     (let m = rb_mad (recv_buf wc); hdr_len = ib_get_mad_data_offset (mgmt_class (mad_hdr m))
      in if \<not> env_create env then (r, ag)
         else
           let (ack, r) = format_ack hdr_len m r;
               msg = \<lparr>msg_mad = ack, msg_ah = rr_ah r, own_ah = False, msg_qp = wc_src_qp wc,
                      msg_pkey_index = wc_pkey_index wc\<rparr>
           in (r, if env_post env then ag\<lparr>posted := posted ag @ [msg]\<rparr> else ag))"

text \<open>The message is \<open>None\<close> when the address handle or the message cannot be made.\<close>

definition alloc_response_msg ::
  "rmpp_env \<Rightarrow> ib_mad_recv_wc \<Rightarrow> rmpp_agent \<Rightarrow> rmpp_msg option \<times> rmpp_agent" where
  "alloc_response_msg env wc ag =
     (case env_ah env of
        None \<Rightarrow> (None, ag)
      | Some ah \<Rightarrow>
          if \<not> env_create env then (None, ag\<lparr>freed_ahs := ah # freed_ahs ag\<rparr>)
          else (Some \<lparr>msg_mad = zero_rmpp_mad, msg_ah = ah, own_ah = True,
                      msg_qp = wc_src_qp wc, msg_pkey_index = wc_pkey_index wc\<rparr>, ag))"

definition post_response :: "rmpp_env \<Rightarrow> rmpp_msg \<Rightarrow> rmpp_agent \<Rightarrow> rmpp_agent" where
  "post_response env msg ag =
     (if env_post env then ag\<lparr>posted := posted ag @ [msg]\<rparr> else ag\<lparr>freed_ahs := msg_ah msg # freed_ahs ag\<rparr>)"

definition response_hdr :: "ib_mad_recv_wc \<Rightarrow> ib_rmpp_mad" where
  "response_hdr wc =
     (let m = rb_mad (recv_buf wc); m = copy_mad_hdr (ib_get_mad_data_offset (mgmt_class (mad_hdr m))) m
      in m\<lparr>mad_hdr := (mad_hdr m)\<lparr>mad_method := mad_method (mad_hdr m) XOR IB_MGMT_METHOD_RESP\<rparr>\<rparr>)"

definition ack_ds_ack :: "rmpp_env \<Rightarrow> ib_mad_recv_wc \<Rightarrow> rmpp_agent \<Rightarrow> rmpp_agent" where
  "ack_ds_ack env wc ag =
     (case alloc_response_msg env wc ag of
        (None, ag) \<Rightarrow> ag
      | (Some msg, ag) \<Rightarrow>
          let m = response_hdr wc;
              h = ib_set_rmpp_flags IB_MGMT_RMPP_FLAG_ACTIVE (rmpp_hdr m)
          in post_response env (msg\<lparr>msg_mad := m\<lparr>rmpp_hdr := h\<lparr>hdr_seg_num := 0, paylen_newwin := 1\<rparr>\<rparr>\<rparr>) ag)"

definition nack_recv :: "rmpp_env \<Rightarrow> ib_mad_recv_wc \<Rightarrow> u8 \<Rightarrow> rmpp_agent \<Rightarrow> rmpp_agent" where
  "nack_recv env wc status ag =
     (case alloc_response_msg env wc ag of
        (None, ag) \<Rightarrow> ag
      | (Some msg, ag) \<Rightarrow>
          let m = response_hdr wc;
              h = (rmpp_hdr m)\<lparr>rmpp_version := IB_MGMT_RMPP_VERSION, rmpp_type := IB_MGMT_RMPP_TYPE_ABORT\<rparr>;
              h = ib_set_rmpp_flags IB_MGMT_RMPP_FLAG_ACTIVE h
          in post_response env
               (msg\<lparr>msg_mad := m\<lparr>rmpp_hdr := h\<lparr>rmpp_status := status, hdr_seg_num := 0, paylen_newwin := 0\<rparr>\<rparr>\<rparr>) ag)"

text \<open>The completion of an internal message.\<close>

definition ib_rmpp_send_handler :: "rmpp_msg \<Rightarrow> rmpp_agent \<Rightarrow> rmpp_agent" where
  "ib_rmpp_send_handler msg ag =
     (if own_ah msg then ag\<lparr>freed_ahs := msg_ah msg # freed_ahs ag\<rparr> else ag)"

section \<open>Transactions\<close>

text \<open>\<open>ib_free_recv_mad\<close> of \<open>mad.c\<close> frees every buffer on the list of a work completion.\<close>

definition ib_free_recv_mad :: "ib_mad_recv_wc \<Rightarrow> rmpp_agent \<Rightarrow> rmpp_agent" where
  "ib_free_recv_mad wc ag = ag\<lparr>freed_mads := freed_mads ag @ map rb_addr (rmpp_list wc)\<rparr>"

definition deref_rmpp_recv :: "mad_rmpp_recv \<Rightarrow> mad_rmpp_recv" where
  "deref_rmpp_recv r = r\<lparr>rr_refcount := rr_refcount r - 1\<rparr>"

text \<open>\<open>destroy_rmpp_recv\<close> waits for the last reference; \<open>None\<close> when it would wait for another holder.\<close>

definition destroy_rmpp_recv :: "mad_rmpp_recv \<Rightarrow> rmpp_agent \<Rightarrow> rmpp_agent option" where
  "destroy_rmpp_recv r ag =
     (let r = deref_rmpp_recv r
      in if rr_refcount r = 0 then Some (ag\<lparr>freed_ahs := rr_ah r # freed_ahs ag\<rparr>) else None)"

fun cancel_recvs :: "mad_rmpp_recv list \<Rightarrow> rmpp_agent \<Rightarrow> rmpp_agent option" where
  "cancel_recvs [] ag = Some ag"
| "cancel_recvs (r # rs) ag =
     do {
       ag \<leftarrow> destroy_rmpp_recv r
              (if rr_state r \<noteq> RMPP_STATE_COMPLETE then ib_free_recv_mad (rmpp_wc r) ag else ag);
       cancel_recvs rs ag
     }"

definition ib_cancel_rmpp_recvs :: "rmpp_agent \<Rightarrow> rmpp_agent option" where
  "ib_cancel_rmpp_recvs ag = cancel_recvs (rmpp_recvs ag) (ag\<lparr>rmpp_recvs := []\<rparr>)"

definition remove_nth :: "nat \<Rightarrow> 'a list \<Rightarrow> 'a list" where
  "remove_nth i xs = take i xs @ drop (Suc i) xs"

text \<open>The delayed works of the \<open>i\<close>-th transaction of the agent.\<close>

definition recv_timeout_handler :: "rmpp_env \<Rightarrow> nat \<Rightarrow> rmpp_agent \<Rightarrow> rmpp_agent option" where
  "recv_timeout_handler env i ag =
     do {
       r \<leftarrow> arr_get (rmpp_recvs ag) i;
       if rr_state r \<noteq> RMPP_STATE_ACTIVE then Some ag
       else
         let r = r\<lparr>rr_state := RMPP_STATE_TIMEOUT\<rparr>;
             ag = ag\<lparr>rmpp_recvs := remove_nth i (rmpp_recvs ag)\<rparr>;
             ag = nack_recv env (rmpp_wc r) IB_MGMT_RMPP_STATUS_T2L ag
         in map_option (ib_free_recv_mad (rmpp_wc r)) (destroy_rmpp_recv r ag)
     }"

definition recv_cleanup_handler :: "nat \<Rightarrow> rmpp_agent \<Rightarrow> rmpp_agent option" where
  "recv_cleanup_handler i ag =
     do {
       r \<leftarrow> arr_get (rmpp_recvs ag) i;
       destroy_rmpp_recv r (ag\<lparr>rmpp_recvs := remove_nth i (rmpp_recvs ag)\<rparr>)
     }"

definition create_rmpp_recv :: "rmpp_env \<Rightarrow> ib_mad_recv_wc \<Rightarrow> mad_rmpp_recv option" where
  "create_rmpp_recv env wc =
     (if \<not> env_kmalloc env then None
      else case env_ah env of
             None \<Rightarrow> None
           | Some ah \<Rightarrow>
               let h = mad_hdr (rb_mad (recv_buf wc))
               in Some \<lparr>rr_state = RMPP_STATE_ACTIVE, rr_refcount = 1, rr_ah = ah, rmpp_wc = wc,
                        cur_seg_buf = recv_buf wc, last_ack = 0, seg_num = 1, newwin = 1, repwin = 1,
                        rr_tid = mad_tid h, rr_src_qp = wc_src_qp wc, rr_slid = wc_slid wc,
                        rr_mgmt_class = mgmt_class h, rr_class_version = class_version h,
                        rr_method = mad_method h, rr_base_version = base_version h,
                        timeout_queued = False, cleanup_queued = False\<rparr>)"

definition recv_matches :: "ib_mad_recv_wc \<Rightarrow> mad_rmpp_recv \<Rightarrow> bool" where
  "recv_matches wc r \<longleftrightarrow>
     (let h = mad_hdr (rb_mad (recv_buf wc))
      in rr_tid r = mad_tid h \<and> rr_src_qp r = wc_src_qp wc \<and> rr_slid r = wc_slid wc \<and>
         rr_mgmt_class r = mgmt_class h \<and> rr_class_version r = class_version h \<and> rr_method r = mad_method h)"

text \<open>The position of the transaction in the agent's list.\<close>

fun find_index :: "('a \<Rightarrow> bool) \<Rightarrow> 'a list \<Rightarrow> nat option" where
  "find_index P [] = None"
| "find_index P (x # xs) = (if P x then Some 0 else map_option Suc (find_index P xs))"

definition find_rmpp_recv :: "rmpp_agent \<Rightarrow> ib_mad_recv_wc \<Rightarrow> nat option" where
  "find_rmpp_recv ag wc = find_index (recv_matches wc) (rmpp_recvs ag)"

definition acquire_rmpp_recv :: "rmpp_agent \<Rightarrow> ib_mad_recv_wc \<Rightarrow> (nat \<times> mad_rmpp_recv) option" where
  "acquire_rmpp_recv ag wc =
     map_option (\<lambda>i. let r = rmpp_recvs ag ! i in (i, r\<lparr>rr_refcount := rr_refcount r + 1\<rparr>)) (find_rmpp_recv ag wc)"

section \<open>Segments\<close>

definition get_last_flag :: "ib_mad_recv_buf \<Rightarrow> bool" where
  "get_last_flag seg \<longleftrightarrow> has_flag (ib_get_rmpp_flags (rmpp_hdr (rb_mad seg))) IB_MGMT_RMPP_FLAG_LAST"

definition get_seg_num :: "ib_mad_recv_buf \<Rightarrow> int" where
  "get_seg_num seg = sint (hdr_seg_num (rmpp_hdr (rb_mad seg)))"

definition window_size :: "rmpp_agent \<Rightarrow> int" where
  "window_size ag = max (drop_bit 3 (max_active ag)) 1"

text \<open>\<open>find_seg_location\<close> walks the list backwards.\<close>

fun find_seg_rev :: "ib_mad_recv_buf list \<Rightarrow> int \<Rightarrow> ib_mad_recv_buf option" where
  "find_seg_rev [] n = None"
| "find_seg_rev (b # bs) n =
     (if get_seg_num b < n then Some b else if n = get_seg_num b then None else find_seg_rev bs n)"

definition find_seg_location :: "ib_mad_recv_buf list \<Rightarrow> int \<Rightarrow> ib_mad_recv_buf option" where
  "find_seg_location l n = find_seg_rev (rev l) n"

text \<open>\<open>list_add(new, prev)\<close>\<close>

fun insert_after :: "nat \<Rightarrow> ib_mad_recv_buf \<Rightarrow> ib_mad_recv_buf list \<Rightarrow> ib_mad_recv_buf list" where
  "insert_after a x [] = []"
| "insert_after a x (b # bs) = (if rb_addr b = a then b # x # bs else b # insert_after a x bs)"

text \<open>The loop of \<open>update_seg_num\<close> on the list from the new buffer on.\<close>

fun update_seg_num_loop :: "ib_mad_recv_buf list \<Rightarrow> mad_rmpp_recv \<Rightarrow> mad_rmpp_recv" where
  "update_seg_num_loop [] r = r"
| "update_seg_num_loop (b # bs) r =
     (if get_seg_num b = seg_num r + 1
      then update_seg_num_loop bs (r\<lparr>cur_seg_buf := b, seg_num := seg_num r + 1\<rparr>) else r)"

definition update_seg_num :: "mad_rmpp_recv \<Rightarrow> ib_mad_recv_buf \<Rightarrow> mad_rmpp_recv" where
  "update_seg_num r new_buf =
     update_seg_num_loop (dropWhile (\<lambda>b. rb_addr b \<noteq> rb_addr new_buf) (rmpp_list (rmpp_wc r))) r"

definition get_mad_len :: "rmpp_agent \<Rightarrow> mad_rmpp_recv \<Rightarrow> int" where
  "get_mad_len ag r =
     (let m = rb_mad (cur_seg_buf r);
          hdr_size = int (ib_get_mad_data_offset (mgmt_class (mad_hdr m)));
          is_opa = (opa_mad ag \<and> rr_base_version r = OPA_MGMT_BASE_VERSION);
          data_size = (if is_opa then 2048 else 256) - hdr_size;
          room = (if is_opa then 2012 else 220);
          pad = sint (word_of_int room - paylen_newwin (rmpp_hdr m) :: u32);
          pad = (if pad > room \<or> pad < 0 then 0 else pad)
      in hdr_size + seg_num r * data_size - pad)"

section \<open>Receiving data\<close>

definition complete_rmpp ::
  "rmpp_env \<Rightarrow> mad_rmpp_recv \<Rightarrow> rmpp_agent \<Rightarrow> ib_mad_recv_wc \<times> mad_rmpp_recv \<times> rmpp_agent" where
  "complete_rmpp env r ag =
     (let (r, ag) = ack_recv env r (rmpp_wc r) ag;
          r = (if seg_num r > 1 then r\<lparr>timeout_queued := False\<rparr> else r);
          wc = (rmpp_wc r)\<lparr>mad_len := get_mad_len ag r\<rparr>
      in (wc, r\<lparr>rmpp_wc := wc, cleanup_queued := True\<rparr>, ag))"

text \<open>
  \<open>continue_rmpp\<close> returns the completed work completion, if any. The transaction is written back
  to its place in the agent's list without the reference taken by \<open>acquire_rmpp_recv\<close>.
\<close>

definition put_recv :: "nat \<Rightarrow> mad_rmpp_recv \<Rightarrow> rmpp_agent \<Rightarrow> rmpp_agent" where
  "put_recv i r ag = ag\<lparr>rmpp_recvs := (rmpp_recvs ag)[i := deref_rmpp_recv r]\<rparr>"

definition continue_rmpp ::
  "rmpp_env \<Rightarrow> ib_mad_recv_wc \<Rightarrow> rmpp_agent \<Rightarrow> ib_mad_recv_wc option \<times> rmpp_agent" where
  "continue_rmpp env wc ag =
     (case acquire_rmpp_recv ag wc of
        None \<Rightarrow> (None, ib_free_recv_mad wc ag)
      | Some (i, r) \<Rightarrow>
          let n = get_seg_num (recv_buf wc)
          in if rr_state r = RMPP_STATE_TIMEOUT \<or> n > newwin r
             then (None, ib_free_recv_mad wc (put_recv i r ag))
             else if n \<le> last_ack r \<or> rr_state r = RMPP_STATE_COMPLETE
             then let (r, ag) = ack_recv env r wc ag in (None, ib_free_recv_mad wc (put_recv i r ag))
             else
               (case find_seg_location (rmpp_list (rmpp_wc r)) n of
                  None \<Rightarrow> (None, ib_free_recv_mad wc (put_recv i r ag))
                | Some prev_buf \<Rightarrow>
                    let rwc = rmpp_wc r;
                        r = r\<lparr>rmpp_wc := rwc\<lparr>rmpp_list := insert_after (rb_addr prev_buf) (recv_buf wc) (rmpp_list rwc)\<rparr>\<rparr>
                    in if rb_addr (cur_seg_buf r) = rb_addr prev_buf
                       then
                         let r = update_seg_num r (recv_buf wc)
                         in if get_last_flag (cur_seg_buf r)
                            then
                              let (done_wc, r, ag) = complete_rmpp env (r\<lparr>rr_state := RMPP_STATE_COMPLETE\<rparr>) ag
                              in (Some done_wc, put_recv i r ag)
                            else if seg_num r = newwin r
                            then
                              let (r, ag) = ack_recv env (r\<lparr>newwin := newwin r + window_size ag\<rparr>) wc ag
                              in (None, put_recv i r ag)
                            else (None, put_recv i r ag)
                       else (None, put_recv i r ag)))"

text \<open>\<open>insert_rmpp_recv\<close> is the test for an existing transaction and the append of the new one.\<close>

definition insert_rmpp_recv :: "rmpp_agent \<Rightarrow> mad_rmpp_recv \<Rightarrow> nat option \<times> rmpp_agent" where
  "insert_rmpp_recv ag r =
     (case find_rmpp_recv ag (rmpp_wc r) of
        None \<Rightarrow> (None, ag\<lparr>rmpp_recvs := rmpp_recvs ag @ [r]\<rparr>)
      | Some i \<Rightarrow> (Some i, ag))"

definition start_rmpp ::
  "rmpp_env \<Rightarrow> ib_mad_recv_wc \<Rightarrow> rmpp_agent \<Rightarrow> (ib_mad_recv_wc option \<times> rmpp_agent) option" where
  "start_rmpp env wc ag =
     (case create_rmpp_recv env wc of
        None \<Rightarrow> Some (None, ib_free_recv_mad wc ag)
      | Some r \<Rightarrow>
          (case insert_rmpp_recv ag r of
             (Some _, ag) \<Rightarrow> map_option (continue_rmpp env wc) (destroy_rmpp_recv r ag)
           | (None, ag) \<Rightarrow>
               let i = length (rmpp_recvs ag) - 1;
                   r = r\<lparr>rr_refcount := rr_refcount r + 1\<rparr>
               in if get_last_flag (recv_buf wc)
                  then
                    let (done_wc, r, ag) = complete_rmpp env (r\<lparr>rr_state := RMPP_STATE_COMPLETE\<rparr>) ag
                    in Some (Some done_wc, put_recv i r ag)
                  else
                    let r = r\<lparr>timeout_queued := True, newwin := newwin r + window_size ag\<rparr>;
                        (r, ag) = ack_recv env r wc ag
                    in Some (None, put_recv i r ag)))"

definition process_rmpp_data ::
  "rmpp_env \<Rightarrow> ib_mad_recv_wc \<Rightarrow> rmpp_agent \<Rightarrow> (ib_mad_recv_wc option \<times> rmpp_agent) option" where
  "process_rmpp_data env wc ag =
     (let h = rmpp_hdr (rb_mad (recv_buf wc));
          first = has_flag (ib_get_rmpp_flags h) IB_MGMT_RMPP_FLAG_FIRST;
          bad = (\<lambda>status. Some (None, ib_free_recv_mad wc (nack_recv env wc status ag)))
      in if rmpp_status h \<noteq> 0 then bad IB_MGMT_RMPP_STATUS_BAD_STATUS
         else if hdr_seg_num h = 1
         then if \<not> first then bad IB_MGMT_RMPP_STATUS_BAD_SEG else start_rmpp env wc ag
         else if first then bad IB_MGMT_RMPP_STATUS_BAD_SEG
         else Some (continue_rmpp env wc ag))"


section \<open>The list of segments\<close>

abbreviation nums :: "ib_mad_recv_buf list \<Rightarrow> int list" where
  "nums \<equiv> map get_seg_num"

abbreviation addrs :: "ib_mad_recv_buf list \<Rightarrow> nat list" where
  "addrs \<equiv> map rb_addr"

text \<open>
  The list is the contiguous segments \<open>1, \<dots>, n\<close>, the last of which is the current segment,
  followed by segments that arrived ahead of the next expected one.
\<close>

definition segs_split :: "int \<Rightarrow> ib_mad_recv_buf \<Rightarrow> ib_mad_recv_buf list \<Rightarrow> ib_mad_recv_buf list \<Rightarrow> bool" where
  "segs_split n c P Q \<longleftrightarrow> nums P = [1..n] \<and> P \<noteq> [] \<and> last P = c \<and> sorted_wrt (<) (nums Q) \<and>
     (\<forall>b \<in> set Q. n + 1 < get_seg_num b) \<and> distinct (addrs (P @ Q))"

lemma segs_split_pos: "segs_split n c P Q \<Longrightarrow> 1 \<le> n"
  by (cases "1 \<le> n") (auto simp: segs_split_def)

lemma segs_split_last: "segs_split n c P Q \<Longrightarrow> get_seg_num (last P) = n"
proof -
  assume s: "segs_split n c P Q"
  then have "last (nums P) = last [1..n]" by (simp add: segs_split_def)
  moreover have "last [1..n] = n" using segs_split_pos [OF s] by (simp add: upto_rec2)
  moreover have "P \<noteq> []" using s by (simp add: segs_split_def)
  then have "last (nums P) = get_seg_num (last P)" by (rule last_map)
  ultimately show ?thesis by simp
qed

lemma find_seg_rev_skip: "\<forall>b \<in> set xs. n < get_seg_num b \<Longrightarrow> find_seg_rev (xs @ ys) n = find_seg_rev ys n"
  by (induction xs) auto

lemma find_seg_old:
  assumes "segs_split n c P Q" and "1 \<le> k" and "k \<le> n"
  shows "find_seg_location (P @ Q) k = None"
proof -
  have "k \<in> set (nums P)" using assms by (simp add: segs_split_def)
  then obtain A x B where P: "P = A @ x # B" "get_seg_num x = k" by (auto dest: split_list)
  have "sorted_wrt (<) (nums P)" using assms(1) by (simp add: segs_split_def)
  then have "\<forall>b \<in> set B. k < get_seg_num b" using P by (auto simp: sorted_wrt_append)
  moreover have "\<forall>b \<in> set Q. k < get_seg_num b" using assms(1,3) by (auto simp: segs_split_def)
  ultimately show ?thesis
    using find_seg_rev_skip [of "rev Q @ rev B" k "x # rev A"] P
    by (auto simp: find_seg_location_def)
qed

text \<open>The place of a new segment among those that arrived early.\<close>

lemma split_at_num:
  assumes "sorted_wrt (<) (nums Q)"
  obtains Q1 Q2 where "Q = Q1 @ Q2" "\<forall>b \<in> set Q1. get_seg_num b < k" "\<forall>b \<in> set Q2. k \<le> get_seg_num b"
proof
  let ?P = "\<lambda>b. get_seg_num b < k"
  show "Q = takeWhile ?P Q @ dropWhile ?P Q" by simp
  show "\<forall>b \<in> set (takeWhile ?P Q). get_seg_num b < k" by (meson set_takeWhileD)
  show "\<forall>b \<in> set (dropWhile ?P Q). k \<le> get_seg_num b"
    using assms
  proof (induction Q)
    case (Cons q Q)
    then show ?case by (cases "?P q") (auto simp: less_imp_le)
  qed simp
qed

lemma find_seg_new:
  assumes "segs_split n c P Q" and "n < k"
  shows "find_seg_location (P @ Q) k = None \<or>
    (\<exists>Q1 Q2. Q = Q1 @ Q2 \<and> (\<forall>b \<in> set Q1. get_seg_num b < k) \<and> (\<forall>b \<in> set Q2. k < get_seg_num b) \<and>
       find_seg_location (P @ Q) k = Some (last (P @ Q1)))"
proof -
  have so: "sorted_wrt (<) (nums Q)" using assms(1) by (simp add: segs_split_def)
  then obtain Q1 Q2 where Q: "Q = Q1 @ Q2" "\<forall>b \<in> set Q1. get_seg_num b < k" "\<forall>b \<in> set Q2. k \<le> get_seg_num b"
    by (rule split_at_num)
  have pq: "P @ Q1 \<noteq> []" using assms(1) by (simp add: segs_split_def)
  have lt: "get_seg_num (last (P @ Q1)) < k"
    using Q(2) segs_split_last [OF assms(1)] assms(2) pq by (cases "Q1 = []") auto
  show ?thesis
  proof (cases "\<exists>b \<in> set Q2. get_seg_num b = k")
    case True
    then obtain A x B where q2: "Q2 = A @ x # B" "get_seg_num x = k" by (meson split_list)
    have "\<forall>b \<in> set B. k < get_seg_num b" using so Q(1) q2 by (auto simp: sorted_wrt_append)
    then have "find_seg_location (P @ Q) k = None"
      using find_seg_rev_skip [of "rev B" k "x # rev (P @ Q1 @ A)"] Q(1) q2 by (simp add: find_seg_location_def)
    then show ?thesis by simp
  next
    case False
    then have gt: "\<forall>b \<in> set Q2. k < get_seg_num b" using Q(3) by force
    have "rev (P @ Q1) = last (P @ Q1) # rev (butlast (P @ Q1))"
      using pq by (metis append_butlast_last_id rev_eq_Cons_iff rev_rev_ident)
    then have "find_seg_location (P @ Q) k = Some (last (P @ Q1))"
      using find_seg_rev_skip [of "rev Q2" k "rev (P @ Q1)"] gt lt Q(1) by (simp add: find_seg_location_def)
    then show ?thesis using Q gt by blast
  qed
qed

lemma insert_after_split:
  "rb_addr b \<notin> set (addrs A) \<Longrightarrow> insert_after (rb_addr b) x (A @ b # B) = A @ b # x # B"
  by (induction A) auto

lemma insert_after_last:
  assumes "distinct (addrs (A @ B))" and "A \<noteq> []"
  shows "insert_after (rb_addr (last A)) x (A @ B) = A @ x # B"
proof -
  have A: "A = butlast A @ [last A]" using assms(2) by simp
  then have "rb_addr (last A) \<notin> set (addrs (butlast A))"
    using assms(1) by (metis Un_iff append.assoc distinct_append disjoint_iff list.set_intros(1) list.simps(9) map_append)
  then show ?thesis
    using insert_after_split [of "last A" "butlast A" x B] A by (metis append.assoc append_Cons append_Nil)
qed

text \<open>The loop of \<open>update_seg_num\<close> consumes the longest contiguous run.\<close>

lemma update_loop_run:
  assumes "sorted_wrt (<) (nums bs)" and "\<forall>b \<in> set bs. seg_num r < get_seg_num b"
  obtains A B where "bs = A @ B" "nums A = [seg_num r + 1..seg_num r + int (length A)]"
    "update_seg_num_loop bs r = r\<lparr>cur_seg_buf := last (cur_seg_buf r # A), seg_num := seg_num r + int (length A)\<rparr>"
    "sorted_wrt (<) (nums B)" "\<forall>b \<in> set B. seg_num r + int (length A) + 1 < get_seg_num b"
  using assms
proof (induction bs arbitrary: r thesis)
  case Nil
  show ?case by (rule Nil.prems(1) [of "[]" "[]"]) simp_all
next
  case (Cons b bs)
  show ?case
  proof (cases "get_seg_num b = seg_num r + 1")
    case True
    let ?r = "r\<lparr>cur_seg_buf := b, seg_num := seg_num r + 1\<rparr>"
    obtain A B where IH: "bs = A @ B" "nums A = [seg_num ?r + 1..seg_num ?r + int (length A)]"
      "update_seg_num_loop bs ?r = ?r\<lparr>cur_seg_buf := last (cur_seg_buf ?r # A), seg_num := seg_num ?r + int (length A)\<rparr>"
      "sorted_wrt (<) (nums B)" "\<forall>b \<in> set B. seg_num ?r + int (length A) + 1 < get_seg_num b"
      using Cons.IH [of ?r] Cons.prems(2,3) True by auto
    show ?thesis
    proof (rule Cons.prems(1) [of "b # A" B])
      show "nums (b # A) = [seg_num r + 1..seg_num r + int (length (b # A))]"
        using IH(2) True by (simp add: upto_rec1 algebra_simps)
    qed (use IH True in \<open>simp_all add: algebra_simps\<close>)
  next
    case False
    then show ?thesis
      using Cons.prems(2,3) by (intro Cons.prems(1) [of "[]" "b # bs"]) auto
  qed
qed


section \<open>The receive invariant\<close>

definition recv_segs :: "mad_rmpp_recv \<Rightarrow> ib_mad_recv_buf list" where
  "recv_segs r = rmpp_list (rmpp_wc r)"

text \<open>What identifies a transaction.\<close>

definition recv_key :: "mad_rmpp_recv \<Rightarrow> u64 \<times> u32 \<times> u32 \<times> u8 \<times> u8 \<times> u8" where
  "recv_key r = (rr_tid r, rr_src_qp r, rr_slid r, rr_mgmt_class r, rr_class_version r, rr_method r)"

definition wc_key :: "ib_mad_recv_wc \<Rightarrow> u64 \<times> u32 \<times> u32 \<times> u8 \<times> u8 \<times> u8" where
  "wc_key wc = (let h = mad_hdr (rb_mad (recv_buf wc))
     in (mad_tid h, wc_src_qp wc, wc_slid wc, mgmt_class h, class_version h, mad_method h))"

lemma recv_matches_iff: "recv_matches wc r \<longleftrightarrow> recv_key r = wc_key wc"
  by (auto simp: recv_matches_def recv_key_def wc_key_def Let_def)

definition recv_ok :: "mad_rmpp_recv \<Rightarrow> bool" where
  "recv_ok r \<longleftrightarrow> (\<exists>P Q. recv_segs r = P @ Q \<and> segs_split (seg_num r) (cur_seg_buf r) P Q) \<and>
     (\<forall>b \<in> set (recv_segs r). get_seg_num b \<le> newwin r) \<and>
     0 \<le> last_ack r \<and> last_ack r \<le> seg_num r \<and> rr_refcount r = 1 \<and> wc_key (rmpp_wc r) = recv_key r \<and>
     rr_state r \<noteq> RMPP_STATE_TIMEOUT \<and> (rr_state r = RMPP_STATE_COMPLETE \<longleftrightarrow> get_last_flag (cur_seg_buf r)) \<and>
     (rr_state r = RMPP_STATE_ACTIVE \<longrightarrow> seg_num r < newwin r \<and> timeout_queued r) \<and>
     (cleanup_queued r \<longleftrightarrow> rr_state r = RMPP_STATE_COMPLETE)"

lemma ack_recv_eq:
  "seg_num r = m \<Longrightarrow> last_ack r = a \<Longrightarrow>
     \<exists>msgs. ack_recv env r wc ag = (r\<lparr>last_ack := (if env_create env then m else a)\<rparr>, ag\<lparr>posted := posted ag @ msgs\<rparr>)"
  by (auto simp: ack_recv_def Let_def format_ack_def intro: exI [of _ "[]"])

lemma complete_rmpp_eq:
  assumes "seg_num r = m" "last_ack r = a" "rmpp_wc r = w"
  shows "\<exists>ms n t. complete_rmpp env r ag = (w\<lparr>mad_len := n\<rparr>,
     r\<lparr>last_ack := (if env_create env then m else a), timeout_queued := t,
       rmpp_wc := w\<lparr>mad_len := n\<rparr>, cleanup_queued := True\<rparr>, ag\<lparr>posted := posted ag @ ms\<rparr>)"
proof -
  obtain ms where ms: "ack_recv env r w ag = (r\<lparr>last_ack := (if env_create env then m else a)\<rparr>,
     ag\<lparr>posted := posted ag @ ms\<rparr>)"
    using ack_recv_eq [OF assms(1,2)] by blast
  show ?thesis
  proof (cases "m > 1")
    case True
    then show ?thesis
      using assms by (intro exI [of _ ms] exI exI [of _ False]) (simp add: complete_rmpp_def ms Let_def)
  next
    case False
    define n where "n = get_mad_len (ag\<lparr>posted := posted ag @ ms\<rparr>) (r\<lparr>last_ack := (if env_create env then m else a)\<rparr>)"
    have "complete_rmpp env r ag = (w\<lparr>mad_len := n\<rparr>, r\<lparr>last_ack := (if env_create env then m else a),
        rmpp_wc := w\<lparr>mad_len := n\<rparr>, cleanup_queued := True\<rparr>, ag\<lparr>posted := posted ag @ ms\<rparr>)"
      using False assms by (simp add: complete_rmpp_def ms n_def Let_def)
    also have "r\<lparr>last_ack := (if env_create env then m else a), rmpp_wc := w\<lparr>mad_len := n\<rparr>, cleanup_queued := True\<rparr> =
        r\<lparr>last_ack := (if env_create env then m else a), timeout_queued := timeout_queued r,
          rmpp_wc := w\<lparr>mad_len := n\<rparr>, cleanup_queued := True\<rparr>"
      by (cases r) simp
    finally show ?thesis by blast
  qed
qed

lemma window_size_pos: "1 \<le> window_size ag"
  by (simp add: window_size_def)

text \<open>
  One segment that lies in the window and has not been acknowledged is inserted: the three
  outcomes of \<open>continue_rmpp\<close> after \<open>find_seg_location\<close> found its place.
\<close>

lemma insert_seg_split:
  assumes sp: "segs_split n c P Q" and Q: "Q = Q1 @ Q2" and k: "n < k" "k = get_seg_num x"
    and lt: "\<forall>b \<in> set Q1. get_seg_num b < k" and gt: "\<forall>b \<in> set Q2. k < get_seg_num b"
    and fresh: "rb_addr x \<notin> set (addrs (P @ Q))"
  shows "insert_after (rb_addr (last (P @ Q1))) x (P @ Q) = P @ Q1 @ x # Q2"
    and "rb_addr c = rb_addr (last (P @ Q1)) \<longleftrightarrow> Q1 = []"
    and "sorted_wrt (<) (nums (x # Q2))" and "\<forall>b \<in> set (x # Q2). n < get_seg_num b"
    and "distinct (addrs (P @ Q1 @ x # Q2))"
    and "Q1 \<noteq> [] \<Longrightarrow> segs_split n c P (Q1 @ x # Q2)"
proof -
  have d: "distinct (addrs (P @ Q1 @ Q2))" using sp Q by (simp add: segs_split_def)
  have ne: "P \<noteq> []" "last P = c" using sp by (auto simp: segs_split_def)
  show "insert_after (rb_addr (last (P @ Q1))) x (P @ Q) = P @ Q1 @ x # Q2"
    using insert_after_last [of "P @ Q1" Q2 x] d ne(1) Q by simp
  show "rb_addr c = rb_addr (last (P @ Q1)) \<longleftrightarrow> Q1 = []"
  proof (cases "Q1 = []")
    case False
    have "rb_addr c \<in> rb_addr ` set P" using ne by auto
    moreover have "rb_addr (last Q1) \<in> rb_addr ` set Q1" using False by auto
    moreover have "rb_addr ` set P \<inter> rb_addr ` set Q1 = {}" using d by auto
    ultimately have "rb_addr c \<noteq> rb_addr (last Q1)" by (metis disjoint_iff)
    then show ?thesis using False by simp
  qed (use ne in simp)
  show so: "sorted_wrt (<) (nums (x # Q2))"
    using sp gt k(2) Q by (auto simp: segs_split_def sorted_wrt_append)
  show "\<forall>b \<in> set (x # Q2). n < get_seg_num b" using gt k by auto
  show d': "distinct (addrs (P @ Q1 @ x # Q2))" using d fresh Q by auto
  show "segs_split n c P (Q1 @ x # Q2)" if ne1: "Q1 \<noteq> []"
  proof -
    obtain q where "q \<in> set Q1" using ne1 by (meson last_in_set)
    then have "n + 1 < get_seg_num q" "get_seg_num q < k" using sp Q lt by (auto simp: segs_split_def)
    moreover have "sorted_wrt (<) (nums (Q1 @ x # Q2))"
      using sp Q lt gt k(2) so by (auto simp: segs_split_def sorted_wrt_append)
    ultimately show ?thesis using sp Q k(2) d' by (auto simp: segs_split_def)
  qed
qed

lemma advance_split:
  assumes sp: "segs_split n c P Q" and "distinct (addrs (P @ x # Q2))"
    and "sorted_wrt (<) (nums (x # Q2))" and "\<forall>b \<in> set (x # Q2). n < get_seg_num b"
    and r: "seg_num r = n" "cur_seg_buf r = c" "rmpp_list (rmpp_wc r) = P @ x # Q2"
  shows "\<exists>P' Q'. P @ x # Q2 = P' @ Q' \<and>
    segs_split (seg_num (update_seg_num r x)) (cur_seg_buf (update_seg_num r x)) P' Q' \<and>
    n \<le> seg_num (update_seg_num r x) \<and>
    (\<exists>m c'. update_seg_num r x = r\<lparr>cur_seg_buf := c', seg_num := m\<rparr>)"
proof -
  obtain A B where AB: "x # Q2 = A @ B" "nums A = [seg_num r + 1..seg_num r + int (length A)]"
    "update_seg_num_loop (x # Q2) r = r\<lparr>cur_seg_buf := last (cur_seg_buf r # A), seg_num := seg_num r + int (length A)\<rparr>"
    "sorted_wrt (<) (nums B)" "\<forall>b \<in> set B. seg_num r + int (length A) + 1 < get_seg_num b"
    using update_loop_run [of "x # Q2" r] assms(3,4) r(1) by auto
  have "rb_addr x \<notin> set (addrs P)" using assms(2) by auto
  then have "dropWhile (\<lambda>b. rb_addr b \<noteq> rb_addr x) (P @ x # Q2) = x # Q2"
    by (subst dropWhile_append2) (auto simp: image_iff)
  then have u: "update_seg_num r x = r\<lparr>cur_seg_buf := last (c # A), seg_num := n + int (length A)\<rparr>"
    using AB(3) r by (simp add: update_seg_num_def)
  have "nums (P @ A) = [1..n + int (length A)]"
    using sp AB(2) r(1) segs_split_pos [OF sp] upto_split2 [of 1 n "n + int (length A)"]
    by (simp add: segs_split_def)
  moreover have "last (P @ A) = last (c # A)" using sp by (simp add: segs_split_def)
  moreover have "distinct (addrs ((P @ A) @ B))" using assms(2) unfolding AB(1) by simp
  ultimately have "segs_split (n + int (length A)) (last (c # A)) (P @ A) B"
    using AB(4,5) r(1) sp unfolding segs_split_def by simp
  then show ?thesis using u AB(1) by (intro exI [of _ "P @ A"] exI [of _ B]) auto
qed


text \<open>
  What one data segment \<open>x\<close> does to its transaction: it is dropped and freed, or it joins the
  list of segments, and then it may complete the message.
\<close>

definition seg_step ::
  "ib_mad_recv_buf \<Rightarrow> mad_rmpp_recv \<Rightarrow> mad_rmpp_recv \<Rightarrow> ib_mad_recv_wc option \<Rightarrow> nat list \<Rightarrow> bool" where
  "seg_step x r r' res fr \<longleftrightarrow> recv_ok r' \<and> recv_key r' = recv_key r \<and>
     (recv_segs r' = recv_segs r \<and> rr_state r' = rr_state r \<and> res = None \<and> fr = [rb_addr x] \<or>
      rr_state r = RMPP_STATE_ACTIVE \<and> mset (recv_segs r') = add_mset x (mset (recv_segs r)) \<and> fr = [] \<and>
        (rr_state r' = RMPP_STATE_ACTIVE \<and> res = None \<or>
         rr_state r' = RMPP_STATE_COMPLETE \<and> res = Some (rmpp_wc r')))"

lemma put_recv_eq:
  "put_recv i r (ag\<lparr>posted := ms\<rparr>) = ag\<lparr>posted := ms, rmpp_recvs := (rmpp_recvs ag)[i := deref_rmpp_recv r]\<rparr>"
  by (simp add: put_recv_def)

lemma recv_ok_seg_mono:
  assumes "recv_ok r"
  shows "1 \<le> seg_num r" and "seg_num r \<le> newwin r"
proof -
  obtain P Q where PQ: "recv_segs r = P @ Q" "segs_split (seg_num r) (cur_seg_buf r) P Q"
    using assms by (auto simp: recv_ok_def)
  show "1 \<le> seg_num r" using segs_split_pos PQ(2) by blast
  have "P \<noteq> []" using PQ(2) by (simp add: segs_split_def)
  then have "last P \<in> set (recv_segs r)" using PQ(1) by simp
  then have "get_seg_num (last P) \<le> newwin r" using assms by (simp add: recv_ok_def)
  then show "seg_num r \<le> newwin r" using segs_split_last [OF PQ(2)] by simp
qed

text \<open>Acknowledging again keeps the invariant.\<close>

lemma recv_ok_ack:
  "recv_ok r \<Longrightarrow> recv_ok (r\<lparr>last_ack := (if c then seg_num r else last_ack r)\<rparr>)"
  using recv_ok_seg_mono(1) [of r] by (auto simp: recv_ok_def recv_segs_def recv_key_def wc_key_def)

lemma deref_acquired [simp]: "deref_rmpp_recv (r\<lparr>rr_refcount := Suc (rr_refcount r)\<rparr>) = r"
  by (simp add: deref_rmpp_recv_def)

lemma seg_step_drop:
  assumes "recv_ok r"
  shows "seg_step x r (r\<lparr>last_ack := (if c then seg_num r else last_ack r)\<rparr>) None [rb_addr x]"
  using recv_ok_ack [OF assms, of c] by (simp add: seg_step_def recv_key_def recv_segs_def)


text \<open>The transaction after the segment \<open>x\<close> was placed behind \<open>prev\<close>.\<close>

definition with_segs :: "mad_rmpp_recv \<Rightarrow> ib_mad_recv_buf list \<Rightarrow> mad_rmpp_recv" where
  "with_segs r l = r\<lparr>rmpp_wc := (rmpp_wc r)\<lparr>rmpp_list := l\<rparr>\<rparr>"

lemma with_segs_simps [simp]:
  "recv_segs (with_segs r l) = l" "seg_num (with_segs r l) = seg_num r" "newwin (with_segs r l) = newwin r"
  "last_ack (with_segs r l) = last_ack r" "cur_seg_buf (with_segs r l) = cur_seg_buf r"
  "rr_state (with_segs r l) = rr_state r" "rr_refcount (with_segs r l) = rr_refcount r"
  "recv_key (with_segs r l) = recv_key r" "wc_key (rmpp_wc (with_segs r l)) = wc_key (rmpp_wc r)"
  "rmpp_list (rmpp_wc (with_segs r l)) = l"
  "timeout_queued (with_segs r l) = timeout_queued r" "cleanup_queued (with_segs r l) = cleanup_queued r"
  by (simp_all add: with_segs_def recv_segs_def recv_key_def wc_key_def)

lemma in_window_place:
  assumes ok: "recv_ok r" and act: "rr_state r = RMPP_STATE_ACTIVE"
    and k: "last_ack r < get_seg_num x" "get_seg_num x \<le> newwin r"
    and fresh: "rb_addr x \<notin> set (addrs (recv_segs r))"
    and found: "find_seg_location (recv_segs r) (get_seg_num x) = Some prev"
  shows "\<exists>l. insert_after (rb_addr prev) x (recv_segs r) = l \<and> mset l = add_mset x (mset (recv_segs r)) \<and>
     (rb_addr (cur_seg_buf r) \<noteq> rb_addr prev \<longrightarrow> recv_ok (with_segs r l)) \<and>
     (rb_addr (cur_seg_buf r) = rb_addr prev \<longrightarrow>
        (\<exists>P Q m c. l = P @ Q \<and> update_seg_num (with_segs r l) x = (with_segs r l)\<lparr>cur_seg_buf := c, seg_num := m\<rparr> \<and>
           segs_split m c P Q \<and> seg_num r \<le> m))"
proof -
  obtain P Q where PQ: "recv_segs r = P @ Q" "segs_split (seg_num r) (cur_seg_buf r) P Q"
    using ok by (auto simp: recv_ok_def)
  have "0 \<le> last_ack r" using ok by (simp add: recv_ok_def)
  then have new: "seg_num r < get_seg_num x"
    using find_seg_old [OF PQ(2), of "get_seg_num x"] found k(1) PQ(1) by (cases "seg_num r < get_seg_num x") auto
  obtain Q1 Q2 where Q: "Q = Q1 @ Q2" "\<forall>b \<in> set Q1. get_seg_num b < get_seg_num x"
    "\<forall>b \<in> set Q2. get_seg_num x < get_seg_num b" "prev = last (P @ Q1)"
    using find_seg_new [OF PQ(2) new] found PQ(1) by auto
  note ins = insert_seg_split [OF PQ(2) Q(1) new refl Q(2,3) fresh [unfolded PQ(1)]]
  let ?l = "P @ Q1 @ x # Q2"
  have l: "insert_after (rb_addr prev) x (recv_segs r) = ?l" using ins(1) Q(4) PQ(1) by simp
  have "recv_ok (with_segs r ?l)" if "Q1 \<noteq> []"
    using ok act k ins(6) [OF that] PQ Q(1) by (auto simp: recv_ok_def)
  moreover have "\<exists>P' Q' m c. ?l = P' @ Q' \<and>
      update_seg_num (with_segs r ?l) x = (with_segs r ?l)\<lparr>cur_seg_buf := c, seg_num := m\<rparr> \<and>
      segs_split m c P' Q' \<and> seg_num r \<le> m" if q1: "Q1 = []"
  proof -
    obtain P' Q' m c where "P @ x # Q2 = P' @ Q'"
      "segs_split (seg_num (update_seg_num (with_segs r ?l) x)) (cur_seg_buf (update_seg_num (with_segs r ?l) x)) P' Q'"
      "seg_num r \<le> seg_num (update_seg_num (with_segs r ?l) x)"
      "update_seg_num (with_segs r ?l) x = (with_segs r ?l)\<lparr>cur_seg_buf := c, seg_num := m\<rparr>"
      using advance_split [OF PQ(2), of x Q2 "with_segs r ?l"] ins(3,4,5) q1 by auto
    then show ?thesis using q1 by auto
  qed
  ultimately show ?thesis using l ins(2) Q(1,4) PQ(1) by auto
qed


lemma recv_ok_advanced:
  assumes ok: "recv_ok r" and win: "\<forall>b \<in> set l. get_seg_num b \<le> w" "newwin r \<le> w"
    and sp: "l = P @ Q" "segs_split m c P Q" "seg_num r \<le> m"
    and st: "s \<noteq> RMPP_STATE_TIMEOUT" "s = RMPP_STATE_COMPLETE \<longleftrightarrow> get_last_flag c" "s = RMPP_STATE_ACTIVE \<longrightarrow> m < w"
    and tm: "s = RMPP_STATE_ACTIVE \<longrightarrow> t" "u \<longleftrightarrow> s = RMPP_STATE_COMPLETE"
  shows "recv_ok ((with_segs r l)\<lparr>cur_seg_buf := c, seg_num := m, rr_state := s, newwin := w,
           last_ack := (if a then m else last_ack r), timeout_queued := t, cleanup_queued := u,
           rmpp_wc := (rmpp_wc (with_segs r l))\<lparr>mad_len := n\<rparr>\<rparr>)"
  using assms unfolding recv_ok_def
  by (auto simp: recv_segs_def with_segs_def recv_key_def wc_key_def)

lemma update_loop_refcount:
  "update_seg_num_loop bs (r\<lparr>rr_refcount := k\<rparr>) = (update_seg_num_loop bs r)\<lparr>rr_refcount := k\<rparr>"
proof (induction bs arbitrary: r)
  case (Cons b bs)
  then show ?case
    using Cons.IH [of "r\<lparr>cur_seg_buf := b, seg_num := seg_num r + 1\<rparr>"] by (cases r) simp
qed simp

lemma update_seg_num_refcount: "update_seg_num (r\<lparr>rr_refcount := k\<rparr>) x = (update_seg_num r x)\<lparr>rr_refcount := k\<rparr>"
  by (simp add: update_seg_num_def update_loop_refcount)

lemma seg_step_joined:
  assumes "rr_state r = RMPP_STATE_ACTIVE" "mset l = add_mset x (mset (recv_segs r))" "recv_ok r'"
    and "recv_key r' = recv_key r" "recv_segs r' = l"
    and "rr_state r' = RMPP_STATE_ACTIVE \<and> res = None \<or> rr_state r' = RMPP_STATE_COMPLETE \<and> res = Some (rmpp_wc r')"
  shows "seg_step x r r' res []"
  using assms by (simp add: seg_step_def)

lemma posted_nil: "ag\<lparr>posted := posted ag @ [], rmpp_recvs := rs\<rparr> = ag\<lparr>rmpp_recvs := rs\<rparr>"
  by simp

lemma in_window_step:
  assumes ok: "recv_ok r" and act: "rr_state r = RMPP_STATE_ACTIVE"
    and k: "last_ack r < get_seg_num x" "get_seg_num x \<le> newwin r"
    and fresh: "rb_addr x \<notin> set (addrs (recv_segs r))"
    and found: "find_seg_location (recv_segs r) (get_seg_num x) = Some prev"
    and wc: "recv_buf wc = x"
    and r2: "r2 = (r\<lparr>rr_refcount := Suc (rr_refcount r)\<rparr>)\<lparr>rmpp_wc := (rmpp_wc r)\<lparr>rmpp_list := insert_after (rb_addr prev) x (recv_segs r)\<rparr>\<rparr>"
  shows "\<exists>r' msgs res.
    (if rb_addr (cur_seg_buf r2) = rb_addr prev
     then let r = update_seg_num r2 x
          in if get_last_flag (cur_seg_buf r)
             then let (done_wc, r, ag) = complete_rmpp env (r\<lparr>rr_state := RMPP_STATE_COMPLETE\<rparr>) ag
                  in (Some done_wc, put_recv i r ag)
             else if seg_num r = newwin r
             then let (r, ag) = ack_recv env (r\<lparr>newwin := newwin r + window_size ag\<rparr>) wc ag in (None, put_recv i r ag)
             else (None, put_recv i r ag)
     else (None, put_recv i r2 ag)) =
    (res, ag\<lparr>posted := posted ag @ msgs, rmpp_recvs := (rmpp_recvs ag)[i := r']\<rparr>) \<and> seg_step x r r' res []"
proof -
  obtain l where l: "insert_after (rb_addr prev) x (recv_segs r) = l" "mset l = add_mset x (mset (recv_segs r))"
    "rb_addr (cur_seg_buf r) \<noteq> rb_addr prev \<longrightarrow> recv_ok (with_segs r l)"
    "rb_addr (cur_seg_buf r) = rb_addr prev \<longrightarrow>
      (\<exists>P Q m c. l = P @ Q \<and> update_seg_num (with_segs r l) x = (with_segs r l)\<lparr>cur_seg_buf := c, seg_num := m\<rparr> \<and>
         segs_split m c P Q \<and> seg_num r \<le> m)"
    using in_window_place [OF ok act k fresh found] by blast
  have r2': "r2 = (with_segs r l)\<lparr>rr_refcount := Suc (rr_refcount r)\<rparr>"
    by (simp add: r2 l(1) with_segs_def)
  have set_l: "set l = insert x (set (recv_segs r))"
    using l(2) by (metis set_mset_add_mset_insert set_mset_mset)
  then have win: "\<forall>b \<in> set l. get_seg_num b \<le> newwin r" using ok k(2) by (auto simp: recv_ok_def)
  show ?thesis
  proof (cases "rb_addr (cur_seg_buf r) = rb_addr prev")
    case False
    then have "seg_step x r (with_segs r l) None []"
      using act l by (intro seg_step_joined) auto
    moreover have "deref_rmpp_recv r2 = with_segs r l" by (simp add: r2' deref_rmpp_recv_def with_segs_def)
    ultimately show ?thesis
      using False r2' by (intro exI [of _ "with_segs r l"] exI [of _ "[]"] exI [of _ None]) (simp add: put_recv_def)
  next
    case True
    then obtain P Q m c where u: "l = P @ Q" "segs_split m c P Q" "seg_num r \<le> m"
      "update_seg_num (with_segs r l) x = (with_segs r l)\<lparr>cur_seg_buf := c, seg_num := m\<rparr>"
      using l(4) by blast
    let ?r3 = "(with_segs r l)\<lparr>cur_seg_buf := c, seg_num := m, rr_refcount := Suc (rr_refcount r)\<rparr>"
    have r3: "update_seg_num r2 x = ?r3" by (simp add: r2' update_seg_num_refcount u(4))
    have m: "m \<le> newwin r"
      using win u(1,2) segs_split_last [OF u(2)] by (metis Un_iff last_in_set segs_split_def set_append)
    have tm: "\<not> cleanup_queued r" "timeout_queued r" using ok act by (simp_all add: recv_ok_def)
    note adv = recv_ok_advanced [OF ok _ _ u(1,2,3)]
    show ?thesis
    proof (cases "get_last_flag c")
      case last: True
      obtain ms n t where cr: "complete_rmpp env (?r3\<lparr>rr_state := RMPP_STATE_COMPLETE\<rparr>) ag =
          ((rmpp_wc (with_segs r l))\<lparr>mad_len := n\<rparr>,
           ?r3\<lparr>rr_state := RMPP_STATE_COMPLETE, last_ack := (if env_create env then m else last_ack r),
             timeout_queued := t, rmpp_wc := (rmpp_wc (with_segs r l))\<lparr>mad_len := n\<rparr>, cleanup_queued := True\<rparr>,
           ag\<lparr>posted := posted ag @ ms\<rparr>)"
        using complete_rmpp_eq [of "?r3\<lparr>rr_state := RMPP_STATE_COMPLETE\<rparr>" m "last_ack r" "rmpp_wc (with_segs r l)" env ag]
        by auto
      let ?r4 = "(with_segs r l)\<lparr>cur_seg_buf := c, seg_num := m, rr_state := RMPP_STATE_COMPLETE, newwin := newwin r,
           last_ack := (if env_create env then m else last_ack r), timeout_queued := t, cleanup_queued := True,
           rmpp_wc := (rmpp_wc (with_segs r l))\<lparr>mad_len := n\<rparr>\<rparr>"
      have "recv_ok ?r4" using win last by (intro adv) auto
      then have "seg_step x r ?r4 (Some (rmpp_wc ?r4)) []"
        using act l(2) by (intro seg_step_joined) (auto simp: recv_key_def recv_segs_def with_segs_def)
      moreover have "put_recv i (?r3\<lparr>rr_state := RMPP_STATE_COMPLETE, last_ack := (if env_create env then m else last_ack r),
             timeout_queued := t, rmpp_wc := (rmpp_wc (with_segs r l))\<lparr>mad_len := n\<rparr>, cleanup_queued := True\<rparr>)
             (ag\<lparr>posted := posted ag @ ms\<rparr>) =
          ag\<lparr>posted := posted ag @ ms, rmpp_recvs := (rmpp_recvs ag)[i := ?r4]\<rparr>"
        by (cases r) (simp add: put_recv_eq deref_rmpp_recv_def with_segs_def)
      ultimately show ?thesis
        using True last r2' r3 cr by (intro exI [of _ ?r4] exI [of _ ms] exI [of _ "Some (rmpp_wc ?r4)"]) simp
    next
      case nlast: False
      show ?thesis
      proof (cases "m = newwin r")
        case full: True
        let ?w = "newwin r + window_size ag"
        obtain ms where ack: "ack_recv env (?r3\<lparr>newwin := ?w\<rparr>) wc ag =
            (?r3\<lparr>newwin := ?w, last_ack := (if env_create env then m else last_ack r)\<rparr>, ag\<lparr>posted := posted ag @ ms\<rparr>)"
          using ack_recv_eq [of "?r3\<lparr>newwin := ?w\<rparr>" m "last_ack r" env wc ag] by auto
        let ?r4 = "(with_segs r l)\<lparr>cur_seg_buf := c, seg_num := m, rr_state := RMPP_STATE_ACTIVE, newwin := ?w,
           last_ack := (if env_create env then m else last_ack r), timeout_queued := timeout_queued r,
           cleanup_queued := cleanup_queued r, rmpp_wc := (rmpp_wc (with_segs r l))\<lparr>mad_len := mad_len (rmpp_wc r)\<rparr>\<rparr>"
        have "recv_ok ?r4" using win nlast full window_size_pos [of ag] tm by (intro adv) force+
        then have "seg_step x r ?r4 None []"
          using act l(2) by (intro seg_step_joined) (auto simp: recv_key_def recv_segs_def with_segs_def)
        moreover have "put_recv i (?r3\<lparr>newwin := ?w, last_ack := (if env_create env then m else last_ack r)\<rparr>)
             (ag\<lparr>posted := posted ag @ ms\<rparr>) =
            ag\<lparr>posted := posted ag @ ms, rmpp_recvs := (rmpp_recvs ag)[i := ?r4]\<rparr>"
          using act by (cases r) (simp add: put_recv_eq deref_rmpp_recv_def with_segs_def)
        ultimately show ?thesis
          using True nlast full r2' r3 ack by (intro exI [of _ ?r4] exI [of _ ms] exI [of _ None]) simp
      next
        case more: False
        let ?r4 = "(with_segs r l)\<lparr>cur_seg_buf := c, seg_num := m, rr_state := RMPP_STATE_ACTIVE, newwin := newwin r,
           last_ack := (if False then m else last_ack r), timeout_queued := timeout_queued r,
           cleanup_queued := cleanup_queued r, rmpp_wc := (rmpp_wc (with_segs r l))\<lparr>mad_len := mad_len (rmpp_wc r)\<rparr>\<rparr>"
        have "recv_ok ?r4" using win nlast more m tm by (intro adv) auto
        then have "seg_step x r ?r4 None []"
          using act l(2) by (intro seg_step_joined) (auto simp: recv_key_def recv_segs_def with_segs_def)
        moreover have "put_recv i ?r3 ag = ag\<lparr>rmpp_recvs := (rmpp_recvs ag)[i := ?r4]\<rparr>"
          using act by (cases r) (simp add: put_recv_def deref_rmpp_recv_def with_segs_def)
        ultimately show ?thesis
          using True nlast more r2' r3 by (intro exI [of _ ?r4] exI [of _ "[]"] exI [of _ None]) simp
      qed
    qed
  qed
qed


section \<open>One data packet\<close>

text \<open>The effect of a data packet on the agent's transactions and on the memory of the packet.\<close>

inductive data_step ::
  "ib_mad_recv_wc \<Rightarrow> rmpp_agent \<Rightarrow> ib_mad_recv_wc option \<Rightarrow> rmpp_agent \<Rightarrow> bool" where
  data_drop: "rmpp_recvs ag' = rmpp_recvs ag \<Longrightarrow> freed_mads ag' = freed_mads ag @ [rb_addr (recv_buf wc)] \<Longrightarrow>
    data_step wc ag None ag'"
| data_known: "i < length (rmpp_recvs ag) \<Longrightarrow> recv_key (rmpp_recvs ag ! i) = wc_key wc \<Longrightarrow>
    seg_step (recv_buf wc) (rmpp_recvs ag ! i) r' res fr \<Longrightarrow>
    rmpp_recvs ag' = (rmpp_recvs ag)[i := r'] \<Longrightarrow> freed_mads ag' = freed_mads ag @ fr \<Longrightarrow> data_step wc ag res ag'"
| data_new: "wc_key wc \<notin> recv_key ` set (rmpp_recvs ag) \<Longrightarrow> recv_ok r' \<Longrightarrow> recv_key r' = wc_key wc \<Longrightarrow>
    recv_segs r' = [recv_buf wc] \<Longrightarrow>
    rr_state r' = RMPP_STATE_ACTIVE \<and> res = None \<or> rr_state r' = RMPP_STATE_COMPLETE \<and> res = Some (rmpp_wc r') \<Longrightarrow>
    rmpp_recvs ag' = rmpp_recvs ag @ [r'] \<Longrightarrow> freed_mads ag' = freed_mads ag \<Longrightarrow> data_step wc ag res ag'"

definition held_by :: "mad_rmpp_recv \<Rightarrow> nat list" where
  "held_by r = (if rr_state r = RMPP_STATE_ACTIVE then addrs (recv_segs r) else [])"

definition held :: "rmpp_agent \<Rightarrow> nat list" where
  "held ag = concat (map held_by (rmpp_recvs ag))"

definition agent_ok :: "rmpp_agent \<Rightarrow> bool" where
  "agent_ok ag \<longleftrightarrow> (\<forall>r \<in> set (rmpp_recvs ag). recv_ok r) \<and> distinct (map recv_key (rmpp_recvs ag)) \<and>
     distinct (held ag)"

text \<open>A packet as the receive path hands it over: a list of its own buffer, not in use elsewhere.\<close>

definition new_packet :: "ib_mad_recv_wc \<Rightarrow> rmpp_agent \<Rightarrow> bool" where
  "new_packet wc ag \<longleftrightarrow> rmpp_list wc = [recv_buf wc] \<and> rb_addr (recv_buf wc) \<notin> set (held ag)"

lemma find_index_Some:
  "find_index P xs = Some i \<Longrightarrow> i < length xs \<and> P (xs ! i)"
  by (induction xs arbitrary: i) (auto split: if_splits)

lemma find_index_None: "find_index P xs = None \<longleftrightarrow> (\<forall>x \<in> set xs. \<not> P x)"
  by (induction xs) auto

lemma held_by_nth: "i < length (rmpp_recvs ag) \<Longrightarrow> set (held_by (rmpp_recvs ag ! i)) \<subseteq> set (held ag)"
  using nth_mem by (fastforce simp: held_def)

lemma continue_rmpp_step:
  assumes ok: "\<forall>r \<in> set (rmpp_recvs ag). recv_ok r" and wc: "new_packet wc ag"
  shows "\<exists>res ag'. continue_rmpp env wc ag = (res, ag') \<and> data_step wc ag res ag' \<and> freed_ahs ag' = freed_ahs ag"
proof (cases "find_rmpp_recv ag wc")
  case None
  then show ?thesis
    using wc by (auto simp: continue_rmpp_def acquire_rmpp_recv_def ib_free_recv_mad_def new_packet_def intro: data_drop)
next
  case (Some i)
  define r where "r = rmpp_recvs ag ! i"
  let ?x = "recv_buf wc" and ?r1 = "r\<lparr>rr_refcount := Suc (rr_refcount r)\<rparr>"
  have i: "i < length (rmpp_recvs ag)" "recv_key r = wc_key wc"
    using find_index_Some [of "recv_matches wc" "rmpp_recvs ag" i] Some by (auto simp: find_rmpp_recv_def recv_matches_iff r_def)
  then have rok: "recv_ok r" using ok by (simp add: r_def)
  have acq: "acquire_rmpp_recv ag wc = Some (i, ?r1)"
    using Some by (simp add: acquire_rmpp_recv_def r_def Let_def)
  have same: "(rmpp_recvs ag)[i := r] = rmpp_recvs ag" by (simp add: r_def)
  have free: "ib_free_recv_mad wc a = a\<lparr>freed_mads := freed_mads a @ [rb_addr ?x]\<rparr>" for a
    using wc by (simp add: ib_free_recv_mad_def new_packet_def)
  have put: "put_recv i ?r1 ag = ag" by (simp add: put_recv_def same)
  note step = data_known [where i = i, OF i(1), unfolded r_def [symmetric], OF i(2)]
  have ndrop: "seg_step ?x r r None [rb_addr ?x]"
    using rok by (simp add: seg_step_def)
  have dropped: "data_step wc ag None (ag\<lparr>freed_mads := freed_mads ag @ [rb_addr ?x]\<rparr>)"
    by (rule data_drop) simp_all
  have st: "rr_state r = RMPP_STATE_ACTIVE \<or> rr_state r = RMPP_STATE_COMPLETE"
    using rok by (cases "rr_state r") (simp_all add: recv_ok_def)
  consider (win) "get_seg_num ?x > newwin r"
    | (again) "get_seg_num ?x \<le> newwin r" "get_seg_num ?x \<le> last_ack r \<or> rr_state r = RMPP_STATE_COMPLETE"
    | (dup) "get_seg_num ?x \<le> newwin r" "last_ack r < get_seg_num ?x" "rr_state r = RMPP_STATE_ACTIVE"
        "find_seg_location (recv_segs r) (get_seg_num ?x) = None"
    | (place) prev where "get_seg_num ?x \<le> newwin r" "last_ack r < get_seg_num ?x" "rr_state r = RMPP_STATE_ACTIVE"
        "find_seg_location (recv_segs r) (get_seg_num ?x) = Some prev"
    using st by (metis not_le_imp_less option.exhaust)
  then show ?thesis
  proof cases
    case win
    then have "continue_rmpp env wc ag = (None, ag\<lparr>freed_mads := freed_mads ag @ [rb_addr ?x]\<rparr>)"
      by (simp add: continue_rmpp_def acq free put)
    then show ?thesis using dropped by simp
  next
    case again
    obtain ms where ack: "ack_recv env ?r1 wc ag =
        (?r1\<lparr>last_ack := (if env_create env then seg_num r else last_ack r)\<rparr>, ag\<lparr>posted := posted ag @ ms\<rparr>)"
      using ack_recv_eq [of ?r1 "seg_num r" "last_ack r" env wc ag] by auto
    let ?r2 = "r\<lparr>last_ack := (if env_create env then seg_num r else last_ack r)\<rparr>"
    have d: "deref_rmpp_recv (?r1\<lparr>last_ack := (if env_create env then seg_num r else last_ack r)\<rparr>) = ?r2"
      by (cases r) (simp add: deref_rmpp_recv_def)
    have "rr_state r \<noteq> RMPP_STATE_TIMEOUT" using rok by (simp add: recv_ok_def)
    with again have "continue_rmpp env wc ag = (None, ag\<lparr>posted := posted ag @ ms,
        rmpp_recvs := (rmpp_recvs ag)[i := ?r2], freed_mads := freed_mads ag @ [rb_addr ?x]\<rparr>)"
      by (auto simp: continue_rmpp_def acq ack free put_recv_eq d)
    then show ?thesis using step [OF seg_step_drop [OF rok]] by simp
  next
    case dup
    then have "continue_rmpp env wc ag = (None, ag\<lparr>freed_mads := freed_mads ag @ [rb_addr ?x]\<rparr>)"
      by (simp add: continue_rmpp_def acq free put recv_segs_def)
    then show ?thesis using dropped by simp
  next
    case place
    have fresh: "rb_addr ?x \<notin> set (addrs (recv_segs r))"
      using wc held_by_nth [OF i(1)] place(3) by (auto simp: new_packet_def held_by_def r_def)
    note st = in_window_step [OF rok place(3,2,1) fresh place(4) refl refl, of env ag i, unfolded recv_segs_def]
    have "find_seg_location (rmpp_list (rmpp_wc r)) (get_seg_num ?x) = Some prev"
      using place(4) by (simp add: recv_segs_def)
    then obtain r' ms res where st: "seg_step ?x r r' res []"
      and eq: "continue_rmpp env wc ag = (res, ag\<lparr>posted := posted ag @ ms, rmpp_recvs := (rmpp_recvs ag)[i := r']\<rparr>)"
      using st place by (auto simp: continue_rmpp_def acq Let_def)
    show ?thesis using step [OF st] eq by simp
  qed
qed


text \<open>The transaction that the first segment of a message opens.\<close>

definition opened :: "nat \<Rightarrow> ib_mad_recv_wc \<Rightarrow> mad_rmpp_recv" where
  "opened ah wc =
     (let h = mad_hdr (rb_mad (recv_buf wc))
      in \<lparr>rr_state = RMPP_STATE_ACTIVE, rr_refcount = 1, rr_ah = ah, rmpp_wc = wc,
          cur_seg_buf = recv_buf wc, last_ack = 0, seg_num = 1, newwin = 1, repwin = 1,
          rr_tid = mad_tid h, rr_src_qp = wc_src_qp wc, rr_slid = wc_slid wc,
          rr_mgmt_class = mgmt_class h, rr_class_version = class_version h,
          rr_method = mad_method h, rr_base_version = base_version h,
          timeout_queued = False, cleanup_queued = False\<rparr>)"

lemma create_rmpp_recv_eq:
  "create_rmpp_recv env wc = (if env_kmalloc env then map_option (\<lambda>ah. opened ah wc) (env_ah env) else None)"
  by (simp add: create_rmpp_recv_def opened_def Let_def split: option.split)

lemma opened_key [simp]: "recv_key (opened ah wc) = wc_key wc"
  by (simp add: opened_def recv_key_def wc_key_def Let_def)

lemma opened_simps [simp]: "rmpp_wc (opened ah wc) = wc" "rr_refcount (opened ah wc) = 1"
  "seg_num (opened ah wc) = 1" "newwin (opened ah wc) = 1" "last_ack (opened ah wc) = 0"
  "rr_state (opened ah wc) = RMPP_STATE_ACTIVE" "rr_ah (opened ah wc) = ah"
  by (simp_all add: opened_def Let_def)

lemma recv_ok_opened:
  assumes "rmpp_list wc = [recv_buf wc]" "get_seg_num (recv_buf wc) = 1"
    and "s = RMPP_STATE_COMPLETE \<longleftrightarrow> get_last_flag (recv_buf wc)" "s \<noteq> RMPP_STATE_TIMEOUT"
    and "1 \<le> w" "s = RMPP_STATE_ACTIVE \<longrightarrow> 1 < w"
    and "s = RMPP_STATE_ACTIVE \<longrightarrow> t" "u \<longleftrightarrow> s = RMPP_STATE_COMPLETE"
  shows "recv_ok ((opened ah wc)\<lparr>rr_state := s, newwin := w, last_ack := (if a then 1 else 0), timeout_queued := t,
     cleanup_queued := u, rmpp_wc := wc\<lparr>mad_len := n\<rparr>\<rparr>)"
proof -
  have "segs_split 1 (recv_buf wc) [recv_buf wc] []" using assms(2) by (simp add: segs_split_def)
  then have "\<exists>P Q. [recv_buf wc] = P @ Q \<and> segs_split 1 (recv_buf wc) P Q" by (metis append_Nil2)
  then show ?thesis
    using assms by (auto simp: recv_ok_def opened_def recv_segs_def recv_key_def wc_key_def Let_def)
qed

lemma start_rmpp_step:
  assumes ok: "\<forall>r \<in> set (rmpp_recvs ag). recv_ok r" and wc: "new_packet wc ag"
    and one: "get_seg_num (recv_buf wc) = 1"
  shows "\<exists>res ag'. start_rmpp env wc ag = Some (res, ag') \<and> data_step wc ag res ag'"
proof (cases "create_rmpp_recv env wc")
  case None
  then show ?thesis
    using wc by (auto simp: start_rmpp_def ib_free_recv_mad_def new_packet_def intro: data_drop)
next
  case (Some r0)
  then obtain ah where r0: "r0 = opened ah wc" by (auto simp: create_rmpp_recv_eq split: if_splits)
  show ?thesis
  proof (cases "find_rmpp_recv ag wc")
    case (Some i)
    let ?ag = "ag\<lparr>freed_ahs := ah # freed_ahs ag\<rparr>"
    have "new_packet wc ?ag" using wc by (simp add: new_packet_def held_def)
    then obtain res ag' where c: "continue_rmpp env wc ?ag = (res, ag')" "data_step wc ?ag res ag'"
      using continue_rmpp_step [of ?ag wc env] ok by auto
    have "data_step wc ag res ag'"
      using c(2) by cases (auto intro: data_step.intros)
    then show ?thesis
      using Some c(1) r0 \<open>create_rmpp_recv env wc = Some r0\<close>
      by (simp add: start_rmpp_def insert_rmpp_recv_def destroy_rmpp_recv_def deref_rmpp_recv_def)
  next
    case None
    then have nokey: "wc_key wc \<notin> recv_key ` set (rmpp_recvs ag)"
      by (auto simp: find_rmpp_recv_def find_index_None recv_matches_iff)
    have list: "rmpp_list wc = [recv_buf wc]" using wc by (simp add: new_packet_def)
    let ?ag = "ag\<lparr>rmpp_recvs := rmpp_recvs ag @ [r0]\<rparr>" and ?r1 = "r0\<lparr>rr_refcount := Suc (rr_refcount r0)\<rparr>"
    have start: "start_rmpp env wc ag =
        (if get_last_flag (recv_buf wc)
         then let (done_wc, r, a) = complete_rmpp env (?r1\<lparr>rr_state := RMPP_STATE_COMPLETE\<rparr>) ?ag
              in Some (Some done_wc, put_recv (length (rmpp_recvs ag)) r a)
         else let (r, a) = ack_recv env (?r1\<lparr>timeout_queued := True, newwin := newwin r0 + window_size ag\<rparr>) wc ?ag
              in Some (None, put_recv (length (rmpp_recvs ag)) r a))"
      using \<open>create_rmpp_recv env wc = Some r0\<close> None r0
      by (simp add: start_rmpp_def insert_rmpp_recv_def window_size_def Let_def)
    note new = data_new [OF nokey]
    show ?thesis
    proof (cases "get_last_flag (recv_buf wc)")
      case True
      obtain ms n t where c: "complete_rmpp env (?r1\<lparr>rr_state := RMPP_STATE_COMPLETE\<rparr>) ?ag = (wc\<lparr>mad_len := n\<rparr>,
          (?r1\<lparr>rr_state := RMPP_STATE_COMPLETE\<rparr>)\<lparr>last_ack := (if env_create env then 1 else 0), timeout_queued := t,
            rmpp_wc := wc\<lparr>mad_len := n\<rparr>, cleanup_queued := True\<rparr>, ?ag\<lparr>posted := posted ag @ ms\<rparr>)"
        using complete_rmpp_eq [of "?r1\<lparr>rr_state := RMPP_STATE_COMPLETE\<rparr>" 1 0 wc env ?ag] r0 by auto
      let ?r2 = "(opened ah wc)\<lparr>rr_state := RMPP_STATE_COMPLETE, newwin := 1, last_ack := (if env_create env then 1 else 0),
          timeout_queued := t, cleanup_queued := True, rmpp_wc := wc\<lparr>mad_len := n\<rparr>\<rparr>"
      have "recv_ok ?r2" using list one True by (intro recv_ok_opened) simp_all
      moreover have "deref_rmpp_recv ((?r1\<lparr>rr_state := RMPP_STATE_COMPLETE\<rparr>)\<lparr>last_ack := (if env_create env then 1 else 0), timeout_queued := t,
            rmpp_wc := wc\<lparr>mad_len := n\<rparr>, cleanup_queued := True\<rparr>) = ?r2"
        by (simp add: r0 deref_rmpp_recv_def opened_def Let_def)
      ultimately show ?thesis
        using True start c list by (auto simp: put_recv_def recv_key_def recv_segs_def wc_key_def opened_def Let_def intro!: new)
    next
      case False
      let ?w = "1 + window_size ag"
      obtain ms where c: "ack_recv env (?r1\<lparr>timeout_queued := True, newwin := newwin r0 + window_size ag\<rparr>) wc ?ag =
          ((?r1\<lparr>timeout_queued := True, newwin := newwin r0 + window_size ag\<rparr>)\<lparr>last_ack := (if env_create env then 1 else 0)\<rparr>,
           ?ag\<lparr>posted := posted ag @ ms\<rparr>)"
        using ack_recv_eq [of "?r1\<lparr>timeout_queued := True, newwin := newwin r0 + window_size ag\<rparr>" 1 0 env wc ?ag] r0 by auto
      let ?r2 = "(opened ah wc)\<lparr>rr_state := RMPP_STATE_ACTIVE, newwin := ?w, last_ack := (if env_create env then 1 else 0),
          timeout_queued := True, cleanup_queued := False, rmpp_wc := wc\<lparr>mad_len := mad_len wc\<rparr>\<rparr>"
      have "recv_ok ?r2" using list one False window_size_pos [of ag] by (intro recv_ok_opened) auto
      moreover have "deref_rmpp_recv ((?r1\<lparr>timeout_queued := True, newwin := newwin r0 + window_size ag\<rparr>)\<lparr>last_ack := (if env_create env then 1 else 0)\<rparr>) = ?r2"
        by (simp add: r0 deref_rmpp_recv_def opened_def Let_def)
      ultimately show ?thesis
        using False start c list by (auto simp: put_recv_def recv_key_def recv_segs_def wc_key_def opened_def Let_def intro!: new)
    qed
  qed
qed

lemma nack_recv_frame: "rmpp_recvs (nack_recv env wc st ag) = rmpp_recvs ag \<and> freed_mads (nack_recv env wc st ag) = freed_mads ag"
  by (auto simp: nack_recv_def alloc_response_msg_def post_response_def Let_def split: option.split)

text \<open>\<open>process_rmpp_data\<close> never waits and is one step of the data relation.\<close>

lemma process_rmpp_data_step:
  assumes "\<forall>r \<in> set (rmpp_recvs ag). recv_ok r" and "new_packet wc ag"
  shows "\<exists>res ag'. process_rmpp_data env wc ag = Some (res, ag') \<and> data_step wc ag res ag'"
proof -
  have bad: "data_step wc ag None (ib_free_recv_mad wc (nack_recv env wc st ag))" for st
    using assms(2) by (intro data_drop) (simp_all add: nack_recv_frame ib_free_recv_mad_def new_packet_def)
  have one: "get_seg_num (recv_buf wc) = 1" if "hdr_seg_num (rmpp_hdr (rb_mad (recv_buf wc))) = 1"
    using that by (simp add: get_seg_num_def)
  show ?thesis
    using bad start_rmpp_step [OF assms one, of env] continue_rmpp_step [OF assms, of env]
    by (auto simp: process_rmpp_data_def Let_def)
qed


section \<open>Reachable states\<close>

text \<open>
  The history of an agent: the messages it delivered and the addresses of the packets it was
  handed. Packets of the network satisfy \<open>G\<close>; they arrive in any order, any number of times, with
  any outcome of the allocations, and the timers of a transaction fire at any time while they are queued.
\<close>

inductive rmpp_reach ::
  "(ib_mad_recv_wc \<Rightarrow> bool) \<Rightarrow> rmpp_agent \<Rightarrow> ib_mad_recv_wc list \<Rightarrow> nat list \<Rightarrow> bool" for G where
  reach_init: "rmpp_recvs ag = [] \<Longrightarrow> freed_mads ag = [] \<Longrightarrow> rmpp_reach G ag [] []"
| reach_data: "rmpp_reach G ag D A \<Longrightarrow> G wc \<Longrightarrow> new_packet wc ag \<Longrightarrow>
    process_rmpp_data env wc ag = Some (res, ag') \<Longrightarrow>
    rmpp_reach G ag' (D @ (case res of None \<Rightarrow> [] | Some w \<Rightarrow> [w])) (A @ [rb_addr (recv_buf wc)])"
| reach_timeout: "rmpp_reach G ag D A \<Longrightarrow> i < length (rmpp_recvs ag) \<Longrightarrow> timeout_queued (rmpp_recvs ag ! i) \<Longrightarrow>
    recv_timeout_handler env i ag = Some ag' \<Longrightarrow> rmpp_reach G ag' D A"
| reach_cleanup: "rmpp_reach G ag D A \<Longrightarrow> i < length (rmpp_recvs ag) \<Longrightarrow> cleanup_queued (rmpp_recvs ag ! i) \<Longrightarrow>
    recv_cleanup_handler i ag = Some ag' \<Longrightarrow> rmpp_reach G ag' D A"
| reach_cancel: "rmpp_reach G ag D A \<Longrightarrow> ib_cancel_rmpp_recvs ag = Some ag' \<Longrightarrow> rmpp_reach G ag' D A"

lemma held_split: "i < length (rmpp_recvs ag) \<Longrightarrow>
  mset (held ag) = mset (held_by (rmpp_recvs ag ! i)) + mset (concat (map held_by (remove_nth i (rmpp_recvs ag))))"
proof -
  assume "i < length (rmpp_recvs ag)"
  then have "rmpp_recvs ag = take i (rmpp_recvs ag) @ rmpp_recvs ag ! i # drop (Suc i) (rmpp_recvs ag)"
    by (rule id_take_nth_drop)
  then have "held ag = concat (map held_by (take i (rmpp_recvs ag) @ rmpp_recvs ag ! i # drop (Suc i) (rmpp_recvs ag)))"
    unfolding held_def by (rule arg_cong)
  then show ?thesis by (simp add: remove_nth_def)
qed

lemma held_update:
  assumes "i < length (rmpp_recvs ag)" "rmpp_recvs ag' = (rmpp_recvs ag)[i := r']"
  shows "mset (held ag') = mset (held_by r') + mset (concat (map held_by (remove_nth i (rmpp_recvs ag))))"
  using assms held_split [of i ag'] by (simp add: remove_nth_def)

lemma held_remove: "held (ag\<lparr>rmpp_recvs := rs\<rparr>) = concat (map held_by rs)"
  by (simp add: held_def)

text \<open>Where the packet of a step goes.\<close>

abbreviation given :: "ib_mad_recv_wc option \<Rightarrow> nat multiset" where
  "given res \<equiv> (case res of None \<Rightarrow> {#} | Some w \<Rightarrow> mset (addrs (rmpp_list w)))"

lemma data_step_conserves:
  assumes "data_step wc ag res ag'"
  shows "mset (freed_mads ag') + mset (held ag') + given res =
    add_mset (rb_addr (recv_buf wc)) (mset (freed_mads ag) + mset (held ag))"
  using assms
proof cases
  case data_drop
  then show ?thesis by (simp add: held_def)
next
  case (data_known i r' fr)
  let ?r = "rmpp_recvs ag ! i"
  have "mset fr + mset (held_by r') + given res = add_mset (rb_addr (recv_buf wc)) (mset (held_by ?r))"
    using data_known(3) by (auto simp: seg_step_def held_by_def recv_segs_def)
  then show ?thesis
    using held_split [OF data_known(1)] held_update [OF data_known(1,4)] data_known(5)
    by (simp add: ac_simps union_assoc)
next
  case (data_new r')
  then show ?thesis by (auto simp: held_def held_by_def recv_segs_def)
qed

lemma distinct_submset:
  assumes "mset xs \<subseteq># mset ys" "distinct ys"
  shows "distinct xs"
proof -
  obtain M where "mset ys = mset xs + M" using assms(1) mset_subset_eq_exists_conv by blast
  moreover obtain zs where "mset zs = M" using ex_mset by blast
  ultimately have "mset ys = mset (xs @ zs)" by simp
  then have "distinct (xs @ zs)" using assms(2) mset_eq_imp_distinct_iff by blast
  then show ?thesis by simp
qed

lemma data_step_ok:
  assumes "data_step wc ag res ag'" "agent_ok ag" "new_packet wc ag"
  shows "agent_ok ag'"
proof -
  have "mset (held ag') \<subseteq># add_mset (rb_addr (recv_buf wc)) (mset (held ag))"
    using assms(1)
  proof cases
    case data_drop
    then show ?thesis by (simp add: held_def)
  next
    case (data_known i r' fr)
    have "mset (held_by r') \<subseteq># add_mset (rb_addr (recv_buf wc)) (mset (held_by (rmpp_recvs ag ! i)))"
      using data_known(3) by (auto simp: seg_step_def held_by_def)
    then show ?thesis
      using held_split [OF data_known(1)] held_update [OF data_known(1,4)] by (simp flip: union_mset_add_mset_left)
  next
    case (data_new r')
    then show ?thesis by (auto simp: held_def held_by_def)
  qed
  then have "distinct (held ag')"
    using assms(2,3) 
    by (intro distinct_submset [of "held ag'" "rb_addr (recv_buf wc) # held ag"]) (simp_all add: agent_ok_def new_packet_def)
  moreover have "\<forall>r \<in> set (rmpp_recvs ag'). recv_ok r"
    using assms(1,2)
    by (cases; fastforce simp: agent_ok_def seg_step_def dest!: set_update_subset_insert [THEN subsetD])
  moreover have "distinct (map recv_key (rmpp_recvs ag'))"
    using assms(1)
  proof cases
    case (data_known i r' fr)
    then have "map recv_key (rmpp_recvs ag') = map recv_key (rmpp_recvs ag)"
      by (metis list_update_id map_update seg_step_def)
    then show ?thesis using assms(2) by (simp add: agent_ok_def)
  qed (use assms(2) in \<open>simp_all add: agent_ok_def\<close>)
  ultimately show ?thesis by (simp add: agent_ok_def)
qed


text \<open>The other handlers remove transactions and free what they held.\<close>

lemma remove_nth_sub: "set (remove_nth i xs) \<subseteq> set xs"
  by (auto simp: remove_nth_def dest: in_set_takeD in_set_dropD)

lemma distinct_remove_nth: "distinct (map f xs) \<Longrightarrow> distinct (map f (remove_nth i xs))"
proof -
  assume "distinct (map f xs)"
  then have "distinct (map f (take i xs) @ map f (drop i xs))" by (simp flip: map_append)
  moreover have "set (map f (drop (Suc i) xs)) \<subseteq> set (map f (drop i xs))"
    using set_drop_subset_set_drop [of i "Suc i" xs] by auto
  ultimately show ?thesis
    using \<open>distinct (map f xs)\<close> by (auto simp: remove_nth_def drop_map [symmetric])
qed

lemma agent_ok_removed:
  assumes ok: "agent_ok ag" and i: "i < length (rmpp_recvs ag)" and ag': "rmpp_recvs ag' = remove_nth i (rmpp_recvs ag)"
  shows "agent_ok ag'"
proof -
  have "mset (held ag') \<subseteq># mset (held ag)" using held_split [OF i] by (simp add: held_def ag')
  then have "distinct (held ag')" using ok distinct_submset by (auto simp: agent_ok_def)
  then show ?thesis
    using ok remove_nth_sub [of i "rmpp_recvs ag"] distinct_remove_nth [of recv_key "rmpp_recvs ag" i]
    by (auto simp: agent_ok_def ag')
qed

lemma recv_timeout_handler_step:
  assumes ok: "agent_ok ag" and i: "i < length (rmpp_recvs ag)"
  shows "\<exists>ag'. recv_timeout_handler env i ag = Some ag' \<and>
    (if rr_state (rmpp_recvs ag ! i) = RMPP_STATE_ACTIVE
     then rmpp_recvs ag' = remove_nth i (rmpp_recvs ag) \<and>
          freed_mads ag' = freed_mads ag @ held_by (rmpp_recvs ag ! i)
     else ag' = ag)"
proof -
  have "rr_refcount (rmpp_recvs ag ! i) = 1" using ok i by (simp add: agent_ok_def recv_ok_def)
  then show ?thesis
    using i by (simp add: recv_timeout_handler_def destroy_rmpp_recv_def deref_rmpp_recv_def
        ib_free_recv_mad_def nack_recv_frame held_by_def recv_segs_def Let_def)
qed

lemma recv_cleanup_handler_step:
  assumes ok: "agent_ok ag" and i: "i < length (rmpp_recvs ag)"
  shows "\<exists>ag'. recv_cleanup_handler i ag = Some ag' \<and> rmpp_recvs ag' = remove_nth i (rmpp_recvs ag) \<and>
    freed_mads ag' = freed_mads ag"
proof -
  have "rr_refcount (rmpp_recvs ag ! i) = 1" using ok i by (simp add: agent_ok_def recv_ok_def)
  then show ?thesis
    using i by (simp add: recv_cleanup_handler_def destroy_rmpp_recv_def deref_rmpp_recv_def)
qed

lemma cancel_recvs_step:
  "\<forall>r \<in> set rs. recv_ok r \<Longrightarrow> \<exists>ag'. cancel_recvs rs ag = Some ag' \<and> rmpp_recvs ag' = rmpp_recvs ag \<and>
     freed_mads ag' = freed_mads ag @ concat (map held_by rs)"
proof (induction rs arbitrary: ag)
  case (Cons r rs)
  have r: "rr_refcount r = 1" "rr_state r \<noteq> RMPP_STATE_TIMEOUT" using Cons.prems by (simp_all add: recv_ok_def)
  then have a: "rr_state r = RMPP_STATE_ACTIVE \<longleftrightarrow> rr_state r \<noteq> RMPP_STATE_COMPLETE" by (cases "rr_state r") auto
  let ?ag = "(if rr_state r \<noteq> RMPP_STATE_COMPLETE then ib_free_recv_mad (rmpp_wc r) ag else ag)\<lparr>freed_ahs := rr_ah r # freed_ahs ag\<rparr>"
  have "rmpp_recvs ?ag = rmpp_recvs ag" "freed_mads ?ag = freed_mads ag @ held_by r"
    by (simp_all add: ib_free_recv_mad_def held_by_def recv_segs_def a)
  then show ?case
    using Cons.IH [of ?ag] Cons.prems r
    by (auto simp: destroy_rmpp_recv_def deref_rmpp_recv_def ib_free_recv_mad_def Let_def split: if_splits)
qed simp

lemma ib_cancel_rmpp_recvs_step:
  assumes "agent_ok ag"
  shows "\<exists>ag'. ib_cancel_rmpp_recvs ag = Some ag' \<and> rmpp_recvs ag' = [] \<and> freed_mads ag' = freed_mads ag @ held ag"
  using cancel_recvs_step [of "rmpp_recvs ag" "ag\<lparr>rmpp_recvs := []\<rparr>"] assms
  by (simp add: ib_cancel_rmpp_recvs_def agent_ok_def held_def)

lemma reach_agent_ok: "rmpp_reach G ag D A \<Longrightarrow> agent_ok ag"
proof (induction rule: rmpp_reach.induct)
  case (reach_data ag D A wc env res ag')
  then show ?case
    using process_rmpp_data_step [of ag wc env] data_step_ok by (force simp: agent_ok_def)
next
  case (reach_timeout ag D A i env ag')
  then show ?case
    using recv_timeout_handler_step [of ag i env] agent_ok_removed [of ag i ag'] by (auto split: if_splits)
next
  case (reach_cleanup ag D A i ag')
  then show ?case
    using recv_cleanup_handler_step [of ag i] agent_ok_removed [of ag i ag'] by auto
next
  case (reach_cancel ag D A ag')
  then show ?case using ib_cancel_rmpp_recvs_step [of ag] by (auto simp: agent_ok_def held_def)
qed (simp add: agent_ok_def held_def)

text \<open>Every packet that arrived is freed, held by an unfinished transaction, or was delivered: exactly once.\<close>

abbreviation delivered_addrs :: "ib_mad_recv_wc list \<Rightarrow> nat list" where
  "delivered_addrs D \<equiv> concat (map (\<lambda>w. addrs (rmpp_list w)) D)"

lemma cleanup_complete: "recv_ok r \<Longrightarrow> cleanup_queued r \<Longrightarrow> rr_state r = RMPP_STATE_COMPLETE"
  by (simp add: recv_ok_def)

lemma cleanup_holds_nothing:
  "agent_ok ag \<Longrightarrow> i < length (rmpp_recvs ag) \<Longrightarrow> cleanup_queued (rmpp_recvs ag ! i) \<Longrightarrow> held_by (rmpp_recvs ag ! i) = []"
  using cleanup_complete [of "rmpp_recvs ag ! i"] by (simp add: agent_ok_def held_by_def)

lemma reach_conserves:
  "rmpp_reach G ag D A \<Longrightarrow> mset (freed_mads ag) + mset (held ag) + mset (delivered_addrs D) = mset A"
proof (induction rule: rmpp_reach.induct)
  case (reach_data ag D A wc env res ag')
  have "\<forall>r \<in> set (rmpp_recvs ag). recv_ok r" using reach_agent_ok [OF reach_data(1)] by (simp add: agent_ok_def)
  then have "data_step wc ag res ag'" using process_rmpp_data_step [of ag wc env] reach_data by auto
  then show ?case
    using data_step_conserves [of wc ag res ag'] reach_data.IH
    by (cases res) (simp_all add: ac_simps flip: reach_data.IH)
next
  case (reach_timeout ag D A i env ag')
  note i = reach_timeout(2)
  have "mset (freed_mads ag') + mset (held ag') = mset (freed_mads ag) + mset (held ag)"
    using recv_timeout_handler_step [OF reach_agent_ok [OF reach_timeout(1)] i, of env] reach_timeout(4) held_split [OF i]
    by (auto simp: held_def split: if_splits)
  then show ?case using reach_timeout.IH by simp
next
  case (reach_cleanup ag D A i ag')
  note ok = reach_agent_ok [OF reach_cleanup(1)] and i = reach_cleanup(2)
  have "mset (freed_mads ag') + mset (held ag') = mset (freed_mads ag) + mset (held ag)"
    using recv_cleanup_handler_step [OF ok i] reach_cleanup(4) held_split [OF i] cleanup_holds_nothing [OF ok i reach_cleanup(3)]
    by (auto simp: held_def)
  then show ?case using reach_cleanup.IH by simp
next
  case (reach_cancel ag D A ag')
  then show ?case using ib_cancel_rmpp_recvs_step [OF reach_agent_ok [OF reach_cancel(1)]] by (auto simp: held_def)
qed (simp add: held_def)


section \<open>Reassembly\<close>

text \<open>
  The packets of a transaction are copies of the \<open>N\<close> segments of one message: segment \<open>i\<close> carries
  the number \<open>i\<close>, and the last one the flag.
\<close>

definition message :: "int \<Rightarrow> (int \<Rightarrow> ib_rmpp_mad) \<Rightarrow> bool" where
  "message N orig \<longleftrightarrow> 1 \<le> N \<and> N < 2 ^ 31 \<and>
     (\<forall>i \<in> {1..N}. sint (hdr_seg_num (rmpp_hdr (orig i))) = i \<and>
        (has_flag (ib_get_rmpp_flags (rmpp_hdr (orig i))) IB_MGMT_RMPP_FLAG_LAST \<longleftrightarrow> i = N))"

definition copies_of :: "int \<Rightarrow> (int \<Rightarrow> ib_rmpp_mad) \<Rightarrow> ib_mad_recv_buf list \<Rightarrow> bool" where
  "copies_of N orig bs \<longleftrightarrow> (\<forall>b \<in> set bs. \<exists>i \<in> {1..N}. rb_mad b = orig i)"

lemma copy_num:
  assumes "message N orig" "i \<in> {1..N}" "rb_mad b = orig i"
  shows "get_seg_num b = i" and "get_last_flag b \<longleftrightarrow> i = N"
  using assms by (auto simp: message_def get_seg_num_def get_last_flag_def)

text \<open>A completed transaction has all segments, in order, once.\<close>

lemma complete_message:
  assumes "recv_ok r" "rr_state r = RMPP_STATE_COMPLETE" "message N orig" "copies_of N orig (recv_segs r)"
  shows "map rb_mad (recv_segs r) = map orig [1..N]"
proof -
  obtain P Q where PQ: "recv_segs r = P @ Q" "segs_split (seg_num r) (cur_seg_buf r) P Q"
    using assms(1) by (auto simp: recv_ok_def)
  have num: "get_seg_num b \<in> {1..N} \<and> rb_mad b = orig (get_seg_num b)" if h: "b \<in> set (recv_segs r)" for b
    using assms(3,4) h copy_num(1) by (fastforce simp: copies_of_def)
  have c: "cur_seg_buf r = last P" "P \<noteq> []" using PQ(2) by (auto simp: segs_split_def)
  then have "get_last_flag (last P)" "last P \<in> set (recv_segs r)" using assms(1,2) PQ(1) by (auto simp: recv_ok_def)
  then have N: "seg_num r = N"
    using num copy_num(2) [OF assms(3)] segs_split_last [OF PQ(2)] by metis
  have "get_seg_num b \<le> N" if "b \<in> set Q" for b using num that PQ(1) by simp
  then have "Q = []" using PQ(2) N by (cases Q) (force simp: segs_split_def)+
  moreover have "map rb_mad P = map orig (nums P)" using num PQ(1) by simp
  moreover have "nums P = [1..N]" using PQ(2) N by (simp add: segs_split_def)
  ultimately show ?thesis using PQ(1) by (metis append_Nil2)
qed

definition agent_copies :: "(u64 \<times> u32 \<times> u32 \<times> u8 \<times> u8 \<times> u8) \<Rightarrow> int \<Rightarrow> (int \<Rightarrow> ib_rmpp_mad) \<Rightarrow> rmpp_agent \<Rightarrow> bool" where
  "agent_copies K N orig ag \<longleftrightarrow> (\<forall>r \<in> set (rmpp_recvs ag). recv_key r = K \<longrightarrow> copies_of N orig (recv_segs r))"

lemma seg_step_segs: "seg_step x r r' res fr \<Longrightarrow> set (recv_segs r') \<subseteq> insert x (set (recv_segs r))"
  by (auto simp: seg_step_def dest!: arg_cong [of "mset _" _ set_mset])

lemma data_step_copies:
  assumes "data_step wc ag res ag'" "agent_copies K N orig ag"
    and "wc_key wc = K \<longrightarrow> copies_of N orig [recv_buf wc]"
  shows "agent_copies K N orig ag'"
  using assms(1)
proof cases
  case data_drop
  then show ?thesis using assms(2) by (simp add: agent_copies_def)
next
  case (data_known i r' fr)
  have "copies_of N orig (recv_segs r')" if k: "recv_key r' = K"
  proof -
    have "copies_of N orig (recv_segs (rmpp_recvs ag ! i))" "copies_of N orig [recv_buf wc]"
      using assms(2,3) data_known k by (auto simp: agent_copies_def seg_step_def)
    then show ?thesis using seg_step_segs [OF data_known(3)] by (auto simp: copies_of_def)
  qed
  then show ?thesis
    using assms(2) data_known(4) by (auto simp: agent_copies_def dest!: set_update_subset_insert [THEN subsetD])
next
  case (data_new r')
  then show ?thesis using assms(2,3) by (auto simp: agent_copies_def)
qed

lemma data_step_delivers:
  assumes "data_step wc ag (Some w) ag'"
  obtains r where "r \<in> set (rmpp_recvs ag')" "recv_ok r" "rr_state r = RMPP_STATE_COMPLETE" "w = rmpp_wc r"
    "recv_key r = wc_key w"
  using assms
proof cases
  case (data_known i r' fr)
  then have r: "recv_ok r'" "rr_state r' = RMPP_STATE_COMPLETE" "w = rmpp_wc r'" by (auto simp: seg_step_def)
  then have "recv_key r' = wc_key w" by (simp add: recv_ok_def)
  moreover have "r' \<in> set (rmpp_recvs ag')" using data_known(1,4) by (simp add: set_update_memI)
  ultimately show ?thesis using that r by blast
next
  case (data_new r')
  then have r: "recv_ok r'" "rr_state r' = RMPP_STATE_COMPLETE" "w = rmpp_wc r'" by auto
  then have "recv_key r' = wc_key w" by (simp add: recv_ok_def)
  moreover have "r' \<in> set (rmpp_recvs ag')" using data_new by simp
  ultimately show ?thesis using that r by blast
qed

lemma removed_copies:
  "agent_copies K N orig ag \<Longrightarrow> rmpp_recvs ag' = remove_nth i (rmpp_recvs ag) \<Longrightarrow> agent_copies K N orig ag'"
  using remove_nth_sub [of i "rmpp_recvs ag"] by (auto simp: agent_copies_def)

lemma reach_copies:
  assumes "rmpp_reach G ag D A" and "\<And>wc. G wc \<Longrightarrow> wc_key wc = K \<Longrightarrow> copies_of N orig [recv_buf wc]"
  shows "agent_copies K N orig ag"
  using assms(1)
proof (induction rule: rmpp_reach.induct)
  case (reach_data ag D A wc env res ag')
  then show ?case
    using process_rmpp_data_step [of ag wc env] reach_agent_ok [OF reach_data(1)] data_step_copies assms(2)
    by (auto simp: agent_ok_def)
next
  case (reach_timeout ag D A i env ag')
  then show ?case
    using recv_timeout_handler_step [OF reach_agent_ok [OF reach_timeout(1)] reach_timeout(2), of env] removed_copies
    by (auto split: if_splits)
next
  case (reach_cleanup ag D A i ag')
  then show ?case
    using recv_cleanup_handler_step [OF reach_agent_ok [OF reach_cleanup(1)] reach_cleanup(2)] removed_copies by auto
next
  case (reach_cancel ag D A ag')
  then show ?case
    using ib_cancel_rmpp_recvs_step [OF reach_agent_ok [OF reach_cancel(1)]] by (auto simp: agent_copies_def)
qed (simp add: agent_copies_def)

lemma reach_delivers:
  assumes "rmpp_reach G ag D A" and good: "\<And>wc. G wc \<Longrightarrow> wc_key wc = K \<Longrightarrow> copies_of N orig [recv_buf wc]"
    and msg: "message N orig"
  shows "\<forall>w \<in> set D. wc_key w = K \<longrightarrow> map rb_mad (rmpp_list w) = map orig [1..N]"
  using assms(1)
proof (induction rule: rmpp_reach.induct)
  case (reach_data ag D A wc env res ag')
  have st: "data_step wc ag res ag'"
    using process_rmpp_data_step [of ag wc env] reach_agent_ok [OF reach_data(1)] reach_data by (auto simp: agent_ok_def)
  have "map rb_mad (rmpp_list w) = map orig [1..N]" if w: "res = Some w" "wc_key w = K" for w
  proof -
    have "data_step wc ag (Some w) ag'" using st w(1) by simp
    then obtain r where r: "r \<in> set (rmpp_recvs ag')" "recv_ok r" "rr_state r = RMPP_STATE_COMPLETE" "w = rmpp_wc r"
      "recv_key r = wc_key w"
      by (rule data_step_delivers)
    have "agent_copies K N orig ag'"
      using rmpp_reach.reach_data [OF reach_data(1-4)] good by (rule reach_copies)
    then have "copies_of N orig (recv_segs r)" using r(1,5) w(2) by (simp add: agent_copies_def)
    then show ?thesis using complete_message [OF r(2,3) msg] r(4) by (simp add: recv_segs_def)
  qed
  then show ?case using reach_data.IH by (auto split: option.splits)
qed simp_all


text \<open>A missing segment inside the window is never dropped.\<close>

lemma segs_split_gap: "segs_split n c P Q \<Longrightarrow> n + 1 \<notin> set (nums (P @ Q))"
  by (auto simp: segs_split_def dest: arg_cong [of "nums P" _ set])

lemma find_seg_missing: "l \<noteq> [] \<Longrightarrow> get_seg_num (hd l) < n \<Longrightarrow> n \<notin> set (nums l) \<Longrightarrow> find_seg_location l n \<noteq> None"
proof (induction l rule: rev_induct)
  case (snoc b bs)
  then show ?case by (cases "bs = []") (auto simp: find_seg_location_def)
qed simp

lemma recv_ok_first: "recv_ok r \<Longrightarrow> recv_segs r \<noteq> [] \<and> get_seg_num (hd (recv_segs r)) = 1"
proof -
  assume "recv_ok r"
  then obtain P Q where PQ: "recv_segs r = P @ Q" "nums P = [1..seg_num r]" "P \<noteq> []"
    by (auto simp: recv_ok_def segs_split_def)
  moreover have "hd (nums P) = 1" using PQ(2,3) by (cases "1 \<le> seg_num r") (simp_all add: upto_rec1)
  then have "get_seg_num (hd P) = 1" using PQ(3) by (metis hd_map)
  ultimately show ?thesis by simp
qed

lemma continue_rmpp_keeps:
  assumes ok: "\<forall>r \<in> set (rmpp_recvs ag). recv_ok r" and wc: "new_packet wc ag"
    and i: "find_rmpp_recv ag wc = Some i" and act: "rr_state (rmpp_recvs ag ! i) = RMPP_STATE_ACTIVE"
    and k: "1 < get_seg_num (recv_buf wc)" "get_seg_num (recv_buf wc) \<le> newwin (rmpp_recvs ag ! i)"
    and miss: "get_seg_num (recv_buf wc) \<notin> set (nums (recv_segs (rmpp_recvs ag ! i)))"
  shows "freed_mads (snd (continue_rmpp env wc ag)) = freed_mads ag"
proof -
  define r where "r = rmpp_recvs ag ! i"
  let ?x = "recv_buf wc"
  have il: "i < length (rmpp_recvs ag)"
    using find_index_Some [of "recv_matches wc" "rmpp_recvs ag" i] i by (simp add: find_rmpp_recv_def)
  then have rok: "recv_ok r" using ok by (simp add: r_def)
  have acq: "acquire_rmpp_recv ag wc = Some (i, r\<lparr>rr_refcount := Suc (rr_refcount r)\<rparr>)"
    using i by (simp add: acquire_rmpp_recv_def r_def Let_def)
  obtain P Q where PQ: "recv_segs r = P @ Q" "segs_split (seg_num r) (cur_seg_buf r) P Q"
    using rok by (auto simp: recv_ok_def)
  have "set (nums P) = {1..seg_num r}" using PQ(2) by (simp add: segs_split_def)
  then have "seg_num r < get_seg_num ?x" using miss k(1) PQ(1) by (fastforce simp: r_def)
  then have la: "last_ack r < get_seg_num ?x" using rok by (simp add: recv_ok_def)
  obtain prev where prev: "find_seg_location (recv_segs r) (get_seg_num ?x) = Some prev"
    using find_seg_missing [of "recv_segs r"] recv_ok_first [OF rok] k(1) miss by (auto simp: r_def)
  have fresh: "rb_addr ?x \<notin> set (addrs (recv_segs r))"
    using wc held_by_nth [OF il] act by (auto simp: new_packet_def held_by_def r_def)
  have kr: "get_seg_num ?x \<le> newwin r" "rr_state r = RMPP_STATE_ACTIVE" using k(2) act by (simp_all add: r_def)
  note st = in_window_step [OF rok kr(2) la kr(1) fresh prev refl refl, of env ag i, unfolded recv_segs_def]
  then obtain r' ms res where "continue_rmpp env wc ag = (res, ag\<lparr>posted := posted ag @ ms, rmpp_recvs := (rmpp_recvs ag)[i := r']\<rparr>)"
    using prev kr la by (auto simp: continue_rmpp_def acq Let_def recv_segs_def)
  then show ?thesis by simp
qed

lemma find_rmpp_recv_nth:
  assumes "distinct (map recv_key (rmpp_recvs ag))" "j < length (rmpp_recvs ag)" "recv_key (rmpp_recvs ag ! j) = wc_key wc"
  shows "find_rmpp_recv ag wc = Some j"
proof (cases "find_rmpp_recv ag wc")
  case None
  then show ?thesis using assms(2,3) by (auto simp: find_rmpp_recv_def find_index_None recv_matches_iff)
next
  case (Some i)
  then have "i < length (rmpp_recvs ag)" "recv_key (rmpp_recvs ag ! i) = wc_key wc"
    using find_index_Some [of "recv_matches wc" "rmpp_recvs ag" i] by (simp_all add: find_rmpp_recv_def recv_matches_iff)
  then have "i = j" using assms by (metis length_map nth_eq_iff_index_eq nth_map)
  then show ?thesis using Some by simp
qed

lemma all_segs_complete:
  assumes "recv_ok r" "message N orig" "copies_of N orig (recv_segs r)" "{1..N} \<subseteq> set (nums (recv_segs r))"
  shows "rr_state r = RMPP_STATE_COMPLETE"
proof -
  obtain P Q where PQ: "recv_segs r = P @ Q" "segs_split (seg_num r) (cur_seg_buf r) P Q"
    using assms(1) by (auto simp: recv_ok_def)
  have c: "cur_seg_buf r \<in> set (recv_segs r)" "get_seg_num (cur_seg_buf r) = seg_num r"
    using PQ segs_split_last [OF PQ(2)] last_in_set [of P] by (auto simp: segs_split_def)
  then obtain i where i: "i \<in> {1..N}" "rb_mad (cur_seg_buf r) = orig i"
    using assms(3) by (auto simp: copies_of_def)
  note num = copy_num [OF assms(2) i]
  have "seg_num r + 1 \<notin> {1..N}" using segs_split_gap [OF PQ(2)] assms(4) PQ(1) by (metis subsetD)
  then have "i = N" using i(1) num(1) c(2) by auto
  then show ?thesis using num(2) assms(1) by (simp add: recv_ok_def)
qed

lemma last_segment_in_window:
  assumes ok: "agent_ok ag" and j: "j < length (rmpp_recvs ag)" "rr_state (rmpp_recvs ag ! j) = RMPP_STATE_ACTIVE"
    and i: "i \<in> {1..N}" and rest: "set (nums (recv_segs (rmpp_recvs ag ! j))) = {1..N} - {i}"
  shows "i \<le> newwin (rmpp_recvs ag ! j)"
proof -
  define r where "r = rmpp_recvs ag ! j"
  have rok: "recv_ok r" using ok j(1) by (simp add: agent_ok_def r_def)
  then obtain P Q where PQ: "recv_segs r = P @ Q" "segs_split (seg_num r) (cur_seg_buf r) P Q"
    by (auto simp: recv_ok_def)
  have "seg_num r + 1 \<notin> {1..N} - {i}" using segs_split_gap [OF PQ(2)] rest PQ(1) unfolding r_def by metis
  moreover have "1 \<le> seg_num r" "seg_num r < newwin r"
    using recv_ok_seg_mono(1) [OF rok] rok j(2) by (simp_all add: recv_ok_def r_def)
  ultimately show ?thesis using i by (auto simp: r_def)
qed

lemma last_segment_completes:
  assumes ok: "agent_ok ag" and wc: "new_packet wc ag"
    and j: "j < length (rmpp_recvs ag)" "recv_key (rmpp_recvs ag ! j) = wc_key wc" "rr_state (rmpp_recvs ag ! j) = RMPP_STATE_ACTIVE"
    and msg: "message N orig" "copies_of N orig (recv_segs (rmpp_recvs ag ! j))"
    and i: "i \<in> {1..N}" "rb_mad (recv_buf wc) = orig i"
    and rest: "set (nums (recv_segs (rmpp_recvs ag ! j))) = {1..N} - {i}"
    and hdr: "rmpp_status (rmpp_hdr (orig i)) = 0"
      "\<not> has_flag (ib_get_rmpp_flags (rmpp_hdr (orig i))) IB_MGMT_RMPP_FLAG_FIRST"
  shows "\<exists>w ag'. process_rmpp_data env wc ag = Some (Some w, ag') \<and> map rb_mad (rmpp_list w) = map orig [1..N]"
proof -
  define r where "r = rmpp_recvs ag ! j"
  have oks: "\<forall>r \<in> set (rmpp_recvs ag). recv_ok r" using ok by (simp add: agent_ok_def)
  then have rok: "recv_ok r" using j(1) by (simp add: r_def)
  have num: "get_seg_num (recv_buf wc) = i" by (rule copy_num(1) [OF msg(1) i])
  have "hd (nums (recv_segs r)) \<in> set (nums (recv_segs r))" using recv_ok_first [OF rok] by (intro hd_in_set) simp
  moreover have "hd (nums (recv_segs r)) = 1" using recv_ok_first [OF rok] by (simp add: hd_map)
  ultimately have i1: "1 < i" using rest i(1) by (auto simp: r_def)
  have win: "i \<le> newwin r" using last_segment_in_window [OF ok j(1,3) i(1) rest] by (simp add: r_def)
  have find: "find_rmpp_recv ag wc = Some j" using find_rmpp_recv_nth ok j(1,2) by (simp add: agent_ok_def)
  have "hdr_seg_num (rmpp_hdr (rb_mad (recv_buf wc))) \<noteq> 1" using num i1 by (auto simp: get_seg_num_def)
  then have pc: "process_rmpp_data env wc ag = Some (continue_rmpp env wc ag)"
    using hdr i(2) by (simp add: process_rmpp_data_def Let_def)
  obtain res ag' where c: "continue_rmpp env wc ag = (res, ag')" "data_step wc ag res ag'"
    using continue_rmpp_step [OF oks wc] by blast
  have keep: "freed_mads ag' = freed_mads ag"
    using continue_rmpp_keeps [OF oks wc find j(3), of env] num i1 win rest c(1) by (simp add: r_def)
  obtain r' where r': "seg_step (recv_buf wc) r r' res []"
    using c(2)
  proof cases
    case (data_known i' r' fr)
    then have "i' = j" using find_rmpp_recv_nth [of ag i' wc] ok find by (simp add: agent_ok_def)
    then show ?thesis using that [of r'] data_known(3,5) keep by (simp add: r_def)
  next
    case data_new
    then show ?thesis using j(1,2) by (metis imageI nth_mem)
  qed (use keep in simp)
  have segs: "set (recv_segs r') = insert (recv_buf wc) (set (recv_segs r))" "recv_ok r'"
    using r' by (auto simp: seg_step_def dest!: arg_cong [of "mset _" _ set_mset])
  have cp: "copies_of N orig (recv_segs r')" using msg(2) i segs(1) by (auto simp: copies_of_def r_def)
  have "set (nums (recv_segs r')) = insert i ({1..N} - {i})" using segs(1) num rest by (simp add: r_def)
  then have cpl: "rr_state r' = RMPP_STATE_COMPLETE"
    using all_segs_complete [OF segs(2) msg(1) cp] by auto
  then have "res = Some (rmpp_wc r')" using r' by (auto simp: seg_step_def)
  moreover have "map rb_mad (rmpp_list (rmpp_wc r')) = map orig [1..N]"
    using complete_message [OF segs(2) cpl msg(1) cp] by (simp add: recv_segs_def)
  ultimately show ?thesis using pc c(1) by simp
qed


section \<open>An example run\<close>

text \<open>A message of two segments, received in order by an idle agent.\<close>

definition ex_seg :: "u32 \<Rightarrow> u8 \<Rightarrow> ib_rmpp_mad" where
  "ex_seg n fl = zero_rmpp_mad\<lparr>mad_hdr := (mad_hdr zero_rmpp_mad)\<lparr>mgmt_class := 3, mad_method := 0x92, mad_tid := 7\<rparr>,
     rmpp_hdr := \<lparr>rmpp_version = 1, rmpp_type = 1, rmpp_rtime_flags = fl, rmpp_status = 0, hdr_seg_num = n,
       paylen_newwin = 220\<rparr>, mad_data := [word_of_nat (unat n)]\<rparr>"

definition ex_orig :: "int \<Rightarrow> ib_rmpp_mad" where
  "ex_orig i = (if i = 1 then ex_seg 1 3 else ex_seg 2 5)"

definition ex_wc :: "nat \<Rightarrow> int \<Rightarrow> ib_mad_recv_wc" where
  "ex_wc a i = (let b = \<lparr>rb_addr = a, rb_mad = ex_orig i\<rparr>
     in \<lparr>wc_src_qp = 1, wc_slid = 4, wc_pkey_index = 0, recv_buf = b, rmpp_list = [b], mad_len = 0\<rparr>)"

definition ex_env :: rmpp_env where
  "ex_env = \<lparr>env_ah = Some 5, env_kmalloc = True, env_create = True, env_post = True\<rparr>"

definition ex_agent0 :: rmpp_agent where
  "ex_agent0 = \<lparr>rmpp_recvs = [], max_active = 512, opa_mad = False, posted = [], freed_mads = [], freed_ahs = []\<rparr>"

definition ex_agent1 :: rmpp_agent where
  "ex_agent1 = snd (the (process_rmpp_data ex_env (ex_wc 10 1) ex_agent0))"

definition ex_agent2 :: rmpp_agent where
  "ex_agent2 = snd (the (process_rmpp_data ex_env (ex_wc 11 2) ex_agent1))"

definition ex_done :: ib_mad_recv_wc where
  "ex_done = the (fst (the (process_rmpp_data ex_env (ex_wc 11 2) ex_agent1)))"

definition ex_net :: "ib_mad_recv_wc \<Rightarrow> bool" where
  "ex_net wc \<longleftrightarrow> wc = ex_wc 10 1 \<or> wc = ex_wc 11 2"

lemma ex_reach1: "rmpp_reach ex_net ex_agent1 [] [10]"
proof -
  have "process_rmpp_data ex_env (ex_wc 10 1) ex_agent0 = Some (None, ex_agent1)" by code_simp
  moreover have "new_packet (ex_wc 10 1) ex_agent0" by code_simp
  moreover have "rmpp_reach ex_net ex_agent0 [] []" by (rule reach_init) (simp_all add: ex_agent0_def)
  moreover have "ex_net (ex_wc 10 1)" by (simp add: ex_net_def)
  ultimately have "rmpp_reach ex_net ex_agent1 ([] @ (case None of None \<Rightarrow> [] | Some w \<Rightarrow> [w])) ([] @ [rb_addr (recv_buf (ex_wc 10 1))])"
    by (intro reach_data) assumption+
  then show ?thesis by (simp add: ex_wc_def Let_def)
qed

lemma ex_packet2: "new_packet (ex_wc 11 2) ex_agent1"
  by code_simp

lemma ex_reach2: "rmpp_reach ex_net ex_agent2 [ex_done] [10, 11]"
proof -
  have "process_rmpp_data ex_env (ex_wc 11 2) ex_agent1 = Some (Some ex_done, ex_agent2)" by code_simp
  moreover have "ex_net (ex_wc 11 2)" by (simp add: ex_net_def)
  ultimately have "rmpp_reach ex_net ex_agent2 ([] @ (case Some ex_done of None \<Rightarrow> [] | Some w \<Rightarrow> [w])) ([10] @ [rb_addr (recv_buf (ex_wc 11 2))])"
    using ex_reach1 ex_packet2 by (intro reach_data) assumption+
  then show ?thesis by (simp add: ex_wc_def Let_def)
qed

lemma ex_message: "message 2 ex_orig"
proof -
  have "sint (hdr_seg_num (rmpp_hdr (ex_orig 1))) = 1" "sint (hdr_seg_num (rmpp_hdr (ex_orig 2))) = 2"
    "has_flag (ib_get_rmpp_flags (rmpp_hdr (ex_orig 2))) IB_MGMT_RMPP_FLAG_LAST"
    "\<not> has_flag (ib_get_rmpp_flags (rmpp_hdr (ex_orig 1))) IB_MGMT_RMPP_FLAG_LAST"
    by code_simp+
  moreover have "{1..2::int} = {1, 2}" by auto
  ultimately show ?thesis by (simp add: message_def)
qed

lemma ex_copies: "ex_net wc \<Longrightarrow> copies_of 2 ex_orig [recv_buf wc]"
  by (auto simp: ex_net_def copies_of_def ex_wc_def Let_def intro: bexI [of _ 1] bexI [of _ 2])

section \<open>Properties\<close>

text \<open>
  C2: Reassembly is correct under loss, duplication, reordering and memory pressure. If every
  packet that carries the key \<open>K\<close> of a transaction is a copy of one of the \<open>N\<close> segments of a message,
  then whatever arrives, in whichever order and with whichever timers firing, a message delivered
  under the key \<open>K\<close> consists of exactly the segments \<open>1, \<dots>, N\<close> in their order.
\<close>

theorem rmpp_reassembly:
  assumes "rmpp_reach G ag D A"
    and "\<And>wc. G wc \<Longrightarrow> wc_key wc = K \<Longrightarrow> copies_of N orig [recv_buf wc]"
    and "message N orig" and "w \<in> set D" and "wc_key w = K"
  shows "map rb_mad (rmpp_list w) = map orig [1..N]"
  using reach_delivers [OF assms(1-3)] assms(4,5) by blast

theorem rmpp_reassembly_witness:
  "wc_key ex_done = (7, 1, 4, 3, 0, 0x92) \<and> map rb_mad (rmpp_list ex_done) = [ex_seg 1 3, ex_seg 2 5]"
proof -
  have k: "wc_key ex_done = (7, 1, 4, 3, 0, 0x92)" by code_simp
  have "[1..2] = [1, 2::int]" by (simp add: upto_rec1)
  then have "map rb_mad (rmpp_list ex_done) = [ex_seg 1 3, ex_seg 2 5]"
    using rmpp_reassembly [OF ex_reach2 ex_copies ex_message, of "(7, 1, 4, 3, 0, 0x92)" ex_done] k by (simp add: ex_orig_def)
  then show ?thesis using k by simp
qed

text \<open>
  While handlers run one after the other, the memory of packets is neither leaked nor freed twice: every buffer
  handed to the protocol is at each moment either freed, in the list of exactly one unfinished transaction, or
  delivered to the client, and it is counted once. A timeout that comes in between the steps of \<open>continue_rmpp\<close> breaks this, see
  \<open>Rmpp_Race\<close>.
\<close>

lemma rmpp_packet_ownership:
  assumes "rmpp_reach G ag D A"
  shows "mset (freed_mads ag) + mset (held ag) + mset (delivered_addrs D) = mset A \<and> distinct (held ag)"
  using reach_conserves [OF assms] reach_agent_ok [OF assms] by (simp add: agent_ok_def)

text \<open>
  C31: No handler of the receive side blocks on a transaction that another one holds. In every
  reachable state a packet is processed to the end, and each transaction has a queued timer
  whose handler returns and removes it, so that none stays for ever.
\<close>

theorem rmpp_handlers_return:
  assumes "rmpp_reach G ag D A"
  shows "(new_packet wc ag \<longrightarrow> (\<exists>res ag'. process_rmpp_data env wc ag = Some (res, ag'))) \<and>
    (i < length (rmpp_recvs ag) \<longrightarrow>
       (timeout_queued (rmpp_recvs ag ! i) \<and> (\<exists>ag'. recv_timeout_handler env i ag = Some ag' \<and>
          rmpp_recvs ag' = remove_nth i (rmpp_recvs ag))) \<or>
       (cleanup_queued (rmpp_recvs ag ! i) \<and> (\<exists>ag'. recv_cleanup_handler i ag = Some ag' \<and>
          rmpp_recvs ag' = remove_nth i (rmpp_recvs ag)))) \<and>
    (\<exists>ag'. ib_cancel_rmpp_recvs ag = Some ag' \<and> rmpp_recvs ag' = [] \<and> freed_mads ag' = freed_mads ag @ held ag)"
proof -
  have ok: "agent_ok ag" by (rule reach_agent_ok [OF assms])
  then have oks: "\<forall>r \<in> set (rmpp_recvs ag). recv_ok r" by (simp add: agent_ok_def)
  have "timeout_queued (rmpp_recvs ag ! i) \<and> (\<exists>ag'. recv_timeout_handler env i ag = Some ag' \<and>
          rmpp_recvs ag' = remove_nth i (rmpp_recvs ag)) \<or>
        cleanup_queued (rmpp_recvs ag ! i) \<and> (\<exists>ag'. recv_cleanup_handler i ag = Some ag' \<and>
          rmpp_recvs ag' = remove_nth i (rmpp_recvs ag))" if i: "i < length (rmpp_recvs ag)"
  proof -
    have r: "recv_ok (rmpp_recvs ag ! i)" using oks i by simp
    show ?thesis
    proof (cases "rr_state (rmpp_recvs ag ! i)")
      case RMPP_STATE_ACTIVE
      then have "timeout_queued (rmpp_recvs ag ! i)" using r by (simp add: recv_ok_def)
      then show ?thesis using RMPP_STATE_ACTIVE recv_timeout_handler_step [OF ok i, of env] by auto
    next
      case RMPP_STATE_COMPLETE
      then have "cleanup_queued (rmpp_recvs ag ! i)" using r by (simp add: recv_ok_def)
      then show ?thesis using recv_cleanup_handler_step [OF ok i] by auto
    qed (use r in \<open>simp add: recv_ok_def\<close>)
  qed
  then show ?thesis
    using process_rmpp_data_step [OF oks, of wc env] ib_cancel_rmpp_recvs_step [OF ok] by blast
qed

theorem rmpp_handlers_return_witness:
  "(\<exists>res ag'. process_rmpp_data ex_env (ex_wc 11 2) ex_agent1 = Some (res, ag')) \<and>
   (timeout_queued (rmpp_recvs ex_agent1 ! 0) \<and> (\<exists>ag'. recv_timeout_handler ex_env 0 ex_agent1 = Some ag' \<and>
      rmpp_recvs ag' = remove_nth 0 (rmpp_recvs ex_agent1)) \<or>
    cleanup_queued (rmpp_recvs ex_agent1 ! 0) \<and> (\<exists>ag'. recv_cleanup_handler 0 ex_agent1 = Some ag' \<and>
      rmpp_recvs ag' = remove_nth 0 (rmpp_recvs ex_agent1)))"
proof -
  have "0 < length (rmpp_recvs ex_agent1)" by code_simp
  then show ?thesis
    using rmpp_handlers_return [OF ex_reach1, of "ex_wc 11 2" ex_env 0] ex_packet2 by simp
qed

text \<open>
  C28: The last missing segment completes its message, whichever segment it is: when a transaction
  holds all segments but one and that one arrives, it lies inside the receive window, and the whole
  message is delivered in order.
\<close>

theorem rmpp_last_segment:
  assumes "rmpp_reach G ag D A" and "new_packet wc ag"
    and "j < length (rmpp_recvs ag)" "recv_key (rmpp_recvs ag ! j) = wc_key wc"
      "rr_state (rmpp_recvs ag ! j) = RMPP_STATE_ACTIVE"
    and "message N orig" "copies_of N orig (recv_segs (rmpp_recvs ag ! j))"
    and "i \<in> {1..N}" "rb_mad (recv_buf wc) = orig i"
    and "set (map get_seg_num (recv_segs (rmpp_recvs ag ! j))) = {1..N} - {i}"
    and "rmpp_status (rmpp_hdr (orig i)) = 0"
      "\<not> has_flag (ib_get_rmpp_flags (rmpp_hdr (orig i))) IB_MGMT_RMPP_FLAG_FIRST"
  shows "i \<le> newwin (rmpp_recvs ag ! j) \<and>
    (\<exists>w ag'. process_rmpp_data env wc ag = Some (Some w, ag') \<and> map rb_mad (rmpp_list w) = map orig [1..N])"
  using last_segment_completes [OF reach_agent_ok [OF assms(1)] assms(2-)]
    last_segment_in_window [OF reach_agent_ok [OF assms(1)] assms(3,5,8,10)] by blast

theorem rmpp_last_segment_witness:
  "\<exists>w ag'. process_rmpp_data ex_env (ex_wc 11 2) ex_agent1 = Some (Some w, ag') \<and>
     map rb_mad (rmpp_list w) = [ex_seg 1 3, ex_seg 2 5]"
proof -
  have r: "0 < length (rmpp_recvs ex_agent1)" "recv_key (rmpp_recvs ex_agent1 ! 0) = wc_key (ex_wc 11 2)"
    "rr_state (rmpp_recvs ex_agent1 ! 0) = RMPP_STATE_ACTIVE"
    "recv_segs (rmpp_recvs ex_agent1 ! 0) = [\<lparr>rb_addr = 10, rb_mad = ex_orig 1\<rparr>]"
    "get_seg_num \<lparr>rb_addr = 10, rb_mad = ex_orig 1\<rparr> = 1" "rmpp_status (rmpp_hdr (ex_orig 2)) = 0"
    "\<not> has_flag (ib_get_rmpp_flags (rmpp_hdr (ex_orig 2))) IB_MGMT_RMPP_FLAG_FIRST"
    by code_simp+
  have c: "copies_of 2 ex_orig (recv_segs (rmpp_recvs ex_agent1 ! 0))"
    using r(4) by (auto simp: copies_of_def intro: bexI [of _ 1])
  have "{1..2} - {2} = {1::int}" by auto
  then have s: "set (map get_seg_num (recv_segs (rmpp_recvs ex_agent1 ! 0))) = {1..2} - {2}" using r(4,5) by simp
  have m: "2 \<in> {1..2::int}" "rb_mad (recv_buf (ex_wc 11 2)) = ex_orig 2" by (simp_all add: ex_wc_def Let_def)
  have "[1..2] = [1, 2::int]" by (simp add: upto_rec1)
  then show ?thesis
    using rmpp_last_segment [OF ex_reach1 ex_packet2 r(1-3) ex_message c m s r(6,7), of ex_env] by (simp add: ex_orig_def)
qed

end
