(* ===== verification/Rmpp_Race.thy ===== *)
theory Rmpp_Race
  imports Rmpp_Recv
begin

text \<open>
  The receive side of the multi-packet protocol with its two locks, \<open>core/mad_rmpp.c\<close>. In \<open>Rmpp_Recv\<close> a
  handler is one step. Here \<open>continue_rmpp\<close>, which examines a transaction under the transaction's lock, and
  \<open>recv_timeout_handler\<close>, which examines it under the agent's lock and runs on another workqueue, are two
  threads on one transaction whose steps interleave. A thread that runs alone does what its handler does in
  \<open>Rmpp_Recv\<close>.
\<close>

section \<open>Two threads\<close>

text \<open>Where \<open>continue_rmpp\<close> is; \<open>RxTested\<close> is behind its test of the state, with the transaction's lock held.\<close>

datatype rx_pc = RxStart | RxAcquired | RxAck | RxDrop | RxTested | RxAckNext | RxCompleting
  | RxOut "ib_mad_recv_wc option" | RxDone "ib_mad_recv_wc option"

datatype tm_pc = TmStart | TmMarked | TmReleased | TmDone

text \<open>
  The agent, the memory of the transaction, whether the transaction is in the agent's list and whether it has been freed,
  and the two threads. \<open>rc_marked_at\<close> records where \<open>continue_rmpp\<close> was when the timeout took effect.
\<close>

record race =
  rc_ag :: rmpp_agent
  rc_tr :: mad_rmpp_recv
  rc_linked :: bool
  rc_freed :: bool
  rc_rx :: rx_pc
  rc_tm :: tm_pc
  rc_marked_at :: "rx_pc option"

definition rx_lock_test :: "ib_mad_recv_wc \<Rightarrow> mad_rmpp_recv \<Rightarrow> rx_pc" where
  "rx_lock_test wc r =
     (let n = get_seg_num (recv_buf wc)
      in if rr_state r = RMPP_STATE_TIMEOUT \<or> n > newwin r then RxDrop
         else if n \<le> last_ack r \<or> rr_state r = RMPP_STATE_COMPLETE then RxAck
         else RxTested)"

definition rx_segment :: "ib_mad_recv_wc \<Rightarrow> rmpp_agent \<Rightarrow> mad_rmpp_recv \<Rightarrow> rx_pc \<times> mad_rmpp_recv" where
  "rx_segment wc ag r =
     (case find_seg_location (rmpp_list (rmpp_wc r)) (get_seg_num (recv_buf wc)) of
        None \<Rightarrow> (RxDrop, r)
      | Some prev_buf \<Rightarrow>
          let rwc = rmpp_wc r;
              r = r\<lparr>rmpp_wc := rwc\<lparr>rmpp_list := insert_after (rb_addr prev_buf) (recv_buf wc) (rmpp_list rwc)\<rparr>\<rparr>
          in if rb_addr (cur_seg_buf r) = rb_addr prev_buf
             then
               let r = update_seg_num r (recv_buf wc)
               in if get_last_flag (cur_seg_buf r) then (RxCompleting, r\<lparr>rr_state := RMPP_STATE_COMPLETE\<rparr>)
                  else if seg_num r = newwin r then (RxAckNext, r\<lparr>newwin := newwin r + window_size ag\<rparr>)
                  else (RxOut None, r)
             else (RxOut None, r))"

text \<open>One step of \<open>continue_rmpp\<close>, between two moments at which another thread may come in.\<close>

definition rx_step :: "rmpp_env \<Rightarrow> ib_mad_recv_wc \<Rightarrow> race \<Rightarrow> race option" where
  "rx_step env wc s =
     (let r = rc_tr s; ag = rc_ag s
      in case rc_rx s of
           RxStart \<Rightarrow>
             Some (if rc_linked s \<and> recv_matches wc r
                   then s\<lparr>rc_tr := r\<lparr>rr_refcount := rr_refcount r + 1\<rparr>, rc_rx := RxAcquired\<rparr>
                   else s\<lparr>rc_ag := ib_free_recv_mad wc ag, rc_rx := RxDone None\<rparr>)
         | RxAcquired \<Rightarrow> Some (s\<lparr>rc_rx := rx_lock_test wc r\<rparr>)
         | RxAck \<Rightarrow> (case ack_recv env r wc ag of (r, ag) \<Rightarrow> Some (s\<lparr>rc_tr := r, rc_ag := ag, rc_rx := RxDrop\<rparr>))
         | RxDrop \<Rightarrow> Some (s\<lparr>rc_tr := deref_rmpp_recv r, rc_ag := ib_free_recv_mad wc ag, rc_rx := RxDone None\<rparr>)
         | RxTested \<Rightarrow> (case rx_segment wc ag r of (pc, r) \<Rightarrow> Some (s\<lparr>rc_tr := r, rc_rx := pc\<rparr>))
         | RxAckNext \<Rightarrow> (case ack_recv env r wc ag of (r, ag) \<Rightarrow> Some (s\<lparr>rc_tr := r, rc_ag := ag, rc_rx := RxOut None\<rparr>))
         | RxCompleting \<Rightarrow>
             (case complete_rmpp env r ag of (d, r, ag) \<Rightarrow> Some (s\<lparr>rc_tr := r, rc_ag := ag, rc_rx := RxOut (Some d)\<rparr>))
         | RxOut res \<Rightarrow> Some (s\<lparr>rc_tr := deref_rmpp_recv r, rc_rx := RxDone res\<rparr>)
         | RxDone res \<Rightarrow> None)"

text \<open>One step of \<open>recv_timeout_handler\<close>: the locked test, the abort that is sent, and the wait for the last reference.\<close>

definition tm_step :: "rmpp_env \<Rightarrow> race \<Rightarrow> race option" where
  "tm_step env s =
     (let r = rc_tr s; ag = rc_ag s
      in case rc_tm s of
           TmStart \<Rightarrow>
             Some (if rr_state r \<noteq> RMPP_STATE_ACTIVE then s\<lparr>rc_tm := TmDone\<rparr>
                   else s\<lparr>rc_tr := r\<lparr>rr_state := RMPP_STATE_TIMEOUT\<rparr>, rc_linked := False, rc_tm := TmMarked, rc_marked_at := Some (rc_rx s)\<rparr>)
         | TmMarked \<Rightarrow>
             Some (s\<lparr>rc_ag := nack_recv env (rmpp_wc r) IB_MGMT_RMPP_STATUS_T2L ag, rc_tr := deref_rmpp_recv r, rc_tm := TmReleased\<rparr>)
         | TmReleased \<Rightarrow>
             if rr_refcount r = 0
             then Some (s\<lparr>rc_ag := ib_free_recv_mad (rmpp_wc r) (ag\<lparr>freed_ahs := rr_ah r # freed_ahs ag\<rparr>), rc_freed := True, rc_tm := TmDone\<rparr>)
             else None
         | TmDone \<Rightarrow> None)"

inductive race_step :: "rmpp_env \<Rightarrow> rmpp_env \<Rightarrow> ib_mad_recv_wc \<Rightarrow> race \<Rightarrow> race \<Rightarrow> bool" for env env' wc where
  race_rx: "rx_step env wc s = Some s' \<Longrightarrow> race_step env env' wc s s'"
| race_tm: "tm_step env' s = Some s' \<Longrightarrow> race_step env env' wc s s'"

text \<open>The threads before their first step, and the agent as the rest of the program sees it.\<close>

definition race_init :: "nat \<Rightarrow> rmpp_agent \<Rightarrow> race" where
  "race_init i ag = \<lparr>rc_ag = ag, rc_tr = rmpp_recvs ag ! i, rc_linked = True, rc_freed = False, rc_rx = RxStart, rc_tm = TmStart,
     rc_marked_at = None\<rparr>"

definition race_agent :: "nat \<Rightarrow> race \<Rightarrow> rmpp_agent" where
  "race_agent i s = (rc_ag s)\<lparr>rmpp_recvs := (if rc_linked s then (rmpp_recvs (rc_ag s))[i := rc_tr s] else remove_nth i (rmpp_recvs (rc_ag s)))\<rparr>"

section \<open>One thread alone\<close>

abbreviation rx_runs :: "rmpp_env \<Rightarrow> ib_mad_recv_wc \<Rightarrow> race \<Rightarrow> race \<Rightarrow> bool" where
  "rx_runs env wc \<equiv> (\<lambda>s s'. rx_step env wc s = Some s')\<^sup>*\<^sup>*"

abbreviation tm_runs :: "rmpp_env \<Rightarrow> race \<Rightarrow> race \<Rightarrow> bool" where
  "tm_runs env \<equiv> (\<lambda>s s'. tm_step env s = Some s')\<^sup>*\<^sup>*"

lemma rx_runs_race: "rx_runs env wc s s' \<Longrightarrow> (race_step env env' wc)\<^sup>*\<^sup>* s s'"
  by (erule rtranclp_mono [THEN predicate2D, rotated]) (auto intro: race_rx)

lemma tm_runs_race: "tm_runs env' s s' \<Longrightarrow> (race_step env env' wc)\<^sup>*\<^sup>* s s'"
  by (erule rtranclp_mono [THEN predicate2D, rotated]) (auto intro: race_tm)

lemma rx_run1: "rx_step env wc s = Some s1 \<Longrightarrow> rx_runs env wc s1 s2 \<Longrightarrow> rx_runs env wc s s2"
  by (rule converse_rtranclp_into_rtranclp)

lemma ack_recv_recvs: "ack_recv env r wc ag = (r', ag') \<Longrightarrow> rmpp_recvs ag' = rmpp_recvs ag"
  using ack_recv_eq [of r "seg_num r" "last_ack r" env wc ag] by auto

lemma complete_rmpp_recvs: "complete_rmpp env r ag = (d, r', ag') \<Longrightarrow> rmpp_recvs ag' = rmpp_recvs ag"
  by (auto simp: complete_rmpp_def Let_def split: prod.splits dest: ack_recv_recvs)

text \<open>From its test on, \<open>continue_rmpp\<close> alone ends as the one-step handler.\<close>

lemma rx_end: "rc_rx s = RxOut res \<Longrightarrow> rx_runs env wc s (s\<lparr>rc_tr := deref_rmpp_recv (rc_tr s), rc_rx := RxDone res\<rparr>)"
  "rc_rx s = RxDrop \<Longrightarrow> rx_runs env wc s (s\<lparr>rc_tr := deref_rmpp_recv (rc_tr s), rc_ag := ib_free_recv_mad wc (rc_ag s), rc_rx := RxDone None\<rparr>)"
  by (rule r_into_rtranclp, simp add: rx_step_def)+

lemma continue_rmpp_alone:
  assumes i: "find_rmpp_recv ag wc = Some i" and r: "continue_rmpp env wc ag = (res, ag')"
  shows "\<exists>s. rx_runs env wc (race_init i ag) s \<and> rc_rx s = RxDone res \<and> race_agent i s = ag'"
proof -
  let ?r = "(rmpp_recvs ag ! i)\<lparr>rr_refcount := rr_refcount (rmpp_recvs ag ! i) + 1\<rparr>"
  let ?s = "(race_init i ag)\<lparr>rc_tr := ?r, rc_rx := RxAcquired\<rparr>"
  have m: "recv_matches wc (rmpp_recvs ag ! i)" using i by (auto simp: find_rmpp_recv_def dest: find_index_Some)
  have s0: "rx_step env wc (race_init i ag) = Some ?s" using m by (simp add: rx_step_def race_init_def Let_def)
  have s1: "rx_step env wc ?s = Some (?s\<lparr>rc_rx := rx_lock_test wc ?r\<rparr>)" by (simp add: rx_step_def race_init_def)
  have acq: "acquire_rmpp_recv ag wc = Some (i, ?r)" using i by (simp add: acquire_rmpp_recv_def Let_def)
  have from1: ?thesis if "\<exists>s. rx_runs env wc (?s\<lparr>rc_rx := rx_lock_test wc ?r\<rparr>) s \<and> rc_rx s = RxDone res \<and> race_agent i s = ag'"
    using that rx_run1 [OF s0 rx_run1 [OF s1]] by blast
  let ?n = "get_seg_num (recv_buf wc)"
  consider (drop) "rx_lock_test wc ?r = RxDrop" "rr_state ?r = RMPP_STATE_TIMEOUT \<or> ?n > newwin ?r"
    | (ack) "rx_lock_test wc ?r = RxAck" "\<not> (rr_state ?r = RMPP_STATE_TIMEOUT \<or> ?n > newwin ?r)" "?n \<le> last_ack ?r \<or> rr_state ?r = RMPP_STATE_COMPLETE"
    | (test) "rx_lock_test wc ?r = RxTested" "\<not> (rr_state ?r = RMPP_STATE_TIMEOUT \<or> ?n > newwin ?r)" "\<not> (?n \<le> last_ack ?r \<or> rr_state ?r = RMPP_STATE_COMPLETE)"
    unfolding rx_lock_test_def Let_def by (auto split: if_splits)
  then show ?thesis
  proof cases
    case drop
    have "continue_rmpp env wc ag = (None, ib_free_recv_mad wc (put_recv i ?r ag))"
      using drop(2) by (simp only: continue_rmpp_def acq option.case prod.case Let_def if_True)
    then have e: "res = None" "ag' = ib_free_recv_mad wc (put_recv i ?r ag)" using r by simp_all
    show ?thesis
      by (rule from1, unfold drop(1), rule exI, rule conjI, rule rx_end(2)) (simp_all add: e race_agent_def race_init_def put_recv_def ib_free_recv_mad_def)
  next
    case ack
    obtain r2 ag2 where a: "ack_recv env ?r wc ag = (r2, ag2)" by (cases "ack_recv env ?r wc ag")
    have "continue_rmpp env wc ag = (None, ib_free_recv_mad wc (put_recv i r2 ag2))"
      using ack(2,3) by (simp only: continue_rmpp_def acq option.case prod.case Let_def if_True if_False a)
    then have e: "res = None" "ag' = ib_free_recv_mad wc (put_recv i r2 ag2)" using r by simp_all
    have s2: "rx_step env wc (?s\<lparr>rc_rx := RxAck\<rparr>) = Some (?s\<lparr>rc_tr := r2, rc_ag := ag2, rc_rx := RxDrop\<rparr>)"
      using a by (simp add: rx_step_def race_init_def)
    show ?thesis
      by (rule from1, unfold ack(1), rule exI, rule conjI, rule rx_run1 [OF s2], rule rx_end(2))
        (simp_all add: e race_agent_def race_init_def put_recv_def ib_free_recv_mad_def)
  next
    case test
    obtain pc r2 where sg: "rx_segment wc ag ?r = (pc, r2)" by (cases "rx_segment wc ag ?r")
    have s2: "rx_step env wc (?s\<lparr>rc_rx := RxTested\<rparr>) = Some (?s\<lparr>rc_tr := r2, rc_rx := pc\<rparr>)"
      using sg by (simp add: rx_step_def race_init_def)
    have c: "continue_rmpp env wc ag =
        (case pc of RxDrop \<Rightarrow> (None, ib_free_recv_mad wc (put_recv i r2 ag))
         | RxCompleting \<Rightarrow> (case complete_rmpp env r2 ag of (d, r, ag) \<Rightarrow> (Some d, put_recv i r ag))
         | RxAckNext \<Rightarrow> (case ack_recv env r2 wc ag of (r, ag) \<Rightarrow> (None, put_recv i r ag))
         | _ \<Rightarrow> (None, put_recv i r2 ag)) \<and> pc \<in> {RxDrop, RxCompleting, RxAckNext, RxOut None}"
      using test(2,3) sg
      by (simp only: continue_rmpp_def acq option.case prod.case Let_def if_False rx_segment_def)
        (auto simp: put_recv_def split: option.splits if_splits prod.splits)
    have s3: "\<exists>s. rx_runs env wc (?s\<lparr>rc_tr := r2, rc_rx := pc\<rparr>) s \<and> rc_rx s = RxDone res \<and> race_agent i s = ag'"
    proof -
      consider "pc = RxDrop" | "pc = RxCompleting" | "pc = RxAckNext" | "pc = RxOut None" using c by blast
      then show ?thesis
      proof cases
        case 1
        then have e: "res = None" "ag' = ib_free_recv_mad wc (put_recv i r2 ag)" using r c by simp_all
        show ?thesis
          by (rule exI, rule conjI, rule rx_end(2)) (simp_all add: 1 e race_agent_def race_init_def put_recv_def ib_free_recv_mad_def)
      next
        case 2
        obtain d r3 ag3 where cp: "complete_rmpp env r2 ag = (d, r3, ag3)" by (cases "complete_rmpp env r2 ag")
        then have e: "res = Some d" "ag' = put_recv i r3 ag3" using r c 2 by simp_all
        have st: "rx_step env wc (?s\<lparr>rc_tr := r2, rc_rx := pc\<rparr>) = Some (?s\<lparr>rc_tr := r3, rc_ag := ag3, rc_rx := RxOut (Some d)\<rparr>)"
          using cp 2 by (simp add: rx_step_def race_init_def)
        show ?thesis
          by (rule exI, rule conjI, rule rx_run1 [OF st], rule rx_end(1)) (simp_all add: e race_agent_def race_init_def put_recv_def)
      next
        case 3
        obtain r3 ag3 where ac: "ack_recv env r2 wc ag = (r3, ag3)" by (cases "ack_recv env r2 wc ag")
        then have e: "res = None" "ag' = put_recv i r3 ag3" using r c 3 by simp_all
        have st: "rx_step env wc (?s\<lparr>rc_tr := r2, rc_rx := pc\<rparr>) = Some (?s\<lparr>rc_tr := r3, rc_ag := ag3, rc_rx := RxOut None\<rparr>)"
          using ac 3 by (simp add: rx_step_def race_init_def)
        show ?thesis
          by (rule exI, rule conjI, rule rx_run1 [OF st], rule rx_end(1)) (simp_all add: e race_agent_def race_init_def put_recv_def)
      next
        case 4
        then have e: "res = None" "ag' = put_recv i r2 ag" using r c by simp_all
        show ?thesis
          by (rule exI, rule conjI, rule rx_end(1)) (simp_all add: 4 e race_agent_def race_init_def put_recv_def)
      qed
    qed
    then show ?thesis using rx_run1 [OF s2] from1 unfolding test(1) by blast
  qed
qed

text \<open>So does \<open>recv_timeout_handler\<close>.\<close>

lemma timeout_alone:
  assumes i: "i < length (rmpp_recvs ag)" and rc: "rr_refcount (rmpp_recvs ag ! i) = 1" and r: "recv_timeout_handler env i ag = Some ag'"
  shows "\<exists>s. tm_runs env (race_init i ag) s \<and> rc_tm s = TmDone \<and> race_agent i s = ag'"
proof (cases "rr_state (rmpp_recvs ag ! i) = RMPP_STATE_ACTIVE")
  case False
  then have "ag' = ag" using r i by (simp add: recv_timeout_handler_def)
  moreover have "tm_step env (race_init i ag) = Some ((race_init i ag)\<lparr>rc_tm := TmDone\<rparr>)" using False by (simp add: tm_step_def race_init_def)
  ultimately show ?thesis
    by (intro exI [of _ "(race_init i ag)\<lparr>rc_tm := TmDone\<rparr>"]) (auto simp: race_agent_def race_init_def)
next
  case True
  let ?r = "(rmpp_recvs ag ! i)\<lparr>rr_state := RMPP_STATE_TIMEOUT\<rparr>"
  let ?s1 = "(race_init i ag)\<lparr>rc_tr := ?r, rc_linked := False, rc_tm := TmMarked, rc_marked_at := Some RxStart\<rparr>"
  let ?ag2 = "nack_recv env (rmpp_wc ?r) IB_MGMT_RMPP_STATUS_T2L ag"
  let ?s2 = "?s1\<lparr>rc_ag := ?ag2, rc_tr := deref_rmpp_recv ?r, rc_tm := TmReleased\<rparr>"
  let ?s3 = "?s2\<lparr>rc_ag := ib_free_recv_mad (rmpp_wc ?r) (?ag2\<lparr>freed_ahs := rr_ah ?r # freed_ahs ?ag2\<rparr>), rc_freed := True, rc_tm := TmDone\<rparr>"
  have st: "tm_step env (race_init i ag) = Some ?s1" "tm_step env ?s1 = Some ?s2" "tm_step env ?s2 = Some ?s3"
    using True rc by (simp_all add: tm_step_def race_init_def deref_rmpp_recv_def Let_def)
  have "tm_runs env (race_init i ag) ?s3"
    by (rule converse_rtranclp_into_rtranclp [of _ _ ?s1], rule st(1), rule converse_rtranclp_into_rtranclp [of _ _ ?s2], rule st(2), rule r_into_rtranclp, rule st(3))
  moreover have "race_agent i ?s3 = ag'"
  proof -
    let ?l = "remove_nth i (rmpp_recvs ag)"
    have n: "nack_recv env wc st (ag\<lparr>rmpp_recvs := l\<rparr>) = (nack_recv env wc st ag)\<lparr>rmpp_recvs := l\<rparr>" for wc st l
      by (simp add: nack_recv_def alloc_response_msg_def post_response_def Let_def split: option.split)
    have l: "rmpp_recvs ?ag2 = rmpp_recvs ag" by (simp add: nack_recv_frame)
    have "ag' = ib_free_recv_mad (rmpp_wc ?r) ((?ag2\<lparr>rmpp_recvs := ?l\<rparr>)\<lparr>freed_ahs := rr_ah ?r # freed_ahs ?ag2\<rparr>)"
      using r True rc i by (simp add: recv_timeout_handler_def Let_def destroy_rmpp_recv_def deref_rmpp_recv_def n)
    then show ?thesis
      using l by (intro rmpp_agent.equality) (simp_all add: race_agent_def ib_free_recv_mad_def race_init_def)
  qed
  ultimately show ?thesis by (intro exI [of _ ?s3]) simp
qed

section \<open>The threads together\<close>





















section \<open>Properties\<close>



end
