(* ===== verification/Jiffies.thy ===== *)
theory Jiffies
  imports Kern_Prelude "HOL-Library.Multiset"
begin

text \<open>
  Kernel time and lists ordered by it. Time is the wrapping 64-bit counter \<open>jiffies\<close>, compared by
  the sign of a difference as \<open>linux/jiffies.h\<close> does. Two users of \<open>core/mad.c\<close> keep a list
  ordered by expiration: the queue of the congestion control and the list of sends that wait for a
  response. Both search the place of a new item from the end of the list.
\<close>

section \<open>Time\<close>

definition time_after :: "u64 \<Rightarrow> u64 \<Rightarrow> bool" where
  "time_after a b \<longleftrightarrow> sint (b - a) < 0"

definition time_before :: "u64 \<Rightarrow> u64 \<Rightarrow> bool" where
  "time_before a b \<longleftrightarrow> time_after b a"

text \<open>The signed distance of a time from the present; times are near when it fits with room to spare.\<close>

definition rel_time :: "u64 \<Rightarrow> u64 \<Rightarrow> int" where
  "rel_time now t = sint (t - now)"

definition near :: "u64 \<Rightarrow> u64 \<Rightarrow> bool" where
  "near now t \<longleftrightarrow> \<bar>rel_time now t\<bar> < 2 ^ 62"

lemma sint_diff:
  fixes x y :: u64
  assumes "- (2 ^ 63) \<le> sint x - sint y" "sint x - sint y < 2 ^ 63"
  shows "sint (x - y) = sint x - sint y"
proof -
  have "sint (x - y) = signed_take_bit 63 (sint x - sint y)"
    by (simp add: sint_word_ariths)
  also have "\<dots> = sint x - sint y" using assms by (intro signed_take_bit_int_eq_self) simp_all
  finally show ?thesis .
qed

lemma time_after_rel:
  assumes "near now a" "near now b"
  shows "time_after a b \<longleftrightarrow> rel_time now b < rel_time now a"
proof -
  have "sint ((b - now) - (a - now)) = sint (b - now) - sint (a - now)"
    using assms by (intro sint_diff) (simp_all add: near_def rel_time_def)
  then show ?thesis by (simp add: time_after_def rel_time_def)
qed

lemma rel_time_now [simp]: "rel_time now now = 0"
  by (simp add: rel_time_def)

lemma near_now [simp]: "near now now"
  by (simp add: near_def)

lemma time_before_rel: "near now t \<Longrightarrow> time_before now t \<longleftrightarrow> 0 < rel_time now t"
  using time_after_rel [of now t now] by (simp add: time_before_def)

lemma sint_small: "uint (d :: u64) < 2 ^ 62 \<Longrightarrow> sint d = uint d"
proof -
  assume "uint d < 2 ^ 62"
  then have "uint d < 2 ^ 63" by simp
  moreover have "- (2 ^ 63) \<le> uint d" by (rule order_trans [of _ 0]) simp_all
  ultimately have "signed_take_bit 63 (uint d) = uint d" by (rule signed_take_bit_int_eq_self [rotated])
  then show ?thesis by (simp add: sint_uint)
qed

lemma rel_time_later: "uint d < 2 ^ 62 \<Longrightarrow> rel_time now (now + d) = uint d"
  by (simp add: rel_time_def sint_small)

lemma near_later: "uint d < 2 ^ 62 \<Longrightarrow> near now (now + d)"
  by (simp add: near_def rel_time_later)

text \<open>When the clock advances, every distance shrinks by the same amount.\<close>

lemma rel_time_tick:
  assumes "near now t" "near (now + d) t" "uint d < 2 ^ 62"
  shows "rel_time (now + d) t = rel_time now t - uint d"
proof -
  have "sint ((t - now) - d) = sint (t - now) - sint d"
  proof (rule sint_diff)
    have "- 4611686018427387904 < sint (t - now)" "sint (t - now) < 4611686018427387904" "uint d < 4611686018427387904"
      using assms(1,3) by (simp_all add: near_def rel_time_def abs_less_iff)
    moreover have "0 \<le> uint d" by simp
    ultimately have "- 9223372036854775808 \<le> sint (t - now) - uint d" "sint (t - now) - uint d < 9223372036854775808"
      by linarith+
    then show "- (2 ^ 63) \<le> sint (t - now) - sint d" "sint (t - now) - sint d < 2 ^ 63"
      using sint_small [OF assms(3)] by simp_all
  qed
  then show ?thesis using sint_small [OF assms(3)] by (simp add: rel_time_def algebra_simps)
qed

section \<open>Lists ordered by time\<close>

fun insert_time_rev :: "('a \<Rightarrow> u64) \<Rightarrow> 'a \<Rightarrow> 'a list \<Rightarrow> 'a list" where
  "insert_time_rev ex x [] = [x]"
| "insert_time_rev ex x (y # ys) =
     (if time_after (ex x) (ex y) then x # y # ys else y # insert_time_rev ex x ys)"

definition insert_time :: "('a \<Rightarrow> u64) \<Rightarrow> 'a \<Rightarrow> 'a list \<Rightarrow> 'a list" where
  "insert_time ex x l = rev (insert_time_rev ex x (rev l))"

text \<open>The search ran through the whole list: the item became the first one.\<close>

definition insert_at_head :: "('a \<Rightarrow> u64) \<Rightarrow> 'a \<Rightarrow> 'a list \<Rightarrow> bool" where
  "insert_at_head ex x l \<longleftrightarrow> list_all (\<lambda>y. \<not> time_after (ex x) (ex y)) l"

lemma insert_time_rev_split:
  "\<exists>A B. l = B @ A \<and> insert_time_rev ex x l = B @ x # A \<and> (\<forall>b \<in> set B. \<not> time_after (ex x) (ex b)) \<and>
     (A = [] \<or> time_after (ex x) (ex (hd A)))"
proof (induction l)
  case (Cons y l)
  show ?case
  proof (cases "time_after (ex x) (ex y)")
    case True
    then show ?thesis by (intro exI [of _ "y # l"] exI [of _ "[]"]) simp
  next
    case False
    obtain A B where "l = B @ A" "insert_time_rev ex x l = B @ x # A" "\<forall>b \<in> set B. \<not> time_after (ex x) (ex b)"
      "A = [] \<or> time_after (ex x) (ex (hd A))"
      using Cons.IH by blast
    then show ?thesis using False by (intro exI [of _ A] exI [of _ "y # B"]) simp
  qed
qed simp

lemma insert_time_split:
  obtains A B where "l = A @ B" "insert_time ex x l = A @ x # B" "\<forall>b \<in> set B. \<not> time_after (ex x) (ex b)"
    "A = [] \<or> time_after (ex x) (ex (last A))"
proof -
  obtain A B where AB: "rev l = B @ A" "insert_time_rev ex x (rev l) = B @ x # A"
    "\<forall>b \<in> set B. \<not> time_after (ex x) (ex b)" "A = [] \<or> time_after (ex x) (ex (hd A))"
    using insert_time_rev_split [of "rev l" ex x] by (elim exE conjE)
  have l: "l = rev A @ rev B" using AB(1) by (metis rev_append rev_rev_ident)
  have i: "insert_time ex x l = rev A @ x # rev B" using AB(2) by (simp add: insert_time_def)
  show ?thesis by (rule that [OF l i]) (use AB(3,4) in \<open>auto simp: last_rev\<close>)
qed

lemma mset_insert_time [simp]: "mset (insert_time ex x l) = add_mset x (mset l)"
proof -
  obtain A B where s: "l = A @ B" "insert_time ex x l = A @ x # B" by (rule insert_time_split)
  show ?thesis unfolding s(2) using arg_cong [OF s(1), of mset] by simp
qed

lemma set_insert_time [simp]: "set (insert_time ex x l) = insert x (set l)"
  by (metis mset_insert_time set_mset_add_mset_insert set_mset_mset)

lemma distinct_insert_time [simp]: "distinct (insert_time ex x l) \<longleftrightarrow> x \<notin> set l \<and> distinct l"
  by (metis distinct.simps(2) mset.simps(2) mset_eq_imp_distinct_iff mset_insert_time)

lemma hd_insert_time:
  "hd (insert_time ex x l) = (if insert_at_head ex x l then x else hd l)"
proof -
  obtain A B where s: "l = A @ B" "insert_time ex x l = A @ x # B" "\<forall>b \<in> set B. \<not> time_after (ex x) (ex b)"
    "A = [] \<or> time_after (ex x) (ex (last A))"
    by (rule insert_time_split)
  show ?thesis
  proof (cases "A = []")
    case True
    then show ?thesis using s by (simp add: insert_at_head_def list_all_iff)
  next
    case False
    then have "\<not> insert_at_head ex x l" using s by (auto simp: insert_at_head_def list_all_iff)
    then show ?thesis using s False by simp
  qed
qed

text \<open>The list is ordered, but for items whose time has come.\<close>

definition timely :: "u64 \<Rightarrow> ('a \<Rightarrow> u64) \<Rightarrow> 'a list \<Rightarrow> bool" where
  "timely now ex l \<longleftrightarrow>
     sorted_wrt (\<lambda>a b. rel_time now (ex a) \<le> 0 \<or> rel_time now (ex a) \<le> rel_time now (ex b)) l"

lemma timely_Cons: "timely now ex (x # l) \<longleftrightarrow>
  timely now ex l \<and> (rel_time now (ex x) \<le> 0 \<or> (\<forall>y \<in> set l. rel_time now (ex x) \<le> rel_time now (ex y)))"
  by (auto simp: timely_def)

lemma timely_insert:
  assumes "timely now ex l" "\<forall>y \<in> set l. near now (ex y)" "near now (ex x)"
  shows "timely now ex (insert_time ex x l)"
proof -
  obtain A B where s: "l = A @ B" "insert_time ex x l = A @ x # B" "\<forall>b \<in> set B. \<not> time_after (ex x) (ex b)"
    "A = [] \<or> time_after (ex x) (ex (last A))"
    by (rule insert_time_split)
  have B: "rel_time now (ex x) \<le> rel_time now (ex b)" if "b \<in> set B" for b
    using s(1,3) assms(2,3) that time_after_rel [of now "ex x" "ex b"] by auto
  have A: "rel_time now (ex a) \<le> 0 \<or> rel_time now (ex a) \<le> rel_time now (ex x)" if a: "a \<in> set A" for a
  proof -
    have ne: "A \<noteq> []" using a by auto
    then have l: "rel_time now (ex (last A)) < rel_time now (ex x)"
      using s(1,4) assms(2,3) time_after_rel [of now "ex x" "ex (last A)"] by simp
    have "timely now ex A" using assms(1) s(1) by (simp add: timely_def sorted_wrt_append)
    then have "timely now ex (butlast A @ [last A])" using ne by simp
    moreover have "set A = set (butlast A) \<union> {last A}" using ne by (metis append_butlast_last_id list.simps(15) list.set(1) set_append)
    ultimately have "a = last A \<or> rel_time now (ex a) \<le> 0 \<or> rel_time now (ex a) \<le> rel_time now (ex (last A))"
      using a unfolding timely_def sorted_wrt_append by auto
    then show ?thesis using l by auto
  qed
  show ?thesis
    using assms(1) A B unfolding s(2) unfolding s(1) timely_def by (auto simp: sorted_wrt_append)
qed

lemma timely_filter: "timely now ex l \<Longrightarrow> timely now ex (filter P l)"
  by (simp add: timely_def sorted_wrt_filter)

lemma timely_cong: "(\<And>x. x \<in> set l \<Longrightarrow> ex x = ex' x) \<Longrightarrow> timely now ex l = timely now ex' l"
  unfolding timely_def by (induction l) auto

lemma timely_tick:
  assumes "timely now ex l" "\<forall>y \<in> set l. near now (ex y) \<and> near (now + d) (ex y)" "uint d < 2 ^ 62"
  shows "timely (now + d) ex l"
proof -
  have "\<And>y. y \<in> set l \<Longrightarrow> rel_time (now + d) (ex y) = rel_time now (ex y) - uint d"
    using assms(2,3) rel_time_tick by blast
  then show ?thesis
    using assms(1) unfolding timely_def
  proof (induction l)
    case (Cons y l)
    have "rel_time (now + d) (ex y) \<le> 0 \<or> rel_time (now + d) (ex y) \<le> rel_time (now + d) (ex z)" if z: "z \<in> set l" for z
    proof -
      have "rel_time now (ex y) \<le> 0 \<or> rel_time now (ex y) \<le> rel_time now (ex z)" using Cons.prems(2) z by auto
      moreover have "rel_time (now + d) (ex y) = rel_time now (ex y) - uint d" "rel_time (now + d) (ex z) = rel_time now (ex z) - uint d"
        using Cons.prems(1) z by simp_all
      moreover have "0 \<le> uint d" by simp
      ultimately show ?thesis by linarith
    qed
    then show ?case using Cons by simp
  qed simp
qed

end
