(* ===== verification/Sa_Cc.thy ===== *)
theory Sa_Cc
  imports Jiffies
begin

text \<open>
  The congestion control for subnet-administration datagrams of \<open>core/mad.c\<close>: a window of
  outstanding datagrams and a bounded queue behind it. The queue links its entries in two lists,
  one in the order of arrival and one in the order of expiration, and a timer with a work item
  fails the entries whose time has come. An entry is a datagram, named by a number. Each
  function that holds the queue's lock is one step. The clock, the conversion between
  milliseconds and \<open>jiffies\<close>, the agents that are closed and the answers of \<open>ib_send_mad\<close> come from an
  environment. Calls of the client's \<open>send_handler\<close> are logged.
\<close>

section \<open>State\<close>

datatype ib_wc_status = IB_WC_SUCCESS | IB_WC_GENERAL_ERR | IB_WC_LOC_QP_OP_ERR | IB_WC_WR_FLUSH_ERR
  | IB_WC_RESP_TIMEOUT_ERR | IB_WC_REM_ABORT_ERR

record tf_entry =
  exp_time :: u64
  canceled :: bool

record sa_wr =
  tf_list :: tf_entry
  wr_agent :: nat
  wr_mgmt_class :: u8
  wr_method :: u8
  timeout_ms :: u32
  retries_left :: u32
  wr_timeout :: u64
  wr_refcount :: nat
  is_sa_cc :: bool

record to_fifo =
  to_head :: "nat list"
  fifo_head :: "nat list"
  tf_timer :: "u64 option"
  work_queued :: bool
  num_items :: u32
  stop_enqueue :: bool

record sa_cc_data =
  outstanding :: u64
  queue_size :: u64
  time_sa_mad :: u64
  max_outstanding :: u64
  drops :: u64
  tf :: to_fifo

text \<open>
  \<open>send_list\<close> holds the datagrams that were sent and are not completed, \<open>agent_ref\<close> the references on
  the agents, \<open>notified\<close> the completions reported by the queue itself.
\<close>

record cc_state =
  cc :: sa_cc_data
  wrs :: "nat \<Rightarrow> sa_wr"
  send_list :: "nat list"
  agent_ref :: "nat \<Rightarrow> nat"
  notified :: "(nat \<times> ib_wc_status) list"

text \<open>
  \<open>stray\<close> is what \<open>tf_dequeue\<close> finds as the flag \<open>canceled\<close> when its loop ran past the last entry
  and the cursor points into the list head.
\<close>

record cc_env =
  jiffies :: u64
  msecs_to_jiffies :: "u32 \<Rightarrow> u64"
  jiffies_to_msecs :: "u64 \<Rightarrow> u32"
  send_list_closed :: "nat \<Rightarrow> bool"
  ib_send_mad_ret :: "nat \<Rightarrow> int"
  stray :: bool

definition MIN_BETWEEN_ACTIVATIONS_MS :: u32 where "MIN_BETWEEN_ACTIVATIONS_MS = 5"
definition SA_CC_DEFAULT_OUTSTANDING_SA_MADS :: u64 where "SA_CC_DEFAULT_OUTSTANDING_SA_MADS = 16"
definition SA_CC_MIN_OUTSTANDING_SA_MADS :: u64 where "SA_CC_MIN_OUTSTANDING_SA_MADS = 1"
definition SA_CC_MAX_OUTSTANDING_SA_MADS :: u64 where "SA_CC_MAX_OUTSTANDING_SA_MADS = 1048576"
definition SA_CC_DEFAULT_MAD_TIME_MS :: u64 where "SA_CC_DEFAULT_MAD_TIME_MS = 20"
definition SA_CC_MIN_MAD_TIME_MS :: u64 where "SA_CC_MIN_MAD_TIME_MS = 1"
definition SA_CC_MAX_MAD_TIME_MS :: u64 where "SA_CC_MAX_MAD_TIME_MS = 10000"
definition SA_CC_DEFAULT_QUEUE_SIZE :: u64 where "SA_CC_DEFAULT_QUEUE_SIZE = 65536"
definition SA_CC_MIN_QUEUE_SIZE :: u64 where "SA_CC_MIN_QUEUE_SIZE = 16"
definition SA_CC_MAX_QUEUE_SIZE :: u64 where "SA_CC_MAX_QUEUE_SIZE = 1048576"
definition IB_MGMT_CLASS_SUBN_ADM :: u8 where "IB_MGMT_CLASS_SUBN_ADM = 0x03"
definition IB_MGMT_METHOD_GET :: u8 where "IB_MGMT_METHOD_GET = 0x01"
definition IB_MGMT_METHOD_SET :: u8 where "IB_MGMT_METHOD_SET = 0x02"
definition ret_EBUSY :: int where "ret_EBUSY = - 16"
definition ret_EIO :: int where "ret_EIO = - 5"
definition ret_ENOMEM :: int where "ret_ENOMEM = - 12"
definition ret_ENXIO :: int where "ret_ENXIO = - 6"

lemmas sa_cc_consts [flag_defs] = MIN_BETWEEN_ACTIVATIONS_MS_def SA_CC_DEFAULT_OUTSTANDING_SA_MADS_def
  SA_CC_MIN_OUTSTANDING_SA_MADS_def SA_CC_MAX_OUTSTANDING_SA_MADS_def SA_CC_DEFAULT_MAD_TIME_MS_def
  SA_CC_MIN_MAD_TIME_MS_def SA_CC_MAX_MAD_TIME_MS_def SA_CC_DEFAULT_QUEUE_SIZE_def SA_CC_MIN_QUEUE_SIZE_def
  SA_CC_MAX_QUEUE_SIZE_def ret_EBUSY_def ret_EIO_def ret_ENOMEM_def ret_ENXIO_def

abbreviation exp_of :: "(nat \<Rightarrow> sa_wr) \<Rightarrow> nat \<Rightarrow> u64" where
  "exp_of w x \<equiv> exp_time (tf_list (w x))"

abbreviation canceled_in :: "(nat \<Rightarrow> sa_wr) \<Rightarrow> nat \<Rightarrow> bool" where
  "canceled_in w x \<equiv> canceled (tf_list (w x))"

text \<open>Access to the queue inside the state, and to an entry.\<close>

definition set_tf :: "to_fifo \<Rightarrow> cc_state \<Rightarrow> cc_state" where
  "set_tf f s = s\<lparr>cc := (cc s)\<lparr>tf := f\<rparr>\<rparr>"

definition set_exp_time :: "nat \<Rightarrow> u64 \<Rightarrow> cc_state \<Rightarrow> cc_state" where
  "set_exp_time x t s = s\<lparr>wrs := (wrs s)(x := (wrs s x)\<lparr>tf_list := (tf_list (wrs s x))\<lparr>exp_time := t\<rparr>\<rparr>)\<rparr>"

definition set_canceled :: "nat \<Rightarrow> bool \<Rightarrow> cc_state \<Rightarrow> cc_state" where
  "set_canceled x b s = s\<lparr>wrs := (wrs s)(x := (wrs s x)\<lparr>tf_list := (tf_list (wrs s x))\<lparr>canceled := b\<rparr>\<rparr>)\<rparr>"

section \<open>The timeout queue\<close>

definition activate_timeout_handler_task :: "cc_state \<Rightarrow> cc_state" where
  "activate_timeout_handler_task s = set_tf ((tf (cc s))\<lparr>tf_timer := None, work_queued := True\<rparr>) s"

definition adjusted_time :: "cc_env \<Rightarrow> u64 \<Rightarrow> u64 \<Rightarrow> u64" where
  "adjusted_time env last_t next_t =
     (let min_next = last_t + msecs_to_jiffies env MIN_BETWEEN_ACTIVATIONS_MS
      in if time_after min_next next_t then min_next else next_t)"

definition notify_failure :: "nat \<Rightarrow> ib_wc_status \<Rightarrow> cc_state \<Rightarrow> cc_state" where
  "notify_failure x status s = s\<lparr>notified := notified s @ [(x, status)]\<rparr>"

text \<open>The first loop of \<open>timeout_handler_task\<close> with the cut of the list: the expired entries and the rest.\<close>

fun expire_loop :: "u64 \<Rightarrow> (nat \<Rightarrow> sa_wr) \<Rightarrow> nat list \<Rightarrow> to_fifo \<Rightarrow> nat list \<times> to_fifo" where
  "expire_loop now w [] f = ([], f\<lparr>to_head := []\<rparr>)"
| "expire_loop now w (x # xs) f =
     (if time_before now (exp_of w x) then ([], f\<lparr>to_head := x # xs\<rparr>)
      else let (e, f) = expire_loop now w xs (f\<lparr>fifo_head := remove1 x (fifo_head f), num_items := num_items f - 1\<rparr>)
           in (x # e, f))"

fun notify_expired :: "nat list \<Rightarrow> cc_state \<Rightarrow> cc_state" where
  "notify_expired [] s = s"
| "notify_expired (x # xs) s =
     notify_expired xs
       (if canceled_in (wrs s) x then notify_failure x IB_WC_WR_FLUSH_ERR (set_canceled x False s)
        else notify_failure x IB_WC_RESP_TIMEOUT_ERR s)"

lemma expire_loop_shorter: "expire_loop now w l f = (e, f') \<Longrightarrow> l = e @ to_head f'"
  by (induction l arbitrary: f e) (auto split: if_splits prod.splits)

lemma notify_expired_cc [simp]: "cc (notify_expired e s) = cc s"
  by (induction e arbitrary: s) (simp_all add: notify_failure_def set_canceled_def)

function timeout_loop :: "u64 \<Rightarrow> cc_state \<Rightarrow> cc_state" where
  "timeout_loop now s =
     (let (e, f) = expire_loop now (wrs s) (to_head (tf (cc s))) (tf (cc s));
          s = notify_expired e (set_tf f s)
      in if e = [] then s else timeout_loop now s)"
  by pat_completeness auto
termination
proof (relation "measure (\<lambda>(now, s). length (to_head (tf (cc s))))", goal_cases)
  case (2 now s a e f t)
  obtain e' f' where x: "expire_loop now (wrs s) (to_head (tf (cc s))) (tf (cc s)) = (e', f')" by fastforce
  then show ?case using 2 expire_loop_shorter [OF x] by (simp add: set_tf_def)
qed simp

declare timeout_loop.simps [simp del]

definition timeout_handler_task :: "cc_env \<Rightarrow> cc_state \<Rightarrow> cc_state" where
  "timeout_handler_task env s =
     (let s = timeout_loop (jiffies env) (set_tf ((tf (cc s))\<lparr>work_queued := False\<rparr>) s)
      in case to_head (tf (cc s)) of
           [] \<Rightarrow> s
         | x # _ \<Rightarrow> set_tf ((tf (cc s))\<lparr>tf_timer := Some (adjusted_time env (jiffies env) (exp_of (wrs s) x))\<rparr>) s)"

text \<open>\<open>tf_create\<close>, with whether the object and its work queue can be allocated.\<close>

definition tf_create :: "bool \<Rightarrow> bool \<Rightarrow> to_fifo option" where
  "tf_create have_mem have_wq =
     (if \<not> have_mem then None
      else if \<not> have_wq then None
      else Some \<lparr>to_head = [], fifo_head = [], tf_timer = None, work_queued = False, num_items = 0, stop_enqueue = False\<rparr>)"

definition tf_enqueue :: "cc_env \<Rightarrow> nat \<Rightarrow> u32 \<Rightarrow> cc_state \<Rightarrow> int \<times> cc_state" where
  "tf_enqueue env item tmo s =
     (let s = set_exp_time item (jiffies env + msecs_to_jiffies env tmo) s;
          f = tf (cc s)
      in if ucast (num_items f) \<ge> queue_size (cc s) \<or> stop_enqueue f
         then (ret_EBUSY, s\<lparr>cc := (cc s)\<lparr>drops := drops (cc s) + 1\<rparr>\<rparr>)
         else
           let first = insert_at_head (exp_of (wrs s)) item (to_head f);
               f = f\<lparr>to_head := insert_time (exp_of (wrs s)) item (to_head f)\<rparr>;
               f = f\<lparr>fifo_head := fifo_head f @ [item], num_items := num_items f + 1\<rparr>;
               f = (if first then f\<lparr>tf_timer := Some (exp_of (wrs s) item)\<rparr> else f)
           in (0, set_tf f s))"

text \<open>
  \<open>tf_dequeue\<close> returns the entry and the milliseconds it has left. When every entry is canceled the
  loop ends at the list head, and the test of \<open>canceled\<close> reads memory that is no entry: if it finds
  a non-zero value the result is NULL, otherwise the list head is unlinked as if it were an entry, which
  has no meaning (\<open>None\<close>).
\<close>

definition tf_dequeue :: "cc_env \<Rightarrow> cc_state \<Rightarrow> ((nat \<times> u32) option \<times> cc_state) option" where
  "tf_dequeue env s =
     (let f = tf (cc s)
      in if fifo_head f = [] then Some (None, s)
         else
           case find (\<lambda>x. \<not> canceled_in (wrs s) x) (fifo_head f) of
             None \<Rightarrow> if stray env then Some (None, s) else None
           | Some x \<Rightarrow>
               let f = (case to_head f of
                          [] \<Rightarrow> f
                        | y # ys \<Rightarrow>
                            if y = x
                            then (case ys of [] \<Rightarrow> f\<lparr>tf_timer := None\<rparr>
                                           | z # _ \<Rightarrow> f\<lparr>tf_timer := Some (exp_of (wrs s) z)\<rparr>)
                            else f);
                   f = f\<lparr>fifo_head := remove1 x (fifo_head f), to_head := remove1 x (to_head f),
                         num_items := num_items f - 1\<rparr>;
                   time_left = exp_of (wrs s) x - jiffies env;
                   time_left = (if sint time_left \<le> 0 then 0 else time_left)
               in Some (Some (x, jiffies_to_msecs env time_left), set_tf f s))"

definition tf_stop_enqueue :: "cc_state \<Rightarrow> cc_state" where
  "tf_stop_enqueue s = set_tf ((tf (cc s))\<lparr>stop_enqueue := True\<rparr>) s"

text \<open>\<open>tf_free\<close> stops the timer and waits for the work item, if it is queued.\<close>

definition tf_free :: "cc_env \<Rightarrow> cc_state \<Rightarrow> cc_state" where
  "tf_free env s =
     (let s = set_tf ((tf (cc s))\<lparr>tf_timer := None\<rparr>) s
      in if work_queued (tf (cc s)) then timeout_handler_task env s else s)"

text \<open>\<open>list_move\<close> to the head of the temporary list reverses the order of the entries.\<close>

fun free_agent_loop :: "(nat \<Rightarrow> sa_wr) \<Rightarrow> nat \<Rightarrow> nat list \<Rightarrow> to_fifo \<Rightarrow> nat list \<Rightarrow> to_fifo \<times> nat list" where
  "free_agent_loop w agent [] f tmp = (f, tmp)"
| "free_agent_loop w agent (x # xs) f tmp =
     (if wr_agent (w x) = agent
      then free_agent_loop w agent xs
             (f\<lparr>to_head := remove1 x (to_head f), fifo_head := remove1 x (fifo_head f), num_items := num_items f - 1\<rparr>)
             (x # tmp)
      else free_agent_loop w agent xs f tmp)"

definition tf_free_agent :: "nat \<Rightarrow> cc_state \<Rightarrow> cc_state" where
  "tf_free_agent agent s =
     (let (f, tmp) = free_agent_loop (wrs s) agent (fifo_head (tf (cc s))) (tf (cc s)) []
      in fold (\<lambda>x. notify_failure x IB_WC_WR_FLUSH_ERR) tmp (set_tf f s))"

definition tf_modify_item :: "cc_env \<Rightarrow> nat \<Rightarrow> nat \<Rightarrow> u32 \<Rightarrow> cc_state \<Rightarrow> int \<times> cc_state" where
  "tf_modify_item env agent send_buf tmo s =
     (case find (\<lambda>x. wr_agent (wrs s x) = agent \<and> x = send_buf) (fifo_head (tf (cc s))) of
        None \<Rightarrow> (ret_ENXIO, s)
      | Some item \<Rightarrow>
          let s = set_exp_time item (jiffies env + msecs_to_jiffies env tmo) s;
              f = tf (cc s)
          in if tmo \<noteq> 0
             then
               let rest = remove1 item (to_head f);
                   first = insert_at_head (exp_of (wrs s)) item rest;
                   f = f\<lparr>to_head := insert_time (exp_of (wrs s)) item rest\<rparr>;
                   f = (if first then f\<lparr>tf_timer := Some (exp_of (wrs s) item)\<rparr> else f)
               in (0, set_tf f s)
             else
               let s = set_canceled item True s;
                   f = f\<lparr>to_head := item # remove1 item (to_head f), fifo_head := remove1 item (fifo_head f) @ [item],
                         tf_timer := Some (exp_of (wrs s) item)\<rparr>
               in (0, set_tf f s))"

section \<open>Congestion control\<close>

definition is_sa_cc_mad :: "sa_wr \<Rightarrow> bool" where
  "is_sa_cc_mad w \<longleftrightarrow> timeout_ms w \<noteq> 0 \<and> wr_mgmt_class w = IB_MGMT_CLASS_SUBN_ADM \<and>
     (wr_method w = IB_MGMT_METHOD_GET \<or> wr_method w = IB_MGMT_METHOD_SET)"

definition send_sa_cc_mad :: "cc_env \<Rightarrow> nat \<Rightarrow> u32 \<Rightarrow> u32 \<Rightarrow> cc_state \<Rightarrow> int \<times> cc_state" where
  "send_sa_cc_mad env x tmo retries s =
     (let t = msecs_to_jiffies env tmo;
          w = (wrs s x)\<lparr>wr_timeout := t, retries_left := retries, wr_refcount := 1 + (if t > 0 then 1 else 0)\<rparr>;
          s = s\<lparr>wrs := (wrs s)(x := w)\<rparr>;
          a = wr_agent w;
          s = s\<lparr>agent_ref := (agent_ref s)(a := agent_ref s a + 1)\<rparr>
      in if send_list_closed env a
         then (ret_EIO, s\<lparr>agent_ref := (agent_ref s)(a := agent_ref s a - 1)\<rparr>)
         else
           let s = s\<lparr>send_list := send_list s @ [x]\<rparr>;
               ret = ib_send_mad_ret env x
           in if ret < 0
              then (ret, s\<lparr>send_list := remove1 x (send_list s), agent_ref := (agent_ref s)(a := agent_ref s a - 1)\<rparr>)
              else (ret, s))"

text \<open>
  The loop of \<open>sa_cc_mad_done\<close>. The division traps for a datagram without a timeout (\<open>None\<close>).
  The queue gets shorter in every round.
\<close>

lemma tf_dequeue_shorter:
  assumes "tf_dequeue env s = Some (Some (x, t), s')"
  shows "length (fifo_head (tf (cc s'))) < length (fifo_head (tf (cc s)))"
proof -
  obtain y where y: "find (\<lambda>x. \<not> canceled_in (wrs s) x) (fifo_head (tf (cc s))) = Some y"
    using assms by (auto simp: tf_dequeue_def Let_def split: if_splits option.splits)
  then have "y \<in> set (fifo_head (tf (cc s)))" by (auto simp: find_Some_iff)
  then have "length (remove1 y (fifo_head (tf (cc s)))) < length (fifo_head (tf (cc s)))"
    by (metis One_nat_def diff_less length_pos_if_in_set length_remove1 zero_less_one)
  then show ?thesis
    using assms y by (auto simp: tf_dequeue_def Let_def set_tf_def split: if_splits list.splits)
qed

lemma send_sa_cc_mad_cc [simp]: "cc (snd (send_sa_cc_mad env x tmo r s)) = cc s"
  by (simp add: send_sa_cc_mad_def Let_def)

lemma notify_failure_cc [simp]: "cc (notify_failure x st s) = cc s"
  by (simp add: notify_failure_def)

function sa_cc_mad_done :: "cc_env \<Rightarrow> cc_state \<Rightarrow> cc_state option" where
  "sa_cc_mad_done env s =
     (case tf_dequeue env s of
        None \<Rightarrow> None
      | Some (None, s) \<Rightarrow>
          Some (if outstanding (cc s) > 0 then s\<lparr>cc := (cc s)\<lparr>outstanding := outstanding (cc s) - 1\<rparr>\<rparr> else s)
      | Some (Some (x, time_left_ms), s) \<Rightarrow>
          let t = timeout_ms (wrs s x);
              time_left_ms = time_left_ms + ucast (time_sa_mad (cc s))
          in if t = 0 \<and> time_left_ms > t then None
             else
               let (tmo, retries) = (if time_left_ms > t then (t, time_left_ms div t - 1) else (time_left_ms, 0));
                   (ret, s) = send_sa_cc_mad env x tmo retries s
               in if ret = 0 then Some s
                  else sa_cc_mad_done env
                         (if ret = ret_ENOMEM then notify_failure x IB_WC_GENERAL_ERR s
                          else notify_failure x IB_WC_LOC_QP_OP_ERR s))"
  by pat_completeness auto
termination
proof (relation "measure (\<lambda>(env, s). length (fifo_head (tf (cc s))))", goal_cases)
  case (2 env s p o' s1 q x tl t tl' pr tmo retries pr' ret s2)
  have "cc s2 = cc s1" using 2 send_sa_cc_mad_cc by (metis snd_conv)
  then have "length (fifo_head (tf (cc s2))) < length (fifo_head (tf (cc s)))"
    using 2 tf_dequeue_shorter [of env s x tl s1] by simp
  then show ?case by simp
qed simp

declare sa_cc_mad_done.simps [simp del]

definition sa_cc_mad_send :: "cc_env \<Rightarrow> nat \<Rightarrow> cc_state \<Rightarrow> (int \<times> cc_state) option" where
  "sa_cc_mad_send env x s =
     (if outstanding (cc s) < max_outstanding (cc s)
      then
        let s = s\<lparr>cc := (cc s)\<lparr>outstanding := outstanding (cc s) + 1\<rparr>\<rparr>;
            (ret, s) = send_sa_cc_mad env x (timeout_ms (wrs s x)) (retries_left (wrs s x)) s
        in if ret \<noteq> 0 then map_option (Pair ret) (sa_cc_mad_done env s) else Some (ret, s)
      else
        let qtime = timeout_ms (wrs s x) * (retries_left (wrs s x) + 1) - ucast (time_sa_mad (cc s));
            qtime = (if sint qtime < 0 then 0 else qtime)
        in Some (tf_enqueue env x qtime s))"

definition sa_cc_init :: "bool \<Rightarrow> bool \<Rightarrow> bool \<Rightarrow> sa_cc_data option" where
  "sa_cc_init sysfs_ok have_mem have_wq =
     (if \<not> sysfs_ok then None
      else map_option (\<lambda>f. \<lparr>outstanding = 0, queue_size = SA_CC_DEFAULT_QUEUE_SIZE,
             time_sa_mad = SA_CC_DEFAULT_MAD_TIME_MS, max_outstanding = SA_CC_DEFAULT_OUTSTANDING_SA_MADS,
             drops = 0, tf = f\<rparr>) (tf_create have_mem have_wq))"

definition cancel_sa_cc_mads :: "nat \<Rightarrow> cc_state \<Rightarrow> cc_state" where
  "cancel_sa_cc_mads agent s = tf_free_agent agent s"

definition modify_sa_cc_mad :: "cc_env \<Rightarrow> nat \<Rightarrow> nat \<Rightarrow> u32 \<Rightarrow> cc_state \<Rightarrow> int \<times> cc_state" where
  "modify_sa_cc_mad env agent send_buf tmo s =
     (let qtime = (if ucast tmo > time_sa_mad (cc s) then tmo - ucast (time_sa_mad (cc s)) else 0)
      in tf_modify_item env agent send_buf qtime s)"

function destroy_loop :: "cc_env \<Rightarrow> cc_state \<Rightarrow> cc_state option" where
  "destroy_loop env s =
     (case tf_dequeue env s of
        None \<Rightarrow> None
      | Some (None, s) \<Rightarrow> Some s
      | Some (Some (x, _), s) \<Rightarrow> destroy_loop env (notify_failure x IB_WC_WR_FLUSH_ERR s))"
  by pat_completeness auto
termination
  by (relation "measure (\<lambda>(env, s). length (fifo_head (tf (cc s))))") (auto dest: tf_dequeue_shorter)

declare destroy_loop.simps [simp del]

definition sa_cc_destroy :: "cc_env \<Rightarrow> cc_state \<Rightarrow> cc_state option" where
  "sa_cc_destroy env s = map_option (tf_free env) (destroy_loop env (tf_stop_enqueue s))"

text \<open>The attributes of the queue in \<open>sysfs\<close>; the number was parsed from the user's text.\<close>

definition max_outstanding_store :: "u64 option \<Rightarrow> cc_state \<Rightarrow> cc_state result" where
  "max_outstanding_store v s =
     (case v of
        None \<Rightarrow> Inl EINVAL
      | Some v \<Rightarrow>
          if v < SA_CC_MIN_OUTSTANDING_SA_MADS \<or> v > SA_CC_MAX_OUTSTANDING_SA_MADS then Inl EINVAL
          else Inr (s\<lparr>cc := (cc s)\<lparr>max_outstanding := v\<rparr>\<rparr>))"

definition drops_store :: "u64 option \<Rightarrow> cc_state \<Rightarrow> cc_state result" where
  "drops_store v s = (if v \<noteq> Some 0 then Inl EINVAL else Inr (s\<lparr>cc := (cc s)\<lparr>drops := 0\<rparr>\<rparr>))"

definition time_sa_mad_store :: "u64 option \<Rightarrow> cc_state \<Rightarrow> cc_state result" where
  "time_sa_mad_store v s =
     (case v of
        None \<Rightarrow> Inl EINVAL
      | Some v \<Rightarrow>
          if v < SA_CC_MIN_MAD_TIME_MS \<or> v > SA_CC_MAX_MAD_TIME_MS then Inl EINVAL
          else Inr (s\<lparr>cc := (cc s)\<lparr>time_sa_mad := v\<rparr>\<rparr>))"

definition queue_size_store :: "u64 option \<Rightarrow> cc_state \<Rightarrow> cc_state result" where
  "queue_size_store v s =
     (case v of
        None \<Rightarrow> Inl EINVAL
      | Some v \<Rightarrow>
          if v < SA_CC_MIN_QUEUE_SIZE \<or> v > SA_CC_MAX_QUEUE_SIZE then Inl EINVAL
          else Inr (s\<lparr>cc := (cc s)\<lparr>queue_size := v\<rparr>\<rparr>))"


section \<open>The queue's invariant\<close>

text \<open>
  Both lists hold the same entries, the counter counts them, the list of timeouts is ordered, and
  when there are entries the timer or the work item that will look at them is pending: the timer not
  later than the first expiration or \<open>gap\<close> from now, whichever is later.
\<close>

definition timer_ok :: "u64 \<Rightarrow> int \<Rightarrow> (nat \<Rightarrow> sa_wr) \<Rightarrow> to_fifo \<Rightarrow> bool" where
  "timer_ok now gap w f \<longleftrightarrow> work_queued f \<or>
     (\<exists>e. tf_timer f = Some e \<and> near now e \<and> rel_time now e \<le> max (rel_time now (exp_of w (hd (to_head f)))) gap)"

definition tf_ok :: "u64 \<Rightarrow> int \<Rightarrow> (nat \<Rightarrow> sa_wr) \<Rightarrow> to_fifo \<Rightarrow> bool" where
  "tf_ok now gap w f \<longleftrightarrow> distinct (to_head f) \<and> distinct (fifo_head f) \<and> set (to_head f) = set (fifo_head f) \<and>
     unat (num_items f) = length (fifo_head f) \<and> timely now (exp_of w) (to_head f) \<and>
     (\<forall>x \<in> set (to_head f). near now (exp_of w x)) \<and> (to_head f \<noteq> [] \<longrightarrow> timer_ok now gap w f)"

lemma tf_ok_cong:
  assumes "\<And>x. x \<in> set (to_head f) \<Longrightarrow> exp_of w x = exp_of w' x"
  shows "tf_ok now gap w f = tf_ok now gap w' f"
proof -
  have "to_head f \<noteq> [] \<Longrightarrow> timer_ok now gap w f = timer_ok now gap w' f"
    using assms [of "hd (to_head f)"] by (simp add: timer_ok_def)
  then show ?thesis using assms timely_cong [of "to_head f" "exp_of w" "exp_of w'" now] by (auto simp: tf_ok_def)
qed

lemma num_items_dec:
  assumes "unat (n :: u32) = k" "d \<le> k"
  shows "unat (n - of_nat d) = k - d"
proof -
  have "unat n < 2 ^ 32" using unsigned_less [of n] by simp
  then have "k < 2 ^ 32" using assms(1) by simp
  then have "unat (of_nat d :: u32) = d" using assms(2) by (simp add: unat_of_nat take_bit_nat_eq_self)
  then show ?thesis using assms by (simp add: unat_sub word_le_nat_alt)
qed

lemma num_items_inc: "unat (n :: u32) = k \<Longrightarrow> k < 2 ^ 21 \<Longrightarrow> unat (n + 1) = Suc k"
  by (subst unat_add_lem [THEN iffD1]) simp_all

subsection \<open>Expiration\<close>

lemma expire_loop_eq:
  assumes "distinct l" "distinct (fifo_head f)"
  shows "expire_loop now w l f =
    (let P = (\<lambda>x. \<not> time_before now (exp_of w x)); e = takeWhile P l
     in (e, f\<lparr>to_head := dropWhile P l, fifo_head := filter (\<lambda>x. x \<notin> set e) (fifo_head f),
              num_items := num_items f - of_nat (length e)\<rparr>))"
  using assms
proof (induction l arbitrary: f)
  case (Cons x l)
  have "filter (\<lambda>y. y \<notin> set e) (remove1 x (fifo_head f)) = filter (\<lambda>y. y \<noteq> x \<and> y \<notin> set e) (fifo_head f)" for e
    using Cons.prems(2) by (auto simp: distinct_remove1_removeAll removeAll_filter_not_eq intro!: filter_cong)
  then show ?case
    using Cons.prems Cons.IH [of "f\<lparr>fifo_head := remove1 x (fifo_head f), num_items := num_items f - 1\<rparr>"]
    by (simp add: Let_def algebra_simps)
qed simp

lemma timely_due:
  assumes "timely now ex l" "\<forall>x \<in> set l. near now (ex x)" "x \<in> set (dropWhile (\<lambda>x. \<not> time_before now (ex x)) l)"
  shows "0 < rel_time now (ex x)"
  using assms
proof (induction l)
  case (Cons y l)
  show ?case
  proof (cases "time_before now (ex y)")
    case True
    then have "0 < rel_time now (ex y)" using Cons.prems(2) time_before_rel by simp
    then show ?thesis using Cons.prems(1,3) True by (auto simp: timely_Cons)
  next
    case False
    then show ?thesis using Cons by (simp add: timely_Cons)
  qed
qed simp

lemma notify_expired_frame:
  "send_list (notify_expired e s) = send_list s \<and> agent_ref (notify_expired e s) = agent_ref s \<and>
   map fst (notified (notify_expired e s)) = map fst (notified s) @ e \<and>
   (\<forall>y. y \<notin> set e \<longrightarrow> wrs (notify_expired e s) y = wrs s y) \<and>
   (\<forall>y. timeout_ms (wrs (notify_expired e s) y) = timeout_ms (wrs s y) \<and> exp_of (wrs (notify_expired e s)) y = exp_of (wrs s) y)"
  by (induction e arbitrary: s) (auto simp: notify_failure_def set_canceled_def)

text \<open>The second round of the work item finds nothing to do: one round removes all entries that are due.\<close>

lemma expire_loop_none:
  assumes "\<forall>x \<in> set (to_head f). time_before now (exp_of w x)"
  shows "expire_loop now w (to_head f) f = ([], f)"
  using assms by (cases "to_head f") auto

definition env_ok :: "cc_env \<Rightarrow> bool" where
  "env_ok env \<longleftrightarrow> (\<forall>t. uint (msecs_to_jiffies env t) < 2 ^ 62) \<and> msecs_to_jiffies env 0 = 0 \<and> (\<forall>x. ib_send_mad_ret env x \<le> 0)"

definition gap_of :: "cc_env \<Rightarrow> int" where
  "gap_of env = uint (msecs_to_jiffies env MIN_BETWEEN_ACTIVATIONS_MS)"

text \<open>What the steps of the queue leave alone.\<close>

definition tf_frame :: "cc_state \<Rightarrow> cc_state \<Rightarrow> bool" where
  "tf_frame s s' \<longleftrightarrow> outstanding (cc s') = outstanding (cc s) \<and> queue_size (cc s') = queue_size (cc s) \<and>
     time_sa_mad (cc s') = time_sa_mad (cc s) \<and> max_outstanding (cc s') = max_outstanding (cc s) \<and>
     drops (cc s') = drops (cc s) \<and> send_list s' = send_list s \<and> agent_ref s' = agent_ref s \<and>
     stop_enqueue (tf (cc s')) = stop_enqueue (tf (cc s)) \<and> (\<forall>x. timeout_ms (wrs s' x) = timeout_ms (wrs s x))"

lemma same_set_length: "distinct xs \<Longrightarrow> distinct ys \<Longrightarrow> set xs = set ys \<Longrightarrow> length xs = length ys"
  by (metis distinct_card)

lemma adjusted_time_ok:
  assumes "env_ok env" "near (jiffies env) t" "0 < rel_time (jiffies env) t"
  shows "near (jiffies env) (adjusted_time env (jiffies env) t)"
    "rel_time (jiffies env) (adjusted_time env (jiffies env) t) \<le> max (rel_time (jiffies env) t) (gap_of env)"
  using assms near_later [of "msecs_to_jiffies env MIN_BETWEEN_ACTIVATIONS_MS" "jiffies env"]
    rel_time_later [of "msecs_to_jiffies env MIN_BETWEEN_ACTIVATIONS_MS" "jiffies env"]
  by (simp_all add: adjusted_time_def gap_of_def env_ok_def Let_def)

lemma timeout_handler_step:
  assumes ok: "tf_ok (jiffies env) gap (wrs s) (tf (cc s))" and env: "env_ok env" and s': "s' = timeout_handler_task env s"
  shows "\<exists>e. tf_ok (jiffies env) (gap_of env) (wrs s') (tf (cc s')) \<and> tf_frame s s' \<and>
    mset (fifo_head (tf (cc s))) = mset e + mset (fifo_head (tf (cc s'))) \<and>
    map fst (notified s') = map fst (notified s) @ e \<and>
    (\<forall>x \<in> set e. rel_time (jiffies env) (exp_of (wrs s) x) \<le> 0) \<and>
    (\<forall>x \<in> set (fifo_head (tf (cc s'))). 0 < rel_time (jiffies env) (exp_of (wrs s') x))"
proof -
  let ?now = "jiffies env" and ?f = "(tf (cc s))\<lparr>work_queued := False\<rparr>"
  let ?P = "\<lambda>x. \<not> time_before ?now (exp_of (wrs s) x)"
  define s1 where "s1 = set_tf ?f s"
  define e where "e = takeWhile ?P (to_head (tf (cc s)))"
  define f where "f = ?f\<lparr>to_head := dropWhile ?P (to_head (tf (cc s))),
    fifo_head := filter (\<lambda>x. x \<notin> set e) (fifo_head (tf (cc s))), num_items := num_items (tf (cc s)) - of_nat (length e)\<rparr>"
  define s2 where "s2 = notify_expired e (set_tf f s1)"
  have d: "distinct (to_head (tf (cc s)))" "distinct (fifo_head (tf (cc s)))"
    "set (to_head (tf (cc s))) = set (fifo_head (tf (cc s)))" "timely ?now (exp_of (wrs s)) (to_head (tf (cc s)))"
    "\<forall>x \<in> set (to_head (tf (cc s))). near ?now (exp_of (wrs s) x)"
    "unat (num_items (tf (cc s))) = length (fifo_head (tf (cc s)))"
    using ok by (simp_all add: tf_ok_def)
  have x: "expire_loop ?now (wrs s) (to_head (tf (cc s))) ?f = (e, f)"
    using d(1,2) expire_loop_eq [of "to_head (tf (cc s))" ?f ?now "wrs s"] by (simp add: e_def f_def Let_def)
  have same: "tf (cc s1) = ?f" "wrs s1 = wrs s" by (simp_all add: s1_def set_tf_def)
  have tl: "timeout_loop ?now s1 = s2"
  proof -
    have "expire_loop ?now (wrs s1) (to_head (tf (cc s1))) (tf (cc s1)) = (e, f)" using x by (simp add: same)
    moreover have "\<forall>y \<in> set (to_head f). time_before ?now (exp_of (wrs s) y)"
    proof
      fix y
      assume y: "y \<in> set (to_head f)"
      then have "near ?now (exp_of (wrs s) y)" using d(5) set_dropWhileD [of y ?P] by (simp add: f_def)
      moreover have "0 < rel_time ?now (exp_of (wrs s) y)" using timely_due [OF d(4,5)] y by (simp add: f_def)
      ultimately show "time_before ?now (exp_of (wrs s) y)" by (simp add: time_before_rel)
    qed
    then have "expire_loop ?now (wrs s2) (to_head (tf (cc s2))) (tf (cc s2)) = ([], f)"
      using notify_expired_frame [of e "set_tf f s1"] by (simp add: s2_def set_tf_def expire_loop_none same)
    then have "timeout_loop ?now s2 = s2"
      by (subst timeout_loop.simps) (simp add: s2_def set_tf_def)
    ultimately show ?thesis
      by (subst timeout_loop.simps) (simp add: s2_def Let_def)
  qed
  note fr = notify_expired_frame [of e "set_tf f s1"]
  have s2: "tf (cc s2) = f" "send_list s2 = send_list s" "agent_ref s2 = agent_ref s"
    "map fst (notified s2) = map fst (notified s) @ e" "\<And>y. exp_of (wrs s2) y = exp_of (wrs s) y"
    "\<And>y. timeout_ms (wrs s2 y) = timeout_ms (wrs s y)" "cc s2 = (cc s)\<lparr>tf := f\<rparr>"
    using fr by (simp_all add: s2_def s1_def set_tf_def)
  have split: "to_head (tf (cc s)) = e @ to_head f" by (simp add: e_def f_def)
  have due: "\<forall>x \<in> set (to_head f). 0 < rel_time ?now (exp_of (wrs s) x)"
    using timely_due [OF d(4,5)] by (simp add: f_def)
  have near: "\<forall>x \<in> set (to_head f). near ?now (exp_of (wrs s) x)" using d(5) split by simp
  have th: "set (to_head (tf (cc s))) = set e \<union> set (to_head f)" using arg_cong [OF split, of set] by simp
  have dj: "distinct (e @ to_head f)" using d(1) split by metis
  have ff: "fifo_head f = filter (\<lambda>x. x \<notin> set e) (fifo_head (tf (cc s)))" by (simp add: f_def)
  have sets: "set (to_head f) = set (fifo_head f)" "distinct (to_head f)" "distinct (fifo_head f)"
    using th dj d(2,3) by (auto simp: ff)
  have "length (fifo_head f) = length (fifo_head (tf (cc s))) - length e"
    using same_set_length [OF sets(2,3,1)] same_set_length [OF d(1,2,3)] arg_cong [OF split, of length] by simp
  moreover have "length e \<le> length (fifo_head (tf (cc s)))"
    using same_set_length [OF d(1,2,3)] arg_cong [OF split, of length] by simp
  ultimately have num: "unat (num_items f) = length (fifo_head f)"
    using num_items_dec [OF d(6)] by (simp add: f_def)
  have tim: "timely ?now (exp_of (wrs s)) (to_head f)"
    using d(4) unfolding split by (simp add: timely_def sorted_wrt_append)
  define g where "g = (case to_head f of [] \<Rightarrow> f | x # _ \<Rightarrow> f\<lparr>tf_timer := Some (adjusted_time env ?now (exp_of (wrs s2) x))\<rparr>)"
  have g: "to_head g = to_head f" "fifo_head g = fifo_head f" "num_items g = num_items f" "stop_enqueue g = stop_enqueue (tf (cc s))"
    by (simp_all add: g_def f_def split: list.split)
  have "timer_ok ?now (gap_of env) (wrs s2) g" if "to_head f \<noteq> []"
  proof -
    obtain x l where xl: "to_head f = x # l" using \<open>to_head f \<noteq> []\<close> by (cases "to_head f") auto
    have "near ?now (exp_of (wrs s) x)" "0 < rel_time ?now (exp_of (wrs s) x)" using xl near due by simp_all
    then show ?thesis
      using adjusted_time_ok [OF env, of "exp_of (wrs s) x"] by (simp add: g_def xl timer_ok_def s2(5))
  qed
  then have gok: "tf_ok ?now (gap_of env) (wrs s2) g"
    using sets num tim near by (simp add: tf_ok_def g s2(5))
  have s'': "s' = set_tf g s2 \<or> to_head f = [] \<and> s' = s2"
    unfolding s' timeout_handler_task_def s1_def [symmetric] tl by (simp add: s2(1) g_def Let_def split: list.split)
  then have "tf (cc s') = g" using s2(1) by (auto simp: set_tf_def g_def)
  moreover have "mset (fifo_head (tf (cc s))) = mset e + mset (fifo_head f)"
    using d(1,2,3) sets split by (metis mset_append set_eq_iff_mset_eq_distinct)
  moreover have "wrs s' = wrs s2" "send_list s' = send_list s2" "agent_ref s' = agent_ref s2" "notified s' = notified s2"
    "cc s' = (cc s2)\<lparr>tf := g\<rparr>"
    using s'' s2(1) by (auto simp: set_tf_def g_def)
  moreover have "\<forall>x \<in> set e. rel_time ?now (exp_of (wrs s) x) \<le> 0"
    using d(5) time_before_rel by (fastforce simp: e_def dest: set_takeWhileD)
  ultimately show ?thesis
    using gok g s2 due sets(1) by (intro exI [of _ e]) (simp add: tf_frame_def)
qed


subsection \<open>Queue operations\<close>

lemma unat_ucast_u32 [simp]: "unat (ucast (n :: u32) :: u64) = unat n"
proof -
  have "unat n < 2 ^ 32" using unsigned_less [of n] by simp
  then have "take_bit 64 (unat n) = unat n" by (intro take_bit_nat_eq_self) simp
  then show ?thesis by (simp add: unsigned_ucast_eq)
qed

lemma set_exp_time_other [simp]: "y \<noteq> x \<Longrightarrow> wrs (set_exp_time x t s) y = wrs s y"
  "exp_of (wrs (set_exp_time x t s)) x = t" "cc (set_exp_time x t s) = cc s"
  "send_list (set_exp_time x t s) = send_list s" "agent_ref (set_exp_time x t s) = agent_ref s"
  "notified (set_exp_time x t s) = notified s" "timeout_ms (wrs (set_exp_time x t s) y) = timeout_ms (wrs s y)"
  "canceled_in (wrs (set_exp_time x t s)) y = canceled_in (wrs s) y" "wr_agent (wrs (set_exp_time x t s) y) = wr_agent (wrs s y)"
  by (simp_all add: set_exp_time_def)

lemma set_canceled_other [simp]: "exp_of (wrs (set_canceled x b s)) y = exp_of (wrs s) y" "cc (set_canceled x b s) = cc s"
  "send_list (set_canceled x b s) = send_list s" "agent_ref (set_canceled x b s) = agent_ref s"
  "notified (set_canceled x b s) = notified s" "timeout_ms (wrs (set_canceled x b s) y) = timeout_ms (wrs s y)"
  by (simp_all add: set_canceled_def)

lemma set_tf_simps [simp]: "tf (cc (set_tf f s)) = f" "wrs (set_tf f s) = wrs s" "send_list (set_tf f s) = send_list s"
  "agent_ref (set_tf f s) = agent_ref s" "notified (set_tf f s) = notified s" "cc (set_tf f s) = (cc s)\<lparr>tf := f\<rparr>"
  by (simp_all add: set_tf_def)

text \<open>An entry joins the list of timeouts.\<close>

lemma tf_ok_join:
  assumes ok: "distinct l" "distinct q" "insert x (set l) = set q" "x \<notin> set l" "unat n = length q"
    and tim: "timely now (exp_of w) l" "\<forall>y \<in> set l. near now (exp_of w y)" "near now (exp_of w x)"
    and timer: "l \<noteq> [] \<Longrightarrow> \<not> insert_at_head (exp_of w) x l \<Longrightarrow> timer_ok now gap w (f\<lparr>to_head := l\<rparr>)"
      "insert_at_head (exp_of w) x l \<Longrightarrow> tf_timer f = Some (exp_of w x)"
  shows "tf_ok now gap w (f\<lparr>to_head := insert_time (exp_of w) x l, fifo_head := q, num_items := n\<rparr>)"
proof -
  have "timer_ok now gap w (f\<lparr>to_head := insert_time (exp_of w) x l, fifo_head := q, num_items := n\<rparr>)"
  proof (cases "insert_at_head (exp_of w) x l")
    case True
    then show ?thesis using timer(2) tim(3) by (simp add: timer_ok_def hd_insert_time)
  next
    case False
    then have "l \<noteq> []" by (auto simp: insert_at_head_def)
    then show ?thesis using timer(1) False by (simp add: timer_ok_def hd_insert_time)
  qed
  moreover have "timely now (exp_of w) (insert_time (exp_of w) x l)" using tim by (intro timely_insert)
  ultimately show ?thesis using ok tim by (simp add: tf_ok_def ok(3) [symmetric])
qed

lemma tf_enqueue_step:
  assumes ok: "tf_ok (jiffies env) gap (wrs s) (tf (cc s))" and env: "env_ok env" and x: "x \<notin> set (fifo_head (tf (cc s)))"
    and len: "length (fifo_head (tf (cc s))) \<le> 2 ^ 20" and en: "tf_enqueue env x tmo s = (ret, s')"
  shows "tf_ok (jiffies env) gap (wrs s') (tf (cc s')) \<and> notified s' = notified s \<and> send_list s' = send_list s \<and>
    (\<forall>y. timeout_ms (wrs s' y) = timeout_ms (wrs s y)) \<and> agent_ref s' = agent_ref s \<and>
    (\<forall>y. canceled_in (wrs s') y = canceled_in (wrs s) y) \<and>
    (ret = 0 \<and> cc s' = (cc s)\<lparr>tf := tf (cc s')\<rparr> \<and> fifo_head (tf (cc s')) = fifo_head (tf (cc s)) @ [x] \<and>
       unat (queue_size (cc s)) > length (fifo_head (tf (cc s))) \<and> \<not> stop_enqueue (tf (cc s)) \<or>
     ret = ret_EBUSY \<and> cc s' = (cc s)\<lparr>drops := drops (cc s) + 1\<rparr> \<and>
       (unat (queue_size (cc s)) \<le> length (fifo_head (tf (cc s))) \<or> stop_enqueue (tf (cc s))))"
proof -
  let ?t = "jiffies env + msecs_to_jiffies env tmo" and ?f = "tf (cc s)"
  let ?s = "set_exp_time x ?t s"
  let ?w = "wrs ?s"
  have d: "distinct (to_head ?f)" "distinct (fifo_head ?f)" "set (to_head ?f) = set (fifo_head ?f)"
    "unat (num_items ?f) = length (fifo_head ?f)"
    using ok by (simp_all add: tf_ok_def)
  have near: "near (jiffies env) ?t" using env by (intro near_later) (simp add: env_ok_def)
  have ok': "tf_ok (jiffies env) gap ?w ?f"
    using ok x d(3) tf_ok_cong [of ?f "wrs s" ?w] by (metis set_exp_time_other(1))
  have full: "ucast (num_items ?f) \<ge> queue_size (cc s) \<longleftrightarrow> unat (queue_size (cc s)) \<le> length (fifo_head ?f)"
    using d(4) by (simp add: word_le_nat_alt)
  show ?thesis
  proof (cases "unat (queue_size (cc s)) \<le> length (fifo_head ?f) \<or> stop_enqueue ?f")
    case True
    then have "ret = ret_EBUSY" "s' = ?s\<lparr>cc := (cc s)\<lparr>drops := drops (cc s) + 1\<rparr>\<rparr>"
      using en full by (auto simp: tf_enqueue_def Let_def)
    then show ?thesis using ok' True by simp
  next
    case False
    define first where "first \<longleftrightarrow> insert_at_head (exp_of ?w) x (to_head ?f)"
    let ?g = "if first then ?f\<lparr>tf_timer := Some ?t\<rparr> else ?f"
    let ?h = "?g\<lparr>to_head := insert_time (exp_of ?w) x (to_head ?f), fifo_head := fifo_head ?f @ [x], num_items := num_items ?f + 1\<rparr>"
    have h: "ret = 0" "s' = set_tf ?h ?s"
      using en full False by (auto simp: tf_enqueue_def Let_def first_def)
    have "unat (num_items ?f + 1) = length (fifo_head ?f @ [x])"
      using num_items_inc [OF d(4)] len by simp
    moreover have "to_head ?f \<noteq> [] \<Longrightarrow> timer_ok (jiffies env) gap ?w ?f" using ok' by (simp add: tf_ok_def)
    ultimately have "tf_ok (jiffies env) gap ?w ?h"
      using ok' d x near by (intro tf_ok_join) (auto simp: tf_ok_def first_def timer_ok_def)
    then show ?thesis using h False by (simp add: not_le)
  qed
qed


text \<open>Entries leave the queue.\<close>

lemma timely_remove1: "timely now ex l \<Longrightarrow> timely now ex (remove1 x l)"
proof (induction l)
  case (Cons y l)
  then show ?case using set_remove1_subset [of x l] by (auto simp: timely_Cons)
qed simp

lemma timer_ok_remove1:
  assumes "timely now (exp_of w) (to_head f)" "0 \<le> gap" "timer_ok now gap w f" "remove1 x (to_head f) \<noteq> []"
  shows "timer_ok now gap w (f\<lparr>to_head := remove1 x (to_head f)\<rparr>)"
proof (cases "to_head f")
  case (Cons y l)
  show ?thesis
  proof (cases "x = y")
    case True
    then have "hd l \<in> set l" using assms(4) Cons by simp
    then have "rel_time now (exp_of w y) \<le> 0 \<or> rel_time now (exp_of w y) \<le> rel_time now (exp_of w (hd l))"
      using assms(1) Cons by (auto simp: timely_Cons)
    then show ?thesis using assms(2,3) Cons True by (auto simp: timer_ok_def)
  next
    case False
    then show ?thesis using assms(3) Cons by (simp add: timer_ok_def)
  qed
qed (use assms in simp)

lemma tf_ok_leave:
  assumes ok: "tf_ok now gap w f" and x: "x \<in> set (fifo_head f)"
    and g: "to_head g = remove1 x (to_head f)" "fifo_head g = remove1 x (fifo_head f)" "num_items g = num_items f - 1"
    and timer: "to_head g \<noteq> [] \<Longrightarrow> timer_ok now gap w g"
  shows "tf_ok now gap w g"
proof -
  have d: "distinct (to_head f)" "distinct (fifo_head f)" "set (to_head f) = set (fifo_head f)"
    "unat (num_items f) = length (fifo_head f)" "timely now (exp_of w) (to_head f)" "\<forall>x \<in> set (to_head f). near now (exp_of w x)"
    using ok by (simp_all add: tf_ok_def)
  have "1 \<le> length (fifo_head f)" using x by (cases "fifo_head f") auto
  then have "unat (num_items g) = length (fifo_head g)"
    using num_items_dec [OF d(4), of 1] x by (simp add: g length_remove1)
  moreover have "set (to_head g) = set (fifo_head g)" using d g by simp
  ultimately show ?thesis
    using d g timer timely_remove1 [OF d(5)] by (auto simp: tf_ok_def distinct_remove1)
qed

lemma find_in: "find P l = Some x \<Longrightarrow> x \<in> set l \<and> P x"
  by (auto simp: find_Some_iff)

lemma tf_dequeue_step:
  assumes ok: "tf_ok (jiffies env) gap (wrs s) (tf (cc s))" and de: "tf_dequeue env s = Some (r, s')"
  shows "tf_ok (jiffies env) gap (wrs s) (tf (cc s')) \<and> tf_frame s s' \<and> wrs s' = wrs s \<and> notified s' = notified s \<and>
    (case r of
       None \<Rightarrow> s' = s \<and> (\<forall>x \<in> set (fifo_head (tf (cc s))). canceled_in (wrs s) x)
     | Some (x, t) \<Rightarrow> find (\<lambda>x. \<not> canceled_in (wrs s) x) (fifo_head (tf (cc s))) = Some x \<and>
         fifo_head (tf (cc s')) = remove1 x (fifo_head (tf (cc s))))"
proof -
  let ?f = "tf (cc s)"
  consider (none) "r = None" "s' = s" "\<forall>x \<in> set (fifo_head ?f). canceled_in (wrs s) x"
    | (some) x where "find (\<lambda>x. \<not> canceled_in (wrs s) x) (fifo_head ?f) = Some x"
    using de by (auto simp: tf_dequeue_def find_None_iff Let_def split: if_splits option.splits)
  then show ?thesis
  proof cases
    case none
    then show ?thesis using ok by (auto simp: tf_frame_def)
  next
    case some
    define g where "g = (case to_head ?f of [] \<Rightarrow> ?f | y # ys \<Rightarrow>
        if y = x then (case ys of [] \<Rightarrow> ?f\<lparr>tf_timer := None\<rparr> | z # _ \<Rightarrow> ?f\<lparr>tf_timer := Some (exp_of (wrs s) z)\<rparr>) else ?f)"
    define h where "h = g\<lparr>fifo_head := remove1 x (fifo_head ?f), to_head := remove1 x (to_head ?f), num_items := num_items ?f - 1\<rparr>"
    have g: "fifo_head g = fifo_head ?f" "to_head g = to_head ?f" "num_items g = num_items ?f" "stop_enqueue g = stop_enqueue ?f"
      by (auto simp: g_def split: list.split)
    have x: "x \<in> set (fifo_head ?f)" using find_in [OF some] by simp
    then have ne: "fifo_head ?f \<noteq> []" by auto
    obtain t where r: "r = Some (x, t)" and s': "s' = set_tf h s"
    proof -
      have "\<exists>t. tf_dequeue env s = Some (Some (x, t), set_tf (g\<lparr>fifo_head := remove1 x (fifo_head g),
          to_head := remove1 x (to_head g), num_items := num_items g - 1\<rparr>) s)"
        using some ne by (simp add: tf_dequeue_def Let_def g_def)
      then show thesis using that de by (auto simp: h_def g)
    qed
    have "timer_ok (jiffies env) gap (wrs s) h" if nil: "remove1 x (to_head ?f) \<noteq> []"
    proof (cases "to_head ?f")
      case (Cons y ys)
      show ?thesis
      proof (cases "y = x")
        case True
        then obtain z zs where z: "ys = z # zs" using nil Cons by (cases ys) auto
        then have "near (jiffies env) (exp_of (wrs s) z)" using ok Cons by (simp add: tf_ok_def)
        then show ?thesis using True Cons z by (simp add: timer_ok_def h_def g_def)
      next
        case False
        then show ?thesis using ok Cons by (simp add: tf_ok_def timer_ok_def h_def g_def)
      qed
    qed (use nil in simp)
    then have "tf_ok (jiffies env) gap (wrs s) h"
      by (intro tf_ok_leave [OF ok x]) (simp_all add: h_def)
    then show ?thesis using r some g by (simp add: s' tf_frame_def h_def)
  qed
qed

lemma free_agent_loop_step:
  assumes "tf_ok now gap w f" "0 \<le> gap" "distinct xs" "set xs \<subseteq> set (fifo_head f)"
  shows "\<exists>f'. free_agent_loop w a xs f tmp = (f', rev (filter (\<lambda>x. wr_agent (w x) = a) xs) @ tmp) \<and>
    tf_ok now gap w f' \<and> stop_enqueue f' = stop_enqueue f \<and>
    mset (fifo_head f) = mset (filter (\<lambda>x. wr_agent (w x) = a) xs) + mset (fifo_head f')"
  using assms
proof (induction xs arbitrary: f tmp)
  case (Cons x xs)
  show ?case
  proof (cases "wr_agent (w x) = a")
    case True
    let ?f = "f\<lparr>to_head := remove1 x (to_head f), fifo_head := remove1 x (fifo_head f), num_items := num_items f - 1\<rparr>"
    have x: "x \<in> set (fifo_head f)" using Cons.prems by simp
    then have "to_head f \<noteq> []" using Cons.prems(1) by (auto simp: tf_ok_def)
    then have "timer_ok now gap w ?f" if "remove1 x (to_head f) \<noteq> []"
      using that timer_ok_remove1 [of now w f gap x] Cons.prems(1,2) by (simp add: tf_ok_def timer_ok_def)
    then have ok: "tf_ok now gap w ?f" by (intro tf_ok_leave [OF Cons.prems(1) x]) simp_all
    have "set xs \<subseteq> set (fifo_head ?f)" using Cons.prems by (auto simp: tf_ok_def)
    then obtain f' where f': "free_agent_loop w a xs ?f (x # tmp) = (f', rev (filter (\<lambda>x. wr_agent (w x) = a) xs) @ x # tmp)"
      "tf_ok now gap w f'" "stop_enqueue f' = stop_enqueue f"
      "mset (remove1 x (fifo_head f)) = mset (filter (\<lambda>x. wr_agent (w x) = a) xs) + mset (fifo_head f')"
      using Cons.IH [OF ok Cons.prems(2), of "x # tmp"] Cons.prems(3) by auto
    have "mset (fifo_head f) = add_mset x (mset (remove1 x (fifo_head f)))" using x by simp
    then have "mset (fifo_head f) = add_mset x (mset (filter (\<lambda>x. wr_agent (w x) = a) xs)) + mset (fifo_head f')"
      unfolding f'(4) by simp
    then show ?thesis using True f' by simp
  next
    case False
    then show ?thesis using Cons.IH [OF Cons.prems(1,2), of tmp] Cons.prems(3,4) by simp
  qed
qed simp

lemma fold_notify: "fold (\<lambda>x. notify_failure x st) l s = s\<lparr>notified := notified s @ map (\<lambda>x. (x, st)) l\<rparr>"
  by (induction l arbitrary: s) (simp_all add: notify_failure_def)

lemma tf_free_agent_step:
  assumes ok: "tf_ok now gap (wrs s) (tf (cc s))" and "0 \<le> gap" and s'_def: "s' = tf_free_agent a s"
  shows "tf_ok now gap (wrs s') (tf (cc s')) \<and> tf_frame s s' \<and> wrs s' = wrs s \<and>
    (\<exists>e. mset e = mset (filter (\<lambda>x. wr_agent (wrs s x) = a) (fifo_head (tf (cc s)))) \<and>
       mset (fifo_head (tf (cc s))) = mset e + mset (fifo_head (tf (cc s'))) \<and>
       notified s' = notified s @ map (\<lambda>x. (x, IB_WC_WR_FLUSH_ERR)) e)"
proof -
  have "distinct (fifo_head (tf (cc s)))" using ok by (simp add: tf_ok_def)
  then obtain f' where f': "free_agent_loop (wrs s) a (fifo_head (tf (cc s))) (tf (cc s)) [] =
      (f', rev (filter (\<lambda>x. wr_agent (wrs s x) = a) (fifo_head (tf (cc s)))))"
    "tf_ok now gap (wrs s) f'" "stop_enqueue f' = stop_enqueue (tf (cc s))"
    "mset (fifo_head (tf (cc s))) = mset (filter (\<lambda>x. wr_agent (wrs s x) = a) (fifo_head (tf (cc s)))) + mset (fifo_head f')"
    using free_agent_loop_step [OF ok assms(2), of "fifo_head (tf (cc s))" a "[]"] by auto
  define e where "e = rev (filter (\<lambda>x. wr_agent (wrs s x) = a) (fifo_head (tf (cc s))))"
  have s': "s' = set_tf f' s\<lparr>notified := notified s @ map (\<lambda>x. (x, IB_WC_WR_FLUSH_ERR)) e\<rparr>"
    by (simp add: s'_def tf_free_agent_def f'(1) fold_notify e_def)
  have m: "mset e = mset (filter (\<lambda>x. wr_agent (wrs s x) = a) (fifo_head (tf (cc s))))" by (simp add: e_def)
  have q: "mset (fifo_head (tf (cc s))) = mset e + mset (fifo_head f')" unfolding m by (rule f'(4))
  have t: "tf (cc s') = f'" "wrs s' = wrs s" "notified s' = notified s @ map (\<lambda>x. (x, IB_WC_WR_FLUSH_ERR)) e" "tf_frame s s'"
    by (simp_all add: s' tf_frame_def f'(3))
  show ?thesis unfolding t(1-3) using f'(2) t(4) q m by blast
qed

lemma find_unique: "find (\<lambda>x. P x \<and> x = y) l = (if y \<in> set l \<and> P y then Some y else None)"
  by (induction l) auto

lemma tf_modify_item_step:
  assumes ok: "tf_ok (jiffies env) gap (wrs s) (tf (cc s))" and env: "env_ok env" and gap: "0 \<le> gap"
    and m: "tf_modify_item env a x tmo s = (ret, s')"
  shows "tf_ok (jiffies env) gap (wrs s') (tf (cc s')) \<and> tf_frame s s' \<and> notified s' = notified s \<and>
    mset (fifo_head (tf (cc s'))) = mset (fifo_head (tf (cc s))) \<and>
    (\<forall>y. y \<noteq> x \<longrightarrow> wrs s' y = wrs s y) \<and> (\<forall>y. wr_agent (wrs s' y) = wr_agent (wrs s y)) \<and>
    (if x \<in> set (fifo_head (tf (cc s))) \<and> wr_agent (wrs s x) = a
     then ret = 0 \<and> exp_of (wrs s') x = jiffies env + msecs_to_jiffies env tmo \<and>
       (canceled_in (wrs s') x \<longleftrightarrow> tmo = 0 \<or> canceled_in (wrs s) x)
     else ret = ret_ENXIO \<and> s' = s)"
proof (cases "x \<in> set (fifo_head (tf (cc s))) \<and> wr_agent (wrs s x) = a")
  case False
  then show ?thesis using m ok by (auto simp: tf_modify_item_def find_unique tf_frame_def)
next
  case True
  let ?now = "jiffies env" and ?t = "jiffies env + msecs_to_jiffies env tmo" and ?f = "tf (cc s)"
  let ?s = "set_exp_time x ?t s" and ?l = "remove1 x (to_head (tf (cc s)))"
  let ?w = "wrs ?s"
  have d: "distinct (to_head ?f)" "distinct (fifo_head ?f)" "set (to_head ?f) = set (fifo_head ?f)"
    "unat (num_items ?f) = length (fifo_head ?f)" "timely ?now (exp_of (wrs s)) (to_head ?f)"
    "\<forall>y \<in> set (to_head ?f). near ?now (exp_of (wrs s) y)"
    using ok by (simp_all add: tf_ok_def)
  have x: "x \<in> set (fifo_head ?f)" "x \<notin> set ?l" "insert x (set ?l) = set (fifo_head ?f)" using True d by auto
  have w: "exp_of ?w y = exp_of (wrs s) y" if "y \<in> set ?l" for y using x(2) that by (metis set_exp_time_other(1))
  have near: "near ?now ?t" using env by (intro near_later) (simp add: env_ok_def)
  have tim: "timely ?now (exp_of ?w) ?l" "\<forall>y \<in> set ?l. near ?now (exp_of ?w y)"
    using timely_remove1 [OF d(5), of x] timely_cong [of ?l "exp_of ?w" "exp_of (wrs s)"] w d(1,6) by auto
  have tmr: "timer_ok ?now gap ?w (?f\<lparr>to_head := ?l\<rparr>)" if "?l \<noteq> []"
  proof -
    have "to_head ?f \<noteq> []" using \<open>?l \<noteq> []\<close> by auto
    then have "timer_ok ?now gap (wrs s) (?f\<lparr>to_head := ?l\<rparr>)"
      using timer_ok_remove1 [OF d(5) gap _ \<open>?l \<noteq> []\<close>] ok by (simp add: tf_ok_def)
    then show ?thesis using w [of "hd ?l"] \<open>?l \<noteq> []\<close> by (simp add: timer_ok_def)
  qed
  show ?thesis
  proof (cases "tmo = 0")
    case False
    define first where "first \<longleftrightarrow> insert_at_head (exp_of ?w) x ?l"
    let ?g = "if first then ?f\<lparr>tf_timer := Some ?t\<rparr> else ?f"
    let ?h = "?g\<lparr>to_head := insert_time (exp_of ?w) x ?l, fifo_head := fifo_head ?f, num_items := num_items ?f\<rparr>"
    have h: "ret = 0" "s' = set_tf ?h ?s"
      using m True False by (auto simp: tf_modify_item_def find_unique Let_def first_def)
    have "tf_ok ?now gap ?w ?h"
      using d x tim near tmr by (intro tf_ok_join) (auto simp: first_def timer_ok_def)
    then show ?thesis using h True False by (simp add: tf_frame_def)
  next
    case cancel: True
    let ?h = "?f\<lparr>to_head := x # ?l, fifo_head := remove1 x (fifo_head ?f) @ [x], tf_timer := Some ?t\<rparr>"
    let ?s2 = "set_canceled x True ?s"
    have h: "ret = 0" "s' = set_tf ?h ?s2"
      using m True cancel by (auto simp: tf_modify_item_def find_unique Let_def)
    have now: "?t = ?now" using env cancel by (simp add: env_ok_def)
    have "length (remove1 x (fifo_head ?f) @ [x]) = length (fifo_head ?f)"
      using x(1) length_pos_if_in_set [of x "fifo_head ?f"] by (simp add: length_remove1)
    moreover have "set (to_head ?h) = set (fifo_head ?f)" using x(3) by simp
    moreover have "\<forall>y \<in> set (to_head ?h). near ?now (exp_of ?w y)" using tim(2) near by simp
    moreover have "timely ?now (exp_of ?w) (to_head ?h)" using tim(1) now by (simp add: timely_Cons)
    moreover have "timer_ok ?now gap ?w ?h" using near now by (simp add: timer_ok_def)
    ultimately have "tf_ok ?now gap ?w ?h" using d x(1,2) by (simp add: tf_ok_def insert_absorb)
    then have "tf_ok ?now gap (wrs ?s2) ?h" using tf_ok_cong [of ?h ?w "wrs ?s2"] by simp
    moreover have "wrs ?s2 y = wrs s y" if "y \<noteq> x" for y using that by (simp add: set_canceled_def)
    ultimately show ?thesis using h True cancel x(1) by (simp add: tf_frame_def set_canceled_def)
  qed
qed

lemma tf_ok_activate: "tf_ok now gap w f \<Longrightarrow> tf_ok now gap w (f\<lparr>tf_timer := None, work_queued := True\<rparr>)"
  by (simp add: tf_ok_def timer_ok_def)

lemma tf_ok_gap: "tf_ok now gap w f \<Longrightarrow> gap \<le> gap' \<Longrightarrow> tf_ok now gap' w f"
  by (fastforce simp: tf_ok_def timer_ok_def)

lemma tf_ok_tick:
  assumes ok: "tf_ok now gap w f" and gap: "0 \<le> gap" and d: "uint d < 2 ^ 62"
    and near: "\<forall>x \<in> set (to_head f). near (now + d) (exp_of w x)" "\<forall>e. tf_timer f = Some e \<longrightarrow> near (now + d) e"
  shows "tf_ok (now + d) gap w f"
proof -
  have n: "\<forall>x \<in> set (to_head f). near now (exp_of w x)" using ok by (simp add: tf_ok_def)
  have "timer_ok (now + d) gap w f" if ne: "to_head f \<noteq> []"
  proof (cases "work_queued f")
    case False
    let ?x = "hd (to_head f)"
    obtain e where e: "tf_timer f = Some e" "near now e" "rel_time now e \<le> max (rel_time now (exp_of w ?x)) gap"
      using ok ne False by (auto simp: tf_ok_def timer_ok_def)
    have "rel_time (now + d) e = rel_time now e - uint d" "rel_time (now + d) (exp_of w ?x) = rel_time now (exp_of w ?x) - uint d"
      using rel_time_tick [OF _ _ d] e near n ne by simp_all
    moreover have "0 \<le> uint d" by simp
    ultimately have "rel_time (now + d) e \<le> max (rel_time (now + d) (exp_of w ?x)) gap" using e(3) by linarith
    then show ?thesis using e near(2) by (simp add: timer_ok_def)
  qed (simp add: timer_ok_def)
  then show ?thesis
    using ok near n timely_tick [of now "exp_of w" "to_head f" d] d by (simp add: tf_ok_def)
qed


section \<open>The window\<close>

text \<open>
  The invariant of the congestion control: the counter of outstanding datagrams counts those in the
  send lists, with \<open>k\<close> slots that are about to be reused.
\<close>

definition cc_inv :: "nat \<Rightarrow> u64 \<Rightarrow> int \<Rightarrow> cc_state \<Rightarrow> bool" where
  "cc_inv k now gap s \<longleftrightarrow> tf_ok now gap (wrs s) (tf (cc s)) \<and>
     unat (outstanding (cc s)) = length (send_list s) + k \<and> distinct (send_list s) \<and>
     set (send_list s) \<inter> set (fifo_head (tf (cc s))) = {} \<and> (\<forall>x \<in> set (fifo_head (tf (cc s))). timeout_ms (wrs s x) \<noteq> 0) \<and>
     unat (max_outstanding (cc s)) \<le> 2 ^ 20 \<and> unat (queue_size (cc s)) \<le> 2 ^ 20 \<and>
     length (fifo_head (tf (cc s))) \<le> 2 ^ 20 \<and> unat (outstanding (cc s)) \<le> 2 ^ 20"

text \<open>The datagrams the module is responsible for, and those it gave back.\<close>

definition cc_all :: "cc_state \<Rightarrow> nat multiset" where
  "cc_all s = mset (fifo_head (tf (cc s))) + mset (send_list s) + mset (map fst (notified s))"

lemma send_sa_cc_mad_step:
  assumes se: "send_sa_cc_mad env x tmo r s = (ret, s')" and env: "env_ok env" and x: "x \<notin> set (send_list s)"
  shows "cc s' = cc s \<and> notified s' = notified s \<and> (\<forall>y. tf_list (wrs s' y) = tf_list (wrs s y) \<and>
      timeout_ms (wrs s' y) = timeout_ms (wrs s y) \<and> wr_agent (wrs s' y) = wr_agent (wrs s y)) \<and>
    (ret = 0 \<and> send_list s' = send_list s @ [x] \<or> ret < 0 \<and> send_list s' = send_list s)"
proof -
  have "ib_send_mad_ret env x \<le> 0" using env by (simp add: env_ok_def)
  then show ?thesis
    using se x by (auto simp: send_sa_cc_mad_def Let_def ret_EIO_def remove1_append split: if_splits)
qed

lemma cc_inv_cong_wrs:
  assumes "cc_inv k now gap s" "cc s' = cc s" "send_list s' = send_list s"
    "\<And>y. tf_list (wrs s' y) = tf_list (wrs s y) \<and> timeout_ms (wrs s' y) = timeout_ms (wrs s y)"
  shows "cc_inv k now gap s'"
proof -
  have "tf_ok now gap (wrs s') (tf (cc s)) = tf_ok now gap (wrs s) (tf (cc s))" using assms(4) by (intro tf_ok_cong) simp
  then show ?thesis using assms by (simp add: cc_inv_def)
qed

lemma dequeue_inv:
  assumes inv: "cc_inv k (jiffies env) gap s" and de: "tf_dequeue env s = Some (Some (x, t), s')"
  shows "cc_inv k (jiffies env) gap s' \<and> x \<notin> set (send_list s') \<and> x \<notin> set (fifo_head (tf (cc s'))) \<and>
    timeout_ms (wrs s' x) \<noteq> 0 \<and> cc_all s = add_mset x (cc_all s') \<and>
    set (fifo_head (tf (cc s'))) \<subseteq> set (fifo_head (tf (cc s))) \<and> wrs s' = wrs s"
proof -
  have ok: "tf_ok (jiffies env) gap (wrs s) (tf (cc s))" using inv by (simp add: cc_inv_def)
  note st = tf_dequeue_step [OF ok de]
  have x: "x \<in> set (fifo_head (tf (cc s)))" using st find_in by fastforce
  have d: "distinct (fifo_head (tf (cc s)))" using ok by (simp add: tf_ok_def)
  have fr: "outstanding (cc s') = outstanding (cc s)" "send_list s' = send_list s" "wrs s' = wrs s" "notified s' = notified s"
    "fifo_head (tf (cc s')) = remove1 x (fifo_head (tf (cc s)))" "max_outstanding (cc s') = max_outstanding (cc s)"
    "queue_size (cc s') = queue_size (cc s)"
    using st by (simp_all add: tf_frame_def)
  have "cc_inv k (jiffies env) gap s'"
    using inv st x d unfolding cc_inv_def fr by (auto simp: length_remove1)
  moreover have "x \<notin> set (send_list s)" "timeout_ms (wrs s x) \<noteq> 0" using inv x by (auto simp: cc_inv_def)
  moreover have "x \<notin> set (fifo_head (tf (cc s')))" using d fr(5) by simp
  moreover have "cc_all s = add_mset x (cc_all s')"
    using x unfolding cc_all_def fr(2,4,5) by simp
  moreover have "set (fifo_head (tf (cc s'))) \<subseteq> set (fifo_head (tf (cc s)))"
    unfolding fr(5) by (rule set_remove1_subset)
  ultimately show ?thesis using fr(2,3) by simp
qed

lemma sa_cc_mad_done_step:
  assumes "sa_cc_mad_done env s = Some s'" "cc_inv 1 (jiffies env) gap s" "env_ok env"
  shows "cc_inv 0 (jiffies env) gap s' \<and> cc_all s' = cc_all s"
  using assms
proof (induction "length (fifo_head (tf (cc s)))" arbitrary: s rule: less_induct)
  case (less s)
  note inv = less(3)
  have out: "0 < unat (outstanding (cc s))" using inv by (simp add: cc_inv_def)
  show ?case
  proof (cases "tf_dequeue env s")
    case None
    then show ?thesis using less(2) by (simp add: sa_cc_mad_done.simps)
  next
    case (Some p)
    obtain r s1 where p: "p = (r, s1)" by fastforce
    show ?thesis
    proof (cases r)
      case None
      have "s1 = s" using tf_dequeue_step [of env gap s r s1] Some p None inv by (auto simp: cc_inv_def)
      moreover have "outstanding (cc s) > 0" using out by (simp add: word_less_nat_alt)
      ultimately have s': "s' = s\<lparr>cc := (cc s)\<lparr>outstanding := outstanding (cc s) - 1\<rparr>\<rparr>"
        using less(2) Some p None by (simp add: sa_cc_mad_done.simps)
      have "unat (outstanding (cc s) - 1) = unat (outstanding (cc s)) - 1"
        using out by (simp add: unat_sub word_le_nat_alt)
      then show ?thesis using inv out by (simp add: s' cc_inv_def cc_all_def)
    next
      case (Some q)
      obtain x t where q: "q = (x, t)" by fastforce
      have de: "tf_dequeue env s = Some (Some (x, t), s1)" using \<open>tf_dequeue env s = Some p\<close> p Some q by simp
      note dq = dequeue_inv [OF inv de]
      have nz: "timeout_ms (wrs s1 x) \<noteq> 0" using dq by blast
      let ?t = "timeout_ms (wrs s1 x)" and ?l = "t + ucast (time_sa_mad (cc s1))"
      obtain tmo rt where tr: "(if ?l > ?t then (?t, ?l div ?t - 1) else (?l, 0)) = (tmo, rt)" by fastforce
      obtain ret s2 where se: "send_sa_cc_mad env x tmo rt s1 = (ret, s2)" by fastforce
      have x1: "x \<notin> set (send_list s1)" and inv1: "cc_inv 1 (jiffies env) gap s1" using dq by blast+
      note ss = send_sa_cc_mad_step [OF se less(4) x1]
      let ?n = "if ret = ret_ENOMEM then notify_failure x IB_WC_GENERAL_ERR s2 else notify_failure x IB_WC_LOC_QP_OP_ERR s2"
      have eq: "sa_cc_mad_done env s = (if ret = 0 then Some s2 else sa_cc_mad_done env ?n)"
        using de nz tr se by (subst sa_cc_mad_done.simps) (simp add: Let_def)
      have inv2: "cc_inv 1 (jiffies env) gap (s2\<lparr>send_list := send_list s1\<rparr>)"
        by (rule cc_inv_cong_wrs [OF inv1]) (use ss in simp_all)
      show ?thesis
      proof (cases "ret = 0")
        case True
        then have s2: "s' = s2" "send_list s2 = send_list s1 @ [x]" "cc s2 = cc s1" "notified s2 = notified s1"
          using less(2) eq ss by simp_all
        have "cc_all s2 = cc_all s" using dq s2 by (simp add: cc_all_def)
        moreover have "x \<notin> set (fifo_head (tf (cc s1)))" using dq by blast
        ultimately show ?thesis
          using inv2 x1 s2 by (simp add: cc_inv_def)
      next
        case False
        then have s2: "send_list s2 = send_list s1" "cc s2 = cc s1" "notified s2 = notified s1" using ss by simp_all
        have n: "cc_inv 1 (jiffies env) gap ?n" "cc_all ?n = add_mset x (cc_all s1)"
          using inv2 s2 by (simp_all add: notify_failure_def cc_inv_def cc_all_def)
        have "length (fifo_head (tf (cc ?n))) < length (fifo_head (tf (cc s)))"
          using tf_dequeue_shorter [OF de] s2(2) by simp
        moreover have "sa_cc_mad_done env ?n = Some s'" using less(2) eq False by simp
        ultimately have "cc_inv 0 (jiffies env) gap s' \<and> cc_all s' = cc_all ?n"
          using less(1) [of ?n] n(1) less(4) by simp
        then show ?thesis using n dq by simp
      qed
    qed
  qed
qed


lemma unat_inc_u64: "unat (n :: u64) < 2 ^ 21 \<Longrightarrow> unat (n + 1) = Suc (unat n)"
  by (subst unat_add_lem [THEN iffD1]) simp_all

lemma sa_cc_mad_send_step:
  assumes se: "sa_cc_mad_send env x s = Some (ret, s')" and inv: "cc_inv 0 (jiffies env) gap s" and env: "env_ok env"
    and x: "x \<notin> set (send_list s)" "x \<notin> set (fifo_head (tf (cc s)))" "timeout_ms (wrs s x) \<noteq> 0"
  shows "cc_inv 0 (jiffies env) gap s' \<and> cc_all s' = (if ret = 0 then add_mset x (cc_all s) else cc_all s)"
proof (cases "outstanding (cc s) < max_outstanding (cc s)")
  case True
  let ?s = "s\<lparr>cc := (cc s)\<lparr>outstanding := outstanding (cc s) + 1\<rparr>\<rparr>"
  obtain r s1 where s1: "send_sa_cc_mad env x (timeout_ms (wrs s x)) (retries_left (wrs s x)) ?s = (r, s1)" by fastforce
  have lt: "unat (outstanding (cc s)) < unat (max_outstanding (cc s))" using True by (simp add: word_less_nat_alt)
  then have "unat (outstanding (cc s) + 1) = Suc (unat (outstanding (cc s)))"
    using inv by (intro unat_inc_u64) (simp add: cc_inv_def)
  then have inv1: "cc_inv 1 (jiffies env) gap ?s" using inv lt by (simp add: cc_inv_def)
  have "x \<notin> set (send_list ?s)" using x(1) by simp
  note ss = send_sa_cc_mad_step [OF s1 env this]
  have inv2: "cc_inv 1 (jiffies env) gap (s1\<lparr>send_list := send_list s\<rparr>)"
    by (rule cc_inv_cong_wrs [OF inv1]) (use ss in simp_all)
  show ?thesis
  proof (cases "r = 0")
    case True
    then have "ret = 0" "s' = s1" using se s1 \<open>outstanding (cc s) < _\<close> by (auto simp: sa_cc_mad_send_def Let_def)
    moreover have "send_list s1 = send_list s @ [x]" "cc s1 = cc ?s" "notified s1 = notified s" using ss True by auto
    ultimately show ?thesis using inv2 x by (auto simp: cc_inv_def cc_all_def)
  next
    case False
    then have r: "ret = r" "sa_cc_mad_done env s1 = Some s'"
      using se s1 \<open>outstanding (cc s) < _\<close> by (auto simp: sa_cc_mad_send_def Let_def)
    have s1': "send_list s1 = send_list s" "cc s1 = cc ?s" "notified s1 = notified s" using ss False by auto
    then have "cc_inv 1 (jiffies env) gap s1" using inv2 by (metis cc_inv_cong_wrs cc_state.select_convs(1,2,3) cc_state.surjective cc_state.update_convs(3))
    then show ?thesis using sa_cc_mad_done_step [OF r(2) _ env] r(1) False s1' by (simp add: cc_all_def)
  qed
next
  case False
  then obtain q where en: "tf_enqueue env x q s = (ret, s')"
    using se by (auto simp: sa_cc_mad_send_def Let_def)
  have ok: "tf_ok (jiffies env) gap (wrs s) (tf (cc s))" "length (fifo_head (tf (cc s))) \<le> 2 ^ 20"
    using inv by (simp_all add: cc_inv_def)
  note st = tf_enqueue_step [OF ok(1) env x(2) ok(2) en]
  then consider (queued) "ret = 0" "cc s' = (cc s)\<lparr>tf := tf (cc s')\<rparr>" "fifo_head (tf (cc s')) = fifo_head (tf (cc s)) @ [x]"
      "length (fifo_head (tf (cc s))) < unat (queue_size (cc s))"
    | (full) "ret = ret_EBUSY" "cc s' = (cc s)\<lparr>drops := drops (cc s) + 1\<rparr>"
    by blast
  then show ?thesis
  proof cases
    case queued
    have "outstanding (cc s') = outstanding (cc s)" "max_outstanding (cc s') = max_outstanding (cc s)"
      "queue_size (cc s') = queue_size (cc s)"
      by (subst queued(2), simp)+
    then show ?thesis using inv st x queued(1,3,4) by (auto simp: cc_inv_def cc_all_def)
  next
    case full
    then show ?thesis using inv st by (auto simp: cc_inv_def cc_all_def ret_EBUSY_def)
  qed
qed

text \<open>Steps that only touch the queue.\<close>

lemma cc_inv_frame:
  assumes "cc_inv k now gap s" "tf_ok now' gap' (wrs s') (tf (cc s'))" "tf_frame s s'"
    and "mset (fifo_head (tf (cc s))) = E + mset (fifo_head (tf (cc s')))"
  shows "cc_inv k now' gap' s'"
proof -
  have fr: "outstanding (cc s') = outstanding (cc s)" "max_outstanding (cc s') = max_outstanding (cc s)"
    "queue_size (cc s') = queue_size (cc s)" "send_list s' = send_list s" "\<And>x. timeout_ms (wrs s' x) = timeout_ms (wrs s x)"
    using assms(3) by (simp_all add: tf_frame_def)
  have sub: "set (fifo_head (tf (cc s'))) \<subseteq> set (fifo_head (tf (cc s)))"
    using assms(4) by (metis mset_subset_eq_add_right set_mset_mono set_mset_mset)
  have "length (fifo_head (tf (cc s'))) \<le> length (fifo_head (tf (cc s)))"
    using assms(4) by (metis le_add2 size_mset size_union)
  then show ?thesis using assms(1,2) sub unfolding cc_inv_def fr by auto
qed

inductive sa_cc_reach :: "(u32 \<Rightarrow> u64) \<Rightarrow> u64 \<Rightarrow> cc_state \<Rightarrow> nat list \<Rightarrow> nat list \<Rightarrow> bool" for m2j where
  cc_start: "sa_cc_init True True True = Some c \<Longrightarrow>
    sa_cc_reach m2j now \<lparr>cc = c, wrs = w, send_list = [], agent_ref = r, notified = []\<rparr> [] []"
| cc_fill: "sa_cc_reach m2j now s A C \<Longrightarrow> x \<notin> set (fifo_head (tf (cc s))) \<Longrightarrow>
    sa_cc_reach m2j now (s\<lparr>wrs := (wrs s)(x := w)\<rparr>) A C"
| cc_post: "sa_cc_reach m2j (jiffies env) s A C \<Longrightarrow> env_ok env \<Longrightarrow> msecs_to_jiffies env = m2j \<Longrightarrow> is_sa_cc_mad (wrs s x) \<Longrightarrow>
    x \<notin> set (fifo_head (tf (cc s))) \<Longrightarrow> x \<notin> set (send_list s) \<Longrightarrow> sa_cc_mad_send env x s = Some (ret, s') \<Longrightarrow>
    sa_cc_reach m2j (jiffies env) s' (if ret = 0 then A @ [x] else A) C"
| cc_complete: "sa_cc_reach m2j (jiffies env) s A C \<Longrightarrow> env_ok env \<Longrightarrow> msecs_to_jiffies env = m2j \<Longrightarrow> x \<in> set (send_list s) \<Longrightarrow>
    sa_cc_mad_done env (s\<lparr>send_list := remove1 x (send_list s)\<rparr>) = Some s' \<Longrightarrow> sa_cc_reach m2j (jiffies env) s' A (C @ [x])"
| cc_timer: "sa_cc_reach m2j now s A C \<Longrightarrow> tf_timer (tf (cc s)) = Some e \<Longrightarrow> \<not> time_before now e \<Longrightarrow>
    sa_cc_reach m2j now (activate_timeout_handler_task s) A C"
| cc_work: "sa_cc_reach m2j (jiffies env) s A C \<Longrightarrow> env_ok env \<Longrightarrow> msecs_to_jiffies env = m2j \<Longrightarrow> work_queued (tf (cc s)) \<Longrightarrow>
    sa_cc_reach m2j (jiffies env) (timeout_handler_task env s) A C"
| cc_modify: "sa_cc_reach m2j (jiffies env) s A C \<Longrightarrow> env_ok env \<Longrightarrow> msecs_to_jiffies env = m2j \<Longrightarrow>
    modify_sa_cc_mad env a x tmo s = (ret, s') \<Longrightarrow> sa_cc_reach m2j (jiffies env) s' A C"
| cc_cancel: "sa_cc_reach m2j now s A C \<Longrightarrow> sa_cc_reach m2j now (cancel_sa_cc_mads a s) A C"
| cc_tick: "sa_cc_reach m2j now s A C \<Longrightarrow> uint d < 2 ^ 62 \<Longrightarrow>
    \<forall>x \<in> set (to_head (tf (cc s))). near (now + d) (exp_of (wrs s) x) \<Longrightarrow>
    \<forall>e. tf_timer (tf (cc s)) = Some e \<longrightarrow> near (now + d) e \<Longrightarrow> sa_cc_reach m2j (now + d) s A C"
| cc_store: "sa_cc_reach m2j now s A C \<Longrightarrow>
    max_outstanding_store v s = Inr s' \<or> queue_size_store v s = Inr s' \<or> time_sa_mad_store v s = Inr s' \<or> drops_store v s = Inr s' \<Longrightarrow>
    sa_cc_reach m2j now s' A C"

abbreviation gap_ms :: "(u32 \<Rightarrow> u64) \<Rightarrow> int" where
  "gap_ms m2j \<equiv> uint (m2j MIN_BETWEEN_ACTIVATIONS_MS)"

lemma max_consts: "unat SA_CC_MAX_OUTSTANDING_SA_MADS = 2 ^ 20" "unat SA_CC_MAX_QUEUE_SIZE = 2 ^ 20"
  by (simp_all add: flag_defs)

lemma store_inv:
  assumes inv: "cc_inv k now gap s"
    and "max_outstanding_store v s = Inr s' \<or> queue_size_store v s = Inr s' \<or> time_sa_mad_store v s = Inr s' \<or> drops_store v s = Inr s'"
  shows "cc_inv k now gap s' \<and> cc_all s' = cc_all s"
proof -
  have "\<exists>c. s' = s\<lparr>cc := c\<rparr> \<and> outstanding c = outstanding (cc s) \<and> tf c = tf (cc s) \<and>
      (max_outstanding c = max_outstanding (cc s) \<or> max_outstanding c \<le> SA_CC_MAX_OUTSTANDING_SA_MADS) \<and>
      (queue_size c = queue_size (cc s) \<or> queue_size c \<le> SA_CC_MAX_QUEUE_SIZE)"
    using assms(2)
    by (elim disjE) (auto simp: max_outstanding_store_def queue_size_store_def time_sa_mad_store_def drops_store_def not_less
        split: option.splits if_splits)
  then obtain c where c: "s' = s\<lparr>cc := c\<rparr>" "outstanding c = outstanding (cc s)" "tf c = tf (cc s)"
    "max_outstanding c = max_outstanding (cc s) \<or> unat (max_outstanding c) \<le> 2 ^ 20"
    "queue_size c = queue_size (cc s) \<or> unat (queue_size c) \<le> 2 ^ 20"
    using max_consts by (auto simp: word_le_nat_alt)
  then have "unat (max_outstanding c) \<le> 2 ^ 20" "unat (queue_size c) \<le> 2 ^ 20" using inv by (auto simp: cc_inv_def)
  then show ?thesis using inv c(1-3) by (simp add: cc_inv_def cc_all_def)
qed

lemma reach_inv:
  assumes "sa_cc_reach m2j now s A C"
  shows "cc_inv 0 now (gap_ms m2j) s \<and> mset A = cc_all s + mset C"
  using assms
proof (induction rule: sa_cc_reach.induct)
  case (cc_start c now w r)
  then show ?case
    by (auto simp: sa_cc_init_def tf_create_def cc_inv_def tf_ok_def cc_all_def timely_def flag_defs)
next
  case (cc_fill now s A C x w)
  let ?s = "s\<lparr>wrs := (wrs s)(x := w)\<rparr>"
  have "tf_ok now (gap_ms m2j) (wrs ?s) (tf (cc s)) = tf_ok now (gap_ms m2j) (wrs s) (tf (cc s))"
    if "set (to_head (tf (cc s))) = set (fifo_head (tf (cc s)))"
    using cc_fill(2) that by (intro tf_ok_cong) auto
  then show ?case using cc_fill by (auto simp: cc_inv_def tf_ok_def cc_all_def)
next
  case (cc_post env s A C x ret s')
  then show ?case
    using sa_cc_mad_send_step [of env x s ret s' "gap_ms m2j"] by (auto simp: is_sa_cc_mad_def)
next
  case (cc_complete env s A C x s')
  let ?s = "s\<lparr>send_list := remove1 x (send_list s)\<rparr>"
  have "cc_inv 1 (jiffies env) (gap_ms m2j) ?s"
    using cc_complete.IH cc_complete(4) length_pos_if_in_set [OF cc_complete(4)]
    by (auto simp: cc_inv_def length_remove1 dest: in_set_remove1)
  moreover have "cc_all s = add_mset x (cc_all ?s)" using cc_complete(4) by (simp add: cc_all_def)
  ultimately show ?case using sa_cc_mad_done_step [OF cc_complete(5)] cc_complete.IH cc_complete(2) by simp
next
  case (cc_timer now s A C e)
  then show ?case
    using tf_ok_activate by (auto simp: activate_timeout_handler_task_def cc_inv_def cc_all_def)
next
  case (cc_work env s A C)
  let ?s = "timeout_handler_task env s"
  have ok: "tf_ok (jiffies env) (gap_ms m2j) (wrs s) (tf (cc s))" using cc_work.IH by (simp add: cc_inv_def)
  obtain e where e: "tf_ok (jiffies env) (gap_of env) (wrs ?s) (tf (cc ?s))" "tf_frame s ?s"
    "mset (fifo_head (tf (cc s))) = mset e + mset (fifo_head (tf (cc ?s)))" "map fst (notified ?s) = map fst (notified s) @ e"
    using timeout_handler_step [OF ok cc_work(2) refl] by blast
  have "gap_of env = gap_ms m2j" using cc_work(3) by (simp add: gap_of_def)
  then have "cc_inv 0 (jiffies env) (gap_ms m2j) ?s" using cc_inv_frame [OF _ e(1,2,3)] cc_work.IH by metis
  moreover have "cc_all ?s = cc_all s" using e(2,3,4) by (simp add: cc_all_def tf_frame_def)
  ultimately show ?case using cc_work.IH by simp
next
  case (cc_modify env s A C a x tmo ret s')
  have ok: "tf_ok (jiffies env) (gap_ms m2j) (wrs s) (tf (cc s))" using cc_modify.IH by (simp add: cc_inv_def)
  obtain q where q: "tf_modify_item env a x q s = (ret, s')" using cc_modify(4) by (auto simp: modify_sa_cc_mad_def Let_def)
  note st = tf_modify_item_step [OF ok cc_modify(2) _ q]
  have "cc_inv 0 (jiffies env) (gap_ms m2j) s'"
    using cc_inv_frame [of 0 "jiffies env" "gap_ms m2j" s "jiffies env" "gap_ms m2j" s' "{#}"] cc_modify.IH st by simp
  moreover have "cc_all s' = cc_all s" using st by (simp add: cc_all_def tf_frame_def)
  ultimately show ?case using cc_modify.IH by simp
next
  case (cc_cancel now s A C a)
  let ?s = "cancel_sa_cc_mads a s"
  have ok: "tf_ok now (gap_ms m2j) (wrs s) (tf (cc s))" using cc_cancel.IH by (simp add: cc_inv_def)
  obtain e where e: "tf_ok now (gap_ms m2j) (wrs ?s) (tf (cc ?s))" "tf_frame s ?s"
    "mset (fifo_head (tf (cc s))) = mset e + mset (fifo_head (tf (cc ?s)))"
    "notified ?s = notified s @ map (\<lambda>x. (x, IB_WC_WR_FLUSH_ERR)) e"
    using tf_free_agent_step [OF ok uint_nonnegative refl, of a] unfolding cancel_sa_cc_mads_def by blast
  have "cc_inv 0 now (gap_ms m2j) ?s" using cc_inv_frame [OF _ e(1,2,3)] cc_cancel.IH by metis
  moreover have "cc_all ?s = cc_all s" using e(2,3,4) by (simp add: cc_all_def tf_frame_def comp_def)
  ultimately show ?case using cc_cancel.IH by simp
next
  case (cc_tick now s A C d)
  then show ?case using tf_ok_tick [of now "gap_ms m2j" "wrs s" "tf (cc s)" d] by (auto simp: cc_inv_def)
next
  case (cc_store now s A C v s')
  then show ?case using store_inv [of 0 now "gap_ms m2j" s v s'] by simp
qed


section \<open>Order\<close>

text \<open>Runs of operations of a queue: put a list of items, take a number of items.\<close>

fun enq_all :: "('a \<Rightarrow> 's \<Rightarrow> bool) \<Rightarrow> ('a \<Rightarrow> 's \<Rightarrow> 's option) \<Rightarrow> 'a list \<Rightarrow> 's \<Rightarrow> 's option" where
  "enq_all ready enq [] s = Some s"
| "enq_all ready enq (x # xs) s = (if ready x s then enq x s \<bind> enq_all ready enq xs else None)"

fun deq_n :: "('s \<Rightarrow> ('a \<times> 's) option) \<Rightarrow> nat \<Rightarrow> 's \<Rightarrow> ('a list \<times> 's) option" where
  "deq_n deq 0 s = Some ([], s)"
| "deq_n deq (Suc n) s = do { (x, s) \<leftarrow> deq s; (xs, s) \<leftarrow> deq_n deq n s; Some (x # xs, s) }"

text \<open>
  What the queue promises: the entries that are not canceled form a first-in first-out queue. The
  interface is stated for any queue with an abstraction to a list, and the lemmas about runs of operations
  are proved from it.
\<close>

locale send_queue =
  fixes live :: "'s \<Rightarrow> 'a list" and enq :: "'a \<Rightarrow> 's \<Rightarrow> 's option" and deq :: "'s \<Rightarrow> ('a \<times> 's) option"
    and ready :: "'a \<Rightarrow> 's \<Rightarrow> bool" and ok :: "'s \<Rightarrow> bool"
  assumes enq_live: "ok s \<Longrightarrow> ready x s \<Longrightarrow> enq x s = Some s' \<Longrightarrow> ok s' \<and> live s' = live s @ [x]"
    and deq_live: "ok s \<Longrightarrow> live s = x # l \<Longrightarrow> \<exists>s'. deq s = Some (x, s') \<and> ok s' \<and> live s' = l"
begin

lemma enq_all_live: "ok s \<Longrightarrow> enq_all ready enq xs s = Some s' \<Longrightarrow> ok s' \<and> live s' = live s @ xs"
proof (induction xs arbitrary: s)
  case (Cons x xs)
  obtain s1 where s1: "ready x s" "enq x s = Some s1" "enq_all ready enq xs s1 = Some s'"
    using Cons.prems(2) by (auto split: if_splits bind_splits)
  then show ?case using Cons.IH [of s1] enq_live [OF Cons.prems(1) s1(1,2)] by simp
qed simp

lemma deq_n_live: "ok s \<Longrightarrow> n \<le> length (live s) \<Longrightarrow>
  \<exists>s'. deq_n deq n s = Some (take n (live s), s') \<and> ok s' \<and> live s' = drop n (live s)"
proof (induction n arbitrary: s)
  case (Suc n)
  then obtain x l where xl: "live s = x # l" by (cases "live s") auto
  obtain s1 where s1: "deq s = Some (x, s1)" "ok s1" "live s1 = l" using deq_live [OF Suc.prems(1) xl] by blast
  then show ?case using Suc.IH [of s1] Suc.prems(2) xl by auto
qed simp

lemma first_in_first_out:
  assumes "ok s" "enq_all ready enq xs s = Some s'"
  shows "\<exists>s''. deq_n deq (length (live s) + length xs) s' = Some (live s @ xs, s'') \<and> live s'' = []"
  using enq_all_live [OF assms] deq_n_live [of s' "length (live s) + length xs"] by auto

end

definition live_entries :: "cc_state \<Rightarrow> nat list" where
  "live_entries s = filter (\<lambda>x. \<not> canceled_in (wrs s) x) (fifo_head (tf (cc s)))"

definition may_queue :: "nat \<Rightarrow> cc_state \<Rightarrow> bool" where
  "may_queue x s \<longleftrightarrow> x \<notin> set (fifo_head (tf (cc s))) \<and> \<not> canceled_in (wrs s) x"

text \<open>The operations of the queue at a moment of time, as that interface.\<close>

definition queue_put :: "cc_env \<Rightarrow> nat \<times> u32 \<Rightarrow> cc_state \<Rightarrow> cc_state option" where
  "queue_put env p s = (case tf_enqueue env (fst p) (snd p) s of (ret, s') \<Rightarrow> if ret = 0 then Some s' else None)"

definition queue_get :: "cc_env \<Rightarrow> cc_state \<Rightarrow> (nat \<times> cc_state) option" where
  "queue_get env s = (case tf_dequeue env s of Some (Some (x, _), s') \<Rightarrow> Some (x, s') | _ \<Rightarrow> None)"

definition queue_ok :: "cc_env \<Rightarrow> cc_state \<Rightarrow> bool" where
  "queue_ok env s \<longleftrightarrow> env_ok env \<and> tf_ok (jiffies env) (gap_of env) (wrs s) (tf (cc s)) \<and>
     unat (queue_size (cc s)) \<le> 2 ^ 20 \<and> length (fifo_head (tf (cc s))) \<le> 2 ^ 20"

lemma filter_remove1_first:
  "find P l = Some x \<Longrightarrow> filter P l = x # filter P (remove1 x l)"
  by (induction l) (auto split: if_splits dest: find_in)

lemma find_filter: "find P l = (case filter P l of [] \<Rightarrow> None | x # _ \<Rightarrow> Some x)"
  by (induction l) auto

lemma queue_put_live:
  assumes "queue_ok env s" "x \<notin> set (fifo_head (tf (cc s)))" "\<not> canceled_in (wrs s) x" "queue_put env (x, tmo) s = Some s'"
  shows "queue_ok env s' \<and> live_entries s' = live_entries s @ [x]"
proof -
  have ok: "tf_ok (jiffies env) (gap_of env) (wrs s) (tf (cc s))" "env_ok env" "length (fifo_head (tf (cc s))) \<le> 2 ^ 20"
    using assms(1) by (simp_all add: queue_ok_def)
  have "tf_enqueue env x tmo s = (0, s')" using assms(4) by (auto simp: queue_put_def split: prod.splits if_splits)
  note st = tf_enqueue_step [OF ok(1,2) assms(2) ok(3) this]
  then have q: "cc s' = (cc s)\<lparr>tf := tf (cc s')\<rparr>" "fifo_head (tf (cc s')) = fifo_head (tf (cc s)) @ [x]"
    "length (fifo_head (tf (cc s))) < unat (queue_size (cc s))"
    by (auto simp: ret_EBUSY_def)
  have "queue_size (cc s') = queue_size (cc s)" by (subst q(1)) simp
  then show ?thesis using st q(2,3) assms(1,3) by (auto simp: queue_ok_def live_entries_def)
qed

lemma queue_get_live:
  assumes "queue_ok env s" "live_entries s = x # l"
  shows "\<exists>s'. queue_get env s = Some (x, s') \<and> queue_ok env s' \<and> live_entries s' = l"
proof -
  let ?P = "\<lambda>x. \<not> canceled_in (wrs s) x"
  have ok: "tf_ok (jiffies env) (gap_of env) (wrs s) (tf (cc s))" using assms(1) by (simp add: queue_ok_def)
  have f: "find ?P (fifo_head (tf (cc s))) = Some x" using assms(2) by (simp add: live_entries_def find_filter)
  moreover have "fifo_head (tf (cc s)) \<noteq> []" using assms(2) by (auto simp: live_entries_def)
  ultimately obtain t s' where de: "tf_dequeue env s = Some (Some (x, t), s')" by (auto simp: tf_dequeue_def Let_def)
  note st = tf_dequeue_step [OF ok de]
  have r: "queue_size (cc s') = queue_size (cc s)" "fifo_head (tf (cc s')) = remove1 x (fifo_head (tf (cc s)))" "wrs s' = wrs s"
    using st by (simp_all add: tf_frame_def)
  note r(1)
  moreover have "tf_ok (jiffies env) (gap_of env) (wrs s) (tf (cc s'))" using st by blast
  moreover have "length (remove1 x (fifo_head (tf (cc s)))) \<le> length (fifo_head (tf (cc s)))" by (simp add: length_remove1)
  ultimately have "queue_ok env s'" using assms(1) r(2,3) by (simp add: queue_ok_def)
  moreover have "live_entries s' = l" using filter_remove1_first [OF f] assms(2) by (simp add: live_entries_def r)
  ultimately show ?thesis using de by (simp add: queue_get_def)
qed

interpretation scq: send_queue live_entries "\<lambda>x. queue_put env (x, tmo)" "queue_get env"
  may_queue "queue_ok env" for env tmo
  by unfold_locales (use queue_put_live queue_get_live in \<open>auto simp: may_queue_def\<close>)

section \<open>Progress\<close>

lemma sa_cc_mad_done_total:
  assumes "cc_inv 1 (jiffies env) gap s" "env_ok env" "stray env \<or> live_entries s = fifo_head (tf (cc s))"
  shows "\<exists>s'. sa_cc_mad_done env s = Some s'"
  using assms
proof (induction "length (fifo_head (tf (cc s)))" arbitrary: s rule: less_induct)
  case (less s)
  have ok: "tf_ok (jiffies env) gap (wrs s) (tf (cc s))" using less(2) by (simp add: cc_inv_def)
  have live: "stray env \<or> (\<forall>x \<in> set (fifo_head (tf (cc s))). \<not> canceled_in (wrs s) x)"
    using less(4) by (auto simp: live_entries_def filter_id_conv)
  have "tf_dequeue env s \<noteq> None"
    using live by (auto simp: tf_dequeue_def Let_def find_None_iff split: option.splits)
  then obtain r s1 where r: "tf_dequeue env s = Some (r, s1)" by auto
  show ?case
  proof (cases r)
    case None
    then show ?thesis using r by (simp add: sa_cc_mad_done.simps)
  next
    case (Some q)
    obtain x t where q: "q = (x, t)" by fastforce
    have de: "tf_dequeue env s = Some (Some (x, t), s1)" using r Some q by simp
    note dq = dequeue_inv [OF less(2) de]
    have nz: "timeout_ms (wrs s1 x) \<noteq> 0" and x1: "x \<notin> set (send_list s1)" and inv1: "cc_inv 1 (jiffies env) gap s1"
      and w1: "wrs s1 = wrs s" and sub: "set (fifo_head (tf (cc s1))) \<subseteq> set (fifo_head (tf (cc s)))"
      using dq by blast+
    let ?t = "timeout_ms (wrs s1 x)" and ?l = "t + ucast (time_sa_mad (cc s1))"
    obtain tmo rt where tr: "(if ?l > ?t then (?t, ?l div ?t - 1) else (?l, 0)) = (tmo, rt)" by fastforce
    obtain ret s2 where se: "send_sa_cc_mad env x tmo rt s1 = (ret, s2)" by fastforce
    note ss = send_sa_cc_mad_step [OF se less(3) x1]
    let ?n = "if ret = ret_ENOMEM then notify_failure x IB_WC_GENERAL_ERR s2 else notify_failure x IB_WC_LOC_QP_OP_ERR s2"
    have eq: "sa_cc_mad_done env s = (if ret = 0 then Some s2 else sa_cc_mad_done env ?n)"
      using de nz tr se by (subst sa_cc_mad_done.simps) (simp add: Let_def)
    have "\<exists>s'. sa_cc_mad_done env ?n = Some s'" if "ret \<noteq> 0"
    proof (rule less(1))
      show "length (fifo_head (tf (cc ?n))) < length (fifo_head (tf (cc s)))"
        using tf_dequeue_shorter [OF de] ss by simp
      show "cc_inv 1 (jiffies env) gap ?n"
        by (rule cc_inv_cong_wrs [OF inv1]) (use ss \<open>ret \<noteq> 0\<close> in \<open>simp_all add: notify_failure_def\<close>)
      show "stray env \<or> live_entries ?n = fifo_head (tf (cc ?n))"
        using live sub ss w1 by (auto simp: live_entries_def filter_id_conv notify_failure_def)
    qed (rule less(3))
    then show ?thesis using eq by simp
  qed
qed

lemma destroy_loop_step:
  assumes "tf_ok (jiffies env) gap (wrs s) (tf (cc s))" "live_entries s = fifo_head (tf (cc s))"
  shows "\<exists>s'. destroy_loop env s = Some s' \<and> tf_ok (jiffies env) gap (wrs s') (tf (cc s')) \<and> fifo_head (tf (cc s')) = [] \<and>
    notified s' = notified s @ map (\<lambda>x. (x, IB_WC_WR_FLUSH_ERR)) (fifo_head (tf (cc s)))"
  using assms
proof (induction "fifo_head (tf (cc s))" arbitrary: s)
  case Nil
  have "destroy_loop env s = Some s" using Nil(1) [symmetric] by (simp add: destroy_loop.simps tf_dequeue_def)
  then show ?case using Nil by simp
next
  case (Cons x l)
  have all: "\<forall>y \<in> set (fifo_head (tf (cc s))). \<not> canceled_in (wrs s) y"
    using Cons(4) by (simp add: live_entries_def filter_id_conv)
  have f: "find (\<lambda>x. \<not> canceled_in (wrs s) x) (fifo_head (tf (cc s))) = Some x"
    using all Cons(2) [symmetric] by simp
  then obtain t s1 where de: "tf_dequeue env s = Some (Some (x, t), s1)"
    using Cons(2) [symmetric] by (auto simp: tf_dequeue_def Let_def)
  note st = tf_dequeue_step [OF Cons(3) de]
  let ?s = "notify_failure x IB_WC_WR_FLUSH_ERR s1"
  have s1: "fifo_head (tf (cc s1)) = l" "wrs s1 = wrs s" "notified s1 = notified s" using st Cons(2) [symmetric] by simp_all
  have "\<exists>s'. destroy_loop env ?s = Some s' \<and> tf_ok (jiffies env) gap (wrs s') (tf (cc s')) \<and> fifo_head (tf (cc s')) = [] \<and>
    notified s' = notified ?s @ map (\<lambda>x. (x, IB_WC_WR_FLUSH_ERR)) (fifo_head (tf (cc ?s)))"
  proof (rule Cons(1))
    show "live_entries ?s = fifo_head (tf (cc ?s))"
      using all Cons(2) [symmetric] by (simp add: live_entries_def filter_id_conv notify_failure_def s1)
  qed (use st s1 in \<open>simp_all add: notify_failure_def\<close>)
  then show ?case using de s1 Cons(2) [symmetric] by (subst destroy_loop.simps) (simp add: notify_failure_def)
qed


section \<open>An example run\<close>

definition ex_cc_env :: "u64 \<Rightarrow> cc_env" where
  "ex_cc_env t = \<lparr>jiffies = t, msecs_to_jiffies = ucast, jiffies_to_msecs = ucast, send_list_closed = (\<lambda>_. False),
     ib_send_mad_ret = (\<lambda>_. 0), stray = False\<rparr>"

definition ex_wr :: sa_wr where
  "ex_wr = \<lparr>tf_list = \<lparr>exp_time = 0, canceled = False\<rparr>, wr_agent = 1, wr_mgmt_class = 3, wr_method = 1, timeout_ms = 100,
     retries_left = 2, wr_timeout = 0, wr_refcount = 0, is_sa_cc = True\<rparr>"

definition ex_cc0 :: cc_state where
  "ex_cc0 = \<lparr>cc = the (sa_cc_init True True True), wrs = (\<lambda>_. ex_wr), send_list = [], agent_ref = (\<lambda>_. 0), notified = []\<rparr>"

text \<open>A window of one datagram: the first datagram is sent, the second one waits.\<close>

definition ex_cc1 :: cc_state where
  "ex_cc1 = (case max_outstanding_store (Some 1) ex_cc0 of Inr s \<Rightarrow> s)"

definition ex_cc2 :: cc_state where
  "ex_cc2 = snd (the (sa_cc_mad_send (ex_cc_env 1000) 1 ex_cc1))"

definition ex_cc3 :: cc_state where
  "ex_cc3 = snd (the (sa_cc_mad_send (ex_cc_env 1000) 2 ex_cc2))"

text \<open>The client cancels the datagram that waits.\<close>

definition ex_cc4 :: cc_state where
  "ex_cc4 = snd (modify_sa_cc_mad (ex_cc_env 1000) 1 2 0 ex_cc3)"

lemma ex_env_ok: "env_ok (ex_cc_env t)"
proof -
  have "uint (ucast (n :: u32) :: u64) < 2 ^ 62" for n
  proof -
    have "uint n < 2 ^ 32" using uint_lt2p [of n] by simp
    moreover have "uint (ucast n :: u64) = uint n"
      using \<open>uint n < 2 ^ 32\<close> by (simp add: unsigned_ucast_eq take_bit_int_eq_self)
    ultimately show ?thesis by simp
  qed
  then show ?thesis by (simp add: env_ok_def ex_cc_env_def)
qed

lemma ex_cc_reach3: "sa_cc_reach ucast 1000 ex_cc3 [1, 2] []"
proof -
  let ?e = "ex_cc_env 1000"
  have j: "jiffies ?e = 1000" "msecs_to_jiffies ?e = ucast" by (simp_all add: ex_cc_env_def)
  have "sa_cc_init True True True = Some (the (sa_cc_init True True True))" by code_simp
  then have r0: "sa_cc_reach ucast (jiffies ?e) ex_cc0 [] []" unfolding ex_cc0_def by (rule cc_start)
  have "max_outstanding_store (Some 1) ex_cc0 = Inr ex_cc1" unfolding ex_cc1_def by (simp add: max_outstanding_store_def flag_defs)
  then have r1: "sa_cc_reach ucast (jiffies ?e) ex_cc1 [] []" using cc_store [OF r0] by blast
  have w: "is_sa_cc_mad (wrs ex_cc1 1)" "is_sa_cc_mad (wrs ex_cc2 2)" "(1::nat) \<notin> set (fifo_head (tf (cc ex_cc1)))"
    "(1::nat) \<notin> set (send_list ex_cc1)" "(2::nat) \<notin> set (fifo_head (tf (cc ex_cc2)))" "(2::nat) \<notin> set (send_list ex_cc2)"
    by code_simp+
  have "fst (the (sa_cc_mad_send ?e 1 ex_cc1)) = 0" "sa_cc_mad_send ?e 1 ex_cc1 \<noteq> None" by code_simp+
  then have "sa_cc_mad_send ?e 1 ex_cc1 = Some (0, ex_cc2)" by (auto simp: ex_cc2_def)
  then have r2: "sa_cc_reach ucast (jiffies ?e) ex_cc2 [1] []"
    using cc_post [OF r1 ex_env_ok j(2) w(1,3,4)] by fastforce
  have "fst (the (sa_cc_mad_send ?e 2 ex_cc2)) = 0" "sa_cc_mad_send ?e 2 ex_cc2 \<noteq> None" by code_simp+
  then have "sa_cc_mad_send ?e 2 ex_cc2 = Some (0, ex_cc3)" by (auto simp: ex_cc3_def)
  then show ?thesis using cc_post [OF r2 ex_env_ok j(2) w(2,5,6)] by (fastforce simp: j)
qed

lemma ex_cc_reach4: "sa_cc_reach ucast 1000 ex_cc4 [1, 2] []"
proof -
  have j: "jiffies (ex_cc_env 1000) = 1000" "msecs_to_jiffies (ex_cc_env 1000) = ucast" by (simp_all add: ex_cc_env_def)
  have "modify_sa_cc_mad (ex_cc_env 1000) 1 2 0 ex_cc3 = (fst (modify_sa_cc_mad (ex_cc_env 1000) 1 2 0 ex_cc3), ex_cc4)"
    by (simp add: ex_cc4_def)
  then show ?thesis
    using cc_modify [of ucast "ex_cc_env 1000" ex_cc3] ex_cc_reach3 ex_env_ok j by metis
qed

lemma ex_cc_facts: "fifo_head (tf (cc ex_cc3)) = [2]" "send_list ex_cc3 = [1]" "exp_of (wrs ex_cc3) 2 = 1280"
  "unat (outstanding (cc ex_cc3)) = 1" "notified ex_cc3 = []" "live_entries ex_cc3 = [2]"
  by code_simp+


section \<open>Properties\<close>

text \<open>
  C5: Every datagram the congestion control accepted is at each moment in exactly one place: it
  waits in the queue, it is in flight, it was reported to its client as failed, or it was completed. The
  counter of outstanding datagrams equals the number in flight and never exceeds the largest window
  that can be configured. This holds for every history of posts, completions, cancellations, timer
  and work-item activations, configuration changes and failing sends.
\<close>

theorem sa_cc_accounting:
  assumes "sa_cc_reach m2j now s A C"
  shows "mset A = mset (fifo_head (tf (cc s))) + mset (send_list s) + mset (map fst (notified s)) + mset C \<and>
    unat (outstanding (cc s)) = length (send_list s) \<and> outstanding (cc s) \<le> SA_CC_MAX_OUTSTANDING_SA_MADS \<and>
    unat (num_items (tf (cc s))) = length (fifo_head (tf (cc s))) \<and>
    distinct (fifo_head (tf (cc s)) @ send_list s) \<and> mset (to_head (tf (cc s))) = mset (fifo_head (tf (cc s)))"
proof -
  have inv: "cc_inv 0 now (gap_ms m2j) s" and all: "mset A = cc_all s + mset C" using reach_inv [OF assms] by auto
  have "distinct (to_head (tf (cc s)))" "distinct (fifo_head (tf (cc s)))" "set (to_head (tf (cc s))) = set (fifo_head (tf (cc s)))"
    using inv by (simp_all add: cc_inv_def tf_ok_def)
  then have "mset (to_head (tf (cc s))) = mset (fifo_head (tf (cc s)))" by (metis set_eq_iff_mset_eq_distinct)
  then show ?thesis
    using inv all max_consts(1) by (auto simp: cc_inv_def tf_ok_def cc_all_def word_le_nat_alt)
qed

theorem sa_cc_accounting_witness:
  "mset [1, 2] = mset (fifo_head (tf (cc ex_cc3))) + mset (send_list ex_cc3) + mset (map fst (notified ex_cc3)) + mset [] \<and>
   fifo_head (tf (cc ex_cc3)) = [2] \<and> send_list ex_cc3 = [1] \<and> unat (outstanding (cc ex_cc3)) = length (send_list ex_cc3)"
  using sa_cc_accounting [OF ex_cc_reach3] ex_cc_facts(1,2) by simp

text \<open>
  C27: No datagram is forgotten in the queue. Whenever an entry waits, the work item that handles
  expired entries is queued, or the timer is armed, and the timer fires no later than the entry's
  expiration or the minimal time between two activations from now, whichever is later.
\<close>

theorem sa_cc_timer_pending:
  assumes "sa_cc_reach m2j now s A C" and "x \<in> set (fifo_head (tf (cc s)))"
  shows "work_queued (tf (cc s)) \<or>
    (\<exists>e. tf_timer (tf (cc s)) = Some e \<and>
       rel_time now e \<le> max (rel_time now (exp_of (wrs s) x)) (uint (m2j MIN_BETWEEN_ACTIVATIONS_MS)))"
proof -
  let ?f = "tf (cc s)"
  have ok: "tf_ok now (gap_ms m2j) (wrs s) ?f" using reach_inv [OF assms(1)] by (simp add: cc_inv_def)
  then obtain y l where yl: "to_head ?f = y # l" using assms(2) by (cases "to_head ?f") (auto simp: tf_ok_def)
  have "x = y \<or> rel_time now (exp_of (wrs s) y) \<le> 0 \<or> rel_time now (exp_of (wrs s) y) \<le> rel_time now (exp_of (wrs s) x)"
    using ok yl assms(2) by (auto simp: tf_ok_def timely_Cons)
  moreover have "timer_ok now (gap_ms m2j) (wrs s) ?f" using ok yl by (simp add: tf_ok_def)
  moreover have g: "0 \<le> gap_ms m2j" by simp
  ultimately show ?thesis
    unfolding timer_ok_def yl list.sel by (elim disjE exE conjE) (auto simp: le_max_iff_disj intro: order_trans [OF _ g] order_trans)
qed

theorem sa_cc_timer_pending_witness:
  "work_queued (tf (cc ex_cc3)) \<or>
    (\<exists>e. tf_timer (tf (cc ex_cc3)) = Some e \<and> rel_time 1000 e \<le> max 280 5)"
proof -
  have "rel_time 1000 (exp_of (wrs ex_cc3) 2) = 280" "uint (ucast MIN_BETWEEN_ACTIVATIONS_MS :: u64) = 5" by code_simp+
  then show ?thesis using sa_cc_timer_pending [OF ex_cc_reach3, of 2] ex_cc_facts(1) by simp
qed

text \<open>
  The work item reports exactly the entries whose time has come. Entries it removes were
  due, each is reported once, and every entry that stays has time left; entries in flight are not touched.
\<close>

theorem sa_cc_expiry:
  assumes "sa_cc_reach m2j (jiffies env) s A C" and "env_ok env" and "msecs_to_jiffies env = m2j"
  shows "\<exists>e. mset (fifo_head (tf (cc s))) = mset e + mset (fifo_head (tf (cc (timeout_handler_task env s)))) \<and>
    map fst (notified (timeout_handler_task env s)) = map fst (notified s) @ e \<and>
    list_all (\<lambda>x. rel_time (jiffies env) (exp_of (wrs s) x) \<le> 0) e \<and>
    list_all (\<lambda>x. 0 < rel_time (jiffies env) (exp_of (wrs (timeout_handler_task env s)) x))
      (fifo_head (tf (cc (timeout_handler_task env s)))) \<and>
    send_list (timeout_handler_task env s) = send_list s"
proof -
  have ok: "tf_ok (jiffies env) (gap_ms m2j) (wrs s) (tf (cc s))" using reach_inv [OF assms(1)] by (simp add: cc_inv_def)
  show ?thesis
    using timeout_handler_step [OF ok assms(2) refl] by (auto simp: list_all_iff tf_frame_def)
qed

theorem sa_cc_expiry_witness:
  "\<exists>e. mset [2] = mset e + mset (fifo_head (tf (cc (timeout_handler_task (ex_cc_env 1000) ex_cc4)))) \<and>
     map fst (notified (timeout_handler_task (ex_cc_env 1000) ex_cc4)) = e"
proof -
  have "msecs_to_jiffies (ex_cc_env 1000) = ucast" "jiffies (ex_cc_env 1000) = 1000" by (simp_all add: ex_cc_env_def)
  moreover have "fifo_head (tf (cc ex_cc4)) = [2]" "notified ex_cc4 = []" by code_simp+
  ultimately show ?thesis
    using sa_cc_expiry [of ucast "ex_cc_env 1000" ex_cc4 "[1, 2]" "[]"] ex_cc_reach4 ex_env_ok by force
qed

text \<open>
  C26: The queue implements a first-in first-out queue of the entries that are not canceled: after
  any sequence of accepted insertions, dequeuing returns first the entries that waited before and then
  the new ones in the order of their insertion, whatever their expiration times are.
\<close>

theorem sa_cc_queue_order:
  assumes "queue_ok env s" and "enq_all may_queue (\<lambda>x. queue_put env (x, tmo)) xs s = Some s'"
  shows "\<exists>s''. deq_n (queue_get env) (length (live_entries s) + length xs) s' = Some (live_entries s @ xs, s'') \<and>
    live_entries s'' = []"
  using assms by (rule scq.first_in_first_out)

theorem sa_cc_queue_order_witness:
  "\<exists>s''. deq_n (queue_get (ex_cc_env 1000)) 3 (the (enq_all may_queue (\<lambda>x. queue_put (ex_cc_env 1000) (x, 50)) [7, 5] ex_cc3)) =
     Some ([2, 7, 5], s'')"
proof -
  have e: "jiffies (ex_cc_env 1000) = 1000" "gap_of (ex_cc_env 1000) = gap_ms ucast" by (simp_all add: ex_cc_env_def gap_of_def)
  have "queue_ok (ex_cc_env 1000) ex_cc3"
    using reach_inv [OF ex_cc_reach3] ex_env_ok [of 1000] unfolding queue_ok_def e by (simp add: cc_inv_def)
  moreover have "enq_all may_queue (\<lambda>x. queue_put (ex_cc_env 1000) (x, 50)) [7, 5] ex_cc3 \<noteq> None" by code_simp
  then obtain s' where s': "enq_all may_queue (\<lambda>x. queue_put (ex_cc_env 1000) (x, 50)) [7, 5] ex_cc3 = Some s'" by blast
  moreover have "length (live_entries ex_cc3) + length [7, 5 :: nat] = 3" "live_entries ex_cc3 @ [7, 5] = [2, 7, 5]"
    using ex_cc_facts(6) by simp_all
  ultimately show ?thesis
    using sa_cc_queue_order [of "ex_cc_env 1000" ex_cc3 50 "[7, 5]" s'] unfolding s' option.sel by metis
qed

text \<open>
  The completion of a datagram returns in every reachable state in which no waiting entry is
  canceled, whichever sends fail: the loop that looks for the next datagram ends with one in flight or with
  an empty queue and a free slot in the window.
\<close>

theorem sa_cc_done_returns:
  assumes "sa_cc_reach m2j (jiffies env) s A C" and "env_ok env" and "msecs_to_jiffies env = m2j"
    and "x \<in> set (send_list s)" and "live_entries s = fifo_head (tf (cc s))"
  shows "\<exists>s'. sa_cc_mad_done env (s\<lparr>send_list := remove1 x (send_list s)\<rparr>) = Some s' \<and>
    unat (outstanding (cc s')) = length (send_list s')"
proof -
  let ?s = "s\<lparr>send_list := remove1 x (send_list s)\<rparr>"
  have "cc_inv 1 (jiffies env) (gap_ms m2j) ?s"
    using reach_inv [OF assms(1)] length_pos_if_in_set [OF assms(4)] assms(4)
    by (auto simp: cc_inv_def length_remove1 dest: in_set_remove1)
  moreover have "live_entries ?s = fifo_head (tf (cc ?s))" using assms(5) by (simp add: live_entries_def)
  ultimately show ?thesis
    using sa_cc_mad_done_total [of env "gap_ms m2j" ?s] sa_cc_mad_done_step [of env ?s _ "gap_ms m2j"] assms(2)
    by (fastforce simp: cc_inv_def)
qed

theorem sa_cc_done_returns_witness:
  "\<exists>s'. sa_cc_mad_done (ex_cc_env 1000) (ex_cc3\<lparr>send_list := []\<rparr>) = Some s' \<and> unat (outstanding (cc s')) = length (send_list s')"
proof -
  have "msecs_to_jiffies (ex_cc_env 1000) = ucast" "jiffies (ex_cc_env 1000) = 1000" by (simp_all add: ex_cc_env_def)
  then show ?thesis
    using sa_cc_done_returns [of ucast "ex_cc_env 1000" ex_cc3 "[1, 2]" "[]" 1] ex_cc_reach3 ex_env_ok ex_cc_facts by simp
qed

text \<open>
  C34: When all waiting entries are canceled, \<open>tf_dequeue\<close> runs past the end of the list and tests a
  flag in memory that belongs to no entry. There is a reachable state with one datagram in flight and
  one canceled one in the queue in which the completion of the former has undefined behaviour when that
  memory happens to be zero.
\<close>

theorem sa_cc_dequeue_past_end:
  "\<exists>m2j env s A C x. sa_cc_reach m2j (jiffies env) s A C \<and> env_ok env \<and> msecs_to_jiffies env = m2j \<and> x \<in> set (send_list s) \<and>
     fifo_head (tf (cc s)) \<noteq> [] \<and> live_entries s = [] \<and>
     sa_cc_mad_done env (s\<lparr>send_list := remove1 x (send_list s)\<rparr>) = None"
proof -
  have "jiffies (ex_cc_env 1000) = 1000" "msecs_to_jiffies (ex_cc_env 1000) = ucast" by (simp_all add: ex_cc_env_def)
  moreover have "1 \<in> set (send_list ex_cc4)" "fifo_head (tf (cc ex_cc4)) \<noteq> []" "live_entries ex_cc4 = []"
    "sa_cc_mad_done (ex_cc_env 1000) (ex_cc4\<lparr>send_list := remove1 1 (send_list ex_cc4)\<rparr>) = None"
    by code_simp+
  ultimately show ?thesis using ex_cc_reach4 ex_env_ok by metis
qed

text \<open>
  Posting a datagram while the window is full never sends it. It is put at the end of the
  queue if the queue has room and accepts entries, with the time it may wait as its expiration; otherwise it is
  refused with \<open>-EBUSY\<close> and counted as dropped.
\<close>

theorem sa_cc_window_full:
  assumes "sa_cc_reach m2j (jiffies env) s A C" and "env_ok env" and "x \<notin> set (fifo_head (tf (cc s)))"
    and "max_outstanding (cc s) \<le> outstanding (cc s)"
  shows "\<exists>ret s'. sa_cc_mad_send env x s = Some (ret, s') \<and> send_list s' = send_list s \<and> outstanding (cc s') = outstanding (cc s) \<and>
    (if length (fifo_head (tf (cc s))) < unat (queue_size (cc s)) \<and> \<not> stop_enqueue (tf (cc s))
     then ret = 0 \<and> fifo_head (tf (cc s')) = fifo_head (tf (cc s)) @ [x]
     else ret = - 16 \<and> fifo_head (tf (cc s')) = fifo_head (tf (cc s)) \<and> drops (cc s') = drops (cc s) + 1)"
proof -
  have ok: "tf_ok (jiffies env) (gap_ms m2j) (wrs s) (tf (cc s))" "length (fifo_head (tf (cc s))) \<le> 2 ^ 20"
    using reach_inv [OF assms(1)] by (simp_all add: cc_inv_def)
  obtain q ret s' where en: "sa_cc_mad_send env x s = Some (ret, s')" "tf_enqueue env x q s = (ret, s')"
  proof -
    have "\<not> outstanding (cc s) < max_outstanding (cc s)" using assms(4) by (simp add: not_less)
    then have "\<exists>q. sa_cc_mad_send env x s = Some (tf_enqueue env x q s)" unfolding sa_cc_mad_send_def Let_def by auto
    then show thesis using that by (metis surj_pair)
  qed
  note st = tf_enqueue_step [OF ok(1) assms(2,3) ok(2) en(2)]
  then consider (queued) "ret = 0" "cc s' = (cc s)\<lparr>tf := tf (cc s')\<rparr>" "fifo_head (tf (cc s')) = fifo_head (tf (cc s)) @ [x]"
      "length (fifo_head (tf (cc s))) < unat (queue_size (cc s))" "\<not> stop_enqueue (tf (cc s))"
    | (full) "ret = ret_EBUSY" "cc s' = (cc s)\<lparr>drops := drops (cc s) + 1\<rparr>"
      "\<not> (length (fifo_head (tf (cc s))) < unat (queue_size (cc s)) \<and> \<not> stop_enqueue (tf (cc s)))"
    by (auto simp: not_less)
  then show ?thesis
  proof cases
    case queued
    have "outstanding (cc s') = outstanding (cc s)" by (subst queued(2)) simp
    then show ?thesis using en(1) st queued(1,3-5) by (intro exI [of _ ret] exI [of _ s']) simp
  next
    case full
    then have "outstanding (cc s') = outstanding (cc s)" "drops (cc s') = drops (cc s) + 1" "tf (cc s') = tf (cc s)" by simp_all
    then show ?thesis using en(1) st full(1,3) by (auto simp: ret_EBUSY_def)
  qed
qed

theorem sa_cc_window_full_witness:
  "\<exists>s'. sa_cc_mad_send (ex_cc_env 1000) 9 ex_cc3 = Some (0, s') \<and> fifo_head (tf (cc s')) = [2, 9]"
proof -
  have "jiffies (ex_cc_env 1000) = 1000" by (simp add: ex_cc_env_def)
  moreover have "max_outstanding (cc ex_cc3) \<le> outstanding (cc ex_cc3)" "queue_size (cc ex_cc3) = 65536" "\<not> stop_enqueue (tf (cc ex_cc3))"
    by code_simp+
  moreover have "length (fifo_head (tf (cc ex_cc3))) < unat (queue_size (cc ex_cc3))"
    using ex_cc_facts(1) by (simp add: \<open>queue_size (cc ex_cc3) = 65536\<close>)
  ultimately show ?thesis
    using sa_cc_window_full [of ucast "ex_cc_env 1000" ex_cc3 "[1, 2]" "[]" 9] ex_cc_reach3 ex_env_ok ex_cc_facts(1) by auto
qed

text \<open>
  Destroying the queue reports every waiting datagram as flushed, in the order of arrival, and
  leaves neither an entry nor an armed timer behind, so that nothing touches the freed object later; it
  does so in every reachable state in which no waiting entry is canceled.
\<close>

theorem sa_cc_destroy_flushes:
  assumes "sa_cc_reach m2j (jiffies env) s A C" and "env_ok env" and "live_entries s = fifo_head (tf (cc s))"
  shows "\<exists>s'. sa_cc_destroy env s = Some s' \<and> fifo_head (tf (cc s')) = [] \<and> to_head (tf (cc s')) = [] \<and>
    tf_timer (tf (cc s')) = None \<and> \<not> work_queued (tf (cc s')) \<and>
    map fst (notified s') = map fst (notified s) @ fifo_head (tf (cc s))"
proof -
  let ?s = "tf_stop_enqueue s"
  have ok: "tf_ok (jiffies env) (gap_ms m2j) (wrs ?s) (tf (cc ?s))"
    using reach_inv [OF assms(1)] by (simp add: cc_inv_def tf_stop_enqueue_def tf_ok_def timer_ok_def)
  have "live_entries ?s = fifo_head (tf (cc ?s))" using assms(3) by (simp add: live_entries_def tf_stop_enqueue_def)
  then obtain s1 where s1: "destroy_loop env ?s = Some s1" "tf_ok (jiffies env) (gap_ms m2j) (wrs s1) (tf (cc s1))"
    "fifo_head (tf (cc s1)) = []" "notified s1 = notified s @ map (\<lambda>x. (x, IB_WC_WR_FLUSH_ERR)) (fifo_head (tf (cc s)))"
    using destroy_loop_step [OF ok] by (auto simp: tf_stop_enqueue_def)
  have th: "to_head (tf (cc s1)) = []" using s1(2,3) by (simp add: tf_ok_def)
  have "to_head (tf (cc (tf_free env s1))) = [] \<and> fifo_head (tf (cc (tf_free env s1))) = [] \<and>
      tf_timer (tf (cc (tf_free env s1))) = None \<and> \<not> work_queued (tf (cc (tf_free env s1))) \<and>
      notified (tf_free env s1) = notified s1"
    using th s1(3) by (simp add: tf_free_def timeout_handler_task_def timeout_loop.simps Let_def)
  then show ?thesis using s1(1,4) by (simp add: sa_cc_destroy_def comp_def)
qed

theorem sa_cc_destroy_flushes_witness:
  "\<exists>s'. sa_cc_destroy (ex_cc_env 1000) ex_cc3 = Some s' \<and> tf_timer (tf (cc s')) = None \<and> map fst (notified s') = [2]"
proof -
  have "jiffies (ex_cc_env 1000) = 1000" by (simp add: ex_cc_env_def)
  then show ?thesis
    using sa_cc_destroy_flushes [of ucast "ex_cc_env 1000" ex_cc3 "[1, 2]" "[]"] ex_cc_reach3 ex_env_ok ex_cc_facts by auto
qed

end
