(* ===== verification/Rmpp_Send.thy ===== *)
theory Rmpp_Send
  imports Rmpp_Recv Sa_Cc
begin

unbundle bit_operations_syntax

text \<open>
  The send side of the reliable multi-packet protocol, \<open>core/mad_rmpp.c\<close>, with the parts of
  \<open>core/mad.c\<close> it rests on: the segments of a message, the search of a send for a received
  datagram, the list of sends that wait for a response, completion, retry and timeout. A send is
  named by a number; the agent keeps it in one of three lists. What goes to the wire, the
  completions reported to the client and the datagrams handed to its receive handler are logged. The answers of \<open>ib_send_mad\<close>, of the address-handle
  query and of the comparison of addresses (\<open>rcv_has_same_gid\<close>) come from an environment.
\<close>

section \<open>Segments of a message\<close>

definition get_pad_size :: "int \<Rightarrow> int \<Rightarrow> int \<Rightarrow> int" where
  "get_pad_size hdr_len data_len mad_size =
     (let seg_size = mad_size - hdr_len
      in if data_len \<noteq> 0 \<and> seg_size \<noteq> 0
         then let pad = seg_size - data_len mod seg_size in if pad = seg_size then 0 else pad
         else seg_size)"

record mad_send_wr =
  s_mad :: ib_rmpp_mad
  s_ah :: nat
  s_own_ah :: bool
  s_segs :: "u8 list list"
  s_hdr_len :: int
  s_data_len :: int
  s_seg_count :: int
  s_seg_size :: int
  s_seg_rmpp_size :: int
  s_timeout_ms :: u32
  s_retries :: int
  s_tid :: u64
  s_timeout :: u64
  s_max_retries :: int
  s_retries_left :: int
  s_refcount :: int
  s_status :: ib_wc_status
  s_last_ack_seg :: int
  s_cur_seg :: int
  s_last_ack :: int
  s_seg_num :: int
  s_newwin :: int
  s_pad :: int
  s_is_smp_mad :: bool
  s_is_sa_cc_mad :: bool

text \<open>
  \<open>alloc_send_rmpp_list\<close>: the loop allocates a segment while data is left; \<open>oks\<close> are the answers of the
  allocator. \<open>None\<close> is the failure, with all segments freed. The padding at the end of the last segment is
  zeroed; the rest of a new segment is what the allocator returned (\<open>junk\<close>).
\<close>

function alloc_segs :: "int \<Rightarrow> int \<Rightarrow> bool list \<Rightarrow> nat \<Rightarrow> nat option" where
  "alloc_segs left seg_size oks n =
     (if left \<le> 0 \<or> seg_size \<le> 0 then Some n
      else case oks of [] \<Rightarrow> None | ok # oks \<Rightarrow> if ok then alloc_segs (left - seg_size) seg_size oks (n + 1) else None)"
  by pat_completeness auto
termination by (relation "measure (\<lambda>(left, _, _, _). nat left)") auto

declare alloc_segs.simps [simp del]

definition alloc_send_rmpp_list :: "u8 \<Rightarrow> int \<Rightarrow> bool list \<Rightarrow> u8 list \<Rightarrow> mad_send_wr \<Rightarrow> mad_send_wr option" where
  "alloc_send_rmpp_list version mad_size oks junk wr =
     (let seg_size = mad_size - s_hdr_len wr; pad = s_pad wr
      in case alloc_segs (s_data_len wr + pad) seg_size oks 0 of
           None \<Rightarrow> None
         | Some n \<Rightarrow>
             let seg = take (nat seg_size) (junk @ replicate (nat seg_size) 0);
                 last_seg = take (nat (seg_size - pad)) seg @ replicate (nat pad) 0;
                 segs = (if n = 0 then [] else replicate (n - 1) seg @ [last_seg]);
                 h = (rmpp_hdr (s_mad wr))\<lparr>rmpp_version := version, rmpp_type := IB_MGMT_RMPP_TYPE_DATA\<rparr>;
                 h = ib_set_rmpp_flags IB_MGMT_RMPP_FLAG_ACTIVE h
             in Some (wr\<lparr>s_seg_size := seg_size, s_seg_rmpp_size := mad_size - 36, s_seg_count := s_seg_count wr + int n,
                         s_segs := segs, s_mad := (s_mad wr)\<lparr>rmpp_hdr := h\<rparr>, s_cur_seg := 1, s_last_ack_seg := 1\<rparr>))"

text \<open>
  \<open>list_for_each_entry\<close> from the segment \<open>k\<close> visits the segments behind it, passes the list head, visits the
  segments before it and ends at \<open>k\<close>. The number it reads at the list head is the low half of
  an aligned pointer and matches no segment that is searched.
\<close>

definition seg_cycle :: "int \<Rightarrow> int \<Rightarrow> int list" where
  "seg_cycle k cnt = [k + 1..cnt] @ [1..k - 1]"

definition search_from :: "int list \<Rightarrow> int \<Rightarrow> int \<Rightarrow> int" where
  "search_from path k n = (case find (\<lambda>j. j = n) path of None \<Rightarrow> k | Some j \<Rightarrow> j)"

definition ib_get_rmpp_segment :: "int \<Rightarrow> mad_send_wr \<Rightarrow> (u8 list \<times> mad_send_wr) option" where
  "ib_get_rmpp_segment n wr =
     (let k = s_cur_seg wr;
          k' = (if k < n then search_from (seg_cycle k (s_seg_count wr)) k n
                else if k > n then search_from (rev (seg_cycle k (s_seg_count wr))) k n
                else k)
      in map_option (\<lambda>d. (d, wr\<lparr>s_cur_seg := k'\<rparr>)) (arr_get (s_segs wr) (nat (k' - 1))))"

definition ib_get_payload :: "mad_send_wr \<Rightarrow> (u8 list \<times> mad_send_wr) option" where
  "ib_get_payload wr =
     (if s_seg_count wr \<noteq> 0 then ib_get_rmpp_segment (s_seg_num wr) wr else Some (mad_data (s_mad wr), wr))"

section \<open>The agent\<close>

datatype send_outcome = SendOk | HeaderMapFails | SendFails

datatype rmpp_result = RESULT_PROCESSED | RESULT_CONSUMED | RESULT_INTERNAL | RESULT_UNHANDLED | RESULT_ERROR

record tx_env =
  tx_now :: u64
  tx_m2j :: "u32 \<Rightarrow> u64"
  tx_send :: send_outcome
  tx_dlid :: "nat \<Rightarrow> u32 option"
  tx_same_gid :: "nat \<Rightarrow> ib_mad_recv_wc \<Rightarrow> bool"
  tx_rx :: rmpp_env

record mad_agent =
  twrs :: "nat \<Rightarrow> mad_send_wr"
  wait_list :: "nat list"
  t_send_list :: "nat list"
  done_list :: "nat list"
  t_timeout :: u64
  timed_work :: "u64 option"
  kernel_rmpp :: bool
  rx :: rmpp_agent
  wire :: "(nat \<times> ib_rmpp_mad) list"
  completed :: "(nat \<times> ib_wc_status \<times> u8) list"
  recv_handled :: "(nat option \<times> ib_mad_recv_wc) list"
  smp_done :: "nat list"
  cc_done :: "nat list"
  agent_refs :: int

definition set_wr :: "nat \<Rightarrow> mad_send_wr \<Rightarrow> mad_agent \<Rightarrow> mad_agent" where
  "set_wr x wr s = s\<lparr>twrs := (twrs s)(x := wr)\<rparr>"

text \<open>\<open>list_del\<close> of a send from the list it is in.\<close>

definition list_del :: "nat \<Rightarrow> mad_agent \<Rightarrow> mad_agent" where
  "list_del x s = s\<lparr>wait_list := remove1 x (wait_list s), t_send_list := remove1 x (t_send_list s),
     done_list := remove1 x (done_list s)\<rparr>"

text \<open>\<open>ib_send_mad\<close>: the datagram on the wire is the header with the payload of the current segment.\<close>

definition tx_ib_send_mad :: "tx_env \<Rightarrow> nat \<Rightarrow> mad_agent \<Rightarrow> (bool \<times> mad_agent) option" where
  "tx_ib_send_mad env x s =
     (case tx_send env of
        HeaderMapFails \<Rightarrow> Some (False, s)
      | out \<Rightarrow>
          do {
            (d, wr) \<leftarrow> ib_get_payload (twrs s x);
            let s = set_wr x wr s;
            if out = SendFails then Some (False, s)
            else Some (True, s\<lparr>wire := wire s @ [(x, (s_mad wr)\<lparr>mad_data := d\<rparr>)]\<rparr>)
          })"

definition seg_hdr :: "mad_send_wr \<Rightarrow> int \<Rightarrow> ib_rmpp_hdr \<Rightarrow> ib_rmpp_hdr" where
  "seg_hdr wr n h =
     (let h = (ib_set_rmpp_flags IB_MGMT_RMPP_FLAG_ACTIVE h)\<lparr>hdr_seg_num := word_of_int n\<rparr>;
          (h, paylen) = (if n = 1
             then (h\<lparr>rmpp_rtime_flags := rmpp_rtime_flags h OR IB_MGMT_RMPP_FLAG_FIRST\<rparr>,
                   s_seg_count wr * s_seg_rmpp_size wr - s_pad wr)
             else (h, 0));
          (h, paylen) = (if n = s_seg_count wr
             then (h\<lparr>rmpp_rtime_flags := rmpp_rtime_flags h OR IB_MGMT_RMPP_FLAG_LAST\<rparr>, s_seg_rmpp_size wr - s_pad wr)
             else (h, paylen))
      in h\<lparr>paylen_newwin := word_of_int paylen\<rparr>)"

definition next_seg_hdr :: "mad_send_wr \<Rightarrow> mad_send_wr" where
  "next_seg_hdr wr =
     (let n = s_seg_num wr + 1
      in wr\<lparr>s_seg_num := n, s_mad := (s_mad wr)\<lparr>rmpp_hdr := seg_hdr wr n (rmpp_hdr (s_mad wr))\<rparr>\<rparr>)"

definition send_next_seg :: "tx_env \<Rightarrow> nat \<Rightarrow> mad_agent \<Rightarrow> (bool \<times> mad_agent) option" where
  "send_next_seg env x s =
     (let wr = next_seg_hdr (twrs s x);
          wr = (if s_timeout_ms wr = 0 \<or> sint (s_timeout_ms wr) > 2000 then wr\<lparr>s_timeout := tx_m2j env 2000\<rparr> else wr)
      in tx_ib_send_mad env x (set_wr x wr s))"

section \<open>Waiting and completion\<close>

text \<open>\<open>is_rmpp_data_mad\<close> and \<open>rcv_has_same_class\<close> of \<open>mad.c\<close>; \<open>kernel_rmpp\<close> says that the kernel handles RMPP for the agent.\<close>

definition is_rmpp_data_mad :: "mad_agent \<Rightarrow> ib_rmpp_mad \<Rightarrow> bool" where
  "is_rmpp_data_mad s m \<longleftrightarrow> \<not> kernel_rmpp s \<or>
     \<not> has_flag (ib_get_rmpp_flags (rmpp_hdr m)) IB_MGMT_RMPP_FLAG_ACTIVE \<or> rmpp_type (rmpp_hdr m) = IB_MGMT_RMPP_TYPE_DATA"

definition rcv_has_same_class :: "mad_send_wr \<Rightarrow> ib_mad_recv_wc \<Rightarrow> bool" where
  "rcv_has_same_class wr wc \<longleftrightarrow> mgmt_class (mad_hdr (s_mad wr)) = mgmt_class (mad_hdr (rb_mad (recv_buf wc)))"

definition is_direct :: "u8 \<Rightarrow> bool" where
  "is_direct cls \<longleftrightarrow> cls = 0x81"

definition ib_find_send_mad :: "tx_env \<Rightarrow> mad_agent \<Rightarrow> ib_mad_recv_wc \<Rightarrow> nat option" where
  "ib_find_send_mad env s wc =
     (let h = mad_hdr (rb_mad (recv_buf wc));
          same = (\<lambda>x. s_tid (twrs s x) = mad_tid h \<and> rcv_has_same_class (twrs s x) wc \<and>
                      (is_direct (mgmt_class h) \<or> tx_same_gid env x wc));
          found = (\<lambda>x. if s_status (twrs s x) = IB_WC_SUCCESS then Some x else None)
      in case find same (wait_list s) of
           Some x \<Rightarrow> found x
         | None \<Rightarrow>
             (case find (\<lambda>x. is_rmpp_data_mad s (s_mad (twrs s x)) \<and> s_timeout (twrs s x) \<noteq> 0 \<and> same x) (t_send_list s) of
                Some x \<Rightarrow> found x
              | None \<Rightarrow> None))"

definition ib_mark_mad_done :: "nat \<Rightarrow> mad_agent \<Rightarrow> mad_agent" where
  "ib_mark_mad_done x s =
     (let s = set_wr x ((twrs s x)\<lparr>s_timeout := 0\<rparr>) s
      in if s_refcount (twrs s x) = 1 then let s = list_del x s in s\<lparr>done_list := done_list s @ [x]\<rparr> else s)"

definition adjust_timeout :: "tx_env \<Rightarrow> mad_agent \<Rightarrow> mad_agent" where
  "adjust_timeout env s =
     (case wait_list s of
        [] \<Rightarrow> s\<lparr>timed_work := None\<rparr>
      | x # _ \<Rightarrow>
          let t = s_timeout (twrs s x)
          in if time_after (t_timeout s) t
             then let delay = t - tx_now env; delay = (if sint delay \<le> 0 then 1 else delay)
                  in s\<lparr>t_timeout := t, timed_work := Some delay\<rparr>
             else s)"

definition wait_for_response :: "tx_env \<Rightarrow> nat \<Rightarrow> mad_agent \<Rightarrow> mad_agent" where
  "wait_for_response env x s =
     (let s = list_del x s;
          delay = s_timeout (twrs s x);
          s = set_wr x ((twrs s x)\<lparr>s_timeout := delay + tx_now env\<rparr>) s;
          l = (if delay \<noteq> 0 then insert_time (\<lambda>y. s_timeout (twrs s y)) x (wait_list s) else x # wait_list s);
          first = (delay = 0 \<or> insert_at_head (\<lambda>y. s_timeout (twrs s y)) x (wait_list s));
          s = s\<lparr>wait_list := l\<rparr>
      in if first then s\<lparr>timed_work := Some delay\<rparr> else s)"

definition ib_reset_mad_timeout :: "tx_env \<Rightarrow> nat \<Rightarrow> u32 \<Rightarrow> mad_agent \<Rightarrow> mad_agent" where
  "ib_reset_mad_timeout env x tmo s =
     wait_for_response env x (set_wr x ((twrs s x)\<lparr>s_timeout := tx_m2j env tmo\<rparr>) s)"

text \<open>\<open>ib_process_rmpp_send_wc\<close> also returns the status of the completion, which it may change.\<close>

definition ib_process_rmpp_send_wc ::
  "tx_env \<Rightarrow> nat \<Rightarrow> ib_wc_status \<Rightarrow> mad_agent \<Rightarrow> (rmpp_result \<times> ib_wc_status \<times> mad_agent) option" where
  "ib_process_rmpp_send_wc env x status s =
     (let wr = twrs s x; h = rmpp_hdr (s_mad wr)
      in if \<not> has_flag (ib_get_rmpp_flags h) IB_MGMT_RMPP_FLAG_ACTIVE then Some (RESULT_UNHANDLED, status, s)
         else if rmpp_type h \<noteq> IB_MGMT_RMPP_TYPE_DATA then Some (RESULT_INTERNAL, status, s)
         else if status \<noteq> IB_WC_SUCCESS \<or> s_status wr \<noteq> IB_WC_SUCCESS then Some (RESULT_PROCESSED, status, s)
         else if s_timeout wr = 0 then Some (RESULT_PROCESSED, status, s)
         else if s_last_ack wr = s_seg_count wr
         then Some (RESULT_PROCESSED, status, set_wr x (wr\<lparr>s_timeout := tx_m2j env (s_timeout_ms wr)\<rparr>) s)
         else if s_seg_num wr = s_newwin wr \<or> s_seg_num wr = s_seg_count wr then Some (RESULT_PROCESSED, status, s)
         else
           do {
             (ok, s) \<leftarrow> send_next_seg env x s;
             Some (if ok then (RESULT_CONSUMED, status, s) else (RESULT_PROCESSED, IB_WC_GENERAL_ERR, s))
           })"

text \<open>
  The report of a send to its client: the windows for subnet-management and SA datagrams
  (\<open>smp_mad_done\<close>, \<open>sa_cc_mad_done\<close>) are told, the client's handler is called and the reference on the agent is
  dropped.
\<close>

definition send_handler :: "nat \<Rightarrow> ib_wc_status \<Rightarrow> u8 \<Rightarrow> mad_agent \<Rightarrow> mad_agent" where
  "send_handler x status vendor_err s =
     (let s = (if s_is_smp_mad (twrs s x) then s\<lparr>smp_done := smp_done s @ [x]\<rparr>
               else if s_is_sa_cc_mad (twrs s x) then s\<lparr>cc_done := cc_done s @ [x]\<rparr> else s)
      in s\<lparr>completed := completed s @ [(x, status, vendor_err)], agent_refs := agent_refs s - 1\<rparr>)"

text \<open>
  \<open>ib_mad_complete_send_wr\<close>. The completion of an internal message goes to
  \<open>ib_rmpp_send_handler\<close>, every other one to the client.
\<close>

definition ib_mad_complete_send_wr :: "tx_env \<Rightarrow> nat \<Rightarrow> ib_wc_status \<Rightarrow> u8 \<Rightarrow> mad_agent \<Rightarrow> mad_agent option" where
  "ib_mad_complete_send_wr env x status vendor_err s =
     do {
       (ret, status, s) \<leftarrow> (if kernel_rmpp s then ib_process_rmpp_send_wc env x status s
                            else Some (RESULT_UNHANDLED, status, s));
       if ret = RESULT_CONSUMED then Some s
       else
         let wr = twrs s x;
             wr = (if status \<noteq> IB_WC_SUCCESS \<and> s_status wr = IB_WC_SUCCESS
                   then wr\<lparr>s_status := status, s_refcount := s_refcount wr - (if s_timeout wr > 0 then 1 else 0)\<rparr> else wr);
             wr = wr\<lparr>s_refcount := s_refcount wr - 1\<rparr>;
             s = set_wr x wr s
         in if s_refcount wr > 0
            then Some (if s_refcount wr = 1 \<and> s_timeout wr \<noteq> 0 \<and> s_status wr = IB_WC_SUCCESS
                       then wait_for_response env x s else s)
            else
              let s = adjust_timeout env (list_del x s);
                  status = (if s_status wr \<noteq> IB_WC_SUCCESS then s_status wr else status)
              in if ret = RESULT_INTERNAL
                 then Some (s\<lparr>rx := ib_rmpp_send_handler \<lparr>msg_mad = s_mad wr, msg_ah = s_ah wr,
                                own_ah = s_own_ah wr, msg_qp = 0, msg_pkey_index = 0\<rparr> (rx s), agent_refs := agent_refs s - 1\<rparr>)
                 else Some (send_handler x status vendor_err s)
     }"

section \<open>Acknowledgements and aborts\<close>

definition abort_send :: "tx_env \<Rightarrow> ib_mad_recv_wc \<Rightarrow> u8 \<Rightarrow> mad_agent \<Rightarrow> mad_agent option" where
  "abort_send env wc rstatus s =
     (case ib_find_send_mad env s wc of
        None \<Rightarrow> Some s
      | Some x \<Rightarrow>
          let wr = twrs s x
          in if s_last_ack wr = s_seg_count wr \<or> s_timeout wr = 0 \<or> s_status wr \<noteq> IB_WC_SUCCESS then Some s
             else ib_mad_complete_send_wr env x IB_WC_REM_ABORT_ERR rstatus (ib_mark_mad_done x s))"

definition adjust_last_ack :: "int \<Rightarrow> mad_send_wr \<Rightarrow> mad_send_wr" where
  "adjust_last_ack n wr =
     (let k = s_last_ack_seg wr
      in wr\<lparr>s_last_ack := n, s_last_ack_seg := search_from (seg_cycle k (s_seg_count wr)) k n\<rparr>)"

definition process_ds_ack :: "ib_mad_recv_wc \<Rightarrow> int \<Rightarrow> mad_agent \<Rightarrow> mad_agent" where
  "process_ds_ack wc nw s =
     (case find_rmpp_recv (rx s) wc of
        None \<Rightarrow> s
      | Some i \<Rightarrow>
          let r = rmpp_recvs (rx s) ! i
          in if rr_state r = RMPP_STATE_COMPLETE then s\<lparr>rx := (rx s)\<lparr>rmpp_recvs := (rmpp_recvs (rx s))[i := r\<lparr>repwin := nw\<rparr>]\<rparr>\<rparr> else s)"

definition nack :: "tx_env \<Rightarrow> ib_mad_recv_wc \<Rightarrow> u8 \<Rightarrow> mad_agent \<Rightarrow> mad_agent" where
  "nack env wc rstatus s = s\<lparr>rx := nack_recv (tx_rx env) wc rstatus (rx s)\<rparr>"

definition abort_and_nack :: "tx_env \<Rightarrow> ib_mad_recv_wc \<Rightarrow> u8 \<Rightarrow> mad_agent \<Rightarrow> mad_agent option" where
  "abort_and_nack env wc rstatus s = map_option (nack env wc rstatus) (abort_send env wc rstatus s)"

text \<open>The part of \<open>process_rmpp_ack\<close> behind the checks, for a send whose acknowledgement and window are updated.\<close>

definition ack_send :: "tx_env \<Rightarrow> ib_mad_recv_wc \<Rightarrow> nat \<Rightarrow> mad_agent \<Rightarrow> mad_agent option" where
  "ack_send env wc x s =
     (let wr = twrs s x
      in if s_last_ack wr = s_seg_count wr
         then if s_timeout_ms wr = 0 then ib_mad_complete_send_wr env x IB_WC_SUCCESS 0 (ib_mark_mad_done x s)
              else let s = (if s_refcount wr = 1 then ib_reset_mad_timeout env x (s_timeout_ms wr) s else s)
                   in Some (s\<lparr>rx := ack_ds_ack (tx_rx env) wc (rx s)\<rparr>)
         else if s_refcount wr = 1 \<and> s_seg_num wr < s_newwin wr \<and> s_seg_num wr < s_seg_count wr
         then do {
             (ok, s) \<leftarrow> send_next_seg env x s;
             Some (if ok
                   then let wr = twrs s x; s = list_del x (set_wr x (wr\<lparr>s_refcount := s_refcount wr + 1\<rparr>) s)
                        in s\<lparr>t_send_list := t_send_list s @ [x]\<rparr>
                   else s)
           }
         else Some s)"

definition process_rmpp_ack :: "tx_env \<Rightarrow> ib_mad_recv_wc \<Rightarrow> mad_agent \<Rightarrow> mad_agent option" where
  "process_rmpp_ack env wc s =
     (let h = rmpp_hdr (rb_mad (recv_buf wc));
          seg_num = sint (hdr_seg_num h); newwin = sint (paylen_newwin h)
      in if rmpp_status h \<noteq> 0 then abort_and_nack env wc IB_MGMT_RMPP_STATUS_BAD_STATUS s
         else if newwin < seg_num then abort_and_nack env wc IB_MGMT_RMPP_STATUS_W2S s
         else
           case ib_find_send_mad env s wc of
             None \<Rightarrow> Some (if seg_num = 0 then process_ds_ack wc newwin s else s)
           | Some x \<Rightarrow>
               let wr = twrs s x
               in if s_last_ack wr = s_seg_count wr \<and> s_timeout wr \<noteq> 0
                  then Some (s\<lparr>rx := ack_ds_ack (tx_rx env) wc (rx s)\<rparr>)
                  else if s_last_ack wr = s_seg_count wr \<or> s_timeout wr = 0 \<or> s_status wr \<noteq> IB_WC_SUCCESS then Some s
                  else if seg_num > s_seg_count wr \<or> seg_num > s_newwin wr
                  then abort_and_nack env wc IB_MGMT_RMPP_STATUS_S2B s
                  else if newwin < s_newwin wr \<or> seg_num < s_last_ack wr then Some s
                  else
                    let wr = (if seg_num > s_last_ack wr
                              then (adjust_last_ack seg_num wr)\<lparr>s_retries_left := s_max_retries wr\<rparr> else wr);
                        wr = wr\<lparr>s_newwin := newwin\<rparr>
                    in ack_send env wc x (set_wr x wr s))"

definition process_rmpp_stop :: "tx_env \<Rightarrow> ib_mad_recv_wc \<Rightarrow> mad_agent \<Rightarrow> mad_agent option" where
  "process_rmpp_stop env wc s =
     (let st = rmpp_status (rmpp_hdr (rb_mad (recv_buf wc)))
      in if st \<noteq> IB_MGMT_RMPP_STATUS_RESX then abort_and_nack env wc IB_MGMT_RMPP_STATUS_BAD_STATUS s
         else abort_send env wc st s)"

definition process_rmpp_abort :: "tx_env \<Rightarrow> ib_mad_recv_wc \<Rightarrow> mad_agent \<Rightarrow> mad_agent option" where
  "process_rmpp_abort env wc s =
     (let st = rmpp_status (rmpp_hdr (rb_mad (recv_buf wc)))
      in if st < IB_MGMT_RMPP_STATUS_ABORT_MIN \<or> st > IB_MGMT_RMPP_STATUS_ABORT_MAX
         then abort_and_nack env wc IB_MGMT_RMPP_STATUS_BAD_STATUS s
         else abort_send env wc st s)"

definition ib_process_rmpp_recv_wc ::
  "tx_env \<Rightarrow> ib_mad_recv_wc \<Rightarrow> mad_agent \<Rightarrow> (ib_mad_recv_wc option \<times> mad_agent) option" where
  "ib_process_rmpp_recv_wc env wc s =
     (let h = rmpp_hdr (rb_mad (recv_buf wc));
          fin = map_option (\<lambda>s. (None, s\<lparr>rx := ib_free_recv_mad wc (rx s)\<rparr>))
      in if \<not> has_flag (rmpp_rtime_flags h) IB_MGMT_RMPP_FLAG_ACTIVE then Some (Some wc, s)
         else if rmpp_version h \<noteq> IB_MGMT_RMPP_VERSION then fin (abort_and_nack env wc IB_MGMT_RMPP_STATUS_UNV s)
         else if rmpp_type h = IB_MGMT_RMPP_TYPE_DATA
         then map_option (\<lambda>(res, r). (res, s\<lparr>rx := r\<rparr>)) (process_rmpp_data (tx_rx env) wc (rx s))
         else if rmpp_type h = IB_MGMT_RMPP_TYPE_ACK then fin (process_rmpp_ack env wc s)
         else if rmpp_type h = IB_MGMT_RMPP_TYPE_STOP then fin (process_rmpp_stop env wc s)
         else if rmpp_type h = IB_MGMT_RMPP_TYPE_ABORT then fin (process_rmpp_abort env wc s)
         else fin (abort_and_nack env wc IB_MGMT_RMPP_STATUS_BADT s))"

section \<open>Posting and retrying\<close>

definition init_newwin :: "tx_env \<Rightarrow> mad_send_wr \<Rightarrow> mad_agent \<Rightarrow> int" where
  "init_newwin env wr s =
     (let h = mad_hdr (s_mad wr)
      in if \<not> has_flag (mad_method h) IB_MGMT_METHOD_RESP then 1
         else
           case find (\<lambda>r. rr_tid r = mad_tid h \<and> rr_mgmt_class r = mgmt_class h \<and> rr_class_version r = class_version h \<and>
                          \<not> has_flag (rr_method r) IB_MGMT_METHOD_RESP \<and> tx_dlid env (s_ah wr) = Some (rr_slid r))
                  (rmpp_recvs (rx s)) of
             None \<Rightarrow> 1
           | Some r \<Rightarrow> repwin r)"

definition ib_send_rmpp_mad :: "tx_env \<Rightarrow> nat \<Rightarrow> mad_agent \<Rightarrow> (rmpp_result \<times> mad_agent) option" where
  "ib_send_rmpp_mad env x s =
     (let wr = twrs s x; h = rmpp_hdr (s_mad wr)
      in if \<not> has_flag (ib_get_rmpp_flags h) IB_MGMT_RMPP_FLAG_ACTIVE then Some (RESULT_UNHANDLED, s)
         else if rmpp_type h \<noteq> IB_MGMT_RMPP_TYPE_DATA then Some (RESULT_INTERNAL, set_wr x (wr\<lparr>s_seg_num := 1\<rparr>) s)
         else
           do {
             let wr = wr\<lparr>s_newwin := init_newwin env wr s, s_refcount := s_refcount wr + (if s_timeout wr = 0 then 1 else 0)\<rparr>;
             (ok, s) \<leftarrow> send_next_seg env x (set_wr x wr s);
             Some (if ok then RESULT_CONSUMED else RESULT_ERROR, s)
           })"

definition ib_retry_rmpp :: "tx_env \<Rightarrow> nat \<Rightarrow> mad_agent \<Rightarrow> (rmpp_result \<times> mad_agent) option" where
  "ib_retry_rmpp env x s =
     (let wr = twrs s x
      in if \<not> has_flag (ib_get_rmpp_flags (rmpp_hdr (s_mad wr))) IB_MGMT_RMPP_FLAG_ACTIVE then Some (RESULT_UNHANDLED, s)
         else if s_last_ack wr = s_seg_count wr then Some (RESULT_PROCESSED, s)
         else
           do {
             (ok, s) \<leftarrow> send_next_seg env x (set_wr x (wr\<lparr>s_seg_num := s_last_ack wr, s_cur_seg := s_last_ack_seg wr\<rparr>) s);
             Some (if ok then RESULT_CONSUMED else RESULT_PROCESSED, s)
           })"

text \<open>The end of \<open>retry_send\<close>: the send is in flight again.\<close>

definition requeue_send :: "nat \<Rightarrow> mad_agent \<Rightarrow> mad_agent" where
  "requeue_send x s =
     (let wr = twrs s x;
          s = (if s_is_smp_mad wr then s\<lparr>smp_done := smp_done s @ [x]\<rparr> else s);
          s = set_wr x (wr\<lparr>s_refcount := s_refcount wr + 1\<rparr>) s
      in s\<lparr>t_send_list := t_send_list s @ [x]\<rparr>)"

text \<open>\<open>retry_send\<close>: whether the send goes on.\<close>

definition retry_send :: "tx_env \<Rightarrow> nat \<Rightarrow> mad_agent \<Rightarrow> (bool \<times> mad_agent) option" where
  "retry_send env x s =
     (let wr = twrs s x
      in if s_retries_left wr = 0 then Some (False, s)
         else
           do {
             let s = set_wr x (wr\<lparr>s_retries_left := s_retries_left wr - 1, s_retries := s_retries wr + 1,
                                  s_timeout := tx_m2j env (s_timeout_ms wr)\<rparr>) s;
             (ok, s) \<leftarrow> (if kernel_rmpp s
                          then do {
                            (res, s) \<leftarrow> ib_retry_rmpp env x s;
                            if res = RESULT_UNHANDLED then tx_ib_send_mad env x s else Some (res = RESULT_CONSUMED, s)
                          }
                          else tx_ib_send_mad env x s);
             Some (if ok then (True, requeue_send x s) else (False, s))
           })"

text \<open>
  What \<open>ib_post_send_mad\<close> does for one message that the kernel segments and that the SA congestion
  control does not hold back; the answer says whether the send is under way.
\<close>

definition fail_send :: "nat \<Rightarrow> mad_agent \<Rightarrow> mad_agent" where
  "fail_send x s = (let s = list_del x s in s\<lparr>agent_refs := agent_refs s - 1\<rparr>)"

definition ib_post_send_rmpp :: "tx_env \<Rightarrow> nat \<Rightarrow> mad_agent \<Rightarrow> (bool \<times> mad_agent) option" where
  "ib_post_send_rmpp env x s =
     (let wr = twrs s x;
          t = tx_m2j env (s_timeout_ms wr);
          wr = wr\<lparr>s_tid := mad_tid (mad_hdr (s_mad wr)), s_timeout := t, s_max_retries := s_retries wr, s_retries_left := s_retries wr,
                  s_retries := 0, s_refcount := 1 + (if t > 0 then 1 else 0), s_status := IB_WC_SUCCESS\<rparr>;
          s = set_wr x wr s;
          s = s\<lparr>agent_refs := agent_refs s + 1, t_send_list := t_send_list s @ [x]\<rparr>
      in do {
           (res, s) \<leftarrow> ib_send_rmpp_mad env x s;
           (ok, s) \<leftarrow> (if res = RESULT_ERROR then Some (False, s)
                       else if res \<noteq> RESULT_CONSUMED then tx_ib_send_mad env x s else Some (True, s));
           Some (ok, if ok then s else fail_send x s)
         })"

text \<open>The work item of the agent's timer: every round takes the first send off the wait list.\<close>

fun timeout_sends_loop :: "tx_env \<Rightarrow> nat list \<Rightarrow> mad_agent \<Rightarrow> mad_agent option" where
  "timeout_sends_loop env [] s = Some (s\<lparr>wait_list := []\<rparr>)"
| "timeout_sends_loop env (x # xs) s =
     (if time_after (s_timeout (twrs s x)) (tx_now env)
      then let delay = s_timeout (twrs s x) - tx_now env
           in Some (s\<lparr>wait_list := x # xs, timed_work := Some (if sint delay \<le> 0 then 1 else delay)\<rparr>)
      else
        do {
          (ok, s) \<leftarrow> (if s_status (twrs s x) = IB_WC_SUCCESS then retry_send env x s else Some (False, s));
          if ok then timeout_sends_loop env xs s
          else
            let st = (if s_status (twrs s x) = IB_WC_SUCCESS then IB_WC_RESP_TIMEOUT_ERR else s_status (twrs s x))
            in timeout_sends_loop env xs (send_handler x st 0 s)
        })"

definition timeout_sends :: "tx_env \<Rightarrow> mad_agent \<Rightarrow> mad_agent option" where
  "timeout_sends env s = timeout_sends_loop env (wait_list s) (s\<lparr>timed_work := None\<rparr>)"


section \<open>Responses\<close>

definition IB_MGMT_METHOD_TRAP_REPRESS :: u8 where "IB_MGMT_METHOD_TRAP_REPRESS = 0x07"
definition IB_MGMT_CLASS_BM :: u8 where "IB_MGMT_CLASS_BM = 0x05"
definition IB_BM_ATTR_MOD_RESP :: u32 where "IB_BM_ATTR_MOD_RESP = 1"

definition ib_response_mad :: "ib_mad_hdr \<Rightarrow> bool" where
  "ib_response_mad hdr \<longleftrightarrow> has_flag (mad_method hdr) IB_MGMT_METHOD_RESP \<or> mad_method hdr = IB_MGMT_METHOD_TRAP_REPRESS \<or>
     mgmt_class hdr = IB_MGMT_CLASS_BM \<and> has_flag (attr_mod hdr) IB_BM_ATTR_MOD_RESP"

definition ib_is_mad_class_rmpp :: "u8 \<Rightarrow> bool" where
  "ib_is_mad_class_rmpp cls \<longleftrightarrow> cls = 0x03 \<or> cls = 0x06 \<or> cls = 0x10 \<or> cls = 0x12 \<or> 0x30 \<le> cls \<and> cls \<le> 0x4F"

text \<open>The call of the client's receive handler, and the reference on the agent that the arrival took.\<close>

definition recv_handler :: "nat option \<Rightarrow> ib_mad_recv_wc \<Rightarrow> mad_agent \<Rightarrow> mad_agent" where
  "recv_handler x wc s = s\<lparr>recv_handled := recv_handled s @ [(x, wc)]\<rparr>"

definition deref_mad_agent :: "mad_agent \<Rightarrow> mad_agent" where
  "deref_mad_agent s = s\<lparr>agent_refs := agent_refs s - 1\<rparr>"

text \<open>
  \<open>ib_mad_complete_recv\<close>, in two parts as its critical sections are: what follows the protocol, and the whole.
  The request that a response answers is completed successfully, whatever has been acknowledged. \<open>denied\<close> is
  the answer of \<open>ib_mad_enforce_security\<close>; the list of buffers is still empty when it says no.
\<close>

definition complete_response :: "tx_env \<Rightarrow> ib_mad_recv_wc \<Rightarrow> mad_agent \<Rightarrow> mad_agent option" where
  "complete_response env wc s =
     (let m = rb_mad (recv_buf wc)
      in if ib_response_mad (mad_hdr m)
         then case ib_find_send_mad env s wc of
                None \<Rightarrow>
                  Some (if \<not> kernel_rmpp s \<and> ib_is_mad_class_rmpp (mgmt_class (mad_hdr m)) \<and>
                           has_flag (ib_get_rmpp_flags (rmpp_hdr m)) IB_MGMT_RMPP_FLAG_ACTIVE
                        then deref_mad_agent (recv_handler None wc s)
                        else deref_mad_agent (s\<lparr>rx := ib_free_recv_mad wc (rx s)\<rparr>))
              | Some x \<Rightarrow>
                  ib_mad_complete_send_wr env x IB_WC_SUCCESS 0
                    (deref_mad_agent (recv_handler (Some x) wc (ib_mark_mad_done x s)))
         else Some (deref_mad_agent (recv_handler None wc s)))"

definition ib_mad_complete_recv :: "tx_env \<Rightarrow> bool \<Rightarrow> ib_mad_recv_wc \<Rightarrow> mad_agent \<Rightarrow> mad_agent option" where
  "ib_mad_complete_recv env denied wc s =
     (let wc = wc\<lparr>rmpp_list := []\<rparr>
      in if denied then Some (deref_mad_agent (s\<lparr>rx := ib_free_recv_mad wc (rx s)\<rparr>))
         else
           let wc = wc\<lparr>rmpp_list := [recv_buf wc]\<rparr>
           in do {
             (res, s) \<leftarrow> (if kernel_rmpp s then ib_process_rmpp_recv_wc env wc s else Some (Some wc, s));
             case res of
               None \<Rightarrow> Some (deref_mad_agent s)
             | Some wc \<Rightarrow> complete_response env wc s
           })"

section \<open>Changing and cancelling a send\<close>

definition find_send_wr :: "nat \<Rightarrow> mad_agent \<Rightarrow> nat option" where
  "find_send_wr x s =
     (if x \<in> set (wait_list s) then Some x
      else if x \<in> set (t_send_list s) \<and> is_rmpp_data_mad s (s_mad (twrs s x)) then Some x
      else None)"

definition flush_send :: "mad_send_wr \<Rightarrow> mad_send_wr" where
  "flush_send w = w\<lparr>s_status := IB_WC_WR_FLUSH_ERR, s_refcount := s_refcount w - (if s_timeout w > 0 then 1 else 0)\<rparr>"

text \<open>\<open>cc_ret\<close> is what \<open>modify_sa_cc_mad\<close> returns for a send that only the congestion control knows.\<close>

definition ib_modify_mad :: "tx_env \<Rightarrow> int \<Rightarrow> nat \<Rightarrow> u32 \<Rightarrow> mad_agent \<Rightarrow> unit result \<times> mad_agent" where
  "ib_modify_mad env cc_ret x tmo s =
     (case find_send_wr x s of
        None \<Rightarrow> (if cc_ret \<noteq> 0 then Inl EINVAL else Inr (), s)
      | Some x \<Rightarrow>
          let wr = twrs s x
          in if s_status wr \<noteq> IB_WC_SUCCESS then (Inl EINVAL, s)
             else
               let active = (s_timeout wr = 0 \<or> s_refcount wr > 1);
                   wr = (if tmo = 0 then flush_send wr else wr);
                   wr = wr\<lparr>s_timeout_ms := tmo\<rparr>
               in (Inr (), if active then set_wr x (wr\<lparr>s_timeout := tx_m2j env tmo\<rparr>) s
                           else ib_reset_mad_timeout env x tmo (set_wr x wr s)))"

text \<open>
  \<open>cancel_mads\<close> on the agent's own lists, when the agent goes: the sends in flight are marked, those that wait are
  reported. The SA queue's part is \<open>cancel_sa_cc_mads\<close>; the sends queued behind the window for subnet
  management, and that the agent takes no more sends, are left out.
\<close>

definition cancel_mads :: "mad_agent \<Rightarrow> mad_agent" where
  "cancel_mads s =
     (let s = s\<lparr>twrs := (\<lambda>x. if x \<in> set (t_send_list s) \<and> s_status (twrs s x) = IB_WC_SUCCESS
                             then flush_send (twrs s x) else twrs s x)\<rparr>;
          cancel_list = wait_list s;
          s = s\<lparr>wait_list := []\<rparr>
      in fold (\<lambda>x. send_handler x IB_WC_WR_FLUSH_ERR 0) cancel_list s)"

section \<open>The datagrams of a message\<close>

text \<open>Segment \<open>i\<close> as it goes to the wire.\<close>

definition seg_mad :: "mad_send_wr \<Rightarrow> int \<Rightarrow> ib_rmpp_mad" where
  "seg_mad wr i = (s_mad wr)\<lparr>rmpp_hdr := seg_hdr wr i (rmpp_hdr (s_mad wr)), mad_data := s_segs wr ! nat (i - 1)\<rparr>"

lemma flags_masked [simp]:
  fixes f :: u8
  shows "((f AND 0xF8) OR 1) AND 0xF8 = f AND 0xF8" "((f AND 0xF8) OR 3) AND 0xF8 = f AND 0xF8"
    "((f AND 0xF8) OR 5) AND 0xF8 = f AND 0xF8" "((f AND 0xF8) OR 7) AND 0xF8 = f AND 0xF8"
  by (simp_all add: and.assoc bit.conj_disj_distrib2)

lemma seg_hdr_seg_hdr: "seg_hdr w n (seg_hdr w k h) = seg_hdr w n h"
  by (simp add: seg_hdr_def ib_set_rmpp_flags_def flag_defs Let_def or.assoc)

lemma seg_hdr_fields [simp]:
  "rmpp_type (seg_hdr w n h) = rmpp_type h" "rmpp_status (seg_hdr w n h) = rmpp_status h"
  "rmpp_version (seg_hdr w n h) = rmpp_version h" "hdr_seg_num (seg_hdr w n h) = word_of_int n"
  by (simp_all add: seg_hdr_def ib_set_rmpp_flags_def Let_def)

lemma seg_hdr_flags:
  "has_flag (ib_get_rmpp_flags (seg_hdr w n h)) IB_MGMT_RMPP_FLAG_ACTIVE"
  "has_flag (ib_get_rmpp_flags (seg_hdr w n h)) IB_MGMT_RMPP_FLAG_FIRST \<longleftrightarrow> n = 1"
  "has_flag (ib_get_rmpp_flags (seg_hdr w n h)) IB_MGMT_RMPP_FLAG_LAST \<longleftrightarrow> n = s_seg_count w"
  by (simp_all add: seg_hdr_def ib_set_rmpp_flags_def ib_get_rmpp_flags_def has_flag_def flag_defs Let_def
      bit.conj_disj_distrib2 and.assoc)


definition active_data :: "ib_rmpp_mad \<Rightarrow> bool" where
  "active_data m \<longleftrightarrow> has_flag (ib_get_rmpp_flags (rmpp_hdr m)) IB_MGMT_RMPP_FLAG_ACTIVE \<and>
     rmpp_type (rmpp_hdr m) = IB_MGMT_RMPP_TYPE_DATA"

text \<open>A message as \<open>alloc_send_rmpp_list\<close> sets it up, and a send that is under way with it.\<close>

definition new_msg :: "mad_send_wr \<Rightarrow> bool" where
  "new_msg w \<longleftrightarrow> 1 \<le> s_seg_count w \<and> s_seg_count w < 2 ^ 31 \<and> length (s_segs w) = nat (s_seg_count w) \<and>
     active_data (s_mad w) \<and> s_last_ack w = 0 \<and> s_seg_num w = 0 \<and> s_cur_seg w = 1 \<and> s_last_ack_seg w = 1 \<and> s_newwin w = 0"

definition wr_ok :: "mad_send_wr \<Rightarrow> mad_send_wr \<Rightarrow> bool" where
  "wr_ok w0 w \<longleftrightarrow> s_segs w = s_segs w0 \<and> s_seg_count w = s_seg_count w0 \<and> seg_mad w = seg_mad w0 \<and> active_data (s_mad w) \<and>
     0 \<le> s_last_ack w \<and> s_last_ack w \<le> s_seg_count w \<and> 0 \<le> s_seg_num w \<and> s_seg_num w \<le> s_seg_count w \<and>
     s_last_ack_seg w = max 1 (s_last_ack w) \<and> 1 \<le> s_cur_seg w \<and> s_cur_seg w \<le> s_seg_count w"

text \<open>The window: the last segment sent lies in it, and it is open unless everything is acknowledged.\<close>

definition win_ok :: "mad_send_wr \<Rightarrow> bool" where
  "win_ok w \<longleftrightarrow> s_seg_num w \<le> s_newwin w \<and> (s_last_ack w < s_newwin w \<or> s_last_ack w = s_seg_count w)"

lemma find_eq: "find (\<lambda>j. j = n) l = (if n \<in> set l then Some n else None)"
  by (induction l) auto

lemma search_from_in: "n \<in> set path \<Longrightarrow> search_from path k n = n"
  by (simp add: search_from_def find_eq)

lemma in_seg_cycle: "n \<in> set (seg_cycle k cnt) \<longleftrightarrow> k < n \<and> n \<le> cnt \<or> 1 \<le> n \<and> n < k"
  by (auto simp: seg_cycle_def)

lemma ib_get_rmpp_segment_eq:
  assumes "1 \<le> n" "n \<le> s_seg_count w" "length (s_segs w) = nat (s_seg_count w)"
  shows "ib_get_rmpp_segment n w = Some (s_segs w ! nat (n - 1), w\<lparr>s_cur_seg := n\<rparr>)"
proof -
  have "(if s_cur_seg w < n then search_from (seg_cycle (s_cur_seg w) (s_seg_count w)) (s_cur_seg w) n
      else if s_cur_seg w > n then search_from (rev (seg_cycle (s_cur_seg w) (s_seg_count w))) (s_cur_seg w) n
      else s_cur_seg w) = n"
    using assms by (auto simp: search_from_in in_seg_cycle)
  then show ?thesis using assms by (simp add: ib_get_rmpp_segment_def Let_def)
qed

lemma adjust_last_ack_eq:
  assumes "s_last_ack_seg w = max 1 (s_last_ack w)" "s_last_ack w < n" "n \<le> s_seg_count w" "0 \<le> s_last_ack w"
  shows "adjust_last_ack n w = w\<lparr>s_last_ack := n, s_last_ack_seg := n\<rparr>"
proof (cases "n = s_last_ack_seg w")
  case True
  then have "n = 1" using assms by auto
  then have "find (\<lambda>j. j = n) (seg_cycle (s_last_ack_seg w) (s_seg_count w)) = None"
    using True by (simp add: find_eq in_seg_cycle)
  then show ?thesis using True by (simp add: adjust_last_ack_def search_from_def)
next
  case False
  then have "n \<in> set (seg_cycle (s_last_ack_seg w) (s_seg_count w))" using assms by (auto simp: in_seg_cycle)
  then show ?thesis by (simp add: adjust_last_ack_def search_from_in)
qed

text \<open>The segments are numbered and flagged as the receiver expects.\<close>

lemma seg_mad_message:
  assumes "new_msg w"
  shows "message (s_seg_count w) (seg_mad w)"
proof -
  have "sint (word_of_int i :: u32) = i" if i: "1 \<le> i" "i \<le> s_seg_count w" for i
  proof -
    have "signed_take_bit 31 i = i" using i assms by (intro signed_take_bit_int_eq_self) (simp_all add: new_msg_def)
    then show ?thesis by (simp add: signed_of_int)
  qed
  then show ?thesis
    using assms seg_hdr_flags(3) by (auto simp: message_def seg_mad_def new_msg_def)
qed

text \<open>Sending the next segment.\<close>

lemma seg_hdr_cong:
  assumes "s_seg_count w' = s_seg_count w" "s_seg_rmpp_size w' = s_seg_rmpp_size w" "s_pad w' = s_pad w"
  shows "seg_hdr w' = seg_hdr w"
  by (intro ext) (unfold seg_hdr_def assms, rule refl)

lemma seg_mad_next: "seg_mad (next_seg_hdr w) = seg_mad w"
proof -
  have "seg_hdr (next_seg_hdr w) = seg_hdr w" by (rule seg_hdr_cong) (simp_all add: next_seg_hdr_def Let_def)
  then show ?thesis by (intro ext) (simp add: seg_mad_def next_seg_hdr_def Let_def seg_hdr_seg_hdr)
qed

lemma seg_mad_cong:
  assumes "s_mad w' = s_mad w" "s_segs w' = s_segs w" "s_seg_count w' = s_seg_count w" "s_seg_rmpp_size w' = s_seg_rmpp_size w" "s_pad w' = s_pad w"
  shows "seg_mad w' = seg_mad w"
  using assms(1,2) seg_hdr_cong [OF assms(3-5)] by (intro ext) (simp add: seg_mad_def)


text \<open>The allocation of a message.\<close>

lemma alloc_segs_eq:
  assumes "0 < sz"
  shows "alloc_segs (int k * sz) sz oks n = (if k \<le> length oks \<and> list_all id (take k oks) then Some (n + k) else None)"
proof (induction k arbitrary: oks n)
  case 0
  show ?case by (subst alloc_segs.simps) simp
next
  case (Suc k)
  have "\<not> (int (Suc k) * sz \<le> 0 \<or> sz \<le> 0)" using assms by (simp add: mult_le_0_iff)
  moreover have "int (Suc k) * sz - sz = int k * sz" by (simp add: algebra_simps)
  ultimately have "alloc_segs (int (Suc k) * sz) sz oks n =
      (case oks of [] \<Rightarrow> None | ok # oks \<Rightarrow> if ok then alloc_segs (int k * sz) sz oks (n + 1) else None)"
    by (subst alloc_segs.simps) (simp split: list.split)
  then show ?case using Suc.IH by (cases oks) auto
qed

text \<open>The padding fills the last segment; a message without data has one segment of padding.\<close>

lemma get_pad_size_bounds:
  assumes "hdr < mad" "0 \<le> len"
  shows "0 \<le> get_pad_size hdr len mad" "get_pad_size hdr len mad \<le> mad - hdr" "len \<noteq> 0 \<Longrightarrow> get_pad_size hdr len mad < mad - hdr"
    "(len + get_pad_size hdr len mad) mod (mad - hdr) = 0" "0 < len + get_pad_size hdr len mad"
proof -
  have p: "0 < mad - hdr" using assms by simp
  define m where "m = len mod (mad - hdr)"
  have b: "m < mad - hdr" "0 \<le> m" unfolding m_def by (rule pos_mod_bound [OF p], rule pos_mod_sign [OF p])
  show "0 \<le> get_pad_size hdr len mad" "get_pad_size hdr len mad \<le> mad - hdr" "len \<noteq> 0 \<Longrightarrow> get_pad_size hdr len mad < mad - hdr"
    "0 < len + get_pad_size hdr len mad"
    using p b assms unfolding get_pad_size_def Let_def m_def [symmetric] by (auto split: if_splits)
  have "(len + (mad - hdr - len mod (mad - hdr))) mod (mad - hdr) = 0"
    by (metis add.commute add_diff_eq diff_add_cancel minus_mod_eq_mult_div mod_mult_self2_is_0 mult.commute mod_add_self1)
  then show "(len + get_pad_size hdr len mad) mod (mad - hdr) = 0"
    using p b unfolding get_pad_size_def Let_def by (auto simp: m_def)
qed

text \<open>The fields of a send that a new buffer (\<open>kzalloc\<close>) has.\<close>

definition fresh_wr :: "mad_send_wr \<Rightarrow> bool" where
  "fresh_wr w \<longleftrightarrow> s_seg_count w = 0 \<and> s_last_ack w = 0 \<and> s_seg_num w = 0 \<and> s_newwin w = 0"

lemma alloc_send_rmpp_list_new:
  assumes w: "fresh_wr w" "s_hdr_len w < mad" "0 \<le> s_data_len w" "s_pad w = get_pad_size (s_hdr_len w) (s_data_len w) mad"
    and small: "s_data_len w + s_pad w < 2 ^ 31"
  defines "k \<equiv> nat ((s_data_len w + s_pad w) div (mad - s_hdr_len w))"
  shows "k \<le> length oks \<Longrightarrow> list_all id (take k oks) \<Longrightarrow> \<exists>w'. alloc_send_rmpp_list v mad oks junk w = Some w' \<and> new_msg w' \<and>
      s_seg_count w' * s_seg_size w' = s_data_len w + s_pad w \<and> list_all (\<lambda>d. int (length d) = s_seg_size w') (s_segs w') \<and>
      list_all (\<lambda>b. b = 0) (drop (nat (s_seg_size w' - s_pad w)) (last (s_segs w')))"
    "\<not> (k \<le> length oks \<and> list_all id (take k oks)) \<Longrightarrow> alloc_send_rmpp_list v mad oks junk w = None"
proof -
  define sz where "sz = mad - s_hdr_len w"
  have sz: "0 < sz" using w by (simp add: sz_def)
  note b = get_pad_size_bounds [OF w(2,3), folded w(4) sz_def]
  have "0 \<le> (s_data_len w + s_pad w) div sz" using sz b(5) by (simp add: pos_imp_zdiv_nonneg_iff)
  then have kz: "int k * sz = s_data_len w + s_pad w"
    using b(4) by (simp add: k_def sz_def [symmetric] mod_0_imp_dvd)
  then have k: "1 \<le> k" using b(5) by (cases k) auto
  have "int k * 1 \<le> int k * sz" using sz by (intro mult_left_mono) auto
  then have kb: "int k < 2 ^ 31" using kz small by simp
  have e: "alloc_segs (s_data_len w + s_pad w) sz oks 0 = (if k \<le> length oks \<and> list_all id (take k oks) then Some k else None)"
    unfolding kz [symmetric] alloc_segs_eq [OF sz] by simp
  show "alloc_send_rmpp_list v mad oks junk w = None" if "\<not> (k \<le> length oks \<and> list_all id (take k oks))"
    using that e unfolding alloc_send_rmpp_list_def Let_def sz_def [symmetric] by simp
  assume "k \<le> length oks" "list_all id (take k oks)"
  then have e: "alloc_segs (s_data_len w + s_pad w) sz oks 0 = Some k" using e by simp
  define seg last_seg where "seg = take (nat sz) (junk @ replicate (nat sz) 0)"
    and "last_seg = take (nat (sz - s_pad w)) seg @ replicate (nat (s_pad w)) 0"
  have len: "length seg = nat sz" "length last_seg = nat sz"
    using b(1,2) by (auto simp: seg_def last_seg_def min_def)
  define h where "h = ib_set_rmpp_flags IB_MGMT_RMPP_FLAG_ACTIVE ((rmpp_hdr (s_mad w))\<lparr>rmpp_version := v, rmpp_type := IB_MGMT_RMPP_TYPE_DATA\<rparr>)"
  have act: "active_data ((s_mad w)\<lparr>rmpp_hdr := h\<rparr>)"
    by (simp add: active_data_def h_def ib_set_rmpp_flags_def ib_get_rmpp_flags_def has_flag_def flag_defs bit.conj_disj_distrib2 and.assoc)
  let ?w = "w\<lparr>s_seg_size := sz, s_seg_rmpp_size := mad - 36, s_seg_count := s_seg_count w + int k,
      s_segs := replicate (k - 1) seg @ [last_seg], s_mad := (s_mad w)\<lparr>rmpp_hdr := h\<rparr>, s_cur_seg := 1, s_last_ack_seg := 1\<rparr>"
  have r: "alloc_send_rmpp_list v mad oks junk w = Some ?w"
    using e k unfolding alloc_send_rmpp_list_def Let_def sz_def [symmetric] seg_def [symmetric] last_seg_def [symmetric] h_def [symmetric] by simp
  have "new_msg ?w" using w(1) k kb act by (simp add: new_msg_def fresh_wr_def)
  moreover have "s_seg_count ?w * s_seg_size ?w = s_data_len w + s_pad w" using w(1) kz by (simp add: fresh_wr_def)
  moreover have "list_all (\<lambda>d. int (length d) = sz) (replicate (k - 1) seg @ [last_seg])" using len sz by (simp add: list_all_iff)
  moreover have "drop (nat (sz - s_pad w)) last_seg = replicate (nat (s_pad w)) 0" using len(1) b(1,2) by (simp add: last_seg_def min_def)
  then have "list_all (\<lambda>b. b = 0) (drop (nat (sz - s_pad w)) (last (replicate (k - 1) seg @ [last_seg])))" by (simp add: list_all_iff)
  ultimately show "\<exists>w'. alloc_send_rmpp_list v mad oks junk w = Some w' \<and> new_msg w' \<and>
      s_seg_count w' * s_seg_size w' = s_data_len w + s_pad w \<and> list_all (\<lambda>d. int (length d) = s_seg_size w') (s_segs w') \<and>
      list_all (\<lambda>b. b = 0) (drop (nat (s_seg_size w' - s_pad w)) (last (s_segs w')))"
    unfolding r by simp
qed

section \<open>Steps of one send\<close>

definition pending :: "mad_agent \<Rightarrow> nat set" where
  "pending s = set (wait_list s) \<union> set (t_send_list s)"

lemma pending_upd [simp]: "pending (s\<lparr>completed := c\<rparr>) = pending s" "pending (s\<lparr>rx := r\<rparr>) = pending s"
  "pending (s\<lparr>wire := w\<rparr>) = pending s" "pending (s\<lparr>timed_work := t\<rparr>) = pending s"
  by (simp_all add: pending_def)

text \<open>
  What a handler may do to the send \<open>x\<close>: only its record changes, it stays a send of the message
  \<open>w0\<close>, and the datagrams it adds to the wire are segments of the message. Under \<open>strict\<close> the window holds.
\<close>

definition one_step :: "bool \<Rightarrow> mad_send_wr \<Rightarrow> nat \<Rightarrow> mad_agent \<Rightarrow> mad_agent \<Rightarrow> bool" where
  "one_step strict w0 x s s' \<longleftrightarrow> (\<forall>y. y \<noteq> x \<longrightarrow> twrs s' y = twrs s y) \<and> pending s' \<subseteq> insert x (pending s) \<and>
     (\<exists>ms. wire s' = wire s @ map (Pair x) ms \<and>
        (\<forall>m \<in> set ms. \<exists>i. 1 \<le> i \<and> i \<le> s_seg_count w0 \<and> m = seg_mad w0 i \<and> (strict \<longrightarrow> i \<le> s_newwin (twrs s' x)))) \<and>
     wr_ok w0 (twrs s' x) \<and> (strict \<longrightarrow> win_ok (twrs s' x) \<and> s_newwin (twrs s x) \<le> s_newwin (twrs s' x)) \<and>
     kernel_rmpp s' = kernel_rmpp s \<and> rmpp_recvs (rx s') = rmpp_recvs (rx s) \<and> recv_handled s' = recv_handled s"

lemma one_step_quiet:
  assumes "\<forall>y. y \<noteq> x \<longrightarrow> twrs s' y = twrs s y" "pending s' \<subseteq> insert x (pending s)" "wire s' = wire s"
    "wr_ok w0 (twrs s' x)" "strict \<longrightarrow> win_ok (twrs s' x) \<and> s_newwin (twrs s x) \<le> s_newwin (twrs s' x)" "kernel_rmpp s' = kernel_rmpp s" "rmpp_recvs (rx s') = rmpp_recvs (rx s)"
    "recv_handled s' = recv_handled s"
  shows "one_step strict w0 x s s'"
  using assms unfolding one_step_def by auto

lemma one_step_trans:
  assumes "one_step strict w0 x s s1" "one_step strict w0 x s1 s2"
  shows "one_step strict w0 x s s2"
proof -
  obtain ms1 where ms1: "wire s1 = wire s @ map (Pair x) ms1"
    "\<forall>m \<in> set ms1. \<exists>i. 1 \<le> i \<and> i \<le> s_seg_count w0 \<and> m = seg_mad w0 i \<and> (strict \<longrightarrow> i \<le> s_newwin (twrs s1 x))"
    using assms(1) by (auto simp: one_step_def)
  obtain ms2 where ms2: "wire s2 = wire s1 @ map (Pair x) ms2"
    "\<forall>m \<in> set ms2. \<exists>i. 1 \<le> i \<and> i \<le> s_seg_count w0 \<and> m = seg_mad w0 i \<and> (strict \<longrightarrow> i \<le> s_newwin (twrs s2 x))"
    using assms(2) by (auto simp: one_step_def)
  have mono: "strict \<longrightarrow> s_newwin (twrs s1 x) \<le> s_newwin (twrs s2 x)" using assms(2) by (simp add: one_step_def)
  have "wire s2 = wire s @ map (Pair x) (ms1 @ ms2)" using ms1(1) ms2(1) by simp
  moreover have "\<forall>m \<in> set (ms1 @ ms2). \<exists>i. 1 \<le> i \<and> i \<le> s_seg_count w0 \<and> m = seg_mad w0 i \<and> (strict \<longrightarrow> i \<le> s_newwin (twrs s2 x))"
  proof
    fix m
    assume "m \<in> set (ms1 @ ms2)"
    then consider "m \<in> set ms1" | "m \<in> set ms2" by auto
    then show "\<exists>i. 1 \<le> i \<and> i \<le> s_seg_count w0 \<and> m = seg_mad w0 i \<and> (strict \<longrightarrow> i \<le> s_newwin (twrs s2 x))"
    proof cases
      case 1
      then obtain i where "1 \<le> i" "i \<le> s_seg_count w0" "m = seg_mad w0 i" "strict \<longrightarrow> i \<le> s_newwin (twrs s1 x)"
        using ms1(2) by blast
      then show ?thesis using mono by (intro exI [of _ i]) auto
    next
      case 2
      then show ?thesis using ms2(2) by blast
    qed
  qed
  moreover have "pending s2 \<subseteq> insert x (pending s)" "\<forall>y. y \<noteq> x \<longrightarrow> twrs s2 y = twrs s y" "kernel_rmpp s2 = kernel_rmpp s" "rmpp_recvs (rx s2) = rmpp_recvs (rx s)"
    "recv_handled s2 = recv_handled s"
    using assms by (auto simp: one_step_def)
  moreover have "strict \<longrightarrow> win_ok (twrs s2 x) \<and> s_newwin (twrs s x) \<le> s_newwin (twrs s2 x)" "wr_ok w0 (twrs s2 x)"
    using assms mono by (auto simp: one_step_def)
  ultimately show ?thesis unfolding one_step_def by (intro conjI exI [of _ "ms1 @ ms2"])
qed

lemma send_handler_simps [simp]: "twrs (send_handler x st v s) = twrs s" "wire (send_handler x st v s) = wire s"
  "kernel_rmpp (send_handler x st v s) = kernel_rmpp s" "rx (send_handler x st v s) = rx s" "wait_list (send_handler x st v s) = wait_list s"
  "t_send_list (send_handler x st v s) = t_send_list s" "completed (send_handler x st v s) = completed s @ [(x, st, v)]"
  "pending (send_handler x st v s) = pending s" "recv_handled (send_handler x st v s) = recv_handled s"
  by (simp_all add: send_handler_def Let_def pending_def)

lemma set_wr_simps [simp]: "twrs (set_wr x w s) = (twrs s)(x := w)" "wait_list (set_wr x w s) = wait_list s"
  "t_send_list (set_wr x w s) = t_send_list s" "done_list (set_wr x w s) = done_list s" "wire (set_wr x w s) = wire s"
  "rx (set_wr x w s) = rx s" "completed (set_wr x w s) = completed s" "kernel_rmpp (set_wr x w s) = kernel_rmpp s"
  "pending (set_wr x w s) = pending s" "t_timeout (set_wr x w s) = t_timeout s" "agent_refs (set_wr x w s) = agent_refs s" "recv_handled (set_wr x w s) = recv_handled s"
  by (simp_all add: set_wr_def pending_def)

lemma list_del_simps [simp]: "twrs (list_del x s) = twrs s" "wire (list_del x s) = wire s" "kernel_rmpp (list_del x s) = kernel_rmpp s"
  "rx (list_del x s) = rx s" "completed (list_del x s) = completed s" "recv_handled (list_del x s) = recv_handled s"
  by (simp_all add: list_del_def)

lemma fail_send_simps [simp]: "twrs (fail_send x s) = twrs s" "wire (fail_send x s) = wire s" "kernel_rmpp (fail_send x s) = kernel_rmpp s"
  "rx (fail_send x s) = rx s" "completed (fail_send x s) = completed s" "recv_handled (fail_send x s) = recv_handled s"
  by (simp_all add: fail_send_def Let_def)

lemma requeue_send_simps [simp]: "twrs (requeue_send x s) = (twrs s)(x := (twrs s x)\<lparr>s_refcount := s_refcount (twrs s x) + 1\<rparr>)"
  "wire (requeue_send x s) = wire s" "kernel_rmpp (requeue_send x s) = kernel_rmpp s" "rx (requeue_send x s) = rx s"
  "recv_handled (requeue_send x s) = recv_handled s" "completed (requeue_send x s) = completed s" "wait_list (requeue_send x s) = wait_list s" "t_send_list (requeue_send x s) = t_send_list s @ [x]"
  by (simp_all add: requeue_send_def Let_def)

lemma pending_list_del: "pending (list_del x s) \<subseteq> pending s"
  using set_remove1_subset [of x "wait_list s"] set_remove1_subset [of x "t_send_list s"] by (auto simp: pending_def list_del_def)

lemma pending_fail_send: "pending (fail_send x s) \<subseteq> pending s"
  using pending_list_del [of x s] by (simp add: fail_send_def Let_def pending_def)

lemma seg_mad_upd [simp]: "seg_mad (w\<lparr>s_timeout := a\<rparr>) = seg_mad w" "seg_mad (w\<lparr>s_refcount := b\<rparr>) = seg_mad w"
  "seg_mad (w\<lparr>s_status := c\<rparr>) = seg_mad w" "seg_mad (w\<lparr>s_retries_left := d\<rparr>) = seg_mad w" "seg_mad (w\<lparr>s_newwin := e\<rparr>) = seg_mad w"
  "seg_mad (w\<lparr>s_cur_seg := f\<rparr>) = seg_mad w" "seg_mad (w\<lparr>s_seg_num := g\<rparr>) = seg_mad w" "seg_mad (w\<lparr>s_last_ack := h\<rparr>) = seg_mad w"
  "seg_mad (w\<lparr>s_last_ack_seg := i\<rparr>) = seg_mad w" "seg_mad (w\<lparr>s_retries := j\<rparr>) = seg_mad w" "seg_mad (w\<lparr>s_max_retries := k\<rparr>) = seg_mad w"
  "seg_mad (w\<lparr>s_tid := l\<rparr>) = seg_mad w" "seg_mad (w\<lparr>s_timeout_ms := m\<rparr>) = seg_mad w"
  by (rule seg_mad_cong; simp)+

lemma wr_ok_upd [simp]: "wr_ok w0 (w\<lparr>s_timeout := a\<rparr>) = wr_ok w0 w" "wr_ok w0 (w\<lparr>s_refcount := b\<rparr>) = wr_ok w0 w"
  "wr_ok w0 (w\<lparr>s_status := c\<rparr>) = wr_ok w0 w" "wr_ok w0 (w\<lparr>s_retries_left := d\<rparr>) = wr_ok w0 w" "wr_ok w0 (w\<lparr>s_newwin := e\<rparr>) = wr_ok w0 w"
  "wr_ok w0 (w\<lparr>s_retries := j\<rparr>) = wr_ok w0 w" "wr_ok w0 (w\<lparr>s_max_retries := k\<rparr>) = wr_ok w0 w" "wr_ok w0 (w\<lparr>s_tid := l\<rparr>) = wr_ok w0 w"
  "wr_ok w0 (w\<lparr>s_timeout_ms := m\<rparr>) = wr_ok w0 w" "wr_ok w0 (flush_send w) = wr_ok w0 w"
  by (simp_all add: wr_ok_def flush_send_def)

lemma win_ok_upd [simp]: "win_ok (w\<lparr>s_timeout := a\<rparr>) = win_ok w" "win_ok (w\<lparr>s_refcount := b\<rparr>) = win_ok w"
  "win_ok (w\<lparr>s_status := c\<rparr>) = win_ok w" "win_ok (w\<lparr>s_retries_left := d\<rparr>) = win_ok w" "win_ok (w\<lparr>s_retries := j\<rparr>) = win_ok w"
  "win_ok (w\<lparr>s_timeout_ms := m\<rparr>) = win_ok w" "win_ok (flush_send w) = win_ok w"
  by (simp_all add: win_ok_def flush_send_def)

text \<open>The state of a send that a handler finds.\<close>

abbreviation at_ok :: "bool \<Rightarrow> mad_send_wr \<Rightarrow> nat \<Rightarrow> mad_agent \<Rightarrow> bool" where
  "at_ok strict w0 x s \<equiv> new_msg w0 \<and> wr_ok w0 (twrs s x) \<and> (strict \<longrightarrow> win_ok (twrs s x))"

lemma send_next_seg_step:
  assumes w0: "new_msg w0" and ok: "wr_ok w0 (twrs s x)" and n: "s_seg_num (twrs s x) < s_seg_count (twrs s x)"
    and win: "strict \<longrightarrow> s_seg_num (twrs s x) < s_newwin (twrs s x) \<and>
        (s_last_ack (twrs s x) < s_newwin (twrs s x) \<or> s_last_ack (twrs s x) = s_seg_count (twrs s x))"
  shows "\<exists>ret s'. send_next_seg env x s = Some (ret, s') \<and> one_step strict w0 x s s' \<and> wait_list s' = wait_list s \<and>
    t_send_list s' = t_send_list s \<and> completed s' = completed s \<and> rx s' = rx s \<and>
    s_refcount (twrs s' x) = s_refcount (twrs s x) \<and> s_seg_num (twrs s' x) = s_seg_num (twrs s x) + 1 \<and>
    s_newwin (twrs s' x) = s_newwin (twrs s x)"
proof -
  let ?w = "twrs s x" and ?n = "s_seg_num (twrs s x) + 1"
  define w1 where "w1 = (let wr = next_seg_hdr ?w in if s_timeout_ms wr = 0 \<or> sint (s_timeout_ms wr) > 2000 then wr\<lparr>s_timeout := tx_m2j env 2000\<rparr> else wr)"
  have f: "s_seg_num w1 = ?n" "s_seg_count w1 = s_seg_count ?w" "s_segs w1 = s_segs ?w" "s_newwin w1 = s_newwin ?w"
    "s_last_ack w1 = s_last_ack ?w" "s_refcount w1 = s_refcount ?w" "s_cur_seg w1 = s_cur_seg ?w" "s_last_ack_seg w1 = s_last_ack_seg ?w"
    "s_mad w1 = (s_mad ?w)\<lparr>rmpp_hdr := seg_hdr ?w ?n (rmpp_hdr (s_mad ?w))\<rparr>" "seg_mad w1 = seg_mad ?w"
    using seg_mad_next [of ?w] by (simp_all add: w1_def Let_def next_seg_hdr_def)
  have cnt: "length (s_segs ?w) = nat (s_seg_count ?w)" "0 \<le> s_seg_num ?w" "1 \<le> s_seg_count ?w" using w0 ok by (simp_all add: new_msg_def wr_ok_def)
  have pay: "ib_get_payload w1 = Some (s_segs ?w ! nat (?n - 1), w1\<lparr>s_cur_seg := ?n\<rparr>)"
    using ib_get_rmpp_segment_eq [of ?n w1] cnt n by (simp add: ib_get_payload_def f)
  have act: "active_data (s_mad w1)" using ok seg_hdr_flags(1) by (simp add: f active_data_def wr_ok_def)
  have ok1: "wr_ok w0 w1" "wr_ok w0 (w1\<lparr>s_cur_seg := ?n\<rparr>)"
    using ok n cnt act by (simp_all add: wr_ok_def f)
  have win1: "strict \<longrightarrow> win_ok w1 \<and> win_ok (w1\<lparr>s_cur_seg := ?n\<rparr>)" using win by (auto simp: win_ok_def f)
  have m: "(s_mad w1)\<lparr>mad_data := s_segs ?w ! nat (?n - 1)\<rparr> = seg_mad w0 ?n"
  proof -
    have "seg_mad ?w ?n = seg_mad w0 ?n" using ok by (simp add: wr_ok_def)
    then show ?thesis by (simp add: f seg_mad_def)
  qed
  have e: "send_next_seg env x s = tx_ib_send_mad env x (set_wr x w1 s)" by (simp add: send_next_seg_def w1_def Let_def)
  let ?q1 = "set_wr x w1 s" and ?q2 = "set_wr x (w1\<lparr>s_cur_seg := ?n\<rparr>) s"
  have q1: "one_step strict w0 x s ?q1" "one_step strict w0 x s ?q2"
    using ok1 win1 by (auto intro!: one_step_quiet simp: f)
  have q3: "one_step strict w0 x s (?q2\<lparr>wire := wire s @ [(x, seg_mad w0 ?n)]\<rparr>)"
    using ok1 win1 win n cnt ok unfolding one_step_def
    by (auto simp: f pending_def wr_ok_def intro!: exI [of _ "[seg_mad w0 ?n]"] exI [of _ ?n])
  show ?thesis
    unfolding e tx_ib_send_mad_def
    using q1 q3 pay m by (cases "tx_send env") (auto simp: f set_wr_def)
qed


lemma one_step_refl: "wr_ok w0 (twrs s x) \<Longrightarrow> (strict \<longrightarrow> win_ok (twrs s x)) \<Longrightarrow> one_step strict w0 x s s"
  by (intro one_step_quiet) auto

lemma one_step_set:
  "wr_ok w0 w \<Longrightarrow> (strict \<longrightarrow> win_ok w \<and> s_newwin (twrs s x) \<le> s_newwin w) \<Longrightarrow> one_step strict w0 x s (set_wr x w s)"
  by (intro one_step_quiet) auto

lemma one_step_frame:
  assumes "one_step strict w0 x s s1" "twrs s2 = twrs s1" "wire s2 = wire s1" "pending s2 \<subseteq> insert x (pending s1)" "kernel_rmpp s2 = kernel_rmpp s1" "rmpp_recvs (rx s2) = rmpp_recvs (rx s1)"
    "recv_handled s2 = recv_handled s1"
  shows "one_step strict w0 x s s2"
  using assms unfolding one_step_def by auto

lemma one_step_at: "one_step strict w0 x s s' \<Longrightarrow> wr_ok w0 (twrs s' x) \<and> (strict \<longrightarrow> win_ok (twrs s' x))"
  by (simp add: one_step_def)

lemma one_step_kernel: "one_step strict w0 x s s' \<Longrightarrow> kernel_rmpp s' = kernel_rmpp s"
  by (simp add: one_step_def)

lemma one_step_handled: "one_step strict w0 x s s' \<Longrightarrow> recv_handled s' = recv_handled s"
  by (simp add: one_step_def)

lemma mark_done_step: "at_ok strict w0 x s \<Longrightarrow> one_step strict w0 x s (ib_mark_mad_done x s)"
proof -
  assume at: "at_ok strict w0 x s"
  let ?s = "set_wr x ((twrs s x)\<lparr>s_timeout := 0\<rparr>) s"
  have "one_step strict w0 x s ?s" using at by (intro one_step_set) auto
  moreover have "pending (list_del x ?s) \<subseteq> pending ?s" by (rule pending_list_del)
  ultimately show ?thesis
    by (auto simp: ib_mark_mad_done_def Let_def pending_def intro!: one_step_frame [of strict w0 x s ?s])
qed

lemma insert_Un_mono: "A \<subseteq> A' \<Longrightarrow> B \<subseteq> B' \<Longrightarrow> insert x A \<union> B \<subseteq> insert x (A' \<union> B')"
  by blast

lemma wait_for_response_step:
  assumes at: "at_ok strict w0 x s"
  shows "one_step strict w0 x s (wait_for_response env x s)"
proof (rule one_step_frame)
  let ?s = "set_wr x ((twrs s x)\<lparr>s_timeout := s_timeout (twrs s x) + tx_now env\<rparr>) s"
  show "one_step strict w0 x s ?s" using at by (intro one_step_set) auto
  show "twrs (wait_for_response env x s) = twrs ?s" "wire (wait_for_response env x s) = wire ?s"
    "kernel_rmpp (wait_for_response env x s) = kernel_rmpp ?s" "rmpp_recvs (rx (wait_for_response env x s)) = rmpp_recvs (rx ?s)"
    "recv_handled (wait_for_response env x s) = recv_handled ?s"
    by (simp_all add: wait_for_response_def Let_def list_del_def)
  have e: "set (wait_list (wait_for_response env x s)) = insert x (set (remove1 x (wait_list s)))"
    "t_send_list (wait_for_response env x s) = remove1 x (t_send_list s)"
    by (simp_all add: wait_for_response_def Let_def list_del_def)
  show "pending (wait_for_response env x s) \<subseteq> insert x (pending ?s)"
    unfolding pending_def set_wr_simps e by (rule insert_Un_mono) (rule set_remove1_subset)+
qed

lemma adjust_timeout_frame: "twrs (adjust_timeout env s) = twrs s" "wire (adjust_timeout env s) = wire s"
  "pending (adjust_timeout env s) = pending s" "kernel_rmpp (adjust_timeout env s) = kernel_rmpp s" "wait_list (adjust_timeout env s) = wait_list s"
  "rx (adjust_timeout env s) = rx s" "recv_handled (adjust_timeout env s) = recv_handled s"
  by (auto simp: adjust_timeout_def pending_def Let_def split: list.split)

lemma process_send_wc_step:
  assumes at: "at_ok strict w0 x s"
  shows "\<exists>res st' s'. ib_process_rmpp_send_wc env x st s = Some (res, st', s') \<and> one_step strict w0 x s s' \<and> res \<noteq> RESULT_INTERNAL"
proof -
  let ?w = "twrs s x"
  have act: "active_data (s_mad ?w)" using at by (simp add: wr_ok_def)
  have self: "one_step strict w0 x s s" "one_step strict w0 x s (set_wr x (?w\<lparr>s_timeout := t\<rparr>) s)" for t
    using at by (auto intro: one_step_refl intro!: one_step_set)
  show ?thesis
  proof (cases "st \<noteq> IB_WC_SUCCESS \<or> s_status ?w \<noteq> IB_WC_SUCCESS \<or> s_timeout ?w = 0 \<or> s_last_ack ?w = s_seg_count ?w \<or>
      s_seg_num ?w = s_newwin ?w \<or> s_seg_num ?w = s_seg_count ?w")
    case True
    then show ?thesis using act self by (auto simp: ib_process_rmpp_send_wc_def active_data_def Let_def)
  next
    case False
    have n: "s_seg_num ?w < s_seg_count ?w" using False at by (simp add: wr_ok_def)
    have "strict \<longrightarrow> s_seg_num ?w < s_newwin ?w \<and> (s_last_ack ?w < s_newwin ?w \<or> s_last_ack ?w = s_seg_count ?w)"
      using False at by (auto simp: win_ok_def)
    then obtain ret s' where "send_next_seg env x s = Some (ret, s')" "one_step strict w0 x s s'"
      using send_next_seg_step [of w0 s x strict env] at n by blast
    then show ?thesis using act False by (auto simp: ib_process_rmpp_send_wc_def active_data_def Let_def)
  qed
qed

lemma complete_send_step:
  assumes at: "at_ok strict w0 x s" and k: "kernel_rmpp s"
  shows "\<exists>s'. ib_mad_complete_send_wr env x st v s = Some s' \<and> one_step strict w0 x s s'"
proof -
  obtain res st' s1 where p: "ib_process_rmpp_send_wc env x st s = Some (res, st', s1)" "one_step strict w0 x s s1" "res \<noteq> RESULT_INTERNAL"
    using process_send_wc_step [OF at] by blast
  show ?thesis
  proof (cases "res = RESULT_CONSUMED")
    case True
    then show ?thesis using p k by (simp add: ib_mad_complete_send_wr_def)
  next
    case False
    let ?w = "twrs s1 x"
    define w2 where "w2 = (let wr = (if st' \<noteq> IB_WC_SUCCESS \<and> s_status ?w = IB_WC_SUCCESS
        then ?w\<lparr>s_status := st', s_refcount := s_refcount ?w - (if s_timeout ?w > 0 then 1 else 0)\<rparr> else ?w)
        in wr\<lparr>s_refcount := s_refcount wr - 1\<rparr>)"
    have at1: "wr_ok w0 ?w" "strict \<longrightarrow> win_ok ?w" using one_step_at [OF p(2)] by auto
    have w2: "wr_ok w0 w2" "strict \<longrightarrow> win_ok w2 \<and> s_newwin ?w \<le> s_newwin w2"
      using at1 by (auto simp: w2_def Let_def)
    let ?s = "set_wr x w2 s1"
    have st1: "one_step strict w0 x s ?s" using one_step_trans [OF p(2)] one_step_set [OF w2] by blast
    have st2: "one_step strict w0 x s (wait_for_response env x ?s)"
      using one_step_trans [OF st1] wait_for_response_step [of w0 ?s x strict env] at w2 by simp
    have st3: "one_step strict w0 x s (send_handler x st2 v (adjust_timeout env (list_del x ?s)))" for st2
      using pending_list_del [of x ?s] by (intro one_step_frame [OF st1]) (auto simp: adjust_timeout_frame)
    have "ib_mad_complete_send_wr env x st v s =
        (if s_refcount w2 > 0 then Some (if s_refcount w2 = 1 \<and> s_timeout w2 \<noteq> 0 \<and> s_status w2 = IB_WC_SUCCESS
           then wait_for_response env x ?s else ?s)
         else Some (let s = adjust_timeout env (list_del x ?s); st = (if s_status w2 \<noteq> IB_WC_SUCCESS then s_status w2 else st')
              in send_handler x st v s))"
      using p(1,3) k False by (simp add: ib_mad_complete_send_wr_def w2_def Let_def)
    then show ?thesis using st1 st2 st3 by (auto simp: Let_def)
  qed
qed


lemma find_send_in: "find P xs = Some x \<Longrightarrow> x \<in> set xs"
  by (induction xs) (auto split: if_splits)

lemma find_send_pending: "ib_find_send_mad env s wc = Some x \<Longrightarrow> x \<in> pending s"
  by (auto simp: ib_find_send_mad_def pending_def Let_def split: option.splits if_splits dest: find_send_in)

text \<open>What a received datagram does: it changes the receive side only, or one pending send.\<close>

definition tx_step :: "bool \<Rightarrow> (nat \<Rightarrow> mad_send_wr) \<Rightarrow> mad_agent \<Rightarrow> mad_agent \<Rightarrow> bool" where
  "tx_step strict w0 s s' \<longleftrightarrow> (\<exists>r. s' = s\<lparr>rx := r\<rparr> \<and> (agent_ok (rx s) \<longrightarrow> agent_ok r)) \<or>
     (\<exists>x \<in> pending s. one_step strict (w0 x) x s s')"

lemma agent_ok_cong: "rmpp_recvs r = rmpp_recvs q \<Longrightarrow> agent_ok r = agent_ok q"
  by (simp add: agent_ok_def held_def)

lemma tx_step_rx: "(agent_ok (rx s) \<longrightarrow> agent_ok r) \<Longrightarrow> tx_step strict w0 s (s\<lparr>rx := r\<rparr>)"
  by (auto simp: tx_step_def)

lemma tx_step_refl: "tx_step strict w0 s s"
  using tx_step_rx [of s "rx s"] by simp

lemma tx_step_one: "x \<in> pending s \<Longrightarrow> one_step strict (w0 x) x s s' \<Longrightarrow> tx_step strict w0 s s'"
  by (auto simp: tx_step_def)

lemma tx_step_then_rx:
  assumes "tx_step strict w0 s s1" "rmpp_recvs r = rmpp_recvs (rx s1)"
  shows "tx_step strict w0 s (s1\<lparr>rx := r\<rparr>)"
  using assms(1) unfolding tx_step_def [of strict w0 s s1]
proof (elim disjE exE conjE bexE)
  fix q
  assume "s1 = s\<lparr>rx := q\<rparr>" "agent_ok (rx s) \<longrightarrow> agent_ok q"
  then show ?thesis using agent_ok_cong [OF assms(2)] tx_step_rx [of s r] by simp
next
  fix x
  assume x: "x \<in> pending s" "one_step strict (w0 x) x s s1"
  have "one_step strict (w0 x) x s (s1\<lparr>rx := r\<rparr>)"
    using assms(2) by (intro one_step_frame [OF x(2)]) (simp_all add: subset_insertI)
  then show ?thesis by (rule tx_step_one [OF x(1)])
qed

lemma ack_ds_ack_recvs: "rmpp_recvs (ack_ds_ack env wc ag) = rmpp_recvs ag"
  by (auto simp: ack_ds_ack_def alloc_response_msg_def post_response_def Let_def split: option.split)

lemma abort_send_step:
  assumes inv: "\<And>x. x \<in> pending s \<Longrightarrow> at_ok strict (w0 x) x s" and k: "kernel_rmpp s"
  shows "\<exists>s'. abort_send env wc st s = Some s' \<and> tx_step strict w0 s s'"
proof (cases "ib_find_send_mad env s wc")
  case None
  then show ?thesis by (simp add: abort_send_def tx_step_refl)
next
  case (Some x)
  have x: "x \<in> pending s" using Some by (rule find_send_pending)
  have md: "one_step strict (w0 x) x s (ib_mark_mad_done x s)" by (rule mark_done_step [OF inv [OF x]])
  have "at_ok strict (w0 x) x (ib_mark_mad_done x s)" using one_step_at [OF md] inv [OF x] by blast
  then obtain s' where "ib_mad_complete_send_wr env x IB_WC_REM_ABORT_ERR st (ib_mark_mad_done x s) = Some s'"
    "one_step strict (w0 x) x (ib_mark_mad_done x s) s'"
    using complete_send_step [of "w0 x" "ib_mark_mad_done x s" x strict env IB_WC_REM_ABORT_ERR st] one_step_kernel [OF md] k by blast
  then show ?thesis
    using Some tx_step_one [of x s strict w0 s', OF x one_step_trans [OF md]] tx_step_refl by (auto simp: abort_send_def Let_def)
qed

lemma abort_and_nack_step:
  assumes "\<And>x. x \<in> pending s \<Longrightarrow> at_ok strict (w0 x) x s" "kernel_rmpp s"
  shows "\<exists>s'. abort_and_nack env wc st s = Some s' \<and> tx_step strict w0 s s'"
proof -
  obtain s1 where "abort_send env wc st s = Some s1" "tx_step strict w0 s s1" using abort_send_step [OF assms] by blast
  then show ?thesis by (simp add: abort_and_nack_def nack_def tx_step_then_rx nack_recv_frame)
qed

lemma stop_abort_step:
  assumes "\<And>x. x \<in> pending s \<Longrightarrow> at_ok strict (w0 x) x s" "kernel_rmpp s"
  shows "\<exists>s'. process_rmpp_stop env wc s = Some s' \<and> tx_step strict w0 s s'"
    "\<exists>s'. process_rmpp_abort env wc s = Some s' \<and> tx_step strict w0 s s'"
  using abort_send_step [OF assms, of env wc] abort_and_nack_step [OF assms, of env wc]
  by (simp_all add: process_rmpp_stop_def process_rmpp_abort_def Let_def)

lemma process_ds_ack_step: "tx_step strict w0 s (process_ds_ack wc nw s)"
proof (cases "find_rmpp_recv (rx s) wc")
  case None
  then show ?thesis by (simp add: process_ds_ack_def tx_step_refl)
next
  case (Some i)
  let ?rs = "rmpp_recvs (rx s)"
  have i: "i < length ?rs" using Some by (auto simp: find_rmpp_recv_def dest: find_index_Some)
  let ?r = "(?rs ! i)\<lparr>repwin := nw\<rparr>"
  have key: "recv_key ?r = recv_key (?rs ! i)" "recv_segs ?r = recv_segs (?rs ! i)" "held_by ?r = held_by (?rs ! i)"
    by (simp_all add: recv_key_def recv_segs_def held_by_def)
  have ok: "recv_ok ?r = recv_ok (?rs ! i)" unfolding recv_ok_def key by (simp add: recv_key_def)
  have eqs: "map f (?rs[i := ?r]) = map f ?rs" if "f ?r = f (?rs ! i)" for f :: "mad_rmpp_recv \<Rightarrow> 'c"
    using that i by (metis list_update_id map_update)
  have "agent_ok (rx s) \<longrightarrow> agent_ok ((rx s)\<lparr>rmpp_recvs := ?rs[i := ?r]\<rparr>)"
  proof
    assume a: "agent_ok (rx s)"
    have "\<forall>r \<in> set (?rs[i := ?r]). recv_ok r"
      using a ok i set_update_subset_insert [of ?rs i ?r] nth_mem [OF i] unfolding agent_ok_def by blast
    then show "agent_ok ((rx s)\<lparr>rmpp_recvs := ?rs[i := ?r]\<rparr>)"
      using a eqs [of recv_key] eqs [of held_by] key by (simp add: agent_ok_def held_def)
  qed
  then show ?thesis using Some by (simp add: process_ds_ack_def Let_def tx_step_refl tx_step_rx)
qed

text \<open>
  An acknowledgement is open when it grants more than the segment it acknowledges, unless that is the
  last segment.
\<close>

definition open_ack :: "tx_env \<Rightarrow> ib_mad_recv_wc \<Rightarrow> mad_agent \<Rightarrow> bool" where
  "open_ack env wc s \<longleftrightarrow> (case ib_find_send_mad env s wc of None \<Rightarrow> True
     | Some x \<Rightarrow> let h = rmpp_hdr (rb_mad (recv_buf wc))
                 in sint (hdr_seg_num h) < sint (paylen_newwin h) \<or> sint (hdr_seg_num h) = s_seg_count (twrs s x))"

lemma acked_ok:
  assumes "wr_ok w0 w" "strict \<longrightarrow> win_ok w" "n \<le> s_seg_count w" "s_newwin w \<le> nw" "s_last_ack w \<le> n"
    "strict \<longrightarrow> n < nw \<or> n = s_seg_count w"
  defines "w' \<equiv> (if n > s_last_ack w then (adjust_last_ack n w)\<lparr>s_retries_left := s_max_retries w\<rparr> else w)\<lparr>s_newwin := nw\<rparr>"
  shows "wr_ok w0 w' \<and> (strict \<longrightarrow> win_ok w' \<and> s_newwin w \<le> s_newwin w') \<and> s_last_ack w' = n"
proof (cases "n > s_last_ack w")
  case True
  have "adjust_last_ack n w = w\<lparr>s_last_ack := n, s_last_ack_seg := n\<rparr>"
    using assms(1,3) True by (intro adjust_last_ack_eq) (simp_all add: wr_ok_def)
  then show ?thesis using assms(1-6) True by (auto simp: w'_def wr_ok_def win_ok_def)
next
  case False
  then show ?thesis using assms(1-6) by (auto simp: w'_def win_ok_def)
qed

lemma one_step_resent:
  assumes "one_step strict w0 x s s1"
  shows "one_step strict w0 x s (let s2 = list_del x (set_wr x ((twrs s1 x)\<lparr>s_refcount := k\<rparr>) s1) in s2\<lparr>t_send_list := t_send_list s2 @ [x]\<rparr>)"
proof -
  let ?s = "set_wr x ((twrs s1 x)\<lparr>s_refcount := k\<rparr>) s1"
  have a: "one_step strict w0 x s ?s"
    using one_step_trans [OF assms] one_step_at [OF assms] one_step_set [of w0 "(twrs s1 x)\<lparr>s_refcount := k\<rparr>" strict s1 x] by simp
  have b: "pending ((list_del x ?s)\<lparr>t_send_list := t_send_list (list_del x ?s) @ [x]\<rparr>) \<subseteq> insert x (pending ?s)"
    using pending_list_del [of x ?s] by (auto simp: pending_def)
  show ?thesis unfolding Let_def by (rule one_step_frame [OF a _ _ b]) simp_all
qed

lemma ack_send_step:
  assumes x: "x \<in> pending s" and w0: "new_msg (w0 x)" and st: "one_step strict (w0 x) x s s1" and k: "kernel_rmpp s"
  shows "\<exists>s'. ack_send env wc x s1 = Some s' \<and> tx_step strict w0 s s'"
proof -
  let ?w = "twrs s1 x"
  have at: "at_ok strict (w0 x) x s1" using one_step_at [OF st] w0 by blast
  have to: "tx_step strict w0 s s'" if "one_step strict (w0 x) x s1 s'" for s'
    by (rule tx_step_one [of x s strict w0 s', OF x one_step_trans [OF st that]])
  consider (all) "s_last_ack ?w = s_seg_count ?w" "s_timeout_ms ?w = 0"
    | (response) "s_last_ack ?w = s_seg_count ?w" "s_timeout_ms ?w \<noteq> 0"
    | (more) "s_last_ack ?w \<noteq> s_seg_count ?w" "s_refcount ?w = 1 \<and> s_seg_num ?w < s_newwin ?w \<and> s_seg_num ?w < s_seg_count ?w"
    | (wait) "s_last_ack ?w \<noteq> s_seg_count ?w" "\<not> (s_refcount ?w = 1 \<and> s_seg_num ?w < s_newwin ?w \<and> s_seg_num ?w < s_seg_count ?w)"
    by blast
  then show ?thesis
  proof cases
    case all
    have md: "one_step strict (w0 x) x s1 (ib_mark_mad_done x s1)" by (rule mark_done_step [OF at])
    have "at_ok strict (w0 x) x (ib_mark_mad_done x s1)" using one_step_at [OF md] w0 by blast
    moreover have "kernel_rmpp (ib_mark_mad_done x s1)" using one_step_kernel [OF md] one_step_kernel [OF st] k by simp
    ultimately obtain s' where "ib_mad_complete_send_wr env x IB_WC_SUCCESS 0 (ib_mark_mad_done x s1) = Some s'"
      "one_step strict (w0 x) x (ib_mark_mad_done x s1) s'" using complete_send_step by blast
    then show ?thesis using all to [OF one_step_trans [OF md]] by (simp add: ack_send_def Let_def)
  next
    case response
    let ?s = "set_wr x (?w\<lparr>s_timeout := tx_m2j env (s_timeout_ms ?w)\<rparr>) s1"
    have a: "one_step strict (w0 x) x s1 ?s" using at by (intro one_step_set) auto
    have "at_ok strict (w0 x) x ?s" using at by simp
    then have "one_step strict (w0 x) x s1 (ib_reset_mad_timeout env x (s_timeout_ms ?w) s1)"
      unfolding ib_reset_mad_timeout_def by (rule one_step_trans [OF a wait_for_response_step])
    then have "tx_step strict w0 s (if s_refcount ?w = 1 then ib_reset_mad_timeout env x (s_timeout_ms ?w) s1 else s1)"
      using to tx_step_one [of x s strict w0 s1, OF x st] by simp
    then show ?thesis using response tx_step_then_rx ack_ds_ack_recvs by (simp add: ack_send_def Let_def)
  next
    case more
    have "strict \<longrightarrow> s_seg_num ?w < s_newwin ?w \<and> (s_last_ack ?w < s_newwin ?w \<or> s_last_ack ?w = s_seg_count ?w)"
      using more at by (auto simp: win_ok_def)
    then obtain ret s2 where r: "send_next_seg env x s1 = Some (ret, s2)" "one_step strict (w0 x) x s1 s2"
      using send_next_seg_step [of "w0 x" s1 x strict env] at more by blast
    then show ?thesis using more to [OF r(2)] to [OF one_step_resent [OF r(2)]] by (simp add: ack_send_def Let_def)
  next
    case wait
    then have "ack_send env wc x s1 = Some s1" unfolding ack_send_def Let_def by (simp only: if_False simp_thms)
    then show ?thesis using tx_step_one [of x s strict w0 s1, OF x st] by simp
  qed
qed

lemma process_rmpp_ack_step:
  assumes inv: "\<And>x. x \<in> pending s \<Longrightarrow> at_ok strict (w0 x) x s" and k: "kernel_rmpp s" and opn: "strict \<longrightarrow> open_ack env wc s"
  shows "\<exists>s'. process_rmpp_ack env wc s = Some s' \<and> tx_step strict w0 s s'"
proof -
  define h where "h = rmpp_hdr (rb_mad (recv_buf wc))"
  define n nw where "n = sint (hdr_seg_num h)" and "nw = sint (paylen_newwin h)"
  note ab = abort_and_nack_step [OF inv k, of env wc]
  show ?thesis
  proof (cases "rmpp_status h \<noteq> 0 \<or> nw < n")
    case True
    then show ?thesis
      using ab unfolding process_rmpp_ack_def Let_def h_def [symmetric] n_def [symmetric] nw_def [symmetric] by simp
  next
    case ok: False
    show ?thesis
    proof (cases "ib_find_send_mad env s wc")
      case None
      then show ?thesis
        using ok process_ds_ack_step tx_step_refl
        unfolding process_rmpp_ack_def Let_def h_def [symmetric] n_def [symmetric] nw_def [symmetric] by simp
    next
      case (Some x)
      let ?w = "twrs s x"
      have x: "x \<in> pending s" using Some by (rule find_send_pending)
      define w where "w = (if n > s_last_ack ?w then (adjust_last_ack n ?w)\<lparr>s_retries_left := s_max_retries ?w\<rparr> else ?w)\<lparr>s_newwin := nw\<rparr>"
      have e: "process_rmpp_ack env wc s =
        (if s_last_ack ?w = s_seg_count ?w \<and> s_timeout ?w \<noteq> 0 then Some (s\<lparr>rx := ack_ds_ack (tx_rx env) wc (rx s)\<rparr>)
         else if s_last_ack ?w = s_seg_count ?w \<or> s_timeout ?w = 0 \<or> s_status ?w \<noteq> IB_WC_SUCCESS then Some s
         else if n > s_seg_count ?w \<or> n > s_newwin ?w then abort_and_nack env wc IB_MGMT_RMPP_STATUS_S2B s
         else if nw < s_newwin ?w \<or> n < s_last_ack ?w then Some s
         else ack_send env wc x (set_wr x w s))"
        using ok Some unfolding process_rmpp_ack_def Let_def h_def [symmetric] n_def [symmetric] nw_def [symmetric]
        by (simp add: w_def)
      show ?thesis
      proof (cases "n \<le> s_seg_count ?w \<and> s_newwin ?w \<le> nw \<and> s_last_ack ?w \<le> n")
        case True
        have "wr_ok (w0 x) w \<and> (strict \<longrightarrow> win_ok w \<and> s_newwin ?w \<le> s_newwin w) \<and> s_last_ack w = n"
          unfolding w_def using True inv [OF x] opn Some
          by (intro acked_ok) (auto simp: open_ack_def Let_def h_def n_def nw_def)
        then have st: "one_step strict (w0 x) x s (set_wr x w s)" by (intro one_step_set) auto
        obtain s' where "ack_send env wc x (set_wr x w s) = Some s'" "tx_step strict w0 s s'"
          using ack_send_step [of x s w0 strict "set_wr x w s" env wc] x st k inv [OF x] by blast
        then show ?thesis using e ab tx_step_refl tx_step_then_rx [OF tx_step_refl] ack_ds_ack_recvs by simp
      next
        case False
        then show ?thesis using e ab tx_step_refl tx_step_then_rx [OF tx_step_refl] ack_ds_ack_recvs by auto
      qed
    qed
  qed
qed

lemma recv_wc_step:
  assumes inv: "\<And>x. x \<in> pending s \<Longrightarrow> at_ok strict (w0 x) x s" and k: "kernel_rmpp s" and opn: "strict \<longrightarrow> open_ack env wc s"
    and ag: "agent_ok (rx s)" and new: "new_packet wc (rx s)"
  shows "\<exists>res s'. ib_process_rmpp_recv_wc env wc s = Some (res, s') \<and> tx_step strict w0 s s'"
proof -
  have data: "\<exists>res r. process_rmpp_data (tx_rx env) wc (rx s) = Some (res, r) \<and> tx_step strict w0 s (s\<lparr>rx := r\<rparr>)"
    using process_rmpp_data_step [of "rx s" wc "tx_rx env"] data_step_ok [OF _ ag new] ag new tx_step_rx
    unfolding agent_ok_def [of "rx s"] by blast
  have fin: "\<exists>s'. Q = Some s' \<and> tx_step strict w0 s s' \<Longrightarrow>
      \<exists>res s'. map_option (\<lambda>s. (None, s\<lparr>rx := ib_free_recv_mad wc (rx s)\<rparr>)) Q = Some (res, s') \<and> tx_step strict w0 s s'" for Q
    using tx_step_then_rx by (fastforce simp: ib_free_recv_mad_def)
  note cases = fin [OF abort_and_nack_step [OF inv k]] fin [OF process_rmpp_ack_step [OF inv k opn]] fin [OF stop_abort_step(1) [OF inv k]]
    fin [OF stop_abort_step(2) [OF inv k]]
  show ?thesis
    unfolding ib_process_rmpp_recv_wc_def Let_def
    using data cases tx_step_refl [of strict w0 s] by (auto split del: option.split)
qed

lemma retry_send_step:
  assumes at: "at_ok strict w0 x s" and k: "kernel_rmpp s"
  shows "\<exists>ok s'. retry_send env x s = Some (ok, s') \<and> one_step strict w0 x s s' \<and> wait_list s' = wait_list s"
proof (cases "s_retries_left (twrs s x) = 0")
  case True
  then show ?thesis using at by (auto simp: retry_send_def intro: one_step_refl)
next
  case left: False
  define w1 where "w1 = (twrs s x)\<lparr>s_retries_left := s_retries_left (twrs s x) - 1, s_retries := s_retries (twrs s x) + 1,
      s_timeout := tx_m2j env (s_timeout_ms (twrs s x))\<rparr>"
  have ok1: "wr_ok w0 w1" "strict \<longrightarrow> win_ok w1" "s_newwin w1 = s_newwin (twrs s x)" using at by (simp_all add: w1_def)
  have st1: "one_step strict w0 x s (set_wr x w1 s)" using ok1 by (intro one_step_set) auto
  have act: "has_flag (ib_get_rmpp_flags (rmpp_hdr (s_mad w1))) IB_MGMT_RMPP_FLAG_ACTIVE" using ok1 by (simp add: wr_ok_def active_data_def)
  show ?thesis
  proof (cases "s_last_ack w1 = s_seg_count w1")
    case True
    then have "retry_send env x s = Some (False, set_wr x w1 s)"
      using left act k by (simp add: retry_send_def ib_retry_rmpp_def w1_def [symmetric] Let_def)
    then show ?thesis using st1 by auto
  next
    case False
    define w2 where "w2 = w1\<lparr>s_seg_num := s_last_ack w1, s_cur_seg := s_last_ack_seg w1\<rparr>"
    have ok2: "wr_ok w0 w2" "strict \<longrightarrow> win_ok w2" "s_newwin w2 = s_newwin w1" "s_seg_num w2 < s_seg_count w2"
      "strict \<longrightarrow> s_seg_num w2 < s_newwin w2 \<and> (s_last_ack w2 < s_newwin w2 \<or> s_last_ack w2 = s_seg_count w2)"
      using ok1 at False by (auto simp: w2_def wr_ok_def win_ok_def new_msg_def)
    have st2: "one_step strict w0 x s (set_wr x w2 s)" using ok1 ok2 by (intro one_step_set) auto
    obtain ret s2 where r: "send_next_seg env x (set_wr x w2 s) = Some (ret, s2)" "one_step strict w0 x (set_wr x w2 s) s2" "wait_list s2 = wait_list s"
      using send_next_seg_step [of w0 "set_wr x w2 s" x strict env] at ok2 by auto
    have st3: "one_step strict w0 x s s2" using one_step_trans [OF st2 r(2)] .
    have eq: "set_wr x w2 (set_wr x w1 s) = set_wr x w2 s" by (simp add: set_wr_def)
    have e: "retry_send env x s = Some (if ret then (True, requeue_send x s2) else (False, s2))"
      using left act k False r(1) eq by (simp add: retry_send_def ib_retry_rmpp_def w1_def [symmetric] w2_def [symmetric] Let_def)
    let ?s = "set_wr x ((twrs s2 x)\<lparr>s_refcount := s_refcount (twrs s2 x) + 1\<rparr>) s2"
    have "one_step strict w0 x s2 ?s" using one_step_at [OF st3] by (intro one_step_set) auto
    then have "one_step strict w0 x s ?s" using one_step_trans [OF st3] by blast
    then have "one_step strict w0 x s (requeue_send x s2)"
      by (rule one_step_frame) (auto simp: pending_def)
    then show ?thesis using e st3 r(3) by (auto simp: Let_def)
  qed
qed

section \<open>Reachable states\<close>

text \<open>
  The sends of the set \<open>P\<close>, the message of each in \<open>w0\<close>. Datagrams arrive in any order, with any content
  (under \<open>strict\<close> with open windows), responses of any content complete requests, sends complete with any status,
  timers fire at any time, the client changes timeouts and cancels sends, and the agent is given up. The two
  parts of \<open>ib_mad_complete_recv\<close> are also steps of their own, so that others may come between them; each
  handler is one step otherwise. A client must not give a new timeout to a send that is already decided, that is answered or
  acknowledged to the end, and only waits for its segment to leave: the code would revive it.
\<close>

definition undecided :: "nat \<Rightarrow> mad_agent \<Rightarrow> bool" where
  "undecided x s \<longleftrightarrow> x \<in> set (wait_list s) \<or> s_timeout (twrs s x) \<noteq> 0"

text \<open>\<open>msecs_to_jiffies\<close> rounds up.\<close>

definition m2j_ok :: "tx_env \<Rightarrow> bool" where
  "m2j_ok env \<longleftrightarrow> (\<forall>t. t \<noteq> 0 \<longrightarrow> tx_m2j env t \<noteq> 0)"

inductive tx_reach :: "bool \<Rightarrow> nat set \<Rightarrow> (nat \<Rightarrow> mad_send_wr) \<Rightarrow> mad_agent \<Rightarrow> bool" for strict P w0 where
  tx_init: "wait_list s = [] \<Longrightarrow> t_send_list s = [] \<Longrightarrow> wire s = [] \<Longrightarrow> rmpp_recvs (rx s) = [] \<Longrightarrow> kernel_rmpp s \<Longrightarrow>
    completed s = [] \<Longrightarrow> recv_handled s = [] \<Longrightarrow> \<forall>x \<in> P. new_msg (w0 x) \<and> twrs s x = w0 x \<Longrightarrow> tx_reach strict P w0 s"
| tx_post: "tx_reach strict P w0 s \<Longrightarrow> m2j_ok env \<Longrightarrow> x \<in> P \<Longrightarrow> twrs s x = w0 x \<Longrightarrow> x \<notin> pending s \<union> fst ` set (wire s) \<union> fst ` set (completed s) \<Longrightarrow>
    (strict \<longrightarrow> 1 \<le> init_newwin env (w0 x) s) \<Longrightarrow> ib_post_send_rmpp env x s = Some (ok, s') \<Longrightarrow> tx_reach strict P w0 s'"
| tx_recv: "tx_reach strict P w0 s \<Longrightarrow> m2j_ok env \<Longrightarrow> new_packet wc (rx s) \<Longrightarrow> (strict \<longrightarrow> open_ack env wc s) \<Longrightarrow>
    ib_process_rmpp_recv_wc env wc s = Some (res, s') \<Longrightarrow> tx_reach strict P w0 s'"
| tx_done: "tx_reach strict P w0 s \<Longrightarrow> m2j_ok env \<Longrightarrow> x \<in> set (t_send_list s) \<Longrightarrow>
    ib_mad_complete_send_wr env x st v s = Some s' \<Longrightarrow> tx_reach strict P w0 s'"
| tx_timeout: "tx_reach strict P w0 s \<Longrightarrow> m2j_ok env \<Longrightarrow> timeout_sends env s = Some s' \<Longrightarrow> tx_reach strict P w0 s'"
| tx_arrive: "tx_reach strict P w0 s \<Longrightarrow> m2j_ok env \<Longrightarrow> new_packet wc (rx s) \<Longrightarrow> (strict \<longrightarrow> open_ack env wc s) \<Longrightarrow>
    ib_mad_complete_recv env denied wc (s\<lparr>agent_refs := agent_refs s + 1\<rparr>) = Some s' \<Longrightarrow> tx_reach strict P w0 s'"
| tx_response: "tx_reach strict P w0 s \<Longrightarrow> m2j_ok env \<Longrightarrow> complete_response env wc s = Some s' \<Longrightarrow> tx_reach strict P w0 s'"
| tx_modify: "tx_reach strict P w0 s \<Longrightarrow> m2j_ok env \<Longrightarrow> (tmo \<noteq> 0 \<longrightarrow> undecided x s) \<Longrightarrow> ib_modify_mad env cc_ret x tmo s = (ret, s') \<Longrightarrow>
    tx_reach strict P w0 s'"
| tx_cancel: "tx_reach strict P w0 s \<Longrightarrow> tx_reach strict P w0 (cancel_mads s)"

definition on_wire_ok :: "bool \<Rightarrow> mad_send_wr \<Rightarrow> mad_send_wr \<Rightarrow> ib_rmpp_mad \<Rightarrow> bool" where
  "on_wire_ok strict w0 w m \<longleftrightarrow> (\<exists>i. 1 \<le> i \<and> i \<le> s_seg_count w0 \<and> m = seg_mad w0 i \<and> (strict \<longrightarrow> i \<le> s_newwin w))"

definition tx_inv :: "bool \<Rightarrow> nat set \<Rightarrow> (nat \<Rightarrow> mad_send_wr) \<Rightarrow> mad_agent \<Rightarrow> bool" where
  "tx_inv strict P w0 s \<longleftrightarrow> kernel_rmpp s \<and> agent_ok (rx s) \<and> pending s \<subseteq> P \<and> (\<forall>x \<in> P. new_msg (w0 x)) \<and>
     (\<forall>x \<in> pending s. wr_ok (w0 x) (twrs s x) \<and> (strict \<longrightarrow> win_ok (twrs s x))) \<and>
     (\<forall>(x, m) \<in> set (wire s). x \<in> P \<and> on_wire_ok strict (w0 x) (twrs s x) m)"

lemma tx_inv_at: "tx_inv strict P w0 s \<Longrightarrow> x \<in> pending s \<Longrightarrow> at_ok strict (w0 x) x s"
  unfolding tx_inv_def by blast

lemma tx_invD: "tx_inv strict P w0 s \<Longrightarrow> kernel_rmpp s" "tx_inv strict P w0 s \<Longrightarrow> x \<in> pending s \<Longrightarrow> x \<in> P"
  "tx_inv strict P w0 s \<Longrightarrow> agent_ok (rx s)" "tx_inv strict P w0 s \<Longrightarrow> x \<in> P \<Longrightarrow> new_msg (w0 x)"
  "tx_inv strict P w0 s \<Longrightarrow> (x, m) \<in> set (wire s) \<Longrightarrow> x \<in> P \<and> on_wire_ok strict (w0 x) (twrs s x) m"
  unfolding tx_inv_def by blast+

lemma tx_inv_one:
  assumes inv: "tx_inv strict P w0 s" and x: "x \<in> P" and st: "one_step strict (w0 x) x s s'"
  shows "tx_inv strict P w0 s'"
proof -
  obtain ms where ms: "wire s' = wire s @ map (Pair x) ms" "\<forall>m \<in> set ms. on_wire_ok strict (w0 x) (twrs s' x) m"
    using st unfolding one_step_def on_wire_ok_def by blast
  have other: "twrs s' y = twrs s y" if "y \<noteq> x" for y using st that by (simp add: one_step_def)
  have mono: "strict \<longrightarrow> s_newwin (twrs s x) \<le> s_newwin (twrs s' x)" using st by (simp add: one_step_def)
  have "y \<in> P \<and> on_wire_ok strict (w0 y) (twrs s' y) m" if "(y, m) \<in> set (wire s)" for y m
  proof -
    have y: "y \<in> P" "on_wire_ok strict (w0 y) (twrs s y) m" using tx_invD(5) [OF inv that] by simp_all
    then show ?thesis using other [of y] mono by (cases "y = x") (auto simp: on_wire_ok_def)
  qed
  then have w: "\<forall>(y, m) \<in> set (wire s'). y \<in> P \<and> on_wire_ok strict (w0 y) (twrs s' y) m" using ms x by auto
  have p: "pending s' \<subseteq> insert x (pending s)" using st by (simp add: one_step_def)
  have "wr_ok (w0 y) (twrs s' y) \<and> (strict \<longrightarrow> win_ok (twrs s' y))" if "y \<in> pending s'" for y
  proof (cases "y = x")
    case True
    then show ?thesis using one_step_at [OF st] by simp
  next
    case False
    then have "y \<in> pending s" using that p by blast
    then show ?thesis using tx_inv_at [OF inv] other [OF False] by simp
  qed
  moreover have "rmpp_recvs (rx s') = rmpp_recvs (rx s)" using st by (simp add: one_step_def)
  then have "agent_ok (rx s')" using tx_invD(3) [OF inv] agent_ok_cong by blast
  moreover have "pending s' \<subseteq> P" using p x tx_invD(2) [OF inv] by blast
  moreover have "kernel_rmpp s'" using one_step_kernel [OF st] tx_invD(1) [OF inv] by simp
  ultimately show ?thesis using w tx_invD(4) [OF inv] unfolding tx_inv_def by blast
qed

lemma tx_inv_step: "tx_inv strict P w0 s \<Longrightarrow> tx_step strict w0 s s' \<Longrightarrow> tx_inv strict P w0 s'"
  unfolding tx_step_def
proof (elim disjE exE conjE bexE)
  fix r
  assume "tx_inv strict P w0 s" "s' = s\<lparr>rx := r\<rparr>" "agent_ok (rx s) \<longrightarrow> agent_ok r"
  then show ?thesis by (simp add: tx_inv_def)
next
  fix x
  assume "tx_inv strict P w0 s" "x \<in> pending s" "one_step strict (w0 x) x s s'"
  moreover from this have "x \<in> P" by (auto simp: tx_inv_def)
  ultimately show ?thesis by (simp add: tx_inv_one)
qed

lemma tx_inv_upd:
  assumes "tx_inv strict P w0 s"
  shows "tx_inv strict P w0 (send_handler x st v s)" "tx_inv strict P w0 (s\<lparr>timed_work := t\<rparr>)"
    "set l \<subseteq> set (wait_list s) \<Longrightarrow> tx_inv strict P w0 (s\<lparr>wait_list := l\<rparr>)"
    "set l \<subseteq> set (t_send_list s) \<Longrightarrow> tx_inv strict P w0 (s\<lparr>t_send_list := l\<rparr>)"
  using assms by (auto simp: tx_inv_def pending_def)

lemma timeout_loop_inv:
  "tx_inv strict P w0 s \<Longrightarrow> set xs \<subseteq> set (wait_list s) \<Longrightarrow>
     \<exists>s'. timeout_sends_loop env xs s = Some s' \<and> tx_inv strict P w0 s' \<and> recv_handled s' = recv_handled s"
proof (induction xs arbitrary: s)
  case Nil
  then show ?case using tx_inv_upd(3) [of strict P w0 s "[]"] by simp
next
  case (Cons x xs)
  have x: "x \<in> pending s" using Cons.prems by (simp add: pending_def)
  have xP: "x \<in> P" and at: "at_ok strict (w0 x) x s" and k: "kernel_rmpp s"
    using tx_inv_at [OF Cons.prems(1) x] tx_invD(1,2) [OF Cons.prems(1)] x by blast+
  show ?case
  proof (cases "time_after (s_timeout (twrs s x)) (tx_now env)")
    case True
    have "tx_inv strict P w0 (s\<lparr>wait_list := x # xs\<rparr>)" by (rule tx_inv_upd(3) [OF Cons.prems])
    then show ?thesis using True tx_inv_upd(2) by (simp add: Let_def)
  next
    case False
    obtain ok s1 where r: "(if s_status (twrs s x) = IB_WC_SUCCESS then retry_send env x s else Some (False, s)) = Some (ok, s1)"
      "tx_inv strict P w0 s1" "wait_list s1 = wait_list s" "recv_handled s1 = recv_handled s"
      using retry_send_step [OF at k, of env] tx_inv_one [of strict P w0 s x] one_step_handled Cons.prems(1) xP
      by (cases "s_status (twrs s x) = IB_WC_SUCCESS") auto
    let ?c = "send_handler x (if s_status (twrs s1 x) = IB_WC_SUCCESS then IB_WC_RESP_TIMEOUT_ERR else s_status (twrs s1 x)) 0 s1"
    have "tx_inv strict P w0 ?c" by (rule tx_inv_upd(1) [OF r(2)])
    then have "\<exists>s'. timeout_sends_loop env xs ?c = Some s' \<and> tx_inv strict P w0 s' \<and> recv_handled s' = recv_handled s"
      "\<exists>s'. timeout_sends_loop env xs s1 = Some s' \<and> tx_inv strict P w0 s' \<and> recv_handled s' = recv_handled s"
      using Cons.IH [of s1] Cons.IH [of ?c] r Cons.prems by auto
    then show ?thesis using False r(1) by (cases ok) (simp_all add: Let_def)
  qed
qed

lemma timeout_sends_inv:
  "tx_inv strict P w0 s \<Longrightarrow> \<exists>s'. timeout_sends env s = Some s' \<and> tx_inv strict P w0 s' \<and> recv_handled s' = recv_handled s"
  unfolding timeout_sends_def using timeout_loop_inv [of strict P w0 "s\<lparr>timed_work := None\<rparr>" "wait_list s" env] tx_inv_upd(2) by simp

lemma init_newwin_cong:
  assumes "s_mad w = s_mad w'" "s_ah w = s_ah w'" "rx s = rx s'"
  shows "init_newwin env w s = init_newwin env w' s'"
  unfolding init_newwin_def assms ..

lemma new_msg_wr_ok: "new_msg w \<Longrightarrow> wr_ok w w"
  by (simp add: new_msg_def wr_ok_def)

definition posted_wr :: "tx_env \<Rightarrow> mad_agent \<Rightarrow> mad_send_wr \<Rightarrow> mad_send_wr" where
  "posted_wr env s w = w\<lparr>s_tid := mad_tid (mad_hdr (s_mad w)), s_timeout := tx_m2j env (s_timeout_ms w), s_max_retries := s_retries w,
      s_retries_left := s_retries w, s_retries := 0, s_status := IB_WC_SUCCESS, s_newwin := init_newwin env w s, s_refcount := 2\<rparr>"

lemma post_eq:
  assumes "active_data (s_mad (twrs s x))"
  shows "ib_post_send_rmpp env x s = Option.bind (send_next_seg env x ((set_wr x (posted_wr env s (twrs s x)) s)\<lparr>agent_refs := agent_refs s + 1, t_send_list := t_send_list s @ [x]\<rparr>))
    (\<lambda>(ok, s). Some (ok, if ok then s else fail_send x s))"
proof -
  define w where "w = twrs s x"
  define t where "t = tx_m2j env (s_timeout_ms w)"
  define w1 where "w1 = w\<lparr>s_tid := mad_tid (mad_hdr (s_mad w)), s_timeout := t, s_max_retries := s_retries w,
      s_retries_left := s_retries w, s_retries := 0, s_refcount := 1 + (if t > 0 then 1 else 0), s_status := IB_WC_SUCCESS\<rparr>"
  define s1 where "s1 = (set_wr x w1 s)\<lparr>agent_refs := agent_refs s + 1, t_send_list := t_send_list s @ [x]\<rparr>"
  define w2 where "w2 = w1\<lparr>s_newwin := init_newwin env w1 s1, s_refcount := s_refcount w1 + (if s_timeout w1 = 0 then 1 else 0)\<rparr>"
  have "init_newwin env w1 s1 = init_newwin env w s" by (rule init_newwin_cong) (simp_all add: s1_def w1_def)
  then have "w2 = posted_wr env s w" by (simp add: w2_def w1_def posted_wr_def t_def word_neq_0_conv)
  then have s2: "set_wr x w2 s1 = (set_wr x (posted_wr env s w) s)\<lparr>agent_refs := agent_refs s + 1, t_send_list := t_send_list s @ [x]\<rparr>" by (simp add: s1_def set_wr_def)
  have "active_data (s_mad w1)" "twrs s1 x = w1" using assms by (simp_all add: w1_def w_def s1_def)
  then have e: "ib_send_rmpp_mad env x s1 = Option.bind (send_next_seg env x (set_wr x w2 s1))
      (\<lambda>(ok, s). Some (if ok then RESULT_CONSUMED else RESULT_ERROR, s))"
    by (simp add: ib_send_rmpp_mad_def active_data_def Let_def w2_def)
  have "ib_post_send_rmpp env x s = Option.bind (ib_send_rmpp_mad env x s1) (\<lambda>(res, s).
      Option.bind (if res = RESULT_ERROR then Some (False, s) else if res \<noteq> RESULT_CONSUMED then tx_ib_send_mad env x s else Some (True, s))
      (\<lambda>(ok, s). Some (ok, if ok then s else fail_send x s)))"
    by (simp add: ib_post_send_rmpp_def w_def [symmetric] t_def [symmetric] w1_def [symmetric] s1_def [symmetric] Let_def)
  then show ?thesis unfolding e s2 w_def by (cases "send_next_seg env x ((set_wr x (posted_wr env s (twrs s x)) s)\<lparr>agent_refs := agent_refs s + 1, t_send_list := t_send_list s @ [x]\<rparr>)") auto
qed

lemma post_inv:
  assumes inv: "tx_inv strict P w0 s" and x: "x \<in> P" "twrs s x = w0 x" and win: "strict \<longrightarrow> 1 \<le> init_newwin env (w0 x) s"
  shows "\<exists>ok s'. ib_post_send_rmpp env x s = Some (ok, s') \<and> tx_inv strict P w0 s' \<and> recv_handled s' = recv_handled s"
proof -
  define w2 where "w2 = posted_wr env s (w0 x)"
  define s2 where "s2 = (set_wr x w2 s)\<lparr>agent_refs := agent_refs s + 1, t_send_list := t_send_list s @ [x]\<rparr>"
  have m: "new_msg (w0 x)" by (rule tx_invD(4) [OF inv x(1)])
  have ok: "wr_ok (w0 x) w2" using new_msg_wr_ok [OF m] by (simp add: w2_def posted_wr_def)
  have win2: "s_seg_num w2 < s_seg_count w2" "s_last_ack w2 = 0" "s_seg_num w2 = 0" "s_newwin w2 = init_newwin env (w0 x) s" "s_newwin (w0 x) = 0"
    using m by (simp_all add: w2_def posted_wr_def new_msg_def)
  have "one_step strict (w0 x) x s (set_wr x w2 s)" using ok win win2 x(2) by (intro one_step_set) (auto simp: win_ok_def)
  then have st: "one_step strict (w0 x) x s s2" unfolding s2_def by (rule one_step_frame) (auto simp: pending_def)
  have tw: "twrs s2 x = w2" by (simp add: s2_def)
  obtain ret s3 where r: "send_next_seg env x s2 = Some (ret, s3)" "one_step strict (w0 x) x s2 s3"
    using send_next_seg_step [of "w0 x" s2 x strict env, unfolded tw] m ok win win2 by auto
  have inv3: "tx_inv strict P w0 s3" by (rule tx_inv_one [OF inv x(1) one_step_trans [OF st r(2)]])
  have "active_data (s_mad (twrs s x))" using m x(2) by (simp add: new_msg_def)
  from post_eq [OF this] have e: "ib_post_send_rmpp env x s = Some (ret, if ret then s3 else fail_send x s3)"
    using r(1) by (simp add: x(2) w2_def [symmetric] s2_def [symmetric])
  have "tx_inv strict P w0 (fail_send x s3)"
    using inv3 pending_fail_send [of x s3] unfolding tx_inv_def fail_send_simps by blast
  moreover have "recv_handled s3 = recv_handled s" using one_step_handled [OF r(2)] by (simp add: s2_def)
  ultimately show ?thesis using e inv3 by simp
qed

text \<open>A response, a change of the timeout, and the end of the agent.\<close>

lemma recv_handler_simps [simp]: "twrs (recv_handler y wc s) = twrs s" "wait_list (recv_handler y wc s) = wait_list s"
  "t_send_list (recv_handler y wc s) = t_send_list s" "completed (recv_handler y wc s) = completed s" "kernel_rmpp (recv_handler y wc s) = kernel_rmpp s"
  "wire (recv_handler y wc s) = wire s" "rx (recv_handler y wc s) = rx s" "pending (recv_handler y wc s) = pending s"
  "recv_handled (recv_handler y wc s) = recv_handled s @ [(y, wc)]"
  by (simp_all add: recv_handler_def pending_def)

lemma deref_mad_agent_simps [simp]: "twrs (deref_mad_agent s) = twrs s" "wait_list (deref_mad_agent s) = wait_list s"
  "t_send_list (deref_mad_agent s) = t_send_list s" "completed (deref_mad_agent s) = completed s" "kernel_rmpp (deref_mad_agent s) = kernel_rmpp s"
  "wire (deref_mad_agent s) = wire s" "rx (deref_mad_agent s) = rx s" "pending (deref_mad_agent s) = pending s"
  "recv_handled (deref_mad_agent s) = recv_handled s"
  by (simp_all add: deref_mad_agent_def pending_def)

lemma tx_inv_delivered:
  "tx_inv strict P w0 (recv_handler y wc s) = tx_inv strict P w0 s" "tx_inv strict P w0 (deref_mad_agent s) = tx_inv strict P w0 s"
  by (simp_all add: tx_inv_def)

lemma mark_delivered:
  "deref_mad_agent (recv_handler y wc (ib_mark_mad_done x s)) = ib_mark_mad_done x (deref_mad_agent (recv_handler y wc s))"
  by (simp add: deref_mad_agent_def recv_handler_def ib_mark_mad_done_def set_wr_def list_del_def Let_def)

lemma complete_response_inv:
  assumes inv: "tx_inv strict P w0 s"
  shows "\<exists>s'. complete_response env wc s = Some s' \<and> tx_inv strict P w0 s' \<and>
    recv_handled s' = recv_handled s @ (if ib_response_mad (mad_hdr (rb_mad (recv_buf wc)))
      then case ib_find_send_mad env s wc of None \<Rightarrow> [] | Some x \<Rightarrow> [(Some x, wc)] else [(None, wc)])"
proof (cases "ib_response_mad (mad_hdr (rb_mad (recv_buf wc)))")
  case False
  then show ?thesis using inv by (simp add: complete_response_def Let_def tx_inv_delivered)
next
  case resp: True
  show ?thesis
  proof (cases "ib_find_send_mad env s wc")
    case None
    have "tx_inv strict P w0 (s\<lparr>rx := ib_free_recv_mad wc (rx s)\<rparr>)"
      using inv agent_ok_cong [of "ib_free_recv_mad wc (rx s)" "rx s"] by (simp add: tx_inv_def ib_free_recv_mad_def)
    then show ?thesis using resp None tx_invD(1) [OF inv] by (simp add: complete_response_def Let_def tx_inv_delivered)
  next
    case (Some x)
    let ?s = "deref_mad_agent (recv_handler (Some x) wc s)"
    have x: "x \<in> pending ?s" using find_send_pending [OF Some] by simp
    have inv1: "tx_inv strict P w0 ?s" using inv by (simp add: tx_inv_delivered)
    have md: "one_step strict (w0 x) x ?s (ib_mark_mad_done x ?s)" by (rule mark_done_step [OF tx_inv_at [OF inv1 x]])
    then have "at_ok strict (w0 x) x (ib_mark_mad_done x ?s)" using one_step_at tx_inv_at [OF inv1 x] by blast
    then obtain s' where s': "ib_mad_complete_send_wr env x IB_WC_SUCCESS 0 (ib_mark_mad_done x ?s) = Some s'"
      "one_step strict (w0 x) x (ib_mark_mad_done x ?s) s'"
      using complete_send_step [of "w0 x" "ib_mark_mad_done x ?s" x strict env IB_WC_SUCCESS 0] one_step_kernel [OF md] tx_invD(1) [OF inv1] by auto
    have st: "one_step strict (w0 x) x ?s s'" by (rule one_step_trans [OF md s'(2)])
    have "tx_inv strict P w0 s'" by (rule tx_inv_one [OF inv1 tx_invD(2) [OF inv1 x] st])
    moreover have "complete_response env wc s = Some s'"
      using resp Some s'(1) by (simp add: complete_response_def Let_def mark_delivered)
    moreover have "recv_handled s' = recv_handled s @ [(Some x, wc)]" using one_step_handled [OF st] by simp
    ultimately show ?thesis using resp Some by simp
  qed
qed

lemma complete_recv_cases:
  assumes inv: "tx_inv strict P w0 s" and new: "new_packet wc (rx s)" and opn: "strict \<longrightarrow> open_ack env wc s"
    and r: "ib_mad_complete_recv env denied wc (s\<lparr>agent_refs := n\<rparr>) = Some s'"
  obtains (denied) "twrs s' = twrs s" "wait_list s' = wait_list s" "t_send_list s' = t_send_list s" "completed s' = completed s"
      "recv_handled s' = recv_handled s" "tx_inv strict P w0 s'"
    | (protocol) res s1 where "ib_process_rmpp_recv_wc env wc (s\<lparr>agent_refs := n\<rparr>) = Some (res, s1)" "tx_inv strict P w0 s1" "recv_handled s1 = recv_handled s"
      "case res of None \<Rightarrow> s' = deref_mad_agent s1 | Some wc' \<Rightarrow> complete_response env wc' s1 = Some s'"
proof (cases denied)
  case True
  then have "s' = deref_mad_agent ((s\<lparr>agent_refs := n\<rparr>)\<lparr>rx := ib_free_recv_mad (wc\<lparr>rmpp_list := []\<rparr>) (rx s)\<rparr>)"
    using r by (simp add: ib_mad_complete_recv_def Let_def)
  moreover have "tx_inv strict P w0 ((s\<lparr>agent_refs := n\<rparr>)\<lparr>rx := ib_free_recv_mad (wc\<lparr>rmpp_list := []\<rparr>) (rx s)\<rparr>)"
    using inv agent_ok_cong [of "ib_free_recv_mad (wc\<lparr>rmpp_list := []\<rparr>) (rx s)" "rx s"] by (simp add: tx_inv_def ib_free_recv_mad_def pending_def)
  ultimately show ?thesis by (intro that(1)) (simp_all add: tx_inv_delivered)
next
  case False
  let ?s = "s\<lparr>agent_refs := n\<rparr>"
  have inv0: "tx_inv strict P w0 ?s" using inv by (simp add: tx_inv_def pending_def)
  have op0: "strict \<longrightarrow> open_ack env wc ?s" using opn unfolding open_ack_def ib_find_send_mad_def is_rmpp_data_mad_def Let_def by (simp cong: option.case_cong)
  have wc: "wc\<lparr>rmpp_list := []\<rparr>\<lparr>rmpp_list := [recv_buf wc]\<rparr> = wc" using new by (simp add: new_packet_def)
  obtain res s1 where s1: "ib_process_rmpp_recv_wc env wc ?s = Some (res, s1)" "tx_step strict w0 ?s s1"
    using recv_wc_step [OF tx_inv_at [OF inv0] tx_invD(1) [OF inv0] op0 tx_invD(3) [OF inv0]] new by auto
  have "recv_handled s1 = recv_handled s" using s1(2) one_step_handled by (fastforce simp: tx_step_def)
  moreover have "case res of None \<Rightarrow> s' = deref_mad_agent s1 | Some wc' \<Rightarrow> complete_response env wc' s1 = Some s'"
    using r False s1(1) wc tx_invD(1) [OF inv] by (cases res) (simp_all add: ib_mad_complete_recv_def Let_def)
  ultimately show ?thesis using that(2) [OF s1(1) tx_inv_step [OF inv0 s1(2)]] by blast
qed

lemma find_send_wr_eq: "find_send_wr x s = (if x \<in> pending s \<and> (x \<in> set (wait_list s) \<or> is_rmpp_data_mad s (s_mad (twrs s x))) then Some x else None)"
  by (auto simp: find_send_wr_def pending_def)

text \<open>The record of a send whose timeout is changed, and what the change does.\<close>

definition modified :: "u32 \<Rightarrow> mad_send_wr \<Rightarrow> mad_send_wr" where
  "modified tmo w = (if tmo = 0 then flush_send w else w)\<lparr>s_timeout_ms := tmo\<rparr>"

lemma modify_cases:
  assumes "ib_modify_mad env cc_ret x tmo s = (res, s')"
  obtains (same) "s' = s"
    | (active) "x \<in> pending s" "s_status (twrs s x) = IB_WC_SUCCESS" "s_timeout (twrs s x) = 0 \<or> s_refcount (twrs s x) > 1"
        "s' = set_wr x ((modified tmo (twrs s x))\<lparr>s_timeout := tx_m2j env tmo\<rparr>) s"
    | (wait) "x \<in> pending s" "s_status (twrs s x) = IB_WC_SUCCESS" "s_timeout (twrs s x) \<noteq> 0" "\<not> s_refcount (twrs s x) > 1"
        "s' = wait_for_response env x (set_wr x ((modified tmo (twrs s x))\<lparr>s_timeout := tx_m2j env tmo\<rparr>) s)"
proof (cases "find_send_wr x s")
  case None
  then show ?thesis using assms same by (simp add: ib_modify_mad_def)
next
  case (Some y)
  then have y: "y = x" "x \<in> pending s" by (auto simp: find_send_wr_eq split: if_splits)
  have e: "set_wr x w' (set_wr x w s) = set_wr x w' s" for w w' by (simp add: set_wr_def)
  show ?thesis
  proof (cases "s_status (twrs s x) = IB_WC_SUCCESS")
    case False
    then show ?thesis using assms Some y same by (simp add: ib_modify_mad_def Let_def)
  next
    case True
    then show ?thesis
      using assms Some y active wait
      by (cases "s_timeout (twrs s x) = 0 \<or> s_refcount (twrs s x) > 1")
        (auto simp: ib_modify_mad_def modified_def ib_reset_mad_timeout_def Let_def e)
  qed
qed

lemma modified_ok: "at_ok strict w0 x s \<Longrightarrow> one_step strict w0 x s (set_wr x ((modified tmo (twrs s x))\<lparr>s_timeout := t\<rparr>) s)"
  by (intro one_step_set) (auto simp: modified_def flush_send_def)

lemma modify_inv:
  assumes inv: "tx_inv strict P w0 s" and r: "ib_modify_mad env cc_ret x tmo s = (res, s')"
  shows "tx_inv strict P w0 s' \<and> recv_handled s' = recv_handled s"
proof -
  have one: "tx_inv strict P w0 s' \<and> recv_handled s' = recv_handled s" if x: "x \<in> pending s" and st: "one_step strict (w0 x) x s s'"
    using tx_inv_one [OF inv tx_invD(2) [OF inv x] st] one_step_handled [OF st] by blast
  show ?thesis
    using r
  proof (cases rule: modify_cases)
    case same
    then show ?thesis using inv by simp
  next
    case active
    then show ?thesis using one [OF active(1)] modified_ok [OF tx_inv_at [OF inv active(1)]] by simp
  next
    case wait
    have a: "at_ok strict (w0 x) x s" by (rule tx_inv_at [OF inv wait(1)])
    note st = modified_ok [OF a, where tmo = tmo and t = "tx_m2j env tmo"]
    have "at_ok strict (w0 x) x (set_wr x ((modified tmo (twrs s x))\<lparr>s_timeout := tx_m2j env tmo\<rparr>) s)" using one_step_at [OF st] a by blast
    from one_step_trans [OF st wait_for_response_step [OF this]] show ?thesis using one [OF wait(1)] wait(5) by simp
  qed
qed

lemma fold_send_handler:
  "twrs (fold (\<lambda>x. send_handler x st v) l s) = twrs s" "wait_list (fold (\<lambda>x. send_handler x st v) l s) = wait_list s"
  "t_send_list (fold (\<lambda>x. send_handler x st v) l s) = t_send_list s" "kernel_rmpp (fold (\<lambda>x. send_handler x st v) l s) = kernel_rmpp s"
  "wire (fold (\<lambda>x. send_handler x st v) l s) = wire s" "rx (fold (\<lambda>x. send_handler x st v) l s) = rx s"
  "recv_handled (fold (\<lambda>x. send_handler x st v) l s) = recv_handled s"
  "completed (fold (\<lambda>x. send_handler x st v) l s) = completed s @ map (\<lambda>x. (x, st, v)) l"
  by (induction l arbitrary: s) simp_all

lemma cancel_mads_simps [simp]:
  "twrs (cancel_mads s) x = (if x \<in> set (t_send_list s) \<and> s_status (twrs s x) = IB_WC_SUCCESS then flush_send (twrs s x) else twrs s x)"
  "wait_list (cancel_mads s) = []" "t_send_list (cancel_mads s) = t_send_list s" "kernel_rmpp (cancel_mads s) = kernel_rmpp s"
  "wire (cancel_mads s) = wire s" "rx (cancel_mads s) = rx s" "recv_handled (cancel_mads s) = recv_handled s"
  "completed (cancel_mads s) = completed s @ map (\<lambda>x. (x, IB_WC_WR_FLUSH_ERR, 0)) (wait_list s)"
  by (simp_all add: cancel_mads_def Let_def fold_send_handler)

lemma cancel_inv:
  assumes inv: "tx_inv strict P w0 s"
  shows "tx_inv strict P w0 (cancel_mads s)"
proof -
  have n: "s_newwin (flush_send w) = s_newwin w" for w by (simp add: flush_send_def)
  have p: "pending (cancel_mads s) = set (t_send_list s)" by (simp add: pending_def)
  then have sub: "pending (cancel_mads s) \<subseteq> pending s" by (simp add: pending_def)
  have at: "wr_ok (w0 x) (twrs (cancel_mads s) x) \<and> (strict \<longrightarrow> win_ok (twrs (cancel_mads s) x))" if "x \<in> pending (cancel_mads s)" for x
    using tx_inv_at [OF inv, of x] sub that by auto
  have w: "on_wire_ok strict (w0 x) (twrs (cancel_mads s) x) m = on_wire_ok strict (w0 x) (twrs s x) m" for x m
    by (simp add: on_wire_ok_def n)
  show ?thesis unfolding tx_inv_def
  proof (intro conjI)
    show "\<forall>x \<in> pending (cancel_mads s). wr_ok (w0 x) (twrs (cancel_mads s) x) \<and> (strict \<longrightarrow> win_ok (twrs (cancel_mads s) x))" using at by blast
    show "\<forall>(x, m) \<in> set (wire (cancel_mads s)). x \<in> P \<and> on_wire_ok strict (w0 x) (twrs (cancel_mads s) x) m"
      unfolding w using tx_invD(5) [OF inv] by auto
    show "pending (cancel_mads s) \<subseteq> P" using sub tx_invD(2) [OF inv] by blast
  qed (use tx_invD [OF inv] in simp_all)
qed

lemma send_reach_inv: "tx_reach strict P w0 s \<Longrightarrow> tx_inv strict P w0 s"
proof (induction rule: tx_reach.induct)
  case (tx_init s)
  then show ?case by (simp add: tx_inv_def pending_def agent_ok_def held_def)
next
  case (tx_post s env x ok s')
  then show ?case using post_inv [of strict P w0 s x env] by auto
next
  case (tx_recv s env wc res s')
  have "\<exists>res s'. ib_process_rmpp_recv_wc env wc s = Some (res, s') \<and> tx_step strict w0 s s'"
    using recv_wc_step [OF tx_inv_at [OF tx_recv.IH]] tx_invD(1,3) [OF tx_recv.IH] tx_recv.hyps by blast
  then show ?case using tx_inv_step [OF tx_recv.IH] tx_recv.hyps by simp
next
  case (tx_done s env x st v s')
  have x: "x \<in> pending s" using tx_done.hyps by (simp add: pending_def)
  obtain s'' where "ib_mad_complete_send_wr env x st v s = Some s''" "one_step strict (w0 x) x s s''"
    using complete_send_step [OF tx_inv_at [OF tx_done.IH x] tx_invD(1) [OF tx_done.IH]] by blast
  then show ?case using tx_inv_one [OF tx_done.IH tx_invD(2) [OF tx_done.IH x]] tx_done.hyps by simp
next
  case (tx_timeout s env s')
  then show ?case using timeout_sends_inv [of strict P w0 s env] by auto
next
  case (tx_arrive s env wc denied s')
  from tx_arrive.IH tx_arrive.hyps(3-5) show ?case
  proof (cases rule: complete_recv_cases)
    case (protocol res s1)
    have "tx_inv strict P w0 q" if "complete_response env wc' s1 = Some q" for wc' q
      using complete_response_inv [OF protocol(2), of env wc'] that by auto
    then show ?thesis using protocol(2,4) by (cases res) (auto simp: tx_inv_delivered)
  qed
next
  case (tx_response s env wc s')
  then show ?case using complete_response_inv [of strict P w0 s env wc] by auto
next
  case (tx_modify s env tmo x cc_ret ret s')
  then show ?case using modify_inv by blast
next
  case (tx_cancel s)
  then show ?case by (simp add: cancel_inv)
qed

section \<open>References and completions\<close>

text \<open>
  Where a send is: how often in each list, and what was reported for it. A send that waits holds one
  reference, for the acknowledgement, unless it was cancelled; a send in flight holds a second one for the segment,
  or only that one once it is decided. \<open>a\<close> says that a response to the send was handed to the client.
\<close>

definition occ :: "nat \<Rightarrow> mad_agent \<Rightarrow> nat \<times> nat \<times> (nat \<times> ib_wc_status \<times> u8) list" where
  "occ x s = (count (mset (wait_list s)) x, count (mset (t_send_list s)) x, filter (\<lambda>c. fst c = x) (completed s))"

definition acked :: "mad_send_wr \<Rightarrow> bool" where
  "acked w \<longleftrightarrow> s_last_ack w = s_seg_count w"

definition waiting :: "mad_send_wr \<Rightarrow> bool" where
  "waiting w \<longleftrightarrow> s_status w \<noteq> IB_WC_SUCCESS \<or> s_refcount w = 1 \<and> (acked w \<longrightarrow> s_timeout_ms w \<noteq> 0)"

definition flying :: "bool \<Rightarrow> mad_send_wr \<Rightarrow> bool" where
  "flying a w \<longleftrightarrow> \<not> a \<and> s_refcount w = 2 \<and> s_status w = IB_WC_SUCCESS \<and> s_timeout w \<noteq> 0 \<and> (acked w \<longrightarrow> s_timeout_ms w \<noteq> 0) \<or>
     s_refcount w = 1 \<and> (s_status w \<noteq> IB_WC_SUCCESS \<or> s_timeout w = 0 \<and> (acked w \<or> a))"

definition placed :: "bool \<Rightarrow> mad_send_wr \<Rightarrow> nat \<times> nat \<times> (nat \<times> ib_wc_status \<times> u8) list \<Rightarrow> bool" where
  "placed a w p \<longleftrightarrow> (case p of (i, j, c) \<Rightarrow> (i = 1 \<and> j = 0 \<and> c = [] \<and> \<not> a \<and> waiting w) \<or> (i = 0 \<and> j = 1 \<and> c = [] \<and> flying a w) \<or>
     (i = 0 \<and> j = 0 \<and> (c = [] \<and> \<not> a \<or> (\<exists>x st v. c = [(x, st, v)] \<and> (st = IB_WC_SUCCESS \<longrightarrow> acked w \<or> a)))))"

definition others :: "nat \<Rightarrow> mad_agent \<Rightarrow> mad_agent \<Rightarrow> bool" where
  "others x s s' \<longleftrightarrow> (\<forall>y. y \<noteq> x \<longrightarrow> twrs s' y = twrs s y \<and> occ y s' = occ y s)"

lemma others_trans: "others x s s1 \<Longrightarrow> others x s1 s2 \<Longrightarrow> others x s s2"
  by (simp add: others_def)

lemma others_refl [simp]: "others x s s"
  by (simp add: others_def)

lemma others_set_wr [simp]: "others x s (set_wr x w s)"
  by (simp add: others_def occ_def)

lemma occ_set_wr [simp]: "occ y (set_wr x w s) = occ y s"
  by (simp add: occ_def)

lemma occ_upd [simp]: "occ y (s\<lparr>rx := r\<rparr>) = occ y s" "occ y (s\<lparr>wire := w\<rparr>) = occ y s" "occ y (s\<lparr>timed_work := t\<rparr>) = occ y s"
  by (simp_all add: occ_def)

lemma wait_for_response_occ:
  "others x s (wait_for_response env x s)"
  "occ x s = (i, j, c) \<Longrightarrow> occ x (wait_for_response env x s) = (i - 1 + 1, j - 1, c)"
  "twrs (wait_for_response env x s) x = (twrs s x)\<lparr>s_timeout := s_timeout (twrs s x) + tx_now env\<rparr>"
  by (auto simp: wait_for_response_def Let_def list_del_def others_def occ_def)

lemma list_del_occ:
  "others x s (list_del x s)"
  "occ x s = (i, j, c) \<Longrightarrow> occ x (list_del x s) = (i - 1, j - 1, c)"
  by (auto simp: list_del_def others_def occ_def)

lemma adjust_timeout_occ: "occ y (adjust_timeout env s) = occ y s"
  by (auto simp: adjust_timeout_def occ_def Let_def split: list.split)

lemma get_payload_fields:
  assumes "ib_get_payload w = Some (d, w')"
  shows "\<exists>k. w' = w\<lparr>s_cur_seg := k\<rparr>"
proof (cases "s_seg_count w = 0")
  case True
  then have "w' = w\<lparr>s_cur_seg := s_cur_seg w\<rparr>" using assms by (simp add: ib_get_payload_def)
  then show ?thesis ..
next
  case False
  then show ?thesis using assms by (auto simp: ib_get_payload_def ib_get_rmpp_segment_def Let_def)
qed

lemma send_next_seg_acct:
  assumes "send_next_seg env x s = Some (ret, s')"
  shows "others x s s'" "occ x s' = occ x s" "s_refcount (twrs s' x) = s_refcount (twrs s x)" "s_status (twrs s' x) = s_status (twrs s x)"
    "acked (twrs s' x) = acked (twrs s x)" "s_timeout_ms (twrs s' x) = s_timeout_ms (twrs s x)" "wait_list s' = wait_list s"
    "t_send_list s' = t_send_list s" "completed s' = completed s"
    "m2j_ok env \<Longrightarrow> s_timeout (twrs s x) \<noteq> 0 \<or> s_timeout_ms (twrs s x) = 0 \<Longrightarrow> s_timeout (twrs s' x) \<noteq> 0"
proof -
  define w1 where "w1 = (let wr = next_seg_hdr (twrs s x) in if s_timeout_ms wr = 0 \<or> sint (s_timeout_ms wr) > 2000 then wr\<lparr>s_timeout := tx_m2j env 2000\<rparr> else wr)"
  have f: "s_seg_count w1 = s_seg_count (twrs s x)" "s_last_ack w1 = s_last_ack (twrs s x)" "s_refcount w1 = s_refcount (twrs s x)"
    "s_status w1 = s_status (twrs s x)" "s_timeout_ms w1 = s_timeout_ms (twrs s x)"
    by (simp_all add: w1_def Let_def next_seg_hdr_def)
  have t: "s_timeout w1 \<noteq> 0" if "m2j_ok env" "s_timeout (twrs s x) \<noteq> 0 \<or> s_timeout_ms (twrs s x) = 0"
    using that by (auto simp: w1_def Let_def next_seg_hdr_def m2j_ok_def)
  have "tx_ib_send_mad env x (set_wr x w1 s) = Some (ret, s')" using assms by (simp add: send_next_seg_def w1_def Let_def)
  then have "s' = set_wr x w1 s \<or> (\<exists>k. s' = set_wr x (w1\<lparr>s_cur_seg := k\<rparr>) s) \<or> (\<exists>k m. s' = (set_wr x (w1\<lparr>s_cur_seg := k\<rparr>) s)\<lparr>wire := m\<rparr>)"
    unfolding tx_ib_send_mad_def
    by (cases "tx_send env") (auto simp: set_wr_def split: Option.bind_splits if_splits dest!: get_payload_fields)
  then show "others x s s'" "occ x s' = occ x s" "s_refcount (twrs s' x) = s_refcount (twrs s x)" "s_status (twrs s' x) = s_status (twrs s x)"
    "acked (twrs s' x) = acked (twrs s x)" "s_timeout_ms (twrs s' x) = s_timeout_ms (twrs s x)" "wait_list s' = wait_list s"
    "t_send_list s' = t_send_list s" "completed s' = completed s"
    "m2j_ok env \<Longrightarrow> s_timeout (twrs s x) \<noteq> 0 \<or> s_timeout_ms (twrs s x) = 0 \<Longrightarrow> s_timeout (twrs s' x) \<noteq> 0"
    using f t by (auto simp: others_def acked_def)
qed

text \<open>The end of \<open>ib_mad_complete_send_wr\<close>: one reference less.\<close>

lemma completed_occ: "occ x (send_handler x st v s) = (case occ x s of (i, j, c) \<Rightarrow> (i, j, c @ [(x, st, v)]))"
  "others x s (send_handler x st v s)"
  by (auto simp: occ_def others_def)

lemma finish_placed:
  fixes env :: tx_env and v :: u8
  assumes "occ x s = (i, j, [])" "i + j \<le> 1" "s_status w = IB_WC_SUCCESS \<and> st = IB_WC_SUCCESS \<longrightarrow> acked w \<or> a"
  defines "s' \<equiv> (let s = adjust_timeout env (list_del x (set_wr x w s)); st = (if s_status w \<noteq> IB_WC_SUCCESS then s_status w else st)
              in send_handler x st v s)"
  shows "others x s s' \<and> placed a (twrs s' x) (occ x s')"
proof -
  let ?s1 = "list_del x (set_wr x w s)"
  have o: "occ x ?s1 = (0, 0, [])" using list_del_occ(2) [of x "set_wr x w s" i j "[]"] assms(1,2) by auto
  have "others x s ?s1" using others_trans [OF others_set_wr list_del_occ(1)] .
  moreover have "others x ?s1 (adjust_timeout env ?s1)" by (simp add: others_def adjust_timeout_occ adjust_timeout_frame)
  ultimately have "others x s s'" unfolding s'_def Let_def using completed_occ(2) others_trans by blast
  moreover have "occ x s' = (0, 0, [(x, if s_status w \<noteq> IB_WC_SUCCESS then s_status w else st, v)])"
    unfolding s'_def Let_def completed_occ(1) adjust_timeout_occ o by simp
  moreover have "twrs s' x = w" by (simp add: s'_def Let_def adjust_timeout_frame)
  ultimately show ?thesis using assms(3) by (auto simp: placed_def)
qed

text \<open>\<open>ib_mad_complete_send_wr\<close> once the protocol has had its look at the completion.\<close>

definition decref :: "ib_wc_status \<Rightarrow> mad_send_wr \<Rightarrow> mad_send_wr" where
  "decref st w = (let w1 = (if st \<noteq> IB_WC_SUCCESS \<and> s_status w = IB_WC_SUCCESS
      then w\<lparr>s_status := st, s_refcount := s_refcount w - (if s_timeout w > 0 then 1 else 0)\<rparr> else w)
     in w1\<lparr>s_refcount := s_refcount w1 - 1\<rparr>)"

lemma complete_send_eq:
  assumes "kernel_rmpp s" "ib_process_rmpp_send_wc env x st s = Some (RESULT_PROCESSED, st', s1)" "w2 = decref st' (twrs s1 x)"
  shows "ib_mad_complete_send_wr env x st v s =
    (if s_refcount w2 > 0 then Some (if s_refcount w2 = 1 \<and> s_timeout w2 \<noteq> 0 \<and> s_status w2 = IB_WC_SUCCESS
        then wait_for_response env x (set_wr x w2 s1) else set_wr x w2 s1)
     else Some (let s = adjust_timeout env (list_del x (set_wr x w2 s1)); st = (if s_status w2 \<noteq> IB_WC_SUCCESS then s_status w2 else st')
              in send_handler x st v s))"
  using assms(1,2) unfolding assms(3) by (simp add: ib_mad_complete_send_wr_def decref_def Let_def)

lemma mark_done_occ:
  "others x s (ib_mark_mad_done x s)" "twrs (ib_mark_mad_done x s) x = (twrs s x)\<lparr>s_timeout := 0\<rparr>"
  "occ x s = (i, j, c) \<Longrightarrow> occ x (ib_mark_mad_done x s) = (if s_refcount (twrs s x) = 1 then (i - 1, j - 1, c) else (i, j, c))"
  "kernel_rmpp (ib_mark_mad_done x s) = kernel_rmpp s"
proof -
  let ?s = "set_wr x ((twrs s x)\<lparr>s_timeout := 0\<rparr>) s"
  have e: "ib_mark_mad_done x s = (if s_refcount (twrs s x) = 1 then (list_del x ?s)\<lparr>done_list := done_list (list_del x ?s) @ [x]\<rparr> else ?s)"
    by (simp add: ib_mark_mad_done_def Let_def)
  have d: "occ y (q\<lparr>done_list := l\<rparr>) = occ y q" for y q l by (simp add: occ_def)
  show "others x s (ib_mark_mad_done x s)"
    using others_trans [OF others_set_wr list_del_occ(1)] unfolding e others_def by (simp add: d)
  show "occ x s = (i, j, c) \<Longrightarrow> occ x (ib_mark_mad_done x s) = (if s_refcount (twrs s x) = 1 then (i - 1, j - 1, c) else (i, j, c))"
    using list_del_occ(2) [of x ?s i j c] unfolding e by (simp add: d)
  show "twrs (ib_mark_mad_done x s) x = (twrs s x)\<lparr>s_timeout := 0\<rparr>" "kernel_rmpp (ib_mark_mad_done x s) = kernel_rmpp s"
    unfolding e by simp_all
qed

lemma pending_placed:
  assumes "placed a (twrs s x) (occ x s)" "x \<in> pending s"
  obtains (wait) "occ x s = (1, 0, [])" "\<not> a" "waiting (twrs s x)" "x \<in> set (wait_list s)" "x \<notin> set (t_send_list s)"
    | (fly) "occ x s = (0, 1, [])" "flying a (twrs s x)" "x \<notin> set (wait_list s)" "x \<in> set (t_send_list s)"
proof -
  obtain i j c where o: "occ x s = (i, j, c)" by (cases "occ x s")
  have ij: "i > 0 \<longleftrightarrow> x \<in> set (wait_list s)" "j > 0 \<longleftrightarrow> x \<in> set (t_send_list s)" using o by (auto simp: occ_def)
  then have "i > 0 \<or> j > 0" using assms(2) by (auto simp: pending_def)
  then consider "i = 1" "j = 0" "c = []" "\<not> a" "waiting (twrs s x)" | "i = 0" "j = 1" "c = []" "flying a (twrs s x)"
    using assms(1) o by (auto simp: placed_def)
  then show thesis using o ij wait fly by cases auto
qed

definition live :: "nat \<Rightarrow> mad_agent \<Rightarrow> bool" where
  "live x s \<longleftrightarrow> s_status (twrs s x) = IB_WC_SUCCESS \<and>
     (occ x s = (1, 0, []) \<and> s_refcount (twrs s x) = 1 \<or> occ x s = (0, 1, []) \<and> s_refcount (twrs s x) = 2)"

lemma pending_live:
  assumes "placed a (twrs s x) (occ x s)" "x \<in> pending s" "s_status (twrs s x) = IB_WC_SUCCESS"
    "x \<in> set (wait_list s) \<or> s_timeout (twrs s x) \<noteq> 0"
  shows "live x s \<and> \<not> a"
  using assms(1,2)
proof (cases rule: pending_placed)
  case wait
  then show ?thesis using assms(3) by (simp add: live_def waiting_def)
next
  case fly
  then show ?thesis using assms(3,4) by (auto simp: live_def flying_def)
qed

lemma complete_marked:
  assumes k: "kernel_rmpp s" and act: "active_data (s_mad (twrs s x))" and p: "live x s"
    and st2: "st = IB_WC_SUCCESS \<longrightarrow> acked (twrs s x) \<or> a"
    and r: "ib_mad_complete_send_wr env x st v (ib_mark_mad_done x s) = Some s'"
  shows "others x s s' \<and> placed a (twrs s' x) (occ x s')"
proof -
  have st: "s_status (twrs s x) = IB_WC_SUCCESS" using p by (simp add: live_def)
  let ?s1 = "ib_mark_mad_done x s" and ?w1 = "(twrs s x)\<lparr>s_timeout := 0\<rparr>"
  have wc: "ib_process_rmpp_send_wc env x st ?s1 = Some (RESULT_PROCESSED, st, ?s1)"
    using act by (simp add: ib_process_rmpp_send_wc_def mark_done_occ(2) active_data_def Let_def)
  define w2 where "w2 = decref st ?w1"
  have w2: "s_refcount w2 = s_refcount (twrs s x) - 1" "s_status w2 = st" "s_timeout w2 = 0" "acked w2 = acked (twrs s x)"
    using st by (simp_all add: w2_def acked_def decref_def Let_def)
  have e2: "ib_mad_complete_send_wr env x st v ?s1 =
    (if s_refcount w2 > 0 then Some (set_wr x w2 ?s1)
     else Some (let s = adjust_timeout env (list_del x (set_wr x w2 ?s1)); st = (if s_status w2 \<noteq> IB_WC_SUCCESS then s_status w2 else st)
              in send_handler x st v s))"
    using complete_send_eq [OF _ wc, of w2 v] k w2(3) by (simp add: mark_done_occ(2,4) w2_def)
  consider (wait) "occ x s = (1, 0, [])" "s_refcount (twrs s x) = 1" | (fly) "occ x s = (0, 1, [])" "s_refcount (twrs s x) = 2"
    using p by (auto simp: live_def)
  then show ?thesis
  proof cases
    case wait
    have "occ x ?s1 = (0, 0, [])" using mark_done_occ(3) [OF wait(1)] wait(2) by simp
    moreover have s': "(let s = adjust_timeout env (list_del x (set_wr x w2 ?s1)); st = (if s_status w2 \<noteq> IB_WC_SUCCESS then s_status w2 else st)
              in send_handler x st v s) = s'" using r e2 w2(1) wait(2) by simp
    ultimately have "others x ?s1 s' \<and> placed a (twrs s' x) (occ x s')"
      using finish_placed [of x ?s1 0 0 w2 st a env v, unfolded s'] w2(2,4) st2 by simp
    then show ?thesis using others_trans [OF mark_done_occ(1)] by blast
  next
    case fly
    then have s': "s' = set_wr x w2 ?s1" using r e2 w2 by simp
    have "flying a w2" using w2 fly(2) st2 by (auto simp: flying_def)
    moreover have "occ x s' = (0, 1, [])" using mark_done_occ(3) [OF fly(1)] fly(2) by (simp add: s')
    ultimately show ?thesis using others_trans [OF mark_done_occ(1) others_set_wr] by (simp add: s' placed_def)
  qed
qed

lemma processed_flying:
  assumes k: "kernel_rmpp s" and wc: "ib_process_rmpp_send_wc env x st s = Some (RESULT_PROCESSED, st', s1)"
    and o: "occ x s1 = (0, 1, [])" and fl: "flying a (twrs s1 x)"
    and r: "ib_mad_complete_send_wr env x st v s = Some s'"
  shows "others x s1 s' \<and> placed a (twrs s' x) (occ x s')"
proof -
  let ?w = "twrs s1 x"
  define w2 where "w2 = decref st' ?w"
  note e = complete_send_eq [OF k wc w2_def, of v]
  have ack: "acked w2 = acked ?w" "s_timeout_ms w2 = s_timeout_ms ?w" by (simp_all add: w2_def decref_def Let_def acked_def)
  show ?thesis
  proof (cases "s_refcount w2 = 1")
    case True
    then have f: "s_refcount ?w = 2" "st' = IB_WC_SUCCESS" "s_timeout ?w \<noteq> 0" "s_status ?w = IB_WC_SUCCESS" "acked ?w \<longrightarrow> s_timeout_ms ?w \<noteq> 0" "\<not> a"
      using fl by (auto simp: w2_def decref_def flying_def Let_def word_neq_0_conv split: if_splits)
    then have s': "s' = wait_for_response env x (set_wr x w2 s1)" using r e by (simp add: w2_def decref_def Let_def)
    have "occ x s' = (1, 0, [])" using wait_for_response_occ(2) [of x "set_wr x w2 s1" 0 1 "[]" env] o by (simp add: s')
    moreover have "waiting (twrs s' x)"
      using f by (simp add: s' wait_for_response_occ(3) waiting_def w2_def decref_def acked_def Let_def)
    ultimately show ?thesis using others_trans [OF others_set_wr wait_for_response_occ(1)] f(6) by (simp add: s' placed_def)
  next
    case False
    then have z: "s_refcount w2 = 0" "s_status w2 = IB_WC_SUCCESS \<and> st' = IB_WC_SUCCESS \<longrightarrow> acked w2 \<or> a"
      using fl ack(1) by (auto simp: w2_def decref_def flying_def Let_def word_neq_0_conv split: if_splits)
    have "s' = (let s = adjust_timeout env (list_del x (set_wr x w2 s1)); st = (if s_status w2 \<noteq> IB_WC_SUCCESS then s_status w2 else st')
              in send_handler x st v s)" using r e z(1) by simp
    then show ?thesis using finish_placed [OF o _ z(2), of env v] by simp
  qed
qed

lemma bind_pair: "Option.bind m f = Some r \<Longrightarrow> \<exists>a b. m = Some (a, b) \<and> f (a, b) = Some r"
  by (cases m) auto

lemma complete_flying:
  assumes k: "kernel_rmpp s" and act: "active_data (s_mad (twrs s x))" and o: "occ x s = (0, 1, [])" and fl: "flying a (twrs s x)"
    and m: "m2j_ok env" and r: "ib_mad_complete_send_wr env x st v s = Some s'"
  shows "others x s s' \<and> placed a (twrs s' x) (occ x s')"
proof -
  let ?w = "twrs s x"
  obtain res st' s1 where wc: "ib_process_rmpp_send_wc env x st s = Some (res, st', s1)"
    using r k by (auto simp: ib_mad_complete_send_wr_def split: Option.bind_splits)
  have a: "others x s s1 \<and> occ x s1 = (0, 1, []) \<and> flying a (twrs s1 x) \<and> (res = RESULT_PROCESSED \<or> res = RESULT_CONSUMED)"
  proof (cases "st \<noteq> IB_WC_SUCCESS \<or> s_status ?w \<noteq> IB_WC_SUCCESS \<or> s_timeout ?w = 0 \<or>
      (s_last_ack ?w \<noteq> s_seg_count ?w \<and> (s_seg_num ?w = s_newwin ?w \<or> s_seg_num ?w = s_seg_count ?w))")
    case True
    then have "ib_process_rmpp_send_wc env x st s = Some (RESULT_PROCESSED, st, s)"
      using act unfolding ib_process_rmpp_send_wc_def active_data_def Let_def by (simp only: if_False if_True simp_thms) auto
    then have "(res, st', s1) = (RESULT_PROCESSED, st, s)" using wc by (metis option.inject)
    then have "res = RESULT_PROCESSED" "s1 = s" by blast+
    then show ?thesis using o fl others_refl [of x s] by blast
  next
    case False
    then have f: "s_refcount ?w = 2" "s_status ?w = IB_WC_SUCCESS" "s_timeout ?w \<noteq> 0" "acked ?w \<longrightarrow> s_timeout_ms ?w \<noteq> 0" "\<not> a"
      using fl by (auto simp: flying_def)
    show ?thesis
    proof (cases "s_last_ack ?w = s_seg_count ?w")
      case True
      then have "tx_m2j env (s_timeout_ms ?w) \<noteq> 0" using f m by (simp add: acked_def m2j_ok_def)
      then show ?thesis
        using wc act o f False True by (auto simp: ib_process_rmpp_send_wc_def active_data_def Let_def flying_def acked_def)
    next
      case na: False
      have e: "ib_process_rmpp_send_wc env x st s = Option.bind (send_next_seg env x s)
          (\<lambda>(ok, s). Some (if ok then (RESULT_CONSUMED, st, s) else (RESULT_PROCESSED, IB_WC_GENERAL_ERR, s)))"
        using act False na unfolding ib_process_rmpp_send_wc_def active_data_def Let_def by simp
      obtain ok s2 where sn: "send_next_seg env x s = Some (ok, s2)" using bind_pair [OF wc [unfolded e]] by blast
      have "(if ok then (RESULT_CONSUMED, st, s2) else (RESULT_PROCESSED, IB_WC_GENERAL_ERR, s2)) = (res, st', s1)"
        using wc unfolding e sn by simp
      then have res: "res = RESULT_PROCESSED \<or> res = RESULT_CONSUMED" and "s2 = s1" by (simp_all split: if_splits)
      note sn = sn [unfolded \<open>s2 = s1\<close>]
      show ?thesis using send_next_seg_acct [OF sn] f m o res by (simp add: flying_def)
    qed
  qed
  show ?thesis
  proof (cases "res = RESULT_CONSUMED")
    case True
    then have "s' = s1" using r k wc by (simp add: ib_mad_complete_send_wr_def)
    then show ?thesis using a by (simp add: placed_def)
  next
    case False
    then have "ib_process_rmpp_send_wc env x st s = Some (RESULT_PROCESSED, st', s1)" using a wc by simp
    then show ?thesis using processed_flying [OF k _ _ _ r] a others_trans by blast
  qed
qed

text \<open>\<open>A\<close> is the set of the sends whose response was handed to the client.\<close>

definition acct :: "nat set \<Rightarrow> mad_agent \<Rightarrow> bool" where
  "acct A s \<longleftrightarrow> (\<forall>x. placed (x \<in> A) (twrs s x) (occ x s))"

lemma acct_one: "acct A s \<Longrightarrow> others x s s' \<Longrightarrow> placed (x \<in> A) (twrs s' x) (occ x s') \<Longrightarrow> acct A s'"
  unfolding acct_def others_def by metis

lemma acct_rx [simp]: "acct A (s\<lparr>rx := r\<rparr>) = acct A s"
  by (simp add: acct_def)

lemma find_send_status: "ib_find_send_mad env s wc = Some x \<Longrightarrow> s_status (twrs s x) = IB_WC_SUCCESS"
  by (auto simp: ib_find_send_mad_def Let_def split: option.splits if_splits)

lemma abort_send_acct:
  assumes acct: "acct A s" and inv: "tx_inv b P w0 s" and r: "abort_send env wc st s = Some s'"
  shows "acct A s'"
proof (cases "ib_find_send_mad env s wc")
  case None
  then show ?thesis using r acct by (simp add: abort_send_def)
next
  case (Some x)
  let ?w = "twrs s x"
  have x: "x \<in> pending s" using Some by (rule find_send_pending)
  show ?thesis
  proof (cases "s_last_ack ?w = s_seg_count ?w \<or> s_timeout ?w = 0 \<or> s_status ?w \<noteq> IB_WC_SUCCESS")
    case True
    then show ?thesis using r acct Some by (simp add: abort_send_def Let_def)
  next
    case False
    have "active_data (s_mad ?w)" using tx_inv_at [OF inv x] by (simp add: wr_ok_def)
    moreover have "ib_mad_complete_send_wr env x IB_WC_REM_ABORT_ERR st (ib_mark_mad_done x s) = Some s'"
      using r Some False by (simp add: abort_send_def Let_def)
    ultimately have "others x s s' \<and> placed (x \<in> A) (twrs s' x) (occ x s')"
      using complete_marked [OF tx_invD(1) [OF inv], of x IB_WC_REM_ABORT_ERR "x \<in> A" env st s'] pending_live [OF _ x, of "x \<in> A"] acct False
      by (simp add: acct_def)
    then show ?thesis using acct_one [OF acct] by blast
  qed
qed

lemma abort_and_nack_acct:
  "acct A s \<Longrightarrow> tx_inv b P w0 s \<Longrightarrow> abort_and_nack env wc st s = Some s' \<Longrightarrow> acct A s'"
  using abort_send_acct by (auto simp: abort_and_nack_def nack_def)

lemma process_ds_ack_acct: "acct A s \<Longrightarrow> acct A (process_ds_ack wc nw s)"
  by (simp add: process_ds_ack_def Let_def split: option.split)

lemma resent_occ:
  fixes w :: mad_send_wr
  assumes "occ x s = (i, j, c)" "i + j = 1"
  defines "s' \<equiv> (let s2 = list_del x (set_wr x w s) in s2\<lparr>t_send_list := t_send_list s2 @ [x]\<rparr>)"
  shows "others x s s' \<and> occ x s' = (0, 1, c) \<and> twrs s' x = w"
proof -
  have "occ x (list_del x (set_wr x w s)) = (0, 0, c)" using list_del_occ(2) [of x "set_wr x w s" i j c] assms(1,2) by auto
  then have "occ x s' = (0, 1, c)" by (auto simp: s'_def Let_def occ_def)
  moreover have "others x s s'"
    using others_trans [OF others_set_wr [of x s w] list_del_occ(1)] by (simp add: s'_def Let_def others_def occ_def)
  ultimately show ?thesis by (simp add: s'_def Let_def)
qed

lemma ack_send_acct:
  assumes k: "kernel_rmpp s" and act: "active_data (s_mad (twrs s x))" and live: "live x s" and t: "s_timeout (twrs s x) \<noteq> 0" and na: "\<not> a"
    and m: "m2j_ok env" and r: "ack_send env wc x s = Some s'"
  shows "others x s s' \<and> placed a (twrs s' x) (occ x s')"
proof -
  let ?w = "twrs s x"
  have st: "s_status ?w = IB_WC_SUCCESS" using live by (simp add: live_def)
  consider (all) "acked ?w" "s_timeout_ms ?w = 0" | (response) "acked ?w" "s_timeout_ms ?w \<noteq> 0"
    | (more) "\<not> acked ?w" "s_refcount ?w = 1 \<and> s_seg_num ?w < s_newwin ?w \<and> s_seg_num ?w < s_seg_count ?w"
    | (wait) "\<not> acked ?w" "\<not> (s_refcount ?w = 1 \<and> s_seg_num ?w < s_newwin ?w \<and> s_seg_num ?w < s_seg_count ?w)"
    by blast
  then show ?thesis
  proof cases
    case all
    then have "ib_mad_complete_send_wr env x IB_WC_SUCCESS 0 (ib_mark_mad_done x s) = Some s'"
      using r by (simp add: ack_send_def acked_def Let_def)
    then show ?thesis using complete_marked [OF k act live, of IB_WC_SUCCESS a] all by simp
  next
    case response
    let ?s = "set_wr x (?w\<lparr>s_timeout := tx_m2j env (s_timeout_ms ?w)\<rparr>) s"
    have s': "s' = (if s_refcount ?w = 1 then ib_reset_mad_timeout env x (s_timeout_ms ?w) s else s)\<lparr>rx := rx s'\<rparr>"
      using r response by (auto simp: ack_send_def acked_def Let_def)
    show ?thesis
    proof (cases "s_refcount ?w = 1")
      case True
      let ?s2 = "wait_for_response env x ?s"
      have "occ x s = (1, 0, [])" using live True by (auto simp: live_def)
      then have "occ x ?s2 = (1, 0, [])" using wait_for_response_occ(2) [of x ?s 1 0 "[]" env] by simp
      moreover have "others x s ?s2" using others_trans [OF others_set_wr wait_for_response_occ(1)] .
      moreover have "waiting (twrs ?s2 x)" using response st True by (simp add: wait_for_response_occ(3) waiting_def acked_def)
      moreover have "occ y s' = occ y ?s2" "twrs s' = twrs ?s2" for y using True by (subst s', simp add: ib_reset_mad_timeout_def)+
      ultimately show ?thesis using na by (simp add: placed_def others_def)
    next
      case False
      have "occ y s' = occ y s" "twrs s' = twrs s" for y using False by (subst s', simp)+
      moreover have "flying a ?w" "occ x s = (0, 1, [])" using live False response t na by (auto simp: live_def flying_def)
      ultimately show ?thesis by (simp add: others_def placed_def)
    qed
  next
    case more
    have o: "occ x s = (1, 0, [])" using live more by (auto simp: live_def)
    have e: "ack_send env wc x s = Option.bind (send_next_seg env x s) (\<lambda>(ok, s). Some (if ok
       then let wr = twrs s x; s = list_del x (set_wr x (wr\<lparr>s_refcount := s_refcount wr + 1\<rparr>) s) in s\<lparr>t_send_list := t_send_list s @ [x]\<rparr> else s))"
      using more by (simp add: ack_send_def acked_def Let_def)
    obtain ok s2 where sn: "send_next_seg env x s = Some (ok, s2)" using bind_pair [OF r [unfolded e]] by blast
    note sa = send_next_seg_acct [OF sn]
    define w where "w = (twrs s2 x)\<lparr>s_refcount := s_refcount (twrs s2 x) + 1\<rparr>"
    have s': "s' = (if ok then let s = list_del x (set_wr x w s2) in s\<lparr>t_send_list := t_send_list s @ [x]\<rparr> else s2)"
      using r unfolding e sn by (cases ok) (simp_all add: w_def Let_def)
    show ?thesis
    proof (cases ok)
      case True
      have "flying a w" using sa st more t m na by (simp add: w_def flying_def acked_def)
      then show ?thesis
        using resent_occ [of x s2 1 0 "[]" w] sa(1,2) o others_trans [OF sa(1)] True unfolding s' by (simp add: placed_def)
    next
      case False
      have "waiting (twrs s2 x)" using sa st more by (simp add: waiting_def acked_def)
      then show ?thesis using sa(1,2) o False na by (simp add: s' placed_def)
    qed
  next
    case wait
    then have "ack_send env wc x s = Some s" unfolding ack_send_def acked_def Let_def by (simp only: if_False simp_thms)
    then have "s' = s" using r by simp
    moreover have "placed a ?w (occ x s)" using live wait t na by (auto simp: live_def placed_def waiting_def flying_def)
    ultimately show ?thesis by simp
  qed
qed

lemma if_chain_cases:
  "(if a then Some p else if b then Some q else if c then R else if d then Some q else T) = Some r \<Longrightarrow>
    r = p \<or> r = q \<or> R = Some r \<or> \<not> b \<and> T = Some r"
  by (auto split: if_splits)

lemma process_rmpp_ack_acct:
  assumes acct: "acct A s" and inv: "tx_inv b P w0 s" and m: "m2j_ok env" and r: "process_rmpp_ack env wc s = Some s'"
  shows "acct A s'"
proof -
  define h where "h = rmpp_hdr (rb_mad (recv_buf wc))"
  define n nw where "n = sint (hdr_seg_num h)" and "nw = sint (paylen_newwin h)"
  note un = process_rmpp_ack_def Let_def h_def [symmetric] n_def [symmetric] nw_def [symmetric]
  note ab = abort_and_nack_acct [OF acct inv]
  show ?thesis
  proof (cases "rmpp_status h \<noteq> 0 \<or> nw < n")
    case True
    then show ?thesis using ab r unfolding un by (auto split: if_splits)
  next
    case ok: False
    show ?thesis
    proof (cases "ib_find_send_mad env s wc")
      case None
      then have "s' = process_ds_ack wc nw s \<or> s' = s" using ok r unfolding un by auto
      then show ?thesis using acct process_ds_ack_acct by auto
    next
      case (Some x)
      let ?w = "twrs s x"
      have x: "x \<in> pending s" using Some by (rule find_send_pending)
      define w where "w = (if n > s_last_ack ?w then (adjust_last_ack n ?w)\<lparr>s_retries_left := s_max_retries ?w\<rparr> else ?w)\<lparr>s_newwin := nw\<rparr>"
      have e: "process_rmpp_ack env wc s =
        (if s_last_ack ?w = s_seg_count ?w \<and> s_timeout ?w \<noteq> 0 then Some (s\<lparr>rx := ack_ds_ack (tx_rx env) wc (rx s)\<rparr>)
         else if s_last_ack ?w = s_seg_count ?w \<or> s_timeout ?w = 0 \<or> s_status ?w \<noteq> IB_WC_SUCCESS then Some s
         else if n > s_seg_count ?w \<or> n > s_newwin ?w then abort_and_nack env wc IB_MGMT_RMPP_STATUS_S2B s
         else if nw < s_newwin ?w \<or> n < s_last_ack ?w then Some s
         else ack_send env wc x (set_wr x w s))"
        using ok Some unfolding un by (simp add: w_def)
      consider "s' = s\<lparr>rx := ack_ds_ack (tx_rx env) wc (rx s)\<rparr>" | "s' = s" | "abort_and_nack env wc IB_MGMT_RMPP_STATUS_S2B s = Some s'"
        | (send) "s_timeout ?w \<noteq> 0" "s_status ?w = IB_WC_SUCCESS" "ack_send env wc x (set_wr x w s) = Some s'"
        using if_chain_cases [OF r [unfolded e]] by blast
      then show ?thesis
      proof cases
        case send
        have f: "s_status w = s_status ?w" "s_timeout w = s_timeout ?w" "s_refcount w = s_refcount ?w" "s_mad w = s_mad ?w"
          by (simp_all add: w_def adjust_last_ack_def Let_def)
        have pl: "live x s \<and> x \<notin> A" using pending_live [OF _ x send(2), of "x \<in> A"] send(1) acct by (simp add: acct_def)
        then have l: "live x (set_wr x w s)" by (simp add: live_def f)
        have "active_data (s_mad ?w)" using tx_inv_at [OF inv x] by (simp add: wr_ok_def)
        then have "others x (set_wr x w s) s' \<and> placed (x \<in> A) (twrs s' x) (occ x s')"
          using tx_invD(1) [OF inv] send f pl by (intro ack_send_acct [OF _ _ l _ _ m send(3)]) simp_all
        then show ?thesis using acct_one [OF acct] others_trans [OF others_set_wr] by blast
      qed (use acct ab in auto)
    qed
  qed
qed

lemma recv_wc_acct:
  assumes "acct A s" "tx_inv b P w0 s" "m2j_ok env" "ib_process_rmpp_recv_wc env wc s = Some (res, s')"
  shows "acct A s'"
proof -
  define h where "h = rmpp_hdr (rb_mad (recv_buf wc))"
  have ab: "abort_and_nack env wc st s = Some s1 \<Longrightarrow> acct A s1" for s1 st by (rule abort_and_nack_acct [OF assms(1,2)])
  have st: "process_rmpp_stop env wc s = Some s1 \<or> process_rmpp_abort env wc s = Some s1 \<Longrightarrow> acct A s1" for s1
    using abort_send_acct [OF assms(1,2)] abort_and_nack_acct [OF assms(1,2)]
    by (auto simp: process_rmpp_stop_def process_rmpp_abort_def Let_def split: if_splits)
  have ack: "process_rmpp_ack env wc s = Some s1 \<Longrightarrow> acct A s1" for s1 by (rule process_rmpp_ack_acct [OF assms(1-3)])
  show ?thesis
    using assms(1,4) ab st ack unfolding ib_process_rmpp_recv_wc_def Let_def h_def [symmetric]
    by (auto split: if_splits)
qed

lemma retry_send_acct:
  assumes k: "kernel_rmpp s" and m: "m2j_ok env" and act: "active_data (s_mad (twrs s x))" and o: "occ x s = (i, 0, [])"
    and w: "s_refcount (twrs s x) = 1" "s_status (twrs s x) = IB_WC_SUCCESS" and r: "retry_send env x s = Some (ok, s')"
  shows "others x s s' \<and> wait_list s' = wait_list s \<and> completed s' = completed s \<and> (if ok then occ x s' = (i, 1, []) \<and> flying False (twrs s' x) else occ x s' = occ x s)"
proof (cases "s_retries_left (twrs s x) = 0")
  case True
  then show ?thesis using r by (simp add: retry_send_def)
next
  case left: False
  define w1 where "w1 = (twrs s x)\<lparr>s_retries_left := s_retries_left (twrs s x) - 1, s_retries := s_retries (twrs s x) + 1,
      s_timeout := tx_m2j env (s_timeout_ms (twrs s x))\<rparr>"
  have fl: "has_flag (ib_get_rmpp_flags (rmpp_hdr (s_mad w1))) IB_MGMT_RMPP_FLAG_ACTIVE" using act by (simp add: w1_def active_data_def)
  show ?thesis
  proof (cases "s_last_ack w1 = s_seg_count w1")
    case True
    then have "retry_send env x s = Some (False, set_wr x w1 s)"
      using left fl k by (simp add: retry_send_def ib_retry_rmpp_def w1_def [symmetric] Let_def)
    then show ?thesis using r by auto
  next
    case na: False
    define w2 where "w2 = w1\<lparr>s_seg_num := s_last_ack w1, s_cur_seg := s_last_ack_seg w1\<rparr>"
    have eq: "set_wr x w2 (set_wr x w1 s) = set_wr x w2 s" by (simp add: set_wr_def)
    have e: "retry_send env x s = Option.bind (send_next_seg env x (set_wr x w2 s)) (\<lambda>(ret, s2). Some (if ret then (True, requeue_send x s2) else (False, s2)))"
      using left fl k na eq by (simp add: retry_send_def ib_retry_rmpp_def w1_def [symmetric] w2_def [symmetric] Let_def split: Option.bind_split)
    obtain ret s2 where sn: "send_next_seg env x (set_wr x w2 s) = Some (ret, s2)" using bind_pair [OF r [unfolded e]] by blast
    note a = send_next_seg_acct [OF sn]
    have t: "s_timeout w2 \<noteq> 0 \<or> s_timeout_ms w2 = 0" using m by (auto simp: w2_def w1_def m2j_ok_def)
    have f: "s_refcount w2 = 1" "s_status w2 = IB_WC_SUCCESS" "\<not> acked w2" using w na by (simp_all add: w2_def w1_def acked_def)
    have o2: "others x s s2" using others_trans [OF others_set_wr a(1)] .
    show ?thesis
    proof (cases ret)
      case False
      then have "ok = False" "s' = s2" using r unfolding e sn by simp_all
      then show ?thesis using o2 a by simp
    next
      case True
      let ?w = "(twrs s2 x)\<lparr>s_refcount := s_refcount (twrs s2 x) + 1\<rparr>"
      have s': "ok" "s' = requeue_send x s2"
        using r True unfolding e sn by simp_all
      have "flying False ?w" using a f m t by (simp add: flying_def acked_def)
      moreover have "occ x s' = (i, 1, [])" using o a(2) unfolding s'(2) by (auto simp: occ_def)
      moreover have "others x s s'" using o2 unfolding s'(2) by (simp add: others_def occ_def)
      moreover have "twrs s' x = ?w" "wait_list s' = wait_list s" "completed s' = completed s" using a unfolding s'(2) by simp_all
      ultimately show ?thesis using s'(1) by simp
    qed
  qed
qed

text \<open>The timer: the sends still to visit are in the wait list, those visited are not.\<close>

lemma occ_wait: "occ y (s\<lparr>wait_list := l\<rparr>) = (count (mset l) y, snd (occ y s))"
  by (simp add: occ_def)

lemma acct_wait_cons:
  assumes "acct A (s\<lparr>wait_list := x # xs\<rparr>)"
  shows "snd (occ x s) = (0, [])" "waiting (twrs s x)" "count (mset xs) x = 0" "x \<notin> A"
proof -
  have "placed (x \<in> A) (twrs s x) (Suc (count (mset xs) x), snd (occ x s))" using assms by (auto simp: acct_def occ_wait dest!: spec [of _ x])
  then show "snd (occ x s) = (0, [])" "waiting (twrs s x)" "count (mset xs) x = 0" "x \<notin> A"
    by (cases "snd (occ x s)", auto simp: placed_def)+
qed

lemma acct_wait_step:
  assumes "acct A (s\<lparr>wait_list := x # xs\<rparr>)" "others x s s1" "placed (x \<in> A) (twrs s1 x) (0, snd (occ x s1))"
  shows "acct A (s1\<lparr>wait_list := xs\<rparr>)"
  unfolding acct_def
proof
  fix y
  show "placed (y \<in> A) (twrs (s1\<lparr>wait_list := xs\<rparr>) y) (occ y (s1\<lparr>wait_list := xs\<rparr>))"
  proof (cases "y = x")
    case True
    then show ?thesis using assms(3) unfolding True occ_wait acct_wait_cons(3) [OF assms(1)] by simp
  next
    case False
    then have "twrs s1 y = twrs s y" "occ y s1 = occ y s" using assms(2) by (simp_all add: others_def)
    moreover have "placed (y \<in> A) (twrs s y) (count (mset xs) y, snd (occ y s))"
      using assms(1) False by (auto simp: acct_def occ_wait dest!: spec [of _ y])
    ultimately show ?thesis by (simp add: occ_wait)
  qed
qed

lemma timeout_loop_acct:
  assumes "m2j_ok env"
  shows "tx_inv b P w0 s \<Longrightarrow> set xs \<subseteq> set (wait_list s) \<Longrightarrow> acct A (s\<lparr>wait_list := xs\<rparr>) \<Longrightarrow>
    timeout_sends_loop env xs s = Some s' \<Longrightarrow> acct A s'"
proof (induction xs arbitrary: s)
  case Nil
  then show ?case by simp
next
  case (Cons x xs)
  have x: "x \<in> pending s" using Cons.prems(2) by (simp add: pending_def)
  have xP: "x \<in> P" and at: "at_ok b (w0 x) x s" and k: "kernel_rmpp s"
    using tx_inv_at [OF Cons.prems(1) x] tx_invD(1,2) [OF Cons.prems(1)] x by blast+
  note w = acct_wait_cons [OF Cons.prems(3)]
  show ?case
  proof (cases "time_after (s_timeout (twrs s x)) (tx_now env)")
    case True
    have "acct A (q\<lparr>timed_work := t\<rparr>) = acct A q" for q t by (simp add: acct_def)
    then show ?thesis using True Cons.prems(3,4) by (auto simp: Let_def)
  next
    case False
    obtain i where i: "occ x s = (i, 0, [])" using w(1) by (cases "occ x s") auto
    have act: "active_data (s_mad (twrs s x))" using at by (simp add: wr_ok_def)
    obtain ok s1 where r: "(if s_status (twrs s x) = IB_WC_SUCCESS then retry_send env x s else Some (False, s)) = Some (ok, s1)"
      "one_step b (w0 x) x s s1" "wait_list s1 = wait_list s" "others x s s1"
      "if ok then occ x s1 = (i, 1, []) \<and> flying False (twrs s1 x) else occ x s1 = occ x s"
    proof (cases "s_status (twrs s x) = IB_WC_SUCCESS")
      case True
      then have rc: "s_refcount (twrs s x) = 1" using w(2) by (simp add: waiting_def)
      obtain ok s1 where r: "retry_send env x s = Some (ok, s1)" "one_step b (w0 x) x s s1" "wait_list s1 = wait_list s"
        using retry_send_step [OF at k, of env] by blast
      then show ?thesis using retry_send_acct [OF k assms act i rc True r(1)] that [of ok s1] True by simp
    next
      case False
      then show ?thesis using that [of False s] one_step_refl at by simp
    qed
    have inv1: "tx_inv b P w0 s1" by (rule tx_inv_one [OF Cons.prems(1) xP r(2)])
    show ?thesis
    proof (cases ok)
      case True
      then have "acct A (s1\<lparr>wait_list := xs\<rparr>)" using r(4,5) w(4) by (intro acct_wait_step [OF Cons.prems(3)]) (simp_all add: placed_def)
      then show ?thesis using Cons.IH [OF inv1] Cons.prems(2,4) False r(1,3) True by simp
    next
      case nok: False
      let ?st = "if s_status (twrs s1 x) = IB_WC_SUCCESS then IB_WC_RESP_TIMEOUT_ERR else s_status (twrs s1 x)"
      let ?c = "send_handler x ?st 0 s1"
      have "occ x s1 = (i, 0, [])" using r(5) nok i by simp
      then have "occ x ?c = (i, 0, [(x, ?st, 0)])" using completed_occ(1) [of x ?st 0 s1] by simp
      moreover have "?st \<noteq> IB_WC_SUCCESS" by simp
      ultimately have "placed (x \<in> A) (twrs ?c x) (0, snd (occ x ?c))" by (simp add: placed_def)
      then have "acct A (?c\<lparr>wait_list := xs\<rparr>)" using others_trans [OF r(4) completed_occ(2)] by (intro acct_wait_step [OF Cons.prems(3)]) simp_all
      moreover have "tx_inv b P w0 ?c" by (rule tx_inv_upd(1) [OF inv1])
      ultimately show ?thesis using Cons.IH [of ?c] Cons.prems(2,4) False r(1,3) nok by (simp add: Let_def)
    qed
  qed
qed

lemma timeout_sends_acct:
  assumes "m2j_ok env" "tx_inv b P w0 s" "acct A s" "timeout_sends env s = Some s'"
  shows "acct A s'"
proof -
  have "tx_inv b P w0 (s\<lparr>timed_work := None\<rparr>)" by (rule tx_inv_upd(2) [OF assms(2)])
  moreover have "acct A (s\<lparr>timed_work := None\<rparr>\<lparr>wait_list := wait_list s\<rparr>)"
    using assms(3) by (simp add: acct_def occ_def)
  ultimately show ?thesis
    using timeout_loop_acct [OF assms(1), of b P w0 "s\<lparr>timed_work := None\<rparr>" "wait_list s" A s'] assms(4)
    by (simp add: timeout_sends_def)
qed

lemma post_acct:
  assumes acct: "acct A s" and m: "m2j_ok env" and w: "new_msg (twrs s x)" and x: "occ x s = (0, 0, [])"
    and r: "ib_post_send_rmpp env x s = Some (ok, s')"
  shows "acct A s'"
proof -
  define w2 where "w2 = posted_wr env s (twrs s x)"
  define s2 where "s2 = (set_wr x w2 s)\<lparr>agent_refs := agent_refs s + 1, t_send_list := t_send_list s @ [x]\<rparr>"
  have "active_data (s_mad (twrs s x))" using w by (simp add: new_msg_def)
  from post_eq [OF this] have e: "ib_post_send_rmpp env x s = Option.bind (send_next_seg env x s2) (\<lambda>(ok, s). Some (ok, if ok then s else fail_send x s))"
    by (simp add: w2_def [symmetric] s2_def [symmetric])
  obtain ret s3 where sn: "send_next_seg env x s2 = Some (ret, s3)" using bind_pair [OF r [unfolded e]] by blast
  then have s': "s' = (if ret then s3 else fail_send x s3)" using r unfolding e by auto
  note a = send_next_seg_acct [OF sn]
  have tw: "twrs s2 x = w2" by (simp add: s2_def)
  have o2: "occ x s2 = (0, 1, [])" "others x s s2" using x by (auto simp: s2_def occ_def others_def)
  have o3: "others x s s3" using others_trans [OF o2(2) a(1)] .
  have f: "s_refcount w2 = 2" "s_status w2 = IB_WC_SUCCESS" "\<not> acked w2" "s_timeout w2 \<noteq> 0 \<or> s_timeout_ms w2 = 0"
    using w m by (auto simp: w2_def posted_wr_def acked_def new_msg_def m2j_ok_def)
  have na: "x \<notin> A" using acct x by (auto simp: acct_def placed_def dest!: spec [of _ x])
  have fl: "flying False (twrs s3 x)" using a f m by (simp add: tw flying_def)
  show ?thesis
  proof (cases ret)
    case True
    then show ?thesis using acct_one [OF acct o3] fl a(2) o2(1) na by (simp add: s' placed_def)
  next
    case False
    have oc: "occ y (fail_send x s3) = occ y (list_del x s3)" for y by (simp add: fail_send_def Let_def occ_def)
    then have "occ x (fail_send x s3) = (0, 0, [])" using list_del_occ(2) [of x s3 0 1 "[]"] a(2) o2(1) by simp
    moreover have "others x s3 (fail_send x s3)" using list_del_occ(1) [of x s3] by (simp add: others_def oc)
    ultimately show ?thesis using acct_one [OF acct others_trans [OF o3]] False na by (simp add: s' placed_def)
  qed
qed

text \<open>A response, a change of the timeout, and the end of the agent.\<close>

lemma find_send_live:
  assumes "acct A s" "ib_find_send_mad env s wc = Some x"
  shows "live x s \<and> x \<notin> A"
proof -
  have "x \<in> set (wait_list s) \<or> s_timeout (twrs s x) \<noteq> 0"
    using assms(2) by (auto simp: ib_find_send_mad_def Let_def find_Some_iff split: option.splits if_splits dest: find_send_in)
  then show ?thesis
    using pending_live [of "x \<in> A" s x] find_send_pending [OF assms(2)] find_send_status [OF assms(2)] assms(1) by (simp add: acct_def)
qed

lemma complete_response_acct:
  assumes acct: "acct A s" and inv: "tx_inv b P w0 s" and f: "ib_find_send_mad env s wc = Some x"
    and resp: "ib_response_mad (mad_hdr (rb_mad (recv_buf wc)))" and r: "complete_response env wc s = Some s'"
  shows "acct (insert x A) s' \<and> x \<notin> A"
proof -
  let ?s = "deref_mad_agent (recv_handler (Some x) wc s)"
  have same: "occ y ?s = occ y s" for y by (simp add: occ_def)
  have l: "live x ?s" "x \<notin> A" using find_send_live [OF acct f] same by (simp_all add: live_def)
  have "ib_mad_complete_send_wr env x IB_WC_SUCCESS 0 (ib_mark_mad_done x ?s) = Some s'"
    using r f resp by (simp add: complete_response_def Let_def mark_delivered)
  moreover have "active_data (s_mad (twrs ?s x))" using tx_inv_at [OF inv find_send_pending [OF f]] by (simp add: wr_ok_def)
  ultimately have c: "others x ?s s' \<and> placed True (twrs s' x) (occ x s')"
    using complete_marked [OF _ _ l(1), of IB_WC_SUCCESS True] tx_invD(1) [OF inv] by simp
  have "placed (y \<in> insert x A) (twrs s' y) (occ y s')" for y
  proof (cases "y = x")
    case False
    then have "twrs s' y = twrs s y" "occ y s' = occ y s" using c same by (simp_all add: others_def)
    then show ?thesis using acct False by (simp add: acct_def)
  qed (use c in simp)
  then show ?thesis using l(2) by (simp add: acct_def)
qed

lemma modified_fields:
  "acked (modified tmo w) = acked w" "s_timeout_ms (modified tmo w) = tmo"
  "s_status (modified tmo w) = (if tmo = 0 then IB_WC_WR_FLUSH_ERR else s_status w)"
  "s_refcount (modified tmo w) = s_refcount w - (if tmo = 0 \<and> s_timeout w > 0 then 1 else 0)"
  by (simp_all add: modified_def flush_send_def acked_def)

lemma modified_flying:
  assumes "flying a w" "s_status w = IB_WC_SUCCESS" "tmo \<noteq> 0 \<longrightarrow> s_timeout w \<noteq> 0 \<and> t \<noteq> 0"
  shows "flying a ((modified tmo w)\<lparr>s_timeout := t\<rparr>)"
proof -
  have f: "acked ((modified tmo w)\<lparr>s_timeout := t\<rparr>) = acked w" by (simp add: modified_def flush_send_def acked_def)
  show ?thesis
    using assms unfolding flying_def f by (cases "tmo = 0") (auto simp: modified_fields word_neq_0_conv)
qed

lemma modify_acct:
  assumes acct: "acct A s" and m: "m2j_ok env" and u: "tmo \<noteq> 0 \<longrightarrow> undecided x s" and r: "ib_modify_mad env cc_ret x tmo s = (ret, s')"
  shows "acct A s'"
proof -
  let ?w = "twrs s x" and ?t = "tx_m2j env tmo"
  let ?w' = "(modified tmo ?w)\<lparr>s_timeout := ?t\<rparr>"
  have p: "placed (x \<in> A) ?w (occ x s)" using acct by (simp add: acct_def)
  have f: "acked (?w'\<lparr>s_timeout := t\<rparr>) = acked ?w" "acked ?w' = acked ?w" for t by (simp_all add: modified_def flush_send_def acked_def)
  have wt: "waiting ?w'" "waiting (?w'\<lparr>s_timeout := t\<rparr>)" if "waiting ?w" "s_status ?w = IB_WC_SUCCESS" for t
    using that unfolding waiting_def f by (cases "tmo = 0"; simp add: modified_fields)+
  have t0: "tmo \<noteq> 0 \<longrightarrow> ?t \<noteq> 0" using m by (simp add: m2j_ok_def)
  show ?thesis
    using r
  proof (cases rule: modify_cases)
    case same
    then show ?thesis using acct by simp
  next
    case active
    from p active(1) show ?thesis
    proof (cases rule: pending_placed)
      case wait
      then have "placed (x \<in> A) (twrs s' x) (occ x s')" using active wt by (simp add: placed_def)
      then show ?thesis using acct_one [OF acct, of x s'] active(4) by simp
    next
      case fly
      then have "flying (x \<in> A) ?w'" using active(2) u t0 by (intro modified_flying) (auto simp: undecided_def)
      then have "placed (x \<in> A) (twrs s' x) (occ x s')" using active fly by (simp add: placed_def)
      then show ?thesis using acct_one [OF acct, of x s'] active(4) by simp
    qed
  next
    case w: wait
    from p w(1) show ?thesis
    proof (cases rule: pending_placed)
      case wait
      have "occ x s' = (1, 0, [])" using wait_for_response_occ(2) [of x "set_wr x ?w' s" 1 0 "[]" env] wait(1) by (simp add: w(5))
      moreover have "twrs s' x = ?w'\<lparr>s_timeout := ?t + tx_now env\<rparr>" by (simp add: w(5) wait_for_response_occ(3))
      ultimately have "placed (x \<in> A) (twrs s' x) (occ x s')" using wait wt(2) [OF wait(3) w(2)] by (simp add: placed_def)
      moreover have "others x s s'" using others_trans [OF others_set_wr wait_for_response_occ(1)] by (simp add: w(5))
      ultimately show ?thesis using acct_one [OF acct] by blast
    next
      case fly
      then show ?thesis using w(2-4) by (auto simp: flying_def)
    qed
  qed
qed

lemma cancel_acct:
  assumes acct: "acct A s"
  shows "acct A (cancel_mads s)"
  unfolding acct_def
proof
  fix x
  let ?w = "twrs s x"
  have p: "placed (x \<in> A) ?w (occ x s)" using acct by (simp add: acct_def)
  have fm: "filter (\<lambda>c. fst c = x) (map (\<lambda>y. (y, IB_WC_WR_FLUSH_ERR, 0 :: u8)) l) = replicate (count (mset l) x) (x, IB_WC_WR_FLUSH_ERR, 0)" for l
    by (induction l) auto
  obtain i j c where o: "occ x s = (i, j, c)" by (cases "occ x s")
  have o': "occ x (cancel_mads s) = (0, j, c @ replicate i (x, IB_WC_WR_FLUSH_ERR, 0))"
    using o by (auto simp: occ_def fm)
  have j: "x \<in> set (t_send_list s) \<longleftrightarrow> 0 < j" using o by (auto simp: occ_def)
  have fl: "flying (x \<in> A) (if s_status ?w = IB_WC_SUCCESS then flush_send ?w else ?w)" if "flying (x \<in> A) ?w"
    using that by (auto simp: flying_def flush_send_def word_neq_0_conv)
  show "placed (x \<in> A) (twrs (cancel_mads s) x) (occ x (cancel_mads s))"
    using p fl j unfolding o o' by (auto simp: placed_def)
qed

definition responded :: "mad_agent \<Rightarrow> nat list" where
  "responded s = List.map_filter fst (recv_handled s)"

lemma responded_cong: "recv_handled s' = recv_handled s \<Longrightarrow> responded s' = responded s"
  by (simp add: responded_def)

lemma responded_append: "recv_handled s' = recv_handled s @ l \<Longrightarrow> responded s' = responded s @ List.map_filter fst l"
  by (simp add: responded_def map_filter_def)

definition reported_ok :: "mad_agent \<Rightarrow> bool" where
  "reported_ok s \<longleftrightarrow> acct (set (responded s)) s \<and> distinct (responded s)"

lemma reported_ok_same: "reported_ok s \<Longrightarrow> recv_handled s' = recv_handled s \<Longrightarrow> (acct (set (responded s)) s \<Longrightarrow> acct (set (responded s)) s') \<Longrightarrow> reported_ok s'"
  unfolding reported_ok_def using responded_cong [of s' s] by simp

lemma complete_response_reported:
  assumes "reported_ok s" "tx_inv strict P w0 s" "complete_response env wc s = Some s'"
  shows "reported_ok s'"
proof -
  have ac: "acct (set (responded s)) s" "distinct (responded s)" using assms(1) by (simp_all add: reported_ok_def)
  have h: "recv_handled s' = recv_handled s @ (if ib_response_mad (mad_hdr (rb_mad (recv_buf wc)))
      then case ib_find_send_mad env s wc of None \<Rightarrow> [] | Some x \<Rightarrow> [(Some x, wc)] else [(None, wc)])"
    using complete_response_inv [OF assms(2), of env wc] assms(3) by auto
  show ?thesis
  proof (cases "ib_response_mad (mad_hdr (rb_mad (recv_buf wc))) \<and> ib_find_send_mad env s wc \<noteq> None")
    case True
    then obtain x where x: "ib_find_send_mad env s wc = Some x" by blast
    have "responded s' = responded s @ [x]" using responded_append [OF h] True x by (simp add: map_filter_def)
    then show ?thesis using complete_response_acct [OF ac(1) assms(2) x _ assms(3)] True ac(2) by (simp add: reported_ok_def)
  next
    case False
    then have "responded s' = responded s" using responded_append [OF h] by (auto simp: map_filter_def)
    moreover have "twrs s' = twrs s" "wait_list s' = wait_list s" "t_send_list s' = t_send_list s" "completed s' = completed s"
      using assms(3) False by (auto simp: complete_response_def Let_def split: if_splits)
    ultimately show ?thesis using ac by (simp add: reported_ok_def acct_def occ_def)
  qed
qed

lemma reach_acct: "tx_reach strict P w0 s \<Longrightarrow> reported_ok s"
proof (induction rule: tx_reach.induct)
  case (tx_init s)
  then show ?case by (simp add: acct_def occ_def placed_def reported_ok_def responded_def map_filter_def)
next
  case (tx_post s env x ok s')
  note inv = send_reach_inv [OF tx_post.hyps(1)]
  have "x \<notin> set (wait_list s)" "x \<notin> set (t_send_list s)" "x \<notin> fst ` set (completed s)" using tx_post.hyps(5) by (auto simp: pending_def)
  then have "occ x s = (0, 0, [])" by (auto simp: occ_def filter_empty_conv)
  moreover have "new_msg (twrs s x)" using tx_post.hyps tx_invD(4) [OF inv] by simp
  moreover have "recv_handled s' = recv_handled s" using post_inv [OF inv tx_post.hyps(3,4,6)] tx_post.hyps(7) by auto
  ultimately show ?case using reported_ok_same [OF tx_post.IH] post_acct tx_post.hyps by blast
next
  case (tx_recv s env wc res s')
  note inv = send_reach_inv [OF tx_recv.hyps(1)]
  obtain res2 s2 where "ib_process_rmpp_recv_wc env wc s = Some (res2, s2)" "tx_step strict w0 s s2"
    using recv_wc_step [OF tx_inv_at [OF inv] tx_invD(1) [OF inv] tx_recv.hyps(4) tx_invD(3) [OF inv] tx_recv.hyps(3)] by blast
  then have "recv_handled s' = recv_handled s" using tx_recv.hyps(5) one_step_handled by (auto simp: tx_step_def)
  then show ?case using reported_ok_same [OF tx_recv.IH] recv_wc_acct [OF _ inv tx_recv.hyps(2,5)] by blast
next
  case (tx_done s env x st v s')
  note inv = send_reach_inv [OF tx_done.hyps(1)]
  let ?A = "set (responded s)"
  have x: "x \<in> pending s" using tx_done.hyps by (simp add: pending_def)
  have ac: "acct ?A s" using tx_done.IH by (simp add: reported_ok_def)
  then have "placed (x \<in> ?A) (twrs s x) (occ x s)" by (simp add: acct_def)
  then have "occ x s = (0, 1, [])" "flying (x \<in> ?A) (twrs s x)" using x tx_done.hyps(3) by (auto elim: pending_placed)
  moreover have "active_data (s_mad (twrs s x))" using tx_inv_at [OF inv x] by (simp add: wr_ok_def)
  ultimately have "others x s s' \<and> placed (x \<in> ?A) (twrs s' x) (occ x s')"
    using complete_flying [OF tx_invD(1) [OF inv]] tx_done.hyps by blast
  moreover have "recv_handled s' = recv_handled s"
    using complete_send_step [OF tx_inv_at [OF inv x] tx_invD(1) [OF inv], of env st v] tx_done.hyps(4) one_step_handled by auto
  ultimately show ?case using reported_ok_same [OF tx_done.IH] acct_one [OF ac] by blast
next
  case (tx_timeout s env s')
  note inv = send_reach_inv [OF tx_timeout.hyps(1)]
  have "recv_handled s' = recv_handled s" using timeout_sends_inv [OF inv, of env] tx_timeout.hyps(3) by auto
  then show ?case using reported_ok_same [OF tx_timeout.IH] timeout_sends_acct [OF tx_timeout.hyps(2) inv _ tx_timeout.hyps(3)] by blast
next
  case (tx_arrive s env wc denied s')
  note inv = send_reach_inv [OF tx_arrive.hyps(1)]
  from inv tx_arrive.hyps(3-5) show ?case
  proof (cases rule: complete_recv_cases)
    case denied
    have "acct A s' = acct A s" for A unfolding acct_def occ_def denied ..
    then show ?thesis using reported_ok_same [OF tx_arrive.IH denied(5)] by blast
  next
    case (protocol res s1)
    have inv0: "tx_inv strict P w0 (s\<lparr>agent_refs := agent_refs s + 1\<rparr>)" using inv by (simp add: tx_inv_def pending_def)
    have "reported_ok s1"
    proof (rule reported_ok_same [OF tx_arrive.IH protocol(3)])
      assume "acct (set (responded s)) s"
      then have "acct (set (responded s)) (s\<lparr>agent_refs := agent_refs s + 1\<rparr>)" by (simp add: acct_def occ_def)
      then show "acct (set (responded s)) s1" by (rule recv_wc_acct [OF _ inv0 tx_arrive.hyps(2) protocol(1)])
    qed
    moreover have "reported_ok (deref_mad_agent s1)" if "reported_ok s1"
      using reported_ok_same [OF that] by (simp add: acct_def occ_def)
    ultimately show ?thesis
      using complete_response_reported [OF _ protocol(2)] protocol(4) by (cases res) auto
  qed
next
  case (tx_response s env wc s')
  then show ?case using complete_response_reported [OF _ send_reach_inv [OF tx_response.hyps(1)]] by blast
next
  case (tx_modify s env tmo x cc_ret ret s')
  have "recv_handled s' = recv_handled s" using modify_inv [OF send_reach_inv [OF tx_modify.hyps(1)] tx_modify.hyps(4)] by blast
  then show ?case using reported_ok_same [OF tx_modify.IH] modify_acct [OF _ tx_modify.hyps(2-4)] by blast
next
  case (tx_cancel s)
  then show ?case using reported_ok_same [OF tx_cancel.IH, of "cancel_mads s"] cancel_acct by simp
qed



lemma tx_handlers:
  assumes "tx_reach strict P w0 s"
  shows "new_packet wc (rx s) \<Longrightarrow> \<exists>res s'. ib_process_rmpp_recv_wc env wc s = Some (res, s')"
    "x \<in> set (t_send_list s) \<Longrightarrow> \<exists>s'. ib_mad_complete_send_wr env x st v s = Some s'"
    "\<exists>s'. timeout_sends env s = Some s'"
    "x \<in> P \<Longrightarrow> twrs s x = w0 x \<Longrightarrow> \<exists>ok s'. ib_post_send_rmpp env x s = Some (ok, s')"
proof -
  have inv0: "tx_inv strict P w0 s" by (rule send_reach_inv [OF assms])
  then have inv: "tx_inv False P w0 s" unfolding tx_inv_def on_wire_ok_def by blast
  show "\<exists>res s'. ib_process_rmpp_recv_wc env wc s = Some (res, s')" if "new_packet wc (rx s)"
    using recv_wc_step [OF tx_inv_at [OF inv] tx_invD(1) [OF inv] _ tx_invD(3) [OF inv] that] by blast
  show "\<exists>s'. ib_mad_complete_send_wr env x st v s = Some s'" if "x \<in> set (t_send_list s)"
  proof -
    have "x \<in> pending s" using that by (simp add: pending_def)
    then show ?thesis using complete_send_step [OF tx_inv_at [OF inv] tx_invD(1) [OF inv], of x env st v] by blast
  qed
  show "\<exists>s'. timeout_sends env s = Some s'" using timeout_sends_inv [OF inv] by blast
  show "\<exists>ok s'. ib_post_send_rmpp env x s = Some (ok, s')" if "x \<in> P" "twrs s x = w0 x"
    using post_inv [OF inv that] by blast
qed

section \<open>An example run\<close>

text \<open>A message of some segments, a millisecond being a tick of the clock, and the acknowledgements for it.\<close>

definition sx_wr :: "nat \<Rightarrow> u32 \<Rightarrow> mad_send_wr" where
  "sx_wr n tmo = \<lparr>s_mad = zero_rmpp_mad\<lparr>mad_hdr := (mad_hdr zero_rmpp_mad)\<lparr>mgmt_class := 3, mad_tid := 7\<rparr>,
       rmpp_hdr := zero_rmpp_hdr\<lparr>rmpp_version := 1, rmpp_type := 1, rmpp_rtime_flags := 1\<rparr>, mad_data := []\<rparr>,
     s_ah = 0, s_own_ah = False, s_segs = replicate n [], s_hdr_len = 56, s_data_len = 600, s_seg_count = int n, s_seg_size = 200,
     s_seg_rmpp_size = 220, s_timeout_ms = tmo, s_retries = 2, s_tid = 0, s_timeout = 0, s_max_retries = 0, s_retries_left = 0,
     s_refcount = 0, s_status = IB_WC_SUCCESS, s_last_ack_seg = 1, s_cur_seg = 1, s_last_ack = 0, s_seg_num = 0, s_newwin = 0,
     s_pad = 0, s_is_smp_mad = False, s_is_sa_cc_mad = False\<rparr>"

definition sx_env :: "u64 \<Rightarrow> tx_env" where
  "sx_env now = \<lparr>tx_now = now, tx_m2j = ucast, tx_send = SendOk, tx_dlid = (\<lambda>_. None), tx_same_gid = (\<lambda>_ _. True),
     tx_rx = \<lparr>env_ah = None, env_kmalloc = True, env_create = True, env_post = True\<rparr>\<rparr>"

definition sx_ack :: "u32 \<Rightarrow> u32 \<Rightarrow> ib_mad_recv_wc" where
  "sx_ack n nw = (let b = \<lparr>rb_addr = 10, rb_mad = zero_rmpp_mad\<lparr>mad_hdr := (mad_hdr zero_rmpp_mad)\<lparr>mgmt_class := 3, mad_tid := 7\<rparr>,
       rmpp_hdr := zero_rmpp_hdr\<lparr>rmpp_version := 1, rmpp_type := 2, rmpp_rtime_flags := 1, hdr_seg_num := n, paylen_newwin := nw\<rparr>, mad_data := []\<rparr>\<rparr>
     in \<lparr>wc_src_qp = 1, wc_slid = 4, wc_pkey_index = 0, recv_buf = b, rmpp_list = [b], mad_len = 0\<rparr>)"

definition sx_init :: "nat \<Rightarrow> u32 \<Rightarrow> mad_agent" where
  "sx_init n tmo = \<lparr>twrs = (\<lambda>_. sx_wr n tmo), wait_list = [], t_send_list = [], done_list = [], t_timeout = 0, timed_work = None, kernel_rmpp = True,
     rx = \<lparr>rmpp_recvs = [], max_active = 512, opa_mad = False, posted = [], freed_mads = [], freed_ahs = []\<rparr>, wire = [], completed = [], recv_handled = [],
     smp_done = [], cc_done = [], agent_refs = 1\<rparr>"

definition sx_posted :: "nat \<Rightarrow> u32 \<Rightarrow> mad_agent" where
  "sx_posted n tmo = snd (the (ib_post_send_rmpp (sx_env 1000) 0 (sx_init n tmo)))"

definition sx_sent :: "u64 \<Rightarrow> mad_agent \<Rightarrow> mad_agent" where
  "sx_sent t s = the (ib_mad_complete_send_wr (sx_env t) 0 IB_WC_SUCCESS 0 s)"

definition sx_acked :: "u32 \<Rightarrow> u32 \<Rightarrow> mad_agent \<Rightarrow> mad_agent" where
  "sx_acked k nw s = snd (the (ib_process_rmpp_recv_wc (sx_env 1050) (sx_ack k nw) s))"

definition sx_retried :: "u64 \<Rightarrow> mad_agent \<Rightarrow> mad_agent" where
  "sx_retried t s = the (timeout_sends (sx_env t) s)"

abbreviation sx_reach :: "nat \<Rightarrow> u32 \<Rightarrow> mad_agent \<Rightarrow> bool" where
  "sx_reach n tmo \<equiv> tx_reach False {0} (\<lambda>_. sx_wr n tmo)"

lemma ucast_eq_0_iff_u32: "(ucast (t :: u32) :: u64) = 0 \<longleftrightarrow> t = 0"
  by transfer simp

lemma sx_m2j: "m2j_ok (sx_env t)"
  by (simp add: m2j_ok_def sx_env_def ucast_eq_0_iff_u32)

lemma sx_new: "n \<in> {1, 3} \<Longrightarrow> new_msg (sx_wr n tmo)"
proof -
  assume "n \<in> {1, 3}"
  have "active_data (s_mad (sx_wr 3 0))" by code_simp
  moreover have "s_mad (sx_wr n tmo) = s_mad (sx_wr 3 0)" by (simp add: sx_wr_def)
  ultimately show ?thesis using \<open>n \<in> {1, 3}\<close> by (auto simp: new_msg_def) (auto simp: sx_wr_def)
qed

lemma sx_reach_init: "n \<in> {1, 3} \<Longrightarrow> sx_reach n tmo (sx_init n tmo)"
  by (rule tx_init) (simp_all add: sx_init_def sx_new)

lemma sx_reach_posted:
  assumes "n \<in> {1, 3}"
  shows "sx_reach n tmo (sx_posted n tmo)"
proof -
  have t: "twrs (sx_init n tmo) 0 = sx_wr n tmo" by (simp add: sx_init_def)
  obtain ok s' where r: "ib_post_send_rmpp (sx_env 1000) 0 (sx_init n tmo) = Some (ok, s')"
    using tx_handlers(4) [OF sx_reach_init [OF assms, of tmo], of 0 "sx_env 1000"] t by auto
  have "sx_reach n tmo s'"
    by (rule tx_post [OF sx_reach_init [OF assms] sx_m2j _ t _ _ r]) (simp_all add: sx_init_def pending_def)
  then show ?thesis by (simp add: sx_posted_def r)
qed

lemma sx_reach_sent:
  assumes "sx_reach n tmo s" "t_send_list s = [0]"
  shows "sx_reach n tmo (sx_sent t s)"
proof -
  have z: "0 \<in> set (t_send_list s)" using assms(2) by simp
  obtain s' where r: "ib_mad_complete_send_wr (sx_env t) 0 IB_WC_SUCCESS 0 s = Some s'"
    using tx_handlers(2) [OF assms(1) z] by blast
  show ?thesis using tx_done [OF assms(1) sx_m2j z r] by (simp add: sx_sent_def r)
qed

lemma sx_reach_acked:
  assumes "sx_reach n tmo s" "rmpp_recvs (rx s) = []"
  shows "sx_reach n tmo (sx_acked k nw s)"
proof -
  have z: "new_packet (sx_ack k nw) (rx s)" using assms(2) by (simp add: new_packet_def sx_ack_def Let_def held_def)
  obtain res s' where r: "ib_process_rmpp_recv_wc (sx_env 1050) (sx_ack k nw) s = Some (res, s')"
    using tx_handlers(1) [OF assms(1) z] by blast
  show ?thesis using tx_recv [OF assms(1) sx_m2j z _ r] by (simp add: sx_acked_def r)
qed

lemma sx_reach_retried: "sx_reach n tmo s \<Longrightarrow> sx_reach n tmo (sx_retried t s)"
proof -
  assume a: "sx_reach n tmo s"
  obtain s' where r: "timeout_sends (sx_env t) s = Some s'" using tx_handlers(3) [OF a] by blast
  show ?thesis using tx_timeout [OF a sx_m2j r] by (simp add: sx_retried_def r)
qed

text \<open>Two runs: an acknowledgement that closes the window, and a run to the end.\<close>

definition sx_closed :: mad_agent where
  "sx_closed = sx_sent 3002 (sx_retried 3001 (sx_acked 1 1 (sx_sent 1000 (sx_posted 3 0))))"


lemma sx_reach_closed: "sx_reach 3 0 sx_closed"
proof -
  have "t_send_list (sx_posted 3 0) = [0]" "rmpp_recvs (rx (sx_sent 1000 (sx_posted 3 0))) = []"
    "t_send_list (sx_retried 3001 (sx_acked 1 1 (sx_sent 1000 (sx_posted 3 0)))) = [0]"
    by code_simp+
  then show ?thesis unfolding sx_closed_def by (intro sx_reach_sent sx_reach_retried sx_reach_acked sx_reach_posted) simp_all
qed


text \<open>A run that a response ends before the second segment is acknowledged.\<close>

definition sx_resp :: ib_mad_recv_wc where
  "sx_resp = (let b = \<lparr>rb_addr = 11, rb_mad = zero_rmpp_mad\<lparr>mad_hdr := (mad_hdr zero_rmpp_mad)\<lparr>mgmt_class := 3, mad_method := 0x81, mad_tid := 7\<rparr>\<rparr>\<rparr>
     in \<lparr>wc_src_qp = 1, wc_slid = 4, wc_pkey_index = 0, recv_buf = b, rmpp_list = [b], mad_len = 0\<rparr>)"



text \<open>
  The run with a new timeout for the decided send, and a duplicate of the response: the client is handed the response
  twice and gets two reports for the send, the first while its segment has not left yet.
\<close>

lemma modify_decided_reports_twice:
  "let s1 = the (complete_response (sx_env 1055) sx_resp (sx_posted 3 100));
       s2 = snd (ib_modify_mad (sx_env 1056) 0 0 50 s1);
       s3 = the (complete_response (sx_env 1057) sx_resp s2)
   in \<not> undecided 0 s1 \<and> responded s3 = [0, 0] \<and> completed s3 = [(0, IB_WC_SUCCESS, 0)] \<and>
      completed (sx_sent 1060 s3) = [(0, IB_WC_SUCCESS, 0), (0, IB_WC_SUCCESS, 0)]"
  by code_simp

text \<open>A datagram that the security check rejects is not freed: its list of buffers is empty when it is given to \<open>ib_free_recv_mad\<close>.\<close>

lemma denied_datagram_kept:
  "ib_mad_complete_recv env True wc s = Some s' \<Longrightarrow> freed_mads (rx s') = freed_mads (rx s) \<and> recv_handled s' = recv_handled s"
  by (auto simp: ib_mad_complete_recv_def Let_def ib_free_recv_mad_def)

section \<open>Properties\<close>

text \<open>
  C8: Every datagram that the protocol puts on the wire for a send is one of the segments of its message,
  numbered and flagged as the receive side expects, whatever acknowledgements, aborts,
  completions and timeouts occur and in whichever order. As long as the peer's acknowledgements open the
  window beyond what they acknowledge, every segment sent lies inside the window granted.
\<close>

theorem rmpp_wire_segments:
  assumes "tx_reach strict P w0 s" and "(x, m) \<in> set (wire s)"
  shows "message (s_seg_count (w0 x)) (seg_mad (w0 x)) \<and>
    (\<exists>i. 1 \<le> i \<and> i \<le> s_seg_count (w0 x) \<and> m = seg_mad (w0 x) i \<and> (strict \<longrightarrow> i \<le> s_newwin (twrs s x)))"
proof -
  have "x \<in> P \<and> on_wire_ok strict (w0 x) (twrs s x) m" by (rule tx_invD(5) [OF send_reach_inv [OF assms(1)] assms(2)])
  then show ?thesis using seg_mad_message [OF tx_invD(4) [OF send_reach_inv [OF assms(1)]]] by (simp add: on_wire_ok_def)
qed

theorem rmpp_wire_segments_witness:
  "message 3 (seg_mad (sx_wr 3 0)) \<and> (\<exists>i. 1 \<le> i \<and> i \<le> 3 \<and> snd (last (wire sx_closed)) = seg_mad (sx_wr 3 0) i)"
proof -
  have "wire sx_closed \<noteq> []" "fst (last (wire sx_closed)) = 0" by code_simp+
  then have "(0, snd (last (wire sx_closed))) \<in> set (wire sx_closed)" by (metis last_in_set prod.collapse)
  moreover have "s_seg_count (sx_wr 3 0) = 3" by (simp add: sx_wr_def)
  ultimately show ?thesis using rmpp_wire_segments [OF sx_reach_closed, of 0 "snd (last (wire sx_closed))"] by simp
qed



text \<open>
  The handlers of the send side run to their end in every reachable state: none reads
  a segment that does not exist and none waits for another.
\<close>

theorem rmpp_send_handlers_return:
  assumes "tx_reach strict P w0 s"
  shows "(new_packet wc (rx s) \<longrightarrow> (\<exists>res s'. ib_process_rmpp_recv_wc env wc s = Some (res, s'))) \<and>
    (x \<in> set (t_send_list s) \<longrightarrow> (\<exists>s'. ib_mad_complete_send_wr env x st v s = Some s')) \<and>
    (\<exists>s'. timeout_sends env s = Some s')"
  using tx_handlers [OF assms] by blast

theorem rmpp_send_handlers_return_witness:
  "(\<exists>res s'. ib_process_rmpp_recv_wc (sx_env 9) (sx_ack 1 3) (sx_posted 3 0) = Some (res, s')) \<and>
   (\<exists>s'. ib_mad_complete_send_wr (sx_env 9) 0 IB_WC_GENERAL_ERR 0 (sx_posted 3 0) = Some s') \<and> (\<exists>s'. timeout_sends (sx_env 9) (sx_posted 3 0) = Some s')"
proof -
  have "t_send_list (sx_posted 3 0) = [0]" "new_packet (sx_ack 1 3) (rx (sx_posted 3 0))" by code_simp+
  then show ?thesis
    using rmpp_send_handlers_return [OF sx_reach_posted [of 3 0], of "sx_ack 1 3" "sx_env 9" 0 IB_WC_GENERAL_ERR 0] by simp
qed

text \<open>
  C35: The sender leaves its window once an acknowledgement closes it. After an acknowledgement of segment 1
  that grants nothing beyond segment 1, the timer sends segment 2, and since the window is only
  tested for equality with its bound, the completion of segment 2 sends segment 3: the window is 1 and
  three segments are on the wire.
\<close>

theorem rmpp_closed_window_overrun:
  "\<exists>s. tx_reach False {0} (\<lambda>_. sx_wr 3 0) s \<and> s_newwin (twrs s 0) = 1 \<and> s_last_ack (twrs s 0) = 1 \<and>
     map (\<lambda>(x, m). hdr_seg_num (rmpp_hdr m)) (wire s) = [1, 2, 3]"
proof -
  have "s_newwin (twrs sx_closed 0) = 1" "s_last_ack (twrs sx_closed 0) = 1"
    "map (\<lambda>(x, m). hdr_seg_num (rmpp_hdr m)) (wire sx_closed) = [1, 2, 3]" by code_simp+
  then show ?thesis using sx_reach_closed by (intro exI [of _ sx_closed]) simp
qed

text \<open>A segment sent for a response timeout of at most two seconds keeps the value of \<open>s_timeout\<close>.\<close>

lemma send_next_seg_kept:
  assumes w0: "new_msg w0" and ok: "wr_ok w0 (twrs s x)" and n: "s_seg_num (twrs s x) < s_seg_count (twrs s x)"
    and t: "s_timeout_ms (twrs s x) \<noteq> 0" "sint (s_timeout_ms (twrs s x)) \<le> 2000" and snd: "tx_send env = SendOk"
  shows "\<exists>s'. send_next_seg env x s = Some (True, s') \<and> wire s' = wire s @ [(x, seg_mad w0 (s_seg_num (twrs s x) + 1))] \<and>
    s_timeout (twrs s' x) = s_timeout (twrs s x)"
proof -
  let ?w = "twrs s x" and ?n = "s_seg_num (twrs s x) + 1"
  define w1 where "w1 = next_seg_hdr ?w"
  have f: "s_seg_num w1 = ?n" "s_seg_count w1 = s_seg_count ?w" "s_segs w1 = s_segs ?w" "s_timeout w1 = s_timeout ?w" "s_timeout_ms w1 = s_timeout_ms ?w"
    "s_mad w1 = (s_mad ?w)\<lparr>rmpp_hdr := seg_hdr ?w ?n (rmpp_hdr (s_mad ?w))\<rparr>"
    by (simp_all add: w1_def next_seg_hdr_def Let_def)
  have cnt: "length (s_segs ?w) = nat (s_seg_count ?w)" "0 \<le> s_seg_num ?w" "1 \<le> s_seg_count ?w" using w0 ok by (simp_all add: new_msg_def wr_ok_def)
  have pay: "ib_get_payload w1 = Some (s_segs ?w ! nat (?n - 1), w1\<lparr>s_cur_seg := ?n\<rparr>)"
    using ib_get_rmpp_segment_eq [of ?n w1] cnt n by (simp add: ib_get_payload_def f)
  have "seg_mad ?w ?n = seg_mad w0 ?n" using ok by (simp add: wr_ok_def)
  then have m: "(s_mad w1)\<lparr>mad_data := s_segs ?w ! nat (?n - 1)\<rparr> = seg_mad w0 ?n" by (simp add: f seg_mad_def)
  have "send_next_seg env x s = tx_ib_send_mad env x (set_wr x w1 s)"
    using t by (simp add: send_next_seg_def w1_def [symmetric] f Let_def)
  then show ?thesis using pay m snd f(4) by (simp add: tx_ib_send_mad_def set_wr_def)
qed

text \<open>
  C36: The deadline of a send with a response timeout of at most two seconds is added to the clock twice. Let a send wait with
  the deadline \<open>T\<close>, a point in time, when an acknowledgement arrives that leaves segments to send and opens the window for
  the next one. The segment goes out with \<open>T\<close> still in \<open>s_timeout\<close>, where a delay belongs; and when
  its completion finds the window exhausted or the last segment sent, the send waits again with the
  deadline \<open>T\<close> plus the time of day, instead of the timeout plus the time of day.
\<close>

theorem rmpp_deadline_added_twice:
  fixes s :: mad_agent and x :: nat and wc :: ib_mad_recv_wc
  defines "w \<equiv> twrs s x" and "h \<equiv> rmpp_hdr (rb_mad (recv_buf wc))"
  assumes reach: "tx_reach strict P w0 s" and found: "ib_find_send_mad env s wc = Some x" and wait: "x \<in> set (wait_list s)"
    and tmo: "s_timeout_ms w \<noteq> 0" "sint (s_timeout_ms w) \<le> 2000" and T: "s_timeout w \<noteq> 0"
    and ack: "has_flag (rmpp_rtime_flags h) IB_MGMT_RMPP_FLAG_ACTIVE" "rmpp_version h = IB_MGMT_RMPP_VERSION" "rmpp_type h = IB_MGMT_RMPP_TYPE_ACK"
      "rmpp_status h = 0" "s_last_ack w \<le> sint (hdr_seg_num h)" "sint (hdr_seg_num h) < s_seg_count w" "sint (hdr_seg_num h) \<le> s_newwin w"
      "s_newwin w \<le> sint (paylen_newwin h)"
    and room: "s_seg_num w < sint (paylen_newwin h)" "s_seg_num w < s_seg_count w" and snd: "tx_send env = SendOk"
  shows "\<exists>s1. ib_process_rmpp_recv_wc env wc s = Some (None, s1) \<and> wire s1 = wire s @ [(x, seg_mad (w0 x) (s_seg_num w + 1))] \<and>
    x \<in> set (t_send_list s1) \<and> s_timeout (twrs s1 x) = s_timeout w \<and>
    (s_seg_num w + 1 = sint (paylen_newwin h) \<or> s_seg_num w + 1 = s_seg_count w \<longrightarrow>
      (\<exists>s2. ib_mad_complete_send_wr env2 x IB_WC_SUCCESS v s1 = Some s2 \<and> x \<in> set (wait_list s2) \<and>
        s_timeout (twrs s2 x) = s_timeout w + tx_now env2))"
proof -
  note inv = send_reach_inv [OF reach]
  have x: "x \<in> pending s" using wait by (simp add: pending_def)
  have at: "new_msg (w0 x)" "wr_ok (w0 x) w" using tx_inv_at [OF inv x] by (simp_all add: w_def)
  have st: "s_status w = IB_WC_SUCCESS" using find_send_status [OF found] by (simp add: w_def)
  have "placed (x \<in> set (responded s)) w (occ x s)" using reach_acct [OF reach] by (simp add: reported_ok_def acct_def w_def)
  then have rc: "s_refcount w = 1" using x wait st unfolding w_def by (cases rule: pending_placed) (simp_all add: waiting_def)
  define n nw where "n = sint (hdr_seg_num h)" and "nw = sint (paylen_newwin h)"
  define w' where "w' = (if n > s_last_ack w then (adjust_last_ack n w)\<lparr>s_retries_left := s_max_retries w\<rparr> else w)\<lparr>s_newwin := nw\<rparr>"
  have w': "wr_ok (w0 x) w'" "s_last_ack w' = n"
    using acked_ok [of "w0 x" w False n nw] at(2) ack(5-8) by (auto simp: w'_def n_def nw_def)
  have f: "s_status w' = IB_WC_SUCCESS" "s_timeout w' = s_timeout w" "s_refcount w' = 1" "s_seg_num w' = s_seg_num w" "s_seg_count w' = s_seg_count w"
    "s_timeout_ms w' = s_timeout_ms w" "s_newwin w' = nw"
    using st rc by (simp_all add: w'_def adjust_last_ack_def Let_def)
  let ?s = "set_wr x w' s"
  have sn: "s_seg_num (twrs ?s x) < s_seg_count (twrs ?s x)" "wr_ok (w0 x) (twrs ?s x)" using f room w' by simp_all
  obtain q where q: "send_next_seg env x ?s = Some (True, q)" "wire q = wire s @ [(x, seg_mad (w0 x) (s_seg_num w + 1))]" "s_timeout (twrs q x) = s_timeout w"
    using send_next_seg_kept [OF at(1) sn(2,1)] f tmo snd by auto
  note a = send_next_seg_acct [OF q(1)]
  obtain ret q' where q': "send_next_seg env x ?s = Some (ret, q')" "one_step False (w0 x) x ?s q'" "s_seg_num (twrs q' x) = s_seg_num w + 1" "s_newwin (twrs q' x) = nw"
    using send_next_seg_step [OF at(1) sn(2,1), where strict = False and env = env] f by auto
  then have e: "q' = q" using q(1) by simp
  have qk: "kernel_rmpp q" using one_step_kernel [OF q'(2)] tx_invD(1) [OF inv] by (simp add: e)
  have qok: "wr_ok (w0 x) (twrs q x)" using one_step_at [OF q'(2)] by (simp add: e)
  let ?w1 = "(twrs q x)\<lparr>s_refcount := s_refcount (twrs q x) + 1\<rparr>"
  define s1 where "s1 = (let s2 = list_del x (set_wr x ?w1 q) in s2\<lparr>t_send_list := t_send_list s2 @ [x]\<rparr>)"
  have ack1: "ack_send env wc x ?s = Some s1"
    using w'(2) f room q(1) ack(6) unfolding ack_send_def s1_def Let_def by (simp add: n_def nw_def)
  have "process_rmpp_ack env wc s = ack_send env wc x ?s"
    using ack(4-8) found T st unfolding process_rmpp_ack_def Let_def h_def [symmetric] w'_def n_def nw_def by (simp add: w_def [symmetric])
  then have "ib_process_rmpp_recv_wc env wc s = Some (None, s1\<lparr>rx := ib_free_recv_mad wc (rx s1)\<rparr>)"
    using ack(1-3) ack1 unfolding ib_process_rmpp_recv_wc_def Let_def h_def [symmetric]
    by (simp add: IB_MGMT_RMPP_TYPE_ACK_def IB_MGMT_RMPP_TYPE_DATA_def)
  moreover define s1' where "s1' = s1\<lparr>rx := ib_free_recv_mad wc (rx s1)\<rparr>"
  moreover have t1: "twrs s1' x = ?w1" "wire s1' = wire q" "x \<in> set (t_send_list s1')" "kernel_rmpp s1'"
    using qk by (simp_all add: s1'_def s1_def Let_def)
  moreover have "\<exists>s2. ib_mad_complete_send_wr env2 x IB_WC_SUCCESS v s1' = Some s2 \<and> x \<in> set (wait_list s2) \<and>
        s_timeout (twrs s2 x) = s_timeout w + tx_now env2" if full: "s_seg_num w + 1 = nw \<or> s_seg_num w + 1 = s_seg_count w"
  proof -
    have g: "s_status ?w1 = IB_WC_SUCCESS" "s_refcount ?w1 = 2" "s_timeout ?w1 = s_timeout w" "\<not> acked ?w1" "s_seg_num ?w1 = s_seg_num w + 1" "s_newwin ?w1 = nw"
      "s_seg_count ?w1 = s_seg_count w"
      using a(3-5) f q(3) q'(3,4) w' ack(6) qok by (simp_all add: e acked_def n_def wr_ok_def)
    have act: "active_data (s_mad ?w1)" using qok by (simp add: wr_ok_def)
    have "ib_process_rmpp_send_wc env2 x IB_WC_SUCCESS s1' = Some (RESULT_PROCESSED, IB_WC_SUCCESS, s1')"
      using g(1,3-7) T act full unfolding ib_process_rmpp_send_wc_def t1(1) active_data_def acked_def Let_def by simp
    note c = complete_send_eq [OF t1(4) this refl, of v, unfolded t1(1)]
    have d: "decref IB_WC_SUCCESS ?w1 = ?w1\<lparr>s_refcount := 1\<rparr>" using g(2) by (simp add: decref_def)
    have "ib_mad_complete_send_wr env2 x IB_WC_SUCCESS v s1' = Some (wait_for_response env2 x (set_wr x (?w1\<lparr>s_refcount := 1\<rparr>) s1'))"
      using c g(1,3) T unfolding d by simp
    moreover have "x \<in> set (wait_list (wait_for_response env2 x q2))" for q2 by (simp add: wait_for_response_def Let_def)
    ultimately show ?thesis using g(3) by (simp add: wait_for_response_occ(3))
  qed
  ultimately show ?thesis using q(2,3) by (intro exI [of _ s1']) (simp add: nw_def)
qed

theorem rmpp_deadline_added_twice_witness:
  "\<exists>s1. ib_process_rmpp_recv_wc (sx_env 1050) (sx_ack 1 2) (sx_sent 1000 (sx_posted 3 100)) = Some (None, s1) \<and>
    (\<exists>s2. ib_mad_complete_send_wr (sx_env 1060) 0 IB_WC_SUCCESS 0 s1 = Some s2 \<and> 0 \<in> set (wait_list s2) \<and> s_timeout (twrs s2 0) = 1060 + (1000 + 100))"
proof -
  let ?s = "sx_sent 1000 (sx_posted 3 100)" and ?h = "rmpp_hdr (rb_mad (recv_buf (sx_ack 1 2)))"
  have "t_send_list (sx_posted 3 100) = [0]" by code_simp
  then have "sx_reach 3 100 ?s" by (intro sx_reach_sent sx_reach_posted) simp_all
  moreover have "ib_find_send_mad (sx_env 1050) ?s (sx_ack 1 2) = Some 0" "0 \<in> set (wait_list ?s)" by code_simp+
  moreover have "s_timeout_ms (twrs ?s 0) \<noteq> 0" "sint (s_timeout_ms (twrs ?s 0)) \<le> 2000" "s_timeout (twrs ?s 0) \<noteq> 0" by code_simp+
  moreover have "has_flag (rmpp_rtime_flags ?h) IB_MGMT_RMPP_FLAG_ACTIVE" "rmpp_version ?h = IB_MGMT_RMPP_VERSION" "rmpp_type ?h = IB_MGMT_RMPP_TYPE_ACK"
    "rmpp_status ?h = 0" by code_simp+
  moreover have "s_last_ack (twrs ?s 0) \<le> sint (hdr_seg_num ?h)" "sint (hdr_seg_num ?h) < s_seg_count (twrs ?s 0)" "sint (hdr_seg_num ?h) \<le> s_newwin (twrs ?s 0)"
    "s_newwin (twrs ?s 0) \<le> sint (paylen_newwin ?h)" by code_simp+
  moreover have "s_seg_num (twrs ?s 0) < sint (paylen_newwin ?h)" "s_seg_num (twrs ?s 0) < s_seg_count (twrs ?s 0)" by code_simp+
  moreover have "s_seg_num (twrs ?s 0) + 1 = sint (paylen_newwin ?h)" "s_timeout (twrs ?s 0) = 1000 + 100" by code_simp+
  moreover have "tx_send (sx_env 1050) = SendOk" "tx_now (sx_env 1060) = 1060" by (simp_all add: sx_env_def)
  ultimately show ?thesis
    using rmpp_deadline_added_twice [of False "{0}" "\<lambda>_. sx_wr 3 100" ?s "sx_env 1050" "sx_ack 1 2" 0 "sx_env 1060" 0] by fastforce
qed

text \<open>
  The allocation of a message yields as many segments as the data and its padding fill, all of the same
  size, with the padding at the end of the last one zeroed, and the message is ready to be sent; when one
  allocation fails, the whole message fails.
\<close>

theorem rmpp_alloc_segments:
  assumes "fresh_wr w" and "s_hdr_len w < mad" "0 \<le> s_data_len w" and "s_pad w = get_pad_size (s_hdr_len w) (s_data_len w) mad"
    and "s_data_len w + s_pad w < 2 ^ 31" and "k = nat ((s_data_len w + s_pad w) div (mad - s_hdr_len w))"
  shows "if k \<le> length oks \<and> list_all id (take k oks)
    then \<exists>w'. alloc_send_rmpp_list v mad oks junk w = Some w' \<and> new_msg w' \<and> s_seg_count w' = int k \<and>
      s_seg_count w' * s_seg_size w' = s_data_len w + s_pad w \<and> list_all (\<lambda>d. int (length d) = s_seg_size w') (s_segs w') \<and>
      list_all (\<lambda>b. b = 0) (drop (nat (s_seg_size w' - s_pad w)) (last (s_segs w')))
    else alloc_send_rmpp_list v mad oks junk w = None"
proof (cases "k \<le> length oks \<and> list_all id (take k oks)")
  case True
  then obtain w' where w': "alloc_send_rmpp_list v mad oks junk w = Some w'" "new_msg w'"
      "s_seg_count w' * s_seg_size w' = s_data_len w + s_pad w" "list_all (\<lambda>d. int (length d) = s_seg_size w') (s_segs w')"
      "list_all (\<lambda>b. b = 0) (drop (nat (s_seg_size w' - s_pad w)) (last (s_segs w')))"
    using alloc_send_rmpp_list_new(1) [OF assms(1-5), of oks v junk] assms(6) by blast
  have "s_seg_size w' = mad - s_hdr_len w"
    using w'(1) by (auto simp: alloc_send_rmpp_list_def Let_def split: option.splits)
  then have "(s_data_len w + s_pad w) div (mad - s_hdr_len w) = s_seg_count w'" using w'(3) assms(2) by (simp flip: w'(3))
  then have "s_seg_count w' = int k" using w'(2) by (simp add: assms(6) new_msg_def)
  then show ?thesis using True w' by auto
next
  case False
  then show ?thesis using alloc_send_rmpp_list_new(2) [OF assms(1-5), of oks v junk] assms(6) by auto
qed

theorem rmpp_alloc_segments_witness:
  "(\<exists>w'. alloc_send_rmpp_list 1 256 [True, True, True] [] ((sx_wr 0 0)\<lparr>s_data_len := 500, s_pad := 100\<rparr>) = Some w' \<and> new_msg w' \<and> s_seg_count w' = 3) \<and>
   alloc_send_rmpp_list 1 256 [True, False, True] [] ((sx_wr 0 0)\<lparr>s_data_len := 500, s_pad := 100\<rparr>) = None"
proof -
  let ?w = "(sx_wr 0 0)\<lparr>s_data_len := 500, s_pad := 100\<rparr>"
  have w: "fresh_wr ?w" "s_hdr_len ?w < 256" "0 \<le> s_data_len ?w" "s_pad ?w = get_pad_size (s_hdr_len ?w) (s_data_len ?w) 256"
    "s_data_len ?w + s_pad ?w < 2 ^ 31" "3 = nat ((s_data_len ?w + s_pad ?w) div (256 - s_hdr_len ?w))"
    by (simp_all add: sx_wr_def fresh_wr_def get_pad_size_def)
  show ?thesis
    using rmpp_alloc_segments [OF w, of "[True, True, True]" 1 "[]"] rmpp_alloc_segments [OF w, of "[True, False, True]" 1 "[]"]
    by (auto simp: numeral_3_eq_3)
qed

end
