(* ===== verification/Mlx5_Rl.thy ===== *)
theory Mlx5_Rl
  imports Kern_Prelude "HOL-Library.Multiset"
begin

unbundle bit_operations_syntax

text \<open>
  The table of packet-pacing rates of the mlx5 core driver, \<open>mlx5/core/rl.c\<close>: entries with reference
  counts that clients share when they ask for the same rate, and dedicated entries. The
  commands to the firmware are logged with their answers; allocation failures and command failures
  come from an environment. A step that dereferences a null table yields \<open>None\<close>.
\<close>

section \<open>Capabilities\<close>

definition SCHEDULING_HIERARCHY_E_SWITCH :: u8 where "SCHEDULING_HIERARCHY_E_SWITCH = 2"
definition SCHEDULING_HIERARCHY_NIC :: u8 where "SCHEDULING_HIERARCHY_NIC = 3"

record qos_caps =
  cap_qos :: bool
  packet_pacing :: bool
  packet_pacing_uid :: bool
  packet_pacing_rate_table_size :: u16
  packet_pacing_max_rate :: u32
  packet_pacing_min_rate :: u32
  esw_tsar_type :: u16
  nic_tsar_type :: u16
  esw_element_type :: u16
  nic_element_type :: u16

text \<open>The masks of the types \<open>0, \<dots>, n - 1\<close> are the bits \<open>1 << type\<close>.\<close>

definition type_in_cap :: "nat \<Rightarrow> int \<Rightarrow> 'a::len word \<Rightarrow> bool" where
  "type_in_cap n ty c \<longleftrightarrow> 0 \<le> ty \<and> ty < int n \<and> has_flag c (push_bit (nat ty) 1)"

definition mlx5_qos_tsar_type_supported :: "qos_caps \<Rightarrow> int \<Rightarrow> u8 \<Rightarrow> bool" where
  "mlx5_qos_tsar_type_supported caps ty hierarchy =
     (if hierarchy = SCHEDULING_HIERARCHY_E_SWITCH then type_in_cap 4 ty (esw_tsar_type caps)
      else if hierarchy = SCHEDULING_HIERARCHY_NIC then type_in_cap 4 ty (nic_tsar_type caps)
      else False)"

definition mlx5_qos_element_type_supported :: "qos_caps \<Rightarrow> int \<Rightarrow> u8 \<Rightarrow> bool" where
  "mlx5_qos_element_type_supported caps ty hierarchy =
     (if hierarchy = SCHEDULING_HIERARCHY_E_SWITCH then type_in_cap 6 ty (esw_element_type caps)
      else if hierarchy = SCHEDULING_HIERARCHY_NIC then type_in_cap 6 ty (nic_element_type caps)
      else False)"

section \<open>The rate-limit context\<close>

text \<open>
  \<open>MLX5_SET\<close> and \<open>MLX5_GET\<close> on \<open>set_pp_rate_limit_context\<close>: 48 bytes, big-endian, the rate in bytes 0 to 3, the
  burst bound in bytes 4 to 7 and the packet size in bytes 10 and 11.
\<close>

record mlx5_rate_limit =
  rate :: u32
  max_burst_sz :: u32
  typical_pkt_sz :: u16

definition be :: "nat \<Rightarrow> 'a::len word \<Rightarrow> u8 list" where
  "be n w = map (\<lambda>i. ucast (drop_bit (8 * i) w)) (rev [0..<n])"

definition rl_context :: "mlx5_rate_limit \<Rightarrow> u8 list" where
  "rl_context rl = be 4 (rate rl) @ be 4 (max_burst_sz rl) @ [0, 0] @ be 2 (typical_pkt_sz rl) @ replicate 36 0"

definition rate_limit_of :: "u8 list \<Rightarrow> u32" where
  "rate_limit_of raw = foldl (\<lambda>w b. push_bit 8 w OR ucast b) 0 (take 4 raw)"

definition mlx5_rl_are_equal :: "mlx5_rate_limit \<Rightarrow> mlx5_rate_limit \<Rightarrow> bool" where
  "mlx5_rl_are_equal rl_0 rl_1 \<longleftrightarrow> rate rl_0 = rate rl_1 \<and> max_burst_sz rl_0 = max_burst_sz rl_1 \<and>
     typical_pkt_sz rl_0 = typical_pkt_sz rl_1"

section \<open>The table\<close>

record mlx5_rl_entry =
  rl_raw :: "u8 list"
  e_refcount :: u64
  e_index :: u16
  e_uid :: u16
  dedicated :: bool

record mlx5_rl_table =
  max_size :: u16
  max_rate :: u32
  min_rate :: u32
  rl_entry :: "mlx5_rl_entry list option"
  t_refcount :: u64

text \<open>A \<open>SET_PP_RATE_LIMIT\<close> command: index, user, context and whether the firmware accepted it.\<close>

record rl_dev =
  caps :: qos_caps
  rl_table :: mlx5_rl_table
  rl_cmds :: "(u16 \<times> u16 \<times> u8 list \<times> bool) list"

record rl_env =
  rl_kcalloc :: bool
  rl_cmd :: "errno option"

definition mlx5_rl_are_equal_raw :: "mlx5_rl_entry \<Rightarrow> u8 list \<Rightarrow> u16 \<Rightarrow> bool" where
  "mlx5_rl_are_equal_raw entry rl_in uid \<longleftrightarrow> rl_raw entry = rl_in \<and> e_uid entry = uid"

text \<open>The search of \<open>find_rl_entry\<close> from entry \<open>i\<close> on; \<open>ret\<close> is the first free entry seen.\<close>

fun find_rl_loop :: "u8 list \<Rightarrow> u16 \<Rightarrow> bool \<Rightarrow> nat \<Rightarrow> nat option \<Rightarrow> mlx5_rl_entry list \<Rightarrow> nat option" where
  "find_rl_loop rl_in uid ded i ret [] = ret"
| "find_rl_loop rl_in uid ded i ret (e # es) =
     (if ded then if e_refcount e = 0 then Some i else find_rl_loop rl_in uid ded (i + 1) ret es
      else if e_refcount e \<noteq> 0
      then if dedicated e then find_rl_loop rl_in uid ded (i + 1) ret es
           else if mlx5_rl_are_equal_raw e rl_in uid then Some i
           else find_rl_loop rl_in uid ded (i + 1) ret es
      else find_rl_loop rl_in uid ded (i + 1) (if ret = None then Some i else ret) es)"

definition find_rl_entry :: "mlx5_rl_table \<Rightarrow> u8 list \<Rightarrow> u16 \<Rightarrow> bool \<Rightarrow> nat option option" where
  "find_rl_entry table rl_in uid ded =
     (case rl_entry table of
        None \<Rightarrow> if max_size table = 0 then Some None else None
      | Some es \<Rightarrow> Some (find_rl_loop rl_in uid ded 0 None (take (unat (max_size table)) es)))"

definition mlx5_set_pp_rate_limit_cmd :: "rl_env \<Rightarrow> mlx5_rl_entry \<Rightarrow> bool \<Rightarrow> rl_dev \<Rightarrow> errno option \<times> rl_dev" where
  "mlx5_set_pp_rate_limit_cmd env entry set_it dev =
     (rl_cmd env, dev\<lparr>rl_cmds := rl_cmds dev @
        [(e_index entry, e_uid entry, if set_it then rl_raw entry else replicate 48 0, rl_cmd env = None)]\<rparr>)"

definition mlx5_rl_is_in_range :: "rl_dev \<Rightarrow> u32 \<Rightarrow> bool" where
  "mlx5_rl_is_in_range dev r \<longleftrightarrow> r \<le> max_rate (rl_table dev) \<and> r \<ge> min_rate (rl_table dev)"

definition zero_entry :: mlx5_rl_entry where
  "zero_entry = \<lparr>rl_raw = replicate 48 0, e_refcount = 0, e_index = 0, e_uid = 0, dedicated = False\<rparr>"

definition mlx5_rl_table_get :: "rl_env \<Rightarrow> mlx5_rl_table \<Rightarrow> mlx5_rl_table result" where
  "mlx5_rl_table_get env table =
     (case rl_entry table of
        Some _ \<Rightarrow> Inr (table\<lparr>t_refcount := t_refcount table + 1\<rparr>)
      | None \<Rightarrow>
          if rl_kcalloc env
          then Inr (table\<lparr>rl_entry := Some (map (\<lambda>i. zero_entry\<lparr>e_index := word_of_nat (i + 1)\<rparr>) [0..<unat (max_size table)]),
                          t_refcount := t_refcount table + 1\<rparr>)
          else Inl ENOMEM)"

definition mlx5_rl_table_put :: "mlx5_rl_table \<Rightarrow> mlx5_rl_table" where
  "mlx5_rl_table_put table =
     (let table = table\<lparr>t_refcount := t_refcount table - 1\<rparr>
      in if t_refcount table \<noteq> 0 then table else table\<lparr>rl_entry := None\<rparr>)"

definition set_table :: "mlx5_rl_table \<Rightarrow> rl_dev \<Rightarrow> rl_dev" where
  "set_table table dev = dev\<lparr>rl_table := table\<rparr>"

text \<open>Update of the entry \<open>i\<close> of a table that exists.\<close>

definition set_entry :: "nat \<Rightarrow> mlx5_rl_entry \<Rightarrow> rl_dev \<Rightarrow> rl_dev" where
  "set_entry i e dev = set_table ((rl_table dev)\<lparr>rl_entry := map_option (\<lambda>es. es[i := e]) (rl_entry (rl_table dev))\<rparr>) dev"

definition mlx5_rl_entry_get :: "mlx5_rl_entry \<Rightarrow> mlx5_rl_entry" where
  "mlx5_rl_entry_get entry = entry\<lparr>e_refcount := e_refcount entry + 1\<rparr>"

definition mlx5_rl_entry_put :: "rl_env \<Rightarrow> nat \<Rightarrow> mlx5_rl_entry \<Rightarrow> rl_dev \<Rightarrow> rl_dev" where
  "mlx5_rl_entry_put env i entry dev =
     (let entry = entry\<lparr>e_refcount := e_refcount entry - 1\<rparr>;
          dev = set_entry i entry dev
      in if e_refcount entry = 0 then snd (mlx5_set_pp_rate_limit_cmd env entry False dev) else dev)"

definition put_table :: "rl_dev \<Rightarrow> rl_dev" where
  "put_table dev = set_table (mlx5_rl_table_put (rl_table dev)) dev"

definition mlx5_rl_add_rate_raw :: "rl_env \<Rightarrow> u8 list \<Rightarrow> u16 \<Rightarrow> bool \<Rightarrow> rl_dev \<Rightarrow> (u16 result \<times> rl_dev) option" where
  "mlx5_rl_add_rate_raw env rl_in uid ded dev =
     (let table = rl_table dev; r = rate_limit_of rl_in
      in if max_size table = 0 then Some (Inl EOPNOTSUPP, dev)
         else if r = 0 \<or> \<not> mlx5_rl_is_in_range dev r then Some (Inl EINVAL, dev)
         else
           case mlx5_rl_table_get env table of
             Inl err \<Rightarrow> Some (Inl err, dev)
           | Inr table \<Rightarrow>
               do {
                 let dev = set_table table dev;
                 found \<leftarrow> find_rl_entry table rl_in uid ded;
                 case found of
                   None \<Rightarrow> Some (Inl ENOSPC, put_table dev)
                 | Some i \<Rightarrow>
                     do {
                       es \<leftarrow> rl_entry table;
                       entry \<leftarrow> arr_get es i;
                       if e_refcount entry = 0
                       then
                         let entry = entry\<lparr>rl_raw := rl_in, e_uid := uid\<rparr>;
                             (err, dev) = mlx5_set_pp_rate_limit_cmd env entry True (set_entry i entry dev)
                         in case err of
                              Some e \<Rightarrow> Some (Inl e, put_table dev)
                            | None \<Rightarrow>
                                let entry = mlx5_rl_entry_get (entry\<lparr>dedicated := ded\<rparr>)
                                in Some (Inr (e_index entry), set_entry i entry dev)
                       else Some (Inr (e_index entry), set_entry i (mlx5_rl_entry_get entry) dev)
                     }
               })"

definition mlx5_rl_remove_rate_raw :: "rl_env \<Rightarrow> u16 \<Rightarrow> rl_dev \<Rightarrow> rl_dev option" where
  "mlx5_rl_remove_rate_raw env index dev =
     do {
       es \<leftarrow> rl_entry (rl_table dev);
       entry \<leftarrow> arr_get es (nat (uint index - 1));
       if index = 0 then None
       else Some (put_table (mlx5_rl_entry_put env (nat (uint index - 1)) entry dev))
     }"

definition MLX5_SHARED_RESOURCE_UID :: u16 where "MLX5_SHARED_RESOURCE_UID = 0xffff"

definition rl_uid :: "rl_dev \<Rightarrow> u16" where
  "rl_uid dev = (if packet_pacing_uid (caps dev) then MLX5_SHARED_RESOURCE_UID else 0)"

definition mlx5_rl_add_rate :: "rl_env \<Rightarrow> mlx5_rate_limit \<Rightarrow> rl_dev \<Rightarrow> (u16 result \<times> rl_dev) option" where
  "mlx5_rl_add_rate env rl dev = mlx5_rl_add_rate_raw env (rl_context rl) (rl_uid dev) False dev"

definition mlx5_rl_remove_rate :: "rl_env \<Rightarrow> mlx5_rate_limit \<Rightarrow> rl_dev \<Rightarrow> rl_dev option" where
  "mlx5_rl_remove_rate env rl dev =
     (if rate rl = 0 then Some dev
      else
        do {
          found \<leftarrow> find_rl_entry (rl_table dev) (rl_context rl) (rl_uid dev) False;
          case found of
            None \<Rightarrow> Some dev
          | Some i \<Rightarrow>
              do {
                es \<leftarrow> rl_entry (rl_table dev);
                entry \<leftarrow> arr_get es i;
                if e_refcount entry = 0 then Some dev
                else Some (put_table (mlx5_rl_entry_put env i entry dev))
              }
        })"

definition mlx5_init_rl_table :: "rl_dev \<Rightarrow> rl_dev" where
  "mlx5_init_rl_table dev =
     (if \<not> cap_qos (caps dev) \<or> \<not> packet_pacing (caps dev) then set_table ((rl_table dev)\<lparr>max_size := 0\<rparr>) dev
      else set_table ((rl_table dev)\<lparr>max_size := packet_pacing_rate_table_size (caps dev) - 1,
                        max_rate := packet_pacing_max_rate (caps dev), min_rate := packet_pacing_min_rate (caps dev)\<rparr>) dev)"

definition clear_cmds :: "rl_env \<Rightarrow> mlx5_rl_entry list \<Rightarrow> rl_dev \<Rightarrow> rl_dev" where
  "clear_cmds env es dev = foldl (\<lambda>dev e. snd (mlx5_set_pp_rate_limit_cmd env e False dev)) dev (filter (\<lambda>e. e_refcount e \<noteq> 0) es)"

text \<open>After \<open>kfree\<close> the pointer is not reset; nothing reads it any more.\<close>

definition mlx5_rl_table_free :: "rl_env \<Rightarrow> rl_dev \<Rightarrow> rl_dev" where
  "mlx5_rl_table_free env dev =
     (case rl_entry (rl_table dev) of
        None \<Rightarrow> dev
      | Some es \<Rightarrow> let dev = clear_cmds env (take (unat (max_size (rl_table dev))) es) dev
                  in set_table ((rl_table dev)\<lparr>rl_entry := None\<rparr>) dev)"

definition mlx5_cleanup_rl_table :: "rl_env \<Rightarrow> rl_dev \<Rightarrow> rl_dev" where
  "mlx5_cleanup_rl_table env dev =
     (if \<not> cap_qos (caps dev) \<or> \<not> packet_pacing (caps dev) then dev else mlx5_rl_table_free env dev)"

section \<open>The search\<close>

definition sharable :: "u8 list \<Rightarrow> u16 \<Rightarrow> mlx5_rl_entry \<Rightarrow> bool" where
  "sharable rl_in uid e \<longleftrightarrow> e_refcount e \<noteq> 0 \<and> \<not> dedicated e \<and> mlx5_rl_are_equal_raw e rl_in uid"

definition at_from :: "nat \<Rightarrow> nat \<Rightarrow> ('e \<Rightarrow> bool) \<Rightarrow> 'e list \<Rightarrow> bool" where
  "at_from i k Q es \<longleftrightarrow> (\<exists>j < length es. i = k + j \<and> Q (es ! j))"

lemma at_from_simps [simp]: "at_from i k Q [] \<longleftrightarrow> False" "at_from i k Q (e # es) \<longleftrightarrow> i = k \<and> Q e \<or> at_from i (Suc k) Q es"
  by (auto simp: at_from_def less_Suc_eq_0_disj)

lemma find_rl_loop_dedicated:
  "find_rl_loop rl_in uid True k ret es = Some i \<Longrightarrow> at_from i k (\<lambda>e. e_refcount e = 0) es \<or> ret = Some i"
  by (induction es arbitrary: k) (auto split: if_splits)

lemma find_rl_loop_shared:
  "find_rl_loop rl_in uid False k ret es = Some i \<Longrightarrow> at_from i k (sharable rl_in uid) es \<or>
    (\<forall>e \<in> set es. \<not> sharable rl_in uid e) \<and> (ret = Some i \<or> at_from i k (\<lambda>e. e_refcount e = 0) es)"
proof (induction es arbitrary: k ret)
  case (Cons e es)
  show ?case
  proof (cases "sharable rl_in uid e")
    case True
    then have "i = k" using Cons.prems by (simp add: sharable_def)
    then show ?thesis using True by simp
  next
    case False
    define ret' where "ret' = (if e_refcount e = 0 \<and> ret = None then Some k else ret)"
    have "find_rl_loop rl_in uid False (Suc k) ret' es = Some i"
      using Cons.prems False by (auto simp: sharable_def ret'_def split: if_splits)
    from Cons.IH [OF this] show ?thesis using False by (auto simp: ret'_def split: if_splits)
  qed
qed simp

lemma find_rl_loop_None:
  "find_rl_loop rl_in uid ded k ret es = None \<Longrightarrow> ret = None \<and> (\<forall>e \<in> set es. e_refcount e \<noteq> 0 \<and> (ded \<or> \<not> sharable rl_in uid e))"
proof (induction es arbitrary: k ret)
  case (Cons e es)
  have live: "e_refcount e \<noteq> 0"
  proof
    assume "e_refcount e = 0"
    then show False using Cons.prems Cons.IH [of "k + 1" "if ret = None then Some k else ret"] by (auto split: if_splits)
  qed
  moreover have "\<not> ded \<longrightarrow> \<not> sharable rl_in uid e" using Cons.prems by (auto simp: sharable_def)
  moreover have "find_rl_loop rl_in uid ded (k + 1) ret es = None" using Cons.prems live by (simp split: if_splits)
  ultimately show ?case using Cons.IH by auto
qed simp

lemma find_rl_Some:
  assumes "find_rl_loop rl_in uid ded 0 None es = Some i"
  shows "i < length es" "if e_refcount (es ! i) = 0 then ded \<or> (\<forall>e \<in> set es. \<not> sharable rl_in uid e) else \<not> ded \<and> sharable rl_in uid (es ! i)"
proof -
  have "i < length es \<and> (if e_refcount (es ! i) = 0 then ded \<or> (\<forall>e \<in> set es. \<not> sharable rl_in uid e) else \<not> ded \<and> sharable rl_in uid (es ! i))"
  proof (cases ded)
    case True
    then show ?thesis using find_rl_loop_dedicated [of rl_in uid 0 None es i] assms by (simp add: at_from_def)
  next
    case False
    then show ?thesis
      using find_rl_loop_shared [of rl_in uid 0 None es i] assms by (auto simp: at_from_def sharable_def)
  qed
  then show "i < length es" "if e_refcount (es ! i) = 0 then ded \<or> (\<forall>e \<in> set es. \<not> sharable rl_in uid e) else \<not> ded \<and> sharable rl_in uid (es ! i)"
    by blast+
qed

section \<open>Consistency of the entries with their clients\<close>

text \<open>What a client holds: the index, the context, its user and whether the entry is dedicated to it.\<close>

type_synonym rl_holder = "u16 \<times> u8 list \<times> u16 \<times> bool"

text \<open>The rate table of the firmware: the last command it accepted for an index.\<close>

definition hw_rate :: "(u16 \<times> u16 \<times> u8 list \<times> bool) list \<Rightarrow> u16 \<Rightarrow> (u16 \<times> u8 list) option" where
  "hw_rate cmds k = (case filter (\<lambda>(j, u, c, ok). ok \<and> j = k) (rev cmds) of [] \<Rightarrow> None | (j, u, c, ok) # _ \<Rightarrow> Some (u, c))"

lemma hw_rate_snoc [simp]:
  "hw_rate (cmds @ [(j, u, c, ok)]) k = (if ok \<and> j = k then Some (u, c) else hw_rate cmds k)"
  by (simp add: hw_rate_def)

definition held_at :: "nat \<Rightarrow> rl_holder list \<Rightarrow> nat" where
  "held_at i H = length (filter (\<lambda>h. unat (fst h) = Suc i) H)"

definition entry_ok :: "nat \<Rightarrow> mlx5_rl_entry \<Rightarrow> rl_holder list \<Rightarrow> (u16 \<times> u16 \<times> u8 list \<times> bool) list \<Rightarrow> bool" where
  "entry_ok i e H cmds \<longleftrightarrow> unat (e_index e) = Suc i \<and> unat (e_refcount e) = held_at i H \<and>
     (e_refcount e \<noteq> 0 \<and> dedicated e \<longrightarrow> e_refcount e = 1) \<and> (e_refcount e \<noteq> 0 \<longrightarrow> hw_rate cmds (e_index e) = Some (e_uid e, rl_raw e)) \<and>
     (\<forall>h \<in> set H. unat (fst h) = Suc i \<longrightarrow> snd h = (rl_raw e, e_uid e, dedicated e))"

definition entries_ok :: "mlx5_rl_entry list \<Rightarrow> rl_holder list \<Rightarrow> (u16 \<times> u16 \<times> u8 list \<times> bool) list \<Rightarrow> bool" where
  "entries_ok es H cmds \<longleftrightarrow> (\<forall>i < length es. entry_ok i (es ! i) H cmds) \<and>
     (\<forall>h \<in> set H. \<exists>i < length es. unat (fst h) = Suc i) \<and>
     (\<forall>i < length es. \<forall>j < length es. sharable (rl_raw (es ! i)) (e_uid (es ! i)) (es ! i) \<and> sharable (rl_raw (es ! i)) (e_uid (es ! i)) (es ! j) \<longrightarrow> i = j)"

lemma held_at_simps [simp]: "held_at i [] = 0" "held_at i (H @ [h]) = held_at i H + (if unat (fst h) = Suc i then 1 else 0)"
  by (simp_all add: held_at_def)

lemma held_at_le: "held_at i H \<le> length H"
  by (simp add: held_at_def)

lemma held_at_remove1:
  "h \<in> set H \<Longrightarrow> held_at i (remove1 h H) = held_at i H - (if unat (fst h) = Suc i then 1 else 0)"
proof -
  assume "h \<in> set H"
  then obtain A B where "H = A @ h # B" "h \<notin> set A" by (meson split_list_first)
  then show ?thesis by (simp add: held_at_def remove1_append)
qed

lemma held_at_pos: "h \<in> set H \<Longrightarrow> unat (fst h) = Suc i \<Longrightarrow> 0 < held_at i H"
  by (auto simp: held_at_def filter_empty_conv)

lemma unat_plus_1: "Suc (unat (w :: u64)) < 2 ^ 64 \<Longrightarrow> unat (w + 1) = Suc (unat w)"
  by (simp add: unat_word_ariths)

lemma entries_ok_zero:
  assumes "n < 2 ^ 16"
  shows "entries_ok (map (\<lambda>i. zero_entry\<lparr>e_index := word_of_nat (i + 1)\<rparr>) [0..<n]) [] cmds"
proof -
  have "unat (word_of_nat (Suc i) :: u16) = Suc i" if "i < n" for i
    using that assms by (subst unat_of_nat) simp
  then show ?thesis by (simp add: entries_ok_def entry_ok_def zero_entry_def sharable_def)
qed

lemma entry_ok_other:
  assumes "entry_ok j e H cmds" "held_at j H' = held_at j H" "hw_rate cmds' (e_index e) = hw_rate cmds (e_index e)"
    "\<And>h. h \<in> set H' \<Longrightarrow> unat (fst h) = Suc j \<Longrightarrow> h \<in> set H"
  shows "entry_ok j e H' cmds'"
  using assms unfolding entry_ok_def by metis

lemma entries_ok_update:
  assumes ok: "entries_ok es H cmds" and i: "i < length es" and e': "entry_ok i e' H' cmds'"
    and held: "\<And>j. j \<noteq> i \<Longrightarrow> held_at j H' = held_at j H" and hw: "\<And>k. unat k \<noteq> Suc i \<Longrightarrow> hw_rate cmds' k = hw_rate cmds k"
    and sub: "\<And>h. h \<in> set H' \<Longrightarrow> h \<in> set H \<or> unat (fst h) = Suc i"
    and uniq: "\<And>e. e \<in> set es \<Longrightarrow> sharable (rl_raw e') (e_uid e') e' \<Longrightarrow> sharable (rl_raw e') (e_uid e') e \<Longrightarrow> e = es ! i"
  shows "entries_ok (es[i := e']) H' cmds'"
proof -
  have old: "\<forall>j < length es. entry_ok j (es ! j) H cmds" using ok by (simp add: entries_ok_def)
  have "entry_ok j (es[i := e'] ! j) H' cmds'" if "j < length es" for j
  proof (cases "j = i")
    case True
    then show ?thesis using e' i by simp
  next
    case False
    have o: "entry_ok j (es ! j) H cmds" using old that by blast
    then have "unat (e_index (es ! j)) \<noteq> Suc i" using False by (simp add: entry_ok_def)
    then have "entry_ok j (es ! j) H' cmds'"
      using entry_ok_other [OF o held [OF False], of cmds'] hw [of "e_index (es ! j)"] sub False by fastforce
    then show ?thesis using False by simp
  qed
  moreover have "\<exists>j < length es. unat (fst h) = Suc j" if "h \<in> set H'" for h
    using sub [OF that] ok i unfolding entries_ok_def by blast
  moreover have "j = k" if jk: "j < length es" "k < length es" and sh: "sharable (rl_raw (es[i := e'] ! j)) (e_uid (es[i := e'] ! j)) (es[i := e'] ! j)"
      "sharable (rl_raw (es[i := e'] ! j)) (e_uid (es[i := e'] ! j)) (es[i := e'] ! k)" for j k
  proof -
    have same: "p = q" if "p < length es" "q < length es" "es ! p = es ! q" for p q
      using old that unfolding entry_ok_def by (metis nat.inject)
    have un: "p = q" if "p < length es" "q < length es" "sharable (rl_raw (es ! p)) (e_uid (es ! p)) (es ! p)"
        "sharable (rl_raw (es ! p)) (e_uid (es ! p)) (es ! q)" for p q
      using ok that unfolding entries_ok_def by blast
    consider "j = i" "k = i" | "j = i" "k \<noteq> i" | "j \<noteq> i" "k = i" | "j \<noteq> i" "k \<noteq> i" by blast
    then show ?thesis
    proof cases
      case 2
      then have "es ! k = es ! i" using uniq [of "es ! k"] sh jk i by simp
      then show ?thesis using same [OF jk(2) i] 2 by simp
    next
      case 3
      then have "rl_raw e' = rl_raw (es ! j)" "e_uid e' = e_uid (es ! j)" using sh i by (simp_all add: sharable_def mlx5_rl_are_equal_raw_def)
      then have "es ! j = es ! i" using uniq [of "es ! j"] sh jk i 3 by simp
      then show ?thesis using same [OF jk(1) i] 3 by simp
    next
      case 4
      then show ?thesis using un [OF jk] sh by simp
    qed simp
  qed
  ultimately show ?thesis unfolding entries_ok_def by simp
qed

lemma entries_ok_entry: "entries_ok es H cmds \<Longrightarrow> i < length es \<Longrightarrow> entry_ok i (es ! i) H cmds"
  by (simp add: entries_ok_def)

lemma entries_ok_unique:
  assumes "entries_ok es H cmds" "i < length es" "e \<in> set es" "sharable rl_in uid (es ! i)" "sharable rl_in uid e"
  shows "e = es ! i"
proof -
  obtain j where j: "j < length es" "e = es ! j" using assms(3) by (metis in_set_conv_nth)
  have "rl_raw (es ! i) = rl_in" "e_uid (es ! i) = uid" using assms(4) by (simp_all add: sharable_def mlx5_rl_are_equal_raw_def)
  then have "i = j" using assms j unfolding entries_ok_def by blast
  then show ?thesis using j by simp
qed

lemma entries_ok_share:
  assumes ok: "entries_ok es H cmds" and i: "i < length es" and sh: "sharable rl_in uid (es ! i)" and small: "Suc (length H) < 2 ^ 64"
  shows "entries_ok (es[i := mlx5_rl_entry_get (es ! i)]) (H @ [(e_index (es ! i), rl_in, uid, False)]) cmds"
proof -
  let ?e = "es ! i"
  have e: "entry_ok i ?e H cmds" by (rule entries_ok_entry [OF ok i])
  have raw: "rl_raw ?e = rl_in" "e_uid ?e = uid" "\<not> dedicated ?e" "e_refcount ?e \<noteq> 0"
    using sh by (simp_all add: sharable_def mlx5_rl_are_equal_raw_def)
  have "unat (e_refcount ?e + 1) = Suc (unat (e_refcount ?e))"
    using e held_at_le [of i H] small by (intro unat_plus_1) (simp add: entry_ok_def)
  then have e': "entry_ok i (mlx5_rl_entry_get ?e) (H @ [(e_index ?e, rl_in, uid, False)]) cmds"
    using e raw unfolding entry_ok_def mlx5_rl_entry_get_def by (auto simp: unat_eq_zero)
  show ?thesis
    using ok i e'
  proof (rule entries_ok_update)
    show "e = es ! i" if "e \<in> set es" "sharable (rl_raw (mlx5_rl_entry_get ?e)) (e_uid (mlx5_rl_entry_get ?e)) e" for e
      using entries_ok_unique [OF ok i that(1) sh] that(2) raw by (simp add: mlx5_rl_entry_get_def)
  qed (use e in \<open>auto simp: entry_ok_def\<close>)
qed

lemma entries_ok_new:
  assumes ok: "entries_ok es H cmds" and i: "i < length es" and free: "e_refcount (es ! i) = 0"
    and no: "ded \<or> (\<forall>e \<in> set es. \<not> sharable rl_in uid e)"
  defines "e' \<equiv> (es ! i)\<lparr>rl_raw := rl_in, e_uid := uid\<rparr>"
  shows "entries_ok (es[i := mlx5_rl_entry_get (e'\<lparr>dedicated := ded\<rparr>)]) (H @ [(e_index e', rl_in, uid, ded)]) (cmds @ [(e_index e', uid, rl_in, True)])"
    "entries_ok (es[i := e']) H (cmds @ [(e_index e', uid, c, False)])"
proof -
  have e: "entry_ok i (es ! i) H cmds" by (rule entries_ok_entry [OF ok i])
  then have idx: "unat (e_index (es ! i)) = Suc i" and none: "held_at i H = 0" using free by (simp_all add: entry_ok_def)
  have nh: "unat (fst h) \<noteq> Suc i" if "h \<in> set H" for h using held_at_pos [OF that, of i] none by auto
  show "entries_ok (es[i := e']) H (cmds @ [(e_index e', uid, c, False)])"
    using ok i
  proof (rule entries_ok_update)
    show "entry_ok i e' H (cmds @ [(e_index e', uid, c, False)])" using idx none nh free by (simp add: entry_ok_def e'_def)
  qed (use free in \<open>auto simp: e'_def sharable_def\<close>)
  let ?e = "mlx5_rl_entry_get (e'\<lparr>dedicated := ded\<rparr>)"
  show "entries_ok (es[i := ?e]) (H @ [(e_index e', rl_in, uid, ded)]) (cmds @ [(e_index e', uid, rl_in, True)])"
    using ok i
  proof (rule entries_ok_update)
    show "entry_ok i ?e (H @ [(e_index e', rl_in, uid, ded)]) (cmds @ [(e_index e', uid, rl_in, True)])"
      using idx none nh free by (auto simp: entry_ok_def e'_def mlx5_rl_entry_get_def)
    show "e = es ! i" if "e \<in> set es" "sharable (rl_raw ?e) (e_uid ?e) ?e" "sharable (rl_raw ?e) (e_uid ?e) e" for e
      using no that by (auto simp: mlx5_rl_entry_get_def e'_def sharable_def)
  qed (use idx in \<open>auto simp: e'_def\<close>)
qed

lemma entries_ok_put:
  assumes ok: "entries_ok es H cmds" and h: "h \<in> set H" and i: "i < length es" "unat (fst h) = Suc i"
    and cmds': "cmds' = (if e_refcount (es ! i) = 1 then cmds @ [(e_index (es ! i), u, c, b)] else cmds)"
  shows "entries_ok (es[i := (es ! i)\<lparr>e_refcount := e_refcount (es ! i) - 1\<rparr>]) (remove1 h H) cmds'"
proof -
  let ?e = "es ! i" and ?e' = "(es ! i)\<lparr>e_refcount := e_refcount (es ! i) - 1\<rparr>"
  have e: "entry_ok i ?e H cmds" by (rule entries_ok_entry [OF ok i(1)])
  have pos: "0 < held_at i H" by (rule held_at_pos [OF h i(2)])
  then have nz: "e_refcount ?e \<noteq> 0" using e by (auto simp: entry_ok_def)
  have ref: "unat (e_refcount ?e - 1) = unat (e_refcount ?e) - 1" using nz by (simp add: unat_minus_one)
  have last: "e_refcount ?e - 1 \<noteq> 0 \<Longrightarrow> e_refcount ?e \<noteq> 1" by auto
  have e': "entry_ok i ?e' (remove1 h H) cmds'"
    using e ref nz pos i(2) held_at_remove1 [OF h, of i] last notin_set_remove1 [of _ H h] unfolding entry_ok_def cmds' by auto
  show ?thesis
    using ok i(1) e'
  proof (rule entries_ok_update)
    show "held_at j (remove1 h H) = held_at j H" if "j \<noteq> i" for j using held_at_remove1 [OF h, of j] i(2) that by simp
    show "hw_rate cmds' k = hw_rate cmds k" if "unat k \<noteq> Suc i" for k using that e unfolding cmds' entry_ok_def by auto
    show "g \<in> set H \<or> unat (fst g) = Suc i" if "g \<in> set (remove1 h H)" for g using that notin_set_remove1 [of g H h] by blast
    show "q = es ! i" if "q \<in> set es" "sharable (rl_raw ?e') (e_uid ?e') ?e'" "sharable (rl_raw ?e') (e_uid ?e') q" for q
      using entries_ok_unique [OF ok i(1) that(1), of "rl_raw ?e" "e_uid ?e"] that nz by (auto simp: sharable_def mlx5_rl_are_equal_raw_def)
  qed
qed

section \<open>Reachable tables\<close>

inductive rl_reach :: "rl_dev \<Rightarrow> rl_holder list \<Rightarrow> bool" where
  rl_init: "rl_entry (rl_table dev) = None \<Longrightarrow> t_refcount (rl_table dev) = 0 \<Longrightarrow> rl_reach (mlx5_init_rl_table dev) []"
| rl_add: "rl_reach dev H \<Longrightarrow> Suc (length H) < 2 ^ 64 \<Longrightarrow> mlx5_rl_add_rate_raw env rl_in uid ded dev = Some (res, dev') \<Longrightarrow>
    rl_reach dev' (case res of Inl _ \<Rightarrow> H | Inr k \<Rightarrow> H @ [(k, rl_in, uid, ded)])"
| rl_remove: "rl_reach dev H \<Longrightarrow> h \<in> set H \<Longrightarrow> mlx5_rl_remove_rate_raw env (fst h) dev = Some dev' \<Longrightarrow> rl_reach dev' (remove1 h H)"
| rl_remove_by_rate: "rl_reach dev H \<Longrightarrow> h \<in> set H \<Longrightarrow> snd h = (rl_context rl, rl_uid dev, False) \<Longrightarrow> rate rl \<noteq> 0 \<Longrightarrow>
    mlx5_rl_remove_rate env rl dev = Some dev' \<Longrightarrow> rl_reach dev' (remove1 h H)"

definition rl_inv :: "rl_dev \<Rightarrow> rl_holder list \<Rightarrow> bool" where
  "rl_inv dev H \<longleftrightarrow> unat (t_refcount (rl_table dev)) = length H \<and>
     (case rl_entry (rl_table dev) of
        None \<Rightarrow> H = []
      | Some es \<Rightarrow> H \<noteq> [] \<and> length es = unat (max_size (rl_table dev)) \<and> entries_ok es H (rl_cmds dev))"

lemma set_simps [simp]: "rl_table (set_table t dev) = t" "rl_cmds (set_table t dev) = rl_cmds dev" "caps (set_table t dev) = caps dev"
  "set_table t (set_table t' dev) = set_table t dev"
  "rl_table (set_entry i e dev) = (rl_table dev)\<lparr>rl_entry := map_option (\<lambda>es. es[i := e]) (rl_entry (rl_table dev))\<rparr>"
  "rl_cmds (set_entry i e dev) = rl_cmds dev" "caps (set_entry i e dev) = caps dev"
  by (simp_all add: set_table_def set_entry_def)

text \<open>The table while one more reference is held than there are clients: after \<open>mlx5_rl_table_get\<close>.\<close>

definition rl_open :: "rl_dev \<Rightarrow> mlx5_rl_entry list \<Rightarrow> rl_holder list \<Rightarrow> bool" where
  "rl_open dev es H \<longleftrightarrow> rl_entry (rl_table dev) = Some es \<and> length es = unat (max_size (rl_table dev)) \<and> entries_ok es H (rl_cmds dev) \<and>
     unat (t_refcount (rl_table dev)) = Suc (length H)"

lemma rl_open_put: "rl_open dev es H \<Longrightarrow> rl_inv (put_table dev) H"
proof -
  assume o: "rl_open dev es H"
  let ?r = "t_refcount (rl_table dev)"
  have r: "unat ?r = Suc (length H)" using o by (simp add: rl_open_def)
  then have "?r \<noteq> 0" by auto
  then have "unat (?r - 1) = length H" using r by (simp add: unat_minus_one)
  moreover from this have "?r - 1 = 0 \<longleftrightarrow> H = []" by (metis length_0_conv unat_eq_zero)
  ultimately show ?thesis using o by (auto simp: rl_inv_def rl_open_def put_table_def mlx5_rl_table_put_def Let_def)
qed

lemma rl_open_client: "rl_open dev es H \<Longrightarrow> entries_ok es' (H @ [h]) (rl_cmds dev) \<Longrightarrow> length es' = length es \<Longrightarrow>
    rl_inv (set_table ((rl_table dev)\<lparr>rl_entry := Some es'\<rparr>) dev) (H @ [h])"
  by (simp add: rl_inv_def rl_open_def)

lemma table_get_open:
  assumes inv: "rl_inv dev H" and small: "Suc (length H) < 2 ^ 64" and g: "mlx5_rl_table_get env (rl_table dev) = Inr t"
  shows "\<exists>es. rl_open (set_table t dev) es H"
proof -
  have r: "unat (t_refcount (rl_table dev) + 1) = Suc (length H)"
    using inv small unat_plus_1 [of "t_refcount (rl_table dev)"] by (simp add: rl_inv_def)
  show ?thesis
  proof (cases "rl_entry (rl_table dev)")
    case None
    have "unat (max_size (rl_table dev)) < 2 ^ 16" using unsigned_less [of "max_size (rl_table dev)"] by simp
    from entries_ok_zero [OF this, of "rl_cmds dev"]
    show ?thesis using g r inv None by (auto simp: mlx5_rl_table_get_def rl_open_def rl_inv_def split: if_splits)
  next
    case (Some es)
    then show ?thesis using g r inv by (auto simp: mlx5_rl_table_get_def rl_open_def rl_inv_def)
  qed
qed

text \<open>Adding a rate.\<close>

lemma add_rate_step:
  assumes inv: "rl_inv dev H" and small: "Suc (length H) < 2 ^ 64"
  shows "\<exists>res dev'. mlx5_rl_add_rate_raw env rl_in uid ded dev = Some (res, dev') \<and>
    rl_inv dev' (case res of Inl _ \<Rightarrow> H | Inr k \<Rightarrow> H @ [(k, rl_in, uid, ded)]) \<and>
    (res = Inl ENOSPC \<longrightarrow> rl_cmd env = Some ENOSPC \<or> (\<forall>i < unat (max_size (rl_table dev)). 0 < held_at i H))"
proof (cases "max_size (rl_table dev) = 0 \<or> rate_limit_of rl_in = 0 \<or> \<not> mlx5_rl_is_in_range dev (rate_limit_of rl_in)")
  case True
  then show ?thesis using inv by (auto simp: mlx5_rl_add_rate_raw_def Let_def)
next
  case ok: False
  show ?thesis
  proof (cases "mlx5_rl_table_get env (rl_table dev)")
    case (Inl err)
    then have "err = ENOMEM" by (auto simp: mlx5_rl_table_get_def split: option.splits if_splits)
    then show ?thesis using ok Inl inv by (auto simp: mlx5_rl_add_rate_raw_def Let_def)
  next
    case (Inr t)
    obtain es where o: "rl_open (set_table t dev) es H" using table_get_open [OF inv small Inr] by blast
    then have es: "rl_entry t = Some es" "length es = unat (max_size t)" "entries_ok es H (rl_cmds dev)" by (simp_all add: rl_open_def)
    have mx: "max_size t = max_size (rl_table dev)" using Inr by (auto simp: mlx5_rl_table_get_def split: option.splits if_splits)
    let ?f = "find_rl_loop rl_in uid ded 0 None es"
    have f: "find_rl_entry t rl_in uid ded = Some ?f" using es by (simp add: find_rl_entry_def)
    show ?thesis
    proof (cases ?f)
      case None
      then have "mlx5_rl_add_rate_raw env rl_in uid ded dev = Some (Inl ENOSPC, put_table (set_table t dev))"
        using ok Inr f by (simp add: mlx5_rl_add_rate_raw_def Let_def)
      moreover have "0 < held_at i H" if "i < unat (max_size (rl_table dev))" for i
      proof -
        have i: "i < length es" using that es mx by simp
        then have "e_refcount (es ! i) \<noteq> 0" using find_rl_loop_None [OF None] by simp
        then have "unat (e_refcount (es ! i)) \<noteq> 0" by (simp add: unat_eq_zero)
        then show ?thesis using entries_ok_entry [OF es(3) i] by (simp add: entry_ok_def)
      qed
      ultimately show ?thesis using rl_open_put [OF o] by auto
    next
      case (Some i)
      note fs = find_rl_Some [OF Some]
      let ?e = "es ! i"
      show ?thesis
      proof (cases "e_refcount ?e = 0")
        case False
        then have sh: "\<not> ded" "sharable rl_in uid ?e" using fs by simp_all
        have "mlx5_rl_add_rate_raw env rl_in uid ded dev = Some (Inr (e_index ?e), set_entry i (mlx5_rl_entry_get ?e) (set_table t dev))"
          using ok Inr f Some fs(1) es(1) False by (simp add: mlx5_rl_add_rate_raw_def Let_def mlx5_rl_entry_get_def)
        moreover have "rl_inv (set_entry i (mlx5_rl_entry_get ?e) (set_table t dev)) (H @ [(e_index ?e, rl_in, uid, ded)])"
          using rl_open_client [OF o, of "es[i := mlx5_rl_entry_get ?e]"] entries_ok_share [OF es(3) fs(1) sh(2) small] sh(1) es(1) by (simp add: set_entry_def)
        ultimately show ?thesis by simp
      next
        case True
        define e' where "e' = ?e\<lparr>rl_raw := rl_in, e_uid := uid\<rparr>"
        have no: "ded \<or> (\<forall>e \<in> set es. \<not> sharable rl_in uid e)" using fs(2) True by simp
        note new = entries_ok_new [OF es(3) fs(1) True no, folded e'_def]
        define dev1 where "dev1 = (set_entry i e' (set_table t dev))\<lparr>rl_cmds := rl_cmds dev @ [(e_index e', uid, rl_in, rl_cmd env = None)]\<rparr>"
        have c: "mlx5_set_pp_rate_limit_cmd env e' True (set_entry i e' (set_table t dev)) = (rl_cmd env, dev1)"
          by (simp add: mlx5_set_pp_rate_limit_cmd_def dev1_def e'_def)
        have add: "mlx5_rl_add_rate_raw env rl_in uid ded dev = (case rl_cmd env of Some e \<Rightarrow> Some (Inl e, put_table dev1)
            | None \<Rightarrow> Some (Inr (e_index e'), set_entry i (mlx5_rl_entry_get (e'\<lparr>dedicated := ded\<rparr>)) dev1))"
          using ok Inr f Some fs(1) es(1) True c by (simp add: mlx5_rl_add_rate_raw_def Let_def mlx5_rl_entry_get_def e'_def [symmetric] split: option.split)
        show ?thesis
        proof (cases "rl_cmd env")
          case None
          have "rl_inv (set_entry i (mlx5_rl_entry_get (e'\<lparr>dedicated := ded\<rparr>)) dev1) (H @ [(e_index e', rl_in, uid, ded)])"
            using new(1) None o es by (simp add: rl_inv_def rl_open_def dev1_def)
          then show ?thesis using add None by simp
        next
          case (Some err)
          have "rl_open dev1 (es[i := e']) H" using new(2) [of rl_in] Some o es by (simp add: rl_open_def dev1_def)
          then show ?thesis using add Some rl_open_put by fastforce
        qed
      qed
    qed
  qed
qed

text \<open>Removing a rate.\<close>

lemma rl_inv_holder:
  assumes "rl_inv dev H" "h \<in> set H"
  obtains es i where "rl_entry (rl_table dev) = Some es" "length es = unat (max_size (rl_table dev))" "entries_ok es H (rl_cmds dev)"
    "i < length es" "unat (fst h) = Suc i" "snd h = (rl_raw (es ! i), e_uid (es ! i), dedicated (es ! i))" "e_refcount (es ! i) \<noteq> 0"
proof -
  obtain es where es: "rl_entry (rl_table dev) = Some es" "length es = unat (max_size (rl_table dev))" "entries_ok es H (rl_cmds dev)"
    using assms by (auto simp: rl_inv_def split: option.splits)
  obtain i where i: "i < length es" "unat (fst h) = Suc i" using es(3) assms(2) unfolding entries_ok_def by blast
  have e: "entry_ok i (es ! i) H (rl_cmds dev)" by (rule entries_ok_entry [OF es(3) i(1)])
  then have "snd h = (rl_raw (es ! i), e_uid (es ! i), dedicated (es ! i))" using assms(2) i(2) unfolding entry_ok_def by blast
  moreover have "e_refcount (es ! i) \<noteq> 0" using e held_at_pos [OF assms(2) i(2)] by (auto simp: entry_ok_def)
  ultimately show thesis using es i that by blast
qed

lemma entry_put_step:
  assumes inv: "rl_inv dev H" and h: "h \<in> set H" and es: "rl_entry (rl_table dev) = Some es" and i: "i < length es" "unat (fst h) = Suc i"
  shows "rl_inv (put_table (mlx5_rl_entry_put env i (es ! i) dev)) (remove1 h H)"
proof -
  let ?e = "es ! i"
  define e' where "e' = ?e\<lparr>e_refcount := e_refcount ?e - 1\<rparr>"
  define cmds' where "cmds' = (if e_refcount ?e = 1 then rl_cmds dev @ [(e_index ?e, e_uid ?e, replicate 48 0, rl_cmd env = None)] else rl_cmds dev)"
  have ok: "entries_ok es H (rl_cmds dev)" "length es = unat (max_size (rl_table dev))" "unat (t_refcount (rl_table dev)) = length H"
    using inv es by (simp_all add: rl_inv_def)
  have "entries_ok (es[i := e']) (remove1 h H) cmds'"
    unfolding e'_def cmds'_def by (rule entries_ok_put [OF ok(1) h i refl])
  moreover have "e_refcount e' = 0 \<longleftrightarrow> e_refcount ?e = 1" by (simp add: e'_def)
  then have "mlx5_rl_entry_put env i ?e dev = (set_entry i e' dev)\<lparr>rl_cmds := cmds'\<rparr>"
    by (auto simp: mlx5_rl_entry_put_def mlx5_set_pp_rate_limit_cmd_def Let_def e'_def cmds'_def set_entry_def set_table_def)
  moreover have "length H = Suc (length (remove1 h H))" using length_remove1 [of h H] h length_pos_if_in_set [OF h] by simp
  ultimately have "rl_open (mlx5_rl_entry_put env i ?e dev) (es[i := e']) (remove1 h H)"
    using ok es by (simp add: rl_open_def)
  then show ?thesis by (rule rl_open_put)
qed

lemma index_pos: "unat (k :: u16) = Suc i \<Longrightarrow> nat (uint k - 1) = i"
  by (simp add: uint_nat)

lemma remove_rate_raw_step:
  assumes inv: "rl_inv dev H" and h: "h \<in> set H"
  shows "\<exists>dev'. mlx5_rl_remove_rate_raw env (fst h) dev = Some dev' \<and> rl_inv dev' (remove1 h H)"
proof -
  obtain es i where es: "rl_entry (rl_table dev) = Some es" "i < length es" "unat (fst h) = Suc i" by (rule rl_inv_holder [OF inv h])
  have "nat (uint (fst h) - 1) = i" by (rule index_pos [OF es(3)])
  moreover have "fst h \<noteq> 0" using es(3) by auto
  ultimately have "mlx5_rl_remove_rate_raw env (fst h) dev = Some (put_table (mlx5_rl_entry_put env i (es ! i) dev))"
    using es by (simp add: mlx5_rl_remove_rate_raw_def)
  then show ?thesis using entry_put_step [OF inv h es] by simp
qed

lemma remove_rate_eq:
  assumes inv: "rl_inv dev H" and h: "h \<in> set H" "snd h = (rl_context rl, rl_uid dev, False)" and r: "rate rl \<noteq> 0"
  shows "mlx5_rl_remove_rate env rl dev = mlx5_rl_remove_rate_raw env (fst h) dev"
proof -
  obtain es i where es: "rl_entry (rl_table dev) = Some es" "length es = unat (max_size (rl_table dev))" "entries_ok es H (rl_cmds dev)"
    "i < length es" "unat (fst h) = Suc i" "snd h = (rl_raw (es ! i), e_uid (es ! i), dedicated (es ! i))" "e_refcount (es ! i) \<noteq> 0"
    by (rule rl_inv_holder [OF inv h(1)])
  have sh: "sharable (rl_context rl) (rl_uid dev) (es ! i)" using es(6,7) h(2) by (simp add: sharable_def mlx5_rl_are_equal_raw_def)
  have found: "find_rl_loop (rl_context rl) (rl_uid dev) False 0 None es = Some i"
  proof (cases "find_rl_loop (rl_context rl) (rl_uid dev) False 0 None es")
    case None
    then show ?thesis using find_rl_loop_None [OF None] sh es(4) by auto
  next
    case (Some k)
    note fs = find_rl_Some [OF Some]
    have "sharable (rl_context rl) (rl_uid dev) (es ! k)" using fs sh es(4) by (auto split: if_splits)
    then have "es ! k = es ! i" using entries_ok_unique [OF es(3,4) nth_mem [OF fs(1)] sh] by simp
    then have "k = i" using entries_ok_entry [OF es(3) fs(1)] entries_ok_entry [OF es(3,4)] by (simp add: entry_ok_def)
    then show ?thesis using Some by simp
  qed
  have "nat (uint (fst h) - 1) = i" by (rule index_pos [OF es(5)])
  moreover have "fst h \<noteq> 0" using es(5) by auto
  ultimately have "mlx5_rl_remove_rate_raw env (fst h) dev = Some (put_table (mlx5_rl_entry_put env i (es ! i) dev))"
    using es by (simp add: mlx5_rl_remove_rate_raw_def)
  moreover have "mlx5_rl_remove_rate env rl dev = Some (put_table (mlx5_rl_entry_put env i (es ! i) dev))"
    using r es found by (simp add: mlx5_rl_remove_rate_def find_rl_entry_def)
  ultimately show ?thesis by simp
qed

lemma reach_rl_inv: "rl_reach dev H \<Longrightarrow> rl_inv dev H"
proof (induction rule: rl_reach.induct)
  case (rl_init dev)
  then show ?case by (simp add: rl_inv_def mlx5_init_rl_table_def)
next
  case (rl_add dev H env rl_in uid ded res dev')
  then show ?case using add_rate_step [OF rl_add.IH rl_add.hyps(2), of env rl_in uid ded] by auto
next
  case (rl_remove dev H h env dev')
  then show ?case using remove_rate_raw_step [OF rl_remove.IH rl_remove.hyps(2), of env] by auto
next
  case (rl_remove_by_rate dev H h rl env dev')
  then show ?case
    using remove_rate_raw_step [OF rl_remove_by_rate.IH rl_remove_by_rate.hyps(2), of env]
      remove_rate_eq [OF rl_remove_by_rate.IH rl_remove_by_rate.hyps(2-4), of env] by auto
qed

text \<open>Two clients at different places of the list.\<close>

lemma two_holders:
  assumes "p < length H" "q < length H" "p \<noteq> q" "unat (fst (H ! p)) = Suc i" "unat (fst (H ! q)) = Suc i"
  shows "2 \<le> held_at i H"
proof -
  have "card {p, q} \<le> card {k. k < length H \<and> unat (fst (H ! k)) = Suc i}" using assms by (intro card_mono) auto
  then show ?thesis using assms(3) by (simp add: held_at_def length_filter_conv_card)
qed

lemma holder_facts:
  assumes inv: "rl_inv dev H" and h: "h \<in> set H"
  shows "1 \<le> unat (fst h) \<and> unat (fst h) \<le> unat (max_size (rl_table dev)) \<and> hw_rate (rl_cmds dev) (fst h) = Some (fst (snd (snd h)), fst (snd h))"
proof -
  obtain es i where es: "rl_entry (rl_table dev) = Some es" "length es = unat (max_size (rl_table dev))" "entries_ok es H (rl_cmds dev)"
    "i < length es" "unat (fst h) = Suc i" "snd h = (rl_raw (es ! i), e_uid (es ! i), dedicated (es ! i))" "e_refcount (es ! i) \<noteq> 0"
    by (rule rl_inv_holder [OF inv h])
  have e: "entry_ok i (es ! i) H (rl_cmds dev)" by (rule entries_ok_entry [OF es(3,4)])
  then have "e_index (es ! i) = fst h" using es(5) by (simp add: entry_ok_def word_unat_eq_iff)
  then show ?thesis using e es by (simp add: entry_ok_def)
qed

lemma holders_share:
  assumes inv: "rl_inv dev H" and pq: "p < length H" "q < length H" "p \<noteq> q"
  shows "fst (H ! p) = fst (H ! q) \<longleftrightarrow> snd (H ! p) = snd (H ! q) \<and> \<not> snd (snd (snd (H ! p)))"
proof -
  obtain es i where es: "rl_entry (rl_table dev) = Some es" "entries_ok es H (rl_cmds dev)"
    "i < length es" "unat (fst (H ! p)) = Suc i" "snd (H ! p) = (rl_raw (es ! i), e_uid (es ! i), dedicated (es ! i))" "e_refcount (es ! i) \<noteq> 0"
    by (rule rl_inv_holder [OF inv nth_mem [OF pq(1)]])
  obtain es' j where es': "rl_entry (rl_table dev) = Some es'"
    "j < length es'" "unat (fst (H ! q)) = Suc j" "snd (H ! q) = (rl_raw (es' ! j), e_uid (es' ! j), dedicated (es' ! j))" "e_refcount (es' ! j) \<noteq> 0"
    by (rule rl_inv_holder [OF inv nth_mem [OF pq(2)]])
  have [simp]: "es' = es" using es(1) es'(1) by simp
  show ?thesis
  proof
    assume eq: "fst (H ! p) = fst (H ! q)"
    then have "j = i" using es(4) es'(3) by simp
    moreover have "\<not> dedicated (es ! i)"
    proof
      assume "dedicated (es ! i)"
      then have "e_refcount (es ! i) = 1" using entries_ok_entry [OF es(2,3)] es(6) by (simp add: entry_ok_def)
      moreover have "2 \<le> held_at i H" using two_holders [OF pq es(4)] eq es(4) by simp
      ultimately show False using entries_ok_entry [OF es(2,3)] by (simp add: entry_ok_def)
    qed
    ultimately show "snd (H ! p) = snd (H ! q) \<and> \<not> snd (snd (snd (H ! p)))" using es(5) es'(4) by simp
  next
    assume "snd (H ! p) = snd (H ! q) \<and> \<not> snd (snd (snd (H ! p)))"
    then have "sharable (rl_raw (es ! i)) (e_uid (es ! i)) (es ! i)" "sharable (rl_raw (es ! i)) (e_uid (es ! i)) (es ! j)"
      using es es' by (auto simp: sharable_def mlx5_rl_are_equal_raw_def)
    then have "i = j" using es(2,3) es'(2) unfolding entries_ok_def by simp
    then show "fst (H ! p) = fst (H ! q)" using es(4) es'(3) by (simp add: word_unat_eq_iff)
  qed
qed

section \<open>An example run\<close>

definition rlx_env :: rl_env where "rlx_env = \<lparr>rl_kcalloc = True, rl_cmd = None\<rparr>"

definition rlx_rate :: mlx5_rate_limit where "rlx_rate = \<lparr>rate = 1000, max_burst_sz = 0, typical_pkt_sz = 64\<rparr>"

definition rlx0 :: rl_dev where
  "rlx0 = mlx5_init_rl_table
     \<lparr>caps = \<lparr>cap_qos = True, packet_pacing = True, packet_pacing_uid = False, packet_pacing_rate_table_size = 4, packet_pacing_max_rate = 5000,
        packet_pacing_min_rate = 1, esw_tsar_type = 0, nic_tsar_type = 0, esw_element_type = 0, nic_element_type = 0\<rparr>,
      rl_table = \<lparr>max_size = 0, max_rate = 0, min_rate = 0, rl_entry = None, t_refcount = 0\<rparr>, rl_cmds = []\<rparr>"

definition rlx1 :: rl_dev where "rlx1 = snd (the (mlx5_rl_add_rate rlx_env rlx_rate rlx0))"

definition rlx2 :: rl_dev where "rlx2 = snd (the (mlx5_rl_add_rate rlx_env rlx_rate rlx1))"

abbreviation rlx_h :: rl_holder where "rlx_h \<equiv> (1, rl_context rlx_rate, 0, False)"

lemma rlx_reach1: "rl_reach rlx1 [rlx_h]"
proof -
  have "rl_reach rlx0 []" unfolding rlx0_def by (rule rl_init) simp_all
  moreover have "mlx5_rl_add_rate_raw rlx_env (rl_context rlx_rate) 0 False rlx0 = Some (Inr 1, rlx1)" by code_simp
  ultimately have "rl_reach rlx1 (case Inr 1 of Inl (_ :: errno) \<Rightarrow> [] | Inr k \<Rightarrow> [] @ [(k, rl_context rlx_rate, 0, False)])"
    by (intro rl_add [of rlx0 "[]"]) simp_all
  then show ?thesis by simp
qed

lemma rlx_reach2: "rl_reach rlx2 [rlx_h, rlx_h]"
proof -
  have "mlx5_rl_add_rate_raw rlx_env (rl_context rlx_rate) 0 False rlx1 = Some (Inr 1, rlx2)" by code_simp
  then have "rl_reach rlx2 (case Inr 1 of Inl (_ :: errno) \<Rightarrow> [rlx_h] | Inr k \<Rightarrow> [rlx_h] @ [(k, rl_context rlx_rate, 0, False)])"
    by (intro rl_add [OF rlx_reach1]) simp_all
  then show ?thesis by simp
qed

section \<open>Properties\<close>

text \<open>
  C11: The rate table serves every client its own rate: the index a client holds lies in the table, the
  firmware has the client's context under it, and two clients share an index exactly when neither
  asked for a dedicated entry and both asked for the same context under the same user.
\<close>

theorem rl_sharing:
  assumes "rl_reach dev H" and "p < length H" "q < length H" "p \<noteq> q"
    and "H ! p = (k1, raw1, uid1, ded1)" "H ! q = (k2, raw2, uid2, ded2)"
  shows "1 \<le> unat k1 \<and> unat k1 \<le> unat (max_size (rl_table dev)) \<and> hw_rate (rl_cmds dev) k1 = Some (uid1, raw1) \<and>
    (k1 = k2 \<longleftrightarrow> \<not> ded1 \<and> \<not> ded2 \<and> raw1 = raw2 \<and> uid1 = uid2)"
  using holder_facts [OF reach_rl_inv [OF assms(1)] nth_mem [OF assms(2)]]
    holders_share [OF reach_rl_inv [OF assms(1)] assms(2-4)] unfolding assms(5,6) by auto

theorem rl_sharing_witness:
  "hw_rate (rl_cmds rlx2) 1 = Some (0, rl_context rlx_rate) \<and> unat (1 :: u16) \<le> unat (max_size (rl_table rlx2))"
  using rl_sharing [OF rlx_reach2, of 0 1 1 "rl_context rlx_rate" 0 False 1 "rl_context rlx_rate" 0 False] by simp

text \<open>
  C30: The rate table neither leaks nor dereferences a freed table: in every reachable state adding a rate
  returns and fails for lack of space only when every entry is held by a client, removing a
  held rate returns, by index or by value with the same effect, and the table is freed
  exactly with its last client.
\<close>

theorem rl_table_lifetime:
  assumes "rl_reach dev H" and "Suc (length H) < 2 ^ 64"
  shows "(\<exists>res dev'. mlx5_rl_add_rate_raw env rl_in uid ded dev = Some (res, dev') \<and>
      (res = Inl ENOSPC \<longrightarrow> rl_cmd env = Some ENOSPC \<or> (\<forall>i < unat (max_size (rl_table dev)). \<exists>h \<in> set H. unat (fst h) = Suc i))) \<and>
    (h \<in> set H \<longrightarrow> (\<exists>dev'. mlx5_rl_remove_rate_raw env (fst h) dev = Some dev' \<and> (rl_entry (rl_table dev') = None \<longleftrightarrow> H = [h]) \<and>
      (snd h = (rl_context rl, rl_uid dev, False) \<and> rate rl \<noteq> 0 \<longrightarrow> mlx5_rl_remove_rate env rl dev = Some dev')))"
proof -
  have inv: "rl_inv dev H" by (rule reach_rl_inv [OF assms(1)])
  have held: "0 < held_at i H \<Longrightarrow> \<exists>h \<in> set H. unat (fst h) = Suc i" for i by (auto simp: held_at_def filter_empty_conv)
  have "\<exists>dev'. mlx5_rl_remove_rate_raw env (fst h) dev = Some dev' \<and> (rl_entry (rl_table dev') = None \<longleftrightarrow> H = [h]) \<and>
      (snd h = (rl_context rl, rl_uid dev, False) \<and> rate rl \<noteq> 0 \<longrightarrow> mlx5_rl_remove_rate env rl dev = Some dev')" if h: "h \<in> set H"
  proof -
    obtain dev' where d: "mlx5_rl_remove_rate_raw env (fst h) dev = Some dev'" "rl_inv dev' (remove1 h H)"
      using remove_rate_raw_step [OF inv h] by blast
    have "rl_entry (rl_table dev') = None \<longleftrightarrow> remove1 h H = []" using d(2) by (auto simp: rl_inv_def split: option.splits)
    moreover have "remove1 h H = [] \<longleftrightarrow> H = [h]" using h by (cases H) auto
    ultimately show ?thesis using d(1) remove_rate_eq [OF inv h, of rl env] by auto
  qed
  then show ?thesis using add_rate_step [OF inv assms(2), of env rl_in uid ded] held by blast
qed

theorem rl_table_lifetime_witness:
  "(\<exists>dev'. mlx5_rl_remove_rate_raw rlx_env 1 rlx1 = Some dev' \<and> rl_entry (rl_table dev') = None \<and> mlx5_rl_remove_rate rlx_env rlx_rate rlx1 = Some dev')"
proof -
  have "rl_uid rlx1 = 0" by code_simp
  moreover have "rate rlx_rate \<noteq> 0" by (simp add: rlx_rate_def)
  ultimately show ?thesis using rl_table_lifetime [OF rlx_reach1, of rlx_env "[]" 0 False rlx_h rlx_rate] by auto
qed

end
