(* ===== verification/Mlx5_Uar.thy ===== *)
theory Mlx5_Uar
  imports Bitmaps "HOL-Library.Multiset"
begin

unbundle bit_operations_syntax

text \<open>
  The allocator of blue-flame registers of the mlx5 core driver, \<open>mlx5/core/uar.c\<close>: pages of user access regions,
  each with a bitmap of ordinary and one of fast-path registers, reference-counted and kept in a list as
  long as registers of both kinds are left. A page is named by a number, its address. Memory, the answers
  of the firmware and of \<open>ioremap\<close> come from an environment; the mappings that exist are kept with the size that was asked for. An access to a page that is gone, a bit
  outside of its bitmap and the removal of a page that is in no list yield \<open>None\<close>.
\<close>

section \<open>Pages\<close>

definition MLX5_BFREGS_PER_UAR :: nat where "MLX5_BFREGS_PER_UAR = 4"
definition MLX5_NON_FP_BFREGS_PER_UAR :: nat where "MLX5_NON_FP_BFREGS_PER_UAR = 2"
definition MLX5_FP_BFREGS_PER_UAR :: nat where "MLX5_FP_BFREGS_PER_UAR = 2"
definition MLX5_ADAPTER_PAGE_SHIFT :: nat where "MLX5_ADAPTER_PAGE_SHIFT = 12"
definition MLX5_ADAPTER_PAGE_SIZE :: nat where "MLX5_ADAPTER_PAGE_SIZE = 4096"
definition MLX5_BF_OFFSET :: nat where "MLX5_BF_OFFSET = 0x800"

lemmas uar_consts = MLX5_BFREGS_PER_UAR_def MLX5_NON_FP_BFREGS_PER_UAR_def MLX5_FP_BFREGS_PER_UAR_def
  MLX5_ADAPTER_PAGE_SHIFT_def MLX5_ADAPTER_PAGE_SIZE_def MLX5_BF_OFFSET_def

record uar_caps =
  uar_4k :: bool
  num_of_uars_per_page :: nat
  log_bf_reg_size :: nat
  bar_addr :: u64
  page_shift :: nat

record mlx5_uars_page =
  up_map :: nat
  up_index :: u32
  up_bfregs :: nat
  reg_bitmap :: "bool list"
  fp_bitmap :: "bool list"
  reg_avail :: u32
  fp_avail :: u32
  ref_count :: nat

record mlx5_sq_bfreg =
  b_map :: nat
  b_up :: nat
  b_wc :: bool
  b_index :: u32

record uar_dev =
  ucaps :: uar_caps
  ups :: "nat \<Rightarrow> mlx5_uars_page option"
  reg_head :: "nat list"
  wc_head :: "nat list"
  uar_alloced :: "u32 list"
  uar_freed :: "u32 list"
  mapped :: "nat \<Rightarrow> nat option"

text \<open>One answer for each request of a call: memory, the firmware, and \<open>ioremap\<close> or \<open>ioremap_wc\<close>, whichever the call uses.\<close>

record uar_env =
  kz_page :: "nat option"
  kz_reg :: bool
  kz_fp :: bool
  cmd_alloc_uar :: "u32 result"
  ioremap :: "u64 \<Rightarrow> nat \<Rightarrow> nat option"

definition PAGE_SIZE :: "uar_caps \<Rightarrow> nat" where
  "PAGE_SIZE c = 2 ^ page_shift c"

definition uars_per_sys_page :: "uar_caps \<Rightarrow> nat" where
  "uars_per_sys_page c = (if uar_4k c then num_of_uars_per_page c else 1)"

definition uar2pfn :: "uar_caps \<Rightarrow> u32 \<Rightarrow> u64" where
  "uar2pfn c index =
     (let system_page_index = (if uar_4k c then drop_bit (page_shift c - MLX5_ADAPTER_PAGE_SHIFT) index else index)
      in drop_bit (page_shift c) (bar_addr c) + ucast system_page_index)"

definition mlx5_cmd_alloc_uar :: "uar_env \<Rightarrow> uar_dev \<Rightarrow> u32 result \<times> uar_dev" where
  "mlx5_cmd_alloc_uar env dev =
     (cmd_alloc_uar env, case cmd_alloc_uar env of Inl _ \<Rightarrow> dev | Inr u \<Rightarrow> dev\<lparr>uar_alloced := uar_alloced dev @ [u]\<rparr>)"

text \<open>The callers only warn when the firmware refuses the command; the log keeps what was handed back.\<close>

definition mlx5_cmd_free_uar :: "u32 \<Rightarrow> uar_dev \<Rightarrow> uar_dev" where
  "mlx5_cmd_free_uar uarn dev = dev\<lparr>uar_freed := uar_freed dev @ [uarn]\<rparr>"

definition set_page :: "nat \<Rightarrow> mlx5_uars_page \<Rightarrow> uar_dev \<Rightarrow> uar_dev" where
  "set_page p up dev = dev\<lparr>ups := (ups dev)(p \<mapsto> up)\<rparr>"

text \<open>\<open>ioremap\<close> or \<open>ioremap_wc\<close> of a number of bytes, and \<open>iounmap\<close>: \<open>mapped\<close> holds the size of every mapping under its first address.\<close>

definition do_ioremap :: "uar_env \<Rightarrow> u64 \<Rightarrow> nat \<Rightarrow> uar_dev \<Rightarrow> nat option \<times> uar_dev" where
  "do_ioremap env addr sz dev =
     (case ioremap env addr sz of
        None \<Rightarrow> (None, dev)
      | Some m \<Rightarrow> (Some m, dev\<lparr>mapped := (mapped dev)(m \<mapsto> sz)\<rparr>))"

definition do_iounmap :: "nat \<Rightarrow> uar_dev \<Rightarrow> uar_dev" where
  "do_iounmap m dev = dev\<lparr>mapped := (mapped dev)(m := None)\<rparr>"

text \<open>\<open>list_del\<close> of a page from the list it is in.\<close>

definition del_page :: "nat \<Rightarrow> uar_dev \<Rightarrow> uar_dev option" where
  "del_page p dev =
     (if p \<in> set (reg_head dev) then Some (dev\<lparr>reg_head := remove1 p (reg_head dev)\<rparr>)
      else if p \<in> set (wc_head dev) then Some (dev\<lparr>wc_head := remove1 p (wc_head dev)\<rparr>)
      else None)"

definition up_rel_func :: "nat \<Rightarrow> uar_dev \<Rightarrow> uar_dev option" where
  "up_rel_func p dev =
     do {
       up \<leftarrow> ups dev p;
       dev \<leftarrow> del_page p dev;
       let dev = do_iounmap (up_map up) dev;
       let dev = mlx5_cmd_free_uar (up_index up) dev;
       Some (dev\<lparr>ups := (ups dev)(p := None)\<rparr>)
     }"

definition kref_put_page :: "nat \<Rightarrow> uar_dev \<Rightarrow> uar_dev option" where
  "kref_put_page p dev =
     do {
       up \<leftarrow> ups dev p;
       if ref_count up = 0 then None
       else
         let dev = set_page p (up\<lparr>ref_count := ref_count up - 1\<rparr>) dev
         in if ref_count up = 1 then up_rel_func p dev else Some dev
     }"

definition alloc_uars_page :: "uar_env \<Rightarrow> bool \<Rightarrow> uar_dev \<Rightarrow> nat result \<times> uar_dev" where
  "alloc_uars_page env map_wc dev =
     (let bfregs = uars_per_sys_page (ucaps dev) * MLX5_BFREGS_PER_UAR
      in case kz_page env of
           None \<Rightarrow> (Inl ENOMEM, dev)
         | Some p \<Rightarrow>
             if \<not> kz_reg env \<or> \<not> kz_fp env then (Inl ENOMEM, dev)
             else
               case mlx5_cmd_alloc_uar env dev of
                 (Inl err, dev) \<Rightarrow> (Inl err, dev)
               | (Inr index, dev) \<Rightarrow>
                   (case do_ioremap env (push_bit (page_shift (ucaps dev)) (uar2pfn (ucaps dev) index))
                           (PAGE_SIZE (ucaps dev)) dev of
                      (None, dev) \<Rightarrow> (Inl (if map_wc then EAGAIN else ENOMEM), mlx5_cmd_free_uar index dev)
                    | (Some m, dev) \<Rightarrow>
                        (Inr p, set_page p
                           \<lparr>up_map = m, up_index = index, up_bfregs = bfregs,
                            reg_bitmap = map (\<lambda>i. i mod MLX5_BFREGS_PER_UAR < MLX5_NON_FP_BFREGS_PER_UAR) [0..<bfregs],
                            fp_bitmap = map (\<lambda>i. \<not> i mod MLX5_BFREGS_PER_UAR < MLX5_NON_FP_BFREGS_PER_UAR) [0..<bfregs],
                            reg_avail = word_of_nat (bfregs * MLX5_NON_FP_BFREGS_PER_UAR div MLX5_BFREGS_PER_UAR),
                            fp_avail = word_of_nat (bfregs * MLX5_FP_BFREGS_PER_UAR div MLX5_BFREGS_PER_UAR),
                            ref_count = 1\<rparr> dev)))"

definition get_page :: "nat \<Rightarrow> uar_dev \<Rightarrow> uar_dev option" where
  "get_page p dev = map_option (\<lambda>up. set_page p (up\<lparr>ref_count := ref_count up + 1\<rparr>) dev) (ups dev p)"

definition mlx5_get_uars_page :: "uar_env \<Rightarrow> uar_dev \<Rightarrow> (nat result \<times> uar_dev) option" where
  "mlx5_get_uars_page env dev =
     (case reg_head dev of
        p # _ \<Rightarrow> map_option (\<lambda>dev. (Inr p, dev)) (get_page p dev)
      | [] \<Rightarrow>
          (case alloc_uars_page env False dev of
             (Inl err, dev) \<Rightarrow> Some (Inl err, dev)
           | (Inr p, dev) \<Rightarrow> Some (Inr p, dev\<lparr>reg_head := p # reg_head dev\<rparr>)))"

definition mlx5_put_uars_page :: "nat \<Rightarrow> uar_dev \<Rightarrow> uar_dev option" where
  "mlx5_put_uars_page p dev = kref_put_page p dev"

section \<open>Registers\<close>

definition map_offset :: "uar_caps \<Rightarrow> nat \<Rightarrow> nat" where
  "map_offset c dbi =
     dbi div MLX5_BFREGS_PER_UAR * MLX5_ADAPTER_PAGE_SIZE + dbi mod MLX5_BFREGS_PER_UAR * 2 ^ log_bf_reg_size c + MLX5_BF_OFFSET"

definition head_of :: "bool \<Rightarrow> uar_dev \<Rightarrow> nat list" where
  "head_of wc dev = (if wc then wc_head dev else reg_head dev)"

definition set_head :: "bool \<Rightarrow> nat list \<Rightarrow> uar_dev \<Rightarrow> uar_dev" where
  "set_head wc l dev = (if wc then dev\<lparr>wc_head := l\<rparr> else dev\<lparr>reg_head := l\<rparr>)"

definition bitmap_of :: "bool \<Rightarrow> mlx5_uars_page \<Rightarrow> bool list" where
  "bitmap_of fp up = (if fp then fp_bitmap up else reg_bitmap up)"

definition avail_of :: "bool \<Rightarrow> mlx5_uars_page \<Rightarrow> u32" where
  "avail_of fp up = (if fp then fp_avail up else reg_avail up)"

definition set_bits :: "bool \<Rightarrow> bool list \<Rightarrow> u32 \<Rightarrow> mlx5_uars_page \<Rightarrow> mlx5_uars_page" where
  "set_bits fp bs n up = (if fp then up\<lparr>fp_bitmap := bs, fp_avail := n\<rparr> else up\<lparr>reg_bitmap := bs, reg_avail := n\<rparr>)"

text \<open>The page \<open>alloc_bfreg\<close> takes a register from: the first of the list, or a new one.\<close>

definition first_page :: "uar_env \<Rightarrow> bool \<Rightarrow> uar_dev \<Rightarrow> (nat result \<times> uar_dev) option" where
  "first_page env map_wc dev =
     (case head_of map_wc dev of
        [] \<Rightarrow>
          (case alloc_uars_page env map_wc dev of
             (Inl err, dev) \<Rightarrow> Some (Inl err, dev)
           | (Inr p, dev) \<Rightarrow> Some (Inr p, set_head map_wc (p # head_of map_wc dev) dev))
      | p # _ \<Rightarrow> map_option (\<lambda>dev. (Inr p, dev)) (get_page p dev))"

definition alloc_bfreg :: "uar_env \<Rightarrow> bool \<Rightarrow> bool \<Rightarrow> uar_dev \<Rightarrow> (mlx5_sq_bfreg result \<times> uar_dev) option" where
  "alloc_bfreg env map_wc fast_path dev =
     do {
       (res, dev) \<leftarrow> first_page env map_wc dev;
       case res of
         Inl err \<Rightarrow> Some (Inl err, dev)
       | Inr p \<Rightarrow>
           do {
             up \<leftarrow> ups dev p;
             let dbi = find_first_bit (bitmap_of fast_path up);
             bs \<leftarrow> arr_set (bitmap_of fast_path up) dbi False;
             let up = set_bits fast_path bs (avail_of fast_path up - 1) up;
             let dev = set_page p up dev;
             dev \<leftarrow> (if avail_of fast_path up = 0 then del_page p dev else Some dev);
             Some (Inr \<lparr>b_map = up_map up + map_offset (ucaps dev) dbi, b_up = p, b_wc = map_wc,
                        b_index = up_index up + word_of_nat (dbi div MLX5_BFREGS_PER_UAR)\<rparr>, dev)
           }
     }"

definition mlx5_alloc_bfreg :: "uar_env \<Rightarrow> uar_env \<Rightarrow> bool \<Rightarrow> bool \<Rightarrow> uar_dev \<Rightarrow> (mlx5_sq_bfreg result \<times> uar_dev) option" where
  "mlx5_alloc_bfreg env env' map_wc fast_path dev =
     do {
       (res, dev) \<leftarrow> alloc_bfreg env map_wc fast_path dev;
       if res = Inl EAGAIN \<and> map_wc then alloc_bfreg env' False fast_path dev else Some (res, dev)
     }"

definition addr_to_dbi_in_syspage :: "uar_caps \<Rightarrow> mlx5_uars_page \<Rightarrow> mlx5_sq_bfreg \<Rightarrow> nat" where
  "addr_to_dbi_in_syspage c up bfreg =
     (let bf_reg_size = 2 ^ log_bf_reg_size c;
          uar_idx = (b_map bfreg - up_map up) div 2 ^ MLX5_ADAPTER_PAGE_SHIFT;
          bfreg_idx = (b_map bfreg mod MLX5_ADAPTER_PAGE_SIZE - MLX5_BF_OFFSET) div bf_reg_size
      in uar_idx * MLX5_BFREGS_PER_UAR + bfreg_idx)"

definition mlx5_free_bfreg :: "mlx5_sq_bfreg \<Rightarrow> uar_dev \<Rightarrow> uar_dev option" where
  "mlx5_free_bfreg bfreg dev =
     do {
       let p = b_up bfreg;
       up \<leftarrow> ups dev p;
       let dbi = addr_to_dbi_in_syspage (ucaps dev) up bfreg;
       let fp = (dbi mod MLX5_BFREGS_PER_UAR \<ge> MLX5_NON_FP_BFREGS_PER_UAR);
       bs \<leftarrow> arr_set (bitmap_of fp up) dbi True;
       let up = set_bits fp bs (avail_of fp up + 1) up;
       let dev = set_page p up dev;
       let dev = (if avail_of fp up = 1 then set_head (b_wc bfreg) (head_of (b_wc bfreg) dev @ [p]) dev else dev);
       kref_put_page p dev
     }"

section \<open>Addresses\<close>

text \<open>The registers of a region fit behind the blue-flame offset.\<close>

definition caps_ok :: "uar_caps \<Rightarrow> bool" where
  "caps_ok c \<longleftrightarrow> 4 * 2 ^ log_bf_reg_size c \<le> (2048 :: nat) \<and> 1 \<le> uars_per_sys_page c \<and> uars_per_sys_page c < 2 ^ 30"

lemma slot_fits: "4 * r \<le> 2048 \<Longrightarrow> x mod 4 * r + r \<le> (2048 :: nat)"
proof -
  assume r: "4 * r \<le> 2048"
  have "(x mod 4 + 1) * r \<le> 4 * r" by (rule mult_right_mono) (simp_all add: Suc_leI)
  then show ?thesis unfolding add_mult_distrib using r by linarith
qed


lemma dbi_parts:
  assumes "caps_ok (c :: uar_caps)" "m mod 4096 = 0" "x = m + map_offset c d"
  shows "(x - m) div 4096 = d div 4" "(x mod 4096 - MLX5_BF_OFFSET) div 2 ^ log_bf_reg_size c = d mod 4"
proof -
  define r where "r = (2 :: nat) ^ log_bf_reg_size c"
  have r: "0 < r" "4 * r \<le> 2048" using assms(1) by (simp_all add: r_def caps_ok_def)
  define k where "k = d mod 4 * r + 2048"
  have k: "k < 4096" unfolding k_def using slot_fits [OF r(2), of d] r(1) by linarith
  have off: "map_offset c d = d div 4 * 4096 + k" by (simp add: map_offset_def uar_consts r_def k_def)
  show "(x - m) div 4096 = d div 4" using assms(3) off k by simp
  have "x = m + k + 4096 * (d div 4)" using assms(3) off by simp
  then have "x mod 4096 = (m mod 4096 + k) mod 4096" by (simp add: mod_simps)
  then have "x mod 4096 = k" using assms(2) k by simp
  then show "(x mod 4096 - MLX5_BF_OFFSET) div 2 ^ log_bf_reg_size c = d mod 4"
    using r unfolding r_def [symmetric] by (simp add: k_def MLX5_BF_OFFSET_def)
qed

lemma addr_to_dbi:
  assumes "caps_ok (c :: uar_caps)" "m mod 4096 = 0" "b_map b = m + map_offset c d" "up_map up = m"
  shows "addr_to_dbi_in_syspage c up b = d"
proof -
  have "2 ^ MLX5_ADAPTER_PAGE_SHIFT = (4096 :: nat)" by (simp add: uar_consts)
  then show ?thesis
    using dbi_parts [OF assms(1-3)] assms(4) by (simp add: addr_to_dbi_in_syspage_def MLX5_ADAPTER_PAGE_SIZE_def MLX5_BFREGS_PER_UAR_def)
qed





section \<open>The invariant\<close>

text \<open>
  Outstanding registers with their number in the page, and the pages held through
  \<open>mlx5_get_uars_page\<close>. While an operation runs, one page (\<open>E\<close>) may carry a reference that is not yet or no longer a client's.
\<close>

type_synonym regs = "(mlx5_sq_bfreg \<times> nat) list"

definition on :: "nat \<Rightarrow> regs \<Rightarrow> regs" where
  "on p B = filter (\<lambda>(b, d). b_up b = p) B"

definition slots :: "nat \<Rightarrow> regs \<Rightarrow> nat set" where
  "slots p B = snd ` set (on p B)"

definition kind_slots :: "nat \<Rightarrow> bool \<Rightarrow> nat set" where
  "kind_slots N fp = {i. i < N \<and> (2 \<le> i mod 4 \<longleftrightarrow> fp)}"

definition page_bits :: "uar_caps \<Rightarrow> nat \<Rightarrow> mlx5_uars_page \<Rightarrow> regs \<Rightarrow> bool \<Rightarrow> bool \<Rightarrow> bool" where
  "page_bits c p up B wc listed \<longleftrightarrow>
     up_bfregs up = uars_per_sys_page c * 4 \<and> up_map up mod 4096 = 0 \<and>
     (\<forall>fp. length (bitmap_of fp up) = up_bfregs up \<and> bits_on (bitmap_of fp up) = kind_slots (up_bfregs up) fp - slots p B \<and>
        unat (avail_of fp up) = card (bits_on (bitmap_of fp up))) \<and>
     distinct (map snd (on p B)) \<and>
     (\<forall>(b, d) \<in> set (on p B). d < up_bfregs up \<and> b_map b = up_map up + map_offset c d \<and> b_wc b = wc \<and>
        b_index b = up_index up + word_of_nat (d div 4)) \<and>
     (listed \<longleftrightarrow> (\<forall>fp. avail_of fp up \<noteq> 0)) \<and> (\<exists>fp. avail_of fp up \<noteq> 0)"

definition page_ok :: "uar_caps \<Rightarrow> nat \<Rightarrow> nat \<Rightarrow> mlx5_uars_page \<Rightarrow> regs \<Rightarrow> nat list \<Rightarrow> bool \<Rightarrow> bool \<Rightarrow> bool" where
  "page_ok c x p up B U wc listed \<longleftrightarrow> page_bits c p up B wc listed \<and>
     ref_count up = x + length (on p B) + count_list U p \<and> 0 < ref_count up \<and> (0 < count_list U p \<longrightarrow> \<not> wc)"

definition at_page :: "uar_dev \<Rightarrow> regs \<Rightarrow> nat list \<Rightarrow> (nat \<Rightarrow> bool) \<Rightarrow> nat option \<Rightarrow> nat \<Rightarrow> bool" where
  "at_page dev B U K E p =
     (case ups dev p of
        None \<Rightarrow> E \<noteq> Some p \<and> on p B = [] \<and> count_list U p = 0 \<and> p \<notin> set (reg_head dev) \<and> p \<notin> set (wc_head dev)
      | Some up \<Rightarrow> page_ok (ucaps dev) (if E = Some p then 1 else 0) p up B U (K p) (p \<in> set (head_of (K p) dev)) \<and> p \<notin> set (head_of (\<not> K p) dev))"

definition apart :: "uar_caps \<Rightarrow> nat \<Rightarrow> nat \<Rightarrow> bool" where
  "apart c m n \<longleftrightarrow> m + PAGE_SIZE c \<le> n \<or> n + PAGE_SIZE c \<le> m"

definition uar_inv :: "uar_dev \<Rightarrow> regs \<Rightarrow> nat list \<Rightarrow> (nat \<Rightarrow> bool) \<Rightarrow> nat option \<Rightarrow> bool" where
  "uar_inv dev B U K E \<longleftrightarrow> caps_ok (ucaps dev) \<and> distinct (reg_head dev) \<and> distinct (wc_head dev) \<and> (\<forall>p. at_page dev B U K E p) \<and>
     (\<forall>p q up uq. p \<noteq> q \<longrightarrow> ups dev p = Some up \<longrightarrow> ups dev q = Some uq \<longrightarrow> apart (ucaps dev) (up_map up) (up_map uq))"

lemma apart_sym: "apart c m n = apart c n m"
  by (auto simp: apart_def)

text \<open>Another page is untouched by a step that keeps its record, its list and its clients.\<close>

definition same_at :: "nat \<Rightarrow> uar_dev \<Rightarrow> regs \<Rightarrow> nat list \<Rightarrow> (nat \<Rightarrow> bool) \<Rightarrow> uar_dev \<Rightarrow> regs \<Rightarrow> nat list \<Rightarrow> (nat \<Rightarrow> bool) \<Rightarrow> bool" where
  "same_at q dev B U K dev' B' U' K' \<longleftrightarrow> ups dev' q = ups dev q \<and> (q \<in> set (reg_head dev') \<longleftrightarrow> q \<in> set (reg_head dev)) \<and>
     (q \<in> set (wc_head dev') \<longleftrightarrow> q \<in> set (wc_head dev)) \<and> on q B' = on q B \<and> count_list U' q = count_list U q \<and> K' q = K q"

lemma at_page_same:
  assumes "same_at q dev B U K dev' B' U' K'" "ucaps dev' = ucaps dev" "at_page dev B U K E q" "(E' = Some q) = (E = Some q)"
  shows "at_page dev' B' U' K' E' q"
proof -
  have e: "ups dev' q = ups dev q" "(q \<in> set (reg_head dev')) = (q \<in> set (reg_head dev))" "(q \<in> set (wc_head dev')) = (q \<in> set (wc_head dev))"
    "on q B' = on q B" "count_list U' q = count_list U q" "K' q = K q"
    using assms(1) by (simp_all add: same_at_def)
  have s: "slots q B' = slots q B" by (simp add: slots_def e)
  have h: "(q \<in> set (head_of k dev')) = (q \<in> set (head_of k dev))" for k using e by (simp add: head_of_def)
  have po: "page_ok c x q up B' U' wc l = page_ok c x q up B U wc l" for c x up wc l
    unfolding page_ok_def page_bits_def e s ..
  show ?thesis
    using assms(3) unfolding at_page_def po assms(2,4) e h .
qed

lemma uar_inv_update:
  assumes inv: "uar_inv dev B U K E" and c: "ucaps dev' = ucaps dev" and d: "distinct (reg_head dev')" "distinct (wc_head dev')"
    and same: "\<And>q. q \<noteq> p \<Longrightarrow> same_at q dev B U K dev' B' U' K'" and E: "\<And>q. q \<noteq> p \<Longrightarrow> E \<noteq> Some q \<and> E' \<noteq> Some q"
    and at: "at_page dev' B' U' K' E' p"
    and map: "\<And>up q uq. ups dev' p = Some up \<Longrightarrow> q \<noteq> p \<Longrightarrow> ups dev q = Some uq \<Longrightarrow> apart (ucaps dev) (up_map up) (up_map uq)"
  shows "uar_inv dev' B' U' K' E'"
proof -
  have "at_page dev' B' U' K' E' q" for q
  proof (cases "q = p")
    case False
    have "at_page dev B U K E q" using inv by (simp add: uar_inv_def)
    then show ?thesis using at_page_same [OF same [OF False] c] E [OF False] by blast
  qed (use at in simp)
  moreover have "apart (ucaps dev) (up_map up) (up_map uq)" if "q \<noteq> r" "ups dev' q = Some up" "ups dev' r = Some uq" for q r up uq
  proof -
    have o: "s \<noteq> p \<Longrightarrow> ups dev' s = ups dev s" for s using same [of s] by (simp add: same_at_def)
    consider "q = p" "r \<noteq> p" | "q \<noteq> p" "r = p" | "q \<noteq> p" "r \<noteq> p" using \<open>q \<noteq> r\<close> by blast
    then show ?thesis
    proof cases
      case 1
      then show ?thesis using map [of up r uq] that o [of r] by simp
    next
      case 2
      then show ?thesis using map [of uq q up] that o [of q] apart_sym by simp
    next
      case 3
      then show ?thesis using inv that o [of q] o [of r] unfolding uar_inv_def by metis
    qed
  qed
  ultimately show ?thesis using inv c d unfolding uar_inv_def by metis
qed

lemma inv_page:
  assumes "uar_inv dev B U K E" "ups dev p = Some up"
  shows "page_ok (ucaps dev) (if E = Some p then 1 else 0) p up B U (K p) (p \<in> set (head_of (K p) dev))" "p \<notin> set (head_of (\<not> K p) dev)"
proof -
  have "at_page dev B U K E p" using assms(1) by (simp add: uar_inv_def)
  then show "page_ok (ucaps dev) (if E = Some p then 1 else 0) p up B U (K p) (p \<in> set (head_of (K p) dev))" "p \<notin> set (head_of (\<not> K p) dev)"
    using assms(2) by (simp_all add: at_page_def)
qed

lemma inv_listed:
  assumes "uar_inv dev B U K E" "p \<in> set (head_of wc dev)"
  shows "\<exists>up. ups dev p = Some up \<and> K p = wc"
proof -
  have a: "at_page dev B U K E p" using assms(1) by (simp add: uar_inv_def)
  then show ?thesis using assms(2) by (cases "ups dev p"; cases wc; cases "K p") (auto simp: at_page_def head_of_def)
qed

lemma set_page_simps [simp]: "ups (set_page p up dev) = (ups dev)(p \<mapsto> up)" "ucaps (set_page p up dev) = ucaps dev"
  "reg_head (set_page p up dev) = reg_head dev" "wc_head (set_page p up dev) = wc_head dev"
  "head_of k (set_page p up dev) = head_of k dev" "uar_alloced (set_page p up dev) = uar_alloced dev" "uar_freed (set_page p up dev) = uar_freed dev"
  "mapped (set_page p up dev) = mapped dev"
  by (simp_all add: set_page_def head_of_def)

lemma set_head_simps [simp]: "ups (set_head k l dev) = ups dev" "ucaps (set_head k l dev) = ucaps dev"
  "head_of j (set_head k l dev) = (if j = k then l else head_of j dev)" "uar_alloced (set_head k l dev) = uar_alloced dev"
  "uar_freed (set_head k l dev) = uar_freed dev" "mapped (set_head k l dev) = mapped dev"
  by (simp_all add: set_head_def head_of_def)

lemma heads: "reg_head dev = head_of False dev" "wc_head dev = head_of True dev"
  by (simp_all add: head_of_def)

lemma del_page_eq:
  assumes "p \<in> set (head_of k dev)" "p \<notin> set (head_of (\<not> k) dev)"
  shows "del_page p dev = Some (set_head k (remove1 p (head_of k dev)) dev)"
  using assms by (cases k) (simp_all add: del_page_def head_of_def set_head_def)

lemma set_head_same [simp]: "set_head k (head_of k dev) dev = dev"
  by (simp add: set_head_def head_of_def)

section \<open>One page\<close>

lemma bits_simps [simp]: "bitmap_of g (set_bits f bs n up) = (if g = f then bs else bitmap_of g up)"
  "avail_of g (set_bits f bs n up) = (if g = f then n else avail_of g up)" "up_map (set_bits f bs n up) = up_map up"
  "up_index (set_bits f bs n up) = up_index up" "up_bfregs (set_bits f bs n up) = up_bfregs up" "ref_count (set_bits f bs n up) = ref_count up"
  by (simp_all add: bitmap_of_def avail_of_def set_bits_def)

lemma ref_simps [simp]: "bitmap_of g (up\<lparr>ref_count := n\<rparr>) = bitmap_of g up" "avail_of g (up\<lparr>ref_count := n\<rparr>) = avail_of g up"
  by (simp_all add: bitmap_of_def avail_of_def)

lemma on_snoc: "on p (B @ [(b, d)]) = on p B @ (if b_up b = p then [(b, d)] else [])"
  by (simp add: on_def)

lemma slots_snoc: "slots p (B @ [(b, d)]) = slots p B \<union> (if b_up b = p then {d} else {})"
  by (auto simp: slots_def on_snoc)

lemma on_remove1: "on p (remove1 x B) = remove1 x (on p B)"
  by (simp add: on_def filter_remove1)

lemma on_remove1_other: "b_up b \<noteq> p \<Longrightarrow> on p (remove1 (b, d) B) = on p B"
  unfolding on_remove1 by (rule remove1_idem) (simp add: on_def)

lemma mem_on: "(b, d) \<in> set (on p B) \<longleftrightarrow> (b, d) \<in> set B \<and> b_up b = p"
  by (auto simp: on_def)

lemma slots_remove1:
  assumes "distinct (map snd (on p B))" "(b, d) \<in> set (on p B)"
  shows "slots p (remove1 (b, d) B) = slots p B - {d}"
proof -
  have "distinct (on p B)" using assms(1) by (simp add: distinct_map)
  then have "set (remove1 (b, d) (on p B)) = set (on p B) - {(b, d)}" by simp
  then show ?thesis
    using inj_on_image_set_diff [of snd "set (on p B)" "set (on p B)" "{(b, d)}"] assms
    by (simp add: slots_def on_remove1 distinct_map)
qed

lemma distinct_map_remove1: "distinct (map f xs) \<Longrightarrow> distinct (map f (remove1 x xs))"
proof (induction xs)
  case (Cons a xs)
  have "f a \<notin> f ` set (remove1 x xs)" using Cons.prems image_mono [OF set_remove1_subset [of x xs], of f] by auto
  then show ?case using Cons by simp
qed simp

lemma kind_slots_Suc: "kind_slots (Suc n * 4) fp = kind_slots (n * 4) fp \<union> (if fp then {n * 4 + 2, n * 4 + 3} else {n * 4, n * 4 + 1})"
proof -
  have lt: "i < Suc n * 4 \<longleftrightarrow> i < n * 4 \<or> i \<in> {n * 4, n * 4 + 1, n * 4 + 2, n * 4 + 3}" for i by auto
  have m: "n * 4 mod 4 = 0" "(n * 4 + 1) mod 4 = 1" "(n * 4 + 2) mod 4 = 2" "(n * 4 + 3) mod 4 = 3" by presburger+
  have filt: "{i \<in> insert a A. P i} = (if P a then insert a {i \<in> A. P i} else {i \<in> A. P i})" for a A and P :: "nat \<Rightarrow> bool" by auto
  have "{i \<in> {n * 4, n * 4 + 1, n * 4 + 2, n * 4 + 3}. 2 \<le> i mod 4 \<longleftrightarrow> fp} = (if fp then {n * 4 + 2, n * 4 + 3} else {n * 4, n * 4 + 1})"
    unfolding filt m by (cases fp) simp_all
  moreover have "kind_slots (Suc n * 4) fp = kind_slots (n * 4) fp \<union> {i \<in> {n * 4, n * 4 + 1, n * 4 + 2, n * 4 + 3}. 2 \<le> i mod 4 \<longleftrightarrow> fp}"
    by (simp only: kind_slots_def lt) blast
  ultimately show ?thesis by simp
qed

lemma finite_kind_slots [simp]: "finite (kind_slots n fp)"
  by (simp add: kind_slots_def)

lemma card_kind_slots: "card (kind_slots (n * 4) fp) = 2 * n"
proof (induction n)
  case (Suc n)
  have "card (kind_slots (n * 4) fp \<union> (if fp then {n * 4 + 2, n * 4 + 3} else {n * 4, n * 4 + 1})) =
      card (kind_slots (n * 4) fp) + card (if fp then {n * 4 + 2, n * 4 + 3} else {n * 4, n * 4 + 1})"
    by (rule card_Un_disjoint) (auto simp: kind_slots_def)
  then show ?case unfolding kind_slots_Suc Suc by simp
qed (simp add: kind_slots_def)

lemma page_okD:
  assumes "page_ok c x p up B U wc l"
  shows "up_bfregs up = uars_per_sys_page c * 4" "up_map up mod 4096 = 0" "length (bitmap_of fp up) = up_bfregs up"
    "bits_on (bitmap_of fp up) = kind_slots (up_bfregs up) fp - slots p B" "unat (avail_of fp up) = card (bits_on (bitmap_of fp up))"
    "ref_count up = x + length (on p B) + count_list U p" "0 < ref_count up" "distinct (map snd (on p B))"
    "(b, d) \<in> set (on p B) \<Longrightarrow> d < up_bfregs up \<and> b_map b = up_map up + map_offset c d \<and> b_wc b = wc \<and> b_index b = up_index up + word_of_nat (d div 4)"
    "0 < count_list U p \<Longrightarrow> \<not> wc" "l \<longleftrightarrow> (\<forall>fp. avail_of fp up \<noteq> 0)" "\<exists>fp. avail_of fp up \<noteq> 0"
  using assms unfolding page_ok_def page_bits_def by blast+

lemma page_bits_ref [simp]: "page_bits c p (up\<lparr>ref_count := r\<rparr>) B wc l = page_bits c p up B wc l"
  unfolding page_bits_def by simp

lemma page_ok_ref:
  assumes "page_ok c x p up B U wc l" "r = y + length (on p B) + count_list U' p" "0 < r" "0 < count_list U' p \<Longrightarrow> \<not> wc"
  shows "page_ok c y p (up\<lparr>ref_count := r\<rparr>) B U' wc l"
  using assms by (simp add: page_ok_def)

lemma page_last:
  assumes "page_ok c 1 p up B U wc l" "ref_count up = 1" "caps_ok c"
  shows "l" "on p B = []" "count_list U p = 0"
proof -
  note P = page_okD [OF assms(1)]
  show o: "on p B = []" "count_list U p = 0" using P(6) assms(2) by simp_all
  then have "slots p B = {}" by (simp add: slots_def)
  then have "unat (avail_of fp up) = 2 * uars_per_sys_page c" for fp using P(1,4,5) card_kind_slots by simp
  then have "avail_of fp up \<noteq> 0" for fp using assms(3) by (metis caps_ok_def mult_is_0 not_one_le_zero unat_0 zero_neq_numeral)
  then show l using P(11) by simp
qed

lemma page_fresh:
  assumes "caps_ok c" "m mod 4096 = 0" "on p B = []" "count_list U p = 0" and N: "N = uars_per_sys_page c * 4"
  shows "page_ok c 1 p \<lparr>up_map = m, up_index = ix, up_bfregs = N, reg_bitmap = map (\<lambda>i. i mod 4 < 2) [0..<N],
    fp_bitmap = map (\<lambda>i. \<not> i mod 4 < 2) [0..<N], reg_avail = word_of_nat (N * 2 div 4), fp_avail = word_of_nat (N * 2 div 4), ref_count = 1\<rparr> B U wc True"
    (is "page_ok c 1 p ?up B U wc True")
proof -
  have b: "bits_on (bitmap_of fp ?up) = kind_slots N fp" for fp
    by (cases fp) (auto simp: bitmap_of_def bits_on_def kind_slots_def)
  have d: "N * 2 div 4 = 2 * uars_per_sys_page c" by (simp add: N)
  have w: "unat (word_of_nat (2 * uars_per_sys_page c) :: u32) = 2 * uars_per_sys_page c"
    unfolding unat_of_nat by (rule mod_less) (use assms(1) in \<open>simp add: caps_ok_def\<close>)
  have a: "unat (avail_of fp ?up) = 2 * uars_per_sys_page c" for fp unfolding d avail_of_def using w by (simp del: of_nat_mult)
  have "avail_of fp ?up \<noteq> 0" for fp
  proof
    assume "avail_of fp ?up = 0"
    then have "2 * uars_per_sys_page c = 0" using a [of fp] by simp
    then show False using assms(1) by (simp add: caps_ok_def)
  qed
  moreover have "slots p B = {}" using assms(3) by (simp add: slots_def)
  moreover have "card (kind_slots N fp) = 2 * uars_per_sys_page c" for fp unfolding N by (rule card_kind_slots)
  moreover have "length (bitmap_of fp ?up) = N" for fp by (simp add: bitmap_of_def)
  ultimately show ?thesis using assms(2-4) a unfolding page_ok_def page_bits_def b by (simp add: N)
qed

text \<open>Taking the first free register of a kind from a page in the list.\<close>

lemma kind_slotsD: "d \<in> kind_slots N fp \<Longrightarrow> d < N \<and> (2 \<le> d mod 4 \<longleftrightarrow> fp)" "d \<in> kind_slots N fp \<Longrightarrow> g \<noteq> fp \<Longrightarrow> d \<notin> kind_slots N g"
  by (auto simp: kind_slots_def)

lemma finite_bits_on [simp]: "finite (bits_on bs)"
  using bits_on_subset finite_subset by blast

lemma page_find:
  assumes "page_ok c x p up B U wc True"
  shows "find_first_bit (bitmap_of f up) \<in> kind_slots (up_bfregs up) f - slots p B"
proof -
  note P = page_okD [OF assms]
  have "unat (avail_of f up) \<noteq> 0" using P(11) by (simp add: unat_eq_zero)
  then have "bits_on (bitmap_of f up) \<noteq> {}" unfolding P(5) by auto
  then have "find_first_bit (bitmap_of f up) < length (bitmap_of f up)" using find_first_bit_none [of "bitmap_of f up"] by simp
  then have "find_first_bit (bitmap_of f up) \<in> bits_on (bitmap_of f up)" using find_first_bit_on by (simp add: bits_on_def)
  then show ?thesis unfolding P(4) .
qed

lemma page_take:
  assumes ok: "page_ok c 1 p up B U wc True" and d: "d \<in> kind_slots (up_bfregs up) f - slots p B"
    and b: "b_up b = p" "b_map b = up_map up + map_offset c d" "b_wc b = wc" "b_index b = up_index up + word_of_nat (d div 4)"
    and up': "up' = set_bits f ((bitmap_of f up)[d := False]) (avail_of f up - 1) up"
  shows "page_ok c 0 p up' (B @ [(b, d)]) U wc (avail_of f up' \<noteq> 0)"
proof -
  note P = page_okD [OF ok]
  have a: "avail_of g up \<noteq> 0" for g using P(11) by simp
  have on: "on p (B @ [(b, d)]) = on p B @ [(b, d)]" "slots p (B @ [(b, d)]) = insert d (slots p B)" using b(1) by (simp_all add: on_snoc slots_snoc)
  have bits: "bits_on (bitmap_of g up') = kind_slots (up_bfregs up) g - insert d (slots p B)" for g
  proof (cases "g = f")
    case True
    then show ?thesis using bits_on_clear [of d "bitmap_of f up"] P(4) [of f] by (auto simp: up' clear_bit_at_def)
  next
    case False
    then have "d \<notin> kind_slots (up_bfregs up) g" using d kind_slotsD(2) by blast
    then show ?thesis using False P(4) [of g] by (auto simp: up')
  qed
  have card: "unat (avail_of g up') = card (bits_on (bitmap_of g up'))" for g
  proof (cases "g = f")
    case True
    have "d \<in> bits_on (bitmap_of f up)" using d P(4) by simp
    moreover have "bits_on (bitmap_of f up') = bits_on (bitmap_of f up) - {d}" using bits [of f] P(4) [of f] by auto
    moreover have "unat (avail_of f up - 1) = unat (avail_of f up) - 1" using a [of f] by (simp add: unat_minus_one)
    ultimately show ?thesis using True P(5) [of f] by (simp add: up')
  qed (simp add: up' P(5))
  have "page_bits c p up' (B @ [(b, d)]) wc (avail_of f up' \<noteq> 0)"
    unfolding page_bits_def on
  proof (intro conjI allI)
    show "length (bitmap_of g up') = up_bfregs up'" for g using P(3) by (simp add: up')
    show "bits_on (bitmap_of g up') = kind_slots (up_bfregs up') g - insert d (slots p B)" for g unfolding bits by (simp add: up')
    show "unat (avail_of g up') = card (bits_on (bitmap_of g up'))" for g by (rule card)
    show "distinct (map snd (on p B @ [(b, d)]))" using P(8) d by (simp add: slots_def)
    show "\<forall>(b, d) \<in> set (on p B @ [(b, d)]). d < up_bfregs up' \<and> b_map b = up_map up' + map_offset c d \<and> b_wc b = wc \<and>
        b_index b = up_index up' + word_of_nat (d div 4)"
      using P(9) b d kind_slotsD(1) by (auto simp: up')
    show "(avail_of f up' \<noteq> 0) = (\<forall>g. avail_of g up' \<noteq> 0)" using a by (auto simp: up')
    show "\<exists>g. avail_of g up' \<noteq> 0" using a by (intro exI [of _ "\<not> f"]) (simp add: up')
  qed (simp_all add: up' P(1,2))
  then show ?thesis using P(6,7,10) unfolding page_ok_def on by (simp add: up')
qed

text \<open>Giving a register back.\<close>

lemma page_give:
  assumes ok: "page_ok c 0 p up B U wc l" and c: "caps_ok c" and b: "(b, d) \<in> set (on p B)" and f: "f \<longleftrightarrow> 2 \<le> d mod 4"
    and up': "up' = set_bits f ((bitmap_of f up)[d := True]) (avail_of f up + 1) up"
  shows "page_ok c 1 p up' (remove1 (b, d) B) U wc (l \<or> avail_of f up' = 1)" "avail_of f up' = 1 \<Longrightarrow> \<not> l"
proof -
  note P = page_okD [OF ok]
  have d: "d < up_bfregs up" "d \<in> slots p B" using P(9) [OF b] b by (force simp: slots_def)+
  then have k: "d \<in> kind_slots (up_bfregs up) f" using f by (simp add: kind_slots_def)
  note on = on_remove1 [of p "(b, d)" B] slots_remove1 [OF P(8) b]
  have bits: "bits_on (bitmap_of g up') = kind_slots (up_bfregs up) g - (slots p B - {d})" for g
  proof (cases "g = f")
    case True
    then show ?thesis using bits_on_set [of d "bitmap_of f up"] P(3,4) [of f] d k by (auto simp: up' set_bit_at_def)
  next
    case False
    then have "d \<notin> kind_slots (up_bfregs up) g" using k kind_slotsD(2) by blast
    then show ?thesis using False P(4) [of g] by (auto simp: up')
  qed
  have le: "unat (avail_of f up) < 2 ^ 32 - 1"
  proof -
    have "bits_on (bitmap_of f up) \<subseteq> {..<up_bfregs up} - {d}" using P(4) [of f] d by (auto simp: kind_slots_def)
    then have "card (bits_on (bitmap_of f up)) \<le> card ({..<up_bfregs up} - {d})" by (intro card_mono) simp_all
    moreover have "uars_per_sys_page c < 2 ^ 30" using c by (simp add: caps_ok_def)
    ultimately show ?thesis using P(1) P(5) [of f] d(1) by simp
  qed
  have succ: "unat (avail_of f up + 1) = Suc (unat (avail_of f up))" using le by (simp add: unat_word_ariths)
  have card: "unat (avail_of g up') = card (bits_on (bitmap_of g up'))" for g
  proof (cases "g = f")
    case True
    have "d \<notin> bits_on (bitmap_of f up)" using d P(4) by simp
    moreover have "bits_on (bitmap_of f up') = insert d (bits_on (bitmap_of f up))" using bits [of f] P(4) [of f] k d by auto
    ultimately show ?thesis using True P(5) [of f] succ by (simp add: up')
  qed (simp add: up' P(5))
  have nz: "avail_of f up' \<noteq> 0" "avail_of f up' = 1 \<longleftrightarrow> avail_of f up = 0"
    using succ by (auto simp: up' simp flip: unat_eq_zero)
  have lst: "(l \<or> avail_of f up' = 1) = (\<forall>g. avail_of g up' \<noteq> 0)"
  proof -
    have all: "(\<forall>g. Q g) \<longleftrightarrow> Q f \<and> Q (\<not> f)" for Q by (cases f) (auto simp: all_bool_eq)
    have ex: "(\<exists>g. Q g) \<longleftrightarrow> Q f \<or> Q (\<not> f)" for Q by (cases f) (auto simp: ex_bool_eq)
    show ?thesis using P(11,12) nz unfolding all ex by (auto simp: up')
  qed
  have "page_bits c p up' (remove1 (b, d) B) wc (l \<or> avail_of f up' = 1)"
    unfolding page_bits_def on
  proof (intro conjI allI)
    show "length (bitmap_of g up') = up_bfregs up'" for g using P(3) by (simp add: up')
    show "bits_on (bitmap_of g up') = kind_slots (up_bfregs up') g - (slots p B - {d})" for g unfolding bits by (simp add: up')
    show "unat (avail_of g up') = card (bits_on (bitmap_of g up'))" for g by (rule card)
    show "distinct (map snd (remove1 (b, d) (on p B)))" using P(8) by (rule distinct_map_remove1)
    show "\<forall>(b, d) \<in> set (remove1 (b, d) (on p B)). d < up_bfregs up' \<and> b_map b = up_map up' + map_offset c d \<and> b_wc b = wc \<and>
        b_index b = up_index up' + word_of_nat (d div 4)"
      using P(9) by (auto simp: up' dest: notin_set_remove1)
    show "(l \<or> avail_of f up' = 1) = (\<forall>g. avail_of g up' \<noteq> 0)" by (rule lst)
    show "\<exists>g. avail_of g up' \<noteq> 0" using nz by blast
  qed (simp_all add: up' P(1,2))
  moreover have "length (remove1 (b, d) (on p B)) = length (on p B) - 1" using b by (simp add: length_remove1)
  moreover have "0 < length (on p B)" using b by (rule length_pos_if_in_set)
  ultimately show "page_ok c 1 p up' (remove1 (b, d) B) U wc (l \<or> avail_of f up' = 1)"
    using P(6,7,10) unfolding page_ok_def on by (simp add: up')
  show "avail_of f up' = 1 \<Longrightarrow> \<not> l" using nz(2) P(11) by blast
qed

section \<open>Steps on the lists of pages\<close>

lemma inv_distinct: "uar_inv dev B U K E \<Longrightarrow> distinct (head_of k dev)"
  by (simp add: uar_inv_def head_of_def)

text \<open>A step that changes one page, its list and its clients.\<close>

lemma inv_change:
  assumes inv: "uar_inv dev B U K E" and up: "ups dev p = Some up" and E: "E = None \<or> E = Some p" "E' = None \<or> E' = Some p"
    and l: "distinct l" "set l - {p} = set (head_of (K p) dev) - {p}"
    and o: "\<And>q. q \<noteq> p \<Longrightarrow> on q B' = on q B \<and> count_list U' q = count_list U q" and m: "up_map up' = up_map up"
    and ok: "page_ok (ucaps dev) (if E' = Some p then 1 else 0) p up' B' U' (K p) (p \<in> set l)"
  shows "uar_inv (set_head (K p) l (set_page p up' dev)) B' U' K E'"
proof (rule uar_inv_update [where p = p, OF inv])
  let ?dev = "set_head (K p) l (set_page p up' dev)"
  have d: "distinct (head_of k dev)" for k by (rule inv_distinct [OF inv])
  have dd: "distinct (head_of k ?dev)" for k using d l(1) by simp
  show "distinct (reg_head ?dev)" "distinct (wc_head ?dev)" unfolding heads by (rule dd)+
  show "same_at q dev B U K ?dev B' U' K" if "q \<noteq> p" for q
  proof -
    have "q \<in> set l \<longleftrightarrow> q \<in> set (head_of (K p) dev)" using l(2) that by auto
    then have h: "(q \<in> set (head_of k ?dev)) = (q \<in> set (head_of k dev))" for k by simp
    show ?thesis using o [OF that] that unfolding same_at_def heads h by simp
  qed
  show "at_page ?dev B' U' K E' p" using ok inv_page(2) [OF inv up] unfolding at_page_def by simp
  show "apart (ucaps dev) (up_map v) (up_map uq)" if "ups ?dev p = Some v" "q \<noteq> p" "ups dev q = Some uq" for v q uq
  proof -
    have "apart (ucaps dev) (up_map up) (up_map uq)" using inv up that(2,3) unfolding uar_inv_def by metis
    then show ?thesis using that(1) m by simp
  qed
qed (use E in auto)

text \<open>A new page at the head of its list.\<close>

lemma inv_fresh:
  assumes inv: "uar_inv dev B U K None" and none: "ups dev p = None"
    and ok: "page_ok (ucaps dev) 1 p up B U wc True"
    and far: "\<And>q uq. ups dev q = Some uq \<Longrightarrow> apart (ucaps dev) (up_map up) (up_map uq)"
  shows "uar_inv (set_head wc (p # head_of wc dev) (set_page p up dev)) B U (K(p := wc)) (Some p)"
proof (rule uar_inv_update [where p = p, OF inv])
  let ?dev = "set_head wc (p # head_of wc dev) (set_page p up dev)"
  have at: "at_page dev B U K None p" using inv by (simp add: uar_inv_def)
  have n: "p \<notin> set (head_of k dev)" for k using at none by (simp add: at_page_def head_of_def)
  have d: "distinct (head_of k dev)" for k by (rule inv_distinct [OF inv])
  have dd: "distinct (head_of k ?dev)" for k using d n by simp
  show "distinct (reg_head ?dev)" "distinct (wc_head ?dev)" unfolding heads by (rule dd)+
  show "same_at q dev B U K ?dev B U (K(p := wc))" if "q \<noteq> p" for q
    unfolding same_at_def heads using that by simp
  show "at_page ?dev B U (K(p := wc)) (Some p) p" using ok n unfolding at_page_def by simp
  show "apart (ucaps dev) (up_map v) (up_map uq)" if "ups ?dev p = Some v" "q \<noteq> p" "ups dev q = Some uq" for v q uq
    using far [OF that(3)] that(1) by simp
qed simp_all

text \<open>A page whose last reference goes.\<close>

lemma inv_drop:
  assumes inv: "uar_inv dev B U K (Some p)" and o: "on p B = []" "count_list U p = 0"
    and dev': "ups dev' = (ups dev)(p := None)" "ucaps dev' = ucaps dev" "\<And>k. head_of k dev' = remove1 p (head_of k dev)"
  shows "uar_inv dev' B U K None"
proof (rule uar_inv_update [where p = p, OF inv])
  have d: "distinct (head_of k dev)" for k by (rule inv_distinct [OF inv])
  have dd: "distinct (head_of k dev')" for k unfolding dev' using d by (rule distinct_remove1)
  show "distinct (reg_head dev')" "distinct (wc_head dev')" unfolding heads by (rule dd)+
  show "same_at q dev B U K dev' B U K" if "q \<noteq> p" for q
    unfolding same_at_def heads dev' using that d by simp
  show "at_page dev' B U K None p" using o d unfolding at_page_def heads dev' by simp
  show "apart (ucaps dev) (up_map v) (up_map uq)" if "ups dev' p = Some v" "q \<noteq> p" "ups dev q = Some uq" for v q uq
    using that(1) by (simp add: dev')
qed (use dev'(2) in simp_all)

lemma kref_put_inv:
  assumes inv: "uar_inv dev B U K (Some p)" and up: "ups dev p = Some up"
  shows "\<exists>dev'. kref_put_page p dev = Some dev' \<and> uar_inv dev' B U K None \<and> ucaps dev' = ucaps dev"
proof -
  let ?c = "ucaps dev"
  have ok: "page_ok ?c 1 p up B U (K p) (p \<in> set (head_of (K p) dev))" and other: "p \<notin> set (head_of (\<not> K p) dev)"
    using inv_page [OF inv up] by simp_all
  have c: "caps_ok ?c" using inv by (simp add: uar_inv_def)
  have pos: "ref_count up \<noteq> 0" using page_okD(7) [OF ok] by simp
  let ?d = "set_page p (up\<lparr>ref_count := ref_count up - 1\<rparr>) dev"
  show ?thesis
  proof (cases "ref_count up = 1")
    case True
    note L = page_last [OF ok True c]
    have del: "del_page p ?d = Some (set_head (K p) (remove1 p (head_of (K p) dev)) ?d)"
      using del_page_eq [of p "K p" ?d] L(1) other by simp
    obtain dev' where dev': "kref_put_page p dev = Some dev'" "ups dev' = (ups dev)(p := None)" "ucaps dev' = ?c"
      "\<And>k. head_of k dev' = (if k = K p then remove1 p (head_of (K p) dev) else head_of k dev)"
      using up pos True del by (simp add: kref_put_page_def up_rel_func_def mlx5_cmd_free_uar_def do_iounmap_def set_head_def head_of_def)
    have "remove1 p (head_of k dev) = (if k = K p then remove1 p (head_of (K p) dev) else head_of k dev)" for k
      using other by (cases "K p"; cases k) (simp_all add: remove1_idem)
    then have "uar_inv dev' B U K None" using inv_drop [OF inv L(2,3) dev'(2,3)] dev'(4) by simp
    then show ?thesis using dev'(1,3) by blast
  next
    case False
    have "page_ok ?c 0 p (up\<lparr>ref_count := ref_count up - 1\<rparr>) B U (K p) (p \<in> set (head_of (K p) dev))"
      using page_okD(6,10) [OF ok] False pos by (intro page_ok_ref [OF ok]) auto
    then have "uar_inv (set_head (K p) (head_of (K p) dev) ?d) B U K None"
      by (intro inv_change [OF inv up]) (simp_all add: inv_distinct [OF inv])
    moreover have "set_head (K p) (head_of (K p) dev) ?d = ?d" using set_head_same [of "K p" ?d] by simp
    ultimately show ?thesis using up pos False by (simp add: kref_put_page_def Let_def)
  qed
qed

section \<open>Regions of the firmware\<close>

text \<open>
  Every region the firmware handed out was returned to it or belongs to a page that exists; the mappings are
  those of the pages that exist, one for each and each of \<open>PAGE_SIZE\<close> bytes.
\<close>

definition live_uars :: "(nat \<Rightarrow> mlx5_uars_page option) \<Rightarrow> u32 multiset" where
  "live_uars u = image_mset (\<lambda>p. up_index (the (u p))) (mset_set (dom u))"

definition live_maps :: "nat \<Rightarrow> (nat \<Rightarrow> mlx5_uars_page option) \<Rightarrow> nat \<Rightarrow> nat option" where
  "live_maps sz u m = (if \<exists>p up. u p = Some up \<and> up_map up = m then Some sz else None)"

definition maps_apart :: "(nat \<Rightarrow> mlx5_uars_page option) \<Rightarrow> bool" where
  "maps_apart u \<longleftrightarrow> (\<forall>p q up uq. u p = Some up \<longrightarrow> u q = Some uq \<longrightarrow> up_map up = up_map uq \<longrightarrow> p = q)"

definition uar_acct :: "uar_dev \<Rightarrow> bool" where
  "uar_acct dev \<longleftrightarrow> finite (dom (ups dev)) \<and> mset (uar_alloced dev) = mset (uar_freed dev) + live_uars (ups dev) \<and>
     maps_apart (ups dev) \<and> mapped dev = live_maps (PAGE_SIZE (ucaps dev)) (ups dev)"

lemma live_maps_same:
  assumes "u p = Some up" "up_map up' = up_map up"
  shows "live_maps sz (u(p \<mapsto> up')) = live_maps sz u" "maps_apart (u(p \<mapsto> up')) = maps_apart u"
proof -
  have "(\<exists>q v. (u(p \<mapsto> up')) q = Some v \<and> up_map v = m) = (\<exists>q v. u q = Some v \<and> up_map v = m)" for m
    using assms by (metis fun_upd_apply option.inject)
  then show "live_maps sz (u(p \<mapsto> up')) = live_maps sz u" unfolding live_maps_def by presburger
  show "maps_apart (u(p \<mapsto> up')) = maps_apart u"
    unfolding maps_apart_def using assms by (metis fun_upd_apply option.inject)
qed

lemma live_maps_new:
  assumes "u p = None" and "\<And>q uq. u q = Some uq \<Longrightarrow> up_map uq \<noteq> up_map up"
  shows "live_maps sz (u(p \<mapsto> up)) = (live_maps sz u)(up_map up \<mapsto> sz)" "maps_apart u \<Longrightarrow> maps_apart (u(p \<mapsto> up))"
proof -
  have "(\<exists>q v. (u(p \<mapsto> up)) q = Some v \<and> up_map v = m) \<longleftrightarrow> m = up_map up \<or> (\<exists>q v. u q = Some v \<and> up_map v = m)" for m
    using assms(1) by (metis fun_upd_apply option.distinct(1) option.inject)
  then show "live_maps sz (u(p \<mapsto> up)) = (live_maps sz u)(up_map up \<mapsto> sz)"
    unfolding live_maps_def by (intro ext) (simp del: fun_upd_apply, simp)
  show "maps_apart u \<Longrightarrow> maps_apart (u(p \<mapsto> up))"
    unfolding maps_apart_def using assms(2) by (metis fun_upd_apply option.inject)
qed

lemma live_maps_gone:
  assumes "u p = Some up" "maps_apart u"
  shows "live_maps sz (u(p := None)) = (live_maps sz u)(up_map up := None)" "maps_apart (u(p := None))"
proof -
  have "(\<exists>q v. (u(p := None)) q = Some v \<and> up_map v = m) \<longleftrightarrow> m \<noteq> up_map up \<and> (\<exists>q v. u q = Some v \<and> up_map v = m)" for m
    using assms unfolding maps_apart_def by (metis fun_upd_apply option.distinct(1) option.inject)
  then show "live_maps sz (u(p := None)) = (live_maps sz u)(up_map up := None)"
    unfolding live_maps_def by (intro ext) (simp del: fun_upd_apply, simp)
  show "maps_apart (u(p := None))"
    using assms(2) unfolding maps_apart_def by (metis fun_upd_apply option.distinct(1))
qed

lemma live_maps_mem: "u p = Some up \<Longrightarrow> live_maps sz u (up_map up) = Some sz"
  by (auto simp: live_maps_def)

lemma live_uars_same:
  assumes "u p = Some up" "up_index up' = up_index up"
  shows "live_uars (u(p \<mapsto> up')) = live_uars u" "dom (u(p \<mapsto> up')) = dom u"
proof -
  show d: "dom (u(p \<mapsto> up')) = dom u" using assms(1) by auto
  have "(\<lambda>q. up_index (the ((u(p \<mapsto> up')) q))) = (\<lambda>q. up_index (the (u q)))" using assms by auto
  then show "live_uars (u(p \<mapsto> up')) = live_uars u" unfolding live_uars_def d by simp
qed

lemma live_uars_new:
  assumes "u p = None" "finite (dom u)"
  shows "live_uars (u(p \<mapsto> up)) = add_mset (up_index up) (live_uars u)"
proof -
  have p: "p \<notin> dom u" using assms(1) by auto
  have "image_mset (\<lambda>q. up_index (the ((u(p \<mapsto> up)) q))) (mset_set (dom u)) = live_uars u"
    unfolding live_uars_def by (rule image_mset_cong) (use p assms(2) in auto)
  then show ?thesis using p assms(2) by (simp add: live_uars_def)
qed

lemma live_uars_gone:
  assumes "u p = Some up" "finite (dom u)"
  shows "add_mset (up_index up) (live_uars (u(p := None))) = live_uars u"
proof -
  have "u = (u(p := None))(p \<mapsto> up)" using assms(1) by auto
  then show ?thesis using live_uars_new [of "u(p := None)" p up] assms(2) by simp
qed

lemma acct_change: "uar_acct dev \<Longrightarrow> ups dev p = Some up \<Longrightarrow> up_index up' = up_index up \<Longrightarrow> up_map up' = up_map up \<Longrightarrow>
    uar_acct (set_head k l (set_page p up' dev))"
  using live_uars_same [of "ups dev" p up up'] live_maps_same [of "ups dev" p up up'] by (simp add: uar_acct_def)

lemma kref_put_acct:
  assumes "uar_acct dev" "kref_put_page p dev = Some dev'"
  shows "uar_acct dev'"
proof -
  obtain up where up: "ups dev p = Some up" "ref_count up \<noteq> 0"
    using assms(2) by (auto simp: kref_put_page_def elim!: bind_eq_SomeE split: if_splits)
  let ?d = "set_page p (up\<lparr>ref_count := ref_count up - 1\<rparr>) dev"
  have "uar_acct (set_head False (head_of False ?d) ?d)" by (rule acct_change [OF assms(1) up(1)]) simp_all
  then have d: "uar_acct ?d" unfolding set_head_same .
  show ?thesis
  proof (cases "ref_count up = 1")
    case False
    then show ?thesis using assms(2) d up by (simp add: kref_put_page_def Let_def)
  next
    case True
    then have "up_rel_func p ?d = Some dev'" using assms(2) up by (simp add: kref_put_page_def Let_def)
    then obtain d' where d': "del_page p ?d = Some d'" "dev' = (mlx5_cmd_free_uar (up_index up) (do_iounmap (up_map up) d'))\<lparr>ups := (ups d')(p := None)\<rparr>"
      by (auto simp: up_rel_func_def mlx5_cmd_free_uar_def do_iounmap_def elim!: bind_eq_SomeE)
    have e: "ups d' = ups ?d" "uar_alloced d' = uar_alloced ?d" "uar_freed d' = uar_freed ?d"
      "mapped d' = mapped ?d" "ucaps d' = ucaps ?d"
      using d'(1) by (auto simp: del_page_def split: if_splits)
    show ?thesis
      using d live_uars_gone [of "ups ?d" p "up\<lparr>ref_count := ref_count up - 1\<rparr>"] live_maps_gone [of "ups ?d" p "up\<lparr>ref_count := ref_count up - 1\<rparr>"] e
      by (simp add: uar_acct_def d'(2) mlx5_cmd_free_uar_def do_iounmap_def)
  qed
qed

section \<open>The operations\<close>

text \<open>
  What the kernel provides: fresh memory, and from \<open>ioremap\<close> an aligned range of the size asked for that
  overlaps none of the mappings that exist.
\<close>

definition env_ok :: "uar_env \<Rightarrow> uar_dev \<Rightarrow> bool" where
  "env_ok env dev \<longleftrightarrow> (\<forall>p. kz_page env = Some p \<longrightarrow> ups dev p = None) \<and>
     (\<forall>a n m. ioremap env a n = Some m \<longrightarrow> m mod 4096 = 0 \<and>
        (\<forall>m' n'. mapped dev m' = Some n' \<longrightarrow> m + n \<le> m' \<or> m' + n' \<le> m))"

lemma env_ok_apart:
  assumes "env_ok env dev" "uar_acct dev" "ioremap env a (PAGE_SIZE (ucaps dev)) = Some m" "ups dev q = Some uq"
  shows "apart (ucaps dev) m (up_map uq)" "up_map uq \<noteq> m"
proof -
  have "mapped dev (up_map uq) = Some (PAGE_SIZE (ucaps dev))"
    using assms(2) live_maps_mem [where u = "ups dev", OF assms(4)] by (simp add: uar_acct_def)
  then show "apart (ucaps dev) m (up_map uq)" using assms(1,3) unfolding env_ok_def apart_def by blast
  moreover have "0 < PAGE_SIZE (ucaps dev)" by (simp add: PAGE_SIZE_def)
  ultimately show "up_map uq \<noteq> m" by (auto simp: apart_def)
qed

lemma uar_inv_cong:
  assumes "ups dev' = ups dev" "ucaps dev' = ucaps dev" "reg_head dev' = reg_head dev" "wc_head dev' = wc_head dev"
  shows "uar_inv dev' B U K E = uar_inv dev B U K E"
proof -
  have h: "head_of k dev' = head_of k dev" for k using assms by (simp add: head_of_def)
  show ?thesis unfolding uar_inv_def at_page_def h assms ..
qed

lemma get_page_inv:
  assumes inv: "uar_inv dev B U K None" "uar_acct dev" and p: "p \<in> set (head_of wc dev)"
  shows "\<exists>dev'. get_page p dev = Some dev' \<and> uar_inv dev' B U K (Some p) \<and> uar_acct dev' \<and> ucaps dev' = ucaps dev \<and> K p = wc \<and> p \<in> set (head_of wc dev')"
proof -
  obtain up where up: "ups dev p = Some up" "K p = wc" using inv_listed [OF inv(1) p] by blast
  let ?d = "set_page p (up\<lparr>ref_count := ref_count up + 1\<rparr>) dev"
  have same: "set_head (K p) (head_of (K p) dev) ?d = ?d" using set_head_same [of "K p" ?d] by simp
  have ok: "page_ok (ucaps dev) 0 p up B U (K p) (p \<in> set (head_of (K p) dev))" using inv_page [OF inv(1) up(1)] by simp
  have ok': "page_ok (ucaps dev) 1 p (up\<lparr>ref_count := ref_count up + 1\<rparr>) B U (K p) (p \<in> set (head_of (K p) dev))"
    using page_okD(6,10) [OF ok] by (intro page_ok_ref [OF ok]) auto
  have "uar_inv (set_head (K p) (head_of (K p) dev) ?d) B U K (Some p)"
    by (intro inv_change [OF inv(1) up(1)]) (simp_all add: inv_distinct [OF inv(1)] ok' [simplified])
  moreover have "uar_acct (set_head (K p) (head_of (K p) dev) ?d)" by (rule acct_change [OF inv(2) up(1)]) simp_all
  ultimately show ?thesis unfolding same using up p by (simp add: get_page_def)
qed

lemma alloc_uars_page_inv:
  assumes inv: "uar_inv dev B U K None" "uar_acct dev" and env: "env_ok env dev"
  shows "case alloc_uars_page env wc dev of
      (Inl e, dev') \<Rightarrow> uar_inv dev' B U K None \<and> uar_acct dev' \<and> ucaps dev' = ucaps dev \<and> ups dev' = ups dev
    | (Inr p, dev') \<Rightarrow> let d = set_head wc (p # head_of wc dev') dev' in
        uar_inv d B U (K(p := wc)) (Some p) \<and> uar_acct d \<and> ucaps d = ucaps dev \<and> p \<in> set (head_of wc d) \<and> ups dev p = None"
proof -
  let ?ok = "\<exists>p ix m. kz_page env = Some p \<and> kz_reg env \<and> kz_fp env \<and> cmd_alloc_uar env = Inr ix \<and>
    ioremap env (push_bit (page_shift (ucaps dev)) (uar2pfn (ucaps dev) ix)) (PAGE_SIZE (ucaps dev)) = Some m"
  show ?thesis
  proof (cases ?ok)
    case True
    then obtain p ix m where ok: "kz_page env = Some p" "kz_reg env" "kz_fp env" "cmd_alloc_uar env = Inr ix"
      "ioremap env (push_bit (page_shift (ucaps dev)) (uar2pfn (ucaps dev) ix)) (PAGE_SIZE (ucaps dev)) = Some m" by blast
    define N where "N = uars_per_sys_page (ucaps dev) * 4"
    define up where "up = \<lparr>up_map = m, up_index = ix, up_bfregs = N, reg_bitmap = map (\<lambda>i. i mod 4 < 2) [0..<N],
      fp_bitmap = map (\<lambda>i. \<not> i mod 4 < 2) [0..<N], reg_avail = word_of_nat (N * 2 div 4), fp_avail = word_of_nat (N * 2 div 4), ref_count = 1\<rparr>"
    define d1 where "d1 = dev\<lparr>uar_alloced := uar_alloced dev @ [ix], mapped := (mapped dev)(m \<mapsto> PAGE_SIZE (ucaps dev))\<rparr>"
    have eq: "alloc_uars_page env wc dev = (Inr p, set_page p up d1)"
      using ok by (simp add: alloc_uars_page_def mlx5_cmd_alloc_uar_def do_ioremap_def uar_consts Let_def up_def d1_def N_def)
    have none: "ups dev p = None" and m: "m mod 4096 = 0" "\<And>q uq. ups dev q = Some uq \<Longrightarrow> apart (ucaps dev) m (up_map uq) \<and> up_map uq \<noteq> m"
      using env ok env_ok_apart [OF env inv(2) ok(5)] unfolding env_ok_def by blast+
    have inv1: "uar_inv d1 B U K None" using inv(1) uar_inv_cong [of d1 dev] by (simp add: d1_def)
    have "at_page dev B U K None p" using inv(1) by (simp add: uar_inv_def)
    then have e: "on p B = []" "count_list U p = 0" using none by (simp_all add: at_page_def)
    have c: "caps_ok (ucaps dev)" using inv(1) by (simp add: uar_inv_def)
    have "page_ok (ucaps dev) 1 p up B U wc True" unfolding up_def by (rule page_fresh [OF c m(1) e N_def])
    then have "uar_inv (set_head wc (p # head_of wc d1) (set_page p up d1)) B U (K(p := wc)) (Some p)"
      by (intro inv_fresh [OF inv1]) (use none m(2) in \<open>simp_all add: d1_def up_def\<close>)
    moreover have "uar_acct (set_head wc (p # head_of wc d1) (set_page p up d1))"
      using inv(2) live_uars_new [of "ups dev" p] live_maps_new [of "ups dev" p up] none m(2) by (simp add: uar_acct_def d1_def up_def)
    ultimately show ?thesis unfolding eq using none by (simp add: d1_def)
  next
    case False
    let ?fails = "\<exists>e dev'. alloc_uars_page env wc dev = (Inl e, dev') \<and> ups dev' = ups dev \<and> ucaps dev' = ucaps dev \<and> reg_head dev' = reg_head dev \<and>
      wc_head dev' = wc_head dev \<and> uar_acct dev'"
    consider "kz_page env = None" | p where "kz_page env = Some p" "\<not> kz_reg env \<or> \<not> kz_fp env"
      | p e where "kz_page env = Some p" "kz_reg env" "kz_fp env" "cmd_alloc_uar env = Inl e"
      | p ix where "kz_page env = Some p" "kz_reg env" "kz_fp env" "cmd_alloc_uar env = Inr ix"
          "ioremap env (push_bit (page_shift (ucaps dev)) (uar2pfn (ucaps dev) ix)) (PAGE_SIZE (ucaps dev)) = None"
      using False by (cases "kz_page env"; cases "cmd_alloc_uar env") auto
    then have ?fails
    proof cases
      case (4 p ix)
      then show ?thesis using inv(2) by (simp add: alloc_uars_page_def mlx5_cmd_alloc_uar_def do_ioremap_def mlx5_cmd_free_uar_def uar_acct_def)
    qed (use inv(2) in \<open>simp_all add: alloc_uars_page_def mlx5_cmd_alloc_uar_def\<close>)
    then obtain e dev' where r: "alloc_uars_page env wc dev = (Inl e, dev')" "ups dev' = ups dev" "ucaps dev' = ucaps dev" "reg_head dev' = reg_head dev"
      "wc_head dev' = wc_head dev" "uar_acct dev'" by blast
    show ?thesis unfolding r(1) using uar_inv_cong [OF r(2-5)] inv(1) r by simp
  qed
qed

lemma first_page_inv:
  assumes inv: "uar_inv dev B U K None" "uar_acct dev" and env: "env_ok env dev"
  shows "\<exists>res dev'. first_page env wc dev = Some (res, dev') \<and> ucaps dev' = ucaps dev \<and> uar_acct dev' \<and> (isl res \<longrightarrow> head_of wc dev = []) \<and>
    (case res of Inl e \<Rightarrow> uar_inv dev' B U K None \<and> ups dev' = ups dev
     | Inr p \<Rightarrow> \<exists>K'. uar_inv dev' B U K' (Some p) \<and> K' p = wc \<and> p \<in> set (head_of wc dev'))"
proof (cases "head_of wc dev")
  case Nil
  show ?thesis
  proof (cases "alloc_uars_page env wc dev")
    case (Pair r d)
    show ?thesis
      using alloc_uars_page_inv [OF inv env, of wc] Nil Pair by (cases r) (auto simp: first_page_def Let_def intro!: exI [of _ "K(_ := wc)"])
  qed
next
  case (Cons p l)
  then have "p \<in> set (head_of wc dev)" by simp
  from get_page_inv [OF inv this] show ?thesis using Cons by (auto simp: first_page_def)
qed

lemma alloc_bfreg_inv:
  assumes inv: "uar_inv dev B U K None" "uar_acct dev" and env: "env_ok env dev"
  shows "\<exists>res dev'. alloc_bfreg env wc f dev = Some (res, dev') \<and> ucaps dev' = ucaps dev \<and> uar_acct dev' \<and> (isl res \<longrightarrow> head_of wc dev = []) \<and>
    (case res of Inl e \<Rightarrow> uar_inv dev' B U K None \<and> ups dev' = ups dev
     | Inr b \<Rightarrow> \<exists>d K'. uar_inv dev' (B @ [(b, d)]) U K' None \<and> (f \<longleftrightarrow> 2 \<le> d mod 4) \<and> b_wc b = wc)"
proof -
  obtain res d1 where f1: "first_page env wc dev = Some (res, d1)" "ucaps d1 = ucaps dev" "uar_acct d1" "isl res \<longrightarrow> head_of wc dev = []"
    "case res of Inl e \<Rightarrow> uar_inv d1 B U K None \<and> ups d1 = ups dev | Inr p \<Rightarrow> \<exists>K'. uar_inv d1 B U K' (Some p) \<and> K' p = wc \<and> p \<in> set (head_of wc d1)"
    using first_page_inv [OF assms] by blast
  show ?thesis
  proof (cases res)
    case (Inl e)
    then show ?thesis using f1 by (simp add: alloc_bfreg_def)
  next
    case (Inr p)
    then obtain K' where K': "uar_inv d1 B U K' (Some p)" "K' p = wc" "p \<in> set (head_of wc d1)" using f1(5) by auto
    obtain up where up: "ups d1 p = Some up" using inv_listed [OF K'(1,3)] by blast
    have ok: "page_ok (ucaps d1) 1 p up B U wc True" using inv_page(1) [OF K'(1) up] K' by simp
    define d where "d = find_first_bit (bitmap_of f up)"
    have d: "d \<in> kind_slots (up_bfregs up) f - slots p B" unfolding d_def by (rule page_find [OF ok])
    then have len: "d < length (bitmap_of f up)" using page_okD(3) [OF ok] kind_slotsD(1) by auto
    define up' where "up' = set_bits f ((bitmap_of f up)[d := False]) (avail_of f up - 1) up"
    have um: "up_map up' = up_map up" "up_index up' = up_index up" by (simp_all add: up'_def)
    define b where "b = \<lparr>b_map = up_map up + map_offset (ucaps d1) d, b_up = p, b_wc = wc, b_index = up_index up + word_of_nat (d div 4)\<rparr>"
    define l where "l = (if avail_of f up' = 0 then remove1 p (head_of wc d1) else head_of wc d1)"
    have dl: "distinct (head_of wc d1)" by (rule inv_distinct [OF K'(1)])
    have pl: "p \<in> set l \<longleftrightarrow> avail_of f up' \<noteq> 0" using K'(3) dl by (simp add: l_def)
    have "del_page p (set_page p up' d1) = Some (set_head wc (remove1 p (head_of wc d1)) (set_page p up' d1))"
      using del_page_eq [of p wc "set_page p up' d1"] K' inv_page(2) [OF K'(1) up] by simp
    moreover have "set_page p up' d1 = set_head wc (head_of wc d1) (set_page p up' d1)" using set_head_same [of wc "set_page p up' d1"] by simp
    ultimately have del: "(if avail_of f up' = 0 then del_page p (set_page p up' d1) else Some (set_page p up' d1)) = Some (set_head wc l (set_page p up' d1))"
      by (simp add: l_def)
    have eq: "alloc_bfreg env wc f dev = Some (Inr b, set_head wc l (set_page p up' d1))"
      by (simp only: alloc_bfreg_def f1(1) Inr Option.bind.simps case_prod_conv sum.case up Let_def d_def [symmetric]
            arr_set_in [OF len] up'_def [symmetric] del) (simp add: b_def uar_consts um)
    have pk: "page_ok (ucaps d1) 0 p up' (B @ [(b, d)]) U wc (avail_of f up' \<noteq> 0)"
      by (rule page_take [OF ok d]) (simp_all add: b_def up'_def)
    have "uar_inv (set_head (K' p) l (set_page p up' d1)) (B @ [(b, d)]) U K' None"
      by (intro inv_change [OF K'(1) up])
        (use dl pk pl in \<open>auto simp: K'(2) l_def up'_def on_snoc b_def split: if_splits\<close>)
    moreover have "uar_acct (set_head wc l (set_page p up' d1))" by (rule acct_change [OF f1(3) up]) (simp_all add: up'_def)
    ultimately show ?thesis using eq f1(2) d kind_slotsD(1) K'(2) by (auto simp: b_def)
  qed
qed

lemma mlx5_alloc_bfreg_inv:
  assumes inv: "uar_inv dev B U K None" "uar_acct dev" and env: "env_ok env dev" "env_ok env' dev"
  shows "\<exists>res dev'. mlx5_alloc_bfreg env env' wc f dev = Some (res, dev') \<and> ucaps dev' = ucaps dev \<and> uar_acct dev' \<and>
    (isl res \<longrightarrow> head_of wc dev = []) \<and>
    (case res of Inl e \<Rightarrow> uar_inv dev' B U K None
     | Inr b \<Rightarrow> \<exists>d K'. uar_inv dev' (B @ [(b, d)]) U K' None \<and> (f \<longleftrightarrow> 2 \<le> d mod 4) \<and> (b_wc b \<longrightarrow> wc))"
proof -
  obtain res d1 where a: "alloc_bfreg env wc f dev = Some (res, d1)" "ucaps d1 = ucaps dev" "uar_acct d1" "isl res \<longrightarrow> head_of wc dev = []"
    "case res of Inl e \<Rightarrow> uar_inv d1 B U K None \<and> ups d1 = ups dev
     | Inr b \<Rightarrow> \<exists>d K'. uar_inv d1 (B @ [(b, d)]) U K' None \<and> (f \<longleftrightarrow> 2 \<le> d mod 4) \<and> b_wc b = wc"
    using alloc_bfreg_inv [OF inv env(1), of wc f] by blast
  show ?thesis
  proof (cases "res = Inl EAGAIN \<and> wc")
    case True
    then have inv1: "uar_inv d1 B U K None" "ups d1 = ups dev" "head_of wc dev = []" using a by simp_all
    have "mapped d1 = mapped dev" using a(2,3) inv(2) inv1(2) by (simp add: uar_acct_def)
    then have "env_ok env' d1" using env(2) inv1(2) by (simp add: env_ok_def)
    from alloc_bfreg_inv [OF inv1(1) a(3) this, of False f] obtain r2 d2 where b: "alloc_bfreg env' False f d1 = Some (r2, d2)" "ucaps d2 = ucaps d1"
      "uar_acct d2" "case r2 of Inl e \<Rightarrow> uar_inv d2 B U K None \<and> ups d2 = ups d1
       | Inr b \<Rightarrow> \<exists>d K'. uar_inv d2 (B @ [(b, d)]) U K' None \<and> (f \<longleftrightarrow> 2 \<le> d mod 4) \<and> b_wc b = False" by blast
    have "mlx5_alloc_bfreg env env' wc f dev = Some (r2, d2)" using a(1) b(1) True by (simp add: mlx5_alloc_bfreg_def)
    then show ?thesis using b a(2) inv1(3) by (cases r2) auto
  next
    case False
    then have "mlx5_alloc_bfreg env env' wc f dev = Some (res, d1)" using a(1) by (auto simp: mlx5_alloc_bfreg_def)
    then show ?thesis using a by (cases res) auto
  qed
qed

lemma mlx5_free_bfreg_inv:
  assumes inv: "uar_inv dev B U K None" "uar_acct dev" and b: "(b, d) \<in> set B"
  shows "\<exists>dev'. mlx5_free_bfreg b dev = Some dev' \<and> ucaps dev' = ucaps dev \<and> uar_acct dev' \<and> uar_inv dev' (remove1 (b, d) B) U K None"
proof -
  define p where "p = b_up b"
  have on: "(b, d) \<in> set (on p B)" using b by (simp add: mem_on p_def)
  have "at_page dev B U K None p" using inv(1) by (simp add: uar_inv_def)
  then obtain up where up: "ups dev p = Some up" using on by (cases "ups dev p") (auto simp: at_page_def)
  let ?c = "ucaps dev"
  have c: "caps_ok ?c" using inv(1) by (simp add: uar_inv_def)
  have ok: "page_ok ?c 0 p up B U (K p) (p \<in> set (head_of (K p) dev))" using inv_page(1) [OF inv(1) up] by simp
  note P = page_okD [OF ok]
  have bd: "d < up_bfregs up" "b_map b = up_map up + map_offset ?c d" "b_wc b = K p" using P(9) [OF on] by blast+
  have dbi: "addr_to_dbi_in_syspage ?c up b = d" by (rule addr_to_dbi [OF c P(2) bd(2) refl])
  define f where "f \<longleftrightarrow> 2 \<le> d mod 4"
  define up' where "up' = set_bits f ((bitmap_of f up)[d := True]) (avail_of f up + 1) up"
  note G = page_give [OF ok c on f_def up'_def]
  define l where "l = (if avail_of f up' = 1 then head_of (K p) dev @ [p] else head_of (K p) dev)"
  define d1 where "d1 = set_head (K p) l (set_page p up' dev)"
  have pl: "p \<in> set l \<longleftrightarrow> p \<in> set (head_of (K p) dev) \<or> avail_of f up' = 1" by (auto simp: l_def)
  have dl: "distinct l" using inv_distinct [OF inv(1), of "K p"] G(2) by (simp add: l_def)
  have inv1: "uar_inv d1 (remove1 (b, d) B) U K (Some p)"
    unfolding d1_def
  proof (intro inv_change [OF inv(1) up])
    show "on q (remove1 (b, d) B) = on q B \<and> count_list U q = count_list U q" if "q \<noteq> p" for q
      using on_remove1_other [of b q d B] that by (simp add: p_def)
    show "page_ok ?c (if Some p = Some p then 1 else 0) p up' (remove1 (b, d) B) U (K p) (p \<in> set l)" using G(1) unfolding pl by simp
  qed (use dl in \<open>auto simp: l_def up'_def\<close>)
  have acct1: "uar_acct d1" unfolding d1_def by (rule acct_change [OF inv(2) up]) (simp_all add: up'_def)
  have up1: "ups d1 p = Some up'" by (simp add: d1_def)
  have "set_page p up' dev = set_head (K p) (head_of (K p) dev) (set_page p up' dev)" using set_head_same [of "K p" "set_page p up' dev"] by simp
  then have hd: "(if avail_of f up' = 1 then set_head (K p) (head_of (K p) (set_page p up' dev) @ [p]) (set_page p up' dev) else set_page p up' dev) = d1"
    by (simp add: d1_def l_def)
  have len: "d < length (bitmap_of f up)" using bd(1) P(3) by simp
  have "mlx5_free_bfreg b dev = kref_put_page p d1"
    by (simp only: mlx5_free_bfreg_def Let_def p_def [symmetric] up Option.bind.simps dbi uar_consts f_def [symmetric] arr_set_in [OF len]
      up'_def [symmetric] bd(3) hd)
  then show ?thesis using kref_put_inv [OF inv1 up1] kref_put_acct [OF acct1] by (auto simp: d1_def)
qed

text \<open>A reference that passes to a client or comes back from one.\<close>

lemma inv_owner:
  assumes inv: "uar_inv dev B U K E" and up: "ups dev p = Some up" and E: "E = None \<or> E = Some p" "E' = None \<or> E' = Some p"
    and o: "\<And>q. q \<noteq> p \<Longrightarrow> count_list U' q = count_list U q"
    and n: "(if E = Some p then 1 else 0) + count_list U p = (if E' = Some p then 1 else 0) + count_list U' p" and k: "0 < count_list U' p \<Longrightarrow> \<not> K p"
  shows "uar_inv dev B U' K E'"
proof -
  have ok: "page_ok (ucaps dev) (if E = Some p then 1 else 0) p up B U (K p) (p \<in> set (head_of (K p) dev))" using inv_page(1) [OF inv up] .
  then have ok': "page_ok (ucaps dev) (if E' = Some p then 1 else 0) p up B U' (K p) (p \<in> set (head_of (K p) dev))"
    using n k unfolding page_ok_def by (metis add.assoc add.commute)
  have "uar_inv (set_head (K p) (head_of (K p) dev) (set_page p up dev)) B U' K E'"
    by (rule inv_change [OF inv up E inv_distinct [OF inv] refl _ refl ok']) (simp add: o)
  moreover have "set_page p up dev = dev" using up by (simp add: set_page_def fun_upd_idem)
  ultimately show ?thesis by simp
qed

lemma mlx5_get_uars_page_inv:
  assumes inv: "uar_inv dev B U K None" "uar_acct dev" and env: "env_ok env dev"
  shows "\<exists>res dev'. mlx5_get_uars_page env dev = Some (res, dev') \<and> ucaps dev' = ucaps dev \<and> uar_acct dev' \<and>
    (case res of Inl e \<Rightarrow> uar_inv dev' B U K None | Inr p \<Rightarrow> \<exists>K'. uar_inv dev' B (U @ [p]) K' None)"
proof -
  have eq: "mlx5_get_uars_page env dev = first_page env False dev"
    by (auto simp: mlx5_get_uars_page_def first_page_def head_of_def set_head_def split: list.split prod.split sum.split)
  obtain res d1 where f1: "first_page env False dev = Some (res, d1)" "ucaps d1 = ucaps dev" "uar_acct d1"
    "case res of Inl e \<Rightarrow> uar_inv d1 B U K None \<and> ups d1 = ups dev | Inr p \<Rightarrow> \<exists>K'. uar_inv d1 B U K' (Some p) \<and> K' p = False \<and> p \<in> set (head_of False d1)"
    using first_page_inv [OF assms, of False] by blast
  show ?thesis
  proof (cases res)
    case (Inr p)
    then obtain K' where K': "uar_inv d1 B U K' (Some p)" "\<not> K' p" "p \<in> set (head_of False d1)" using f1(4) by auto
    obtain up where up: "ups d1 p = Some up" using inv_listed [OF K'(1,3)] by blast
    have "uar_inv d1 B (U @ [p]) K' None" by (rule inv_owner [OF K'(1) up]) (use K'(2) in simp_all)
    then show ?thesis using Inr f1 eq by auto
  qed (use f1 eq in auto)
qed

lemma mlx5_put_uars_page_inv:
  assumes inv: "uar_inv dev B U K None" "uar_acct dev" and p: "p \<in> set U"
  shows "\<exists>dev'. mlx5_put_uars_page p dev = Some dev' \<and> ucaps dev' = ucaps dev \<and> uar_acct dev' \<and> uar_inv dev' B (remove1 p U) K None"
proof -
  have n: "0 < count_list U p" using p by (simp add: count_list_0_iff neq0_conv [symmetric])
  have "at_page dev B U K None p" using inv(1) by (simp add: uar_inv_def)
  then obtain up where up: "ups dev p = Some up" using n by (cases "ups dev p") (auto simp: at_page_def)
  have "\<not> K p" using page_okD(10) [OF inv_page(1) [OF inv(1) up]] n by simp
  then have "uar_inv dev B (remove1 p U) K (Some p)" by (intro inv_owner [OF inv(1) up]) (use n in \<open>simp_all add: count_list_remove1\<close>)
  from kref_put_inv [OF this up] show ?thesis using kref_put_acct [OF inv(2)] by (auto simp: mlx5_put_uars_page_def)
qed

section \<open>Histories\<close>

text \<open>
  The device with the registers its clients hold, each with the path (fast or not) it was asked for, and the
  pages held through \<open>mlx5_get_uars_page\<close>.
\<close>

definition uar_init :: "uar_caps \<Rightarrow> uar_dev" where
  "uar_init c = \<lparr>ucaps = c, ups = (\<lambda>_. None), reg_head = [], wc_head = [], uar_alloced = [], uar_freed = [], mapped = (\<lambda>_. None)\<rparr>"

inductive uar_reach :: "uar_dev \<Rightarrow> (mlx5_sq_bfreg \<times> bool) list \<Rightarrow> nat list \<Rightarrow> bool" where
  ur_init: "caps_ok c \<Longrightarrow> uar_reach (uar_init c) [] []"
| ur_alloc: "uar_reach dev R U \<Longrightarrow> env_ok env dev \<Longrightarrow> env_ok env' dev \<Longrightarrow> mlx5_alloc_bfreg env env' wc f dev = Some (Inr b, dev') \<Longrightarrow>
    uar_reach dev' (R @ [(b, f)]) U"
| ur_alloc_fails: "uar_reach dev R U \<Longrightarrow> env_ok env dev \<Longrightarrow> env_ok env' dev \<Longrightarrow> mlx5_alloc_bfreg env env' wc f dev = Some (Inl e, dev') \<Longrightarrow>
    uar_reach dev' R U"
| ur_free: "uar_reach dev R U \<Longrightarrow> (b, f) \<in> set R \<Longrightarrow> mlx5_free_bfreg b dev = Some dev' \<Longrightarrow> uar_reach dev' (remove1 (b, f) R) U"
| ur_get: "uar_reach dev R U \<Longrightarrow> env_ok env dev \<Longrightarrow> mlx5_get_uars_page env dev = Some (Inr p, dev') \<Longrightarrow> uar_reach dev' R (U @ [p])"
| ur_get_fails: "uar_reach dev R U \<Longrightarrow> env_ok env dev \<Longrightarrow> mlx5_get_uars_page env dev = Some (Inl e, dev') \<Longrightarrow> uar_reach dev' R U"
| ur_put: "uar_reach dev R U \<Longrightarrow> p \<in> set U \<Longrightarrow> mlx5_put_uars_page p dev = Some dev' \<Longrightarrow> uar_reach dev' R (remove1 p U)"

definition reg_kind :: "mlx5_sq_bfreg \<times> nat \<Rightarrow> mlx5_sq_bfreg \<times> bool" where
  "reg_kind x = (fst x, 2 \<le> snd x mod 4)"

definition uar_hist :: "uar_dev \<Rightarrow> (mlx5_sq_bfreg \<times> bool) list \<Rightarrow> nat list \<Rightarrow> bool" where
  "uar_hist dev R U \<longleftrightarrow> (\<exists>B K. uar_inv dev B U K None \<and> uar_acct dev \<and> mset R = image_mset reg_kind (mset B))"

lemma hist_mem:
  assumes "mset R = image_mset reg_kind (mset B)" "(b, f) \<in> set R"
  shows "\<exists>d. (b, d) \<in> set B \<and> (f \<longleftrightarrow> 2 \<le> d mod 4) \<and> mset (remove1 (b, f) R) = image_mset reg_kind (mset (remove1 (b, d) B))"
proof -
  have "(b, f) \<in># image_mset reg_kind (mset B)" using assms by (metis set_mset_mset)
  then obtain d where d: "(b, d) \<in> set B" "f \<longleftrightarrow> 2 \<le> d mod 4" by (auto simp: reg_kind_def)
  then have "image_mset reg_kind (mset B - {#(b, d)#}) = image_mset reg_kind (mset B) - {#(b, f)#}"
    by (subst image_mset_Diff) (simp_all add: reg_kind_def)
  then show ?thesis using d assms(1) by auto
qed

lemma reach_hist: "uar_reach dev R U \<Longrightarrow> uar_hist dev R U"
proof (induction rule: uar_reach.induct)
  case (ur_init c)
  then have "uar_inv (uar_init c) [] [] (\<lambda>_. False) None" by (simp add: uar_inv_def uar_init_def at_page_def on_def)
  moreover have "uar_acct (uar_init c)" by (simp add: uar_acct_def uar_init_def live_uars_def live_maps_def [abs_def] maps_apart_def)
  ultimately show ?case unfolding uar_hist_def by force
next
  case (ur_alloc dev R U env env' wc f b dev')
  then obtain B K where h: "uar_inv dev B U K None" "uar_acct dev" "mset R = image_mset reg_kind (mset B)" by (auto simp: uar_hist_def)
  from mlx5_alloc_bfreg_inv [OF h(1,2) ur_alloc.hyps(2,3), of wc f] ur_alloc.hyps(4)
  obtain d K' where "uar_inv dev' (B @ [(b, d)]) U K' None" "uar_acct dev'" "f \<longleftrightarrow> 2 \<le> d mod 4" by auto
  then show ?case using h(3) unfolding uar_hist_def by (intro exI [of _ "B @ [(b, d)]"] exI [of _ K']) (simp add: reg_kind_def)
next
  case (ur_alloc_fails dev R U env env' wc f e dev')
  then obtain B K where h: "uar_inv dev B U K None" "uar_acct dev" "mset R = image_mset reg_kind (mset B)" by (auto simp: uar_hist_def)
  from mlx5_alloc_bfreg_inv [OF h(1,2) ur_alloc_fails.hyps(2,3), of wc f] ur_alloc_fails.hyps(4) show ?case using h(3) by (auto simp: uar_hist_def)
next
  case (ur_free dev R U b f dev')
  then obtain B K where h: "uar_inv dev B U K None" "uar_acct dev" "mset R = image_mset reg_kind (mset B)" by (auto simp: uar_hist_def)
  obtain d where d: "(b, d) \<in> set B" "mset (remove1 (b, f) R) = image_mset reg_kind (mset (remove1 (b, d) B))"
    using hist_mem [OF h(3) ur_free.hyps(2)] by blast
  from mlx5_free_bfreg_inv [OF h(1,2) d(1)] ur_free.hyps(3) have "uar_inv dev' (remove1 (b, d) B) U K None" "uar_acct dev'" by auto
  then show ?case using d(2) unfolding uar_hist_def by blast
next
  case (ur_get dev R U env p dev')
  then obtain B K where h: "uar_inv dev B U K None" "uar_acct dev" "mset R = image_mset reg_kind (mset B)" by (auto simp: uar_hist_def)
  from mlx5_get_uars_page_inv [OF h(1,2) ur_get.hyps(2)] ur_get.hyps(3) show ?case using h(3) by (auto simp: uar_hist_def)
next
  case (ur_get_fails dev R U env e dev')
  then obtain B K where h: "uar_inv dev B U K None" "uar_acct dev" "mset R = image_mset reg_kind (mset B)" by (auto simp: uar_hist_def)
  from mlx5_get_uars_page_inv [OF h(1,2) ur_get_fails.hyps(2)] ur_get_fails.hyps(3) show ?case using h(3) by (auto simp: uar_hist_def)
next
  case (ur_put dev R U p dev')
  then obtain B K where h: "uar_inv dev B U K None" "uar_acct dev" "mset R = image_mset reg_kind (mset B)" by (auto simp: uar_hist_def)
  from mlx5_put_uars_page_inv [OF h(1,2) ur_put.hyps(2)] ur_put.hyps(3) show ?case using h(3) by (auto simp: uar_hist_def)
qed






lemma no_clients:
  assumes inv: "uar_inv dev [] [] K None" "uar_acct dev"
  shows "ups dev = (\<lambda>_. None)" "reg_head dev = []" "wc_head dev = []" "mset (uar_alloced dev) = mset (uar_freed dev)"
    "mapped dev = (\<lambda>_. None)"
proof -
  have u: "ups dev p = None" for p
  proof (rule ccontr)
    assume "ups dev p \<noteq> None"
    then obtain up where "ups dev p = Some up" by blast
    from page_okD(6,7) [OF inv_page(1) [OF inv(1) this]] show False by (simp add: on_def)
  qed
  then show "ups dev = (\<lambda>_. None)" by blast
  have "head_of k dev = []" for k
  proof (cases "head_of k dev")
    case (Cons p l)
    then show ?thesis using inv_listed [OF inv(1), of p k] u by simp
  qed
  then show "reg_head dev = []" "wc_head dev = []" unfolding heads by blast+
  show "mset (uar_alloced dev) = mset (uar_freed dev)" using inv(2) u by (simp add: uar_acct_def live_uars_def dom_def)
  show "mapped dev = (\<lambda>_. None)" using inv(2) u by (auto simp: uar_acct_def live_maps_def)
qed

section \<open>A history\<close>

definition ux_caps :: uar_caps where
  "ux_caps = \<lparr>uar_4k = True, num_of_uars_per_page = 1, log_bf_reg_size = 9, bar_addr = 0, page_shift = 12\<rparr>"

definition ux_env :: uar_env where
  "ux_env = \<lparr>kz_page = Some 7, kz_reg = True, kz_fp = True, cmd_alloc_uar = Inr 3, ioremap = (\<lambda>_ _. Some 8192)\<rparr>"

definition ux_none :: uar_env where
  "ux_none = \<lparr>kz_page = None, kz_reg = True, kz_fp = True, cmd_alloc_uar = Inr 3, ioremap = (\<lambda>_ _. None)\<rparr>"

definition ux_b1 :: mlx5_sq_bfreg where "ux_b1 = \<lparr>b_map = 10240, b_up = 7, b_wc = True, b_index = 3\<rparr>"

definition ux_b2 :: mlx5_sq_bfreg where "ux_b2 = \<lparr>b_map = 11264, b_up = 7, b_wc = True, b_index = 3\<rparr>"

definition ux_page :: "bool list \<Rightarrow> bool list \<Rightarrow> u32 \<Rightarrow> u32 \<Rightarrow> nat \<Rightarrow> mlx5_uars_page" where
  "ux_page r f ra fa n = \<lparr>up_map = 8192, up_index = 3, up_bfregs = 4, reg_bitmap = r, fp_bitmap = f, reg_avail = ra, fp_avail = fa, ref_count = n\<rparr>"

definition ux_dev :: "mlx5_uars_page \<Rightarrow> uar_dev" where
  "ux_dev up = \<lparr>ucaps = ux_caps, ups = (\<lambda>_. None)(7 \<mapsto> up), reg_head = [], wc_head = [7], uar_alloced = [3], uar_freed = [], mapped = (\<lambda>_. None)(8192 \<mapsto> 4096)\<rparr>"

definition ux1 :: uar_dev where "ux1 = ux_dev (ux_page [False, True, False, False] [False, False, True, True] 1 2 1)"

definition ux2 :: uar_dev where "ux2 = ux_dev (ux_page [False, True, False, False] [False, False, False, True] 1 1 (Suc (Suc 0)))"

lemma ux_reach1: "uar_reach ux1 [(ux_b1, False)] []"
proof -
  have "uar_reach (uar_init ux_caps) [] []" by (rule ur_init) (simp add: caps_ok_def ux_caps_def uars_per_sys_page_def)
  moreover have "env_ok ux_env (uar_init ux_caps)" by (simp add: env_ok_def ux_env_def uar_init_def)
  moreover have "mlx5_alloc_bfreg ux_env ux_env True False (uar_init ux_caps) = Some (Inr ux_b1, ux1)"
    by (simp add: mlx5_alloc_bfreg_def alloc_bfreg_def first_page_def alloc_uars_page_def mlx5_cmd_alloc_uar_def do_ioremap_def PAGE_SIZE_def uar_init_def head_of_def set_head_def
      set_page_def bitmap_of_def avail_of_def set_bits_def uar_consts uars_per_sys_page_def ux_caps_def ux_env_def ux1_def ux_dev_def ux_page_def ux_b1_def
      map_offset_def upt_conv_Cons arr_set_def Let_def)
  ultimately show ?thesis using ur_alloc [of "uar_init ux_caps" "[]" "[]" ux_env ux_env True False ux_b1 ux1] by simp
qed

lemma ux_reach2: "uar_reach ux2 [(ux_b1, False), (ux_b2, True)] []"
proof -
  have "env_ok ux_none ux1" by (simp add: env_ok_def ux_none_def)
  moreover have "mlx5_alloc_bfreg ux_none ux_none True True ux1 = Some (Inr ux_b2, ux2)"
    by (simp add: mlx5_alloc_bfreg_def alloc_bfreg_def first_page_def get_page_def head_of_def set_page_def bitmap_of_def avail_of_def set_bits_def uar_consts
      ux_caps_def ux1_def ux2_def ux_dev_def ux_page_def ux_b2_def map_offset_def arr_set_def Let_def)
  ultimately show ?thesis using ur_alloc [OF ux_reach1, of ux_none ux_none True True ux_b2 ux2] by simp
qed

section \<open>Properties\<close>



text \<open>
  C29: The register allocator neither gets stuck nor leaks: in every reachable state, whatever the environment answers,
  allocating and freeing a register and taking and returning a page are defined, an allocation fails only
  when the list of its mapping type is empty, and once the last client is gone no page and no mapping is left and
  every region the firmware handed out has been handed back.
\<close>

theorem uar_progress_no_leak:
  assumes "uar_reach dev R U" and "env_ok env dev" "env_ok env' dev"
  shows "(\<exists>res dev'. mlx5_alloc_bfreg env env' wc f dev = Some (res, dev') \<and> (isl res \<longrightarrow> head_of wc dev = [])) \<and>
    (\<exists>res dev'. mlx5_get_uars_page env dev = Some (res, dev')) \<and>
    ((b, g) \<in> set R \<longrightarrow> (\<exists>dev'. mlx5_free_bfreg b dev = Some dev')) \<and> (p \<in> set U \<longrightarrow> (\<exists>dev'. mlx5_put_uars_page p dev = Some dev')) \<and>
    (R = [] \<and> U = [] \<longrightarrow> ups dev = (\<lambda>_. None) \<and> reg_head dev = [] \<and> wc_head dev = [] \<and> mset (uar_alloced dev) = mset (uar_freed dev) \<and>
       mapped dev = (\<lambda>_. None))"
proof -
  obtain B K where h: "uar_inv dev B U K None" "uar_acct dev" "mset R = image_mset reg_kind (mset B)" using reach_hist [OF assms(1)] by (auto simp: uar_hist_def)
  have "\<exists>dev'. mlx5_free_bfreg b dev = Some dev'" if "(b, g) \<in> set R"
    using hist_mem [OF h(3) that] mlx5_free_bfreg_inv [OF h(1,2)] by blast
  moreover have "ups dev = (\<lambda>_. None) \<and> reg_head dev = [] \<and> wc_head dev = [] \<and> mset (uar_alloced dev) = mset (uar_freed dev) \<and>
      mapped dev = (\<lambda>_. None)" if e: "R = []" "U = []"
  proof -
    have "B = []" using h(3) e(1) by simp
    then show ?thesis using no_clients [of dev K] h(1,2) e(2) by simp
  qed
  ultimately show ?thesis
    using mlx5_alloc_bfreg_inv [OF h(1,2) assms(2,3), of wc f] mlx5_get_uars_page_inv [OF h(1,2) assms(2)] mlx5_put_uars_page_inv [OF h(1,2), of p] by blast
qed

theorem uar_progress_no_leak_witness:
  "\<exists>dev'. mlx5_free_bfreg ux_b1 ux2 = Some dev'"
proof -
  have "env_ok ux_none ux2" by (simp add: env_ok_def ux_none_def)
  from uar_progress_no_leak [OF ux_reach2 this this, of True True ux_b1 False 0] show ?thesis by simp
qed

end
