(* ===== verification/Mlx5_Mpfs.thy ===== *)
theory Mlx5_Mpfs
  imports Bitmaps
begin

text \<open>
  The multi-physical-function switch table of the mlx5 core driver, \<open>mlx5/core/lib/mpfs.c\<close> with the hash helpers of
  \<open>lib/mpfs.h\<close>: unicast MAC addresses with reference counts in a table of 256 buckets, each with an index of the firmware's table
  taken from a bitmap. An address is a list of six bytes. Allocations and the firmware's answers come from an
  environment. Overflow of the signed reference counter is undefined and yields \<open>None\<close>.
\<close>

section \<open>Hash of addresses\<close>

type_synonym mac = "u8 list"

record l2table_node =
  n_addr :: mac
  n_index :: nat
  n_ref :: int

type_synonym l2hash = "l2table_node list list"

definition MLX5_L2_ADDR_HASH_SIZE :: nat where "MLX5_L2_ADDR_HASH_SIZE = 2 ^ 8"

definition MLX5_L2_ADDR_HASH :: "mac \<Rightarrow> nat" where
  "MLX5_L2_ADDR_HASH addr = unat (addr ! 5)"

definition l2addr_hash_find :: "l2hash \<Rightarrow> mac \<Rightarrow> l2table_node option" where
  "l2addr_hash_find h mac = find (\<lambda>n. n_addr n = mac) (h ! MLX5_L2_ADDR_HASH mac)"

text \<open>The node that the search for an address finds, changed in place or unlinked.\<close>

fun upd_found :: "mac \<Rightarrow> (l2table_node \<Rightarrow> l2table_node option) \<Rightarrow> l2table_node list \<Rightarrow> l2table_node list" where
  "upd_found mac g [] = []"
| "upd_found mac g (n # ns) =
     (if n_addr n = mac then (case g n of None \<Rightarrow> ns | Some n' \<Rightarrow> n' # ns) else n # upd_found mac g ns)"

definition upd_node :: "mac \<Rightarrow> (l2table_node \<Rightarrow> l2table_node option) \<Rightarrow> l2hash \<Rightarrow> l2hash" where
  "upd_node mac g h = h[MLX5_L2_ADDR_HASH mac := upd_found mac g (h ! MLX5_L2_ADDR_HASH mac)]"

definition l2addr_hash_add :: "bool \<Rightarrow> l2hash \<Rightarrow> mac \<Rightarrow> l2hash option" where
  "l2addr_hash_add kz h mac =
     (if kz then Some (h[MLX5_L2_ADDR_HASH mac := \<lparr>n_addr = mac, n_index = 0, n_ref = 0\<rparr> # h ! MLX5_L2_ADDR_HASH mac]) else None)"

definition l2addr_hash_del :: "mac \<Rightarrow> l2hash \<Rightarrow> l2hash" where
  "l2addr_hash_del mac h = upd_node mac (\<lambda>_. None) h"

section \<open>The table\<close>

record mlx5_mpfs =
  mhash :: l2hash
  msize :: nat
  mbitmap :: "bool list"

text \<open>A command on an index: set to an address or deleted, and whether the firmware accepted it.\<close>

record mpfs_dev =
  mpfs :: "mlx5_mpfs option"
  l2_cmds :: "(nat \<times> mac option \<times> bool) list"

record mpfs_env =
  mp_kzalloc :: bool
  mp_bitmap :: bool
  mp_cmd :: "errno option"

definition set_l2table_entry_cmd :: "mpfs_env \<Rightarrow> nat \<Rightarrow> mac \<Rightarrow> mpfs_dev \<Rightarrow> errno option \<times> mpfs_dev" where
  "set_l2table_entry_cmd env index mac dev = (mp_cmd env, dev\<lparr>l2_cmds := l2_cmds dev @ [(index, Some mac, mp_cmd env = None)]\<rparr>)"

definition del_l2table_entry_cmd :: "mpfs_env \<Rightarrow> nat \<Rightarrow> mpfs_dev \<Rightarrow> errno option \<times> mpfs_dev" where
  "del_l2table_entry_cmd env index dev = (mp_cmd env, dev\<lparr>l2_cmds := l2_cmds dev @ [(index, None, mp_cmd env = None)]\<rparr>)"

definition alloc_l2table_index :: "mlx5_mpfs \<Rightarrow> (nat \<times> mlx5_mpfs) result" where
  "alloc_l2table_index l2table =
     (let ix = find_first_zero_bit (take (msize l2table) (mbitmap l2table))
      in if ix \<ge> msize l2table then Inl ENOSPC else Inr (ix, l2table\<lparr>mbitmap := set_bit_at ix (mbitmap l2table)\<rparr>))"

definition free_l2table_index :: "nat \<Rightarrow> mlx5_mpfs \<Rightarrow> mlx5_mpfs" where
  "free_l2table_index ix l2table = l2table\<lparr>mbitmap := clear_bit_at ix (mbitmap l2table)\<rparr>"

definition mlx5_mpfs_init :: "mpfs_env \<Rightarrow> bool \<Rightarrow> nat \<Rightarrow> mpfs_dev \<Rightarrow> unit result \<times> mpfs_dev" where
  "mlx5_mpfs_init env eswitch_manager log_max_l2_table dev =
     (let l2table_size = 2 ^ log_max_l2_table
      in if \<not> eswitch_manager \<or> l2table_size = 1 then (Inr (), dev)
         else if \<not> mp_kzalloc env then (Inl ENOMEM, dev)
         else if \<not> mp_bitmap env then (Inl ENOMEM, dev)
         else (Inr (), dev\<lparr>mpfs := Some \<lparr>mhash = replicate MLX5_L2_ADDR_HASH_SIZE [], msize = l2table_size,
                                        mbitmap = replicate l2table_size False\<rparr>\<rparr>))"

text \<open>
  The result tells whether the warning fires; it looks at the first bucket only. The table is freed; the code
  leaves its pointer behind, and no operation may follow.
\<close>

definition mlx5_mpfs_cleanup :: "mpfs_dev \<Rightarrow> bool \<times> mpfs_dev" where
  "mlx5_mpfs_cleanup dev =
     (case mpfs dev of None \<Rightarrow> (False, dev) | Some t \<Rightarrow> (mhash t ! 0 \<noteq> [], dev\<lparr>mpfs := None\<rparr>))"

definition set_mpfs :: "mlx5_mpfs \<Rightarrow> mpfs_dev \<Rightarrow> mpfs_dev" where
  "set_mpfs t dev = dev\<lparr>mpfs := Some t\<rparr>"

definition mlx5_mpfs_add_mac :: "mpfs_env \<Rightarrow> mac \<Rightarrow> mpfs_dev \<Rightarrow> (unit result \<times> mpfs_dev) option" where
  "mlx5_mpfs_add_mac env mac dev =
     (case mpfs dev of
        None \<Rightarrow> Some (Inr (), dev)
      | Some t \<Rightarrow>
          (case l2addr_hash_find (mhash t) mac of
             Some l2addr \<Rightarrow>
               if n_ref l2addr = 2 ^ 31 - 1 then None
               else Some (Inr (), set_mpfs (t\<lparr>mhash := upd_node mac (\<lambda>n. Some (n\<lparr>n_ref := n_ref n + 1\<rparr>)) (mhash t)\<rparr>) dev)
           | None \<Rightarrow>
               (case alloc_l2table_index t of
                  Inl err \<Rightarrow> Some (Inl err, dev)
                | Inr (index, t) \<Rightarrow>
                    (case l2addr_hash_add (mp_kzalloc env) (mhash t) mac of
                       None \<Rightarrow> Some (Inl ENOMEM, set_mpfs (free_l2table_index index t) dev)
                     | Some h \<Rightarrow>
                         (case set_l2table_entry_cmd env index mac (set_mpfs (t\<lparr>mhash := h\<rparr>) dev) of
                            (Some err, dev) \<Rightarrow>
                              Some (Inl err, set_mpfs (free_l2table_index index (t\<lparr>mhash := l2addr_hash_del mac h\<rparr>)) dev)
                          | (None, dev) \<Rightarrow>
                              Some (Inr (), set_mpfs (t\<lparr>mhash := upd_node mac (\<lambda>n. Some (n\<lparr>n_index := index, n_ref := 1\<rparr>)) h\<rparr>) dev))))))"

definition mlx5_mpfs_del_mac :: "mpfs_env \<Rightarrow> mac \<Rightarrow> mpfs_dev \<Rightarrow> (unit result \<times> mpfs_dev) option" where
  "mlx5_mpfs_del_mac env mac dev =
     (case mpfs dev of
        None \<Rightarrow> Some (Inr (), dev)
      | Some t \<Rightarrow>
          (case l2addr_hash_find (mhash t) mac of
             None \<Rightarrow> Some (Inl ENOENT, dev)
           | Some l2addr \<Rightarrow>
               if n_ref l2addr = - (2 ^ 31) then None
               else if n_ref l2addr - 1 > 0
               then Some (Inr (), set_mpfs (t\<lparr>mhash := upd_node mac (\<lambda>n. Some (n\<lparr>n_ref := n_ref n - 1\<rparr>)) (mhash t)\<rparr>) dev)
               else
                 let index = n_index l2addr;
                     (_, dev) = del_l2table_entry_cmd env index dev
                 in Some (Inr (), set_mpfs (free_l2table_index index (t\<lparr>mhash := l2addr_hash_del mac (mhash t)\<rparr>)) dev)))"

section \<open>The hash as a map\<close>

definition hash_ok :: "l2hash \<Rightarrow> bool" where
  "hash_ok h \<longleftrightarrow> length h = 256 \<and> (\<forall>k < 256. distinct (map n_addr (h ! k)))"

definition keeps_addr :: "(l2table_node \<Rightarrow> l2table_node option) \<Rightarrow> bool" where
  "keeps_addr g \<longleftrightarrow> (\<forall>n n'. g n = Some n' \<longrightarrow> n_addr n' = n_addr n)"

lemma keeps_addr_simps [simp]: "keeps_addr (\<lambda>n. Some (n\<lparr>n_ref := f n\<rparr>))" "keeps_addr (\<lambda>n. Some (n\<lparr>n_index := i, n_ref := f n\<rparr>))" "keeps_addr (\<lambda>_. None)"
  by (simp_all add: keeps_addr_def)

lemma bucket_range: "MLX5_L2_ADDR_HASH mac < 256"
  using unsigned_less [of "mac ! 5"] by (simp add: MLX5_L2_ADDR_HASH_def)

lemma find_addr: "find (\<lambda>n. n_addr n = mac) ns = Some n \<Longrightarrow> n_addr n = mac"
  by (induction ns) (auto split: if_splits)

lemma find_none: "find (\<lambda>n. n_addr n = mac) ns = None \<longleftrightarrow> mac \<notin> n_addr ` set ns"
  by (induction ns) auto

lemma upd_found_addrs: "keeps_addr g \<Longrightarrow> n_addr ` set (upd_found mac g ns) \<subseteq> n_addr ` set ns"
  by (induction ns) (auto simp: keeps_addr_def split: option.splits if_splits)

lemma upd_found_distinct: "keeps_addr g \<Longrightarrow> distinct (map n_addr ns) \<Longrightarrow> distinct (map n_addr (upd_found mac g ns))"
proof (induction ns)
  case (Cons n ns)
  then show ?case using upd_found_addrs [of g mac ns] by (auto simp: keeps_addr_def split: option.splits)
qed simp

lemma find_upd_found:
  assumes "keeps_addr g" "distinct (map n_addr ns)"
  shows "find (\<lambda>n. n_addr n = m) (upd_found mac g ns) =
    (if m = mac then Option.bind (find (\<lambda>n. n_addr n = mac) ns) g else find (\<lambda>n. n_addr n = m) ns)"
  using assms
proof (induction ns)
  case (Cons n ns)
  show ?case
  proof (cases "n_addr n = mac")
    case True
    then have "find (\<lambda>n. n_addr n = mac) ns = None" using Cons.prems(2) by (auto simp: find_none)
    then show ?thesis using True Cons.prems(1) by (auto simp: keeps_addr_def split: option.splits)
  qed (use Cons in auto)
qed simp

lemma upd_node_ok:
  assumes "hash_ok h" "keeps_addr g"
  shows "hash_ok (upd_node mac g h)" "l2addr_hash_find (upd_node mac g h) m = (if m = mac then Option.bind (l2addr_hash_find h mac) g else l2addr_hash_find h m)"
proof -
  let ?k = "MLX5_L2_ADDR_HASH mac"
  have k: "?k < length h" and d: "distinct (map n_addr (h ! ?k))" using assms(1) bucket_range [of mac] by (simp_all add: hash_ok_def)
  show "hash_ok (upd_node mac g h)"
    using assms upd_found_distinct [OF assms(2) d, of mac] k by (simp add: hash_ok_def upd_node_def nth_list_update)
  show "l2addr_hash_find (upd_node mac g h) m = (if m = mac then Option.bind (l2addr_hash_find h mac) g else l2addr_hash_find h m)"
    using find_upd_found [OF assms(2) d, of m mac] k by (cases "MLX5_L2_ADDR_HASH m = ?k") (auto simp: l2addr_hash_find_def upd_node_def)
qed

lemma hash_add_ok:
  assumes "hash_ok h" "l2addr_hash_find h mac = None" "l2addr_hash_add kz h mac = Some h'"
  shows "hash_ok h'" "l2addr_hash_find h' m = (if m = mac then Some \<lparr>n_addr = mac, n_index = 0, n_ref = 0\<rparr> else l2addr_hash_find h m)"
proof -
  let ?k = "MLX5_L2_ADDR_HASH mac"
  have k: "?k < length h" using assms(1) bucket_range [of mac] by (simp add: hash_ok_def)
  have h': "h' = h[?k := \<lparr>n_addr = mac, n_index = 0, n_ref = 0\<rparr> # h ! ?k]" using assms(3) by (simp add: l2addr_hash_add_def split: if_splits)
  have "mac \<notin> n_addr ` set (h ! ?k)" using assms(2) by (simp add: l2addr_hash_find_def find_none)
  then show "hash_ok h'" using assms(1) k unfolding h' by (auto simp: hash_ok_def nth_list_update)
  show "l2addr_hash_find h' m = (if m = mac then Some \<lparr>n_addr = mac, n_index = 0, n_ref = 0\<rparr> else l2addr_hash_find h m)"
    using k unfolding h' by (cases "MLX5_L2_ADDR_HASH m = ?k") (auto simp: l2addr_hash_find_def)
qed

section \<open>Consistency of the table with its clients and the firmware\<close>

text \<open>The table of the firmware, as the accepted commands left it.\<close>

definition hw_mac :: "(nat \<times> mac option \<times> bool) list \<Rightarrow> nat \<Rightarrow> mac option" where
  "hw_mac cmds = foldl (\<lambda>f (ix, m, ok). if ok then f(ix := m) else f) (\<lambda>_. None) cmds"

lemma hw_mac_snoc [simp]: "hw_mac (cmds @ [(ix, m, ok)]) = (if ok then (hw_mac cmds)(ix := m) else hw_mac cmds)"
  by (simp add: hw_mac_def)

definition map_inv :: "(mac \<Rightarrow> l2table_node option) \<Rightarrow> bool list \<Rightarrow> (nat \<times> mac option \<times> bool) list \<Rightarrow> mac list \<Rightarrow> bool" where
  "map_inv F bs cmds M \<longleftrightarrow>
     (\<forall>m. F m = None \<longrightarrow> m \<notin> set M) \<and>
     (\<forall>m n. F m = Some n \<longrightarrow> m \<in> set M \<and> n_ref n = int (count_list M m) \<and> n_index n \<in> bits_on bs \<and> hw_mac cmds (n_index n) = Some m) \<and>
     (\<forall>i \<in> bits_on bs. \<exists>m n. F m = Some n \<and> n_index n = i)"

lemma map_invD:
  assumes "map_inv F bs cmds M"
  shows "F m = None \<Longrightarrow> m \<notin> set M" "F m = Some n \<Longrightarrow> m \<in> set M" "F m = Some n \<Longrightarrow> n_ref n = int (count_list M m)"
    "F m = Some n \<Longrightarrow> n_index n \<in> bits_on bs" "F m = Some n \<Longrightarrow> hw_mac cmds (n_index n) = Some m" "i \<in> bits_on bs \<Longrightarrow> \<exists>m n. F m = Some n \<and> n_index n = i"
  using assms unfolding map_inv_def by blast+

lemma map_inv_index:
  assumes "map_inv F bs cmds M" "F m = Some n" "F m' = Some n'" "n_index n = n_index n'"
  shows "m = m'"
  using map_invD(5) [OF assms(1,2)] map_invD(5) [OF assms(1,3)] assms(4) by simp

lemma map_inv_ref:
  assumes inv: "map_inv F bs cmds M" and n: "F mac = Some n" and F': "\<And>m. F' m = (if m = mac then Some (n\<lparr>n_ref := r\<rparr>) else F m)"
    and M': "mac \<in> set M'" "r = int (count_list M' mac)" "\<And>m. m \<noteq> mac \<Longrightarrow> (m \<in> set M' \<longleftrightarrow> m \<in> set M) \<and> count_list M' m = count_list M m"
  shows "map_inv F' bs cmds M'"
  unfolding map_inv_def
proof (intro conjI allI impI ballI)
  show "m \<notin> set M'" if "F' m = None" for m using that map_invD(1) [OF inv, of m] M'(3) [of m] by (simp add: F' split: if_splits)
  show "\<exists>m n. F' m = Some n \<and> n_index n = i" if i: "i \<in> bits_on bs" for i
  proof -
    obtain m k where m: "F m = Some k" "n_index k = i" using map_invD(6) [OF inv i] by blast
    then show ?thesis using n by (intro exI [of _ m] exI [of _ "if m = mac then n\<lparr>n_ref := r\<rparr> else k"]) (auto simp: F')
  qed
  fix m k assume k: "F' m = Some k"
  have "m \<in> set M' \<and> n_ref k = int (count_list M' m) \<and> n_index k \<in> bits_on bs \<and> hw_mac cmds (n_index k) = Some m"
  proof (cases "m = mac")
    case True
    then have "k = n\<lparr>n_ref := r\<rparr>" using k by (simp add: F')
    then show ?thesis using True M' map_invD(4,5) [OF inv n] by simp
  next
    case False
    then have Fk: "F m = Some k" using k by (simp add: F')
    show ?thesis using map_invD(2-5) [OF inv Fk] M'(3) [OF False] by simp
  qed
  then show "m \<in> set M'" "n_ref k = int (count_list M' m)" "n_index k \<in> bits_on bs" "hw_mac cmds (n_index k) = Some m" by blast+
qed

lemma map_inv_new:
  assumes inv: "map_inv F bs cmds M" and none: "F mac = None" and ix: "ix < length bs" "ix \<notin> bits_on bs"
    and F': "\<And>m. F' m = (if m = mac then Some \<lparr>n_addr = mac, n_index = ix, n_ref = 1\<rparr> else F m)"
  shows "map_inv F' (set_bit_at ix bs) (cmds @ [(ix, Some mac, True)]) (M @ [mac])"
  unfolding map_inv_def bits_on_set [OF ix(1)]
proof (intro conjI allI impI ballI)
  have out: "mac \<notin> set M" using map_invD(1) [OF inv none] .
  show "m \<notin> set (M @ [mac])" if "F' m = None" for m using that map_invD(1) [OF inv, of m] by (simp add: F' split: if_splits)
  show "\<exists>m n. F' m = Some n \<and> n_index n = i" if i: "i \<in> insert ix (bits_on bs)" for i
  proof (cases "i = ix")
    case False
    then obtain m k where m: "F m = Some k" "n_index k = i" using map_invD(6) [OF inv, of i] i by blast
    then show ?thesis using none by (intro exI [of _ m] exI [of _ k]) (auto simp: F')
  qed (simp add: F' exI [of _ mac])
  fix m k assume k: "F' m = Some k"
  have "m \<in> set (M @ [mac]) \<and> n_ref k = int (count_list (M @ [mac]) m) \<and> n_index k \<in> insert ix (bits_on bs) \<and>
    hw_mac (cmds @ [(ix, Some mac, True)]) (n_index k) = Some m"
  proof (cases "m = mac")
    case True
    then have "k = \<lparr>n_addr = mac, n_index = ix, n_ref = 1\<rparr>" using k by (simp add: F')
    then show ?thesis using True out by (simp add: count_list_0_iff)
  next
    case False
    then have k: "F m = Some k" using k by (simp add: F')
    then have "n_index k \<noteq> ix" using map_invD(4) [OF inv k] ix(2) by auto
    then show ?thesis using map_invD(2-5) [OF inv k] False by simp
  qed
  then show "m \<in> set (M @ [mac])" "n_ref k = int (count_list (M @ [mac]) m)" "n_index k \<in> insert ix (bits_on bs)"
    "hw_mac (cmds @ [(ix, Some mac, True)]) (n_index k) = Some m" by blast+
qed

lemma mem_count: "m \<in> set M \<longleftrightarrow> 0 < count_list M m"
  by (simp add: count_list_0_iff neq0_conv [symmetric])

lemma map_inv_del:
  assumes inv: "map_inv F bs cmds M" and n: "F mac = Some n" "n_ref n = 1" and F': "\<And>m. F' m = (if m = mac then None else F m)"
  shows "map_inv F' (clear_bit_at (n_index n) bs) (cmds @ [(n_index n, None, ok)]) (remove1 mac M)"
  unfolding map_inv_def bits_on_clear mem_count count_list_remove1
proof (intro conjI allI impI ballI)
  have one: "count_list M mac = 1" using map_invD(3) [OF inv n(1)] n(2) by simp
  show "\<not> 0 < count_list M m - (if m = mac then 1 else 0)" if "F' m = None" for m
    using that map_invD(1) [OF inv, of m] one by (simp add: F' mem_count split: if_splits)
  show "\<exists>m k. F' m = Some k \<and> n_index k = i" if i: "i \<in> bits_on bs - {n_index n}" for i
  proof -
    obtain m k where m: "F m = Some k" "n_index k = i" using map_invD(6) [OF inv, of i] i by blast
    then have "m \<noteq> mac" using n(1) i by auto
    then show ?thesis using m by (intro exI [of _ m] exI [of _ k]) (simp add: F')
  qed
  fix m k assume k': "F' m = Some k"
  then have m: "m \<noteq> mac" and k: "F m = Some k" by (simp_all add: F' split: if_splits)
  have ne: "n_index k \<noteq> n_index n" using map_inv_index [OF inv k n(1)] m by blast
  show "0 < count_list M m - (if m = mac then 1 else 0)" using m map_invD(2) [OF inv k] by (simp add: mem_count)
  show "n_ref k = int (count_list M m - (if m = mac then 1 else 0))" using m map_invD(3) [OF inv k] by simp
  show "n_index k \<in> bits_on bs - {n_index n}" using map_invD(4) [OF inv k] ne by simp
  show "hw_mac (cmds @ [(n_index n, None, ok)]) (n_index k) = Some m" using map_invD(5) [OF inv k] ne by simp
qed

definition mpfs_inv :: "mlx5_mpfs \<Rightarrow> (nat \<times> mac option \<times> bool) list \<Rightarrow> mac list \<Rightarrow> bool" where
  "mpfs_inv t cmds M \<longleftrightarrow> hash_ok (mhash t) \<and> length (mbitmap t) = msize t \<and> map_inv (l2addr_hash_find (mhash t)) (mbitmap t) cmds M"

section \<open>The operations\<close>

lemma alloc_index:
  assumes "length (mbitmap t) = msize t"
  shows "case alloc_l2table_index t of Inl e \<Rightarrow> e = ENOSPC \<and> bits_on (mbitmap t) = {..<msize t}
    | Inr (ix, t') \<Rightarrow> ix < length (mbitmap t) \<and> ix \<notin> bits_on (mbitmap t) \<and> t' = t\<lparr>mbitmap := set_bit_at ix (mbitmap t)\<rparr>"
proof (cases "pick_zero_bit (mbitmap t)")
  case None
  then have "alloc_l2table_index t = Inl ENOSPC" using assms by (auto simp: alloc_l2table_index_def pick_zero_bit_def Let_def split: if_splits)
  then show ?thesis using zb.pick_none [OF None] assms by simp
next
  case (Some ix)
  then have "alloc_l2table_index t = Inr (ix, t\<lparr>mbitmap := set_bit_at ix (mbitmap t)\<rparr>)"
    using assms by (auto simp: alloc_l2table_index_def pick_zero_bit_Some)
  then show ?thesis using zb.pick_free [OF Some] by simp
qed

lemma clear_set_bit: "ix < length bs \<Longrightarrow> ix \<notin> bits_on bs \<Longrightarrow> clear_bit_at ix (set_bit_at ix bs) = bs"
  by (simp add: clear_bit_at_def set_bit_at_def bits_on_def list_update_same_conv)

lemma add_mac_step:
  assumes inv: "mpfs_inv t (l2_cmds dev) M" and t: "mpfs dev = Some t" and small: "count_list M mac < 2 ^ 31 - 1"
  shows "\<exists>res dev' t'. mlx5_mpfs_add_mac env mac dev = Some (res, dev') \<and> mpfs dev' = Some t' \<and> msize t' = msize t \<and>
    mpfs_inv t' (l2_cmds dev') (if isl res then M else M @ [mac]) \<and>
    (res = Inl ENOSPC \<longrightarrow> mac \<notin> set M \<and> (bits_on (mbitmap t) = {..<msize t} \<or> mp_cmd env = Some ENOSPC))"
proof -
  have h: "hash_ok (mhash t)" "length (mbitmap t) = msize t" and m: "map_inv (l2addr_hash_find (mhash t)) (mbitmap t) (l2_cmds dev) M"
    using inv by (simp_all add: mpfs_inv_def)
  note D = map_invD [OF m]
  show ?thesis
  proof (cases "l2addr_hash_find (mhash t) mac")
    case (Some n)
    define t' where "t' = t\<lparr>mhash := upd_node mac (\<lambda>n. Some (n\<lparr>n_ref := n_ref n + 1\<rparr>)) (mhash t)\<rparr>"
    note U = upd_node_ok [OF h(1), of "\<lambda>n. Some (n\<lparr>n_ref := n_ref n + 1\<rparr>)" mac, simplified]
    have "n_ref n \<noteq> 2 ^ 31 - 1" using D(3) [OF Some] small by simp
    then have eq: "mlx5_mpfs_add_mac env mac dev = Some (Inr (), set_mpfs t' dev)" using t Some by (simp add: mlx5_mpfs_add_mac_def t'_def)
    have "map_inv (l2addr_hash_find (mhash t')) (mbitmap t) (l2_cmds dev) (M @ [mac])"
      by (rule map_inv_ref [OF m Some, where r = "n_ref n + 1"]) (use D(3) [OF Some] in \<open>simp_all add: t'_def U(2) Some\<close>)
    then show ?thesis using h U(1) by (simp add: eq set_mpfs_def mpfs_inv_def t'_def)
  next
    case None
    note find = None
    show ?thesis
    proof (cases "alloc_l2table_index t")
      case (Inl e)
      then have e: "e = ENOSPC" "bits_on (mbitmap t) = {..<msize t}" using alloc_index [OF h(2)] by simp_all
      have "mlx5_mpfs_add_mac env mac dev = Some (Inl e, dev)" using t find Inl by (simp add: mlx5_mpfs_add_mac_def)
      then show ?thesis using t inv e D(1) [OF find] by simp
    next
      case (Inr p)
      obtain ix where p: "p = (ix, t\<lparr>mbitmap := set_bit_at ix (mbitmap t)\<rparr>)" "ix < length (mbitmap t)" "ix \<notin> bits_on (mbitmap t)"
        using alloc_index [OF h(2)] Inr by (cases p) auto
      note ok = clear_set_bit [OF p(2,3)]
      show ?thesis
      proof (cases "l2addr_hash_add (mp_kzalloc env) (mhash t) mac")
        case None
        then have eq: "mlx5_mpfs_add_mac env mac dev = Some (Inl ENOMEM, set_mpfs t dev)"
          using t find Inr p(1) ok by (simp add: mlx5_mpfs_add_mac_def free_l2table_index_def)
        show ?thesis unfolding eq using inv by (simp add: set_mpfs_def)
      next
        case (Some k)
        note A = hash_add_ok [OF h(1) find Some]
        show ?thesis
        proof (cases "mp_cmd env")
          case (Some e)
          note U = upd_node_ok [OF A(1), of "\<lambda>_. None" mac, simplified]
          define t' where "t' = t\<lparr>mhash := l2addr_hash_del mac k\<rparr>"
          define d' where "d' = (set_mpfs t' dev)\<lparr>l2_cmds := l2_cmds dev @ [(ix, Some mac, False)]\<rparr>"
          have eq: "mlx5_mpfs_add_mac env mac dev = Some (Inl e, d')"
            using t find Inr p(1) ok Some \<open>l2addr_hash_add _ _ _ = Some k\<close>
            by (simp add: mlx5_mpfs_add_mac_def free_l2table_index_def set_l2table_entry_cmd_def set_mpfs_def t'_def d'_def)
          have "l2addr_hash_find (mhash t') = l2addr_hash_find (mhash t)" using U(2) A(2) find by (auto simp: t'_def l2addr_hash_del_def)
          then have "mpfs_inv t' (l2_cmds d') M" using U(1) h m
            by (simp add: mpfs_inv_def t'_def d'_def l2addr_hash_del_def map_inv_def)
          then show ?thesis unfolding eq using Some D(1) [OF find] by (simp add: d'_def set_mpfs_def t'_def)
        next
          case None
          note U = upd_node_ok [OF A(1), of "\<lambda>n. Some (n\<lparr>n_index := ix, n_ref := 1\<rparr>)" mac, simplified]
          define t' where "t' = t\<lparr>mbitmap := set_bit_at ix (mbitmap t), mhash := upd_node mac (\<lambda>n. Some (n\<lparr>n_index := ix, n_ref := 1\<rparr>)) k\<rparr>"
          define d' where "d' = (set_mpfs t' dev)\<lparr>l2_cmds := l2_cmds dev @ [(ix, Some mac, True)]\<rparr>"
          have eq: "mlx5_mpfs_add_mac env mac dev = Some (Inr (), d')"
            using t find Inr p(1) None \<open>l2addr_hash_add _ _ _ = Some k\<close>
            by (simp add: mlx5_mpfs_add_mac_def set_l2table_entry_cmd_def set_mpfs_def t'_def d'_def)
          have "map_inv (l2addr_hash_find (mhash t')) (set_bit_at ix (mbitmap t)) (l2_cmds dev @ [(ix, Some mac, True)]) (M @ [mac])"
            by (rule map_inv_new [OF m find p(2,3)]) (simp add: t'_def U(2) A(2))
          then have "mpfs_inv t' (l2_cmds d') (M @ [mac])" using U(1) h by (simp add: mpfs_inv_def t'_def d'_def)
          then show ?thesis unfolding eq by (simp add: d'_def set_mpfs_def t'_def)
        qed
      qed
    qed
  qed
qed

lemma del_mac_step:
  assumes inv: "mpfs_inv t (l2_cmds dev) M" and t: "mpfs dev = Some t"
  shows "\<exists>dev' t'. mlx5_mpfs_del_mac env mac dev = Some (if mac \<in> set M then Inr () else Inl ENOENT, dev') \<and> mpfs dev' = Some t' \<and> msize t' = msize t \<and>
    mpfs_inv t' (l2_cmds dev') (remove1 mac M)"
proof -
  have h: "hash_ok (mhash t)" "length (mbitmap t) = msize t" and m: "map_inv (l2addr_hash_find (mhash t)) (mbitmap t) (l2_cmds dev) M"
    using inv by (simp_all add: mpfs_inv_def)
  note D = map_invD [OF m]
  show ?thesis
  proof (cases "l2addr_hash_find (mhash t) mac")
    case None
    then have "mlx5_mpfs_del_mac env mac dev = Some (Inl ENOENT, dev)" using t by (simp add: mlx5_mpfs_del_mac_def)
    then show ?thesis using D(1) [OF None] t inv by (simp add: remove1_idem)
  next
    case (Some n)
    have ref: "n_ref n = int (count_list M mac)" "0 < count_list M mac" using D(2,3) [OF Some] by (simp_all add: mem_count)
    show ?thesis
    proof (cases "n_ref n - 1 > 0")
      case True
      define t' where "t' = t\<lparr>mhash := upd_node mac (\<lambda>n. Some (n\<lparr>n_ref := n_ref n - 1\<rparr>)) (mhash t)\<rparr>"
      note U = upd_node_ok [OF h(1), of "\<lambda>n. Some (n\<lparr>n_ref := n_ref n - 1\<rparr>)" mac, simplified]
      have eq: "mlx5_mpfs_del_mac env mac dev = Some (Inr (), set_mpfs t' dev)" using t Some True by (simp add: mlx5_mpfs_del_mac_def t'_def)
      have "map_inv (l2addr_hash_find (mhash t')) (mbitmap t) (l2_cmds dev) (remove1 mac M)"
        by (rule map_inv_ref [OF m Some, where r = "n_ref n - 1"]) (use ref True in \<open>simp_all add: t'_def U(2) Some mem_count count_list_remove1 of_nat_diff\<close>)
      then show ?thesis using h U(1) D(2) [OF Some] by (simp add: eq set_mpfs_def mpfs_inv_def t'_def)
    next
      case False
      then have one: "n_ref n = 1" using ref by simp
      define t' where "t' = free_l2table_index (n_index n) (t\<lparr>mhash := l2addr_hash_del mac (mhash t)\<rparr>)"
      define d' where "d' = (set_mpfs t' dev)\<lparr>l2_cmds := l2_cmds dev @ [(n_index n, None, mp_cmd env = None)]\<rparr>"
      note U = upd_node_ok [OF h(1), of "\<lambda>_. None" mac, simplified]
      have eq: "mlx5_mpfs_del_mac env mac dev = Some (Inr (), d')"
        using t Some one by (simp add: mlx5_mpfs_del_mac_def del_l2table_entry_cmd_def set_mpfs_def t'_def d'_def Let_def)
      have "map_inv (l2addr_hash_find (mhash t')) (clear_bit_at (n_index n) (mbitmap t)) (l2_cmds dev @ [(n_index n, None, mp_cmd env = None)]) (remove1 mac M)"
        by (rule map_inv_del [OF m Some one]) (simp add: t'_def free_l2table_index_def l2addr_hash_del_def U(2))
      then have "mpfs_inv t' (l2_cmds d') (remove1 mac M)" using h U(1) by (simp add: mpfs_inv_def t'_def d'_def free_l2table_index_def l2addr_hash_del_def)
      then show ?thesis using D(2) [OF Some] by (simp add: eq d'_def set_mpfs_def t'_def free_l2table_index_def)
    qed
  qed
qed

section \<open>Histories\<close>

text \<open>The device with the addresses its clients have added and not removed, in order.\<close>

inductive mpfs_reach :: "mpfs_dev \<Rightarrow> mac list \<Rightarrow> bool" where
  mp_init: "mlx5_mpfs_init env mgr lg \<lparr>mpfs = None, l2_cmds = []\<rparr> = (Inr (), dev) \<Longrightarrow> mpfs_reach dev []"
| mp_add: "mpfs_reach dev M \<Longrightarrow> length mac = 6 \<Longrightarrow> mlx5_mpfs_add_mac env mac dev = Some (Inr (), dev') \<Longrightarrow> mpfs_reach dev' (M @ [mac])"
| mp_add_fails: "mpfs_reach dev M \<Longrightarrow> length mac = 6 \<Longrightarrow> mlx5_mpfs_add_mac env mac dev = Some (Inl e, dev') \<Longrightarrow> mpfs_reach dev' M"
| mp_del: "mpfs_reach dev M \<Longrightarrow> length mac = 6 \<Longrightarrow> mlx5_mpfs_del_mac env mac dev = Some (Inr (), dev') \<Longrightarrow> mpfs_reach dev' (remove1 mac M)"
| mp_del_fails: "mpfs_reach dev M \<Longrightarrow> length mac = 6 \<Longrightarrow> mlx5_mpfs_del_mac env mac dev = Some (Inl e, dev') \<Longrightarrow> mpfs_reach dev' M"

lemma mpfs_init_inv:
  assumes "mlx5_mpfs_init env mgr lg \<lparr>mpfs = None, l2_cmds = []\<rparr> = (Inr (), dev)" "mpfs dev = Some t"
  shows "mpfs_inv t (l2_cmds dev) []"
proof -
  have t: "t = \<lparr>mhash = replicate 256 [], msize = 2 ^ lg, mbitmap = replicate (2 ^ lg) False\<rparr>" "l2_cmds dev = []"
    using assms by (auto simp: mlx5_mpfs_init_def Let_def MLX5_L2_ADDR_HASH_SIZE_def split: if_splits)
  have "l2addr_hash_find (replicate 256 []) m = None" for m using bucket_range [of m] by (simp add: l2addr_hash_find_def)
  then show ?thesis by (simp add: t mpfs_inv_def hash_ok_def map_inv_def)
qed

lemma add_mac_counts:
  assumes "mpfs_inv t (l2_cmds dev) M" "mpfs dev = Some t" "mlx5_mpfs_add_mac env mac dev = Some r"
    "count_list M mac < 2 ^ 31"
  shows "count_list M mac < 2 ^ 31 - 1"
proof (rule ccontr)
  assume "\<not> ?thesis"
  then have c: "count_list M mac = 2 ^ 31 - 1" using assms(4) by linarith
  have m: "map_inv (l2addr_hash_find (mhash t)) (mbitmap t) (l2_cmds dev) M" using assms(1) by (simp add: mpfs_inv_def)
  have "mac \<in> set M" unfolding mem_count c by simp
  then obtain n where n: "l2addr_hash_find (mhash t) mac = Some n" using map_invD(1) [OF m] by blast
  then have "n_ref n = 2 ^ 31 - 1" using map_invD(3) [OF m n] c by simp
  then show False using assms(2,3) n by (simp add: mlx5_mpfs_add_mac_def)
qed

text \<open>The counter of an address stays inside of its type.\<close>

lemma reach_mpfs_inv: "mpfs_reach dev M \<Longrightarrow> mpfs dev = Some t \<Longrightarrow> mpfs_inv t (l2_cmds dev) M \<and> (\<forall>mac. count_list M mac < 2 ^ 31)"
proof (induction arbitrary: t rule: mpfs_reach.induct)
  case (mp_init env mgr lg dev)
  then show ?case using mpfs_init_inv by simp
next
  case (mp_add dev M mac env dev')
  then obtain t0 where t0: "mpfs dev = Some t0" by (cases "mpfs dev") (auto simp: mlx5_mpfs_add_mac_def)
  note I = mp_add.IH [OF t0]
  have small: "count_list M mac < 2 ^ 31 - 1" using add_mac_counts [OF conjunct1 [OF I] t0 mp_add.hyps(3)] I by blast
  have "mpfs_inv t (l2_cmds dev') (M @ [mac])" using add_mac_step [of t0 dev M mac env] I t0 small mp_add.hyps(3) mp_add.prems by auto
  moreover have "count_list (M @ [mac]) m < 2 ^ 31" for m using I small by auto
  ultimately show ?case by blast
next
  case (mp_add_fails dev M mac env e dev')
  then obtain t0 where t0: "mpfs dev = Some t0" by (cases "mpfs dev") (auto simp: mlx5_mpfs_add_mac_def)
  note I = mp_add_fails.IH [OF t0]
  have small: "count_list M mac < 2 ^ 31 - 1" using add_mac_counts [OF conjunct1 [OF I] t0 mp_add_fails.hyps(3)] I by blast
  show ?case using add_mac_step [of t0 dev M mac env] I t0 small mp_add_fails.hyps(3) mp_add_fails.prems by auto
next
  case (mp_del dev M mac env dev')
  then obtain t0 where t0: "mpfs dev = Some t0" by (cases "mpfs dev") (auto simp: mlx5_mpfs_del_mac_def)
  note I = mp_del.IH [OF t0]
  have "count_list (remove1 mac M) m < 2 ^ 31" for m using I by (simp add: count_list_remove1 less_imp_diff_less)
  then show ?case using del_mac_step [of t0 dev M env mac] I t0 mp_del.hyps(3) mp_del.prems by auto
next
  case (mp_del_fails dev M mac env e dev')
  then obtain t0 where t0: "mpfs dev = Some t0" by (cases "mpfs dev") (auto simp: mlx5_mpfs_del_mac_def)
  note I = mp_del_fails.IH [OF t0]
  show ?case using del_mac_step [of t0 dev M env mac] I t0 mp_del_fails.hyps(3) mp_del_fails.prems by (auto simp: remove1_idem split: if_splits)
qed

lemma card_full:
  assumes m: "map_inv F bs cmds M"
  shows "card (set M) = card (bits_on bs)"
proof -
  have F: "F x = Some (the (F x))" if "x \<in> set M" for x using map_invD(1) [OF m, of x] that by (cases "F x") auto
  have "bij_betw (\<lambda>x. n_index (the (F x))) (set M) (bits_on bs)"
  proof (rule bij_betw_imageI)
    show "inj_on (\<lambda>x. n_index (the (F x))) (set M)" using map_inv_index [OF m F F] by (rule inj_onI)
    show "(\<lambda>x. n_index (the (F x))) ` set M = bits_on bs"
    proof (intro equalityI subsetI)
      fix i assume "i \<in> bits_on bs"
      then obtain x n where "F x = Some n" "n_index n = i" using map_invD(6) [OF m] by blast
      then show "i \<in> (\<lambda>x. n_index (the (F x))) ` set M" using map_invD(2) [OF m] by (intro image_eqI [of _ _ x]) auto
    qed (use map_invD(4) [OF m F] in auto)
  qed
  then show ?thesis by (rule bij_betw_same_card)
qed

section \<open>Properties\<close>

text \<open>The example: one address added to a table of two entries.\<close>

definition mx_env :: mpfs_env where "mx_env = \<lparr>mp_kzalloc = True, mp_bitmap = True, mp_cmd = None\<rparr>"

definition mx_mac :: mac where "mx_mac = [2, 0, 0, 0, 0, 1]"

definition mx0 :: mpfs_dev where "mx0 = snd (mlx5_mpfs_init mx_env True 1 \<lparr>mpfs = None, l2_cmds = []\<rparr>)"

definition mx1 :: mpfs_dev where "mx1 = snd (the (mlx5_mpfs_add_mac mx_env mx_mac mx0))"

lemma mx_reach1: "mpfs_reach mx1 [mx_mac]"
proof -
  have "mlx5_mpfs_init mx_env True 1 \<lparr>mpfs = None, l2_cmds = []\<rparr> = (Inr (), mx0)" by (simp add: mx0_def mlx5_mpfs_init_def mx_env_def)
  then have "mpfs_reach mx0 []" by (rule mp_init)
  moreover have "mlx5_mpfs_add_mac mx_env mx_mac mx0 = Some (Inr (), mx1)"
  proof -
    have "map_option fst (mlx5_mpfs_add_mac mx_env mx_mac mx0) = Some (Inr ())" by code_simp
    then show ?thesis unfolding mx1_def by (cases "mlx5_mpfs_add_mac mx_env mx_mac mx0") (auto simp: prod_eq_iff)
  qed
  ultimately show ?thesis using mp_add [of mx0 "[]" mx_mac mx_env mx1] by (simp add: mx_mac_def)
qed

lemma mx_table: "mpfs mx1 \<noteq> None"
  by code_simp

text \<open>
  C10: The hash table with its bitmap and its reference counts implements a multiset of MAC addresses that is mirrored in the firmware: in every history of
  additions and removals, with any failures of memory and of the firmware, the table has a node for exactly the
  addresses that are held, counts their holders, and the firmware's table holds the address at the node's index, which no other
  address has. Adding an address is defined as long as its counter is, and fails for lack of space only when
  the table is full of held addresses (or the firmware says so); removing succeeds exactly for held addresses.
\<close>

theorem mpfs_refines_multiset:
  assumes "mpfs_reach dev M" and "mpfs dev = Some t" and "count_list M mac < 2 ^ 31 - 1"
  shows "(case l2addr_hash_find (mhash t) mac of
      None \<Rightarrow> mac \<notin> set M
    | Some n \<Rightarrow> mac \<in> set M \<and> n_ref n = int (count_list M mac) \<and> n_index n < msize t \<and> hw_mac (l2_cmds dev) (n_index n) = Some mac \<and>
        (\<forall>mac' n'. l2addr_hash_find (mhash t) mac' = Some n' \<and> n_index n' = n_index n \<longrightarrow> mac' = mac)) \<and>
    (\<exists>res dev'. mlx5_mpfs_add_mac env mac dev = Some (res, dev') \<and>
      (res = Inl ENOSPC \<longrightarrow> mac \<notin> set M \<and> (card (set M) = msize t \<or> mp_cmd env = Some ENOSPC))) \<and>
    (\<exists>dev'. mlx5_mpfs_del_mac env mac dev = Some (if mac \<in> set M then Inr () else Inl ENOENT, dev'))"
proof -
  have inv: "mpfs_inv t (l2_cmds dev) M" using reach_mpfs_inv [OF assms(1,2)] by blast
  have h: "length (mbitmap t) = msize t" and m: "map_inv (l2addr_hash_find (mhash t)) (mbitmap t) (l2_cmds dev) M" using inv by (simp_all add: mpfs_inv_def)
  have node: "case l2addr_hash_find (mhash t) mac of
      None \<Rightarrow> mac \<notin> set M
    | Some n \<Rightarrow> mac \<in> set M \<and> n_ref n = int (count_list M mac) \<and> n_index n < msize t \<and> hw_mac (l2_cmds dev) (n_index n) = Some mac \<and>
        (\<forall>mac' n'. l2addr_hash_find (mhash t) mac' = Some n' \<and> n_index n' = n_index n \<longrightarrow> mac' = mac)"
  proof (cases "l2addr_hash_find (mhash t) mac")
    case (Some n)
    have "n_index n < msize t" using map_invD(4) [OF m Some] by (simp add: bits_on_def h)
    moreover have "mac' = mac" if "l2addr_hash_find (mhash t) mac' = Some n' \<and> n_index n' = n_index n" for mac' n'
      using map_inv_index [OF m conjunct1 [OF that] Some conjunct2 [OF that]] .
    ultimately show ?thesis unfolding Some option.case using map_invD(2,3,5) [OF m Some] by (intro conjI allI impI)
  qed (use map_invD(1) [OF m] in simp)
  have full: "card (set M) = msize t" if "bits_on (mbitmap t) = {..<msize t}" using card_full [OF m] that by simp
  have "\<exists>res dev'. mlx5_mpfs_add_mac env mac dev = Some (res, dev') \<and>
      (res = Inl ENOSPC \<longrightarrow> mac \<notin> set M \<and> (card (set M) = msize t \<or> mp_cmd env = Some ENOSPC))"
    using add_mac_step [OF inv assms(2,3), of env] full by blast
  moreover have "\<exists>dev'. mlx5_mpfs_del_mac env mac dev = Some (if mac \<in> set M then Inr () else Inl ENOENT, dev')"
    using del_mac_step [OF inv assms(2), of env mac] by blast
  ultimately show ?thesis using node by (intro conjI)
qed

theorem mpfs_refines_multiset_witness:
  "\<exists>dev'. mlx5_mpfs_del_mac mx_env mx_mac mx1 = Some (Inr (), dev')"
proof -
  obtain t where "mpfs mx1 = Some t" using mx_table by blast
  from mpfs_refines_multiset [OF mx_reach1 this, of mx_mac mx_env] show ?thesis by simp
qed

end
