(* ===== verification/Iwcm.thy ===== *)
theory Iwcm
  imports Verbs_Qp "HOL-Library.Multiset"
begin

unbundle bit_operations_syntax

text \<open>
  The iWARP connection manager, \<open>drivers/infiniband/core/iwcm.c\<close>: the life of a connection identifier with its
  state, its queue of provider events, its preallocated work elements, its reference count and its queue
  pair. Each section under the identifier's lock, and each stretch between two of them, is one step; calls into the provider and
  callbacks of the client separate the steps of a function, so that other threads run in between. A \<open>BUG()\<close>, an access to
  a freed identifier and an underflow of a reference count yield \<open>None\<close>.
\<close>

section \<open>Identifiers and events\<close>

datatype iw_cm_state = IW_CM_STATE_IDLE | IW_CM_STATE_LISTEN | IW_CM_STATE_CONN_RECV | IW_CM_STATE_CONN_SENT
  | IW_CM_STATE_ESTABLISHED | IW_CM_STATE_CLOSING | IW_CM_STATE_DESTROYING

datatype iw_cm_event_type = IW_CM_EVENT_CONNECT_REQUEST | IW_CM_EVENT_CONNECT_REPLY | IW_CM_EVENT_ESTABLISHED
  | IW_CM_EVENT_DISCONNECT | IW_CM_EVENT_CLOSE

record sockaddr_storage =
  sa_inet :: bool
  sa_ip :: nat
  sa_port :: nat

record iw_cm_event =
  ev_event :: iw_cm_event_type
  ev_status :: int
  ev_local :: sockaddr_storage
  ev_remote :: sockaddr_storage
  ev_private_data_len :: u8

text \<open>
  The flags \<open>IWCM_F_DROP_EVENTS\<close> and \<open>IWCM_F_CONNECT_WAIT\<close>, the number of free work elements, and what the model records
  besides: whether the memory was freed, the references taken on and given back for queue pairs, the
  states queue pairs were moved to, and the number of copies of private data that were not freed.
\<close>

record iwcm_id_private =
  iw_state :: iw_cm_state
  drop_events :: bool
  connect_wait :: bool
  iw_qp :: "nat option"
  work_list :: "iw_cm_event list"
  work_free :: nat
  iw_ref :: nat
  local_addr :: sockaddr_storage
  remote_addr :: sockaddr_storage
  m_local_addr :: sockaddr_storage
  m_remote_addr :: sockaddr_storage
  mapped :: bool
  iw_freed :: bool
  qp_added :: "nat list"
  qp_removed :: "nat list"
  qp_moved :: "(nat \<times> ib_qp_state) list"
  pdata :: nat

section \<open>Work elements and references\<close>

definition get_work :: "iwcm_id_private \<Rightarrow> iwcm_id_private option" where
  "get_work c = (if work_free c = 0 then None else Some (c\<lparr>work_free := work_free c - 1\<rparr>))"

definition put_work :: "iwcm_id_private \<Rightarrow> iwcm_id_private" where
  "put_work c = c\<lparr>work_free := work_free c + 1\<rparr>"

definition dealloc_work_entries :: "iwcm_id_private \<Rightarrow> iwcm_id_private" where
  "dealloc_work_entries c = c\<lparr>work_free := 0\<rparr>"

text \<open>\<open>km n\<close> tells whether the allocation succeeds with \<open>n\<close> elements still to go.\<close>

fun alloc_loop :: "(nat \<Rightarrow> bool) \<Rightarrow> nat \<Rightarrow> iwcm_id_private \<Rightarrow> errno option \<times> iwcm_id_private" where
  "alloc_loop km 0 c = (None, c)"
| "alloc_loop km (Suc n) c = (if km n then alloc_loop km n (put_work c) else (Some ENOMEM, dealloc_work_entries c))"

definition alloc_work_entries :: "(nat \<Rightarrow> bool) \<Rightarrow> nat \<Rightarrow> iwcm_id_private \<Rightarrow> (errno option \<times> iwcm_id_private) option" where
  "alloc_work_entries km n c = (if work_free c \<noteq> 0 then None else Some (alloc_loop km n c))"

definition free_cm_id :: "iwcm_id_private \<Rightarrow> iwcm_id_private" where
  "free_cm_id c = (dealloc_work_entries c)\<lparr>iw_freed := True\<rparr>"

definition iwcm_deref_id :: "iwcm_id_private \<Rightarrow> (bool \<times> iwcm_id_private) option" where
  "iwcm_deref_id c =
     (if iw_freed c \<or> iw_ref c = 0 then None
      else
        let c = c\<lparr>iw_ref := iw_ref c - 1\<rparr>
        in if iw_ref c = 0 then if work_list c \<noteq> [] then None else Some (True, free_cm_id c)
           else Some (False, c))"

definition add_ref :: "iwcm_id_private \<Rightarrow> iwcm_id_private option" where
  "add_ref c = (if iw_freed c \<or> iw_ref c = 0 then None else Some (c\<lparr>iw_ref := iw_ref c + 1\<rparr>))"

definition rem_ref :: "iwcm_id_private \<Rightarrow> iwcm_id_private option" where
  "rem_ref c = map_option snd (iwcm_deref_id c)"

definition iw_create_cm_id :: "sockaddr_storage \<Rightarrow> sockaddr_storage \<Rightarrow> iwcm_id_private" where
  "iw_create_cm_id loc rem =
     \<lparr>iw_state = IW_CM_STATE_IDLE, drop_events = False, connect_wait = False, iw_qp = None, work_list = [], work_free = 0,
      iw_ref = 1, local_addr = loc, remote_addr = rem, m_local_addr = loc, m_remote_addr = rem, mapped = False, iw_freed = False,
      qp_added = [], qp_removed = [], qp_moved = [], pdata = 0\<rparr>"

text \<open>The provider's \<open>iw_add_ref\<close> and \<open>iw_rem_ref\<close>.\<close>

definition qp_get :: "nat \<Rightarrow> iwcm_id_private \<Rightarrow> iwcm_id_private" where
  "qp_get q c = c\<lparr>qp_added := qp_added c @ [q]\<rparr>"

definition qp_put :: "nat option \<Rightarrow> iwcm_id_private \<Rightarrow> iwcm_id_private" where
  "qp_put q c = (case q of None \<Rightarrow> c | Some q \<Rightarrow> c\<lparr>qp_removed := qp_removed c @ [q]\<rparr>)"

definition iwcm_modify_qp_err :: "nat option \<Rightarrow> iwcm_id_private \<Rightarrow> iwcm_id_private" where
  "iwcm_modify_qp_err q c = (case q of None \<Rightarrow> c | Some q \<Rightarrow> c\<lparr>qp_moved := qp_moved c @ [(q, IB_QPS_ERR)]\<rparr>)"

definition iwcm_modify_qp_sqd :: "nat option \<Rightarrow> iwcm_id_private \<Rightarrow> iwcm_id_private option" where
  "iwcm_modify_qp_sqd q c = (case q of None \<Rightarrow> None | Some q \<Rightarrow> Some (c\<lparr>qp_moved := qp_moved c @ [(q, IB_QPS_SQD)]\<rparr>))"

section \<open>Calls of the client\<close>

text \<open>The part of \<open>iw_cm_disconnect\<close> behind the wait for \<open>CONNECT_WAIT\<close>; moving the queue pair, after the lock is released, is in the same step.\<close>

definition iw_cm_disconnect :: "bool \<Rightarrow> iwcm_id_private \<Rightarrow> (unit result \<times> iwcm_id_private) option" where
  "iw_cm_disconnect abrupt c =
     (if iw_freed c then None
      else case iw_state c of
        IW_CM_STATE_ESTABLISHED \<Rightarrow>
          let c = c\<lparr>iw_state := IW_CM_STATE_CLOSING\<rparr>
          in if iw_qp c = None then Some (Inl EINVAL, c)
             else if abrupt then Some (Inr (), iwcm_modify_qp_err (iw_qp c) c)
             else map_option (Pair (Inr ())) (iwcm_modify_qp_sqd (iw_qp c) c)
      | IW_CM_STATE_LISTEN \<Rightarrow> Some (Inl EINVAL, c)
      | IW_CM_STATE_CLOSING \<Rightarrow> Some (Inr (), c)
      | IW_CM_STATE_IDLE \<Rightarrow> Some (Inr (), c)
      | IW_CM_STATE_CONN_RECV \<Rightarrow> Some (Inr (), c)
      | IW_CM_STATE_CONN_SENT \<Rightarrow> None
      | IW_CM_STATE_DESTROYING \<Rightarrow> None)"

text \<open>
  \<open>destroy_cm_id\<close> in three parts: behind the wait it drops events; under the lock it takes the queue pair and leaves the
  state; then it calls the provider, removes the mapping of the port mapper (of which the model keeps no state) and gives back its references.
\<close>

datatype downcall = Down_none | Down_destroy_listen | Down_modify_err | Down_reject

definition destroy_enter :: "iwcm_id_private \<Rightarrow> iwcm_id_private option" where
  "destroy_enter c = (if iw_freed c then None else Some (c\<lparr>drop_events := True\<rparr>))"

definition destroy_locked :: "iwcm_id_private \<Rightarrow> (nat option \<times> downcall \<times> iwcm_id_private) option" where
  "destroy_locked c =
     (if iw_freed c then None
      else
        let q = iw_qp c; d = c\<lparr>iw_qp := None, iw_state := IW_CM_STATE_DESTROYING\<rparr>
        in case iw_state c of
             IW_CM_STATE_LISTEN \<Rightarrow> Some (q, Down_destroy_listen, d)
           | IW_CM_STATE_ESTABLISHED \<Rightarrow> Some (q, Down_modify_err, d)
           | IW_CM_STATE_IDLE \<Rightarrow> Some (q, Down_none, d)
           | IW_CM_STATE_CLOSING \<Rightarrow> Some (q, Down_none, d)
           | IW_CM_STATE_CONN_RECV \<Rightarrow> Some (q, Down_reject, d)
           | IW_CM_STATE_CONN_SENT \<Rightarrow> None
           | IW_CM_STATE_DESTROYING \<Rightarrow> None)"

definition destroy_finish :: "nat option \<Rightarrow> downcall \<Rightarrow> iwcm_id_private \<Rightarrow> (bool \<times> iwcm_id_private) option" where
  "destroy_finish q down c =
     (if iw_freed c then None
      else iwcm_deref_id (qp_put q (if down = Down_modify_err then iwcm_modify_qp_err q c else c)))"

definition destroy_cm_id :: "iwcm_id_private \<Rightarrow> (bool \<times> iwcm_id_private) option" where
  "destroy_cm_id c = do { c \<leftarrow> destroy_enter c; (q, down, c) \<leftarrow> destroy_locked c; destroy_finish q down c }"

text \<open>The port mapper: registered or not, the mapped addresses, and the result of \<open>iwpm_create_mapinfo\<close>.\<close>

record port_map =
  names_fit :: bool
  pm_registered :: bool
  pm_mapping :: "(sockaddr_storage \<times> sockaddr_storage) option"
  pm_mapinfo :: "errno option"

text \<open>\<open>sa_ip\<close> is the address of the family that \<open>sa_inet\<close> tells, 0 the wildcard of both; the addresses of one identifier are of one family.\<close>

definition iw_cm_check_wildcard :: "sockaddr_storage \<Rightarrow> sockaddr_storage \<Rightarrow> sockaddr_storage \<Rightarrow> sockaddr_storage" where
  "iw_cm_check_wildcard pm_addr cm_addr cm_outaddr =
     (if sa_ip pm_addr = 0 then cm_outaddr\<lparr>sa_ip := sa_ip cm_addr\<rparr> else cm_outaddr)"

definition iw_cm_map :: "port_map \<Rightarrow> bool \<Rightarrow> iwcm_id_private \<Rightarrow> errno option \<times> iwcm_id_private" where
  "iw_cm_map pm active c =
     (if \<not> names_fit pm then (Some EINVAL, c)
      else
        let c = c\<lparr>m_local_addr := local_addr c, m_remote_addr := remote_addr c\<rparr>
        in if \<not> pm_registered pm then (None, c)
           else
             let c = c\<lparr>mapped := True\<rparr>;
                 c = (case pm_mapping pm of
                        None \<Rightarrow> c
                      | Some (l, r) \<Rightarrow>
                          let c = c\<lparr>m_local_addr := l\<rparr>
                          in if active then c\<lparr>m_remote_addr := iw_cm_check_wildcard r (remote_addr c) r\<rparr> else c)
             in (pm_mapinfo pm, c))"

text \<open>The calls into the provider divide the following functions; \<open>Inr ()\<close> of the first part says that the call is made.\<close>

definition default_backlog :: nat where "default_backlog = 256"

definition listen_enter :: "(nat \<Rightarrow> bool) \<Rightarrow> nat \<Rightarrow> iwcm_id_private \<Rightarrow> (unit result \<times> iwcm_id_private) option" where
  "listen_enter km backlog c =
     (if iw_freed c then None
      else
        do {
          (ret, c) \<leftarrow> alloc_work_entries km (if backlog = 0 then default_backlog else backlog) c;
          case ret of
            Some e \<Rightarrow> Some (Inl e, c)
          | None \<Rightarrow>
              if iw_state c = IW_CM_STATE_IDLE then Some (Inr (), c\<lparr>iw_state := IW_CM_STATE_LISTEN\<rparr>) else Some (Inl EINVAL, c)
        })"

definition listen_leave :: "errno option \<Rightarrow> iwcm_id_private \<Rightarrow> iwcm_id_private option" where
  "listen_leave ret c =
     (if iw_freed c then None else Some (if ret \<noteq> None then c\<lparr>iw_state := IW_CM_STATE_IDLE\<rparr> else c))"

definition reject_enter :: "iwcm_id_private \<Rightarrow> (unit result \<times> iwcm_id_private) option" where
  "reject_enter c =
     (if iw_freed c then None
      else if iw_state c \<noteq> IW_CM_STATE_CONN_RECV then Some (Inl EINVAL, c\<lparr>connect_wait := False\<rparr>)
      else Some (Inr (), c\<lparr>connect_wait := True, iw_state := IW_CM_STATE_IDLE\<rparr>))"

definition reject_leave :: "iwcm_id_private \<Rightarrow> iwcm_id_private option" where
  "reject_leave c = (if iw_freed c then None else Some (c\<lparr>connect_wait := False\<rparr>))"

text \<open>\<open>look\<close> is the provider's \<open>iw_get_qp\<close> for the number in the parameters of the call.\<close>

definition accept_enter :: "nat option \<Rightarrow> iwcm_id_private \<Rightarrow> (unit result \<times> iwcm_id_private) option" where
  "accept_enter look c =
     (if iw_freed c then None
      else if iw_state c \<noteq> IW_CM_STATE_CONN_RECV then Some (Inl EINVAL, c\<lparr>connect_wait := False\<rparr>)
      else
        case look of
          None \<Rightarrow> Some (Inl EINVAL, c\<lparr>connect_wait := False\<rparr>)
        | Some q \<Rightarrow> Some (Inr (), (qp_get q c)\<lparr>connect_wait := True, iw_qp := Some q\<rparr>))"

definition accept_leave :: "errno option \<Rightarrow> iwcm_id_private \<Rightarrow> iwcm_id_private option" where
  "accept_leave ret c =
     (if ret = None then Some c
      else if iw_freed c \<or> iw_state c \<noteq> IW_CM_STATE_CONN_RECV then None
      else Some ((qp_put (iw_qp c) c)\<lparr>iw_state := IW_CM_STATE_IDLE, iw_qp := None, connect_wait := False\<rparr>))"

definition connect_enter :: "(nat \<Rightarrow> bool) \<Rightarrow> nat option \<Rightarrow> iwcm_id_private \<Rightarrow> (unit result \<times> iwcm_id_private) option" where
  "connect_enter km look c =
     (if iw_freed c then None
      else
        do {
          (ret, c) \<leftarrow> alloc_work_entries km 4 c;
          case ret of
            Some e \<Rightarrow> Some (Inl e, c)
          | None \<Rightarrow>
              if iw_state c \<noteq> IW_CM_STATE_IDLE then Some (Inl EINVAL, c\<lparr>connect_wait := False\<rparr>)
              else
                case look of
                  None \<Rightarrow> Some (Inl EINVAL, c\<lparr>connect_wait := False\<rparr>)
                | Some q \<Rightarrow> Some (Inr (), (qp_get q c)\<lparr>connect_wait := True, iw_qp := Some q, iw_state := IW_CM_STATE_CONN_SENT\<rparr>)
        })"

definition connect_leave :: "errno option \<Rightarrow> iwcm_id_private \<Rightarrow> iwcm_id_private option" where
  "connect_leave ret c =
     (if ret = None then Some c
      else if iw_freed c then None
      else Some ((qp_put (iw_qp c) c)\<lparr>iw_qp := None, iw_state := IW_CM_STATE_IDLE, connect_wait := False\<rparr>))"

section \<open>Events of the provider\<close>

text \<open>
  \<open>iw_cm_reject\<close> and \<open>iw_destroy_cm_id\<close> of a new identifier. A connection request ends without an identifier, with one that was
  refused (and whether it is freed), or with a call of the client for a new one and an event.
\<close>

definition refuse_cm_id :: "iwcm_id_private \<Rightarrow> (bool \<times> iwcm_id_private) option" where
  "refuse_cm_id c = do { (r, c) \<leftarrow> reject_enter c; c \<leftarrow> (if isl r then Some c else reject_leave c); destroy_cm_id c }"

datatype conn_req = Req_ignored | Req_refused bool iwcm_id_private | Req_call iwcm_id_private iw_cm_event

definition child_id :: "sockaddr_storage option \<Rightarrow> iwcm_id_private \<Rightarrow> iw_cm_event \<Rightarrow> iwcm_id_private \<times> iw_cm_event" where
  "child_id remote_info listen iw_event =
     (let c = iw_create_cm_id (local_addr listen) (ev_remote iw_event);
          c = c\<lparr>m_local_addr := ev_local iw_event, m_remote_addr := ev_remote iw_event, iw_state := IW_CM_STATE_CONN_RECV\<rparr>
      in case remote_info of
           None \<Rightarrow> (c, iw_event)
         | Some r \<Rightarrow>
             let c = c\<lparr>remote_addr := r, local_addr := iw_cm_check_wildcard (m_local_addr listen) (ev_local iw_event) (local_addr c)\<rparr>
             in (c, iw_event\<lparr>ev_local := local_addr c, ev_remote := remote_addr c\<rparr>))"

definition cm_conn_req_handler ::
  "bool \<Rightarrow> sockaddr_storage option \<Rightarrow> (nat \<Rightarrow> bool) \<Rightarrow> iwcm_id_private \<Rightarrow> iw_cm_event \<Rightarrow> conn_req option" where
  "cm_conn_req_handler kz remote_info km listen iw_event =
     (if ev_status iw_event \<noteq> 0 then None
      else if \<not> kz then Some Req_ignored
      else
        let (c, iw_event) = child_id remote_info listen iw_event
        in if iw_state listen \<noteq> IW_CM_STATE_LISTEN then map_option (\<lambda>(f, c). Req_refused f c) (refuse_cm_id c)
           else
             do {
               (ret, c) \<leftarrow> alloc_work_entries km 3 c;
               if ret \<noteq> None then map_option (\<lambda>(f, c). Req_refused f c) (refuse_cm_id c) else Some (Req_call c iw_event)
             })"

definition cm_conn_est_handler :: "iwcm_id_private \<Rightarrow> iwcm_id_private option" where
  "cm_conn_est_handler c =
     (if iw_freed c \<or> iw_state c \<noteq> IW_CM_STATE_CONN_RECV then None
      else Some (c\<lparr>connect_wait := False, iw_state := IW_CM_STATE_ESTABLISHED\<rparr>))"

text \<open>The client gets the event with the addresses of the identifier.\<close>

definition cm_conn_rep_handler :: "iw_cm_event \<Rightarrow> iwcm_id_private \<Rightarrow> (iw_cm_event \<times> iwcm_id_private) option" where
  "cm_conn_rep_handler iw_event c =
     (if iw_freed c \<or> iw_state c \<noteq> IW_CM_STATE_CONN_SENT then None
      else if ev_status iw_event = 0
      then Some (iw_event\<lparr>ev_local := local_addr c, ev_remote := remote_addr c\<rparr>,
                 c\<lparr>connect_wait := False, m_local_addr := ev_local iw_event, m_remote_addr := ev_remote iw_event,
                   iw_state := IW_CM_STATE_ESTABLISHED\<rparr>)
      else Some (iw_event, (qp_put (iw_qp c) c)\<lparr>connect_wait := False, iw_qp := None, iw_state := IW_CM_STATE_IDLE\<rparr>))"

definition cm_disconnect_handler :: "iwcm_id_private \<Rightarrow> iwcm_id_private option" where
  "cm_disconnect_handler c =
     (if iw_freed c then None
      else Some (if iw_state c = IW_CM_STATE_ESTABLISHED then c\<lparr>iw_state := IW_CM_STATE_CLOSING\<rparr> else c))"

text \<open>The result tells whether the client is notified.\<close>

definition cm_close_handler :: "iwcm_id_private \<Rightarrow> (bool \<times> iwcm_id_private) option" where
  "cm_close_handler c =
     (if iw_freed c then None
      else
        let d = (qp_put (iw_qp c) c)\<lparr>iw_qp := None\<rparr>
        in if iw_state c = IW_CM_STATE_ESTABLISHED \<or> iw_state c = IW_CM_STATE_CLOSING
           then Some (True, d\<lparr>iw_state := IW_CM_STATE_IDLE\<rparr>)
           else if iw_state c = IW_CM_STATE_DESTROYING then Some (False, d)
           else None)"

text \<open>\<open>kfree\<close> of the copy that \<open>cm_event_handler\<close> made of the private data.\<close>

definition free_private_data :: "iw_cm_event \<Rightarrow> iwcm_id_private \<Rightarrow> iwcm_id_private" where
  "free_private_data iw_event c = (if ev_private_data_len iw_event \<noteq> 0 then c\<lparr>pdata := pdata c - 1\<rparr> else c)"

text \<open>
  The locked part of the handler of an event, and the event with which the client's callback is called next. A connection request yields a child
  with steps of its own; the copy of the private data is freed at the end of its handler.
\<close>

definition process_event ::
  "bool \<Rightarrow> sockaddr_storage option \<Rightarrow> (nat \<Rightarrow> bool) \<Rightarrow> iw_cm_event \<Rightarrow> iwcm_id_private \<Rightarrow> (iw_cm_event option \<times> iwcm_id_private) option" where
  "process_event kz remote_info km iw_event c =
     (case ev_event iw_event of
        IW_CM_EVENT_CONNECT_REQUEST \<Rightarrow>
          if iw_freed c then None
          else map_option (\<lambda>child. (None, free_private_data iw_event c)) (cm_conn_req_handler kz remote_info km c iw_event)
      | IW_CM_EVENT_CONNECT_REPLY \<Rightarrow> map_option (map_prod Some id) (cm_conn_rep_handler iw_event c)
      | IW_CM_EVENT_ESTABLISHED \<Rightarrow> map_option (Pair (Some iw_event)) (cm_conn_est_handler c)
      | IW_CM_EVENT_DISCONNECT \<Rightarrow> map_option (Pair None) (cm_disconnect_handler c)
      | IW_CM_EVENT_CLOSE \<Rightarrow> map_option (map_prod (\<lambda>notify. if notify then Some iw_event else None) id) (cm_close_handler c))"

definition after_callback :: "iw_cm_event \<Rightarrow> iwcm_id_private \<Rightarrow> iwcm_id_private" where
  "after_callback iw_event c = (if ev_event iw_event = IW_CM_EVENT_CONNECT_REPLY then free_private_data iw_event c else c)"

definition work_pop :: "iwcm_id_private \<Rightarrow> (iw_cm_event \<times> bool \<times> iwcm_id_private) option" where
  "work_pop c =
     (if iw_freed c then None
      else case work_list c of [] \<Rightarrow> None | ev # l \<Rightarrow> Some (ev, l = [], put_work (c\<lparr>work_list := l\<rparr>)))"

text \<open>The results of \<open>cm_event_handler\<close>: its error and whether it queues the work item.\<close>

definition cm_event_handler :: "bool \<Rightarrow> iw_cm_event \<Rightarrow> iwcm_id_private \<Rightarrow> (errno option \<times> bool \<times> iwcm_id_private) option" where
  "cm_event_handler kmemdup iw_event c =
     (if iw_freed c then None
      else case get_work c of
        None \<Rightarrow> Some (Some ENOMEM, False, c)
      | Some d \<Rightarrow>
          let copies = ((ev_event iw_event = IW_CM_EVENT_CONNECT_REQUEST \<or> ev_event iw_event = IW_CM_EVENT_CONNECT_REPLY)
                \<and> ev_private_data_len iw_event \<noteq> 0)
          in if copies \<and> \<not> kmemdup then Some (Some ENOMEM, False, put_work d)
             else
               let d = (if copies then d\<lparr>pdata := pdata d + 1\<rparr> else d);
                   d = d\<lparr>iw_ref := iw_ref d + 1\<rparr>
               in Some (None, work_list d = [], d\<lparr>work_list := work_list d @ [iw_event]\<rparr>))"

section \<open>Attributes for the queue pair\<close>

definition IB_ACCESS_REMOTE_WRITE :: u32 where "IB_ACCESS_REMOTE_WRITE = 2"
definition IB_ACCESS_REMOTE_READ :: u32 where "IB_ACCESS_REMOTE_READ = 4"

definition iwcm_init_qp_init_attr :: "iwcm_id_private \<Rightarrow> (u32 \<times> u32) result" where
  "iwcm_init_qp_init_attr c =
     (if iw_state c \<in> {IW_CM_STATE_IDLE, IW_CM_STATE_CONN_SENT, IW_CM_STATE_CONN_RECV, IW_CM_STATE_ESTABLISHED}
      then Inr (IB_QP_STATE OR IB_QP_ACCESS_FLAGS, IB_ACCESS_REMOTE_WRITE OR IB_ACCESS_REMOTE_READ)
      else Inl EINVAL)"

definition iwcm_init_qp_rts_attr :: "iwcm_id_private \<Rightarrow> u32 result" where
  "iwcm_init_qp_rts_attr c =
     (if iw_state c \<in> {IW_CM_STATE_IDLE, IW_CM_STATE_CONN_SENT, IW_CM_STATE_CONN_RECV, IW_CM_STATE_ESTABLISHED}
      then Inr 0 else Inl EINVAL)"

text \<open>The attribute mask and, where they are set, the access flags.\<close>

definition iw_cm_init_qp_attr :: "ib_qp_state \<Rightarrow> iwcm_id_private \<Rightarrow> (u32 \<times> u32 option) result" where
  "iw_cm_init_qp_attr qp_state c =
     (if qp_state = IB_QPS_INIT \<or> qp_state = IB_QPS_RTR
      then map_sum id (\<lambda>(m, a). (m, Some a)) (iwcm_init_qp_init_attr c)
      else if qp_state = IB_QPS_RTS then map_sum id (\<lambda>m. (m, None)) (iwcm_init_qp_rts_attr c)
      else Inl EINVAL)"

lemma iw_cm_init_qp_attr_error:
  "iw_cm_init_qp_attr q c = Inl EINVAL \<longleftrightarrow> q \<notin> {IB_QPS_INIT, IB_QPS_RTR, IB_QPS_RTS} \<or>
     iw_state c \<in> {IW_CM_STATE_LISTEN, IW_CM_STATE_CLOSING, IW_CM_STATE_DESTROYING}"
  by (cases "iw_state c") (auto simp: iw_cm_init_qp_attr_def iwcm_init_qp_init_attr_def iwcm_init_qp_rts_attr_def)

end
