(* ===== verification/Iwcm_Safety.thy ===== *)
theory Iwcm_Safety
  imports Iwcm
begin

text \<open>
  The threads around one identifier of the iWARP connection manager, the invariant of their interleavings, and what follows: no \<open>BUG()\<close>,
  no use of a freed identifier, balanced references to the queue pair, and room for every event of a connection.
\<close>

section \<open>Threads\<close>

text \<open>
  Around one identifier run: the work queue (ordered, hence one item at a time), which pops an event, tests for dropped events,
  handles the event, calls the client and gives back the reference; a call of the client that is inside of the provider; the thread that
  destroys the identifier; the callback for the connection request that created it; and the provider, which holds
  references and raises events. The booleans of the worker tell whether the list was empty after the event was taken.
\<close>

datatype worker = Wk_idle | Wk_again | Wk_got iw_cm_event bool | Wk_run iw_cm_event bool | Wk_call iw_cm_event bool
  | Wk_kill bool | Wk_put bool

datatype client_call = No_call | In_listen | In_connect | In_accept | In_reject

datatype destroyer = D_none | D_drop | D_down "nat option" downcall | D_done

text \<open>What the provider may still report: nothing yet, connection requests (none so far, or some), the end of a connect or accept, and
  the end of a connection.\<close>

datatype provider = Pr_none | Pr_listen0 | Pr_listen | Pr_connect | Pr_accept | Pr_up | Pr_disc | Pr_done

text \<open>
  The client owns an identifier until it destroys it or returns an error from a callback; it starts it (connect or listen) at most
  once and answers a connection request at most once.
\<close>

record iw_sys =
  cm :: iwcm_id_private
  wk :: worker
  pend :: nat
  call :: client_call
  dst :: destroyer
  req_cb :: bool
  prov :: provider
  prefs :: nat
  owned :: bool
  fresh :: bool
  from_req :: bool
  accepted :: bool

datatype iw_act =
    A_listen "nat \<Rightarrow> bool" nat | A_listened port_map "errno option"
  | A_connect "nat \<Rightarrow> bool" "nat option" | A_connected port_map "errno option"
  | A_accept "nat option" | A_accepted "errno option" | A_reject | A_rejected | A_disconnect bool | A_destroy
  | D_lock | D_finish
  | P_add_ref | P_rem_ref | P_event bool iw_cm_event
  | W_pop | W_test | W_process bool "sockaddr_storage option" "nat \<Rightarrow> bool" | W_return int | W_destroy | W_killed | W_deref
  | R_return int

fun prov_after :: "provider \<Rightarrow> iw_cm_event \<Rightarrow> provider option" where
  "prov_after p ev =
     (case ev_event ev of
        IW_CM_EVENT_CONNECT_REQUEST \<Rightarrow> if (p = Pr_listen0 \<or> p = Pr_listen) \<and> ev_status ev = 0 then Some Pr_listen else None
      | IW_CM_EVENT_CONNECT_REPLY \<Rightarrow> if p = Pr_connect then Some (if ev_status ev = 0 then Pr_up else Pr_done) else None
      | IW_CM_EVENT_ESTABLISHED \<Rightarrow> if p = Pr_accept then Some Pr_up else None
      | IW_CM_EVENT_DISCONNECT \<Rightarrow> if p = Pr_up then Some Pr_disc else None
      | IW_CM_EVENT_CLOSE \<Rightarrow> if p = Pr_up \<or> p = Pr_disc then Some Pr_done else None)"

text \<open>
  Which steps the client, the provider and the scheduler may take. The client does not use an identifier that it no longer owns,
  does not connect or accept while it disconnects or destroys, and returns an error from a callback only for an
  identifier it owns and has not accepted; \<open>iw_cm_disconnect\<close> and \<open>destroy_cm_id\<close> wait while \<open>CONNECT_WAIT\<close> is set. The provider holds a reference while it may raise
  events, keeps to their order, and raises none when it fails the call.
\<close>

fun iw_may :: "iw_act \<Rightarrow> iw_sys \<Rightarrow> bool" where
  "iw_may (A_listen km n) s \<longleftrightarrow> owned s \<and> call s = No_call \<and> fresh s"
| "iw_may (A_listened pm ret) s \<longleftrightarrow> call s = In_listen \<and> (ret \<noteq> None \<or> fst (iw_cm_map pm False (cm s)) \<noteq> None \<longrightarrow> prov s = Pr_listen0)"
| "iw_may (A_connect km look) s \<longleftrightarrow> owned s \<and> call s = No_call \<and> fresh s"
| "iw_may (A_connected pm ret) s \<longleftrightarrow> call s = In_connect \<and> (ret \<noteq> None \<or> fst (iw_cm_map pm True (cm s)) \<noteq> None \<longrightarrow> prov s = Pr_connect)"
| "iw_may (A_accept look) s \<longleftrightarrow> owned s \<and> call s = No_call \<and> from_req s \<and> \<not> accepted s"
| "iw_may (A_accepted ret) s \<longleftrightarrow> call s = In_accept \<and> (ret \<noteq> None \<longrightarrow> prov s = Pr_accept)"
| "iw_may A_reject s \<longleftrightarrow> owned s \<and> call s = No_call \<and> from_req s \<and> \<not> accepted s"
| "iw_may A_rejected s \<longleftrightarrow> call s = In_reject"
| "iw_may (A_disconnect abrupt) s \<longleftrightarrow> owned s \<and> \<not> connect_wait (cm s)"
| "iw_may A_destroy s \<longleftrightarrow> owned s \<and> call s = No_call \<and> \<not> connect_wait (cm s)"
| "iw_may D_lock s \<longleftrightarrow> dst s = D_drop"
| "iw_may D_finish s \<longleftrightarrow> (case dst s of D_down q down \<Rightarrow> True | _ \<Rightarrow> False)"
| "iw_may P_add_ref s \<longleftrightarrow> 0 < prefs s \<or> call s \<in> {In_listen, In_connect, In_accept}"
| "iw_may P_rem_ref s \<longleftrightarrow> 1 < prefs s \<or> prefs s = 1 \<and> prov s \<in> {Pr_none, Pr_done}"
| "iw_may (P_event ok ev) s \<longleftrightarrow> 0 < prefs s \<and> prov_after (prov s) ev \<noteq> None"
| "iw_may W_pop s \<longleftrightarrow> wk s = Wk_again \<or> wk s = Wk_idle \<and> 0 < pend s"
| "iw_may W_test s \<longleftrightarrow> (case wk s of Wk_got ev e \<Rightarrow> True | _ \<Rightarrow> False)"
| "iw_may (W_process kz info km) s \<longleftrightarrow> (case wk s of Wk_run ev e \<Rightarrow> True | _ \<Rightarrow> False)"
| "iw_may (W_return r) s \<longleftrightarrow> (case wk s of Wk_call ev e \<Rightarrow> r \<noteq> 0 \<longrightarrow> owned s \<and> call s = No_call | _ \<Rightarrow> False)"
| "iw_may W_destroy s \<longleftrightarrow> (case wk s of Wk_kill e \<Rightarrow> dst s = D_none \<and> \<not> connect_wait (cm s) | _ \<Rightarrow> False)"
| "iw_may W_killed s \<longleftrightarrow> (case wk s of Wk_kill e \<Rightarrow> dst s = D_done | _ \<Rightarrow> False)"
| "iw_may W_deref s \<longleftrightarrow> (case wk s of Wk_put e \<Rightarrow> True | _ \<Rightarrow> False)"
| "iw_may (R_return r) s \<longleftrightarrow> req_cb s \<and> (r \<noteq> 0 \<longrightarrow> owned s \<and> call s = No_call \<and> \<not> accepted s)"

text \<open>The provider's side of \<open>iw_destroy_listen\<close> and \<open>iw_reject\<close>: no more events.\<close>

definition prov_down :: "downcall \<Rightarrow> provider \<Rightarrow> provider" where
  "prov_down down p = (if down = Down_destroy_listen \<or> down = Down_reject then Pr_done else p)"

text \<open>
  The steps of \<open>cm_work_handler\<close>: it takes an event and its work element off the lists, tests \<open>DROP_EVENTS\<close>, processes the event, destroys the identifier when the
  callback returned an error (behind the same wait as the client), gives back the reference of the event and goes on until the list was empty.
\<close>

fun cm_work_handler :: "iw_act \<Rightarrow> iw_sys \<Rightarrow> iw_sys option" where
  "cm_work_handler W_pop s =
     (if wk s = Wk_idle \<and> \<not> iw_freed (cm s) \<and> work_list (cm s) = [] then Some (s\<lparr>pend := pend s - 1\<rparr>)
      else
        map_option (\<lambda>(ev, e, c). s\<lparr>cm := c, wk := Wk_got ev e, pend := (if wk s = Wk_idle then pend s - 1 else pend s)\<rparr>) (work_pop (cm s)))"
| "cm_work_handler W_test s =
     (case wk s of
        Wk_got ev e \<Rightarrow> if iw_freed (cm s) then None else Some (s\<lparr>wk := (if drop_events (cm s) then Wk_put e else Wk_run ev e)\<rparr>)
      | _ \<Rightarrow> Some s)"
| "cm_work_handler (W_process kz info km) s =
     (case wk s of
        Wk_run ev e \<Rightarrow> map_option (\<lambda>(cb, c). s\<lparr>cm := c, wk := (case cb of None \<Rightarrow> Wk_put e | Some ev \<Rightarrow> Wk_call ev e)\<rparr>) (process_event kz info km ev (cm s))
      | _ \<Rightarrow> Some s)"
| "cm_work_handler (W_return r) s =
     (case wk s of
        Wk_call ev e \<Rightarrow>
          if r = 0 then Some (s\<lparr>cm := after_callback ev (cm s), wk := Wk_put e\<rparr>)
          else Some (s\<lparr>cm := after_callback ev (cm s), wk := Wk_kill e, owned := False\<rparr>)
      | _ \<Rightarrow> Some s)"
| "cm_work_handler W_destroy s = map_option (\<lambda>c. s\<lparr>cm := c, dst := D_drop\<rparr>) (destroy_enter (cm s))"
| "cm_work_handler W_killed s = (case wk s of Wk_kill e \<Rightarrow> Some (s\<lparr>wk := Wk_put e\<rparr>) | _ \<Rightarrow> Some s)"
| "cm_work_handler W_deref s =
     (case wk s of
        Wk_put e \<Rightarrow> map_option (\<lambda>(last, c). s\<lparr>cm := c, wk := (if last \<or> e then Wk_idle else Wk_again)\<rparr>) (iwcm_deref_id (cm s))
      | _ \<Rightarrow> Some s)"
| "cm_work_handler a s = Some s"

fun iw_do :: "iw_act \<Rightarrow> iw_sys \<Rightarrow> iw_sys option" where
  "iw_do (A_listen km n) s =
     map_option (\<lambda>(r, c). if isl r then s\<lparr>cm := c, fresh := (work_free c = 0)\<rparr> else s\<lparr>cm := c, fresh := False, call := In_listen, prov := Pr_listen0\<rparr>)
       (listen_enter km n (cm s))"
| "iw_do (A_listened pm ret) s =
     (let (err, c) = iw_cm_map pm False (cm s); ret = (if err \<noteq> None then err else ret)
      in map_option (\<lambda>c. s\<lparr>cm := c, call := No_call, prov := (if ret = None then prov s else Pr_none)\<rparr>) (listen_leave ret c))"
| "iw_do (A_connect km look) s =
     map_option (\<lambda>(r, c). if isl r then s\<lparr>cm := c, fresh := (work_free c = 0)\<rparr> else s\<lparr>cm := c, fresh := False, call := In_connect, prov := Pr_connect\<rparr>)
       (connect_enter km look (cm s))"
| "iw_do (A_connected pm ret) s =
     (let (err, c) = iw_cm_map pm True (cm s); ret = (if err \<noteq> None then err else ret)
      in map_option (\<lambda>c. s\<lparr>cm := c, call := No_call, prov := (if ret = None then prov s else Pr_none)\<rparr>) (connect_leave ret c))"
| "iw_do (A_accept look) s =
     map_option (\<lambda>(r, c). if isl r then s\<lparr>cm := c\<rparr> else s\<lparr>cm := c, call := In_accept, accepted := True, prov := Pr_accept\<rparr>)
       (accept_enter look (cm s))"
| "iw_do (A_accepted ret) s =
     map_option (\<lambda>c. s\<lparr>cm := c, call := No_call, prov := (if ret = None then prov s else Pr_none)\<rparr>) (accept_leave ret (cm s))"
| "iw_do A_reject s = map_option (\<lambda>(r, c). if isl r then s\<lparr>cm := c\<rparr> else s\<lparr>cm := c, call := In_reject\<rparr>) (reject_enter (cm s))"
| "iw_do A_rejected s = map_option (\<lambda>c. s\<lparr>cm := c, call := No_call, prov := Pr_done\<rparr>) (reject_leave (cm s))"
| "iw_do (A_disconnect abrupt) s = map_option (\<lambda>(r, c). s\<lparr>cm := c\<rparr>) (iw_cm_disconnect abrupt (cm s))"
| "iw_do A_destroy s = map_option (\<lambda>c. s\<lparr>cm := c, owned := False, dst := D_drop\<rparr>) (destroy_enter (cm s))"
| "iw_do D_lock s = map_option (\<lambda>(q, down, c). s\<lparr>cm := c, dst := D_down q down\<rparr>) (destroy_locked (cm s))"
| "iw_do D_finish s =
     (case dst s of
        D_down q down \<Rightarrow> map_option (\<lambda>(r, c). s\<lparr>cm := c, dst := D_done, prov := prov_down down (prov s)\<rparr>) (destroy_finish q down (cm s))
      | _ \<Rightarrow> Some s)"
| "iw_do P_add_ref s = map_option (\<lambda>c. s\<lparr>cm := c, prefs := prefs s + 1\<rparr>) (add_ref (cm s))"
| "iw_do P_rem_ref s = map_option (\<lambda>c. s\<lparr>cm := c, prefs := prefs s - 1\<rparr>) (rem_ref (cm s))"
| "iw_do (P_event ok ev) s =
     map_option (\<lambda>(err, queue, c). s\<lparr>cm := c, pend := (if queue then pend s + 1 else pend s),
         prov := (if err = None then the (prov_after (prov s) ev) else prov s)\<rparr>) (cm_event_handler ok ev (cm s))"
| "iw_do W_pop s = cm_work_handler W_pop s"
| "iw_do W_test s = cm_work_handler W_test s"
| "iw_do (W_process kz info km) s = cm_work_handler (W_process kz info km) s"
| "iw_do (W_return r) s = cm_work_handler (W_return r) s"
| "iw_do W_destroy s = cm_work_handler W_destroy s"
| "iw_do W_killed s = cm_work_handler W_killed s"
| "iw_do W_deref s = cm_work_handler W_deref s"
| "iw_do (R_return r) s =
     (if r = 0 then Some (s\<lparr>req_cb := False\<rparr>)
      else
        do {
          (res, c) \<leftarrow> reject_enter (cm s);
          c \<leftarrow> (if isl res then Some c else reject_leave c);
          c \<leftarrow> destroy_enter c;
          Some (s\<lparr>cm := c, req_cb := False, owned := False, dst := D_drop, prov := Pr_done\<rparr>)
        })"

text \<open>An identifier starts with a client that created it, or as the child of a listening one.\<close>

definition iw_init :: "iwcm_id_private \<Rightarrow> iw_sys" where
  "iw_init c = \<lparr>cm = c, wk = Wk_idle, pend = 0, call = No_call, dst = D_none, req_cb = False, prov = Pr_none, prefs = 0, owned = True,
     fresh = True, from_req = False, accepted = False\<rparr>"

inductive iw_reach :: "iw_sys \<Rightarrow> bool" where
  iw_created: "iw_reach (iw_init (iw_create_cm_id loc rem))"
| iw_child: "cm_conn_req_handler True info km listen ev = Some (Req_call c ev') \<Longrightarrow>
    iw_reach ((iw_init c)\<lparr>req_cb := True, fresh := False, from_req := True\<rparr>)"
| iw_step: "iw_reach s \<Longrightarrow> iw_may a s \<Longrightarrow> iw_do a s = Some s' \<Longrightarrow> iw_reach s'"

section \<open>The invariant\<close>

text \<open>Events that were raised and not yet handled, oldest first.\<close>

fun cur :: "worker \<Rightarrow> iw_cm_event list" where
  "cur (Wk_got ev e) = [ev]" | "cur (Wk_run ev e) = [ev]" | "cur _ = []"

text \<open>The events that may be outstanding on a connection that is up, and on one whose disconnect was handled.\<close>

fun tail_ok :: "provider \<Rightarrow> iw_cm_event list \<Rightarrow> bool" where
  "tail_ok p [] \<longleftrightarrow> p = Pr_up"
| "tail_ok p [a] \<longleftrightarrow> ev_event a = IW_CM_EVENT_DISCONNECT \<and> p = Pr_disc \<or> ev_event a = IW_CM_EVENT_CLOSE \<and> p = Pr_done"
| "tail_ok p [a, b] \<longleftrightarrow> ev_event a = IW_CM_EVENT_DISCONNECT \<and> ev_event b = IW_CM_EVENT_CLOSE \<and> p = Pr_done"
| "tail_ok p (a # b # d # l) \<longleftrightarrow> False"

fun disc_ok :: "provider \<Rightarrow> iw_cm_event list \<Rightarrow> bool" where
  "disc_ok p [] \<longleftrightarrow> p = Pr_disc"
| "disc_ok p [a] \<longleftrightarrow> ev_event a = IW_CM_EVENT_CLOSE \<and> p = Pr_done"
| "disc_ok p (a # b # l) \<longleftrightarrow> False"

definition rep_ok :: "provider \<Rightarrow> iw_cm_event list \<Rightarrow> bool" where
  "rep_ok p Q = (case Q of
     [] \<Rightarrow> p = Pr_connect
   | e # T \<Rightarrow> ev_event e = IW_CM_EVENT_CONNECT_REPLY \<and> (if ev_status e = 0 then tail_ok p T else T = [] \<and> p = Pr_done))"

definition est_ok :: "provider \<Rightarrow> iw_cm_event list \<Rightarrow> bool" where
  "est_ok p Q = (case Q of [] \<Rightarrow> p = Pr_accept | e # T \<Rightarrow> ev_event e = IW_CM_EVENT_ESTABLISHED \<and> tail_ok p T)"

definition req_ok :: "provider \<Rightarrow> iw_cm_event list \<Rightarrow> bool" where
  "req_ok p Q \<longleftrightarrow> (p = Pr_listen0 \<and> Q = [] \<or> p = Pr_listen) \<and> (\<forall>e \<in> set Q. ev_event e = IW_CM_EVENT_CONNECT_REQUEST \<and> ev_status e = 0)"

text \<open>State, provider and outstanding events as long as the identifier is not being destroyed.\<close>

fun live_ok :: "iw_cm_state \<Rightarrow> bool \<Rightarrow> provider \<Rightarrow> iw_cm_event list \<Rightarrow> bool" where
  "live_ok IW_CM_STATE_IDLE acc p Q \<longleftrightarrow> Q = [] \<and> (p = Pr_none \<or> p = Pr_done)"
| "live_ok IW_CM_STATE_LISTEN acc p Q \<longleftrightarrow> req_ok p Q"
| "live_ok IW_CM_STATE_CONN_SENT acc p Q \<longleftrightarrow> rep_ok p Q"
| "live_ok IW_CM_STATE_CONN_RECV acc p Q \<longleftrightarrow> (if acc then est_ok p Q else Q = [] \<and> p = Pr_none)"
| "live_ok IW_CM_STATE_ESTABLISHED acc p Q \<longleftrightarrow> tail_ok p Q"
| "live_ok IW_CM_STATE_CLOSING acc p Q \<longleftrightarrow> tail_ok p Q \<or> disc_ok p Q"
| "live_ok IW_CM_STATE_DESTROYING acc p Q \<longleftrightarrow> False"

text \<open>The event that the worker handles while the identifier is being destroyed.\<close>

fun dead_ok :: "iw_cm_state \<Rightarrow> worker \<Rightarrow> bool" where
  "dead_ok st (Wk_run ev e) =
     (case ev_event ev of
        IW_CM_EVENT_CONNECT_REQUEST \<Rightarrow> ev_status ev = 0
      | IW_CM_EVENT_CONNECT_REPLY \<Rightarrow> False
      | IW_CM_EVENT_ESTABLISHED \<Rightarrow> False
      | IW_CM_EVENT_DISCONNECT \<Rightarrow> True
      | IW_CM_EVENT_CLOSE \<Rightarrow> st = IW_CM_STATE_ESTABLISHED \<or> st = IW_CM_STATE_CLOSING \<or> st = IW_CM_STATE_DESTROYING)"
| "dead_ok st _ = True"

definition holds :: "worker \<Rightarrow> nat" where
  "holds w = (if w = Wk_idle \<or> w = Wk_again then 0 else 1)"

definition ref_inv :: "iw_sys \<Rightarrow> bool" where
  "ref_inv s \<longleftrightarrow> iw_ref (cm s) = (if dst s = D_done then 0 else 1) + length (work_list (cm s)) + holds (wk s) + prefs s \<and>
     (iw_freed (cm s) \<longleftrightarrow> iw_ref (cm s) = 0)"

fun loops :: "worker \<Rightarrow> bool" where
  "loops Wk_idle = False" | "loops Wk_again = True" | "loops (Wk_got ev e) = (\<not> e)" | "loops (Wk_run ev e) = (\<not> e)" | "loops (Wk_call ev e) = (\<not> e)"
| "loops (Wk_kill e) = (\<not> e)" | "loops (Wk_put e) = (\<not> e)"

definition pend_inv :: "worker \<Rightarrow> nat \<Rightarrow> iw_cm_event list \<Rightarrow> bool" where
  "pend_inv w p l \<longleftrightarrow> (if loops w then p = 0 \<and> l \<noteq> [] else p = (if l = [] then 0 else 1))"

fun kills :: "worker \<Rightarrow> bool" where
  "kills (Wk_kill e) = True" | "kills _ = False"

definition own_inv :: "iw_sys \<Rightarrow> bool" where
  "own_inv s \<longleftrightarrow> (owned s \<longrightarrow> dst s = D_none \<and> \<not> kills (wk s)) \<and> (call s \<noteq> No_call \<longrightarrow> owned s) \<and> (drop_events (cm s) \<longleftrightarrow> dst s \<noteq> D_none) \<and>
     (dst s = D_none \<and> fresh s \<longrightarrow> iw_state (cm s) = IW_CM_STATE_IDLE \<and> work_free (cm s) = 0 \<and> prov s = Pr_none \<and> \<not> from_req s) \<and>
     (dst s = D_none \<and> from_req s \<and> \<not> accepted s \<longrightarrow> 3 \<le> work_free (cm s) \<and> iw_state (cm s) \<in> {IW_CM_STATE_CONN_RECV, IW_CM_STATE_IDLE}) \<and>
     (call s = In_listen \<longrightarrow> iw_state (cm s) = IW_CM_STATE_LISTEN) \<and> (call s = In_reject \<longrightarrow> iw_state (cm s) = IW_CM_STATE_IDLE \<and> from_req s) \<and>
     (req_cb s \<longrightarrow> from_req s)"

fun state_ok :: "destroyer \<Rightarrow> iw_cm_state \<Rightarrow> bool \<Rightarrow> provider \<Rightarrow> worker \<Rightarrow> iw_cm_event list \<Rightarrow> bool \<Rightarrow> client_call \<Rightarrow> bool" where
  "state_ok D_none st acc p w l wait k \<longleftrightarrow> live_ok st acc p (cur w @ l) \<and>
     (wait \<longleftrightarrow> st = IW_CM_STATE_CONN_SENT \<or> st = IW_CM_STATE_CONN_RECV \<and> acc \<or> k = In_reject)"
| "state_ok D_drop st acc p w l wait k \<longleftrightarrow> dead_ok st w \<and> st \<noteq> IW_CM_STATE_CONN_SENT \<and> st \<noteq> IW_CM_STATE_DESTROYING"
| "state_ok (D_down q down) st acc p w l wait k \<longleftrightarrow> dead_ok st w \<and> st = IW_CM_STATE_DESTROYING"
| "state_ok D_done st acc p w l wait k \<longleftrightarrow> dead_ok st w \<and> st = IW_CM_STATE_DESTROYING"

definition state_inv :: "iw_sys \<Rightarrow> bool" where
  "state_inv s \<longleftrightarrow> state_ok (dst s) (iw_state (cm s)) (accepted s) (prov s) (wk s) (work_list (cm s)) (connect_wait (cm s)) (call s)"

fun events_left :: "provider \<Rightarrow> nat" where
  "events_left Pr_connect = 3" | "events_left Pr_accept = 3" | "events_left Pr_up = 2" | "events_left Pr_disc = 1" | "events_left _ = 0"

definition room_inv :: "iw_sys \<Rightarrow> bool" where
  "room_inv s \<longleftrightarrow> (0 < events_left (prov s) \<longrightarrow> 3 \<le> work_free (cm s) + length (work_list (cm s)) \<and>
     length (work_list (cm s)) + events_left (prov s) \<le> 3) \<and> (prov s = Pr_up \<or> prov s = Pr_disc \<longrightarrow> 0 < prefs s) \<and>
     (dst s \<noteq> D_none \<longrightarrow> prov s \<noteq> Pr_connect \<and> prov s \<noteq> Pr_accept)"

definition opt_mset :: "'a option \<Rightarrow> 'a multiset" where
  "opt_mset x = (case x of None \<Rightarrow> {#} | Some v \<Rightarrow> {#v#})"

fun dying_qp :: "destroyer \<Rightarrow> nat multiset" where
  "dying_qp (D_down q down) = opt_mset q" | "dying_qp _ = {#}"

definition qp_inv :: "iw_sys \<Rightarrow> bool" where
  "qp_inv s \<longleftrightarrow> mset (qp_added (cm s)) = mset (qp_removed (cm s)) + opt_mset (iw_qp (cm s)) + dying_qp (dst s) \<and>
     (iw_state (cm s) \<in> {IW_CM_STATE_IDLE, IW_CM_STATE_LISTEN, IW_CM_STATE_DESTROYING} \<or> iw_state (cm s) = IW_CM_STATE_CONN_RECV \<and> \<not> accepted s \<longrightarrow>
        iw_qp (cm s) = None)"

definition iw_inv :: "iw_sys \<Rightarrow> bool" where
  "iw_inv s \<longleftrightarrow> ref_inv s \<and> pend_inv (wk s) (pend s) (work_list (cm s)) \<and> own_inv s \<and> state_inv s \<and> room_inv s \<and> qp_inv s"

lemmas iw_inv_defs = iw_inv_def ref_inv_def pend_inv_def own_inv_def state_inv_def room_inv_def qp_inv_def

lemma opt_mset_simps [simp]: "opt_mset None = {#}" "opt_mset (Some v) = {#v#}"
  by (simp_all add: opt_mset_def)

lemma alloc_loop_eq: "alloc_loop km n c = (None, c\<lparr>work_free := work_free c + n\<rparr>) \<or> alloc_loop km n c = (Some ENOMEM, c\<lparr>work_free := 0\<rparr>)"
proof (induction n arbitrary: c)
  case (Suc n)
  then show ?case using Suc.IH [of "put_work c"] by (auto simp: put_work_def dealloc_work_entries_def)
qed simp

lemma qp_put_simps [simp]: "iw_state (qp_put q c) = iw_state c" "work_list (qp_put q c) = work_list c" "work_free (qp_put q c) = work_free c"
  "iw_ref (qp_put q c) = iw_ref c" "iw_freed (qp_put q c) = iw_freed c" "drop_events (qp_put q c) = drop_events c" "connect_wait (qp_put q c) = connect_wait c"
  "iw_qp (qp_put q c) = iw_qp c" "qp_added (qp_put q c) = qp_added c" "mset (qp_removed (qp_put q c)) = mset (qp_removed c) + opt_mset q"
  by (simp_all add: qp_put_def split: option.split)

lemma modify_err_simps [simp]: "iw_state (iwcm_modify_qp_err q c) = iw_state c" "work_list (iwcm_modify_qp_err q c) = work_list c"
  "work_free (iwcm_modify_qp_err q c) = work_free c" "iw_ref (iwcm_modify_qp_err q c) = iw_ref c" "iw_freed (iwcm_modify_qp_err q c) = iw_freed c"
  "drop_events (iwcm_modify_qp_err q c) = drop_events c" "connect_wait (iwcm_modify_qp_err q c) = connect_wait c"
  "iw_qp (iwcm_modify_qp_err q c) = iw_qp c" "qp_added (iwcm_modify_qp_err q c) = qp_added c" "qp_removed (iwcm_modify_qp_err q c) = qp_removed c"
  by (simp_all add: iwcm_modify_qp_err_def split: option.split)

lemma tail_ok_Cons: "tail_ok p (a # T) \<longleftrightarrow> ev_event a = IW_CM_EVENT_DISCONNECT \<and> disc_ok p T \<or> ev_event a = IW_CM_EVENT_CLOSE \<and> T = [] \<and> p = Pr_done"
  by (cases T; cases "tl T") auto

lemma tail_ok_snoc:
  assumes "tail_ok p T" "prov_after p ev = Some p'"
  shows "tail_ok p' (T @ [ev])"
  using assms by (cases "(p, T)" rule: tail_ok.cases) (auto split: iw_cm_event_type.splits if_splits)

lemma disc_ok_snoc:
  assumes "disc_ok p T" "prov_after p ev = Some p'"
  shows "disc_ok p' (T @ [ev])"
  using assms by (cases "(p, T)" rule: disc_ok.cases) (auto split: iw_cm_event_type.splits if_splits)

lemma live_ok_snoc:
  assumes "live_ok st acc p Q" "prov_after p ev = Some p'"
  shows "live_ok st acc p' (Q @ [ev])"
proof (cases st)
  case IW_CM_STATE_CONN_SENT
  then show ?thesis using assms tail_ok_snoc [of p "tl Q" ev p']
    by (cases Q) (auto simp: rep_ok_def split: iw_cm_event_type.splits if_splits)
next
  case IW_CM_STATE_CONN_RECV
  then show ?thesis using assms tail_ok_snoc [of p "tl Q" ev p']
    by (cases Q) (auto simp: est_ok_def split: iw_cm_event_type.splits if_splits)
next
  case IW_CM_STATE_LISTEN
  then show ?thesis using assms by (auto simp: req_ok_def split: iw_cm_event_type.splits if_splits)
qed (use assms tail_ok_snoc disc_ok_snoc in \<open>auto split: iw_cm_event_type.splits if_splits\<close>)

section \<open>Every step keeps the invariant\<close>

definition step_ok :: "iw_act \<Rightarrow> bool" where
  "step_ok a \<longleftrightarrow> (\<forall>s. iw_inv s \<longrightarrow> iw_may a s \<longrightarrow> (\<exists>s'. iw_do a s = Some s' \<and> iw_inv s'))"

lemma step_okI: "(\<And>s. iw_inv s \<Longrightarrow> iw_may a s \<Longrightarrow> \<exists>s'. iw_do a s = Some s' \<and> iw_inv s') \<Longrightarrow> step_ok a"
  by (simp add: step_ok_def)

lemma inv_live: "iw_inv s \<Longrightarrow> dst s \<noteq> D_done \<Longrightarrow> \<not> iw_freed (cm s) \<and> 0 < iw_ref (cm s)"
  by (simp add: iw_inv_def ref_inv_def)

lemma inv_prefs: "iw_inv s \<Longrightarrow> 0 < prefs s \<Longrightarrow> \<not> iw_freed (cm s) \<and> 0 < iw_ref (cm s)"
  by (simp add: iw_inv_def ref_inv_def)

lemma inv_holds: "iw_inv s \<Longrightarrow> holds (wk s) = 1 \<Longrightarrow> \<not> iw_freed (cm s) \<and> 0 < iw_ref (cm s)"
  by (simp add: iw_inv_def ref_inv_def)

lemma inv_owned: "iw_inv s \<Longrightarrow> owned s \<Longrightarrow> dst s = D_none \<and> \<not> iw_freed (cm s) \<and> 0 < iw_ref (cm s) \<and> \<not> drop_events (cm s)"
  by (simp add: iw_inv_def ref_inv_def own_inv_def)

lemma inv_call: "iw_inv s \<Longrightarrow> call s \<noteq> No_call \<Longrightarrow> owned s"
  by (simp add: iw_inv_def own_inv_def)

lemma iw_invI: "ref_inv s \<Longrightarrow> pend_inv (wk s) (pend s) (work_list (cm s)) \<Longrightarrow> own_inv s \<Longrightarrow> state_inv s \<Longrightarrow> room_inv s \<Longrightarrow> qp_inv s \<Longrightarrow> iw_inv s"
  by (simp add: iw_inv_def)

lemma iw_invD: "iw_inv s \<Longrightarrow> ref_inv s" "iw_inv s \<Longrightarrow> pend_inv (wk s) (pend s) (work_list (cm s))" "iw_inv s \<Longrightarrow> own_inv s" "iw_inv s \<Longrightarrow> state_inv s"
  "iw_inv s \<Longrightarrow> room_inv s" "iw_inv s \<Longrightarrow> qp_inv s"
  by (simp_all add: iw_inv_def)

lemma prov_quiet [simp]: "prov_after Pr_none ev = None" "prov_after Pr_done ev = None"
  by (simp_all split: iw_cm_event_type.split)

declare prov_after.simps [simp del]

lemma step_add_ref: "step_ok P_add_ref"
proof (rule step_okI)
  fix s assume s: "iw_inv s" "iw_may P_add_ref s"
  have nf: "\<not> iw_freed (cm s) \<and> 0 < iw_ref (cm s)"
  proof (cases "0 < prefs s")
    case False
    then have "call s \<noteq> No_call" using s(2) by auto
    then show ?thesis using inv_owned [OF s(1) inv_call [OF s(1)]] by blast
  qed (use inv_prefs [OF s(1)] in blast)
  have eq: "iw_do P_add_ref s = Some (s\<lparr>cm := (cm s)\<lparr>iw_ref := iw_ref (cm s) + 1\<rparr>, prefs := prefs s + 1\<rparr>)" (is "_ = Some ?s")
    using nf by (simp add: add_ref_def)
  have "iw_inv ?s"
  proof (rule iw_invI)
    show "ref_inv ?s" using iw_invD(1) [OF s(1)] nf by (auto simp: ref_inv_def)
    show "pend_inv (wk ?s) (pend ?s) (work_list (cm ?s))" using iw_invD(2) [OF s(1)] by simp
    show "own_inv ?s" using iw_invD(3) [OF s(1)] by (simp add: own_inv_def)
    show "state_inv ?s" using iw_invD(4) [OF s(1)] by (simp add: state_inv_def)
    show "room_inv ?s" using iw_invD(5) [OF s(1)] by (simp add: room_inv_def)
    show "qp_inv ?s" using iw_invD(6) [OF s(1)] by (simp add: qp_inv_def)
  qed
  then show "\<exists>s'. iw_do P_add_ref s = Some s' \<and> iw_inv s'" using eq by blast
qed

lemma step_pop: "step_ok W_pop"
proof (rule step_okI)
  fix s assume s: "iw_inv s" "iw_may W_pop s"
  have w: "wk s = Wk_again \<or> wk s = Wk_idle" "cur (wk s) = []" "holds (wk s) = 0" "loops (wk s) \<longleftrightarrow> wk s \<noteq> Wk_idle" "loops (wk s) \<or> 0 < pend s"
    using s(2) by (auto simp: holds_def)
  note P = iw_invD(2) [OF s(1)]
  obtain ev l where l: "work_list (cm s) = ev # l" using P w(5) by (cases "work_list (cm s)") (auto simp: pend_inv_def split: if_splits)
  have "\<not> iw_freed (cm s)" using iw_invD(1) [OF s(1)] l by (simp add: ref_inv_def)
  then have eq: "iw_do W_pop s = Some (s\<lparr>cm := put_work ((cm s)\<lparr>work_list := l\<rparr>), wk := Wk_got ev (l = []), pend := if wk s = Wk_idle then pend s - 1 else pend s\<rparr>)" (is "_ = Some ?s")
    using l by (simp add: work_pop_def)
  have "iw_inv ?s"
  proof (rule iw_invI)
    show "ref_inv ?s" using iw_invD(1) [OF s(1)] l w(3) by (simp add: ref_inv_def put_work_def holds_def)
    show "pend_inv (wk ?s) (pend ?s) (work_list (cm ?s))" using P w(4) l by (simp add: pend_inv_def put_work_def split: if_splits)
    have "\<not> (dst s = D_none \<and> fresh s)" using iw_invD(3,4) [OF s(1)] l by (auto simp: own_inv_def state_inv_def)
    then show "own_inv ?s" using iw_invD(3) [OF s(1)] by (auto simp: own_inv_def put_work_def)
    show "state_inv ?s" using iw_invD(4) [OF s(1)] l w(2) by (cases "dst s") (simp_all add: state_inv_def put_work_def)
    show "room_inv ?s" using iw_invD(5) [OF s(1)] l by (auto simp: room_inv_def put_work_def)
    show "qp_inv ?s" using iw_invD(6) [OF s(1)] by (simp add: qp_inv_def put_work_def)
  qed
  then show "\<exists>s'. iw_do W_pop s = Some s' \<and> iw_inv s'" using eq by blast
qed

lemma step_test: "step_ok W_test"
proof (rule step_okI)
  fix s assume s: "iw_inv s" "iw_may W_test s"
  then obtain ev e where w: "wk s = Wk_got ev e" by (auto split: worker.splits)
  have "\<not> iw_freed (cm s)" using inv_holds [OF s(1)] w by (simp add: holds_def)
  then have eq: "iw_do W_test s = Some (s\<lparr>wk := if drop_events (cm s) then Wk_put e else Wk_run ev e\<rparr>)" (is "_ = Some ?s")
    using w by simp
  have d: "drop_events (cm s) \<longleftrightarrow> dst s \<noteq> D_none" using iw_invD(3) [OF s(1)] by (simp add: own_inv_def)
  have "iw_inv ?s"
  proof (rule iw_invI)
    show "ref_inv ?s" using iw_invD(1) [OF s(1)] w by (simp add: ref_inv_def holds_def)
    show "pend_inv (wk ?s) (pend ?s) (work_list (cm ?s))" using iw_invD(2) [OF s(1)] w by (auto simp: pend_inv_def split: if_splits)
    show "own_inv ?s" using iw_invD(3) [OF s(1)] by (simp add: own_inv_def)
    show "state_inv ?s" using iw_invD(4) [OF s(1)] w d by (cases "dst s") (simp_all add: state_inv_def)
    show "room_inv ?s" using iw_invD(5) [OF s(1)] by (simp add: room_inv_def)
    show "qp_inv ?s" using iw_invD(6) [OF s(1)] by (simp add: qp_inv_def)
  qed
  then show "\<exists>s'. iw_do W_test s = Some s' \<and> iw_inv s'" using eq by blast
qed

lemma cm_event_handler_cases:
  assumes "cm_event_handler ok ev c0 = Some (err, queue, c)"
  shows "if err = None then work_list c = work_list c0 @ [ev] \<and> (queue \<longleftrightarrow> work_list c0 = []) \<and> Suc (work_free c) = work_free c0 \<and> iw_ref c = Suc (iw_ref c0) \<and>
      iw_state c = iw_state c0 \<and> drop_events c = drop_events c0 \<and> connect_wait c = connect_wait c0 \<and> iw_qp c = iw_qp c0 \<and>
      iw_freed c = iw_freed c0 \<and> qp_added c = qp_added c0 \<and> qp_removed c = qp_removed c0
    else c = c0 \<and> \<not> queue \<and> (work_free c0 = 0 \<or> \<not> ok \<and> ev_private_data_len ev \<noteq> 0)"
  using assms by (auto simp: cm_event_handler_def get_work_def put_work_def Let_def split: option.splits if_splits)

lemma cm_event_handler_def': "\<not> iw_freed c \<Longrightarrow> \<exists>err queue c'. cm_event_handler ok ev c = Some (err, queue, c')"
  by (auto simp: cm_event_handler_def Let_def split: option.split)

lemma step_event: "step_ok (P_event ok ev)"
proof (rule step_okI)
  fix s assume s: "iw_inv s" "iw_may (P_event ok ev) s"
  then obtain p' where p': "prov_after (prov s) ev = Some p'" "0 < prefs s" by auto
  obtain err queue c where h: "cm_event_handler ok ev (cm s) = Some (err, queue, c)"
    using cm_event_handler_def' inv_prefs [OF s(1) p'(2)] by blast
  note C = cm_event_handler_cases [OF h]
  show "\<exists>s'. iw_do (P_event ok ev) s = Some s' \<and> iw_inv s'"
  proof (cases err)
    case (Some x)
    then have c: "c = cm s" "\<not> queue" using C by simp_all
    have "iw_do (P_event ok ev) s = Some (s\<lparr>cm := cm s, pend := pend s, prov := prov s\<rparr>)" using h Some c by simp
    moreover have "s\<lparr>cm := cm s, pend := pend s, prov := prov s\<rparr> = s" by simp
    ultimately show ?thesis using s(1) by metis
  next
    case None
    then have c: "work_list c = work_list (cm s) @ [ev]" "queue \<longleftrightarrow> work_list (cm s) = []" "work_free (cm s) = Suc (work_free c)" "iw_ref c = Suc (iw_ref (cm s))"
      "iw_state c = iw_state (cm s)" "drop_events c = drop_events (cm s)" "connect_wait c = connect_wait (cm s)" "iw_qp c = iw_qp (cm s)"
      "iw_freed c = iw_freed (cm s)" "qp_added c = qp_added (cm s)" "qp_removed c = qp_removed (cm s)" using C by simp_all
    have live: "live_ok st acc (prov s) Q \<Longrightarrow> live_ok st acc p' (Q @ [ev])" for st acc Q by (rule live_ok_snoc [OF _ p'(1)])
    have left: "events_left p' = 0 \<or> Suc (events_left p') \<le> events_left (prov s) \<and> 0 < events_left (prov s)" "p' \<noteq> Pr_connect" "p' \<noteq> Pr_accept"
      using p'(1) by (auto simp: prov_after.simps split: iw_cm_event_type.splits if_splits)
    have busy: "prov s \<noteq> Pr_none \<and> prov s \<noteq> Pr_done" using p'(1) by auto
    let ?s = "s\<lparr>cm := c, pend := if queue then pend s + 1 else pend s, prov := p'\<rparr>"
    have "iw_do (P_event ok ev) s = Some ?s" using None h p'(1) by simp
    moreover have "iw_inv ?s"
    proof (rule iw_invI)
      show "ref_inv ?s" using iw_invD(1) [OF s(1)] inv_prefs [OF s(1) p'(2)] by (simp add: ref_inv_def c)
      show "pend_inv (wk ?s) (pend ?s) (work_list (cm ?s))" using iw_invD(2) [OF s(1)] by (simp add: pend_inv_def c split: if_splits)
      have "\<not> (dst s = D_none \<and> fresh s)" using iw_invD(3) [OF s(1)] busy by (auto simp: own_inv_def)
      moreover have "\<not> (dst s = D_none \<and> from_req s \<and> \<not> accepted s)"
        using iw_invD(3,4) [OF s(1)] busy by (auto simp: own_inv_def state_inv_def)
      ultimately show "own_inv ?s" using iw_invD(3) [OF s(1)] by (auto simp: own_inv_def c)
      show "state_inv ?s" using iw_invD(4) [OF s(1)] live by (cases "dst s") (auto simp: state_inv_def c simp flip: append_assoc)
      show "room_inv ?s" using iw_invD(5) [OF s(1)] left p'(2) by (auto simp: room_inv_def c)
      show "qp_inv ?s" using iw_invD(6) [OF s(1)] by (simp add: qp_inv_def c)
    qed
    ultimately show ?thesis by blast
  qed
qed

text \<open>A reference is given back; the identifier is freed with the last one.\<close>

definition same_id :: "iwcm_id_private \<Rightarrow> iwcm_id_private \<Rightarrow> bool" where
  "same_id c d \<longleftrightarrow> iw_state c = iw_state d \<and> work_list c = work_list d \<and> drop_events c = drop_events d \<and> connect_wait c = connect_wait d \<and>
     iw_qp c = iw_qp d \<and> qp_added c = qp_added d \<and> qp_removed c = qp_removed d"

lemma same_idD:
  assumes "same_id c d"
  shows "iw_state c = iw_state d" "work_list c = work_list d" "drop_events c = drop_events d" "connect_wait c = connect_wait d"
    "iw_qp c = iw_qp d" "qp_added c = qp_added d" "qp_removed c = qp_removed d"
  using assms by (simp_all add: same_id_def)

lemma deref_cases:
  assumes "\<not> iw_freed c" "0 < iw_ref c" "iw_ref c = 1 \<Longrightarrow> work_list c = []"
  shows "\<exists>d. iwcm_deref_id c = Some (iw_ref c = 1, d) \<and> same_id d c \<and> iw_ref d = iw_ref c - 1 \<and> iw_freed d = (iw_ref c = 1) \<and>
    (iw_ref c \<noteq> 1 \<longrightarrow> work_free d = work_free c)"
  using assms by (auto simp: iwcm_deref_id_def same_id_def free_cm_id_def dealloc_work_entries_def Let_def)

text \<open>Steps that change the worker, the destroyer, the reference count and the provider's references only.\<close>

lemma inv_put:
  assumes s: "iw_inv s" and c: "same_id c (cm s)" "work_free c = work_free (cm s) \<or> iw_freed c"
    and r: "iw_ref c = (if dst s' = D_done then 0 else 1) + length (work_list (cm s)) + holds (wk s') + prefs s'" "iw_freed c \<longleftrightarrow> iw_ref c = 0"
    and s': "cm s' = c" "prov s' = prov s \<or> prov s' = Pr_done \<and> dst s' = D_done" "call s' = call s" "owned s' = owned s" "req_cb s' = req_cb s" "fresh s' = fresh s" "from_req s' = from_req s" "accepted s' = accepted s"
    and d: "dst s' = dst s \<or> (\<exists>q down. dst s = D_down q down) \<and> dst s' = D_done \<and> opt_mset None = dying_qp (dst s)"
    and w: "cur (wk s') = cur (wk s) \<or> dst s \<noteq> D_none" "pend_inv (wk s') (pend s') (work_list (cm s))" "dead_ok (iw_state (cm s)) (wk s) \<Longrightarrow> dead_ok (iw_state (cm s)) (wk s')"
    and p: "prov s' = Pr_up \<or> prov s' = Pr_disc \<Longrightarrow> 0 < prefs s'" and kill: "kills (wk s') \<Longrightarrow> kills (wk s)"
  shows "iw_inv s'"
proof (rule iw_invI)
  note C = same_idD [OF c(1)]
  have dn: "dst s' = D_none \<longleftrightarrow> dst s = D_none" using d by auto
  show "ref_inv s'" using r by (simp add: ref_inv_def s' C)
  show "pend_inv (wk s') (pend s') (work_list (cm s'))" using w(2) by (simp add: s' C)
  have nf: "dst s = D_none \<Longrightarrow> \<not> iw_freed c" using r dn by auto
  have "dst s = D_none \<Longrightarrow> work_free c = work_free (cm s) \<and> prov s' = prov s" using nf c(2) s'(2) dn by auto
  then show "own_inv s'" using iw_invD(3) [OF s] d kill unfolding own_inv_def s' C dn by metis
  show "state_inv s'" using iw_invD(4) [OF s] d w(1,3) s'(2) unfolding state_inv_def s' C by (cases "dst s") auto
  have "0 < events_left (prov s') \<Longrightarrow> \<not> iw_freed c"
  proof
    assume e: "0 < events_left (prov s')" "iw_freed c"
    then have "prefs s' = 0" "dst s = D_none \<Longrightarrow> False" using r nf by auto
    then have "prov s' = Pr_connect \<or> prov s' = Pr_accept" "dst s \<noteq> D_none" using e(1) p by (cases "prov s'"; auto)+
    then show False using iw_invD(5) [OF s] s'(2) by (auto simp: room_inv_def)
  qed
  then have e: "0 < events_left (prov s') \<Longrightarrow> work_free c = work_free (cm s) \<and> prov s' = prov s" using c(2) s'(2) by auto
  have q: "dst s \<noteq> D_none \<Longrightarrow> prov s' \<noteq> Pr_connect \<and> prov s' \<noteq> Pr_accept" using iw_invD(5) [OF s] s'(2) by (auto simp: room_inv_def)
  show "room_inv s'" unfolding room_inv_def s'(1) C dn using iw_invD(5) [OF s] e p q unfolding room_inv_def by metis
  show "qp_inv s'" using iw_invD(6) [OF s] d by (auto simp: qp_inv_def s' C)
qed

lemma step_rem_ref: "step_ok P_rem_ref"
proof (rule step_okI)
  fix s assume s: "iw_inv s" "iw_may P_rem_ref s"
  then have p: "0 < prefs s" by auto
  note N = inv_prefs [OF s(1) p]
  note R = iw_invD(1) [OF s(1)]
  have l: "iw_ref (cm s) = 1 \<Longrightarrow> work_list (cm s) = []" using R p by (cases "work_list (cm s)") (simp_all add: ref_inv_def)
  obtain d where d: "iwcm_deref_id (cm s) = Some (iw_ref (cm s) = 1, d)" "same_id d (cm s)" "iw_ref d = iw_ref (cm s) - 1" "iw_freed d = (iw_ref (cm s) = 1)"
    "iw_ref (cm s) \<noteq> 1 \<longrightarrow> work_free d = work_free (cm s)"
    using deref_cases [OF conjunct1 [OF N] conjunct2 [OF N] l] by blast
  have "iw_inv (s\<lparr>cm := d, prefs := prefs s - 1\<rparr>)"
    by (rule inv_put [OF s(1) d(2)]) (use d R N p s(2) iw_invD(2) [OF s(1)] in \<open>auto simp: ref_inv_def\<close>)
  then show "\<exists>s'. iw_do P_rem_ref s = Some s' \<and> iw_inv s'" using d(1) by (simp add: rem_ref_def)
qed

lemma step_deref: "step_ok W_deref"
proof (rule step_okI)
  fix s assume s: "iw_inv s" "iw_may W_deref s"
  then obtain e where w: "wk s = Wk_put e" by (auto split: worker.splits)
  then have h: "holds (wk s) = 1" by (simp add: holds_def)
  note N = inv_holds [OF s(1) h]
  note R = iw_invD(1) [OF s(1)]
  note P = iw_invD(2) [OF s(1)]
  have l: "iw_ref (cm s) = 1 \<Longrightarrow> work_list (cm s) = []" using R h by (cases "work_list (cm s)") (simp_all add: ref_inv_def)
  obtain d where d: "iwcm_deref_id (cm s) = Some (iw_ref (cm s) = 1, d)" "same_id d (cm s)" "iw_ref d = iw_ref (cm s) - 1" "iw_freed d = (iw_ref (cm s) = 1)"
    "iw_ref (cm s) \<noteq> 1 \<longrightarrow> work_free d = work_free (cm s)"
    using deref_cases [OF conjunct1 [OF N] conjunct2 [OF N] l] by blast
  let ?w = "if iw_ref (cm s) = 1 \<or> e then Wk_idle else Wk_again"
  have "iw_inv (s\<lparr>cm := d, wk := ?w\<rparr>)"
  proof (rule inv_put [OF s(1) d(2)])
    show "pend_inv (wk (s\<lparr>cm := d, wk := ?w\<rparr>)) (pend (s\<lparr>cm := d, wk := ?w\<rparr>)) (work_list (cm s))"
      using P w l by (auto simp: pend_inv_def split: if_splits)
    show "kills (wk (s\<lparr>cm := d, wk := ?w\<rparr>)) \<Longrightarrow> kills (wk s)" by (simp split: if_splits)
  qed (use d R N h w iw_invD(5) [OF s(1)] in \<open>auto simp: ref_inv_def holds_def room_inv_def\<close>)
  then show "\<exists>s'. iw_do W_deref s = Some s' \<and> iw_inv s'" using d(1) w by simp
qed

lemma step_killed: "step_ok W_killed"
proof (rule step_okI)
  fix s assume s: "iw_inv s" "iw_may W_killed s"
  then obtain e where w: "wk s = Wk_kill e" by (auto split: worker.splits)
  have "iw_inv (s\<lparr>wk := Wk_put e\<rparr>)"
    by (rule inv_put [OF s(1), of "cm s"])
      (use w iw_invD(1,2,5) [OF s(1)] in \<open>auto simp: same_id_def ref_inv_def holds_def room_inv_def pend_inv_def split: if_splits\<close>)
  then show "\<exists>s'. iw_do W_killed s = Some s' \<and> iw_inv s'" using w by simp
qed

text \<open>The start of the destruction.\<close>

lemma live_dead:
  assumes "live_ok st acc p (cur w @ l)" "st \<noteq> IW_CM_STATE_CONN_SENT" "\<not> (st = IW_CM_STATE_CONN_RECV \<and> acc)"
  shows "dead_ok st w \<and> st \<noteq> IW_CM_STATE_DESTROYING \<and> p \<noteq> Pr_connect \<and> p \<noteq> Pr_accept"
proof (cases st)
  case IW_CM_STATE_LISTEN
  then show ?thesis using assms(1) by (cases w) (auto simp: req_ok_def)
next
  case IW_CM_STATE_ESTABLISHED
  then have t: "tail_ok p (cur w @ l)" using assms(1) by simp
  then have "p \<noteq> Pr_connect \<and> p \<noteq> Pr_accept" by (cases "(p, cur w @ l)" rule: tail_ok.cases) auto
  then show ?thesis using t IW_CM_STATE_ESTABLISHED by (cases w) (auto simp: tail_ok_Cons)
next
  case IW_CM_STATE_CLOSING
  then have t: "tail_ok p (cur w @ l) \<or> disc_ok p (cur w @ l)" using assms(1) by simp
  then have "p \<noteq> Pr_connect \<and> p \<noteq> Pr_accept"
    by (cases "(p, cur w @ l)" rule: tail_ok.cases) auto
  moreover have "disc_ok p (ev # l) \<Longrightarrow> ev_event ev = IW_CM_EVENT_CLOSE" for ev by (cases l) auto
  ultimately show ?thesis using t IW_CM_STATE_CLOSING by (cases w) (auto simp: tail_ok_Cons)
qed (use assms in \<open>cases w; auto split: if_splits\<close>)+

lemma inv_destroy:
  assumes s: "iw_inv s" and d: "dst s = D_none" "call s = No_call" "\<not> connect_wait (cm s)"
  shows "iw_inv (s\<lparr>cm := (cm s)\<lparr>drop_events := True\<rparr>, owned := False, dst := D_drop\<rparr>)" (is "iw_inv ?s")
proof -
  have st: "live_ok (iw_state (cm s)) (accepted s) (prov s) (cur (wk s) @ work_list (cm s))" "iw_state (cm s) \<noteq> IW_CM_STATE_CONN_SENT"
    "\<not> (iw_state (cm s) = IW_CM_STATE_CONN_RECV \<and> accepted s)"
    using iw_invD(4) [OF s] d by (auto simp: state_inv_def)
  note L = live_dead [OF st]
  show ?thesis
  proof (rule iw_invI)
    show "ref_inv ?s" using iw_invD(1) [OF s] d(1) by (simp add: ref_inv_def)
    show "pend_inv (wk ?s) (pend ?s) (work_list (cm ?s))" using iw_invD(2) [OF s] by simp
    show "own_inv ?s" using iw_invD(3) [OF s] d(2) by (simp add: own_inv_def)
    show "state_inv ?s" using L st(2) by (simp add: state_inv_def)
    show "room_inv ?s" using iw_invD(5) [OF s] L by (simp add: room_inv_def)
    show "qp_inv ?s" using iw_invD(6) [OF s] d(1) by (simp add: qp_inv_def)
  qed
qed

lemma step_destroy: "step_ok A_destroy"
proof (rule step_okI)
  fix s assume s: "iw_inv s" "iw_may A_destroy s"
  then have o: "owned s" "call s = No_call" "\<not> connect_wait (cm s)" by simp_all
  note N = inv_owned [OF s(1) o(1)]
  then show "\<exists>s'. iw_do A_destroy s = Some s' \<and> iw_inv s'" using inv_destroy [OF s(1) _ o(2,3)] by (simp add: destroy_enter_def)
qed

lemma step_worker_destroy: "step_ok W_destroy"
proof (rule step_okI)
  fix s assume s: "iw_inv s" "iw_may W_destroy s"
  then obtain e where w: "wk s = Wk_kill e" "dst s = D_none" "\<not> connect_wait (cm s)" by (auto split: worker.splits)
  have o: "\<not> owned s" "call s = No_call" using iw_invD(3) [OF s(1)] w(1) by (auto simp: own_inv_def)
  have "\<not> iw_freed (cm s)" using inv_live [OF s(1)] w(2) by simp
  moreover have "s\<lparr>cm := (cm s)\<lparr>drop_events := True\<rparr>, dst := D_drop\<rparr> = s\<lparr>cm := (cm s)\<lparr>drop_events := True\<rparr>, owned := False, dst := D_drop\<rparr>"
    using o(1) by (cases s) simp
  ultimately show "\<exists>s'. iw_do W_destroy s = Some s' \<and> iw_inv s'" using inv_destroy [OF s(1) w(2) o(2) w(3)] by (simp add: destroy_enter_def)
qed

lemma dead_destroying: "dead_ok st w \<Longrightarrow> dead_ok IW_CM_STATE_DESTROYING w"
  by (cases w) (auto split: iw_cm_event_type.splits)

lemma step_lock: "step_ok D_lock"
proof (rule step_okI)
  fix s assume s: "iw_inv s" "iw_may D_lock s"
  then have d: "dst s = D_drop" by simp
  have nf: "\<not> iw_freed (cm s)" using inv_live [OF s(1)] d by simp
  have st: "dead_ok (iw_state (cm s)) (wk s)" "iw_state (cm s) \<noteq> IW_CM_STATE_CONN_SENT" "iw_state (cm s) \<noteq> IW_CM_STATE_DESTROYING"
    using iw_invD(4) [OF s(1)] d by (auto simp: state_inv_def)
  let ?c = "(cm s)\<lparr>iw_qp := None, iw_state := IW_CM_STATE_DESTROYING\<rparr>"
  obtain down where l: "destroy_locked (cm s) = Some (iw_qp (cm s), down, ?c)" using nf st by (cases "iw_state (cm s)") (auto simp: destroy_locked_def Let_def)
  let ?s = "s\<lparr>cm := ?c, dst := D_down (iw_qp (cm s)) down\<rparr>"
  have "iw_inv ?s"
  proof (rule iw_invI)
    show "ref_inv ?s" using iw_invD(1) [OF s(1)] d by (simp add: ref_inv_def)
    show "pend_inv (wk ?s) (pend ?s) (work_list (cm ?s))" using iw_invD(2) [OF s(1)] by simp
    show "own_inv ?s" using iw_invD(3) [OF s(1)] d by (auto simp: own_inv_def)
    show "state_inv ?s" using dead_destroying [OF st(1)] by (simp add: state_inv_def)
    show "room_inv ?s" using iw_invD(5) [OF s(1)] d by (simp add: room_inv_def)
    show "qp_inv ?s" using iw_invD(6) [OF s(1)] d by (simp add: qp_inv_def)
  qed
  then show "\<exists>s'. iw_do D_lock s = Some s' \<and> iw_inv s'" using l by simp
qed

lemma step_finish: "step_ok D_finish"
proof (rule step_okI)
  fix s assume s: "iw_inv s" "iw_may D_finish s"
  then obtain q down where d: "dst s = D_down q down" by (auto split: destroyer.splits)
  note N = inv_live [OF s(1)]
  define c1 where "c1 = qp_put q (if down = Down_modify_err then iwcm_modify_qp_err q (cm s) else cm s)"
  have c1: "iw_state c1 = iw_state (cm s)" "work_list c1 = work_list (cm s)" "work_free c1 = work_free (cm s)" "iw_ref c1 = iw_ref (cm s)"
    "iw_freed c1 = iw_freed (cm s)" "drop_events c1 = drop_events (cm s)" "connect_wait c1 = connect_wait (cm s)" "iw_qp c1 = iw_qp (cm s)"
    "qp_added c1 = qp_added (cm s)" "mset (qp_removed c1) = mset (qp_removed (cm s)) + opt_mset q"
    by (simp_all add: c1_def)
  let ?t = "s\<lparr>cm := c1, dst := D_down None down\<rparr>"
  have t: "iw_inv ?t"
  proof (rule iw_invI)
    show "ref_inv ?t" using iw_invD(1) [OF s(1)] d by (simp add: ref_inv_def c1)
    show "pend_inv (wk ?t) (pend ?t) (work_list (cm ?t))" using iw_invD(2) [OF s(1)] by (simp add: c1)
    show "own_inv ?t" using iw_invD(3) [OF s(1)] d by (auto simp: own_inv_def c1)
    have "state_ok (D_down None down) (iw_state (cm s)) (accepted s) (prov s) (wk s) (work_list (cm s)) (connect_wait (cm s)) (call s)"
      using iw_invD(4) [OF s(1)] d unfolding state_inv_def by auto
    then show "state_inv ?t" unfolding state_inv_def by (simp del: state_ok.simps add: c1)
    show "room_inv ?t" using iw_invD(5) [OF s(1)] d by (simp add: room_inv_def c1)
    show "qp_inv ?t" using iw_invD(6) [OF s(1)] d by (simp add: qp_inv_def c1)
  qed
  note R = iw_invD(1) [OF t]
  have l: "iw_ref c1 = 1 \<Longrightarrow> work_list c1 = []" using R by (cases "work_list c1") (simp_all add: ref_inv_def)
  have n: "\<not> iw_freed c1" "0 < iw_ref c1" using N d by (simp_all add: c1)
  obtain e where e: "iwcm_deref_id c1 = Some (iw_ref c1 = 1, e)" "same_id e c1" "iw_ref e = iw_ref c1 - 1" "iw_freed e = (iw_ref c1 = 1)"
    "iw_ref c1 \<noteq> 1 \<longrightarrow> work_free e = work_free c1"
    using deref_cases [OF n l] by blast
  let ?s = "s\<lparr>cm := e, dst := D_done, prov := prov_down down (prov s)\<rparr>"
  have pd: "prov_down down (prov s) = prov s \<or> prov_down down (prov s) = Pr_done" by (simp add: prov_down_def)
  have up: "prov s = Pr_up \<or> prov s = Pr_disc \<Longrightarrow> 0 < prefs s" using iw_invD(5) [OF s(1)] by (simp add: room_inv_def)
  have "iw_inv ?s"
  proof (rule inv_put [OF t])
    show "prov ?s = Pr_up \<or> prov ?s = Pr_disc \<Longrightarrow> 0 < prefs ?s" using pd up by auto
  qed (use e R n iw_invD(2) [OF t] pd in \<open>auto simp: ref_inv_def\<close>)
  then show "\<exists>s'. iw_do D_finish s = Some s' \<and> iw_inv s'" using d e(1) n(1) by (simp add: destroy_finish_def c1_def [symmetric] c1(5) [symmetric])
qed

text \<open>The handling of an event, for a live identifier and for one that is being destroyed.\<close>

lemma refuse_child:
  assumes "iw_state c = IW_CM_STATE_CONN_RECV" "\<not> iw_freed c" "iw_ref c = 1" "work_list c = []"
  shows "\<exists>d. refuse_cm_id c = Some (True, d) \<and> iw_freed d"
  using assms by (simp add: refuse_cm_id_def reject_enter_def reject_leave_def destroy_cm_id_def destroy_enter_def destroy_locked_def destroy_finish_def
      iwcm_deref_id_def free_cm_id_def dealloc_work_entries_def Let_def)

lemma child_id_simps [simp]:
  "iw_state (fst (child_id i l ev)) = IW_CM_STATE_CONN_RECV" "work_free (fst (child_id i l ev)) = 0" "work_list (fst (child_id i l ev)) = []"
  "iw_ref (fst (child_id i l ev)) = 1" "\<not> iw_freed (fst (child_id i l ev))" "\<not> drop_events (fst (child_id i l ev))"
  "\<not> connect_wait (fst (child_id i l ev))" "iw_qp (fst (child_id i l ev)) = None" "qp_added (fst (child_id i l ev)) = []"
  "qp_removed (fst (child_id i l ev)) = []"
  by (simp_all add: child_id_def iw_create_cm_id_def Let_def split: option.split)

lemma conn_req_returns:
  assumes "ev_status ev = 0"
  shows "\<exists>child. cm_conn_req_handler kz info km listen ev = Some child"
proof -
  define c where "c = fst (child_id info listen ev)"
  obtain d where d: "refuse_cm_id c = Some (True, d)" using refuse_child [of c] by (auto simp: c_def)
  have w: "c\<lparr>work_free := 0\<rparr> = c" using child_id_simps(2) [of info listen ev] unfolding c_def by (cases "fst (child_id info listen ev)") simp
  consider "alloc_work_entries km 3 c = Some (Some ENOMEM, c)" | "alloc_work_entries km 3 c = Some (None, c\<lparr>work_free := 3\<rparr>)"
    using alloc_loop_eq [of km 3 c] w by (auto simp: alloc_work_entries_def c_def)
  then show ?thesis using assms d by cases (auto simp: cm_conn_req_handler_def Let_def c_def split: prod.split)
qed

lemma process_frame:
  assumes "process_event kz info km ev c = Some (cb, d)"
  shows "work_list d = work_list c" "work_free d = work_free c" "iw_ref d = iw_ref c" "iw_freed d = iw_freed c" "drop_events d = drop_events c"
    "qp_added d = qp_added c" "mset (qp_removed d) + opt_mset (iw_qp d) = mset (qp_removed c) + opt_mset (iw_qp c)"
    "iw_qp d = None \<or> iw_qp d = iw_qp c \<and> (iw_state d = iw_state c \<or> iw_state d = IW_CM_STATE_ESTABLISHED \<or> iw_state d = IW_CM_STATE_CLOSING)"
  using assms
  by (auto simp: process_event_def free_private_data_def cm_conn_rep_handler_def cm_conn_est_handler_def cm_disconnect_handler_def cm_close_handler_def
      Let_def split: iw_cm_event_type.splits if_splits option.splits)

lemmas handler_defs = process_event_def free_private_data_def cm_conn_rep_handler_def cm_conn_est_handler_def cm_disconnect_handler_def
  cm_close_handler_def Let_def

lemma disc_ok_Cons: "disc_ok p (a # T) \<longleftrightarrow> ev_event a = IW_CM_EVENT_CLOSE \<and> T = [] \<and> p = Pr_done"
  by (cases T) auto

lemma process_live:
  assumes "live_ok (iw_state c) acc p (ev # l)" "\<not> iw_freed c" "connect_wait c \<longleftrightarrow> iw_state c = IW_CM_STATE_CONN_SENT \<or> iw_state c = IW_CM_STATE_CONN_RECV \<and> acc"
  shows "\<exists>cb d. process_event kz info km ev c = Some (cb, d) \<and> live_ok (iw_state d) acc p l \<and> \<not> connect_wait d \<and>
    (iw_state d = IW_CM_STATE_LISTEN \<and> iw_state c = IW_CM_STATE_LISTEN \<and> cb = None \<or> iw_state d \<in> {IW_CM_STATE_IDLE, IW_CM_STATE_ESTABLISHED, IW_CM_STATE_CLOSING} \<and> iw_state c \<noteq> IW_CM_STATE_LISTEN)"
proof (cases "iw_state c")
  case IW_CM_STATE_LISTEN
  then show ?thesis using assms conn_req_returns [of ev kz info km c] by (auto simp: handler_defs req_ok_def)
next
  case IW_CM_STATE_CONN_SENT
  then show ?thesis using assms by (auto simp: handler_defs rep_ok_def)
next
  case IW_CM_STATE_CONN_RECV
  then show ?thesis using assms by (auto simp: handler_defs est_ok_def split: if_splits)
next
  case IW_CM_STATE_ESTABLISHED
  then show ?thesis using assms by (auto simp: handler_defs tail_ok_Cons)
next
  case IW_CM_STATE_CLOSING
  then show ?thesis using assms by (auto simp: handler_defs tail_ok_Cons disc_ok_Cons)
qed (use assms in auto)

lemma process_dead:
  assumes "dead_ok (iw_state c) (Wk_run ev e)" "\<not> iw_freed c"
  obtains cb d where "process_event kz info km ev c = Some (cb, d)" "iw_state d = IW_CM_STATE_DESTROYING \<longleftrightarrow> iw_state c = IW_CM_STATE_DESTROYING"
    "iw_state d = IW_CM_STATE_CONN_SENT \<longrightarrow> iw_state c = IW_CM_STATE_CONN_SENT"
proof -
  have "case process_event kz info km ev c of None \<Rightarrow> False | Some (cb, d) \<Rightarrow> (iw_state d = IW_CM_STATE_DESTROYING \<longleftrightarrow> iw_state c = IW_CM_STATE_DESTROYING) \<and>
    (iw_state d = IW_CM_STATE_CONN_SENT \<longrightarrow> iw_state c = IW_CM_STATE_CONN_SENT)"
    using assms conn_req_returns [of ev kz info km c] by (cases "ev_event ev") (auto simp: handler_defs)
  then show ?thesis using that by (auto split: option.splits)
qed

lemma state_dead: "iw_inv s \<Longrightarrow> dst s \<noteq> D_none \<Longrightarrow> dead_ok (iw_state (cm s)) (wk s)"
  by (cases "dst s") (auto simp: state_inv_def iw_inv_def)

lemma inv_process:
  assumes s: "iw_inv s" and w: "wk s = Wk_run ev e" and d: "process_event kz info km ev (cm s) = Some (cb, d)"
    and own: "dst s = D_none \<Longrightarrow> \<not> fresh s \<and> (from_req s \<longrightarrow> accepted s) \<and> call s \<noteq> In_reject \<and> (call s = In_listen \<longrightarrow> iw_state d = IW_CM_STATE_LISTEN)"
    and st: "state_ok (dst s) (iw_state d) (accepted s) (prov s) (case cb of None \<Rightarrow> Wk_put e | Some ev \<Rightarrow> Wk_call ev e) (work_list (cm s)) (connect_wait d) (call s)"
  shows "iw_inv (s\<lparr>cm := d, wk := case cb of None \<Rightarrow> Wk_put e | Some ev \<Rightarrow> Wk_call ev e\<rparr>)" (is "iw_inv ?s")
proof (rule iw_invI)
  note F = process_frame [OF d]
  have wk: "holds (wk ?s) = 1" "loops (wk ?s) = loops (wk s)" "\<not> kills (wk ?s)" by (simp_all add: w holds_def split: option.split)
  have k: "call s \<noteq> No_call \<Longrightarrow> dst s = D_none" using inv_owned [OF s] inv_call [OF s] by blast
  show "ref_inv ?s" using iw_invD(1) [OF s] wk(1) by (simp add: ref_inv_def F w holds_def [of "Wk_run ev e"])
  show "pend_inv (wk ?s) (pend ?s) (work_list (cm ?s))" using iw_invD(2) [OF s] wk(2) by (simp add: pend_inv_def F)
  show "own_inv ?s" using iw_invD(3) [OF s] own k wk(3) unfolding own_inv_def by (cases "dst s = D_none") (auto simp: F)
  show "state_inv ?s" using st by (simp add: state_inv_def F)
  show "room_inv ?s" using iw_invD(5) [OF s] by (simp add: room_inv_def F)
  show "qp_inv ?s" using iw_invD(6) [OF s] F(7,8) by (auto simp: qp_inv_def F(6))
qed

lemma step_process: "step_ok (W_process kz info km)"
proof (rule step_okI)
  fix s assume s: "iw_inv s" "iw_may (W_process kz info km) s"
  then obtain ev e where w: "wk s = Wk_run ev e" by (auto split: worker.splits)
  have nf: "\<not> iw_freed (cm s)" using inv_holds [OF s(1)] w by (simp add: holds_def)
  note O = iw_invD(3) [OF s(1)] note S = iw_invD(4) [OF s(1)]
  have "\<exists>cb d. process_event kz info km ev (cm s) = Some (cb, d) \<and>
    (dst s = D_none \<longrightarrow> \<not> fresh s \<and> (from_req s \<longrightarrow> accepted s) \<and> call s \<noteq> In_reject \<and> (call s = In_listen \<longrightarrow> iw_state d = IW_CM_STATE_LISTEN)) \<and>
    state_ok (dst s) (iw_state d) (accepted s) (prov s) (case cb of None \<Rightarrow> Wk_put e | Some ev \<Rightarrow> Wk_call ev e) (work_list (cm s)) (connect_wait d) (call s)"
  proof (cases "dst s = D_none")
    case True
    have L: "live_ok (iw_state (cm s)) (accepted s) (prov s) (ev # work_list (cm s))" using S w True by (simp add: state_inv_def)
    then have i: "iw_state (cm s) \<noteq> IW_CM_STATE_IDLE" "iw_state (cm s) = IW_CM_STATE_CONN_RECV \<longrightarrow> accepted s" by (auto split: if_splits)
    then have o: "\<not> fresh s" "from_req s \<longrightarrow> accepted s" "call s \<noteq> In_reject" "call s = In_listen \<longrightarrow> iw_state (cm s) = IW_CM_STATE_LISTEN"
      using O True by (auto simp: own_inv_def)
    have "connect_wait (cm s) \<longleftrightarrow> iw_state (cm s) = IW_CM_STATE_CONN_SENT \<or> iw_state (cm s) = IW_CM_STATE_CONN_RECV \<and> accepted s"
      using S o(3) True by (simp add: state_inv_def)
    from process_live [OF L nf this, of kz info km] show ?thesis using o True by (auto split: option.split)
  next
    case False
    have "dead_ok (iw_state (cm s)) (Wk_run ev e)" using state_dead [OF s(1) False] unfolding w .
    from process_dead [OF this nf, of kz info km] obtain cb d where d: "process_event kz info km ev (cm s) = Some (cb, d)" "iw_state d = IW_CM_STATE_DESTROYING \<longleftrightarrow> iw_state (cm s) = IW_CM_STATE_DESTROYING"
      "iw_state d = IW_CM_STATE_CONN_SENT \<longrightarrow> iw_state (cm s) = IW_CM_STATE_CONN_SENT" .
    have "dead_ok (iw_state d) (case cb of None \<Rightarrow> Wk_put e | Some ev \<Rightarrow> Wk_call ev e)" by (simp split: option.split)
    then show ?thesis using S False d by (cases "dst s") (auto simp: state_inv_def)
  qed
  then obtain cb d where d: "process_event kz info km ev (cm s) = Some (cb, d)"
    "dst s = D_none \<longrightarrow> \<not> fresh s \<and> (from_req s \<longrightarrow> accepted s) \<and> call s \<noteq> In_reject \<and> (call s = In_listen \<longrightarrow> iw_state d = IW_CM_STATE_LISTEN)"
    "state_ok (dst s) (iw_state d) (accepted s) (prov s) (case cb of None \<Rightarrow> Wk_put e | Some ev \<Rightarrow> Wk_call ev e) (work_list (cm s)) (connect_wait d) (call s)"
    by blast
  show "\<exists>s'. iw_do (W_process kz info km) s = Some s' \<and> iw_inv s'" using inv_process [OF s(1) w d(1) _ d(3)] d(1,2) w by simp
qed

lemma after_callback_simps [simp]: "same_id (after_callback ev c) c" "work_free (after_callback ev c) = work_free c" "iw_ref (after_callback ev c) = iw_ref c"
  "iw_freed (after_callback ev c) = iw_freed c"
  by (simp_all add: after_callback_def free_private_data_def same_id_def)

lemma step_return: "step_ok (W_return r)"
proof (rule step_okI)
  fix s assume s: "iw_inv s" "iw_may (W_return r) s"
  then obtain ev e where w: "wk s = Wk_call ev e" "r \<noteq> 0 \<longrightarrow> owned s \<and> call s = No_call" by (auto split: worker.splits)
  let ?c = "after_callback ev (cm s)"
  have t: "iw_inv (s\<lparr>cm := ?c, wk := Wk_put e\<rparr>)" (is "iw_inv ?t")
    by (rule inv_put [OF s(1), of ?c])
      (use w iw_invD(1,2,5) [OF s(1)] in \<open>auto simp: ref_inv_def holds_def room_inv_def pend_inv_def split: if_splits\<close>)
  show "\<exists>s'. iw_do (W_return r) s = Some s' \<and> iw_inv s'"
  proof (cases "r = 0")
    case False
    let ?s = "s\<lparr>cm := ?c, wk := Wk_kill e, owned := False\<rparr>"
    have "iw_inv ?s"
    proof (rule iw_invI)
      show "ref_inv ?s" using iw_invD(1) [OF t] by (simp add: ref_inv_def holds_def)
      show "pend_inv (wk ?s) (pend ?s) (work_list (cm ?s))" using iw_invD(2) [OF t] by (simp add: pend_inv_def)
      show "own_inv ?s" using iw_invD(3) [OF t] w(2) False by (simp add: own_inv_def)
      show "state_inv ?s" using iw_invD(4) [OF t] by (cases "dst s") (simp_all add: state_inv_def)
      show "room_inv ?s" using iw_invD(5) [OF t] by (simp add: room_inv_def)
      show "qp_inv ?s" using iw_invD(6) [OF t] by (simp add: qp_inv_def)
    qed
    then show ?thesis using w(1) False by simp
  qed (use t w(1) in simp)
qed

text \<open>Calls of the client, on an identifier that is not being destroyed.\<close>

definition same_refs :: "iwcm_id_private \<Rightarrow> iwcm_id_private \<Rightarrow> bool" where
  "same_refs c d \<longleftrightarrow> work_list c = work_list d \<and> iw_ref c = iw_ref d \<and> iw_freed c = iw_freed d \<and> drop_events c = drop_events d"

lemma inv_client:
  assumes s: "iw_inv s" "dst s = D_none" and c: "same_refs c (cm s)"
    and s': "cm s' = c" "dst s' = D_none" "wk s' = wk s" "pend s' = pend s" "prefs s' = prefs s" "prov s' = Pr_up \<or> prov s' = Pr_disc \<Longrightarrow> prov s' = prov s"
    and own: "own_inv s'"
    and live: "live_ok (iw_state c) (accepted s') (prov s') (cur (wk s) @ work_list (cm s))"
      "connect_wait c \<longleftrightarrow> iw_state c = IW_CM_STATE_CONN_SENT \<or> iw_state c = IW_CM_STATE_CONN_RECV \<and> accepted s' \<or> call s' = In_reject"
    and room: "0 < events_left (prov s') \<Longrightarrow> 3 \<le> work_free c + length (work_list (cm s)) \<and> length (work_list (cm s)) + events_left (prov s') \<le> 3"
    and qp: "qp_inv s'"
  shows "iw_inv s'"
proof (rule iw_invI)
  have C: "work_list c = work_list (cm s)" "iw_ref c = iw_ref (cm s)" "iw_freed c = iw_freed (cm s)" "drop_events c = drop_events (cm s)"
    using c by (simp_all add: same_refs_def)
  show "ref_inv s'" using iw_invD(1) [OF s(1)] s(2) by (simp add: ref_inv_def s'(1-5) C)
  show "pend_inv (wk s') (pend s') (work_list (cm s'))" using iw_invD(2) [OF s(1)] by (simp add: s'(1-5) C)
  show "state_inv s'" using live by (simp add: state_inv_def s'(1-3) C)
  have "prov s' = Pr_up \<or> prov s' = Pr_disc \<Longrightarrow> 0 < prefs s" using iw_invD(5) [OF s(1)] s'(6) by (auto simp: room_inv_def)
  then show "room_inv s'" using room unfolding room_inv_def s'(1,2,5) C by blast
qed (fact own qp)+

text \<open>What the invariant says about the identifier at the start of a call.\<close>

lemma inv_state:
  assumes "iw_inv s" "dst s = D_none"
  shows "live_ok (iw_state (cm s)) (accepted s) (prov s) (cur (wk s) @ work_list (cm s))"
    "connect_wait (cm s) \<longleftrightarrow> iw_state (cm s) = IW_CM_STATE_CONN_SENT \<or> iw_state (cm s) = IW_CM_STATE_CONN_RECV \<and> accepted s \<or> call s = In_reject"
  using iw_invD(4) [OF assms(1)] assms(2) by (simp_all add: state_inv_def)

lemma iw_inv_fresh:
  assumes "iw_inv s" "owned s" "fresh s" "call s = No_call"
  shows "iw_state (cm s) = IW_CM_STATE_IDLE" "work_free (cm s) = 0" "prov s = Pr_none" "\<not> from_req s" "cur (wk s) = []" "work_list (cm s) = []"
    "\<not> connect_wait (cm s)" "iw_qp (cm s) = None"
proof -
  have d: "dst s = D_none" using inv_owned [OF assms(1,2)] by simp
  show f: "iw_state (cm s) = IW_CM_STATE_IDLE" "work_free (cm s) = 0" "prov s = Pr_none" "\<not> from_req s"
    using iw_invD(3) [OF assms(1)] d assms(3) by (simp_all add: own_inv_def)
  show "cur (wk s) = []" "work_list (cm s) = []" "\<not> connect_wait (cm s)" using inv_state [OF assms(1) d] f(1) assms(4) by simp_all
  show "iw_qp (cm s) = None" using iw_invD(6) [OF assms(1)] f(1) by (simp add: qp_inv_def)
qed

lemma alloc_fresh:
  assumes "work_free c = 0"
  obtains "alloc_work_entries km n c = Some (Some ENOMEM, c)" | "alloc_work_entries km n c = Some (None, c\<lparr>work_free := n\<rparr>)"
proof -
  have "c\<lparr>work_free := 0\<rparr> = c" using assms by (cases c) simp
  then show ?thesis using that alloc_loop_eq [of km n c] assms by (auto simp: alloc_work_entries_def)
qed

lemma same_fresh: "fresh s \<Longrightarrow> s\<lparr>cm := cm s, fresh := True\<rparr> = s"
  by (cases s) simp

lemma step_listen: "step_ok (A_listen km n)"
proof (rule step_okI)
  fix s assume s: "iw_inv s" "iw_may (A_listen km n) s"
  then have m: "owned s" "call s = No_call" "fresh s" by simp_all
  note F = iw_inv_fresh [OF s(1) m(1,3,2)] note N = inv_owned [OF s(1) m(1)]
  let ?n = "if n = 0 then default_backlog else n"
  show "\<exists>s'. iw_do (A_listen km n) s = Some s' \<and> iw_inv s'"
  proof (cases rule: alloc_fresh [OF F(2), of km ?n])
    case 1
    then show ?thesis using s(1) N F(2) same_fresh [OF m(3)] by (simp add: listen_enter_def)
  next
    case 2
    let ?s = "s\<lparr>cm := (cm s)\<lparr>work_free := ?n, iw_state := IW_CM_STATE_LISTEN\<rparr>, fresh := False, call := In_listen, prov := Pr_listen0\<rparr>"
    have "iw_inv ?s"
    proof (rule inv_client [OF s(1)])
      show "own_inv ?s" using iw_invD(3) [OF s(1)] F(4) m by (simp add: own_inv_def)
      show "qp_inv ?s" using iw_invD(6) [OF s(1)] F(8) by (simp add: qp_inv_def)
    qed (use N F in \<open>auto simp: same_refs_def req_ok_def\<close>)
    then show ?thesis using 2 N F(1) by (simp add: listen_enter_def)
  qed
qed

lemma step_connect: "step_ok (A_connect km look)"
proof (rule step_okI)
  fix s assume s: "iw_inv s" "iw_may (A_connect km look) s"
  then have m: "owned s" "call s = No_call" "fresh s" by simp_all
  note F = iw_inv_fresh [OF s(1) m(1,3,2)] note N = inv_owned [OF s(1) m(1)]
  show "\<exists>s'. iw_do (A_connect km look) s = Some s' \<and> iw_inv s'"
  proof (cases rule: alloc_fresh [OF F(2), of km 4])
    case 1
    then show ?thesis using s(1) N F(2) same_fresh [OF m(3)] by (simp add: connect_enter_def)
  next
    case 2
    show ?thesis
    proof (cases look)
      case None
      let ?s = "s\<lparr>cm := (cm s)\<lparr>work_free := 4, connect_wait := False\<rparr>, fresh := False\<rparr>"
      have "iw_inv ?s"
      proof (rule inv_client [OF s(1)])
        show "own_inv ?s" using iw_invD(3) [OF s(1)] F(4) m by (simp add: own_inv_def)
        show "qp_inv ?s" using iw_invD(6) [OF s(1)] by (simp add: qp_inv_def)
      qed (use N F m in \<open>auto simp: same_refs_def\<close>)
      then show ?thesis using 2 N F(1) None by (simp add: connect_enter_def)
    next
      case (Some q)
      let ?s = "s\<lparr>cm := (qp_get q ((cm s)\<lparr>work_free := 4\<rparr>))\<lparr>connect_wait := True, iw_qp := Some q, iw_state := IW_CM_STATE_CONN_SENT\<rparr>,
        fresh := False, call := In_connect, prov := Pr_connect\<rparr>"
      have "iw_inv ?s"
      proof (rule inv_client [OF s(1)])
        show "own_inv ?s" using iw_invD(3) [OF s(1)] F(4) m by (simp add: own_inv_def qp_get_def)
        show "qp_inv ?s" using iw_invD(6) [OF s(1)] F(8) by (simp add: qp_inv_def qp_get_def)
      qed (use N F in \<open>auto simp: same_refs_def qp_get_def rep_ok_def\<close>)
      then show ?thesis using 2 N F(1) Some by (simp add: connect_enter_def)
    qed
  qed
qed

text \<open>The returns from the provider.\<close>

lemma map_frame:
  assumes "iw_cm_map pm active c = (err, d)"
  shows "same_id d c" "same_refs d c" "work_free d = work_free c"
  using assms by (auto simp: iw_cm_map_def Let_def same_id_def same_refs_def split: option.splits if_splits)

lemma inv_return:
  assumes s: "iw_inv s" "call s \<noteq> No_call" "call s \<noteq> In_reject" and c: "same_id c (cm s)" "same_refs c (cm s)" "work_free c = work_free (cm s)"
  shows "iw_inv (s\<lparr>cm := c, call := No_call\<rparr>)" (is "iw_inv ?s")
proof -
  have d: "dst s = D_none" using inv_owned [OF s(1) inv_call [OF s(1,2)]] by simp
  note C = same_idD [OF c(1)]
  show ?thesis
  proof (rule inv_client [OF s(1) d c(2)])
    show "own_inv ?s" using iw_invD(3) [OF s(1)] by (simp add: own_inv_def C c(3))
    show "qp_inv ?s" using iw_invD(6) [OF s(1)] by (simp add: qp_inv_def C)
    show "live_ok (iw_state c) (accepted ?s) (prov ?s) (cur (wk s) @ work_list (cm s))" using inv_state(1) [OF s(1) d] by (simp add: C)
    show "connect_wait c \<longleftrightarrow> iw_state c = IW_CM_STATE_CONN_SENT \<or> iw_state c = IW_CM_STATE_CONN_RECV \<and> accepted ?s \<or> call ?s = In_reject"
      using inv_state(2) [OF s(1) d] s(3) by (simp add: C)
    show "0 < events_left (prov ?s) \<Longrightarrow> 3 \<le> work_free c + length (work_list (cm s)) \<and> length (work_list (cm s)) + events_left (prov ?s) \<le> 3"
      using iw_invD(5) [OF s(1)] by (simp add: room_inv_def c(3))
  qed (simp_all add: d)
qed

text \<open>A call that the provider refuses brings the identifier back to idle, without its queue pair.\<close>

lemma inv_failed:
  assumes s: "iw_inv s" "call s \<noteq> No_call" "\<not> fresh s" "from_req s \<longrightarrow> accepted s" and q: "cur (wk s) = []" "work_list (cm s) = []"
    and c: "same_refs c (cm s)" "iw_state c = IW_CM_STATE_IDLE" "\<not> connect_wait c" "iw_qp c = None" "qp_added c = qp_added (cm s)"
      "mset (qp_removed c) = mset (qp_removed (cm s)) + opt_mset (iw_qp (cm s))"
  shows "iw_inv (s\<lparr>cm := c, call := No_call, prov := Pr_none\<rparr>)" (is "iw_inv ?s")
proof -
  have d: "dst s = D_none" using inv_owned [OF s(1) inv_call [OF s(1,2)]] by simp
  show ?thesis
  proof (rule inv_client [OF s(1) d c(1)])
    have "drop_events c = drop_events (cm s)" using c(1) by (simp add: same_refs_def)
    then show "own_inv ?s" using iw_invD(3) [OF s(1)] s(3,4) by (auto simp: own_inv_def)
    show "qp_inv ?s" using iw_invD(6) [OF s(1)] d by (simp add: qp_inv_def c)
  qed (simp_all add: d q c)
qed

lemma listen_state:
  assumes "iw_inv s" "call s = In_listen"
  shows "iw_state (cm s) = IW_CM_STATE_LISTEN" "\<not> fresh s" "from_req s \<longrightarrow> accepted s" "iw_qp (cm s) = None" "\<not> connect_wait (cm s)"
    "prov s = Pr_listen0 \<Longrightarrow> cur (wk s) = [] \<and> work_list (cm s) = []"
proof -
  have d: "dst s = D_none" using inv_owned [OF assms(1) inv_call [OF assms(1)]] assms(2) by simp
  show st: "iw_state (cm s) = IW_CM_STATE_LISTEN" using iw_invD(3) [OF assms(1)] assms(2) by (simp add: own_inv_def)
  then show "\<not> fresh s" "from_req s \<longrightarrow> accepted s" using iw_invD(3) [OF assms(1)] d by (auto simp: own_inv_def)
  show "iw_qp (cm s) = None" using iw_invD(6) [OF assms(1)] st by (simp add: qp_inv_def)
  show "\<not> connect_wait (cm s)" using inv_state(2) [OF assms(1) d] st assms(2) by simp
  show "prov s = Pr_listen0 \<Longrightarrow> cur (wk s) = [] \<and> work_list (cm s) = []" using inv_state(1) [OF assms(1) d] st by (simp add: req_ok_def)
qed

lemma step_listened: "step_ok (A_listened pm ret)"
proof (rule step_okI)
  fix s assume s: "iw_inv s" "iw_may (A_listened pm ret) s"
  then have k: "call s = In_listen" by simp
  have nf: "\<not> iw_freed (cm s)" using inv_owned [OF s(1) inv_call [OF s(1)]] k by simp
  obtain err d where e: "iw_cm_map pm False (cm s) = (err, d)" by fastforce
  note M = map_frame [OF e] note L = listen_state [OF s(1) k]
  have nd: "\<not> iw_freed d" using M(2) nf by (simp add: same_refs_def)
  let ?ret = "if err \<noteq> None then err else ret"
  show "\<exists>s'. iw_do (A_listened pm ret) s = Some s' \<and> iw_inv s'"
  proof (cases "?ret = None")
    case True
    have "iw_inv (s\<lparr>cm := d, call := No_call\<rparr>)" by (rule inv_return [OF s(1) _ _ M]) (simp_all add: k)
    moreover have "s\<lparr>cm := d, call := No_call, prov := prov s\<rparr> = s\<lparr>cm := d, call := No_call\<rparr>" by simp
    ultimately show ?thesis using e nd True by (auto simp: listen_leave_def split: if_splits)
  next
    case False
    then have p: "prov s = Pr_listen0" using s(2) e by (auto split: if_splits)
    have "iw_inv (s\<lparr>cm := d\<lparr>iw_state := IW_CM_STATE_IDLE\<rparr>, call := No_call, prov := Pr_none\<rparr>)"
      by (rule inv_failed [OF s(1) _ L(2,3)]) (use L p M same_idD [OF M(1)] in \<open>simp_all add: k same_refs_def\<close>)
    then show ?thesis using e nd False by (auto simp: listen_leave_def)
  qed
qed

lemma connect_state:
  assumes "iw_inv s" "dst s = D_none" "prov s = Pr_connect"
  shows "iw_state (cm s) = IW_CM_STATE_CONN_SENT" "cur (wk s) = []" "work_list (cm s) = []" "\<not> fresh s" "from_req s \<longrightarrow> accepted s"
proof -
  have "\<not> tail_ok Pr_connect Q" "\<not> disc_ok Pr_connect Q" for Q
    by (cases "(Pr_connect, Q)" rule: tail_ok.cases; simp) (cases "(Pr_connect, Q)" rule: disc_ok.cases; simp)
  then show st: "iw_state (cm s) = IW_CM_STATE_CONN_SENT" "cur (wk s) = []" "work_list (cm s) = []"
    using inv_state(1) [OF assms(1,2)] assms(3)
    by (cases "iw_state (cm s)"; cases "cur (wk s) @ work_list (cm s)"; auto simp: req_ok_def rep_ok_def est_ok_def split: if_splits)+
  show "\<not> fresh s" "from_req s \<longrightarrow> accepted s" using iw_invD(3) [OF assms(1)] assms(2) st(1) by (auto simp: own_inv_def)
qed

lemma accept_state:
  assumes "iw_inv s" "dst s = D_none" "prov s = Pr_accept"
  shows "iw_state (cm s) = IW_CM_STATE_CONN_RECV" "accepted s" "cur (wk s) = []" "work_list (cm s) = []" "\<not> fresh s"
proof -
  have "\<not> tail_ok Pr_accept Q" "\<not> disc_ok Pr_accept Q" for Q
    by (cases "(Pr_accept, Q)" rule: tail_ok.cases; simp) (cases "(Pr_accept, Q)" rule: disc_ok.cases; simp)
  then show st: "iw_state (cm s) = IW_CM_STATE_CONN_RECV" "accepted s" "cur (wk s) = []" "work_list (cm s) = []"
    using inv_state(1) [OF assms(1,2)] assms(3)
    by (cases "iw_state (cm s)"; cases "cur (wk s) @ work_list (cm s)"; auto simp: req_ok_def rep_ok_def est_ok_def split: if_splits)+
  show "\<not> fresh s" using iw_invD(3) [OF assms(1)] assms(2) st(1) by (auto simp: own_inv_def)
qed

lemma same_refl: "same_id c c" "same_refs c c"
  by (simp_all add: same_id_def same_refs_def)

lemma step_connected: "step_ok (A_connected pm ret)"
proof (rule step_okI)
  fix s assume s: "iw_inv s" "iw_may (A_connected pm ret) s"
  then have k: "call s = In_connect" by simp
  then have N: "dst s = D_none" "\<not> iw_freed (cm s)" using inv_owned [OF s(1) inv_call [OF s(1)]] by simp_all
  obtain err d where e: "iw_cm_map pm True (cm s) = (err, d)" by fastforce
  note M = map_frame [OF e]
  have nd: "\<not> iw_freed d" using M(2) N(2) by (simp add: same_refs_def)
  let ?ret = "if err \<noteq> None then err else ret"
  show "\<exists>s'. iw_do (A_connected pm ret) s = Some s' \<and> iw_inv s'"
  proof (cases "?ret = None")
    case True
    have "iw_inv (s\<lparr>cm := d, call := No_call\<rparr>)" by (rule inv_return [OF s(1) _ _ M]) (simp_all add: k)
    moreover have "s\<lparr>cm := d, call := No_call, prov := prov s\<rparr> = s\<lparr>cm := d, call := No_call\<rparr>" by simp
    ultimately show ?thesis using e True by (auto simp: connect_leave_def split: if_splits)
  next
    case False
    then have p: "prov s = Pr_connect" using s(2) e by (auto split: if_splits)
    note L = connect_state [OF s(1) N(1) p]
    let ?c = "(qp_put (iw_qp d) d)\<lparr>iw_qp := None, iw_state := IW_CM_STATE_IDLE, connect_wait := False\<rparr>"
    have "iw_inv (s\<lparr>cm := ?c, call := No_call, prov := Pr_none\<rparr>)"
      by (rule inv_failed [OF s(1) _ L(4,5,2,3)]) (use M same_idD [OF M(1)] in \<open>simp_all add: k same_refs_def\<close>)
    then show ?thesis using e nd False by (auto simp: connect_leave_def)
  qed
qed

lemma step_accepted: "step_ok (A_accepted ret)"
proof (rule step_okI)
  fix s assume s: "iw_inv s" "iw_may (A_accepted ret) s"
  then have k: "call s = In_accept" by simp
  then have N: "dst s = D_none" "\<not> iw_freed (cm s)" using inv_owned [OF s(1) inv_call [OF s(1)]] by simp_all
  show "\<exists>s'. iw_do (A_accepted ret) s = Some s' \<and> iw_inv s'"
  proof (cases "ret = None")
    case True
    have "iw_inv (s\<lparr>cm := cm s, call := No_call\<rparr>)" by (rule inv_return [OF s(1)]) (simp_all add: k same_refl)
    then show ?thesis using True by (simp add: accept_leave_def)
  next
    case False
    then have p: "prov s = Pr_accept" using s(2) by simp
    note L = accept_state [OF s(1) N(1) p]
    let ?c = "(qp_put (iw_qp (cm s)) (cm s))\<lparr>iw_state := IW_CM_STATE_IDLE, iw_qp := None, connect_wait := False\<rparr>"
    have "iw_inv (s\<lparr>cm := ?c, call := No_call, prov := Pr_none\<rparr>)"
      by (rule inv_failed [OF s(1) _ L(5) _ L(3,4)]) (use L(2) in \<open>simp_all add: k same_refs_def\<close>)
    then show ?thesis using N(2) L(1) False by (auto simp: accept_leave_def)
  qed
qed

text \<open>An identifier whose connection request is still to be answered.\<close>

lemma inv_unanswered:
  assumes "iw_inv s" "dst s = D_none" "from_req s" "\<not> accepted s"
  shows "iw_state (cm s) = IW_CM_STATE_CONN_RECV \<or> iw_state (cm s) = IW_CM_STATE_IDLE" "3 \<le> work_free (cm s)" "\<not> fresh s" "cur (wk s) = []"
    "work_list (cm s) = []" "prov s = Pr_none \<or> prov s = Pr_done" "iw_qp (cm s) = None" "call s \<noteq> In_reject \<Longrightarrow> \<not> connect_wait (cm s)"
proof -
  show st: "iw_state (cm s) = IW_CM_STATE_CONN_RECV \<or> iw_state (cm s) = IW_CM_STATE_IDLE" "3 \<le> work_free (cm s)" "\<not> fresh s"
    using iw_invD(3) [OF assms(1)] assms(2-) by (simp_all add: own_inv_def)
  show "cur (wk s) = []" "work_list (cm s) = []" "prov s = Pr_none \<or> prov s = Pr_done" using inv_state(1) [OF assms(1,2)] st(1) assms(4) by auto
  show "iw_qp (cm s) = None" using iw_invD(6) [OF assms(1)] st(1) assms(4) by (auto simp: qp_inv_def)
  show "call s \<noteq> In_reject \<Longrightarrow> \<not> connect_wait (cm s)" using inv_state(2) [OF assms(1,2)] st(1) assms(4) by auto
qed

lemma same_wait: "\<not> connect_wait c \<Longrightarrow> c\<lparr>connect_wait := False\<rparr> = c"
  by (cases c) simp

lemma step_accept: "step_ok (A_accept look)"
proof (rule step_okI)
  fix s assume s: "iw_inv s" "iw_may (A_accept look) s"
  then have m: "owned s" "call s = No_call" "from_req s" "\<not> accepted s" by simp_all
  note N = inv_owned [OF s(1) m(1)] note U = inv_unanswered [OF s(1) _ m(3,4)]
  have w: "(cm s)\<lparr>connect_wait := False\<rparr> = cm s" using U(8) N m(2) by (simp add: same_wait)
  show "\<exists>s'. iw_do (A_accept look) s = Some s' \<and> iw_inv s'"
  proof (cases "iw_state (cm s) = IW_CM_STATE_CONN_RECV \<and> look \<noteq> None")
    case True
    then obtain q where q: "look = Some q" "iw_state (cm s) = IW_CM_STATE_CONN_RECV" by auto
    let ?c = "(qp_get q (cm s))\<lparr>connect_wait := True, iw_qp := Some q\<rparr>"
    let ?s = "s\<lparr>cm := ?c, call := In_accept, accepted := True, prov := Pr_accept\<rparr>"
    have "iw_inv ?s"
    proof (rule inv_client [OF s(1), of ?c])
      show "own_inv ?s" using iw_invD(3) [OF s(1)] U(3) N m by (simp add: own_inv_def qp_get_def)
      show "qp_inv ?s" using iw_invD(6) [OF s(1)] U(7) N q(2) by (simp add: qp_inv_def qp_get_def)
    qed (use N U q(2) in \<open>auto simp: same_refs_def qp_get_def est_ok_def\<close>)
    then show ?thesis using N q by (simp add: accept_enter_def)
  next
    case False
    then show ?thesis using s(1) N w by (auto simp: accept_enter_def)
  qed
qed

lemma step_reject: "step_ok A_reject"
proof (rule step_okI)
  fix s assume s: "iw_inv s" "iw_may A_reject s"
  then have m: "owned s" "call s = No_call" "from_req s" "\<not> accepted s" by simp_all
  note N = inv_owned [OF s(1) m(1)] note U = inv_unanswered [OF s(1) _ m(3,4)]
  have w: "(cm s)\<lparr>connect_wait := False\<rparr> = cm s" using U(8) N m(2) by (simp add: same_wait)
  show "\<exists>s'. iw_do A_reject s = Some s' \<and> iw_inv s'"
  proof (cases "iw_state (cm s) = IW_CM_STATE_CONN_RECV")
    case True
    let ?s = "s\<lparr>cm := (cm s)\<lparr>connect_wait := True, iw_state := IW_CM_STATE_IDLE\<rparr>, call := In_reject\<rparr>"
    have "iw_inv ?s"
    proof (rule inv_client [OF s(1)])
      show "own_inv ?s" using iw_invD(3) [OF s(1)] U(3) N m by (simp add: own_inv_def)
      show "qp_inv ?s" using iw_invD(6) [OF s(1)] U(7) N by (simp add: qp_inv_def)
    qed (use N U in \<open>auto simp: same_refs_def\<close>)
    then show ?thesis using N True by (simp add: reject_enter_def)
  next
    case False
    then show ?thesis using s(1) N w by (simp add: reject_enter_def)
  qed
qed

lemma step_rejected: "step_ok A_rejected"
proof (rule step_okI)
  fix s assume s: "iw_inv s" "iw_may A_rejected s"
  then have k: "call s = In_reject" by simp
  have o: "owned s" using inv_call [OF s(1)] k by simp
  note N = inv_owned [OF s(1) o]
  have st: "iw_state (cm s) = IW_CM_STATE_IDLE" "from_req s" using iw_invD(3) [OF s(1)] k by (simp_all add: own_inv_def)
  have l: "cur (wk s) = [] \<and> work_list (cm s) = []" using inv_state(1) [OF s(1)] N st(1) by simp
  let ?s = "s\<lparr>cm := (cm s)\<lparr>connect_wait := False\<rparr>, call := No_call, prov := Pr_done\<rparr>"
  have "iw_inv ?s"
  proof (rule inv_client [OF s(1)])
    show "own_inv ?s" using iw_invD(3) [OF s(1)] st N by (simp add: own_inv_def)
    show "qp_inv ?s" using iw_invD(6) [OF s(1)] by (simp add: qp_inv_def)
  qed (use N st l in \<open>auto simp: same_refs_def\<close>)
  then show "\<exists>s'. iw_do A_rejected s = Some s' \<and> iw_inv s'" using N by (simp add: reject_leave_def)
qed

lemma step_disconnect: "step_ok (A_disconnect abrupt)"
proof (rule step_okI)
  fix s assume s: "iw_inv s" "iw_may (A_disconnect abrupt) s"
  then have m: "owned s" "\<not> connect_wait (cm s)" by simp_all
  note N = inv_owned [OF s(1) m(1)]
  note L = inv_state [OF s(1) conjunct1 [OF N]]
  show "\<exists>s'. iw_do (A_disconnect abrupt) s = Some s' \<and> iw_inv s'"
  proof (cases "iw_state (cm s) = IW_CM_STATE_ESTABLISHED")
    case True
    obtain r c where c: "iw_cm_disconnect abrupt (cm s) = Some (r, c)" "same_refs c (cm s)" "iw_state c = IW_CM_STATE_CLOSING" "\<not> connect_wait c"
      "work_free c = work_free (cm s)" "iw_qp c = iw_qp (cm s)" "qp_added c = qp_added (cm s)" "qp_removed c = qp_removed (cm s)"
      using N m(2) True by (cases "iw_qp (cm s)"; cases abrupt) (simp_all add: iw_cm_disconnect_def iwcm_modify_qp_err_def iwcm_modify_qp_sqd_def same_refs_def)
    have "iw_inv (s\<lparr>cm := c\<rparr>)"
    proof (rule inv_client [OF s(1) conjunct1 [OF N] c(2)])
      have "drop_events c = drop_events (cm s)" using c(2) by (simp add: same_refs_def)
      then show "own_inv (s\<lparr>cm := c\<rparr>)" using iw_invD(3) [OF s(1)] True N by (auto simp: own_inv_def c)
      show "qp_inv (s\<lparr>cm := c\<rparr>)" using iw_invD(6) [OF s(1)] by (simp add: qp_inv_def c)
      show "0 < events_left (prov (s\<lparr>cm := c\<rparr>)) \<Longrightarrow> 3 \<le> work_free c + length (work_list (cm s)) \<and> length (work_list (cm s)) + events_left (prov (s\<lparr>cm := c\<rparr>)) \<le> 3"
        using iw_invD(5) [OF s(1)] by (simp add: room_inv_def c(5))
    qed (use N L m True c(3,4) in simp_all)
    then show ?thesis using c(1) by simp
  next
    case False
    obtain r where "iw_cm_disconnect abrupt (cm s) = Some (r, cm s)"
      using N L m(2) False by (cases "iw_state (cm s)") (auto simp: iw_cm_disconnect_def)
    then show ?thesis using s(1) by simp
  qed
qed

lemma step_req_return: "step_ok (R_return r)"
proof (rule step_okI)
  fix s assume s: "iw_inv s" "iw_may (R_return r) s"
  show "\<exists>s'. iw_do (R_return r) s = Some s' \<and> iw_inv s'"
  proof (cases "r = 0")
    case True
    let ?s = "s\<lparr>req_cb := False\<rparr>"
    have "iw_inv ?s"
    proof (rule iw_invI)
      show "ref_inv ?s" using iw_invD(1) [OF s(1)] by (simp add: ref_inv_def)
      show "pend_inv (wk ?s) (pend ?s) (work_list (cm ?s))" using iw_invD(2) [OF s(1)] by simp
      show "own_inv ?s" using iw_invD(3) [OF s(1)] by (simp add: own_inv_def)
      show "state_inv ?s" using iw_invD(4) [OF s(1)] by (simp add: state_inv_def)
      show "room_inv ?s" using iw_invD(5) [OF s(1)] by (simp add: room_inv_def)
      show "qp_inv ?s" using iw_invD(6) [OF s(1)] by (simp add: qp_inv_def)
    qed
    then show ?thesis using True by simp
  next
    case False
    then have m: "req_cb s" "owned s" "call s = No_call" "\<not> accepted s" using s(2) by simp_all
    have q: "from_req s" using iw_invD(3) [OF s(1)] m(1) by (simp add: own_inv_def)
    note N = inv_owned [OF s(1) m(2)] note U = inv_unanswered [OF s(1) _ q m(4)]
    let ?c = "(cm s)\<lparr>iw_state := IW_CM_STATE_IDLE, connect_wait := False\<rparr>"
    let ?t = "s\<lparr>cm := ?c, req_cb := False, prov := Pr_done\<rparr>"
    have "iw_inv ?t"
    proof (rule inv_client [OF s(1)])
      show "own_inv ?t" using iw_invD(3) [OF s(1)] U(3) N m q by (simp add: own_inv_def)
      show "qp_inv ?t" using iw_invD(6) [OF s(1)] U(7) N by (simp add: qp_inv_def)
    qed (use N U m in \<open>auto simp: same_refs_def\<close>)
    from inv_destroy [OF this] have i: "iw_inv (s\<lparr>cm := ?c\<lparr>drop_events := True\<rparr>, req_cb := False, owned := False, dst := D_drop, prov := Pr_done\<rparr>)"
      using N m(3) by (cases s) simp
    have "(cm s)\<lparr>iw_state := IW_CM_STATE_IDLE\<rparr> = cm s" if "iw_state (cm s) = IW_CM_STATE_IDLE" using that by (cases "cm s") simp
    then have "iw_do (R_return r) s = Some (s\<lparr>cm := ?c\<lparr>drop_events := True\<rparr>, req_cb := False, owned := False, dst := D_drop, prov := Pr_done\<rparr>)"
      using False N U(1) by (auto simp: reject_enter_def reject_leave_def destroy_enter_def)
    then show ?thesis using i by blast
  qed
qed

lemmas steps = step_listen step_listened step_connect step_connected step_accept step_accepted step_reject step_rejected step_disconnect step_destroy step_lock
  step_finish step_add_ref step_rem_ref step_event step_pop step_test step_process step_return step_worker_destroy step_killed step_deref step_req_return

lemma every_step: "step_ok a"
  by (cases a) (simp_all add: steps)

lemma alloc_loop_done: "alloc_loop km n c = (None, d) \<Longrightarrow> d = c\<lparr>work_free := work_free c + n\<rparr>"
  using alloc_loop_eq [of km n c] by auto

lemma conn_req_child:
  assumes "cm_conn_req_handler kz info km listen ev = Some (Req_call c ev')"
  shows "c = (fst (child_id info listen ev))\<lparr>work_free := 3\<rparr>"
  using assms child_id_simps(2) [of info listen ev]
  by (auto dest!: alloc_loop_done simp: cm_conn_req_handler_def alloc_work_entries_def Let_def split: option.splits if_splits prod.splits)

interpretation iwg: guarded_system iw_may iw_do iw_inv
  by unfold_locales (use every_step in \<open>simp add: step_ok_def\<close>)

lemma reach_iw_inv: "iw_reach s \<Longrightarrow> iw_inv s"
proof (induction rule: iw_reach.induct)
  case (iw_created loc rem)
  show ?case by (rule iw_invI) (simp_all add: iw_init_def iw_create_cm_id_def ref_inv_def holds_def pend_inv_def own_inv_def state_inv_def room_inv_def qp_inv_def)
next
  case (iw_child info km listen ev c ev')
  note C = conn_req_child [OF this]
  show ?case by (rule iw_invI) (simp_all add: iw_init_def C ref_inv_def holds_def pend_inv_def own_inv_def state_inv_def room_inv_def qp_inv_def)
next
  case (iw_step s a s')
  then show ?case by (blast intro: iwg.act_keeps)
qed

lemma iw_run_reach: "iw_reach s \<Longrightarrow> guarded_run iw_may iw_do l s = Some s' \<Longrightarrow> iw_reach s'"
  by (induction l arbitrary: s) (auto split: if_splits option.splits intro: iw_reach.iw_step)

section \<open>The worker is not blocked by the destruction it starts\<close>

text \<open>While the client handles an event and after it returned an error, the identifier is not in a connect or accept.\<close>

fun calls :: "worker \<Rightarrow> bool" where
  "calls (Wk_call ev e) = True" | "calls (Wk_kill e) = True" | "calls _ = False"

definition call_inv :: "iw_sys \<Rightarrow> bool" where
  "call_inv s \<longleftrightarrow> (calls (wk s) \<and> dst s = D_none \<longrightarrow>
     iw_state (cm s) \<in> {IW_CM_STATE_IDLE, IW_CM_STATE_ESTABLISHED, IW_CM_STATE_CLOSING} \<and> \<not> fresh s \<and> (from_req s \<longrightarrow> accepted s) \<and> call s \<noteq> In_reject \<and>
     call s \<noteq> In_listen)"

lemma disconnect_state: "iw_cm_disconnect abrupt c = Some (r, d) \<Longrightarrow> iw_state d = iw_state c \<or> iw_state d = IW_CM_STATE_CLOSING"
  by (cases "iw_state c"; cases "iw_qp c"; cases abrupt)
    (auto simp: iw_cm_disconnect_def iwcm_modify_qp_err_def iwcm_modify_qp_sqd_def split: if_splits)

lemma process_settles:
  assumes s: "iw_inv s" "dst s = D_none" and w: "wk s = Wk_run ev e" and d: "process_event kz info km ev (cm s) = Some (Some ev', d)"
  shows "call_inv (s\<lparr>cm := d, wk := Wk_call ev' e\<rparr>)"
proof -
  note O = iw_invD(3) [OF s(1)] note L = inv_state [OF s]
  have nf: "\<not> iw_freed (cm s)" using inv_live [OF s(1)] s(2) by simp
  have q: "live_ok (iw_state (cm s)) (accepted s) (prov s) (ev # work_list (cm s))" using L(1) w by simp
  then have i: "iw_state (cm s) \<noteq> IW_CM_STATE_IDLE" "iw_state (cm s) = IW_CM_STATE_CONN_RECV \<longrightarrow> accepted s" by (auto split: if_splits)
  then have o: "\<not> fresh s" "from_req s \<longrightarrow> accepted s" "call s \<noteq> In_reject" "call s = In_listen \<longrightarrow> iw_state (cm s) = IW_CM_STATE_LISTEN"
    using O s(2) by (auto simp: own_inv_def)
  have "connect_wait (cm s) \<longleftrightarrow> iw_state (cm s) = IW_CM_STATE_CONN_SENT \<or> iw_state (cm s) = IW_CM_STATE_CONN_RECV \<and> accepted s" using L(2) o(3) by simp
  from process_live [OF q nf this, of kz info km] show ?thesis using d o unfolding call_inv_def by auto
qed

lemma call_step:
  assumes s: "iw_inv s" "call_inv s" and a: "iw_may a s" "iw_do a s = Some s'"
  shows "call_inv s'"
proof (cases "calls (wk s') \<and> dst s' = D_none")
  case True
  show ?thesis
  proof (cases "calls (wk s) \<and> dst s = D_none")
    case c: True
    then have C: "iw_state (cm s) \<in> {IW_CM_STATE_IDLE, IW_CM_STATE_ESTABLISHED, IW_CM_STATE_CLOSING}" "\<not> fresh s" "from_req s \<longrightarrow> accepted s"
      "call s \<noteq> In_reject" "call s \<noteq> In_listen" using s(2) unfolding call_inv_def by blast+
    show ?thesis
    proof (cases a)
      case (A_connected pm ret)
      then show ?thesis using C a connect_state(1) [OF s(1)] c
        by (auto simp: call_inv_def connect_leave_def Let_def split: prod.splits if_splits dest: map_frame(1) [THEN same_idD(1)])
    next
      case (A_accepted ret)
      then show ?thesis using C a accept_state(1) [OF s(1)] c by (auto simp: call_inv_def accept_leave_def split: if_splits)
    next
      case (A_disconnect abrupt)
      then obtain r c' where "iw_cm_disconnect abrupt (cm s) = Some (r, c')" "s' = s\<lparr>cm := c'\<rparr>" using a(2) by auto
      then show ?thesis using C disconnect_state [of abrupt "cm s" r c'] by (auto simp: call_inv_def)
    next
      case (P_event ok ev)
      then obtain err queue c' where e: "cm_event_handler ok ev (cm s) = Some (err, queue, c')" "cm s' = c'" "fresh s' = fresh s" "from_req s' = from_req s"
        "accepted s' = accepted s" "call s' = call s" using a(2) by auto
      have "iw_state c' = iw_state (cm s)" using cm_event_handler_cases [OF e(1)] by (simp split: if_splits)
      then show ?thesis using C unfolding call_inv_def e by simp
    next
      case (W_return r)
      then show ?thesis using C a same_idD(1) [OF after_callback_simps(1)] by (auto simp: call_inv_def split: worker.splits if_splits)
    next
      case (R_return r)
      then have "dst s' = D_drop" if "r \<noteq> 0" using that a(2) by (auto split: bind_splits prod.splits if_splits)
      then show ?thesis using R_return C a True by (cases "r = 0") (auto simp: call_inv_def)
    qed (use C c a True in \<open>auto simp: call_inv_def add_ref_def rem_ref_def iwcm_deref_id_def free_cm_id_def dealloc_work_entries_def Let_def
      split: worker.splits if_splits\<close>)
  next
    case False
    have d: "dst s = D_none" using True a(2) by (cases a) (auto split: if_splits worker.splits destroyer.splits bind_splits prod.splits)
    then have "\<exists>kz info km. a = W_process kz info km" using True False a(2)
      by (cases a) (auto simp: Let_def split: if_splits worker.splits destroyer.splits bind_splits prod.splits)
    then obtain kz info km where p: "a = W_process kz info km" by blast
    then obtain ev e where w: "wk s = Wk_run ev e" using a(1) by (auto split: worker.splits)
    then show ?thesis using p a(2) True process_settles [OF s(1) d w] by (auto split: option.splits)
  qed
qed (auto simp: call_inv_def)

lemma reach_call_inv: "iw_reach s \<Longrightarrow> call_inv s"
proof (induction rule: iw_reach.induct)
  case (iw_step s a s')
  then show ?case using call_step reach_iw_inv by blast
qed (simp_all add: call_inv_def iw_init_def)

section \<open>Properties\<close>

text \<open>An active connection up to the point where the reply is in the worker's hands; a listening identifier that is destroyed with a
  request in its queue.\<close>

definition demo_addr :: sockaddr_storage where "demo_addr = \<lparr>sa_inet = True, sa_ip = 0, sa_port = 0\<rparr>"

definition demo_event :: "iw_cm_event_type \<Rightarrow> u8 \<Rightarrow> iw_cm_event" where
  "demo_event t n = \<lparr>ev_event = t, ev_status = 0, ev_local = demo_addr, ev_remote = demo_addr, ev_private_data_len = n\<rparr>"

definition demo_connect :: "iw_act list" where
  "demo_connect = [A_connect (\<lambda>_. True) (Some 5), P_add_ref, P_event True (demo_event IW_CM_EVENT_CONNECT_REPLY 1), W_pop, W_test]"

lemma demo_connect_run:
  obtains s where "iw_reach s" "guarded_run iw_may iw_do demo_connect (iw_init (iw_create_cm_id demo_addr demo_addr)) = Some s"
    "wk s = Wk_run (demo_event IW_CM_EVENT_CONNECT_REPLY 1) True" "prefs s = 1" "prov s = Pr_up" "dst s = D_none" "\<not> iw_freed (cm s)" "qp_added (cm s) = [5]"
    "owned s" "call s = In_connect"
proof -
  let ?r = "guarded_run iw_may iw_do demo_connect (iw_init (iw_create_cm_id demo_addr demo_addr))"
  have "\<exists>s. ?r = Some s \<and> wk s = Wk_run (demo_event IW_CM_EVENT_CONNECT_REPLY 1) True \<and> prefs s = 1 \<and> prov s = Pr_up \<and> dst s = D_none \<and> \<not> iw_freed (cm s) \<and>
      qp_added (cm s) = [5] \<and> owned s \<and> call s = In_connect"
    by (simp add: demo_connect_def demo_event_def iw_init_def iw_create_cm_id_def connect_enter_def alloc_work_entries_def eval_nat_numeral put_work_def qp_get_def
        add_ref_def prov_after.simps cm_event_handler_def get_work_def Let_def work_pop_def)
  then show ?thesis using that iw_run_reach [OF iw_created] by blast
qed

text \<open>C12: whatever the client, the provider and the work queue do within their contract, and however their steps interleave, no \<open>BUG()\<close>
  of the connection manager is hit, no freed identifier is accessed and no reference count underflows.\<close>

theorem iwcm_no_bug:
  assumes "iw_reach s" "iw_may a s"
  shows "iw_do a s \<noteq> None"
  using iwg.act_defined [OF reach_iw_inv [OF assms(1)] assms(2)] .

theorem iwcm_no_bug_witness: "\<exists>s. iw_reach s \<and> iw_may (W_process True None (\<lambda>_. True)) s \<and> iw_do (W_process True None (\<lambda>_. True)) s \<noteq> None"
proof -
  obtain s where s: "iw_reach s" "wk s = Wk_run (demo_event IW_CM_EVENT_CONNECT_REPLY 1) True" using demo_connect_run by metis
  then have "iw_may (W_process True None (\<lambda>_. True)) s" by simp
  then show ?thesis using s(1) iwcm_no_bug by blast
qed

text \<open>C13: the references that the connection manager took on queue pairs are those it gave back and the one of the identifier or of its
  destroyer; when an identifier is freed all were given back.\<close>

theorem iwcm_qp_references:
  assumes "iw_reach s"
  shows "mset (qp_added (cm s)) = mset (qp_removed (cm s)) + opt_mset (iw_qp (cm s)) + dying_qp (dst s) \<and>
    (iw_freed (cm s) \<longrightarrow> mset (qp_added (cm s)) = mset (qp_removed (cm s)))"
proof -
  note I = reach_iw_inv [OF assms]
  have q: "mset (qp_added (cm s)) = mset (qp_removed (cm s)) + opt_mset (iw_qp (cm s)) + dying_qp (dst s)" using iw_invD(6) [OF I] by (simp add: qp_inv_def)
  have "mset (qp_added (cm s)) = mset (qp_removed (cm s))" if "iw_freed (cm s)"
  proof -
    have d: "dst s = D_done" using that inv_live [OF I] by blast
    then have "iw_state (cm s) = IW_CM_STATE_DESTROYING" using iw_invD(4) [OF I] by (simp add: state_inv_def)
    then show ?thesis using q d iw_invD(6) [OF I] by (simp add: qp_inv_def)
  qed
  then show ?thesis using q by blast
qed

theorem iwcm_qp_references_witness:
  "\<exists>s. iw_reach s \<and> qp_added (cm s) = [5] \<and> {#5#} = mset (qp_removed (cm s)) + opt_mset (iw_qp (cm s)) + dying_qp (dst s)"
proof -
  obtain s where s: "iw_reach s" "qp_added (cm s) = [5]" using demo_connect_run by metis
  then show ?thesis using iwcm_qp_references [OF s(1)] by auto
qed

text \<open>C25: an identifier that is not being destroyed is well-formed: the wait flag is set exactly during a connect, accept or reject, an idle identifier
  has no queued event and no queue pair, a listening one has only good connection requests queued, and a connection that is up or closing at most its
  disconnect and its close, in this order.\<close>

theorem iwcm_wellformed:
  assumes "iw_reach s" "dst s = D_none"
  shows "(connect_wait (cm s) \<longleftrightarrow> iw_state (cm s) = IW_CM_STATE_CONN_SENT \<or> iw_state (cm s) = IW_CM_STATE_CONN_RECV \<and> accepted s \<or> call s = In_reject) \<and>
    (iw_state (cm s) = IW_CM_STATE_IDLE \<longrightarrow> work_list (cm s) = [] \<and> iw_qp (cm s) = None) \<and>
    (iw_state (cm s) = IW_CM_STATE_LISTEN \<longrightarrow> iw_qp (cm s) = None \<and>
       (\<forall>e \<in> set (work_list (cm s)). ev_event e = IW_CM_EVENT_CONNECT_REQUEST \<and> ev_status e = 0)) \<and>
    (iw_state (cm s) \<in> {IW_CM_STATE_ESTABLISHED, IW_CM_STATE_CLOSING} \<longrightarrow>
       map ev_event (work_list (cm s)) \<in> {[], [IW_CM_EVENT_DISCONNECT], [IW_CM_EVENT_CLOSE], [IW_CM_EVENT_DISCONNECT, IW_CM_EVENT_CLOSE]}) \<and>
    iw_state (cm s) \<noteq> IW_CM_STATE_DESTROYING"
proof -
  note I = reach_iw_inv [OF assms(1)] note L = inv_state [OF I assms(2)]
  have t: "map ev_event (work_list (cm s)) \<in> {[], [IW_CM_EVENT_DISCONNECT], [IW_CM_EVENT_CLOSE], [IW_CM_EVENT_DISCONNECT, IW_CM_EVENT_CLOSE]}"
    if "tail_ok p (cur (wk s) @ work_list (cm s)) \<or> disc_ok p (cur (wk s) @ work_list (cm s))" for p
    using that by (cases "(p, cur (wk s) @ work_list (cm s))" rule: tail_ok.cases; cases "wk s") auto
  have q: "iw_state (cm s) \<in> {IW_CM_STATE_IDLE, IW_CM_STATE_LISTEN} \<Longrightarrow> iw_qp (cm s) = None" using iw_invD(6) [OF I] by (auto simp: qp_inv_def)
  show ?thesis using L q t [of "prov s"] by (cases "iw_state (cm s)") (auto simp: req_ok_def)
qed

theorem iwcm_wellformed_witness: "\<exists>s. iw_reach s \<and> dst s = D_none \<and> iw_state (cm s) \<noteq> IW_CM_STATE_DESTROYING"
proof -
  obtain s where s: "iw_reach s" "dst s = D_none" using demo_connect_run by metis
  then show ?thesis using iwcm_wellformed [OF s] by blast
qed

text \<open>C19: an identifier is freed exactly when its destruction is complete, the worker is done with it, no work item is queued for it and
  the provider holds no reference: neither too early nor never.\<close>

theorem iwcm_freed_iff:
  assumes "iw_reach s"
  shows "iw_freed (cm s) \<longleftrightarrow> dst s = D_done \<and> wk s = Wk_idle \<and> pend s = 0 \<and> prefs s = 0"
proof -
  note I = reach_iw_inv [OF assms]
  have "work_list (cm s) = [] \<and> holds (wk s) = 0 \<longleftrightarrow> wk s = Wk_idle \<and> pend s = 0"
    using iw_invD(2) [OF I] by (auto simp: pend_inv_def holds_def split: if_splits)
  then show ?thesis using iw_invD(1) [OF I] by (auto simp: ref_inv_def)
qed

theorem iwcm_freed_iff_witness: "\<exists>s. iw_reach s \<and> prefs s = 1 \<and> \<not> iw_freed (cm s)"
proof -
  obtain s where s: "iw_reach s" "prefs s = 1" using demo_connect_run by metis
  then show ?thesis using iwcm_freed_iff [OF s(1)] by auto
qed

text \<open>C20: the work elements allocated by connect and for an accepted request are enough: every event of a connection that the provider raises
  in its order is appended to the queue. It never gets \<open>-ENOMEM\<close> unless the private data cannot be copied.\<close>

theorem iwcm_event_room:
  assumes "iw_reach s" "iw_may (P_event ok ev) s" "ev_event ev \<noteq> IW_CM_EVENT_CONNECT_REQUEST" "ok \<or> ev_private_data_len ev = 0"
  shows "\<exists>queue c. cm_event_handler ok ev (cm s) = Some (None, queue, c) \<and> work_list c = work_list (cm s) @ [ev]"
proof -
  note I = reach_iw_inv [OF assms(1)]
  have p: "0 < prefs s" "prov_after (prov s) ev \<noteq> None" using assms(2) by auto
  have "0 < events_left (prov s)" using p(2) assms(3) by (auto simp: prov_after.simps split: iw_cm_event_type.splits if_splits)
  then have "work_free (cm s) \<noteq> 0" using iw_invD(5) [OF I] by (auto simp: room_inv_def)
  moreover obtain err queue c where h: "cm_event_handler ok ev (cm s) = Some (err, queue, c)"
    using cm_event_handler_def' inv_prefs [OF I p(1)] by blast
  ultimately show ?thesis using cm_event_handler_cases [OF h] assms(4) by (auto split: if_splits)
qed

theorem iwcm_event_room_witness:
  "\<exists>s queue c. iw_reach s \<and> cm_event_handler True (demo_event IW_CM_EVENT_CLOSE 0) (cm s) = Some (None, queue, c) \<and>
    work_list c = work_list (cm s) @ [demo_event IW_CM_EVENT_CLOSE 0]"
proof -
  obtain s where s: "iw_reach s" "prefs s = 1" "prov s = Pr_up" using demo_connect_run by metis
  then have "iw_may (P_event True (demo_event IW_CM_EVENT_CLOSE 0)) s" by (simp add: prov_after.simps demo_event_def)
  then show ?thesis using iwcm_event_room [OF s(1)] s(1) by (auto simp: demo_event_def)
qed

text \<open>When the client's callback returns an error, the destruction that the worker starts does not wait for the end of a connect or accept,
  which only the worker itself could bring about: the ordered work queue is not blocked.\<close>

theorem iwcm_worker_not_blocked:
  assumes "iw_reach s" "wk s = Wk_kill e" "dst s = D_none"
  shows "iw_may W_destroy s \<and> iw_do W_destroy s \<noteq> None"
proof -
  note I = reach_iw_inv [OF assms(1)]
  have "iw_state (cm s) \<in> {IW_CM_STATE_IDLE, IW_CM_STATE_ESTABLISHED, IW_CM_STATE_CLOSING}" "call s \<noteq> In_reject"
    using reach_call_inv [OF assms(1)] assms(2,3) unfolding call_inv_def by (metis calls.simps(2))+
  then have "iw_may W_destroy s" using inv_state(2) [OF I assms(3)] assms(2,3) by auto
  then show ?thesis using iwg.act_defined [OF I] by blast
qed

theorem iwcm_worker_not_blocked_witness: "\<exists>s e. iw_reach s \<and> wk s = Wk_kill e \<and> iw_may W_destroy s"
proof -
  obtain s where s: "iw_reach s" "wk s = Wk_run (demo_event IW_CM_EVENT_CONNECT_REPLY 1) True" "call s = In_connect" "owned s" "dst s = D_none"
    using demo_connect_run by metis
  note I = reach_iw_inv [OF s(1)]
  have "iw_may (A_connected \<lparr>names_fit = True, pm_registered = False, pm_mapping = None, pm_mapinfo = None\<rparr> None) s" (is "iw_may ?a s")
    using s(3) by (simp add: iw_cm_map_def)
  moreover obtain s1 where s1: "iw_do ?a s = Some s1" "wk s1 = wk s" "call s1 = No_call" "owned s1" "dst s1 = D_none"
    using s by (auto simp: iw_cm_map_def connect_leave_def)
  ultimately have r1: "iw_reach s1" using iw_reach.iw_step s(1) by blast
  obtain s2 ev where s2: "iw_do (W_process kz info km) s1 = Some s2" "wk s2 = Wk_call ev True" "call s2 = No_call" "owned s2" "dst s2 = D_none"
  proof -
    have "iw_do (W_process kz info km) s1 \<noteq> None" by (rule iwg.act_defined [OF reach_iw_inv [OF r1]]) (simp add: s1(2) s(2))
    then show ?thesis using that s1 s(2) by (auto simp: process_event_def demo_event_def)
  qed
  have r2: "iw_reach s2" using iw_reach.iw_step [OF r1 _ s2(1)] s1(2) s(2) by simp
  obtain s3 where s3: "iw_do (W_return 1) s2 = Some s3" "wk s3 = Wk_kill True" "dst s3 = D_none" using s2 by simp
  have "iw_reach s3" using iw_reach.iw_step [OF r2 _ s3(1)] s2 by simp
  then show ?thesis using iwcm_worker_not_blocked s3(2,3) by blast
qed

definition drop_run :: "iw_cm_event \<Rightarrow> iw_act list" where
  "drop_run ev = [A_listen (\<lambda>_. True) 1, P_add_ref, P_event True ev,
     A_listened \<lparr>names_fit = True, pm_registered = False, pm_mapping = None, pm_mapinfo = None\<rparr> None, A_destroy, W_pop, W_test, W_deref,
     D_lock, D_finish, P_rem_ref]"

text \<open>C37: a connection request that is still queued when its listening identifier is destroyed is dropped without freeing the copy of its
  private data: the identifier is freed and the copy is lost.\<close>

theorem iwcm_dropped_private_data:
  assumes "ev_event ev = IW_CM_EVENT_CONNECT_REQUEST" "ev_status ev = 0" "ev_private_data_len ev \<noteq> 0"
  shows "\<exists>s. guarded_run iw_may iw_do (drop_run ev) (iw_init (iw_create_cm_id loc rem)) = Some s \<and> iw_freed (cm s) \<and> pdata (cm s) = 1"
  using assms
  by (simp add: drop_run_def iw_init_def iw_create_cm_id_def listen_enter_def alloc_work_entries_def put_work_def add_ref_def prov_after.simps
      cm_event_handler_def get_work_def Let_def work_pop_def iw_cm_map_def listen_leave_def destroy_enter_def iwcm_deref_id_def destroy_locked_def
      destroy_finish_def qp_put_def prov_down_def rem_ref_def free_cm_id_def dealloc_work_entries_def)

theorem iwcm_dropped_private_data_witness:
  "\<exists>s. guarded_run iw_may iw_do (drop_run (demo_event IW_CM_EVENT_CONNECT_REQUEST 7)) (iw_init (iw_create_cm_id demo_addr demo_addr)) = Some s \<and>
    iw_freed (cm s) \<and> pdata (cm s) = 1"
  by (rule iwcm_dropped_private_data) (simp_all add: demo_event_def)

lemma enter_again: "work_free c \<noteq> 0 \<Longrightarrow> connect_enter km look c = None \<and> listen_enter km n c = None"
  by (simp add: connect_enter_def listen_enter_def alloc_work_entries_def)

text \<open>C38: when the provider refuses a connect, the identifier is idle again and its queue pair is given back, but its work elements stay
  allocated: calling connect or listen on it once more hits the \<open>BUG_ON\<close> of \<open>alloc_work_entries\<close>.\<close>

theorem iwcm_connect_again_bug:
  "\<exists>s. guarded_run iw_may iw_do [A_connect (\<lambda>_. True) (Some q), A_connected pm (Some e)] (iw_init (iw_create_cm_id loc rem)) = Some s \<and>
     iw_state (cm s) = IW_CM_STATE_IDLE \<and> owned s \<and> iw_qp (cm s) = None \<and> qp_removed (cm s) = [q] \<and>
     connect_enter km look (cm s) = None \<and> listen_enter km n (cm s) = None"
proof -
  let ?c = "(qp_get q ((iw_create_cm_id loc rem)\<lparr>work_free := 4\<rparr>))\<lparr>connect_wait := True, iw_qp := Some q, iw_state := IW_CM_STATE_CONN_SENT\<rparr>"
  have c: "connect_enter (\<lambda>_. True) (Some q) (iw_create_cm_id loc rem) = Some (Inr (), ?c)"
    by (simp add: connect_enter_def alloc_work_entries_def iw_create_cm_id_def eval_nat_numeral put_work_def)
  obtain err d where d: "iw_cm_map pm True ?c = (err, d)" by fastforce
  note M = map_frame [OF d]
  have f: "\<not> iw_freed d" "work_free d = 4" "iw_qp d = Some q" "qp_removed d = []"
    using M same_idD [OF M(1)] by (simp_all add: same_refs_def qp_get_def iw_create_cm_id_def)
  show ?thesis by (simp add: iw_init_def c d connect_leave_def f qp_put_def enter_again)
qed

end
