(* ===== verification/Mcast.thy ===== *)
theory Mcast
  imports Kern_Prelude "HOL-Library.Tree"
begin

unbundle bit_operations_syntax

text \<open>
  The multicast module of the InfiniBand core, \<open>drivers/infiniband/core/multicast.c\<close>: clients of a port join and leave
  multicast groups; a group serialises their requests to the subnet administrator (SA) and keeps count of its members by join state. Here: the
  comparison of member records and the operations on one group and its members. Members and groups are named by their addresses. An access to freed memory, an underflow of a reference count and a second activation of a group's work yield
  \<open>None\<close>.
\<close>

section \<open>Member records\<close>

record ib_sa_mcmember_rec =
  mc_mgid :: "128 word"
  mc_port_gid :: "128 word"
  mc_qkey :: u32
  mc_mlid :: u16
  mc_mtu_selector :: u8
  mc_mtu :: u8
  mc_traffic_class :: u8
  mc_pkey :: u16
  mc_rate_selector :: u8
  mc_rate :: u8
  mc_packet_life_time_selector :: u8
  mc_packet_life_time :: u8
  mc_sl :: u8
  mc_flow_label :: u32
  mc_hop_limit :: u8
  mc_scope :: u8
  mc_join_state :: u8
  mc_proxy_join :: u8

text \<open>The code keeps the mask in network byte order; it is only tested bit by bit, so that its bits are numbered here as in the message.\<close>

definition IB_SA_COMP_MASK :: "nat \<Rightarrow> u64" where
  "IB_SA_COMP_MASK n = push_bit n 1"

definition IB_SA_MCMEMBER_REC_PORT_GID :: u64 where "IB_SA_MCMEMBER_REC_PORT_GID = IB_SA_COMP_MASK 1"
definition IB_SA_MCMEMBER_REC_QKEY :: u64 where "IB_SA_MCMEMBER_REC_QKEY = IB_SA_COMP_MASK 2"
definition IB_SA_MCMEMBER_REC_MLID :: u64 where "IB_SA_MCMEMBER_REC_MLID = IB_SA_COMP_MASK 3"
definition IB_SA_MCMEMBER_REC_MTU_SELECTOR :: u64 where "IB_SA_MCMEMBER_REC_MTU_SELECTOR = IB_SA_COMP_MASK 4"
definition IB_SA_MCMEMBER_REC_MTU :: u64 where "IB_SA_MCMEMBER_REC_MTU = IB_SA_COMP_MASK 5"
definition IB_SA_MCMEMBER_REC_TRAFFIC_CLASS :: u64 where "IB_SA_MCMEMBER_REC_TRAFFIC_CLASS = IB_SA_COMP_MASK 6"
definition IB_SA_MCMEMBER_REC_PKEY :: u64 where "IB_SA_MCMEMBER_REC_PKEY = IB_SA_COMP_MASK 7"
definition IB_SA_MCMEMBER_REC_RATE_SELECTOR :: u64 where "IB_SA_MCMEMBER_REC_RATE_SELECTOR = IB_SA_COMP_MASK 8"
definition IB_SA_MCMEMBER_REC_RATE :: u64 where "IB_SA_MCMEMBER_REC_RATE = IB_SA_COMP_MASK 9"
definition IB_SA_MCMEMBER_REC_PACKET_LIFE_TIME_SELECTOR :: u64 where
  "IB_SA_MCMEMBER_REC_PACKET_LIFE_TIME_SELECTOR = IB_SA_COMP_MASK 10"
definition IB_SA_MCMEMBER_REC_PACKET_LIFE_TIME :: u64 where "IB_SA_MCMEMBER_REC_PACKET_LIFE_TIME = IB_SA_COMP_MASK 11"
definition IB_SA_MCMEMBER_REC_SL :: u64 where "IB_SA_MCMEMBER_REC_SL = IB_SA_COMP_MASK 12"
definition IB_SA_MCMEMBER_REC_FLOW_LABEL :: u64 where "IB_SA_MCMEMBER_REC_FLOW_LABEL = IB_SA_COMP_MASK 13"
definition IB_SA_MCMEMBER_REC_HOP_LIMIT :: u64 where "IB_SA_MCMEMBER_REC_HOP_LIMIT = IB_SA_COMP_MASK 14"
definition IB_SA_MCMEMBER_REC_SCOPE :: u64 where "IB_SA_MCMEMBER_REC_SCOPE = IB_SA_COMP_MASK 15"

definition IB_SA_GT :: u8 where "IB_SA_GT = 0"
definition IB_SA_LT :: u8 where "IB_SA_LT = 1"
definition IB_SA_EQ :: u8 where "IB_SA_EQ = 2"

text \<open>The result is the error flag.\<close>

definition check_selector :: "u64 \<Rightarrow> u64 \<Rightarrow> u64 \<Rightarrow> u8 \<Rightarrow> u8 \<Rightarrow> u8 \<Rightarrow> bool" where
  "check_selector comp_mask selector_mask value_mask selector src_value dst_value =
     (if comp_mask AND selector_mask = 0 \<or> comp_mask AND value_mask = 0 then False
      else if selector = IB_SA_GT then src_value \<le> dst_value
      else if selector = IB_SA_LT then src_value \<ge> dst_value
      else if selector = IB_SA_EQ then src_value \<noteq> dst_value
      else False)"

definition cmp_rec :: "ib_sa_mcmember_rec \<Rightarrow> ib_sa_mcmember_rec \<Rightarrow> u64 \<Rightarrow> errno option" where
  "cmp_rec src dst comp_mask =
     (if has_flag comp_mask IB_SA_MCMEMBER_REC_PORT_GID \<and> mc_port_gid src \<noteq> mc_port_gid dst then Some EINVAL
      else if has_flag comp_mask IB_SA_MCMEMBER_REC_QKEY \<and> mc_qkey src \<noteq> mc_qkey dst then Some EINVAL
      else if has_flag comp_mask IB_SA_MCMEMBER_REC_MLID \<and> mc_mlid src \<noteq> mc_mlid dst then Some EINVAL
      else if check_selector comp_mask IB_SA_MCMEMBER_REC_MTU_SELECTOR IB_SA_MCMEMBER_REC_MTU (mc_mtu_selector dst) (mc_mtu src) (mc_mtu dst)
      then Some EINVAL
      else if has_flag comp_mask IB_SA_MCMEMBER_REC_TRAFFIC_CLASS \<and> mc_traffic_class src \<noteq> mc_traffic_class dst then Some EINVAL
      else if has_flag comp_mask IB_SA_MCMEMBER_REC_PKEY \<and> mc_pkey src \<noteq> mc_pkey dst then Some EINVAL
      else if check_selector comp_mask IB_SA_MCMEMBER_REC_RATE_SELECTOR IB_SA_MCMEMBER_REC_RATE (mc_rate_selector dst) (mc_rate src) (mc_rate dst)
      then Some EINVAL
      else if check_selector comp_mask IB_SA_MCMEMBER_REC_PACKET_LIFE_TIME_SELECTOR IB_SA_MCMEMBER_REC_PACKET_LIFE_TIME
                (mc_packet_life_time_selector dst) (mc_packet_life_time src) (mc_packet_life_time dst)
      then Some EINVAL
      else if has_flag comp_mask IB_SA_MCMEMBER_REC_SL \<and> mc_sl src \<noteq> mc_sl dst then Some EINVAL
      else if has_flag comp_mask IB_SA_MCMEMBER_REC_FLOW_LABEL \<and> mc_flow_label src \<noteq> mc_flow_label dst then Some EINVAL
      else if has_flag comp_mask IB_SA_MCMEMBER_REC_HOP_LIMIT \<and> mc_hop_limit src \<noteq> mc_hop_limit dst then Some EINVAL
      else if has_flag comp_mask IB_SA_MCMEMBER_REC_SCOPE \<and> mc_scope src \<noteq> mc_scope dst then Some EINVAL
      else None)"

section \<open>Groups and members\<close>

datatype ib_event_type = IB_EVENT_CQ_ERR | IB_EVENT_QP_FATAL | IB_EVENT_QP_REQ_ERR | IB_EVENT_QP_ACCESS_ERR | IB_EVENT_COMM_EST | IB_EVENT_SQ_DRAINED
  | IB_EVENT_PATH_MIG | IB_EVENT_PATH_MIG_ERR | IB_EVENT_DEVICE_FATAL | IB_EVENT_PORT_ACTIVE | IB_EVENT_PORT_ERR | IB_EVENT_LID_CHANGE | IB_EVENT_PKEY_CHANGE
  | IB_EVENT_SM_CHANGE | IB_EVENT_SRQ_ERR | IB_EVENT_SRQ_LIMIT_REACHED | IB_EVENT_QP_LAST_WQE_REACHED | IB_EVENT_CLIENT_REREGISTER | IB_EVENT_GID_CHANGE
  | IB_EVENT_WQ_FATAL | IB_EXP_EVENT_XRQ_QP_ERR | IB_EVENT_XRQ_NVMF_BACKEND_CTRL_PCI_ERR | IB_EVENT_XRQ_NVMF_BACKEND_CTRL_TO_ERR

datatype mcast_state = MCAST_JOINING | MCAST_MEMBER | MCAST_ERROR

datatype mcast_group_state = MCAST_IDLE | MCAST_BUSY | MCAST_GROUP_ERROR | MCAST_PKEY_EVENT

definition MCAST_INVALID_PKEY_INDEX :: u16 where "MCAST_INVALID_PKEY_INDEX = 0xFFFF"
definition NUM_JOIN_MEMBERSHIP_TYPES :: nat where "NUM_JOIN_MEMBERSHIP_TYPES = 4"
definition ENETRESET :: errno where "ENETRESET = EOTHER 102"

text \<open>\<open>m_cbs\<close> records the status values with which the client's callback was called; \<open>None\<close> is 0.\<close>

record mcast_member =
  m_rec :: ib_sa_mcmember_rec
  m_comp_mask :: u64
  m_state :: mcast_state
  m_refcount :: nat
  m_cbs :: "errno option list"

record mcast_group =
  g_rec :: ib_sa_mcmember_rec
  pending_list :: "nat list"
  active_list :: "nat list"
  last_join :: "nat option"
  members :: "int list"
  g_refcount :: nat
  g_state :: mcast_group_state
  g_pkey_index :: u16
  leave_state :: u8
  retries :: nat
  g_freed :: bool

definition new_member :: "ib_sa_mcmember_rec \<Rightarrow> u64 \<Rightarrow> mcast_member" where
  "new_member r comp_mask = \<lparr>m_rec = r, m_comp_mask = comp_mask, m_state = MCAST_JOINING, m_refcount = 1, m_cbs = []\<rparr>"

text \<open>A group as \<open>acquire_group\<close> makes it, before it takes the reference of the member.\<close>

definition new_group :: "128 word \<Rightarrow> ib_sa_mcmember_rec \<Rightarrow> mcast_group" where
  "new_group mgid zero =
     \<lparr>g_rec = zero\<lparr>mc_mgid := mgid\<rparr>, pending_list = [], active_list = [], last_join = None, members = replicate NUM_JOIN_MEMBERSHIP_TYPES 0,
      g_refcount = 0, g_state = MCAST_IDLE, g_pkey_index = MCAST_INVALID_PKEY_INDEX, leave_state = 0, retries = 3, g_freed = False\<rparr>"

definition zero_rec :: ib_sa_mcmember_rec where
  "zero_rec =
     \<lparr>mc_mgid = 0, mc_port_gid = 0, mc_qkey = 0, mc_mlid = 0, mc_mtu_selector = 0, mc_mtu = 0, mc_traffic_class = 0, mc_pkey = 0, mc_rate_selector = 0,
      mc_rate = 0, mc_packet_life_time_selector = 0, mc_packet_life_time = 0, mc_sl = 0, mc_flow_label = 0, mc_hop_limit = 0, mc_scope = 0,
      mc_join_state = 0, mc_proxy_join = 0\<rparr>"

fun adjust_loop :: "u8 \<Rightarrow> int \<Rightarrow> int list \<Rightarrow> int list" where
  "adjust_loop join_state inc [] = []"
| "adjust_loop join_state inc (n # ns) = (if join_state AND 1 \<noteq> 0 then n + inc else n) # adjust_loop (drop_bit 1 join_state) inc ns"

definition adjust_membership :: "u8 \<Rightarrow> int \<Rightarrow> mcast_group \<Rightarrow> mcast_group" where
  "adjust_membership join_state inc g = g\<lparr>members := adjust_loop join_state inc (members g)\<rparr>"

fun leave_loop :: "nat \<Rightarrow> int list \<Rightarrow> u8" where
  "leave_loop i [] = 0"
| "leave_loop i (n # ns) = (if n = 0 then push_bit i 1 else 0) OR leave_loop (i + 1) ns"

definition get_leave_state :: "mcast_group \<Rightarrow> u8" where
  "get_leave_state g = leave_loop 0 (members g) AND mc_join_state (g_rec g)"

text \<open>\<open>list_del_init\<close> of a member takes it out of the list it is in.\<close>

definition list_del_init :: "nat \<Rightarrow> mcast_group \<Rightarrow> mcast_group" where
  "list_del_init m g = g\<lparr>pending_list := removeAll m (pending_list g), active_list := removeAll m (active_list g)\<rparr>"

text \<open>The results of the following operations tell whether the group was freed, and whether its work item is queued.\<close>

definition release_group :: "mcast_group \<Rightarrow> mcast_group option" where
  "release_group g =
     (if g_freed g \<or> g_refcount g = 0 then None
      else let g = g\<lparr>g_refcount := g_refcount g - 1\<rparr> in Some (if g_refcount g = 0 then g\<lparr>g_freed := True\<rparr> else g))"

definition queue_join :: "nat \<Rightarrow> mcast_group \<Rightarrow> (bool \<times> mcast_group) option" where
  "queue_join m g =
     (if g_freed g then None
      else
        let g = g\<lparr>pending_list := pending_list g @ [m]\<rparr>
        in if g_state g = MCAST_IDLE then Some (True, g\<lparr>g_state := MCAST_BUSY, g_refcount := g_refcount g + 1\<rparr>) else Some (False, g))"

definition group_event :: "mcast_group_state \<Rightarrow> mcast_group \<Rightarrow> (bool \<times> mcast_group) option" where
  "group_event st g =
     (if g_freed g then None
      else
        let idle = (g_state g = MCAST_IDLE); g = (if idle then g\<lparr>g_refcount := g_refcount g + 1\<rparr> else g)
        in Some (idle, if g_state g \<noteq> MCAST_GROUP_ERROR then g\<lparr>g_state := st\<rparr> else g))"

text \<open>The locked part of \<open>ib_sa_free_multicast\<close>; the result tells whether the reference on the group goes on to the work item.\<close>

definition free_locked :: "nat \<Rightarrow> mcast_member \<Rightarrow> mcast_group \<Rightarrow> (bool \<times> mcast_group) option" where
  "free_locked m x g =
     (if g_freed g then None
      else
        let g = (if m_state x = MCAST_MEMBER then adjust_membership (mc_join_state (m_rec x)) (- 1) g else g);
            g = list_del_init m g
        in if g_state g = MCAST_IDLE then Some (True, g\<lparr>g_state := MCAST_BUSY\<rparr>) else Some (False, g))"

definition join_group :: "nat \<Rightarrow> u8 \<Rightarrow> mcast_member \<Rightarrow> mcast_group \<Rightarrow> mcast_member \<times> mcast_group" where
  "join_group m join_state x g =
     (let x = x\<lparr>m_state := MCAST_MEMBER\<rparr>;
          g = adjust_membership join_state 1 g;
          g = g\<lparr>g_rec := (g_rec g)\<lparr>mc_join_state := mc_join_state (g_rec g) OR join_state\<rparr>\<rparr>;
          x = x\<lparr>m_rec := (g_rec g)\<lparr>mc_join_state := join_state\<rparr>\<rparr>;
          g = list_del_init m g
      in (x, g\<lparr>active_list := m # active_list g\<rparr>))"

definition deref_member :: "mcast_member \<Rightarrow> mcast_member option" where
  "deref_member x = (if m_refcount x = 0 then None else Some (x\<lparr>m_refcount := m_refcount x - 1\<rparr>))"

section \<open>One group and its threads\<close>

text \<open>
  The place where the group's activity is: none, the work item is queued, \<open>mcast_work_handler\<close> is at its test, in \<open>process_group_error\<close> (before the lookup of
  the partition key, before the lock, in its loop), inside of a callback for a member with what follows it, in \<open>ib_sa_free_multicast\<close> after a callback that asked for
  it, before the join or the leave is sent or before \<open>fail_join\<close>, or a request to the SA is outstanding.
\<close>

datatype mc_next = K_test | K_err

datatype mc_pc = P_idle | P_queued | P_test | P_err | P_errlock "u16 option option" | P_errloop | P_cb nat "errno option" mc_next | P_wait nat mc_next
  | P_send nat | P_fail nat errno | P_leave u8 | Q_join | Q_leave

text \<open>The progress of a member: acquired its group, queued and in the client's hands, being freed (before the lock, before the release of the group, before the
  reference is given back, waiting for the last reference).\<close>

datatype mc_phase = M_acq | M_held | M_start | M_rel | M_deref | M_wait

text \<open>\<open>rel\<close> counts threads that are about to give back a reference on the group after they set it idle.\<close>

record mc_sys =
  grp :: mcast_group
  mids :: "nat list"
  mem :: "nat \<Rightarrow> mcast_member"
  phase :: "nat \<Rightarrow> mc_phase"
  pc :: mc_pc
  rel :: nat

definition upd_mem :: "nat \<Rightarrow> (mcast_member \<Rightarrow> mcast_member) \<Rightarrow> mc_sys \<Rightarrow> mc_sys" where
  "upd_mem m f s = s\<lparr>mem := (mem s)(m := f (mem s m))\<rparr>"

definition set_phase :: "nat \<Rightarrow> mc_phase \<Rightarrow> mc_sys \<Rightarrow> mc_sys" where
  "set_phase m p s = s\<lparr>phase := (phase s)(m := p)\<rparr>"

definition get_member :: "nat \<Rightarrow> mc_sys \<Rightarrow> mc_sys" where
  "get_member m s = upd_mem m (\<lambda>x. x\<lparr>m_refcount := m_refcount x + 1\<rparr>) s"

definition put_member :: "nat \<Rightarrow> mc_sys \<Rightarrow> mc_sys option" where
  "put_member m s =
     (if m \<notin> set (mids s) then None else map_option (\<lambda>x. s\<lparr>mem := (mem s)(m := x)\<rparr>) (deref_member (mem s m)))"

text \<open>\<open>queue_work\<close>: there is one work item; it must not be queued while the group is active.\<close>

definition queue_work :: "bool \<Rightarrow> mc_sys \<Rightarrow> mc_sys option" where
  "queue_work queue s = (if \<not> queue then Some s else if pc s = P_idle then Some (s\<lparr>pc := P_queued\<rparr>) else None)"

text \<open>The call of a member's callback.\<close>

definition call_back :: "nat \<Rightarrow> errno option \<Rightarrow> mc_next \<Rightarrow> mc_sys \<Rightarrow> mc_sys option" where
  "call_back m status k s =
     (if m \<notin> set (mids s) then None else Some ((upd_mem m (\<lambda>x. x\<lparr>m_cbs := m_cbs x @ [status]\<rparr>) s)\<lparr>pc := P_cb m status k\<rparr>))"

definition del_member :: "nat \<Rightarrow> mc_sys \<Rightarrow> mc_sys" where
  "del_member m s = s\<lparr>grp := list_del_init m (grp s)\<rparr>"

text \<open>The handler of the work item from its test of the lists up to the release of the lock.\<close>

definition mcast_work_handler :: "mc_sys \<Rightarrow> mc_sys option" where
  "mcast_work_handler s =
     (if g_freed (grp s) then None
      else if g_state (grp s) \<noteq> MCAST_BUSY then Some (s\<lparr>pc := P_err\<rparr>)
      else case pending_list (grp s) of
        m # _ \<Rightarrow>
          if m \<notin> set (mids s) then None
          else
            let js = mc_join_state (m_rec (mem s m)); s = get_member m s
            in if js = mc_join_state (g_rec (grp s)) AND js
               then case cmp_rec (g_rec (grp s)) (m_rec (mem s m)) (m_comp_mask (mem s m)) of
                   None \<Rightarrow>
                     let (x, g) = join_group m js (mem s m) (grp s)
                     in call_back m None K_test (s\<lparr>grp := g, mem := (mem s)(m := x)\<rparr>)
                 | Some e \<Rightarrow> call_back m (Some e) K_test (del_member m s)
               else Some (s\<lparr>pc := P_send m\<rparr>)
      | [] \<Rightarrow>
          let ls = get_leave_state (grp s)
          in if ls \<noteq> 0
             then Some (s\<lparr>grp := (grp s)\<lparr>g_rec := (g_rec (grp s))\<lparr>mc_join_state := mc_join_state (g_rec (grp s)) AND NOT ls\<rparr>\<rparr>, pc := P_leave ls\<rparr>)
             else Some (s\<lparr>grp := (grp s)\<lparr>g_state := MCAST_IDLE\<rparr>, pc := P_idle, rel := rel s + 1\<rparr>))"

text \<open>\<open>ret\<close> is the result of \<open>ib_sa_mcmember_rec_query\<close>.\<close>

definition send_join :: "errno option \<Rightarrow> nat \<Rightarrow> mc_sys \<Rightarrow> mc_sys option" where
  "send_join ret m s =
     (if g_freed (grp s) \<or> m \<notin> set (mids s) then None
      else
        let s = s\<lparr>grp := (grp s)\<lparr>last_join := Some m\<rparr>\<rparr>
        in case ret of None \<Rightarrow> map_option (\<lambda>s. s\<lparr>pc := Q_join\<rparr>) (put_member m s) | Some e \<Rightarrow> Some (s\<lparr>pc := P_fail m e\<rparr>))"

definition send_leave :: "u8 \<Rightarrow> mcast_group \<Rightarrow> mcast_group" where
  "send_leave ls g = g\<lparr>leave_state := ls\<rparr>"

definition fail_join :: "nat \<Rightarrow> errno \<Rightarrow> mc_sys \<Rightarrow> mc_sys option" where
  "fail_join m status s = (if g_freed (grp s) then None else call_back m (Some status) K_test (del_member m s))"

text \<open>
  \<open>process_group_error\<close>: the unlocked lookup (of the result \<open>pk\<close>, \<open>None\<close> when the key is not in the table), the test under the lock, and the loop over the active
  members. Using the index that was not looked up yields \<open>None\<close>.
\<close>

definition err_lookup :: "u16 option \<Rightarrow> mc_sys \<Rightarrow> mc_sys option" where
  "err_lookup pk s =
     (if g_freed (grp s) then None
      else Some (s\<lparr>pc := P_errlock (if g_state (grp s) = MCAST_PKEY_EVENT then Some pk else None)\<rparr>))"

definition err_loop :: "mc_sys \<Rightarrow> mc_sys option" where
  "err_loop s =
     (if g_freed (grp s) then None
      else case active_list (grp s) of
        m # _ \<Rightarrow>
          if m \<notin> set (mids s) then None
          else
            let s = del_member m (get_member m s);
                s = s\<lparr>grp := adjust_membership (mc_join_state (m_rec (mem s m))) (- 1) (grp s)\<rparr>
            in call_back m (Some ENETRESET) K_err (upd_mem m (\<lambda>x. x\<lparr>m_state := MCAST_ERROR\<rparr>) s)
      | [] \<Rightarrow> Some (s\<lparr>grp := (grp s)\<lparr>g_rec := (g_rec (grp s))\<lparr>mc_join_state := 0\<rparr>, g_state := MCAST_BUSY\<rparr>, pc := P_test\<rparr>))"

definition process_group_error :: "u16 option option \<Rightarrow> mc_sys \<Rightarrow> mc_sys option" where
  "process_group_error lookup s =
     (if g_freed (grp s) then None
      else if g_state (grp s) = MCAST_PKEY_EVENT
      then case lookup of
          None \<Rightarrow> None
        | Some pk \<Rightarrow>
            if pk = Some (g_pkey_index (grp s)) then Some (s\<lparr>grp := (grp s)\<lparr>g_state := MCAST_BUSY\<rparr>, pc := P_test\<rparr>) else err_loop s
      else err_loop s)"

definition process_join_error :: "errno \<Rightarrow> mc_sys \<Rightarrow> mc_sys option" where
  "process_join_error status s =
     (if g_freed (grp s) then None
      else case pending_list (grp s) of
        m # _ \<Rightarrow>
          if last_join (grp s) = Some m
          then if m \<notin> set (mids s) then None else call_back m (Some status) K_test (del_member m (get_member m s))
          else Some (s\<lparr>pc := P_test\<rparr>)
      | [] \<Rightarrow> Some (s\<lparr>pc := P_test\<rparr>))"

text \<open>The answers of the SA; \<open>pk\<close> is the result of \<open>ib_find_pkey\<close> and \<open>ret\<close> that of sending the leave once more. The move of the group in the port's table is
  \<open>port_rekey\<close> of the theory \<open>Mcast_Table\<close>, as is the table in \<open>release_group\<close> and \<open>acquire_group\<close>.\<close>

definition join_handler :: "errno option \<Rightarrow> ib_sa_mcmember_rec \<Rightarrow> u16 option \<Rightarrow> mc_sys \<Rightarrow> mc_sys option" where
  "join_handler status r pk s =
     (case status of
        Some e \<Rightarrow> process_join_error e s
      | None \<Rightarrow>
          if g_freed (grp s) then None
          else
            let g = grp s; pkey_index = (case pk of None \<Rightarrow> MCAST_INVALID_PKEY_INDEX | Some i \<Rightarrow> i);
                g = (if g_state g = MCAST_BUSY \<and> g_pkey_index g = MCAST_INVALID_PKEY_INDEX then g\<lparr>g_pkey_index := pkey_index\<rparr> else g)
            in Some (s\<lparr>grp := g\<lparr>g_rec := r\<rparr>, pc := P_test\<rparr>))"

definition leave_handler :: "errno option \<Rightarrow> errno option \<Rightarrow> mc_sys \<Rightarrow> mc_sys option" where
  "leave_handler status ret s =
     (if g_freed (grp s) then None
      else if status \<noteq> None \<and> retries (grp s) > 0
      then
        let g = send_leave (leave_state (grp s)) (grp s)
        in if ret = None then Some (s\<lparr>grp := g\<lparr>retries := retries g - 1\<rparr>, pc := Q_leave\<rparr>) else Some (s\<lparr>grp := g, pc := P_test\<rparr>)
      else Some (s\<lparr>pc := P_test\<rparr>))"

fun after_cb :: "mc_next \<Rightarrow> mc_pc" where
  "after_cb K_test = P_test" | "after_cb K_err = P_errloop"

text \<open>The return of a callback, and the steps of \<open>ib_sa_join_multicast\<close> and \<open>ib_sa_free_multicast\<close>.\<close>

definition cb_return :: "int \<Rightarrow> nat \<Rightarrow> mc_next \<Rightarrow> mc_sys \<Rightarrow> mc_sys option" where
  "cb_return r m k s =
     map_option (\<lambda>s. if r = 0 then s\<lparr>pc := after_cb k\<rparr> else (set_phase m M_start s)\<lparr>pc := P_wait m k\<rparr>) (put_member m s)"

definition join_acquire :: "nat \<Rightarrow> ib_sa_mcmember_rec \<Rightarrow> u64 \<Rightarrow> mc_sys \<Rightarrow> mc_sys option" where
  "join_acquire m r comp_mask s =
     (if g_freed (grp s) then None
      else Some ((set_phase m M_acq s)\<lparr>mids := m # mids s, mem := (mem s)(m := new_member r comp_mask),
                   grp := (grp s)\<lparr>g_refcount := g_refcount (grp s) + 1\<rparr>\<rparr>))"

definition join_queue :: "nat \<Rightarrow> mc_sys \<Rightarrow> mc_sys option" where
  "join_queue m s = do { (queue, g) \<leftarrow> queue_join m (grp s); queue_work queue ((set_phase m M_held s)\<lparr>grp := g\<rparr>) }"

definition free_lock :: "nat \<Rightarrow> mc_sys \<Rightarrow> mc_sys option" where
  "free_lock m s =
     (if m \<notin> set (mids s) then None
      else do {
        (queue, g) \<leftarrow> free_locked m (mem s m) (grp s);
        queue_work queue ((set_phase m (if queue then M_deref else M_rel) s)\<lparr>grp := g\<rparr>)
      })"

definition free_release :: "nat \<Rightarrow> mc_sys \<Rightarrow> mc_sys option" where
  "free_release m s = map_option (\<lambda>g. (set_phase m M_deref s)\<lparr>grp := g\<rparr>) (release_group (grp s))"

definition free_deref :: "nat \<Rightarrow> mc_sys \<Rightarrow> mc_sys option" where
  "free_deref m s = map_option (set_phase m M_wait) (put_member m s)"

definition free_done :: "nat \<Rightarrow> mc_sys \<Rightarrow> mc_sys option" where
  "free_done m s =
     (if m \<notin> set (mids s) then None
      else Some (s\<lparr>mids := removeAll m (mids s), pc := (case pc s of P_wait n k \<Rightarrow> if n = m then after_cb k else pc s | _ \<Rightarrow> pc s)\<rparr>))"

definition mcast_event :: "mcast_group_state \<Rightarrow> mc_sys \<Rightarrow> mc_sys option" where
  "mcast_event st s = do { (queue, g) \<leftarrow> group_event st (grp s); queue_work queue (s\<lparr>grp := g\<rparr>) }"

text \<open>\<open>cap\<close> tells whether the port supports multicast, \<open>rdma_cap_ib_mcast\<close>.\<close>

definition mcast_event_handler :: "bool \<Rightarrow> ib_event_type \<Rightarrow> mc_sys \<Rightarrow> mc_sys option" where
  "mcast_event_handler cap ev s =
     (if \<not> cap then Some s
      else if ev \<in> {IB_EVENT_PORT_ERR, IB_EVENT_LID_CHANGE, IB_EVENT_CLIENT_REREGISTER} then mcast_event MCAST_GROUP_ERROR s
      else if ev = IB_EVENT_PKEY_CHANGE then mcast_event MCAST_PKEY_EVENT s
      else Some s)"

definition work_release :: "mc_sys \<Rightarrow> mc_sys option" where
  "work_release s = map_option (\<lambda>g. s\<lparr>grp := g, rel := rel s - 1\<rparr>) (release_group (grp s))"

end
