(* ===== verification/Mcast_Safety.thy ===== *)
theory Mcast_Safety
  imports Mcast
begin

unbundle bit_operations_syntax

text \<open>
  The threads around one multicast group and their invariant: the group is freed exactly with its last user, it has one activity at a time, the counts of
  members agree with the members, every join gets one answer, and an idle group has joined exactly what its members asked for.
\<close>

section \<open>Steps\<close>

datatype mc_act = C_join nat ib_sa_mcmember_rec u64 | C_queue nat | C_free nat | F_lock nat | F_release nat | F_deref nat | F_done nat
  | C_event bool ib_event_type | W_start | W_test | W_lookup "u16 option" | W_errlock | W_errloop | W_send "errno option" | W_fail | W_leave "errno option"
  | Cb_return int | Q_joined "errno option" ib_sa_mcmember_rec "u16 option" | Q_left "errno option" "errno option" | W_release

text \<open>
  What may happen: the client frees a member at most once, and returns an error from a callback only for a member it does not free itself; a join finds the group as long as it
  is in the table. When \<open>sa\<close> is set, the answer to a join includes the join states that the SA has granted before.
\<close>

fun mc_may :: "bool \<Rightarrow> mc_act \<Rightarrow> mc_sys \<Rightarrow> bool" where
  "mc_may sa (C_join m r comp_mask) s \<longleftrightarrow> \<not> g_freed (grp s) \<and> m \<notin> set (mids s)"
| "mc_may sa (C_queue m) s \<longleftrightarrow> m \<in> set (mids s) \<and> phase s m = M_acq"
| "mc_may sa (C_free m) s \<longleftrightarrow> m \<in> set (mids s) \<and> phase s m = M_held"
| "mc_may sa (F_lock m) s \<longleftrightarrow> m \<in> set (mids s) \<and> phase s m = M_start"
| "mc_may sa (F_release m) s \<longleftrightarrow> m \<in> set (mids s) \<and> phase s m = M_rel"
| "mc_may sa (F_deref m) s \<longleftrightarrow> m \<in> set (mids s) \<and> phase s m = M_deref"
| "mc_may sa (F_done m) s \<longleftrightarrow> m \<in> set (mids s) \<and> phase s m = M_wait \<and> m_refcount (mem s m) = 0"
| "mc_may sa (C_event cap ev) s \<longleftrightarrow> \<not> g_freed (grp s)"
| "mc_may sa W_start s \<longleftrightarrow> pc s = P_queued"
| "mc_may sa W_test s \<longleftrightarrow> pc s = P_test"
| "mc_may sa (W_lookup pk) s \<longleftrightarrow> pc s = P_err"
| "mc_may sa W_errlock s \<longleftrightarrow> (case pc s of P_errlock lk \<Rightarrow> True | _ \<Rightarrow> False)"
| "mc_may sa W_errloop s \<longleftrightarrow> pc s = P_errloop"
| "mc_may sa (W_send ret) s \<longleftrightarrow> (case pc s of P_send m \<Rightarrow> True | _ \<Rightarrow> False)"
| "mc_may sa W_fail s \<longleftrightarrow> (case pc s of P_fail m e \<Rightarrow> True | _ \<Rightarrow> False)"
| "mc_may sa (W_leave ret) s \<longleftrightarrow> (case pc s of P_leave ls \<Rightarrow> True | _ \<Rightarrow> False)"
| "mc_may sa (Cb_return r) s \<longleftrightarrow> (case pc s of P_cb m st k \<Rightarrow> r \<noteq> 0 \<longrightarrow> phase s m = M_held | _ \<Rightarrow> False)"
| "mc_may sa (Q_joined st r pk) s \<longleftrightarrow> pc s = Q_join \<and> (sa \<and> st = None \<longrightarrow> covers (mc_join_state r) (mc_join_state (g_rec (grp s))))"
| "mc_may sa (Q_left st ret) s \<longleftrightarrow> pc s = Q_leave"
| "mc_may sa W_release s \<longleftrightarrow> 0 < rel s"

fun mc_do :: "mc_act \<Rightarrow> mc_sys \<Rightarrow> mc_sys option" where
  "mc_do (C_join m r comp_mask) s = join_acquire m r comp_mask s"
| "mc_do (C_queue m) s = join_queue m s"
| "mc_do (C_free m) s = Some (set_phase m M_start s)"
| "mc_do (F_lock m) s = free_lock m s"
| "mc_do (F_release m) s = free_release m s"
| "mc_do (F_deref m) s = free_deref m s"
| "mc_do (F_done m) s = free_done m s"
| "mc_do (C_event cap ev) s = mcast_event_handler cap ev s"
| "mc_do W_start s = Some (s\<lparr>pc := P_test\<rparr>)"
| "mc_do W_test s = mcast_work_handler s"
| "mc_do (W_lookup pk) s = err_lookup pk s"
| "mc_do W_errlock s = (case pc s of P_errlock lk \<Rightarrow> process_group_error lk s | _ \<Rightarrow> Some s)"
| "mc_do W_errloop s = err_loop s"
| "mc_do (W_send ret) s = (case pc s of P_send m \<Rightarrow> send_join ret m s | _ \<Rightarrow> Some s)"
| "mc_do W_fail s = (case pc s of P_fail m e \<Rightarrow> fail_join m e s | _ \<Rightarrow> Some s)"
| "mc_do (W_leave ret) s =
     (case pc s of
        P_leave ls \<Rightarrow> if g_freed (grp s) then None else Some (s\<lparr>grp := send_leave ls (grp s), pc := (if ret = None then Q_leave else P_test)\<rparr>)
      | _ \<Rightarrow> Some s)"
| "mc_do (Cb_return r) s = (case pc s of P_cb m st k \<Rightarrow> cb_return r m k s | _ \<Rightarrow> Some s)"
| "mc_do (Q_joined st r pk) s = join_handler st r pk s"
| "mc_do (Q_left st ret) s = leave_handler st ret s"
| "mc_do W_release s = work_release s"

text \<open>A group begins with the member for which \<open>acquire_group\<close> made it.\<close>

definition mc_init :: "nat \<Rightarrow> ib_sa_mcmember_rec \<Rightarrow> u64 \<Rightarrow> mc_sys" where
  "mc_init m r comp_mask =
     \<lparr>grp = (new_group (mc_mgid r) zero_rec)\<lparr>g_refcount := 1\<rparr>, mids = [m], mem = (\<lambda>_. new_member r comp_mask), phase = (\<lambda>_. M_acq), pc = P_idle, rel = 0\<rparr>"

inductive mc_reach :: "bool \<Rightarrow> mc_sys \<Rightarrow> bool" for sa where
  mc_start: "mc_reach sa (mc_init m r comp_mask)"
| mc_step: "mc_reach sa s \<Longrightarrow> mc_may sa a s \<Longrightarrow> mc_do a s = Some s' \<Longrightarrow> mc_reach sa s'"

section \<open>Counting loops\<close>

lemma adjust_loop_nth: "adjust_loop js d ns = map (\<lambda>i. ns ! i + (if bit js i then d else 0)) [0..<length ns]"
proof (induction js d ns rule: adjust_loop.induct)
  case (2 js d n ns)
  have "(if js AND 1 \<noteq> 0 then n + d else n) = n + (if bit js 0 then d else 0)" by (simp add: and_one_eq bit_0 odd_iff_mod_2_eq_one)
  moreover have "adjust_loop (drop_bit 1 js) d ns = map (\<lambda>i. ns ! i + (if bit js (Suc i) then d else 0)) [0..<length ns]"
    using 2 by (simp add: bit_drop_bit_eq)
  ultimately show ?case by (simp add: upt_conv_Cons map_Suc_upt [symmetric] del: upt_Suc)
qed simp

lemma leave_loop_bit: "i + length ns \<le> 8 \<Longrightarrow> bit (leave_loop i ns) n \<longleftrightarrow> i \<le> n \<and> n < i + length ns \<and> ns ! (n - i) = 0"
proof (induction ns arbitrary: i)
  case (Cons x ns)
  then show ?case by (cases "n = i") (auto simp: bit_or_iff bit_exp_iff nth_Cons' le_Suc_eq Suc_diff_Suc)
qed simp

section \<open>The invariant\<close>

definition grefs :: "mc_sys \<Rightarrow> nat" where
  "grefs s = length (filter (\<lambda>m. phase s m \<in> {M_acq, M_held, M_start, M_rel}) (mids s))"

definition listed :: "mc_sys \<Rightarrow> nat \<Rightarrow> bool" where
  "listed s m \<longleftrightarrow> phase s m = M_held \<or> phase s m = M_start"

text \<open>The member that the activity holds a reference on.\<close>

fun held :: "mc_pc \<Rightarrow> nat option" where
  "held (P_cb m st k) = Some m" | "held (P_send m) = Some m" | "held (P_fail m e) = Some m" | "held _ = None"

fun sends :: "mc_pc \<Rightarrow> nat option" where
  "sends (P_send m) = Some m" | "sends (P_fail m e) = Some m" | "sends _ = None"

definition group_inv :: "mc_sys \<Rightarrow> bool" where
  "group_inv s \<longleftrightarrow> g_refcount (grp s) = grefs s + (if g_state (grp s) = MCAST_IDLE then 0 else 1) + rel s \<and>
     (g_freed (grp s) \<longleftrightarrow> g_refcount (grp s) = 0) \<and> (g_state (grp s) = MCAST_IDLE \<longleftrightarrow> pc s = P_idle)"

definition list_inv :: "mc_sys \<Rightarrow> bool" where
  "list_inv s \<longleftrightarrow> distinct (mids s) \<and> distinct (pending_list (grp s)) \<and> distinct (active_list (grp s)) \<and>
     (\<forall>m \<in> set (pending_list (grp s)). m \<in> set (mids s) \<and> listed s m \<and> m_state (mem s m) = MCAST_JOINING) \<and>
     (\<forall>m. m \<in> set (active_list (grp s)) \<longleftrightarrow> m \<in> set (mids s) \<and> listed s m \<and> m_state (mem s m) = MCAST_MEMBER)"

definition mref_inv :: "mc_sys \<Rightarrow> bool" where
  "mref_inv s \<longleftrightarrow> (\<forall>m \<in> set (mids s). m_refcount (mem s m) = (if phase s m = M_wait then 0 else 1) + (if held (pc s) = Some m then 1 else 0)) \<and>
     (\<forall>m. held (pc s) = Some m \<longrightarrow> m \<in> set (mids s) \<and> phase s m \<noteq> M_acq) \<and>
     (\<forall>m k. pc s = P_wait m k \<longrightarrow> m \<in> set (mids s) \<and> phase s m \<in> {M_start, M_rel, M_deref, M_wait})"

definition joined :: "mc_sys \<Rightarrow> nat \<Rightarrow> u8" where
  "joined s m = mc_join_state (m_rec (mem s m))"

definition cnts :: "(nat \<Rightarrow> u8) \<Rightarrow> nat list \<Rightarrow> int list" where
  "cnts f l = map (\<lambda>i. int (length (filter (\<lambda>m. bit (f m) i) l))) [0..<4]"

definition count_inv :: "mc_sys \<Rightarrow> bool" where
  "count_inv s \<longleftrightarrow> members (grp s) = cnts (joined s) (active_list (grp s))"

definition idle_inv :: "mc_sys \<Rightarrow> bool" where
  "idle_inv s \<longleftrightarrow> (g_state (grp s) = MCAST_IDLE \<longrightarrow> pending_list (grp s) = [] \<and> get_leave_state (grp s) = 0) \<and>
     (pc s = P_errlock None \<longrightarrow> g_state (grp s) = MCAST_GROUP_ERROR) \<and> (pc s = P_err \<longrightarrow> g_state (grp s) \<noteq> MCAST_BUSY)"

fun answers_ok :: "mcast_state \<Rightarrow> bool \<Rightarrow> errno option list \<Rightarrow> bool" where
  "answers_ok MCAST_JOINING waits l \<longleftrightarrow> (if waits then l = [] else \<exists>e. l = [Some e])"
| "answers_ok MCAST_MEMBER waits l \<longleftrightarrow> l = [None]"
| "answers_ok MCAST_ERROR waits l \<longleftrightarrow> l = [None, Some ENETRESET]"

definition answer_inv :: "mc_sys \<Rightarrow> bool" where
  "answer_inv s \<longleftrightarrow> (\<forall>m \<in> set (mids s).
       (phase s m = M_acq \<longrightarrow> m_state (mem s m) = MCAST_JOINING \<and> m_cbs (mem s m) = []) \<and>
       (listed s m \<longrightarrow> answers_ok (m_state (mem s m)) (m \<in> set (pending_list (grp s))) (m_cbs (mem s m)))) \<and>
     (\<forall>m. sends (pc s) = Some m \<and> listed s m \<longrightarrow> m \<in> set (pending_list (grp s)))"

definition cover_inv :: "mc_sys \<Rightarrow> bool" where
  "cover_inv s \<longleftrightarrow> (\<forall>m \<in> set (active_list (grp s)). covers (mc_join_state (g_rec (grp s))) (joined s m))"

definition mc_inv :: "bool \<Rightarrow> mc_sys \<Rightarrow> bool" where
  "mc_inv sa s \<longleftrightarrow> group_inv s \<and> list_inv s \<and> mref_inv s \<and> count_inv s \<and> idle_inv s \<and> answer_inv s \<and> (sa \<longrightarrow> cover_inv s)"

lemma mc_invI:
  "group_inv s \<Longrightarrow> list_inv s \<Longrightarrow> mref_inv s \<Longrightarrow> count_inv s \<Longrightarrow> idle_inv s \<Longrightarrow> answer_inv s \<Longrightarrow> (sa \<Longrightarrow> cover_inv s) \<Longrightarrow> mc_inv sa s"
  by (simp add: mc_inv_def)

lemma mc_invD:
  assumes "mc_inv sa s"
  shows "group_inv s" "list_inv s" "mref_inv s" "count_inv s" "idle_inv s" "answer_inv s" "sa \<Longrightarrow> cover_inv s"
  using assms by (simp_all add: mc_inv_def)

text \<open>Two states that agree on the members and lists.\<close>

definition same_lists :: "mc_sys \<Rightarrow> mc_sys \<Rightarrow> bool" where
  "same_lists s' s \<longleftrightarrow> mids s' = mids s \<and> phase s' = phase s \<and> mem s' = mem s \<and> pending_list (grp s') = pending_list (grp s) \<and>
     active_list (grp s') = active_list (grp s) \<and> members (grp s') = members (grp s)"

lemma same_listsD:
  assumes "same_lists s' s"
  shows "mids s' = mids s" "phase s' = phase s" "mem s' = mem s" "pending_list (grp s') = pending_list (grp s)" "active_list (grp s') = active_list (grp s)"
    "members (grp s') = members (grp s)" "listed s' = listed s" "joined s' = joined s" "grefs s' = grefs s"
  using assms by (auto simp: same_lists_def listed_def joined_def grefs_def fun_eq_iff)

lemma inv_group_step:
  assumes s: "mc_inv sa s" and l: "same_lists s' s" and g: "group_inv s'" and p: "held (pc s') = held (pc s)" "\<And>m k. pc s' = P_wait m k \<Longrightarrow> pc s = P_wait m k"
    "sends (pc s') = None \<or> sends (pc s') = sends (pc s)" and i: "idle_inv s'"
    and c: "sa \<Longrightarrow> active_list (grp s) \<noteq> [] \<Longrightarrow> covers (mc_join_state (g_rec (grp s'))) (mc_join_state (g_rec (grp s))) \<or> cover_inv s'"
  shows "mc_inv sa s'"
proof (rule mc_invI [OF g _ _ _ i])
  note L = same_listsD [OF l]
  show "list_inv s'" using mc_invD(2) [OF s] by (simp add: list_inv_def L)
  show "mref_inv s'" using mc_invD(3) [OF s] p(2) unfolding mref_inv_def L p(1) by blast
  show "count_inv s'" using mc_invD(4) [OF s] by (simp add: count_inv_def L)
  show "answer_inv s'" using mc_invD(6) [OF s] p(3) by (auto simp: answer_inv_def L)
  show "cover_inv s'" if sa: sa
  proof (cases "cover_inv s'")
    case False
    then have "active_list (grp s) \<noteq> []" by (auto simp: cover_inv_def L)
    then show ?thesis using c sa False mc_invD(7) [OF s sa] covers_trans by (fastforce simp: cover_inv_def L)
  qed
qed

definition mc_step_ok :: "bool \<Rightarrow> mc_act \<Rightarrow> bool" where
  "mc_step_ok sa a \<longleftrightarrow> (\<forall>s. mc_inv sa s \<longrightarrow> mc_may sa a s \<longrightarrow> (\<exists>s'. mc_do a s = Some s' \<and> mc_inv sa s'))"

lemma mc_step_okI: "(\<And>s. mc_inv sa s \<Longrightarrow> mc_may sa a s \<Longrightarrow> \<exists>s'. mc_do a s = Some s' \<and> mc_inv sa s') \<Longrightarrow> mc_step_ok sa a"
  by (simp add: mc_step_ok_def)

lemma active_alive: "mc_inv sa s \<Longrightarrow> pc s \<noteq> P_idle \<Longrightarrow> \<not> g_freed (grp s)"
  by (simp add: mc_inv_def group_inv_def)

lemma member_alive:
  assumes "mc_inv sa s" "m \<in> set (mids s)" "phase s m \<in> {M_acq, M_held, M_start, M_rel}"
  shows "\<not> g_freed (grp s)"
proof -
  have "0 < grefs s" using assms(2,3) by (auto simp: grefs_def length_greater_0_conv [symmetric] simp del: length_greater_0_conv intro!: length_pos_if_in_set [of m])
  then show ?thesis using mc_invD(1) [OF assms(1)] by (simp add: group_inv_def)
qed

lemma busy_pc: "mc_inv sa s \<Longrightarrow> pc s \<noteq> P_idle \<Longrightarrow> g_state (grp s) \<noteq> MCAST_IDLE"
  by (simp add: mc_inv_def group_inv_def)

lemma mc_step_start: "mc_step_ok sa W_start"
proof (rule mc_step_okI)
  fix s assume s: "mc_inv sa s" "mc_may sa W_start s"
  then have p: "pc s = P_queued" by simp
  have "mc_inv sa (s\<lparr>pc := P_test\<rparr>)"
    by (rule inv_group_step [OF s(1)])
      (use p mc_invD(1,5) [OF s(1)] in \<open>auto simp: same_lists_def group_inv_def grefs_def idle_inv_def\<close>)
  then show "\<exists>s'. mc_do W_start s = Some s' \<and> mc_inv sa s'" by simp
qed

text \<open>Steps that leave the members and the lists alone.\<close>

lemmas group_defs = same_lists_def group_inv_def grefs_def idle_inv_def

lemma mc_step_lookup: "mc_step_ok sa (W_lookup pk)"
proof (rule mc_step_okI)
  fix s assume s: "mc_inv sa s" "mc_may sa (W_lookup pk) s"
  then have p: "pc s = P_err" by simp
  have "g_state (grp s) \<noteq> MCAST_IDLE" "g_state (grp s) \<noteq> MCAST_BUSY" using busy_pc [OF s(1)] mc_invD(5) [OF s(1)] p by (auto simp: idle_inv_def)
  then have e: "g_state (grp s) = MCAST_PKEY_EVENT \<or> g_state (grp s) = MCAST_GROUP_ERROR" by (cases "g_state (grp s)") auto
  have "mc_inv sa (s\<lparr>pc := P_errlock (if g_state (grp s) = MCAST_PKEY_EVENT then Some pk else None)\<rparr>)"
    by (rule inv_group_step [OF s(1)]) (use p e mc_invD(1,5) [OF s(1)] in \<open>auto simp: group_defs\<close>)
  then show "\<exists>s'. mc_do (W_lookup pk) s = Some s' \<and> mc_inv sa s'" using active_alive [OF s(1)] p by (simp add: err_lookup_def)
qed

lemma mc_step_leave: "mc_step_ok sa (W_leave ret)"
proof (rule mc_step_okI)
  fix s assume s: "mc_inv sa s" "mc_may sa (W_leave ret) s"
  then obtain ls where p: "pc s = P_leave ls" by (auto split: mc_pc.splits)
  have "mc_inv sa (s\<lparr>grp := send_leave ls (grp s), pc := (if ret = None then Q_leave else P_test)\<rparr>)"
    by (rule inv_group_step [OF s(1)]) (use p mc_invD(1,5) [OF s(1)] in \<open>auto simp: group_defs send_leave_def split: if_splits\<close>)
  then show "\<exists>s'. mc_do (W_leave ret) s = Some s' \<and> mc_inv sa s'" using active_alive [OF s(1)] p by simp
qed

lemma mc_step_left: "mc_step_ok sa (Q_left st ret)"
proof (rule mc_step_okI)
  fix s assume s: "mc_inv sa s" "mc_may sa (Q_left st ret) s"
  then have p: "pc s = Q_leave" by simp
  note nf = active_alive [OF s(1)]
  let ?g = "send_leave (leave_state (grp s)) (grp s)"
  have "mc_inv sa (s\<lparr>grp := ?g\<lparr>retries := retries ?g - 1\<rparr>, pc := Q_leave\<rparr>)" "mc_inv sa (s\<lparr>grp := ?g, pc := P_test\<rparr>)" "mc_inv sa (s\<lparr>pc := P_test\<rparr>)"
    by (rule inv_group_step [OF s(1)]; use p mc_invD(1,5) [OF s(1)] in \<open>auto simp: group_defs send_leave_def\<close>)+
  then show "\<exists>s'. mc_do (Q_left st ret) s = Some s' \<and> mc_inv sa s'" using nf p by (simp add: leave_handler_def Let_def)
qed

lemma mcast_event_ok:
  assumes s: "mc_inv sa s" and nf: "\<not> g_freed (grp s)" and st: "st = MCAST_GROUP_ERROR \<or> st = MCAST_PKEY_EVENT"
  shows "\<exists>s'. mcast_event st s = Some s' \<and> mc_inv sa s'"
proof (cases "g_state (grp s) = MCAST_IDLE")
  case True
  then have p: "pc s = P_idle" using mc_invD(1) [OF s] by (simp add: group_inv_def)
  have "mc_inv sa (s\<lparr>grp := (grp s)\<lparr>g_refcount := g_refcount (grp s) + 1, g_state := st\<rparr>, pc := P_queued\<rparr>)"
    by (rule inv_group_step [OF s]) (use p st True nf mc_invD(1,5) [OF s] in \<open>auto simp: group_defs\<close>)
  then show ?thesis using nf True p by (simp add: mcast_event_def group_event_def queue_work_def Let_def)
next
  case False
  let ?g = "if g_state (grp s) \<noteq> MCAST_GROUP_ERROR then (grp s)\<lparr>g_state := st\<rparr> else grp s"
  have "mc_inv sa (s\<lparr>grp := ?g\<rparr>)"
    by (rule inv_group_step [OF s]) (use st False nf mc_invD(1,5) [OF s] in \<open>auto simp: group_defs\<close>)
  then show ?thesis using nf False by (cases "g_state (grp s) = MCAST_GROUP_ERROR") (simp_all add: mcast_event_def group_event_def queue_work_def)
qed

lemma mc_step_event: "mc_step_ok sa (C_event cap ev)"
proof (rule mc_step_okI)
  fix s assume s: "mc_inv sa s" "mc_may sa (C_event cap ev) s"
  then show "\<exists>s'. mc_do (C_event cap ev) s = Some s' \<and> mc_inv sa s'"
    using mcast_event_ok [OF s(1), of MCAST_GROUP_ERROR] mcast_event_ok [OF s(1), of MCAST_PKEY_EVENT] by (simp add: mcast_event_handler_def)
qed

definition less_ref :: "mcast_group \<Rightarrow> mcast_group" where
  "less_ref g = g\<lparr>g_refcount := g_refcount g - 1, g_freed := (g_refcount g = 1)\<rparr>"

lemma release_group_eq:
  assumes "\<not> g_freed g" "0 < g_refcount g"
  shows "release_group g = Some (less_ref g)"
proof -
  have "g_refcount g - 1 \<noteq> 0 \<Longrightarrow> g\<lparr>g_refcount := g_refcount g - 1\<rparr> = less_ref g" using assms by (cases g) (simp add: less_ref_def)
  moreover have "g_refcount g - 1 = 0 \<Longrightarrow> g\<lparr>g_refcount := g_refcount g - 1, g_freed := True\<rparr> = less_ref g" using assms by (simp add: less_ref_def)
  ultimately show ?thesis using assms by (simp add: release_group_def Let_def)
qed

lemma less_ref_simps [simp]: "pending_list (less_ref g) = pending_list g" "active_list (less_ref g) = active_list g" "members (less_ref g) = members g"
  "g_state (less_ref g) = g_state g" "g_rec (less_ref g) = g_rec g" "get_leave_state (less_ref g) = get_leave_state g" "g_refcount (less_ref g) = g_refcount g - 1"
  "g_freed (less_ref g) \<longleftrightarrow> g_refcount g = 1" "last_join (less_ref g) = last_join g"
  by (simp_all add: less_ref_def get_leave_state_def)

lemma mc_step_release: "mc_step_ok sa W_release"
proof (rule mc_step_okI)
  fix s assume s: "mc_inv sa s" "mc_may sa W_release s"
  then have p: "0 < rel s" by simp
  have r: "0 < g_refcount (grp s)" "\<not> g_freed (grp s)" using mc_invD(1) [OF s(1)] p by (simp_all add: group_inv_def)
  have "mc_inv sa (s\<lparr>grp := less_ref (grp s), rel := rel s - 1\<rparr>)"
    by (rule inv_group_step [OF s(1)]) (use p r mc_invD(1,5) [OF s(1)] in \<open>auto simp: group_defs\<close>)
  then show "\<exists>s'. mc_do W_release s = Some s' \<and> mc_inv sa s'" using r by (simp add: work_release_def release_group_eq)
qed

lemma leave_state_bits:
  assumes "count_inv s"
  shows "bit (get_leave_state (grp s)) i \<longleftrightarrow> i < 4 \<and> bit (mc_join_state (g_rec (grp s))) i \<and> (\<forall>m \<in> set (active_list (grp s)). \<not> bit (joined s m) i)"
proof -
  have "members (grp s) = cnts (joined s) (active_list (grp s))" using assms by (simp add: count_inv_def)
  then have "i < 4 \<Longrightarrow> members (grp s) ! i = 0 \<longleftrightarrow> (\<forall>m \<in> set (active_list (grp s)). \<not> bit (joined s m) i)" "length (members (grp s)) = 4"
    by (simp_all add: cnts_def filter_empty_conv)
  then show ?thesis using leave_loop_bit [of 0 "members (grp s)" i] by (auto simp: get_leave_state_def bit_and_iff)
qed

lemma test_leave:
  assumes s: "mc_inv sa s" and p: "pc s = P_test" "g_state (grp s) = MCAST_BUSY" and ls: "ls = get_leave_state (grp s)"
  shows "mc_inv sa (s\<lparr>grp := (grp s)\<lparr>g_rec := (g_rec (grp s))\<lparr>mc_join_state := mc_join_state (g_rec (grp s)) AND NOT ls\<rparr>\<rparr>, pc := P_leave ls\<rparr>)" (is "mc_inv sa ?s")
proof (rule inv_group_step [OF s])
  assume sa
  have "covers (mc_join_state (g_rec (grp s)) AND NOT ls) (joined s m)" if m: "m \<in> set (active_list (grp s))" for m
    unfolding covers_iff_bits
  proof (intro allI impI)
    fix n assume n: "bit (joined s m) n"
    then have "bit (mc_join_state (g_rec (grp s))) n" using mc_invD(7) [OF s \<open>sa\<close>] m by (auto simp: cover_inv_def covers_iff_bits)
    moreover have "\<not> bit ls n" using leave_state_bits [OF mc_invD(4) [OF s], of n] ls m n by blast
    ultimately show "bit (mc_join_state (g_rec (grp s)) AND NOT ls) n" using bit_imp_le_length [OF n] by (simp add: bit_and_iff bit_not_iff)
  qed
  then show "covers (mc_join_state (g_rec (grp ?s))) (mc_join_state (g_rec (grp s))) \<or> cover_inv ?s" by (simp add: cover_inv_def joined_def)
qed (use p mc_invD(1,5) [OF s] in \<open>auto simp: group_defs\<close>)

lemma test_idle:
  assumes s: "mc_inv sa s" and p: "pc s = P_test" "g_state (grp s) = MCAST_BUSY" and l: "pending_list (grp s) = []" "get_leave_state (grp s) = 0"
  shows "mc_inv sa (s\<lparr>grp := (grp s)\<lparr>g_state := MCAST_IDLE\<rparr>, pc := P_idle, rel := rel s + 1\<rparr>)"
  by (rule inv_group_step [OF s]) (use p l mc_invD(1,5) [OF s] in \<open>auto simp: group_defs get_leave_state_def\<close>)

lemma test_err:
  assumes s: "mc_inv sa s" and p: "pc s = P_test" "g_state (grp s) \<noteq> MCAST_BUSY"
  shows "mc_inv sa (s\<lparr>pc := P_err\<rparr>)"
  by (rule inv_group_step [OF s]) (use p mc_invD(1,5) [OF s] in \<open>auto simp: group_defs\<close>)

lemma err_end:
  assumes s: "mc_inv sa s" and p: "held (pc s) = None" "pc s \<noteq> P_idle" and l: "active_list (grp s) = []"
  shows "mc_inv sa (s\<lparr>grp := (grp s)\<lparr>g_rec := (g_rec (grp s))\<lparr>mc_join_state := 0\<rparr>, g_state := MCAST_BUSY\<rparr>, pc := P_test\<rparr>)"
  by (rule inv_group_step [OF s]) (use p l mc_invD(1,5) [OF s] in \<open>auto simp: group_defs\<close>)

lemma err_keep:
  assumes s: "mc_inv sa s" and p: "held (pc s) = None" "pc s \<noteq> P_idle"
  shows "mc_inv sa (s\<lparr>grp := (grp s)\<lparr>g_state := MCAST_BUSY\<rparr>, pc := P_test\<rparr>)"
  by (rule inv_group_step [OF s]) (use p mc_invD(1,5) [OF s] in \<open>auto simp: group_defs\<close>)

text \<open>The counts follow the active list.\<close>

lemma cnts_cong: "(\<And>n. n \<in> set l \<Longrightarrow> f n = g n) \<Longrightarrow> cnts f l = cnts g l"
  by (simp add: cnts_def cong: filter_cong)

lemma cnts_add: "adjust_loop (f m) 1 (cnts f l) = cnts f (m # l)"
  by (simp add: adjust_loop_nth cnts_def)

lemma filter_removeAll:
  assumes "distinct l" "m \<in> set l"
  shows "P m \<Longrightarrow> int (length (filter P l)) - 1 = int (length (filter P (removeAll m l)))"
    and "\<not> P m \<Longrightarrow> length (filter P l) = length (filter P (removeAll m l))"
proof -
  obtain a b where l: "l = a @ m # b" "m \<notin> set a" "m \<notin> set b" using split_list [OF assms(2)] assms(1) by auto
  show "P m \<Longrightarrow> int (length (filter P l)) - 1 = int (length (filter P (removeAll m l)))" "\<not> P m \<Longrightarrow> length (filter P l) = length (filter P (removeAll m l))"
    by (simp_all add: l)
qed

lemma cnts_remove:
  assumes "distinct l" "m \<in> set l"
  shows "adjust_loop (f m) (- 1) (cnts f l) = cnts f (removeAll m l)"
  by (simp add: adjust_loop_nth cnts_def filter_removeAll [OF assms])

text \<open>A callback for the member \<open>m\<close>, which becomes \<open>x\<close>.\<close>

lemma inv_callback:
  assumes s: "mc_inv sa s" "pc s \<noteq> P_idle" "m \<in> set (mids s)" "phase s m \<noteq> M_acq" "held (pc s) = None \<or> held (pc s) = Some m"
    and s': "mids s' = mids s" "phase s' = phase s" "mem s' = (mem s)(m := x)" "pc s' = P_cb m st k" "rel s' = rel s" "g_refcount (grp s') = g_refcount (grp s)"
      "g_state (grp s') = g_state (grp s)" "g_freed (grp s') = g_freed (grp s)"
    and x: "m_refcount x = (if phase s m = M_wait then 0 else 1) + 1" "listed s m \<Longrightarrow> answers_ok (m_state x) (m \<in> set (pending_list (grp s'))) (m_cbs x)"
    and l: "list_inv s'" "count_inv s'" "set (pending_list (grp s')) = set (pending_list (grp s)) - {m} \<or> set (pending_list (grp s')) = set (pending_list (grp s))"
    and c: "sa \<Longrightarrow> cover_inv s'"
  shows "mc_inv sa s'"
proof (rule mc_invI [OF _ l(1) _ l(2) _ _ c])
  have L: "listed s' = listed s" "grefs s' = grefs s" by (auto simp: listed_def grefs_def s' fun_eq_iff)
  show "group_inv s'" using mc_invD(1) [OF s(1)] s(2) by (simp add: group_inv_def L s')
  show "mref_inv s'" using mc_invD(3) [OF s(1)] s(3-5) x(1) by (auto simp: mref_inv_def s')
  show "idle_inv s'" using busy_pc [OF s(1,2)] by (simp add: idle_inv_def s')
  show "answer_inv s'" using mc_invD(6) [OF s(1)] s(4) x(2) l(3) by (auto simp: answer_inv_def s' L)
qed

lemma list_invD:
  assumes "list_inv s"
  shows "distinct (mids s)" "distinct (pending_list (grp s))" "distinct (active_list (grp s))"
    "m \<in> set (pending_list (grp s)) \<Longrightarrow> m \<in> set (mids s) \<and> listed s m \<and> m_state (mem s m) = MCAST_JOINING"
    "m \<in> set (active_list (grp s)) \<longleftrightarrow> m \<in> set (mids s) \<and> listed s m \<and> m_state (mem s m) = MCAST_MEMBER"
  using assms by (simp_all add: list_inv_def)

lemma pending_facts:
  assumes s: "mc_inv sa s" and m: "m \<in> set (pending_list (grp s))"
  shows "m \<in> set (mids s)" "listed s m" "m_state (mem s m) = MCAST_JOINING" "m \<notin> set (active_list (grp s))" "m_cbs (mem s m) = []" "phase s m \<noteq> M_acq"
proof -
  show p: "m \<in> set (mids s)" "listed s m" "m_state (mem s m) = MCAST_JOINING" using list_invD(4) [OF mc_invD(2) [OF s] m] by simp_all
  show "m \<notin> set (active_list (grp s))" using list_invD(5) [OF mc_invD(2) [OF s]] p(3) by simp
  show "m_cbs (mem s m) = []" using mc_invD(6) [OF s] p m by (auto simp: answer_inv_def)
  show "phase s m \<noteq> M_acq" using p(2) by (auto simp: listed_def)
qed

text \<open>A pending member is answered with an error.\<close>

lemma inv_refuse:
  assumes s: "mc_inv sa s" "pc s \<noteq> P_idle" "m \<in> set (mids s)" "phase s m \<noteq> M_acq" "held (pc s) = None \<or> held (pc s) = Some m"
    and m: "listed s m \<Longrightarrow> m \<in> set (pending_list (grp s))" and r: "n = (if phase s m = M_wait then 0 else 1) + 1"
  shows "mc_inv sa (s\<lparr>grp := list_del_init m (grp s), mem := (mem s)(m := (mem s m)\<lparr>m_refcount := n, m_cbs := m_cbs (mem s m) @ [Some e]\<rparr>), pc := P_cb m (Some e) k\<rparr>)"
    (is "mc_inv sa ?s")
proof (rule inv_callback [OF s])
  note L = mc_invD(2) [OF s(1)]
  have a: "m \<notin> set (active_list (grp s))" using list_invD(5) [OF L] m pending_facts(4) [OF s(1)] by blast
  have j: "listed s m \<Longrightarrow> m_state (mem s m) = MCAST_JOINING \<and> m_cbs (mem s m) = []" using pending_facts [OF s(1) m] by simp
  show "list_inv ?s" using L a by (auto simp: list_inv_def list_del_init_def listed_def distinct_removeAll)
  show "count_inv ?s" using mc_invD(4) [OF s(1)] a by (simp add: count_inv_def list_del_init_def) (rule cnts_cong, auto simp: joined_def)
  show "listed s m \<Longrightarrow> answers_ok (m_state ((mem s m)\<lparr>m_refcount := n, m_cbs := m_cbs (mem s m) @ [Some e]\<rparr>)) (m \<in> set (pending_list (grp ?s)))
      (m_cbs ((mem s m)\<lparr>m_refcount := n, m_cbs := m_cbs (mem s m) @ [Some e]\<rparr>))"
    using j by (simp add: list_del_init_def)
  show "cover_inv ?s" if sa using mc_invD(7) [OF s(1) that] a by (auto simp: cover_inv_def list_del_init_def joined_def)
qed (use r in \<open>simp_all add: list_del_init_def\<close>)

lemma held_facts:
  assumes "mc_inv sa s" "held (pc s) = Some m"
  shows "m \<in> set (mids s)" "phase s m \<noteq> M_acq" "m_refcount (mem s m) = (if phase s m = M_wait then 0 else 1) + 1" "pc s \<noteq> P_idle"
  using mc_invD(3) [OF assms(1)] assms(2) by (auto simp: mref_inv_def)

lemma ref_unheld:
  assumes "mc_inv sa s" "held (pc s) = None" "m \<in> set (mids s)"
  shows "m_refcount (mem s m) = (if phase s m = M_wait then 0 else 1)"
  using mc_invD(3) [OF assms(1)] assms(2,3) by (simp add: mref_inv_def)

lemma mc_step_fail: "mc_step_ok sa W_fail"
proof (rule mc_step_okI)
  fix s assume s: "mc_inv sa s" "mc_may sa W_fail s"
  then obtain m e where p: "pc s = P_fail m e" by (auto split: mc_pc.splits)
  note H = held_facts [OF s(1), of m]
  have l: "listed s m \<Longrightarrow> m \<in> set (pending_list (grp s))" using mc_invD(6) [OF s(1)] p by (simp add: answer_inv_def)
  let ?x = "(mem s m)\<lparr>m_refcount := m_refcount (mem s m), m_cbs := m_cbs (mem s m) @ [Some e]\<rparr>"
  have "mc_inv sa (s\<lparr>grp := list_del_init m (grp s), mem := (mem s)(m := ?x), pc := P_cb m (Some e) K_test\<rparr>)"
    by (rule inv_refuse [OF s(1)]) (use H p l in simp_all)
  moreover have "?x = (mem s m)\<lparr>m_cbs := m_cbs (mem s m) @ [Some e]\<rparr>" by (cases "mem s m") simp
  ultimately show "\<exists>s'. mc_do W_fail s = Some s' \<and> mc_inv sa s'"
    using H(1) p active_alive [OF s(1)] by (simp add: fail_join_def call_back_def upd_mem_def del_member_def)
qed

lemma refuse_pending:
  assumes s: "mc_inv sa s" "pc s \<noteq> P_idle" "held (pc s) = None" and m: "m \<in> set (pending_list (grp s))"
  shows "\<exists>s'. call_back m (Some e) k (del_member m (get_member m s)) = Some s' \<and> mc_inv sa s'"
proof -
  note F = pending_facts [OF s(1) m]
  have "mc_inv sa (s\<lparr>grp := list_del_init m (grp s), mem := (mem s)(m := (mem s m)\<lparr>m_refcount := m_refcount (mem s m) + 1, m_cbs := m_cbs (mem s m) @ [Some e]\<rparr>),
      pc := P_cb m (Some e) k\<rparr>)"
    by (rule inv_refuse [OF s(1,2) F(1,6)]) (use s(3) m ref_unheld [OF s(1,3) F(1)] in simp_all)
  then show ?thesis using F(1) by (simp add: call_back_def upd_mem_def del_member_def get_member_def)
qed

text \<open>The active member at the head of the list is told that the group was reset.\<close>

lemma reset_active:
  assumes s: "mc_inv sa s" "pc s \<noteq> P_idle" "held (pc s) = None" and m: "m \<in> set (active_list (grp s))"
    and x: "x = (mem s m)\<lparr>m_refcount := m_refcount (mem s m) + 1, m_state := MCAST_ERROR, m_cbs := m_cbs (mem s m) @ [Some ENETRESET]\<rparr>"
    and g: "g = adjust_membership (joined s m) (- 1) (list_del_init m (grp s))"
  shows "mc_inv sa (s\<lparr>grp := g, mem := (mem s)(m := x), pc := P_cb m (Some ENETRESET) k\<rparr>)" (is "mc_inv sa ?s")
proof -
  note L = mc_invD(2) [OF s(1)]
  have a: "m \<in> set (mids s)" "listed s m" "m_state (mem s m) = MCAST_MEMBER" using list_invD(5) [OF L, of m] m by simp_all
  then have c: "m_cbs (mem s m) = [None]" "phase s m \<noteq> M_acq" using mc_invD(6) [OF s(1)] by (auto simp: answer_inv_def listed_def)
  have np: "m \<notin> set (pending_list (grp s))" using list_invD(4) [OF L, of m] a(3) by auto
  have g': "pending_list g = pending_list (grp s)" "active_list g = removeAll m (active_list (grp s))" "members g = adjust_loop (joined s m) (- 1) (members (grp s))"
    "g_rec g = g_rec (grp s)" "g_refcount g = g_refcount (grp s)" "g_state g = g_state (grp s)" "g_freed g = g_freed (grp s)"
    using np by (simp_all add: g adjust_membership_def list_del_init_def)
  have x': "m_refcount x = m_refcount (mem s m) + 1" "m_state x = MCAST_ERROR" "m_cbs x = m_cbs (mem s m) @ [Some ENETRESET]" "m_rec x = m_rec (mem s m)"
    by (simp_all add: x)
  show ?thesis
  proof (rule inv_callback [OF s(1,2) a(1) c(2), where x = x])
    show "list_inv ?s" using L np by (auto simp: list_inv_def g' x' listed_def distinct_removeAll)
    have "members g = cnts (joined s) (removeAll m (active_list (grp s)))"
      using mc_invD(4) [OF s(1)] cnts_remove [OF list_invD(3) [OF L] m] by (simp add: g' count_inv_def)
    then show "count_inv ?s" by (simp add: count_inv_def g') (rule cnts_cong, auto simp: joined_def)
    show "cover_inv ?s" if sa using mc_invD(7) [OF s(1) that] by (auto simp: cover_inv_def g' joined_def)
  qed (use s(3) ref_unheld [OF s(1,3) a(1)] c(1) in \<open>simp_all add: g' x'\<close>)
qed

lemma err_loop_ok:
  assumes s: "mc_inv sa s" "pc s \<noteq> P_idle" "held (pc s) = None"
  shows "\<exists>s'. err_loop s = Some s' \<and> mc_inv sa s'"
proof (cases "active_list (grp s)")
  case Nil
  then show ?thesis using err_end [OF s(1,3,2)] active_alive [OF s(1,2)] by (simp add: err_loop_def)
next
  case (Cons m l)
  then have m: "m \<in> set (active_list (grp s))" by simp
  then have i: "m \<in> set (mids s)" using list_invD(5) [OF mc_invD(2) [OF s(1)]] by simp
  note R = reset_active [OF s m refl refl, of K_err]
  show ?thesis using R Cons i active_alive [OF s(1,2)]
    by (simp add: err_loop_def call_back_def upd_mem_def del_member_def get_member_def Let_def joined_def)
qed

lemma mc_step_errloop: "mc_step_ok sa W_errloop"
  by (rule mc_step_okI) (use err_loop_ok in simp)

lemma mc_step_errlock: "mc_step_ok sa W_errlock"
proof (rule mc_step_okI)
  fix s assume s: "mc_inv sa s" "mc_may sa W_errlock s"
  then obtain lk where p: "pc s = P_errlock lk" by (auto split: mc_pc.splits)
  have h: "held (pc s) = None" "pc s \<noteq> P_idle" by (simp_all add: p)
  note nf = active_alive [OF s(1) h(2)] note K = err_keep [OF s(1) h] note E = err_loop_ok [OF s(1) h(2,1)]
  have "lk = None \<Longrightarrow> g_state (grp s) = MCAST_GROUP_ERROR" using mc_invD(5) [OF s(1)] p by (simp add: idle_inv_def)
  then have "\<exists>s'. process_group_error lk s = Some s' \<and> mc_inv sa s'"
    using nf K E by (cases lk) (auto simp: process_group_error_def)
  then show "\<exists>s'. mc_do W_errlock s = Some s' \<and> mc_inv sa s'" using p by simp
qed

text \<open>The member at the head of the pending list joins.\<close>

lemma join_pending:
  assumes s: "mc_inv sa s" "pc s \<noteq> P_idle" "held (pc s) = None" and m: "m \<in> set (pending_list (grp s))" and js: "js = joined s m"
    "js = mc_join_state (g_rec (grp s)) AND js" and j: "join_group m js ((mem s m)\<lparr>m_refcount := m_refcount (mem s m) + 1\<rparr>) (grp s) = (y, g)"
    and x: "x = y\<lparr>m_cbs := m_cbs y @ [None]\<rparr>"
  shows "mc_inv sa (s\<lparr>grp := g, mem := (mem s)(m := x), pc := P_cb m None k\<rparr>)" (is "mc_inv sa ?s")
proof -
  note L = mc_invD(2) [OF s(1)] note F = pending_facts [OF s(1) m]
  have g': "pending_list g = removeAll m (pending_list (grp s))" "active_list g = m # active_list (grp s)" "members g = adjust_loop js 1 (members (grp s))"
    "mc_join_state (g_rec g) = mc_join_state (g_rec (grp s)) OR js" "g_refcount g = g_refcount (grp s)" "g_state g = g_state (grp s)" "g_freed g = g_freed (grp s)"
    "m_refcount x = m_refcount (mem s m) + 1" "m_state x = MCAST_MEMBER" "m_cbs x = [None]" "mc_join_state (m_rec x) = js"
    using j F(4,5) by (auto simp: join_group_def adjust_membership_def list_del_init_def Let_def x)
  show ?thesis
  proof (rule inv_callback [OF s(1,2) F(1,6), where x = x])
    show "list_inv ?s" using L F(1,2,4) by (auto simp: list_inv_def g' listed_def distinct_removeAll)
    have "members g = cnts (joined s) (m # active_list (grp s))" using mc_invD(4) [OF s(1)] cnts_add [of "joined s" m] by (simp add: g' count_inv_def js(1))
    then show "count_inv ?s" by (simp add: count_inv_def g') (rule cnts_cong, use js(1) g'(11) in \<open>auto simp: joined_def\<close>)
    show "cover_inv ?s" if sa
    proof -
      have "covers (mc_join_state (g_rec g)) (joined ?s n)" if "n \<in> set (m # active_list (grp s))" for n
        using mc_invD(7) [OF s(1) \<open>sa\<close>] that
        by (cases "n = m") (auto simp: cover_inv_def covers_iff_bits joined_def g' bit_or_iff)
      then show ?thesis by (simp add: cover_inv_def g')
    qed
  qed (use s(3) ref_unheld [OF s(1,3) F(1)] in \<open>simp_all add: g'\<close>)
qed

text \<open>The activity takes a reference on the member at the head of the pending list, to send its join.\<close>

lemma send_pending:
  assumes s: "mc_inv sa s" "pc s \<noteq> P_idle" "held (pc s) = None" and m: "m \<in> set (pending_list (grp s))"
  shows "mc_inv sa ((get_member m s)\<lparr>pc := P_send m\<rparr>)" (is "mc_inv sa ?s")
proof -
  note F = pending_facts [OF s(1) m] note R = mc_invD(3) [OF s(1)]
  have g: "grp ?s = grp s" "mids ?s = mids s" "phase ?s = phase s" "rel ?s = rel s" by (simp_all add: get_member_def upd_mem_def)
  have e: "m_state (mem ?s n) = m_state (mem s n)" "m_cbs (mem ?s n) = m_cbs (mem s n)" "joined ?s n = joined s n" for n
    by (simp_all add: get_member_def upd_mem_def joined_def)
  have L: "listed ?s = listed s" "grefs ?s = grefs s" "joined ?s = joined s" by (auto simp: listed_def grefs_def g e fun_eq_iff)
  show ?thesis
  proof (rule mc_invI)
    show "group_inv ?s" using mc_invD(1) [OF s(1)] s(2) unfolding group_inv_def L g by simp
    show "list_inv ?s" using mc_invD(2) [OF s(1)] unfolding list_inv_def g e L .
    show "mref_inv ?s" using R s(3) F(1,6) by (auto simp: mref_inv_def get_member_def upd_mem_def)
    show "count_inv ?s" using mc_invD(4) [OF s(1)] unfolding count_inv_def g L .
    show "idle_inv ?s" using mc_invD(5) [OF s(1)] unfolding idle_inv_def g by simp
    show "answer_inv ?s" using mc_invD(6) [OF s(1)] m unfolding answer_inv_def g e L by simp
    show "cover_inv ?s" if sa using mc_invD(7) [OF s(1) that] unfolding cover_inv_def g L .
  qed
qed

lemma mc_step_test: "mc_step_ok sa W_test"
proof (rule mc_step_okI)
  fix s assume s: "mc_inv sa s" "mc_may sa W_test s"
  then have p: "pc s = P_test" "held (pc s) = None" "pc s \<noteq> P_idle" by simp_all
  note nf = active_alive [OF s(1) p(3)]
  have "\<exists>s'. mcast_work_handler s = Some s' \<and> mc_inv sa s'"
  proof (cases "g_state (grp s) = MCAST_BUSY")
    case False
    then show ?thesis using nf test_err [OF s(1) p(1)] by (simp add: mcast_work_handler_def)
  next
    case b: True
    show ?thesis
    proof (cases "pending_list (grp s)")
      case Nil
      then show ?thesis using nf b test_leave [OF s(1) p(1) b refl] test_idle [OF s(1) p(1) b Nil] by (simp add: mcast_work_handler_def Let_def)
    next
      case (Cons m l)
      then have m: "m \<in> set (pending_list (grp s))" by simp
      note F = pending_facts [OF s(1) m]
      define js where "js = joined s m"
      define z where "z = get_member m s"
      have z: "grp z = grp s" "mids z = mids s" "m_rec (mem z m) = m_rec (mem s m)" "m_comp_mask (mem z m) = m_comp_mask (mem s m)"
        "mem z m = (mem s m)\<lparr>m_refcount := m_refcount (mem s m) + 1\<rparr>"
        by (simp_all add: z_def get_member_def upd_mem_def)
      show ?thesis
      proof (cases "js = mc_join_state (g_rec (grp s)) AND js")
        case False
        then show ?thesis using nf b Cons F(1) send_pending [OF s(1) p(3,2) m]
          by (simp add: mcast_work_handler_def Let_def z_def [symmetric] z js_def joined_def)
      next
        case j: True
        obtain y g where yg: "join_group m js (mem z m) (grp s) = (y, g)" by fastforce
        have J: "mc_inv sa (s\<lparr>grp := g, mem := (mem s)(m := y\<lparr>m_cbs := m_cbs y @ [None]\<rparr>), pc := P_cb m None K_test\<rparr>)"
          by (rule join_pending [OF s(1) p(3,2) m js_def j yg [unfolded z(5)] refl])
        have e: "(z\<lparr>grp := g, mem := (mem z)(m := y)\<rparr>)\<lparr>mem := (mem z)(m := y, m := w), pc := q\<rparr> = s\<lparr>grp := g, mem := (mem s)(m := w), pc := q\<rparr>" for w q
          by (cases s) (simp add: z_def get_member_def upd_mem_def)
        have "\<exists>s'. call_back m None K_test (z\<lparr>grp := g, mem := (mem z)(m := y)\<rparr>) = Some s' \<and> mc_inv sa s'"
          using J F(1) e [where w = "y\<lparr>m_cbs := m_cbs y @ [None]\<rparr>"] by (simp add: call_back_def upd_mem_def z)
        then show ?thesis
          using nf b Cons F(1) j yg refuse_pending [OF s(1) p(3,2) m]
          by (cases "cmp_rec (g_rec (grp s)) (m_rec (mem s m)) (m_comp_mask (mem s m))")
            (simp_all add: mcast_work_handler_def Let_def z_def [symmetric] z(1-4) js_def joined_def)
      qed
    qed
  qed
  then show "\<exists>s'. mc_do W_test s = Some s' \<and> mc_inv sa s'" by simp
qed

text \<open>The activity gives back its reference on the member \<open>m\<close>.\<close>

lemma mc_inv_drop:
  assumes s: "mc_inv sa s" "held (pc s) = Some m" and x: "x = (mem s m)\<lparr>m_refcount := m_refcount (mem s m) - 1\<rparr>"
    and p: "held q = None" "q \<noteq> P_idle" "sends q = None" "q \<noteq> P_err" "q \<noteq> P_errlock None"
    and ph: "ph = phase s m \<and> (\<forall>n k. q \<noteq> P_wait n k) \<or> ph = M_start \<and> phase s m = M_held \<and> (\<forall>n k. q = P_wait n k \<longrightarrow> n = m)"
  shows "mc_inv sa (s\<lparr>grp := (grp s)\<lparr>last_join := j\<rparr>, mem := (mem s)(m := x), phase := (phase s)(m := ph), pc := q\<rparr>)" (is "mc_inv sa ?s")
proof -
  note H = held_facts [OF s]
  have x': "m_refcount x = (if phase s m = M_wait then 0 else 1)" "m_state x = m_state (mem s m)" "m_cbs x = m_cbs (mem s m)" "m_rec x = m_rec (mem s m)"
    using H(3) by (simp_all add: x)
  have e: "m_state (mem ?s n) = m_state (mem s n)" "m_cbs (mem ?s n) = m_cbs (mem s n)" "joined ?s n = joined s n" for n
    by (simp_all add: joined_def x')
  have "phase ?s n = M_acq \<longleftrightarrow> phase s n = M_acq" "phase ?s n \<in> {M_acq, M_held, M_start, M_rel} \<longleftrightarrow> phase s n \<in> {M_acq, M_held, M_start, M_rel}" for n
    using ph by auto
  note a = this
  have L: "listed ?s = listed s" "joined ?s = joined s" "grefs ?s = grefs s" using ph a(2) by (auto simp: listed_def e fun_eq_iff grefs_def)
  have g: "mids ?s = mids s" "pending_list (grp ?s) = pending_list (grp s)" "active_list (grp ?s) = active_list (grp s)" "members (grp ?s) = members (grp s)"
    "g_rec (grp ?s) = g_rec (grp s)" "g_state (grp ?s) = g_state (grp s)" "g_refcount (grp ?s) = g_refcount (grp s)" "g_freed (grp ?s) = g_freed (grp s)"
    "rel ?s = rel s" by simp_all
  show ?thesis
  proof (rule mc_invI)
    show "group_inv ?s" using mc_invD(1) [OF s(1)] H(4) p(2) unfolding group_inv_def L g by simp
    show "list_inv ?s" using mc_invD(2) [OF s(1)] unfolding list_inv_def L g e .
    show "mref_inv ?s" using mc_invD(3) [OF s(1)] s(2) p(1) ph x'(1) by (auto simp: mref_inv_def)
    show "count_inv ?s" using mc_invD(4) [OF s(1)] unfolding count_inv_def L g .
    show "idle_inv ?s" using busy_pc [OF s(1) H(4)] p(4,5) unfolding idle_inv_def g by simp
    show "answer_inv ?s" using mc_invD(6) [OF s(1)] p(3) unfolding answer_inv_def L g e a(1) by simp
    show "cover_inv ?s" if sa using mc_invD(7) [OF s(1) that] unfolding cover_inv_def L g .
  qed
qed

lemma mc_step_send: "mc_step_ok sa (W_send ret)"
proof (rule mc_step_okI)
  fix s assume s: "mc_inv sa s" "mc_may sa (W_send ret) s"
  then obtain m where p: "pc s = P_send m" by (auto split: mc_pc.splits)
  have h: "held (pc s) = Some m" by (simp add: p)
  note H = held_facts [OF s(1) h] note nf = active_alive [OF s(1) H(4)]
  let ?x = "(mem s m)\<lparr>m_refcount := m_refcount (mem s m) - 1\<rparr>"
  have "mc_inv sa (s\<lparr>grp := (grp s)\<lparr>last_join := Some m\<rparr>, mem := (mem s)(m := ?x), phase := (phase s)(m := phase s m), pc := Q_join\<rparr>)"
    by (rule mc_inv_drop [OF s(1) h refl]) simp_all
  moreover have "mc_inv sa (s\<lparr>grp := (grp s)\<lparr>last_join := Some m\<rparr>, pc := P_fail m e\<rparr>)" for e
    by (rule inv_group_step [OF s(1)]) (use p mc_invD(1,5) [OF s(1)] in \<open>auto simp: group_defs get_leave_state_def\<close>)
  moreover have "0 < m_refcount (mem s m)" using H(3) by simp
  ultimately show "\<exists>s'. mc_do (W_send ret) s = Some s' \<and> mc_inv sa s'"
    using p H(1) nf by (cases ret) (simp_all add: send_join_def put_member_def deref_member_def Let_def)
qed

lemma mc_step_return: "mc_step_ok sa (Cb_return r)"
proof (rule mc_step_okI)
  fix s assume s: "mc_inv sa s" "mc_may sa (Cb_return r) s"
  then obtain m st k where p: "pc s = P_cb m st k" "r \<noteq> 0 \<longrightarrow> phase s m = M_held" by (auto split: mc_pc.splits)
  have h: "held (pc s) = Some m" by (simp add: p)
  note H = held_facts [OF s(1) h]
  let ?x = "(mem s m)\<lparr>m_refcount := m_refcount (mem s m) - 1\<rparr>"
  have k: "held (after_cb k) = None" "after_cb k \<noteq> P_idle" "sends (after_cb k) = None" "after_cb k \<noteq> P_err" "after_cb k \<noteq> P_errlock None" "after_cb k \<noteq> P_wait n k'" for n k'
    by (cases k; simp)+
  have e: "s\<lparr>grp := (grp s)\<lparr>last_join := last_join (grp s)\<rparr>, mem := f, phase := ph, pc := q\<rparr> = s\<lparr>mem := f, phase := ph, pc := q\<rparr>" for f ph q
    by (cases s) simp
  show "\<exists>s'. mc_do (Cb_return r) s = Some s' \<and> mc_inv sa s'"
  proof (cases "r = 0")
    case True
    have "mc_inv sa (s\<lparr>grp := (grp s)\<lparr>last_join := last_join (grp s)\<rparr>, mem := (mem s)(m := ?x), phase := (phase s)(m := phase s m), pc := after_cb k\<rparr>)"
      by (rule mc_inv_drop [OF s(1) h refl]) (use k in simp_all)
    moreover have "s\<lparr>mem := f, phase := phase s, pc := q\<rparr> = s\<lparr>mem := f, pc := q\<rparr>" for f q by (cases s) simp
    ultimately show ?thesis using p True H(1,3) unfolding e by (simp add: cb_return_def put_member_def deref_member_def)
  next
    case False
    have "mc_inv sa (s\<lparr>grp := (grp s)\<lparr>last_join := last_join (grp s)\<rparr>, mem := (mem s)(m := ?x), phase := (phase s)(m := M_start), pc := P_wait m k\<rparr>)"
      by (rule mc_inv_drop [OF s(1) h refl]) (use p False in simp_all)
    then show ?thesis using p False H(1,3) unfolding e by (simp add: cb_return_def put_member_def deref_member_def set_phase_def)
  qed
qed

lemma mc_step_joined: "mc_step_ok sa (Q_joined st rc pk)"
proof (rule mc_step_okI)
  fix s assume s: "mc_inv sa s" "mc_may sa (Q_joined st rc pk) s"
  then have p: "pc s = Q_join" "held (pc s) = None" "pc s \<noteq> P_idle" by simp_all
  note nf = active_alive [OF s(1) p(3)]
  show "\<exists>s'. mc_do (Q_joined st rc pk) s = Some s' \<and> mc_inv sa s'"
  proof (cases st)
    case None
    define g where "g = (if g_state (grp s) = MCAST_BUSY \<and> g_pkey_index (grp s) = MCAST_INVALID_PKEY_INDEX
      then (grp s)\<lparr>g_pkey_index := (case pk of None \<Rightarrow> MCAST_INVALID_PKEY_INDEX | Some i \<Rightarrow> i)\<rparr> else grp s)"
    have "mc_inv sa (s\<lparr>grp := g\<lparr>g_rec := rc\<rparr>, pc := P_test\<rparr>)"
      by (rule inv_group_step [OF s(1)]) (use p s(2) None mc_invD(1,5) [OF s(1)] in \<open>auto simp: group_defs g_def\<close>)
    then show ?thesis using nf None by (simp add: join_handler_def Let_def g_def)
  next
    case (Some e)
    have t: "mc_inv sa (s\<lparr>pc := P_test\<rparr>)" by (rule inv_group_step [OF s(1)]) (use p mc_invD(1,5) [OF s(1)] in \<open>auto simp: group_defs\<close>)
    have "\<exists>s'. process_join_error e s = Some s' \<and> mc_inv sa s'"
    proof (cases "pending_list (grp s)")
      case (Cons m l)
      then have m: "m \<in> set (pending_list (grp s))" by simp
      show ?thesis using nf t Cons pending_facts(1) [OF s(1) m] refuse_pending [OF s(1) p(3,2) m] by (simp add: process_join_error_def)
    qed (use nf t in \<open>simp add: process_join_error_def\<close>)
    then show ?thesis using Some by (simp add: join_handler_def)
  qed
qed

text \<open>Steps of a member that is being freed.\<close>

lemma inv_phase:
  assumes s: "mc_inv sa s" "m \<in> set (mids s)" "phase s m \<noteq> M_acq"
    and s': "mids s' = mids s" "phase s' = (phase s)(m := p)" "mem s' = (mem s)(m := x)" "held (pc s') = held (pc s)" "sends (pc s') = sends (pc s)"
      "\<And>n k. pc s' = P_wait n k \<Longrightarrow> pc s = P_wait n k"
    and x: "m_state x = m_state (mem s m)" "m_cbs x = m_cbs (mem s m)" "m_rec x = m_rec (mem s m)"
      "m_refcount x = (if p = M_wait then 0 else 1) + (if held (pc s) = Some m then 1 else 0)"
    and p: "p = M_start \<and> listed s m \<or> p = M_rel \<or> p = M_deref \<or> p = M_wait"
    and l: "group_inv s'" "list_inv s'" "count_inv s'" "idle_inv s'" "sa \<Longrightarrow> cover_inv s'"
      "set (pending_list (grp s')) = set (pending_list (grp s)) \<or> set (pending_list (grp s')) = set (pending_list (grp s)) - {m} \<and> p \<noteq> M_start"
  shows "mc_inv sa s'"
proof (rule mc_invI [OF l(1,2) _ l(3,4) _ l(5)])
  have L: "listed s' n \<longleftrightarrow> listed s n" if "n \<noteq> m" for n using that by (simp add: listed_def s')
  have Lm: "listed s' m \<longleftrightarrow> p = M_start" "p = M_start \<Longrightarrow> listed s m" using p by (auto simp: listed_def s')
  have e: "m_state (mem s' n) = m_state (mem s n)" "m_cbs (mem s' n) = m_cbs (mem s n)" for n by (simp_all add: s' x)
  show "mref_inv s'" using mc_invD(3) [OF s(1)] p x(4) s'(6) by (auto simp: mref_inv_def s'(1-4))
  show "answer_inv s'"
    unfolding answer_inv_def
  proof (intro conjI ballI allI impI)
    fix n assume n: "n \<in> set (mids s')"
    note A = mc_invD(6) [OF s(1)]
    show "phase s' n = M_acq \<Longrightarrow> m_state (mem s' n) = MCAST_JOINING" "phase s' n = M_acq \<Longrightarrow> m_cbs (mem s' n) = []"
      using A n p by (cases "n = m"; auto simp: answer_inv_def e s'(1,2))+
    show "listed s' n \<Longrightarrow> answers_ok (m_state (mem s' n)) (n \<in> set (pending_list (grp s'))) (m_cbs (mem s' n))"
      using A n L Lm l(6) by (cases "n = m") (auto simp: answer_inv_def e s'(1))
  next
    fix n assume "sends (pc s') = Some n \<and> listed s' n"
    then show "n \<in> set (pending_list (grp s'))" using mc_invD(6) [OF s(1)] L Lm l(6) by (cases "n = m") (auto simp: answer_inv_def s'(5))
  qed
qed

lemma mc_step_free: "mc_step_ok sa (C_free m)"
proof (rule mc_step_okI)
  fix s assume s: "mc_inv sa s" "mc_may sa (C_free m) s"
  then have m: "m \<in> set (mids s)" "phase s m = M_held" by simp_all
  let ?s = "set_phase m M_start s"
  have L: "listed ?s = listed s" "joined ?s = joined s" "grefs ?s = grefs s"
    using m(2) by (auto simp: set_phase_def listed_def joined_def grefs_def fun_eq_iff intro!: arg_cong [where f = length] filter_cong)
  have g: "grp ?s = grp s" "mids ?s = mids s" "mem ?s = mem s" "pc ?s = pc s" "rel ?s = rel s" by (simp_all add: set_phase_def)
  have "mc_inv sa ?s"
  proof (rule inv_phase [OF s(1) m(1), where p = M_start and x = "mem s m"])
    show "group_inv ?s" using mc_invD(1) [OF s(1)] unfolding group_inv_def L g .
    show "list_inv ?s" using mc_invD(2) [OF s(1)] unfolding list_inv_def L g .
    show "count_inv ?s" using mc_invD(4) [OF s(1)] unfolding count_inv_def L g .
    show "idle_inv ?s" using mc_invD(5) [OF s(1)] unfolding idle_inv_def g .
    show "cover_inv ?s" if sa using mc_invD(7) [OF s(1) that] unfolding cover_inv_def L g .
    show "m_refcount (mem s m) = (if M_start = M_wait then 0 else 1) + (if held (pc s) = Some m then 1 else 0)"
      using mc_invD(3) [OF s(1)] m by (simp add: mref_inv_def)
  qed (use m in \<open>simp_all add: set_phase_def listed_def\<close>)
  then show "\<exists>s'. mc_do (C_free m) s = Some s' \<and> mc_inv sa s'" by simp
qed

lemma filter_upd:
  assumes "distinct l" "m \<in> set l" "P m" "\<not> Q m" "\<And>n. n \<noteq> m \<Longrightarrow> Q n = P n"
  shows "Suc (length (filter Q l)) = length (filter P l)"
proof -
  obtain a b where l: "l = a @ m # b" "m \<notin> set a" "m \<notin> set b" using split_list [OF assms(2)] assms(1) by auto
  have "m \<notin> set c \<Longrightarrow> filter Q c = filter P c" for c using assms(5) by (metis filter_cong)
  then have "filter Q a = filter P a" "filter Q b = filter P b" using l(2,3) by blast+
  then show ?thesis using assms(3,4) by (simp add: l)
qed

lemma grefs_out:
  assumes "distinct (mids s)" "m \<in> set (mids s)" "phase s m \<in> {M_acq, M_held, M_start, M_rel}"
    "mids s' = mids s" "phase s' = (phase s)(m := p)" "p \<in> {M_deref, M_wait}"
  shows "grefs s = Suc (grefs s')"
  unfolding grefs_def assms(4,5) by (rule filter_upd [symmetric, OF assms(1,2)]) (use assms(3,6) in auto)

lemma grefs_same:
  assumes "mids s' = mids s" "phase s' = (phase s)(m := p)"
    "p \<in> {M_acq, M_held, M_start, M_rel} \<longleftrightarrow> phase s m \<in> {M_acq, M_held, M_start, M_rel}"
  shows "grefs s' = grefs s"
proof -
  have "phase s' n \<in> {M_acq, M_held, M_start, M_rel} \<longleftrightarrow> phase s n \<in> {M_acq, M_held, M_start, M_rel}" for n using assms(2,3) by simp
  then show ?thesis unfolding grefs_def assms(1) by presburger
qed

lemma refcount_of: "mc_inv sa s \<Longrightarrow> m \<in> set (mids s) \<Longrightarrow>
  m_refcount (mem s m) = (if phase s m = M_wait then 0 else 1) + (if held (pc s) = Some m then 1 else 0)"
  using mc_invD(3) by (simp add: mref_inv_def)

lemma mc_step_free_lock: "mc_step_ok sa (F_lock m)"
proof (rule mc_step_okI)
  fix s assume s: "mc_inv sa s" "mc_may sa (F_lock m) s"
  then have m: "m \<in> set (mids s)" "phase s m = M_start" by simp_all
  have nf: "\<not> g_freed (grp s)" using member_alive [OF s(1) m(1)] m(2) by simp
  note L = mc_invD(2) [OF s(1)] note G = mc_invD(1) [OF s(1)] note C = mc_invD(4) [OF s(1)]
  let ?idle = "g_state (grp s) = MCAST_IDLE" let ?p = "if ?idle then M_deref else M_rel"
  define g where "g = list_del_init m (if m_state (mem s m) = MCAST_MEMBER then adjust_membership (joined s m) (- 1) (grp s) else grp s)"
  define s' where "s' = (set_phase m ?p s)\<lparr>grp := if ?idle then g\<lparr>g_state := MCAST_BUSY\<rparr> else g, pc := if ?idle then P_queued else pc s\<rparr>"
  have ls: "listed s m" using m(2) by (simp add: listed_def)
  have g': "pending_list g = removeAll m (pending_list (grp s))" "active_list g = removeAll m (active_list (grp s))" "g_rec g = g_rec (grp s)"
    "g_refcount g = g_refcount (grp s)" "g_state g = g_state (grp s)" "g_freed g = g_freed (grp s)"
    by (simp_all add: g_def list_del_init_def adjust_membership_def)
  have mem': "members g = cnts (joined s) (removeAll m (active_list (grp s)))"
  proof (cases "m_state (mem s m) = MCAST_MEMBER")
    case True
    then have "m \<in> set (active_list (grp s))" using list_invD(5) [OF L] m(1) ls by simp
    then show ?thesis using cnts_remove [OF list_invD(3) [OF L]] C True by (simp add: g_def list_del_init_def adjust_membership_def count_inv_def)
  next
    case False
    then have "m \<notin> set (active_list (grp s))" using list_invD(5) [OF L] by simp
    then show ?thesis using C False by (simp add: g_def list_del_init_def count_inv_def)
  qed
  have s'f: "mids s' = mids s" "phase s' = (phase s)(m := ?p)" "mem s' = mem s" "rel s' = rel s" "pending_list (grp s') = removeAll m (pending_list (grp s))"
    "active_list (grp s') = removeAll m (active_list (grp s))" "members (grp s') = members g" "g_rec (grp s') = g_rec (grp s)" "g_refcount (grp s') = g_refcount (grp s)"
    "g_freed (grp s') = g_freed (grp s)" "g_state (grp s') = (if ?idle then MCAST_BUSY else g_state (grp s))" "pc s' = (if ?idle then P_queued else pc s)"
    by (simp_all add: s'_def set_phase_def g')
  have pi: "?idle \<longleftrightarrow> pc s = P_idle" using G by (simp add: group_inv_def)
  have "mc_inv sa s'"
  proof (rule inv_phase [OF s(1) m(1) _ s'f(1,2), where x = "mem s m"])
    have "grefs s = grefs s' + (if ?idle then 1 else 0)"
      using grefs_out [OF list_invD(1) [OF L] m(1) _ s'f(1,2)] grefs_same [OF s'f(1,2)] m(2) by auto
    then show "group_inv s'" using G pi nf by (auto simp: group_inv_def s'f)
    show "list_inv s'" using L by (auto simp: list_inv_def s'f listed_def distinct_removeAll)
    have "joined s' = joined s" by (simp add: joined_def s'f fun_eq_iff)
    then show "count_inv s'" by (simp add: count_inv_def s'f mem')
    show "idle_inv s'" using mc_invD(5) [OF s(1)] by (auto simp: idle_inv_def s'f)
    show "cover_inv s'" if sa using mc_invD(7) [OF s(1) that] by (auto simp: cover_inv_def s'f joined_def)
  qed (use m pi refcount_of [OF s(1) m(1)] ls in \<open>auto simp: s'f split: if_splits\<close>)
  moreover have "mc_do (F_lock m) s = Some s'"
    using m(1) nf pi g'(5) by (auto simp: free_lock_def free_locked_def Let_def queue_work_def s'_def g_def joined_def set_phase_def)
  ultimately show "\<exists>s'. mc_do (F_lock m) s = Some s' \<and> mc_inv sa s'" by blast
qed

lemma mc_step_free_release: "mc_step_ok sa (F_release m)"
proof (rule mc_step_okI)
  fix s assume s: "mc_inv sa s" "mc_may sa (F_release m) s"
  then have m: "m \<in> set (mids s)" "phase s m = M_rel" by simp_all
  note L = mc_invD(2) [OF s(1)] note G = mc_invD(1) [OF s(1)]
  have nf: "\<not> g_freed (grp s)" using member_alive [OF s(1) m(1)] m(2) by simp
  then have r: "0 < g_refcount (grp s)" using G unfolding group_inv_def by (metis gr0I)
  let ?s = "(set_phase m M_deref s)\<lparr>grp := less_ref (grp s)\<rparr>"
  have g: "mids ?s = mids s" "phase ?s = (phase s)(m := M_deref)" "mem ?s = mem s" "pc ?s = pc s" "rel ?s = rel s" "grp ?s = less_ref (grp s)"
    by (simp_all add: set_phase_def)
  have e: "joined ?s = joined s" "listed ?s = listed s" using m(2) by (auto simp: joined_def listed_def g fun_eq_iff)
  have "mc_inv sa ?s"
  proof (rule inv_phase [OF s(1) m(1) _ g(1,2), where x = "mem s m"])
    have "grefs s = Suc (grefs ?s)" by (rule grefs_out [OF list_invD(1) [OF L] m(1) _ g(1,2)]) (simp_all add: m)
    then show "group_inv ?s" using G nf r unfolding group_inv_def g less_ref_simps by auto
    show "list_inv ?s" using L unfolding list_inv_def g e less_ref_simps .
    show "count_inv ?s" using mc_invD(4) [OF s(1)] unfolding count_inv_def g e less_ref_simps .
    show "idle_inv ?s" using mc_invD(5) [OF s(1)] unfolding idle_inv_def g less_ref_simps .
    show "cover_inv ?s" if sa using mc_invD(7) [OF s(1) that] unfolding cover_inv_def g e less_ref_simps .
  qed (use m refcount_of [OF s(1) m(1)] in \<open>simp_all add: g\<close>)
  then show "\<exists>s'. mc_do (F_release m) s = Some s' \<and> mc_inv sa s'" using release_group_eq [OF nf r] by (simp add: free_release_def)
qed

lemma mc_step_free_deref: "mc_step_ok sa (F_deref m)"
proof (rule mc_step_okI)
  fix s assume s: "mc_inv sa s" "mc_may sa (F_deref m) s"
  then have m: "m \<in> set (mids s)" "phase s m = M_deref" by simp_all
  note L = mc_invD(2) [OF s(1)] note G = mc_invD(1) [OF s(1)]
  note R = refcount_of [OF s(1) m(1)]
  let ?x = "(mem s m)\<lparr>m_refcount := m_refcount (mem s m) - 1\<rparr>"
  let ?s = "set_phase m M_wait (s\<lparr>mem := (mem s)(m := ?x)\<rparr>)"
  have g: "mids ?s = mids s" "phase ?s = (phase s)(m := M_wait)" "mem ?s = (mem s)(m := ?x)" "pc ?s = pc s" "rel ?s = rel s" "grp ?s = grp s"
    by (simp_all add: set_phase_def)
  have e: "joined ?s = joined s" "listed ?s = listed s" "m_state (mem ?s n) = m_state (mem s n)" for n
    using m(2) by (auto simp: joined_def listed_def set_phase_def fun_eq_iff)
  have gr: "grefs ?s = grefs s" by (rule grefs_same [OF g(1,2)]) (simp add: m)
  have "mc_inv sa ?s"
  proof (rule inv_phase [OF s(1) m(1) _ g(1,2,3)])
    show "group_inv ?s" using G unfolding group_inv_def g gr .
    show "list_inv ?s" using L unfolding list_inv_def g(1,4-6) e .
    show "count_inv ?s" using mc_invD(4) [OF s(1)] unfolding count_inv_def g(6) e .
    show "idle_inv ?s" using mc_invD(5) [OF s(1)] unfolding idle_inv_def g .
    show "cover_inv ?s" if sa using mc_invD(7) [OF s(1) that] unfolding cover_inv_def g(6) e .
  qed (use m R in \<open>simp_all add: set_phase_def\<close>)
  then show "\<exists>s'. mc_do (F_deref m) s = Some s' \<and> mc_inv sa s'" using m R by (simp add: free_deref_def put_member_def deref_member_def)
qed

lemma mc_step_free_done: "mc_step_ok sa (F_done m)"
proof (rule mc_step_okI)
  fix s assume s: "mc_inv sa s" "mc_may sa (F_done m) s"
  then have m: "m \<in> set (mids s)" "phase s m = M_wait" "m_refcount (mem s m) = 0" by simp_all
  note L = mc_invD(2) [OF s(1)] note G = mc_invD(1) [OF s(1)]
  define q where "q = (case pc s of P_wait n k \<Rightarrow> if n = m then after_cb k else pc s | _ \<Rightarrow> pc s)"
  have D: "q = pc s \<and> (\<forall>k. pc s \<noteq> P_wait m k) \<or> (\<exists>k. pc s = P_wait m k \<and> q = after_cb k)" by (cases "pc s") (auto simp: q_def)
  have K: "held (after_cb k) = None" "sends (after_cb k) = None" "after_cb k \<noteq> P_idle" "after_cb k \<noteq> P_err" "after_cb k \<noteq> P_errlock None" "after_cb k \<noteq> P_wait n k'" for k n k'
    by (cases k; simp)+
  have Q: "held q = held (pc s)" "sends q = sends (pc s)" "q = P_idle \<longleftrightarrow> pc s = P_idle" "q = P_err \<longleftrightarrow> pc s = P_err" "q = P_errlock None \<longleftrightarrow> pc s = P_errlock None"
    using D K by auto
  have W: "pc s = P_wait n k \<and> n \<noteq> m" if "q = P_wait n k" for n k using D K(6) that by metis
  let ?s = "s\<lparr>mids := removeAll m (mids s), pc := q\<rparr>"
  have h: "held (pc s) \<noteq> Some m" using refcount_of [OF s(1) m(1)] m(3) by auto
  have e: "joined ?s = joined s" "listed ?s = listed s" by (auto simp: joined_def listed_def fun_eq_iff)
  have nl: "\<not> listed s m" using m(2) by (simp add: listed_def)
  have gr: "grefs ?s = grefs s" by (simp add: grefs_def removeAll_filter_not_eq) (rule arg_cong [where f = length], rule filter_cong, auto simp: m(2))
  have f: "grp ?s = grp s" "mem ?s = mem s" "phase ?s = phase s" "rel ?s = rel s" "pc ?s = q" "set (mids ?s) = set (mids s) - {m}" by simp_all
  have "mc_inv sa ?s"
  proof (rule mc_invI)
    show "group_inv ?s" using G unfolding group_inv_def f gr Q(3) .
    show "list_inv ?s" using L nl unfolding list_inv_def f e by (auto simp: distinct_removeAll)
    show "mref_inv ?s" using mc_invD(3) [OF s(1)] h W unfolding mref_inv_def f Q(1) by blast
    show "count_inv ?s" using mc_invD(4) [OF s(1)] unfolding count_inv_def f e .
    show "idle_inv ?s" using mc_invD(5) [OF s(1)] unfolding idle_inv_def f Q .
    show "answer_inv ?s" using mc_invD(6) [OF s(1)] unfolding answer_inv_def f e Q by blast
    show "cover_inv ?s" if sa using mc_invD(7) [OF s(1) that] unfolding cover_inv_def f e .
  qed
  then show "\<exists>s'. mc_do (F_done m) s = Some s' \<and> mc_inv sa s'" using m(1) by (simp add: free_done_def q_def)
qed

text \<open>A new member.\<close>

lemma sends_held: "sends p = Some m \<Longrightarrow> held p = Some m"
  by (cases p) simp_all

lemma mc_step_join: "mc_step_ok sa (C_join m r cmk)"
proof (rule mc_step_okI)
  fix s assume s: "mc_inv sa s" "mc_may sa (C_join m r cmk) s"
  then have m: "\<not> g_freed (grp s)" "m \<notin> set (mids s)" by simp_all
  note L = mc_invD(2) [OF s(1)] note R = mc_invD(3) [OF s(1)]
  let ?s = "(set_phase m M_acq s)\<lparr>mids := m # mids s, mem := (mem s)(m := new_member r cmk), grp := (grp s)\<lparr>g_refcount := g_refcount (grp s) + 1\<rparr>\<rparr>"
  have nl: "m \<notin> set (pending_list (grp s))" "m \<notin> set (active_list (grp s))" using list_invD(4,5) [OF L, of m] m(2) by auto
  have h: "held (pc s) \<noteq> Some m" "sends (pc s) \<noteq> Some m" "pc s \<noteq> P_wait m k" for k using R m(2) sends_held by (auto simp: mref_inv_def)
  have ls: "listed ?s n \<longleftrightarrow> n \<noteq> m \<and> listed s n" for n by (simp add: listed_def set_phase_def)
  have "filter (\<lambda>n. (if n = m then M_acq else phase s n) \<in> {M_acq, M_held, M_start, M_rel}) (mids s) = filter (\<lambda>n. phase s n \<in> {M_acq, M_held, M_start, M_rel}) (mids s)"
    by (rule filter_cong) (use m(2) in auto)
  then have gr: "grefs ?s = Suc (grefs s)" by (simp add: grefs_def set_phase_def fun_upd_def)
  have j: "n \<in> set (active_list (grp s)) \<Longrightarrow> joined ?s n = joined s n" for n using nl by (auto simp: joined_def set_phase_def)
  have "mc_inv sa ?s"
  proof (rule mc_invI)
    show "group_inv ?s" using mc_invD(1) [OF s(1)] m(1) unfolding group_inv_def gr by (simp add: set_phase_def)
    show "list_inv ?s" using L m(2) nl unfolding list_inv_def ls by (auto simp: set_phase_def)
    show "mref_inv ?s" using R h m(2) by (auto simp: mref_inv_def set_phase_def new_member_def)
    have "cnts (joined ?s) (active_list (grp s)) = cnts (joined s) (active_list (grp s))" by (rule cnts_cong) (rule j)
    then show "count_inv ?s" using mc_invD(4) [OF s(1)] by (simp add: count_inv_def set_phase_def)
    show "idle_inv ?s" using mc_invD(5) [OF s(1)] by (simp add: idle_inv_def set_phase_def get_leave_state_def)
    show "answer_inv ?s" using mc_invD(6) [OF s(1)] m(2) h(2) unfolding answer_inv_def ls by (auto simp: set_phase_def new_member_def)
    show "cover_inv ?s" if sa using mc_invD(7) [OF s(1) that] nl by (auto simp: cover_inv_def set_phase_def joined_def)
  qed
  then show "\<exists>s'. mc_do (C_join m r cmk) s = Some s' \<and> mc_inv sa s'" using m(1) by (simp add: join_acquire_def)
qed

lemma mc_step_queue: "mc_step_ok sa (C_queue m)"
proof (rule mc_step_okI)
  fix s assume s: "mc_inv sa s" "mc_may sa (C_queue m) s"
  then have m: "m \<in> set (mids s)" "phase s m = M_acq" by simp_all
  note L = mc_invD(2) [OF s(1)] note R = mc_invD(3) [OF s(1)] note G = mc_invD(1) [OF s(1)] note A = mc_invD(6) [OF s(1)]
  have nf: "\<not> g_freed (grp s)" using member_alive [OF s(1) m(1)] m(2) by simp
  let ?idle = "g_state (grp s) = MCAST_IDLE"
  define g where "g = (if ?idle then (grp s)\<lparr>pending_list := pending_list (grp s) @ [m], g_state := MCAST_BUSY, g_refcount := g_refcount (grp s) + 1\<rparr>
    else (grp s)\<lparr>pending_list := pending_list (grp s) @ [m]\<rparr>)"
  define s' where "s' = s\<lparr>grp := g, phase := (phase s)(m := M_held), pc := if ?idle then P_queued else pc s\<rparr>"
  have pi: "?idle \<longleftrightarrow> pc s = P_idle" using G by (simp add: group_inv_def)
  have f: "mids s' = mids s" "phase s' = (phase s)(m := M_held)" "mem s' = mem s" "rel s' = rel s" "pending_list (grp s') = pending_list (grp s) @ [m]"
    "active_list (grp s') = active_list (grp s)" "members (grp s') = members (grp s)" "g_rec (grp s') = g_rec (grp s)"
    "g_refcount (grp s') = g_refcount (grp s) + (if ?idle then 1 else 0)" "g_freed (grp s') = g_freed (grp s)"
    "g_state (grp s') = (if ?idle then MCAST_BUSY else g_state (grp s))" "pc s' = (if ?idle then P_queued else pc s)"
    by (simp_all add: s'_def g_def)
  have nl: "m \<notin> set (pending_list (grp s))" "m \<notin> set (active_list (grp s))" using list_invD(4,5) [OF L, of m] m(2) by (auto simp: listed_def)
  have a: "m_state (mem s m) = MCAST_JOINING" "m_cbs (mem s m) = []" using A m by (auto simp: answer_inv_def)
  have h: "held (pc s) \<noteq> Some m" "sends (pc s) \<noteq> Some m" "pc s \<noteq> P_wait m k" for k using R m(2) sends_held by (auto simp: mref_inv_def)
  have ls: "listed s' n \<longleftrightarrow> n = m \<or> listed s n" for n by (simp add: listed_def f)
  have j: "joined s' = joined s" by (simp add: joined_def f fun_eq_iff)
  have gr: "grefs s' = grefs s" by (rule grefs_same [OF f(1,2)]) (simp add: m)
  have "mc_inv sa s'"
  proof (rule mc_invI)
    show "group_inv s'" using G pi nf unfolding group_inv_def gr f by auto
    show "list_inv s'" using L m(1) nl a(1) unfolding list_inv_def ls f by auto
    show "mref_inv s'" using R h m pi by (auto simp: mref_inv_def f split: if_splits)
    show "count_inv s'" using mc_invD(4) [OF s(1)] unfolding count_inv_def j f .
    show "idle_inv s'" using mc_invD(5) [OF s(1)] unfolding idle_inv_def f by auto
    have "sends (pc s') = Some n \<Longrightarrow> n \<noteq> m \<and> sends (pc s) = Some n" for n using h(2) by (auto simp: f split: if_splits)
    then show "answer_inv s'" using A m a unfolding answer_inv_def ls f(1-3,5) by auto
    show "cover_inv s'" if sa using mc_invD(7) [OF s(1) that] unfolding cover_inv_def j f .
  qed
  moreover have "mc_do (C_queue m) s = Some s'"
    using nf pi by (cases s) (auto simp: join_queue_def queue_join_def Let_def queue_work_def set_phase_def s'_def g_def)
  ultimately show "\<exists>s'. mc_do (C_queue m) s = Some s' \<and> mc_inv sa s'" by blast
qed

lemmas mc_steps = mc_step_join mc_step_queue mc_step_free mc_step_free_lock mc_step_free_release mc_step_free_deref mc_step_free_done mc_step_event mc_step_start
  mc_step_test mc_step_lookup mc_step_errlock mc_step_errloop mc_step_send mc_step_fail mc_step_leave mc_step_return mc_step_joined mc_step_left mc_step_release

lemma mc_every_step: "mc_step_ok sa a"
  by (cases a) (simp_all add: mc_steps)

interpretation mcg: guarded_system "mc_may sa" mc_do "mc_inv sa" for sa
  by unfold_locales (use mc_every_step in \<open>simp add: mc_step_ok_def\<close>)

lemma reach_mc_inv: "mc_reach sa s \<Longrightarrow> mc_inv sa s"
proof (induction rule: mc_reach.induct)
  case (mc_start m r cmk)
  show ?case
    by (rule mc_invI)
      (simp_all add: mc_init_def new_group_def new_member_def zero_rec_def group_inv_def grefs_def list_inv_def listed_def mref_inv_def count_inv_def cnts_def
        idle_inv_def get_leave_state_def answer_inv_def cover_inv_def NUM_JOIN_MEMBERSHIP_TYPES_def eval_nat_numeral upt_conv_Cons)
next
  case (mc_step s a s')
  then show ?case by (blast intro: mcg.act_keeps)
qed

lemma mc_run_reach: "mc_reach sa s \<Longrightarrow> guarded_run (mc_may sa) mc_do l s = Some s' \<Longrightarrow> mc_reach sa s'"
  by (induction l arbitrary: s) (auto split: if_splits option.splits intro: mc_reach.mc_step)

section \<open>Properties\<close>

text \<open>A group whose first member joined as full member: the SA granted the join, the client was told, and the group is idle.\<close>

definition demo_rec :: ib_sa_mcmember_rec where "demo_rec = zero_rec\<lparr>mc_mgid := 7, mc_join_state := 1\<rparr>"

definition demo_join :: "mc_act list" where
  "demo_join = [C_queue 1, W_start, W_test, W_send None, Q_joined None demo_rec None, W_test, Cb_return 0, W_test]"

lemma demo_join_run:
  obtains s where "mc_reach sa s" "mids s = [1]" "phase s 1 = M_held" "g_state (grp s) = MCAST_IDLE" "rel s = 1" "active_list (grp s) = [1]" "m_rec (mem s 1) = demo_rec"
proof -
  let ?r = "guarded_run (mc_may sa) mc_do demo_join (mc_init 1 demo_rec 0)"
  have "\<exists>s. ?r = Some s \<and> mids s = [1] \<and> phase s 1 = M_held \<and> g_state (grp s) = MCAST_IDLE \<and> rel s = 1 \<and> active_list (grp s) = [1] \<and> m_rec (mem s 1) = demo_rec"
    by (simp add: demo_join_def mc_init_def demo_rec_def zero_rec_def new_group_def new_member_def join_queue_def queue_join_def Let_def queue_work_def set_phase_def
        mcast_work_handler_def get_member_def upd_mem_def send_join_def put_member_def deref_member_def join_handler_def cmp_rec_def has_flag_def check_selector_def
        join_group_def adjust_membership_def list_del_init_def call_back_def cb_return_def get_leave_state_def NUM_JOIN_MEMBERSHIP_TYPES_def eval_nat_numeral)
  then show ?thesis using that mc_run_reach [OF mc_start] by blast
qed

text \<open>C14: under every interleaving of joining and leaving clients, events of the port, answers of the SA, the work item and callbacks, the multicast module accesses no freed group or
  member, lets no reference count underflow and never activates a group a second time.\<close>

theorem mcast_no_bug:
  assumes "mc_reach sa s" "mc_may sa a s"
  shows "mc_do a s \<noteq> None"
  using mcg.act_defined [OF reach_mc_inv [OF assms(1)] assms(2)] .

theorem mcast_no_bug_witness: "\<exists>s. mc_reach True s \<and> mc_may True (C_free 1) s \<and> mc_do (C_free 1) s \<noteq> None"
proof -
  obtain s where s: "mc_reach True s" "mids s = [1]" "phase s 1 = M_held" using demo_join_run by metis
  then have "mc_may True (C_free 1) s" by simp
  then show ?thesis using s(1) mcast_no_bug by blast
qed

text \<open>C21: a group is freed exactly when its activity has ended and every member has given back its reference: it is not freed under its users and it is not leaked.\<close>

theorem mcast_group_lifetime:
  assumes "mc_reach sa s"
  shows "g_freed (grp s) \<longleftrightarrow> pc s = P_idle \<and> rel s = 0 \<and> (\<forall>m \<in> set (mids s). phase s m \<in> {M_deref, M_wait})"
proof -
  note G = mc_invD(1) [OF reach_mc_inv [OF assms]]
  have "p \<notin> {M_acq, M_held, M_start, M_rel} \<longleftrightarrow> p \<in> {M_deref, M_wait}" for p by (cases p) simp_all
  then have "grefs s = 0 \<longleftrightarrow> (\<forall>m \<in> set (mids s). phase s m \<in> {M_deref, M_wait})"
    unfolding grefs_def length_0_conv filter_empty_conv by blast
  then show ?thesis using G by (auto simp: group_inv_def)
qed

theorem mcast_group_lifetime_witness: "\<exists>s. mc_reach True s \<and> rel s = 1 \<and> \<not> g_freed (grp s)"
proof -
  obtain s where s: "mc_reach True s" "rel s = 1" using demo_join_run by metis
  then show ?thesis using mcast_group_lifetime [OF s(1)] by auto
qed

text \<open>C22: a member that the client holds is either still waiting, without having been called, or got exactly one answer to its join; a member that was refused is in no list; one that
  joined is active until it is told once that the group was reset.\<close>

theorem mcast_one_answer:
  assumes "mc_reach sa s" "m \<in> set (mids s)" "phase s m = M_held"
  shows "(m \<in> set (pending_list (grp s)) \<and> m \<notin> set (active_list (grp s)) \<and> m_cbs (mem s m) = []) \<or>
    (m \<notin> set (pending_list (grp s)) \<and> m \<in> set (active_list (grp s)) \<and> m_cbs (mem s m) = [None]) \<or>
    (m \<notin> set (pending_list (grp s)) \<and> m \<notin> set (active_list (grp s)) \<and> (m_cbs (mem s m) = [None, Some ENETRESET] \<or> (\<exists>e. m_cbs (mem s m) = [Some e])))"
proof -
  note I = reach_mc_inv [OF assms(1)]
  have l: "listed s m" using assms(3) by (simp add: listed_def)
  then have a: "answers_ok (m_state (mem s m)) (m \<in> set (pending_list (grp s))) (m_cbs (mem s m))" using mc_invD(6) [OF I] assms(2) by (simp add: answer_inv_def)
  have act: "m \<in> set (active_list (grp s)) \<longleftrightarrow> m_state (mem s m) = MCAST_MEMBER" using list_invD(5) [OF mc_invD(2) [OF I]] assms(2) l by simp
  have p: "m \<in> set (pending_list (grp s)) \<Longrightarrow> m_state (mem s m) = MCAST_JOINING" using list_invD(4) [OF mc_invD(2) [OF I]] by simp
  show ?thesis using a act p by (cases "m_state (mem s m)") (auto split: if_splits)
qed

theorem mcast_one_answer_witness: "\<exists>s. mc_reach True s \<and> 1 \<in> set (active_list (grp s)) \<and> m_cbs (mem s 1) = [None]"
proof -
  obtain s where s: "mc_reach True s" "mids s = [1]" "phase s 1 = M_held" "active_list (grp s) = [1]" using demo_join_run by metis
  then show ?thesis using mcast_one_answer [OF s(1), of 1] by auto
qed

text \<open>What an idle group has recorded, when the SA answers a join with all join states it has granted.\<close>

lemma idle_group_record:
  assumes "mc_reach True s" "g_state (grp s) = MCAST_IDLE" "i < 4"
  shows "pending_list (grp s) = []"
    "bit (mc_join_state (g_rec (grp s))) i \<longleftrightarrow> (\<exists>m \<in> set (mids s). listed s m \<and> m_state (mem s m) = MCAST_MEMBER \<and> bit (mc_join_state (m_rec (mem s m))) i)"
proof -
  note I = reach_mc_inv [OF assms(1)]
  have z: "pending_list (grp s) = []" "get_leave_state (grp s) = 0" using mc_invD(5) [OF I] assms(2) by (simp_all add: idle_inv_def)
  show "pending_list (grp s) = []" by (rule z(1))
  have "\<not> bit (get_leave_state (grp s)) i" by (simp add: z)
  then have "bit (mc_join_state (g_rec (grp s))) i \<Longrightarrow> \<exists>m \<in> set (active_list (grp s)). bit (joined s m) i"
    using leave_state_bits [OF mc_invD(4) [OF I], of i] assms(3) by blast
  moreover have "m \<in> set (active_list (grp s)) \<Longrightarrow> bit (joined s m) i \<Longrightarrow> bit (mc_join_state (g_rec (grp s))) i" for m
    using mc_invD(7) [OF I] by (auto simp: cover_inv_def covers_iff_bits)
  ultimately show "bit (mc_join_state (g_rec (grp s))) i \<longleftrightarrow>
      (\<exists>m \<in> set (mids s). listed s m \<and> m_state (mem s m) = MCAST_MEMBER \<and> bit (mc_join_state (m_rec (mem s m))) i)"
    using list_invD(5) [OF mc_invD(2) [OF I]] unfolding joined_def by blast
qed

text \<open>The next step of the group's activity: of the work handler, the return of a callback, an answer of the SA, or of the freeing that the handler waits for.\<close>

fun own_step :: "mc_pc \<Rightarrow> (nat \<Rightarrow> mc_phase) \<Rightarrow> mc_act" where
  "own_step P_test ph = W_test" | "own_step P_err ph = W_lookup None" | "own_step (P_errlock lk) ph = W_errlock" | "own_step P_errloop ph = W_errloop"
| "own_step (P_cb m st k) ph = Cb_return 0" | "own_step (P_send m) ph = W_send None" | "own_step (P_fail m e) ph = W_fail" | "own_step (P_leave ls) ph = W_leave None"
| "own_step Q_join ph = Q_joined (Some EINVAL) zero_rec None" | "own_step Q_leave ph = Q_left None None"
| "own_step (P_wait m k) ph = (if ph m = M_start then F_lock m else if ph m = M_rel then F_release m else if ph m = M_deref then F_deref m else F_done m)"
| "own_step p ph = W_start"

text \<open>C23: no join is forgotten: while a member waits, the group is active, and an active group is never stuck: the next step of its activity may happen and is defined.\<close>

theorem mcast_not_stuck:
  assumes "mc_reach sa s" "pending_list (grp s) \<noteq> [] \<or> pc s \<noteq> P_idle"
  shows "pc s \<noteq> P_idle \<and> mc_may sa (own_step (pc s) (phase s)) s \<and> mc_do (own_step (pc s) (phase s)) s \<noteq> None"
proof -
  note I = reach_mc_inv [OF assms(1)]
  have p: "pc s \<noteq> P_idle" using assms(2) mc_invD(1,5) [OF I] by (auto simp: group_inv_def idle_inv_def)
  have "mc_may sa (own_step (pc s) (phase s)) s"
  proof (cases "pc s")
    case (P_wait m k)
    then have w: "m \<in> set (mids s)" "phase s m \<in> {M_start, M_rel, M_deref, M_wait}" using mc_invD(3) [OF I] by (auto simp: mref_inv_def)
    have "phase s m = M_wait \<Longrightarrow> m_refcount (mem s m) = 0" using refcount_of [OF I w(1)] P_wait by simp
    then show ?thesis using w P_wait by auto
  qed (use p in simp_all)
  then show ?thesis using p mcg.act_defined [OF I] by blast
qed

theorem mcast_not_stuck_witness: "\<exists>s. mc_reach True s \<and> pending_list (grp s) = [1] \<and> pc s \<noteq> P_idle"
proof -
  have "\<exists>s. guarded_run (mc_may True) mc_do [C_queue 1] (mc_init 1 demo_rec 0) = Some s \<and> pending_list (grp s) = [1]"
    by (simp add: mc_init_def new_group_def join_queue_def queue_join_def queue_work_def set_phase_def)
  then obtain s where s: "mc_reach True s" "pending_list (grp s) = [1]" using mc_run_reach [OF mc_start] by blast
  then show ?thesis using mcast_not_stuck [OF s(1)] by auto
qed

definition stale_run :: "ib_sa_mcmember_rec \<Rightarrow> u64 \<Rightarrow> errno \<Rightarrow> mc_act list" where
  "stale_run r comp_mask e = [C_queue 1, W_start, W_test, W_send None, C_free 1, F_lock 1, F_release 1, F_deref 1, F_done 1,
     C_join 1 r comp_mask, C_queue 1, Q_joined (Some e) r None]"

text \<open>C39: \<open>process_join_error\<close> recognises the member whose join failed by its address only: when that member was freed and a new member was allocated at the same address, the
  new one is refused with the error of the old request, although its own join was never sent.\<close>

theorem mcast_stale_join_error:
  assumes "mc_join_state r \<noteq> 0"
  shows "\<exists>s. guarded_run (mc_may sa) mc_do (stale_run r' cmk' e) (mc_init 1 r cmk) = Some s \<and> m_rec (mem s 1) = r' \<and> m_cbs (mem s 1) = [Some e]"
  using assms
  by (simp add: stale_run_def mc_init_def zero_rec_def new_group_def new_member_def join_queue_def queue_join_def Let_def queue_work_def set_phase_def
      mcast_work_handler_def get_member_def upd_mem_def send_join_def put_member_def deref_member_def join_handler_def process_join_error_def free_lock_def free_locked_def
      free_release_def release_group_def free_deref_def free_done_def join_acquire_def del_member_def list_del_init_def call_back_def)

theorem mcast_stale_join_error_witness:
  "\<exists>s. guarded_run (mc_may True) mc_do (stale_run zero_rec 0 EINVAL) (mc_init 1 demo_rec 0) = Some s \<and> m_rec (mem s 1) = zero_rec \<and> m_cbs (mem s 1) = [Some EINVAL]"
  by (rule mcast_stale_join_error) (simp add: demo_rec_def)

end
