(* ===== verification/Mcast_Sa.thy ===== *)
theory Mcast_Sa
  imports Mcast_Safety
begin

unbundle bit_operations_syntax

text \<open>
  The membership that the subnet administrator (SA) holds for a multicast group, beside the states of the group. Two auxiliary values follow the steps: the join states that the answers of
  the SA have confirmed (granted by the last successful join and not taken back by a successful leave), and the join states that the module has given up: those of a leave
  that could not be sent or that failed with no retry left, and those dropped when a port event resets the group.
\<close>

section \<open>The view of the SA\<close>

abbreviation recorded :: "mc_sys \<Rightarrow> u8" where
  "recorded s \<equiv> mc_join_state (g_rec (grp s))"

text \<open>The join states of the leave that is being sent or was sent.\<close>

fun left_by :: "mc_pc \<Rightarrow> u8 \<Rightarrow> u8" where
  "left_by (P_leave ls) l = ls" | "left_by Q_leave l = l" | "left_by _ l = 0"

definition leaving :: "mc_sys \<Rightarrow> u8" where
  "leaving s = left_by (pc s) (leave_state (grp s))"

text \<open>A join state that a step drops from the record without starting to leave it, or whose leave it ends without success, is given up.\<close>

definition given_up :: "mc_sys \<Rightarrow> mc_sys \<Rightarrow> u8" where
  "given_up s s' = (recorded s OR leaving s) AND NOT (recorded s' OR leaving s')"

fun sa_view :: "mc_act \<Rightarrow> mc_sys \<Rightarrow> mc_sys \<Rightarrow> u8 \<times> u8 \<Rightarrow> u8 \<times> u8" where
  "sa_view (Q_joined None r pk) s s' (confirmed, lost) = (mc_join_state r, 0)"
| "sa_view (Q_left None ret) s s' (confirmed, lost) = (confirmed AND NOT (leave_state (grp s)), lost AND NOT (leave_state (grp s)))"
| "sa_view a s s' (confirmed, lost) = (confirmed, lost OR given_up s s')"

inductive mc_sa_reach :: "mc_sys \<Rightarrow> u8 \<times> u8 \<Rightarrow> bool" where
  sa_start: "mc_sa_reach (mc_init m r comp_mask) (0, 0)"
| sa_step: "mc_sa_reach s v \<Longrightarrow> mc_may True a s \<Longrightarrow> mc_do a s = Some s' \<Longrightarrow> mc_sa_reach s' (sa_view a s s' v)"


text \<open>Every history has such a view.\<close>

lemma reach_sa_reach: "mc_reach True s \<Longrightarrow> \<exists>v. mc_sa_reach s v"
  by (induction rule: mc_reach.induct) (blast intro: mc_sa_reach.intros)+

section \<open>The invariant\<close>







lemma del_member_same [simp]: "g_rec (grp (del_member m s)) = g_rec (grp s)" "leave_state (grp (del_member m s)) = leave_state (grp s)" "pc (del_member m s) = pc s"
  by (simp_all add: del_member_def list_del_init_def)

lemma get_member_same [simp]: "grp (get_member m s) = grp s" "pc (get_member m s) = pc s"
  by (simp_all add: get_member_def upd_mem_def)




lemma after_cb_left [simp]: "left_by (after_cb k) l = 0"
  by (cases k) simp_all













section \<open>The membership of an idle group\<close>







end
