(* ===== verification/Mcast_Table.thy ===== *)
theory Mcast_Table
  imports Mcast
begin

text \<open>
  The table of the multicast groups of a port: a binary search tree ordered by the group identifier, in which only groups whose identifier is not yet known (\<open>mgid0\<close>)
  may be equal. An identifier is the 128-bit number with the 16 raw bytes in network order: \<open>memcmp\<close> of the bytes compares the numbers. The rebalancing routines of the kernel's red-black trees are parameters.
\<close>

section \<open>The tree\<close>

fun mcast_find :: "(nat \<Rightarrow> 128 word) \<Rightarrow> nat tree \<Rightarrow> 128 word \<Rightarrow> nat option" where
  "mcast_find key Leaf mgid = None"
| "mcast_find key (Node l g r) mgid =
     (if mgid = key g then Some g else if mgid < key g then mcast_find key l mgid else mcast_find key r mgid)"

text \<open>The place of a new node: \<open>Inl\<close> is a group that is in the way.\<close>

fun mcast_link :: "(nat \<Rightarrow> 128 word) \<Rightarrow> nat \<Rightarrow> bool \<Rightarrow> nat tree \<Rightarrow> nat + nat tree" where
  "mcast_link key g dup Leaf = Inr (Node Leaf g Leaf)"
| "mcast_link key g dup (Node l c r) =
     (if key g < key c then map_sum id (\<lambda>l'. Node l' c r) (mcast_link key g dup l)
      else if key g > key c then map_sum id (\<lambda>r'. Node l c r') (mcast_link key g dup r)
      else if dup then map_sum id (\<lambda>l'. Node l' c r) (mcast_link key g dup l)
      else Inl c)"

definition mcast_insert :: "(nat tree \<Rightarrow> nat tree) \<Rightarrow> (nat \<Rightarrow> 128 word) \<Rightarrow> nat \<Rightarrow> bool \<Rightarrow> nat tree \<Rightarrow> nat + nat tree" where
  "mcast_insert rb_insert_color key g dup t = map_sum id rb_insert_color (mcast_link key g dup t)"

section \<open>The port\<close>

text \<open>The identifiers and reference counts of the groups; \<open>p_refcount\<close> is the port's own.\<close>

record mcast_port =
  p_table :: "nat tree"
  p_mgid :: "nat \<Rightarrow> 128 word"
  p_gref :: "nat \<Rightarrow> nat"
  p_refcount :: nat

definition new_port :: mcast_port where
  "new_port = \<lparr>p_table = Leaf, p_mgid = (\<lambda>_. 0), p_gref = (\<lambda>_. 0), p_refcount = 1\<rparr>"

text \<open>
  \<open>acquire_group\<close> takes the port's lock twice: to look for the group, and to insert a new one, allocated at \<open>n\<close> in between. The result of the second part is the group that is used.
\<close>

definition acquire_find :: "128 word \<Rightarrow> mcast_port \<Rightarrow> nat option \<times> mcast_port" where
  "acquire_find mgid p =
     (if mgid = 0 then (None, p)
      else case mcast_find (p_mgid p) (p_table p) mgid of
        None \<Rightarrow> (None, p)
      | Some g \<Rightarrow> (Some g, p\<lparr>p_gref := (p_gref p)(g := p_gref p g + 1)\<rparr>))"

definition acquire_insert :: "(nat tree \<Rightarrow> nat tree) \<Rightarrow> 128 word \<Rightarrow> nat \<Rightarrow> mcast_port \<Rightarrow> nat \<times> mcast_port" where
  "acquire_insert rb_insert_color mgid n p =
     (let key = (p_mgid p)(n := mgid)
      in case mcast_insert rb_insert_color key n (mgid = 0) (p_table p) of
           Inl cur_group \<Rightarrow> (cur_group, p\<lparr>p_gref := (p_gref p)(cur_group := p_gref p cur_group + 1)\<rparr>)
         | Inr t \<Rightarrow> (n, p\<lparr>p_table := t, p_mgid := key, p_gref := (p_gref p)(n := 1), p_refcount := p_refcount p + 1\<rparr>))"

text \<open>\<open>release_group\<close> with the table; erasing a node that is not in the tree yields \<open>None\<close>.\<close>

definition port_release :: "(nat \<Rightarrow> nat tree \<Rightarrow> nat tree) \<Rightarrow> nat \<Rightarrow> mcast_port \<Rightarrow> mcast_port option" where
  "port_release rb_erase g p =
     (if p_gref p g = 0 then None
      else
        let p = p\<lparr>p_gref := (p_gref p)(g := p_gref p g - 1)\<rparr>
        in if p_gref p g = 0
           then if g \<notin> set_tree (p_table p) \<or> p_refcount p = 0 then None
                else Some (p\<lparr>p_table := rb_erase g (p_table p), p_refcount := p_refcount p - 1\<rparr>)
           else Some p)"

text \<open>The part of \<open>join_handler\<close> that moves a group to the identifier the SA assigned; the result of \<open>mcast_insert\<close> is not looked at.\<close>

definition port_rekey :: "(nat tree \<Rightarrow> nat tree) \<Rightarrow> (nat \<Rightarrow> nat tree \<Rightarrow> nat tree) \<Rightarrow> nat \<Rightarrow> 128 word \<Rightarrow> mcast_port \<Rightarrow> mcast_port option" where
  "port_rekey rb_insert_color rb_erase g mgid p =
     (if mgid = p_mgid p g then Some p
      else if g \<notin> set_tree (p_table p) then None
      else
        let t = rb_erase g (p_table p); key = (p_mgid p)(g := mgid)
        in Some (p\<lparr>p_mgid := key, p_table := (case mcast_insert rb_insert_color key g (mgid = 0) t of Inl cur \<Rightarrow> t | Inr t' \<Rightarrow> t')\<rparr>))"


section \<open>Search and insertion\<close>

definition key_sorted :: "(nat \<Rightarrow> 128 word) \<Rightarrow> nat tree \<Rightarrow> bool" where
  "key_sorted key t \<longleftrightarrow> sorted (map key (inorder t))"

lemma key_sorted_Node [simp]: "key_sorted key (Node l c r) \<longleftrightarrow> key_sorted key l \<and> key_sorted key r \<and> (\<forall>x \<in> set_tree l. key x \<le> key c) \<and> (\<forall>x \<in> set_tree r. key c \<le> key x)"
  by (auto simp: key_sorted_def sorted_append) fastforce

lemma mcast_find_correct:
  assumes "key_sorted key t"
  shows "mcast_find key t k = Some g \<Longrightarrow> g \<in> set_tree t \<and> key g = k" "mcast_find key t k = None \<longleftrightarrow> k \<notin> key ` set_tree t"
  using assms by (induction t) (force split: if_splits)+

lemma map_sum_eq: "map_sum f h x = Inl c \<longleftrightarrow> (\<exists>y. x = Inl y \<and> c = f y)" "map_sum f h x = Inr d \<longleftrightarrow> (\<exists>y. x = Inr y \<and> d = h y)"
  by (cases x; auto)+

lemma mcast_link_Inl: "mcast_link key g dup t = Inl c \<Longrightarrow> c \<in> set_tree t \<and> key c = key g \<and> \<not> dup"
  by (induction t) (auto simp: map_sum_eq split: if_splits)

lemma mcast_link_Inr:
  assumes "mcast_link key g dup t = Inr t'" "key_sorted key t"
  shows "\<exists>a b. inorder t = a @ b \<and> inorder t' = a @ g # b \<and> (\<forall>x \<in> set a. key x < key g) \<and> (\<forall>x \<in> set b. key g \<le> key x \<and> (key g = key x \<longrightarrow> dup))"
  using assms
proof (induction t arbitrary: t')
  case (Node l c r)
  show ?case
  proof (cases "key g > key c")
    case True
    then obtain r' where r: "mcast_link key g dup r = Inr r'" "t' = Node l c r'" using Node.prems(1) by (auto simp: map_sum_eq dest: less_asym split: if_splits)
    then obtain a b where ab: "inorder r = a @ b" "inorder r' = a @ g # b" "\<forall>x \<in> set a. key x < key g" "\<forall>x \<in> set b. key g \<le> key x \<and> (key g = key x \<longrightarrow> dup)"
      using Node.IH(2) Node.prems(2) by auto
    have "\<forall>x \<in> set (inorder l @ c # a). key x < key g" using ab(3) True Node.prems(2) by auto
    then show ?thesis using ab r(2) by (intro exI [of _ "inorder l @ c # a"] exI [of _ b]) auto
  next
    case False
    have d: "key g = key c \<longrightarrow> dup" using Node.prems(1) by (auto split: if_splits)
    have "mcast_link key g dup (Node l c r) = map_sum id (\<lambda>l'. Node l' c r) (mcast_link key g dup l)" using False d by (cases "key g < key c") auto
    then obtain l' where l: "mcast_link key g dup l = Inr l'" "t' = Node l' c r" "key g = key c \<longrightarrow> dup"
      using Node.prems(1) d by (auto simp: map_sum_eq)
    then obtain a b where ab: "inorder l = a @ b" "inorder l' = a @ g # b" "\<forall>x \<in> set a. key x < key g" "\<forall>x \<in> set b. key g \<le> key x \<and> (key g = key x \<longrightarrow> dup)"
      using Node.IH(1) Node.prems(2) by auto
    have "\<forall>x \<in> set (b @ c # inorder r). key g \<le> key x \<and> (key g = key x \<longrightarrow> dup)" using ab(4) l(3) False Node.prems(2) by (auto dest: antisym)
    then show ?thesis using ab l(2) by (intro exI [of _ a] exI [of _ "b @ c # inorder r"]) auto
  qed
qed simp

section \<open>Histories of a port\<close>

text \<open>What is required of the rebalancing: the order of the nodes is kept, and erasing removes the node.\<close>

definition rbtree_ok :: "(nat tree \<Rightarrow> nat tree) \<Rightarrow> (nat \<Rightarrow> nat tree \<Rightarrow> nat tree) \<Rightarrow> bool" where
  "rbtree_ok rb er \<longleftrightarrow> (\<forall>t. inorder (rb t) = inorder t) \<and> (\<forall>g t. inorder (er g t) = remove1 g (inorder t))"

text \<open>\<open>port_reach\<close>: the members join and leave; a group is allocated at a free address; the SA assigns an identifier that no other group of the port has.\<close>

inductive port_reach :: "(nat tree \<Rightarrow> nat tree) \<Rightarrow> (nat \<Rightarrow> nat tree \<Rightarrow> nat tree) \<Rightarrow> mcast_port \<Rightarrow> bool" for rb er where
  port_new: "port_reach rb er new_port"
| port_found: "port_reach rb er p \<Longrightarrow> acquire_find mgid p = (r, p') \<Longrightarrow> port_reach rb er p'"
| port_made: "port_reach rb er p \<Longrightarrow> p_gref p n = 0 \<Longrightarrow> acquire_insert rb mgid n p = (g, p') \<Longrightarrow> port_reach rb er p'"
| port_left: "port_reach rb er p \<Longrightarrow> 0 < p_gref p g \<Longrightarrow> port_release er g p = Some p' \<Longrightarrow> port_reach rb er p'"
| port_assigned: "port_reach rb er p \<Longrightarrow> 0 < p_gref p g \<Longrightarrow> (\<forall>h. 0 < p_gref p h \<and> h \<noteq> g \<longrightarrow> p_mgid p h \<noteq> mgid) \<or> mgid = 0 \<Longrightarrow>
    port_rekey rb er g mgid p = Some p' \<Longrightarrow> port_reach rb er p'"

text \<open>
  \<open>port_run\<close>: the same without a restriction on the identifiers that the SA assigns; \<open>L\<close> collects the groups that \<open>join_handler\<close> has lost from the table because another group had the
  identifier.
\<close>

inductive port_run :: "(nat tree \<Rightarrow> nat tree) \<Rightarrow> (nat \<Rightarrow> nat tree \<Rightarrow> nat tree) \<Rightarrow> mcast_port \<Rightarrow> nat set \<Rightarrow> bool" for rb er where
  run_new: "port_run rb er new_port {}"
| run_found: "port_run rb er p L \<Longrightarrow> acquire_find mgid p = (r, p') \<Longrightarrow> port_run rb er p' L"
| run_made: "port_run rb er p L \<Longrightarrow> p_gref p n = 0 \<Longrightarrow> acquire_insert rb mgid n p = (g, p') \<Longrightarrow> port_run rb er p' L"
| run_left: "port_run rb er p L \<Longrightarrow> 0 < p_gref p g \<Longrightarrow> port_release er g p = Some p' \<Longrightarrow> port_run rb er p' L"
| run_assigned: "port_run rb er p L \<Longrightarrow> 0 < p_gref p g \<Longrightarrow> port_rekey rb er g mgid p = Some p' \<Longrightarrow>
    port_run rb er p' (if g \<in> set_tree (p_table p') then L else insert g L)"

definition port_inv :: "nat set \<Rightarrow> mcast_port \<Rightarrow> bool" where
  "port_inv L p \<longleftrightarrow> key_sorted (p_mgid p) (p_table p) \<and> distinct (inorder (p_table p)) \<and> set_tree (p_table p) = {g. 0 < p_gref p g} - L \<and>
     (\<forall>g h. g \<in> set_tree (p_table p) \<and> h \<in> set_tree (p_table p) \<and> p_mgid p g = p_mgid p h \<and> p_mgid p g \<noteq> 0 \<longrightarrow> g = h) \<and>
     p_refcount p = Suc (length (inorder (p_table p)) + card L) \<and> finite L \<and> L \<subseteq> {g. 0 < p_gref p g}"

lemma port_invD:
  assumes "port_inv L p"
  shows "key_sorted (p_mgid p) (p_table p)" "distinct (inorder (p_table p))" "set_tree (p_table p) = {g. 0 < p_gref p g} - L"
    "g \<in> set_tree (p_table p) \<Longrightarrow> h \<in> set_tree (p_table p) \<Longrightarrow> p_mgid p g = p_mgid p h \<Longrightarrow> p_mgid p g \<noteq> 0 \<Longrightarrow> g = h"
    "p_refcount p = Suc (length (inorder (p_table p)) + card L)" "finite L" "g \<in> L \<Longrightarrow> 0 < p_gref p g"
  using assms unfolding port_inv_def by blast+

lemma port_invI:
  assumes "key_sorted (p_mgid p) (p_table p)" "distinct (inorder (p_table p))" "set_tree (p_table p) = {g. 0 < p_gref p g} - L"
    "\<And>g h. g \<in> set_tree (p_table p) \<Longrightarrow> h \<in> set_tree (p_table p) \<Longrightarrow> p_mgid p g = p_mgid p h \<Longrightarrow> p_mgid p g \<noteq> 0 \<Longrightarrow> g = h"
    "p_refcount p = Suc (length (inorder (p_table p)) + card L)" "finite L" "\<And>g. g \<in> L \<Longrightarrow> 0 < p_gref p g"
  shows "port_inv L p"
  using assms unfolding port_inv_def by blast

lemma inv_found:
  assumes "port_inv L p" "acquire_find mgid p = (r, p')"
  shows "port_inv L p'"
proof (cases r)
  case None
  then show ?thesis using assms by (auto simp: acquire_find_def split: if_splits option.splits)
next
  case (Some g)
  then have f: "mcast_find (p_mgid p) (p_table p) mgid = Some g" "p' = p\<lparr>p_gref := (p_gref p)(g := p_gref p g + 1)\<rparr>"
    using assms(2) by (auto simp: acquire_find_def split: if_splits option.splits)
  then have "0 < p_gref p g" using mcast_find_correct(1) [OF port_invD(1) [OF assms(1)]] port_invD(3) [OF assms(1)] by blast
  then have e: "0 < p_gref p' h \<longleftrightarrow> 0 < p_gref p h" for h by (simp add: f(2))
  have q: "p_table p' = p_table p" "p_mgid p' = p_mgid p" "p_refcount p' = p_refcount p" by (simp_all add: f(2))
  show ?thesis using assms(1) unfolding port_inv_def e q .
qed

lemma inv_more_ref:
  assumes "port_inv L p" "0 < p_gref p g"
  shows "port_inv L (p\<lparr>p_gref := (p_gref p)(g := p_gref p g + 1)\<rparr>)" (is "port_inv L ?p")
proof -
  have e: "0 < p_gref ?p h \<longleftrightarrow> 0 < p_gref p h" for h using assms(2) by simp
  have q: "p_table ?p = p_table p" "p_mgid ?p = p_mgid p" "p_refcount ?p = p_refcount p" by simp_all
  show ?thesis using assms(1) unfolding port_inv_def e q .
qed

lemma key_sorted_cong: "(\<And>x. x \<in> set_tree t \<Longrightarrow> k x = k' x) \<Longrightarrow> key_sorted k t = key_sorted k' t"
proof -
  assume "\<And>x. x \<in> set_tree t \<Longrightarrow> k x = k' x"
  then have "map k (inorder t) = map k' (inorder t)" by simp
  then show ?thesis by (simp only: key_sorted_def)
qed

lemma linked_tree:
  assumes "mcast_link key n dup t = Inr t0" "inorder t' = inorder t0" "key_sorted key t" "distinct (inorder t)" "n \<notin> set_tree t"
  shows "key_sorted key t'" "distinct (inorder t')" "set_tree t' = insert n (set_tree t)" "length (inorder t') = Suc (length (inorder t))"
    "\<not> dup \<Longrightarrow> key n \<notin> key ` set_tree t"
proof -
  obtain a b where ab: "inorder t = a @ b" "inorder t' = a @ n # b" "\<forall>x \<in> set a. key x < key n" "\<forall>x \<in> set b. key n \<le> key x \<and> (key n = key x \<longrightarrow> dup)"
    using mcast_link_Inr [OF assms(1,3)] assms(2) by metis
  have st: "set_tree t = set a \<union> set b" "set_tree t' = insert n (set a \<union> set b)" using ab(1,2) by (simp_all flip: set_inorder)
  show "key_sorted key t'" using assms(3) ab by (auto simp: key_sorted_def sorted_append less_imp_le)
  show "distinct (inorder t')" using assms(4,5) ab by (auto simp: st)
  show "set_tree t' = insert n (set_tree t)" by (simp add: st)
  show "length (inorder t') = Suc (length (inorder t))" unfolding ab(1,2) by simp
  show "\<not> dup \<Longrightarrow> key n \<notin> key ` set_tree t" using ab(3,4) by (force simp: st)
qed

lemma inv_made:
  assumes "rbtree_ok rb er" "port_inv L p" "p_gref p n = 0" "acquire_insert rb mgid n p = (g, p')"
  shows "port_inv L p'"
proof -
  note I = port_invD [OF assms(2)]
  let ?key = "(p_mgid p)(n := mgid)"
  have n: "n \<notin> set_tree (p_table p)" using I(3) assms(3) by simp
  have k: "x \<in> set_tree (p_table p) \<Longrightarrow> ?key x = p_mgid p x" for x using n by auto
  have s: "key_sorted ?key (p_table p)" using key_sorted_cong [of "p_table p" ?key "p_mgid p"] k I(1) by blast
  show ?thesis
  proof (cases "mcast_link ?key n (mgid = 0) (p_table p)")
    case (Inl c)
    then have "0 < p_gref p c" using mcast_link_Inl [OF Inl] I(3) by simp
    then show ?thesis using inv_more_ref [OF assms(2)] assms(4) Inl by (auto simp: acquire_insert_def mcast_insert_def Let_def)
  next
    case (Inr t0)
    then have p': "p' = p\<lparr>p_table := rb t0, p_mgid := ?key, p_gref := (p_gref p)(n := 1), p_refcount := p_refcount p + 1\<rparr>"
      using assms(4) by (auto simp: acquire_insert_def mcast_insert_def Let_def)
    have rb: "inorder (rb t0) = inorder t0" using assms(1) by (simp add: rbtree_ok_def)
    note T = linked_tree [OF Inr rb s I(2) n]
    have u: "mgid \<noteq> 0 \<Longrightarrow> h \<in> set_tree (p_table p) \<Longrightarrow> p_mgid p h \<noteq> mgid" for h using T(5) k by auto
    have t: "set_tree (p_table p') = insert n (set_tree (p_table p))" using T(3) by (simp add: p')
    show ?thesis
    proof (rule port_invI)
      have "n \<notin> L" using I(7) [of n] assms(3) by linarith
      then show "set_tree (p_table p') = {g. 0 < p_gref p' g} - L" unfolding t I(3) by (auto simp: p')
      show "p_refcount p' = Suc (length (inorder (p_table p')) + card L)" unfolding p' using T(4) I(5) by simp
      show "g \<in> L \<Longrightarrow> 0 < p_gref p' g" for g using I(7) by (simp add: p')
      fix a b assume h: "a \<in> set_tree (p_table p')" "b \<in> set_tree (p_table p')" "p_mgid p' a = p_mgid p' b" "p_mgid p' a \<noteq> 0"
      have o: "c \<noteq> n \<Longrightarrow> p_mgid p' c = p_mgid p c" "p_mgid p' n = mgid" for c by (simp_all add: p')
      show "a = b"
      proof (cases "a = n \<or> b = n")
        case True
        then show ?thesis using h u o t by (metis insertE)
      next
        case False
        then show ?thesis using h o(1) t I(4) by (metis insertE)
      qed
    qed (use T(1,2) I(6) in \<open>simp_all add: p'\<close>)
  qed
qed

lemma erased_tree:
  assumes "rbtree_ok rb er" "key_sorted key t" "distinct (inorder t)" "g \<in> set_tree t"
  shows "key_sorted key (er g t)" "distinct (inorder (er g t))" "set_tree (er g t) = set_tree t - {g}" "Suc (length (inorder (er g t))) = length (inorder t)"
proof -
  have i: "inorder (er g t) = remove1 g (inorder t)" using assms(1) by (simp add: rbtree_ok_def)
  show "key_sorted key (er g t)" using assms(2) by (simp add: key_sorted_def i sorted_map_remove1)
  show "distinct (inorder (er g t))" using assms(3) by (simp add: i)
  show "set_tree (er g t) = set_tree t - {g}" using assms(3) by (simp add: i flip: set_inorder)
  show "Suc (length (inorder (er g t))) = length (inorder t)" 
  proof -
    have "g \<in> set (inorder t)" using assms(4) by simp
    then show ?thesis unfolding i length_remove1 using length_pos_if_in_set [of g "inorder t"] by simp
  qed
qed

lemma release_inv:
  assumes "rbtree_ok rb er" "port_inv L p" "0 < p_gref p g" "p_gref p g = 1 \<Longrightarrow> g \<notin> L"
  shows "\<exists>p'. port_release er g p = Some p' \<and> port_inv L p'"
proof -
  note I = port_invD [OF assms(2)]
  let ?q = "p\<lparr>p_gref := (p_gref p)(g := p_gref p g - 1)\<rparr>"
  show ?thesis
  proof (cases "p_gref p g = 1")
    case True
    have g: "g \<in> set_tree (p_table p)" "g \<notin> L" using I(3) assms(3,4) True by simp_all
    note E = erased_tree [OF assms(1) I(1,2) g(1)]
    let ?p = "?q\<lparr>p_table := er g (p_table p), p_refcount := p_refcount p - 1\<rparr>"
    have t: "set_tree (p_table ?p) = set_tree (p_table p) - {g}" using E(3) by simp
    have "port_inv L ?p"
    proof (rule port_invI)
      show "set_tree (p_table ?p) = {h. 0 < p_gref ?p h} - L" unfolding t I(3) using True by auto
      show "p_refcount ?p = Suc (length (inorder (p_table ?p)) + card L)" using E(4) I(5) by simp
      show "h \<in> L \<Longrightarrow> 0 < p_gref ?p h" for h using I(7) g(2) by auto
      fix a b assume "a \<in> set_tree (p_table ?p)" "b \<in> set_tree (p_table ?p)" "p_mgid ?p a = p_mgid ?p b" "p_mgid ?p a \<noteq> 0"
      then show "a = b" using I(4) [of a b] unfolding t by simp
    qed (use E(1,2) I(6) in simp_all)
    then show ?thesis using True g I(5) by (simp add: port_release_def Let_def)
  next
    case False
    have e: "0 < p_gref ?q h \<longleftrightarrow> 0 < p_gref p h" for h using False assms(3) by auto
    have f: "p_table ?q = p_table p" "p_mgid ?q = p_mgid p" "p_refcount ?q = p_refcount p" by simp_all
    have "port_inv L ?q" using assms(2) unfolding port_inv_def e f .
    then show ?thesis using False assms(3) by (simp add: port_release_def Let_def)
  qed
qed

text \<open>A defined release of a lost group is not the last one.\<close>

lemma release_lost: "port_release er g p = Some p' \<Longrightarrow> p_gref p g = 1 \<Longrightarrow> g \<in> set_tree (p_table p)"
  by (auto simp: port_release_def Let_def split: if_splits)

text \<open>The move of a group to a new identifier: its place is found, or it is lost.\<close>

lemma rekey_inv:
  assumes "rbtree_ok rb er" "port_inv L p" "g \<in> set_tree (p_table p)" "mgid \<noteq> p_mgid p g"
  shows "\<exists>p'. port_rekey rb er g mgid p = Some p' \<and> port_inv (if g \<in> set_tree (p_table p') then L else insert g L) p' \<and>
    (g \<notin> set_tree (p_table p') \<longrightarrow> (\<exists>h \<in> set_tree (p_table p). h \<noteq> g \<and> p_mgid p h = mgid \<and> mgid \<noteq> 0))"
proof -
  note I = port_invD [OF assms(2)]
  have g: "0 < p_gref p g" "g \<notin> L" using I(3) assms(3) by simp_all
  note E = erased_tree [OF assms(1) I(1,2) assms(3)]
  let ?key = "(p_mgid p)(g := mgid)" and ?t = "er g (p_table p)"
  have n: "g \<notin> set_tree ?t" using E(3) by simp
  have k: "x \<in> set_tree ?t \<Longrightarrow> ?key x = p_mgid p x" for x using n by auto
  have s: "key_sorted ?key ?t" using key_sorted_cong [of ?t ?key "p_mgid p"] k E(1) by blast
  show ?thesis
  proof (cases "mcast_link ?key g (mgid = 0) ?t")
    case (Inl c)
    let ?p = "p\<lparr>p_mgid := ?key, p_table := ?t\<rparr>"
    have c: "c \<in> set_tree ?t" "?key c = mgid" "mgid \<noteq> 0" using mcast_link_Inl [OF Inl] by simp_all
    have "port_inv (insert g L) ?p"
    proof (rule port_invI)
      show "set_tree (p_table ?p) = {h. 0 < p_gref ?p h} - insert g L" using E(3) I(3) by auto
      show "p_refcount ?p = Suc (length (inorder (p_table ?p)) + card (insert g L))" using E(4) I(5,6) g(2) by simp
      show "h \<in> insert g L \<Longrightarrow> 0 < p_gref ?p h" for h using I(7) g(1) by auto
      fix a b assume "a \<in> set_tree (p_table ?p)" "b \<in> set_tree (p_table ?p)" "p_mgid ?p a = p_mgid ?p b" "p_mgid ?p a \<noteq> 0"
      then show "a = b" using I(4) [of a b] k E(3) by auto
    qed (use s E(2) I(6) in simp_all)
    moreover have "port_rekey rb er g mgid p = Some ?p" using assms(3,4) Inl by (simp add: port_rekey_def mcast_insert_def Let_def)
    moreover have "\<exists>h \<in> set_tree (p_table p). h \<noteq> g \<and> p_mgid p h = mgid \<and> mgid \<noteq> 0" using c k [OF c(1)] E(3) n by auto
    ultimately show ?thesis using n by simp
  next
    case (Inr t0)
    have rb: "inorder (rb t0) = inorder t0" using assms(1) by (simp add: rbtree_ok_def)
    note T = linked_tree [OF Inr rb s E(2) n]
    let ?p = "p\<lparr>p_mgid := ?key, p_table := rb t0\<rparr>"
    have t: "set_tree (p_table ?p) = set_tree (p_table p)" using T(3) E(3) assms(3) by auto
    have u: "mgid \<noteq> 0 \<Longrightarrow> h \<in> set_tree ?t \<Longrightarrow> p_mgid p h \<noteq> mgid" for h using T(5) k by force
    have "port_inv L ?p"
    proof (rule port_invI)
      show "set_tree (p_table ?p) = {h. 0 < p_gref ?p h} - L" unfolding t using I(3) by simp
      show "p_refcount ?p = Suc (length (inorder (p_table ?p)) + card L)" using T(4) E(4) I(5) by simp
      show "h \<in> L \<Longrightarrow> 0 < p_gref ?p h" for h using I(7) by simp
      fix a b assume h: "a \<in> set_tree (p_table ?p)" "b \<in> set_tree (p_table ?p)" "p_mgid ?p a = p_mgid ?p b" "p_mgid ?p a \<noteq> 0"
      have o: "c \<noteq> g \<Longrightarrow> p_mgid ?p c = p_mgid p c" "p_mgid ?p g = mgid" for c by simp_all
      show "a = b"
      proof (cases "a = g \<or> b = g")
        case True
        then show ?thesis using h u o unfolding t E(3) by (metis DiffI singletonD)
      next
        case False
        then show ?thesis using h o(1) I(4) unfolding t by metis
      qed
    qed (use T(1,2) I(6) in simp_all)
    moreover have "port_rekey rb er g mgid p = Some ?p" using assms(3,4) Inr by (simp add: port_rekey_def mcast_insert_def Let_def)
    moreover have "g \<in> set_tree (p_table ?p)" unfolding t by (rule assms(3))
    ultimately show ?thesis by simp
  qed
qed

lemma port_run_inv: "port_run rb er p L \<Longrightarrow> rbtree_ok rb er \<Longrightarrow> port_inv L p"
proof (induction rule: port_run.induct)
  case run_new
  show ?case by (simp add: port_inv_def new_port_def key_sorted_def)
next
  case (run_found p L mgid r p')
  then show ?case using inv_found by blast
next
  case (run_made p L n mgid g p')
  show ?case by (rule inv_made [OF run_made.prems run_made.IH [OF run_made.prems] run_made.hyps(2,3)])
next
  case (run_left p L g p')
  have "p_gref p g = 1 \<Longrightarrow> g \<notin> L" using release_lost [OF run_left.hyps(3)] port_invD(3) [OF run_left.IH [OF run_left.prems]] by simp
  then show ?case using release_inv [OF run_left.prems run_left.IH [OF run_left.prems] run_left.hyps(2)] run_left.hyps(3) by simp
next
  case (run_assigned p L g mgid p')
  note I = run_assigned.IH [OF run_assigned.prems]
  show ?case
  proof (cases "mgid = p_mgid p g")
    case True
    then have "p' = p" using run_assigned.hyps(3) by (simp add: port_rekey_def)
    moreover have "g \<notin> set_tree (p_table p) \<Longrightarrow> insert g L = L" using port_invD(3) [OF I] run_assigned.hyps(2) by auto
    ultimately show ?thesis using I by simp
  next
    case False
    then have "g \<in> set_tree (p_table p)" using run_assigned.hyps(3) by (simp add: port_rekey_def split: if_splits)
    then show ?thesis using rekey_inv [OF run_assigned.prems I _ False] run_assigned.hyps(3) by simp
  qed
qed

text \<open>Without collisions no group is lost.\<close>

lemma port_reach_run: "port_reach rb er p \<Longrightarrow> rbtree_ok rb er \<Longrightarrow> port_run rb er p {}"
proof (induction rule: port_reach.induct)
  case (port_assigned p g mgid p')
  note R = port_assigned.IH [OF port_assigned.prems] note I = port_run_inv [OF R port_assigned.prems]
  have g: "g \<in> set_tree (p_table p)" using port_invD(3) [OF I] port_assigned.hyps(2) by simp
  have "g \<in> set_tree (p_table p')"
  proof (cases "mgid = p_mgid p g")
    case True
    then show ?thesis using port_assigned.hyps(4) g by (simp add: port_rekey_def)
  next
    case False
    have "\<not> (h \<in> set_tree (p_table p) \<and> h \<noteq> g \<and> p_mgid p h = mgid \<and> mgid \<noteq> 0)" for h using port_assigned.hyps(3) port_invD(3) [OF I] by auto
    then show ?thesis using rekey_inv [OF port_assigned.prems I g False] port_assigned.hyps(4) by (metis option.inject)
  qed
  then show ?case using run_assigned [OF R port_assigned.hyps(2,4)] by simp
qed (auto intro: port_run.intros)

lemma port_reach_inv: "port_reach rb er p \<Longrightarrow> rbtree_ok rb er \<Longrightarrow> port_inv {} p"
  using port_reach_run port_run_inv by blast

section \<open>Properties\<close>

text \<open>An instance of the rebalancing: a tree that is a list to the right.\<close>

fun spine :: "nat list \<Rightarrow> nat tree" where
  "spine [] = Leaf" | "spine (x # l) = Node Leaf x (spine l)"

definition spine_erase :: "nat \<Rightarrow> nat tree \<Rightarrow> nat tree" where
  "spine_erase g t = spine (remove1 g (inorder t))"

lemma spine_ok: "rbtree_ok id spine_erase"
proof -
  have "inorder (spine l) = l" for l by (induction l) simp_all
  then show ?thesis by (simp add: rbtree_ok_def spine_erase_def)
qed

text \<open>Two groups, one with the identifier 5 and one whose identifier is not known yet.\<close>

definition demo_port :: mcast_port where
  "demo_port = snd (acquire_insert id 0 2 (snd (acquire_insert id 5 1 new_port)))"

lemma demo_port_reach: "port_reach id spine_erase demo_port"
proof -
  have "port_reach id spine_erase (snd (acquire_insert id 5 1 new_port))"
    by (rule port_made [OF port_new _ prod.collapse [symmetric]]) (simp add: new_port_def)
  then show ?thesis unfolding demo_port_def
    by (rule port_made [OF _ _ prod.collapse [symmetric]]) (simp add: acquire_insert_def mcast_insert_def new_port_def)
qed

lemma demo_port_groups: "p_gref demo_port 1 = 1" "p_mgid demo_port 1 = 5" "p_gref demo_port 2 = 1" "p_mgid demo_port 2 = 0" "p_gref demo_port 3 = 0"
  by (simp_all add: demo_port_def acquire_insert_def mcast_insert_def new_port_def)

lemmas demo_port_facts = demo_port_groups demo_port_groups [unfolded One_nat_def]



text \<open>The references of a port are one for the device and one for each live group; giving back a reference on a live group is always defined, removes the group from the table with
  the last one, and leaves every other group in it.\<close>

theorem mcast_port_references:
  assumes "rbtree_ok rb er" "port_reach rb er p"
  shows "p_refcount p = Suc (card {g. 0 < p_gref p g}) \<and>
    (0 < p_gref p g \<longrightarrow> (\<exists>p'. port_release er g p = Some p' \<and> p_gref p' = (p_gref p)(g := p_gref p g - 1) \<and> set_tree (p_table p') = {h. 0 < p_gref p' h}))"
proof (intro conjI impI)
  note J = port_reach_inv [OF assms(2,1)] note I = port_invD [OF J]
  have "card (set (inorder (p_table p))) = length (inorder (p_table p))" by (rule distinct_card [OF I(2)])
  then show "p_refcount p = Suc (card {g. 0 < p_gref p g})" using I(3,5) by simp
  assume "0 < p_gref p g"
  then obtain p' where p': "port_release er g p = Some p'" "port_inv {} p'" using release_inv [OF assms(1) J] by blast
  moreover have "p_gref p' = (p_gref p)(g := p_gref p g - 1)" using p'(1) by (auto simp: port_release_def Let_def split: if_splits)
  ultimately show "\<exists>p'. port_release er g p = Some p' \<and> p_gref p' = (p_gref p)(g := p_gref p g - 1) \<and> set_tree (p_table p') = {h. 0 < p_gref p' h}"
    using port_invD(3) by blast
qed

theorem mcast_port_references_witness: "p_refcount demo_port = Suc (card {g. 0 < p_gref demo_port g}) \<and> port_release spine_erase 1 demo_port \<noteq> None"
  using mcast_port_references [OF spine_ok demo_port_reach, of 1] by (auto simp: demo_port_facts)

text \<open>C40: \<open>join_handler\<close> does not look at the result of \<open>mcast_insert\<close>: when the identifier that the SA assigned to a group is that of another group of the port, the group is in the table no
  more, and its last release erases a node that is not in the tree.\<close>

theorem mcast_mgid_collision:
  assumes "rbtree_ok rb er" "port_reach rb er p" "p_gref p g = 1" "0 < p_gref p h" "p_mgid p h \<noteq> p_mgid p g" "p_mgid p h \<noteq> 0"
  shows "\<exists>p'. port_rekey rb er g (p_mgid p h) p = Some p' \<and> g \<notin> set_tree (p_table p') \<and> port_release er g p' = None"
proof -
  note I = port_invD [OF port_reach_inv [OF assms(2,1)]]
  have g: "g \<in> set_tree (p_table p)" "h \<in> set_tree (p_table p)" "h \<noteq> g" using I(3) assms(3-5) by auto
  note E = erased_tree [OF assms(1) I(1,2) g(1)]
  let ?key = "(p_mgid p)(g := p_mgid p h)" and ?t = "er g (p_table p)"
  have n: "g \<notin> set_tree ?t" "h \<in> set_tree ?t" using E(3) g by simp_all
  have k: "x \<in> set_tree ?t \<Longrightarrow> ?key x = p_mgid p x" for x using n(1) by auto
  have s: "key_sorted ?key ?t" using key_sorted_cong [of ?t ?key "p_mgid p"] k E(1) by blast
  have "mcast_link ?key g False ?t \<noteq> Inr t0" for t0
  proof
    assume "mcast_link ?key g False ?t = Inr t0"
    then have "?key g \<notin> ?key ` set_tree ?t" using linked_tree(5) [OF _ refl s E(2) n(1)] by blast
    moreover have "?key g = ?key h" using g(3) by simp
    ultimately show False using n(2) by (metis imageI)
  qed
  then obtain c where "mcast_link ?key g False ?t = Inl c" by (cases "mcast_link ?key g False ?t") auto
  then have r: "port_rekey rb er g (p_mgid p h) p = Some (p\<lparr>p_mgid := ?key, p_table := ?t\<rparr>)"
    using g(1) assms(5,6) by (simp add: port_rekey_def mcast_insert_def Let_def)
  then show ?thesis using n(1) assms(3) by (simp add: port_release_def)
qed

theorem mcast_mgid_collision_witness:
  "\<exists>p'. port_rekey id spine_erase 2 5 demo_port = Some p' \<and> 2 \<notin> set_tree (p_table p') \<and> port_release spine_erase 2 p' = None"
  using mcast_mgid_collision [OF spine_ok demo_port_reach, of 2 1] by (simp add: demo_port_facts)

end
