(* ===== verification/Mlx5_Ft.thy ===== *)
theory Mlx5_Ft
  imports Kern_Prelude
begin

unbundle bit_operations_syntax

text \<open>
  The pool of flow-table sizes of the mlx5 core driver, \<open>fs_ft_pool.c\<close>, and the two firmware commands of \<open>fs_cmd.c\<close> that take from it and give back to it. The
  firmware has a region of 16M entries for each of five table sizes; the driver keeps count of the tables left of each size.
\<close>

section \<open>The pool\<close>

definition FT_SIZE :: u32 where "FT_SIZE = 16 * 1024 * 1024"

definition FT_POOLS :: "u32 list" where
  "FT_POOLS = [4 * 1024 * 1024, 1 * 1024 * 1024, 64 * 1024, 128, 1]"

definition POOL_NEXT_SIZE :: int where "POOL_NEXT_SIZE = 0"

record mlx5_ft_pool =
  ft_left :: "int list"

definition mlx5_ft_pool_init :: "bool \<Rightarrow> mlx5_ft_pool result" where
  "mlx5_ft_pool_init kzalloc_ok =
     (if \<not> kzalloc_ok then Inl ENOMEM else Inr \<lparr>ft_left = map (\<lambda>sz. uint (FT_SIZE div sz)) FT_POOLS\<rparr>)"

text \<open>
  The loop of \<open>mlx5_ft_pool_get_avail_sz\<close> from the index \<open>i - 1\<close> down. In the comparison with a pool size the \<open>int\<close> \<open>desired_size\<close> is converted to unsigned.
\<close>

fun avail_loop :: "int list \<Rightarrow> u32 \<Rightarrow> int \<Rightarrow> nat option \<Rightarrow> nat \<Rightarrow> nat option" where
  "avail_loop left max_ft_size desired_size found_i 0 = found_i"
| "avail_loop left max_ft_size desired_size found_i (Suc i) =
     (if left ! i \<noteq> 0 \<and> FT_POOLS ! i \<ge> word_of_int desired_size \<and> FT_POOLS ! i \<le> max_ft_size
      then if desired_size \<noteq> POOL_NEXT_SIZE then Some i else avail_loop left max_ft_size desired_size (Some i) i
      else avail_loop left max_ft_size desired_size found_i i)"

definition mlx5_ft_pool_get_avail_sz :: "nat \<Rightarrow> int \<Rightarrow> mlx5_ft_pool \<Rightarrow> u32 \<times> mlx5_ft_pool" where
  "mlx5_ft_pool_get_avail_sz log_max_ft_size desired_size ft_pool =
     (case avail_loop (ft_left ft_pool) (push_bit log_max_ft_size 1) desired_size None (length FT_POOLS) of
        Some i \<Rightarrow> (FT_POOLS ! i, ft_pool\<lparr>ft_left := (ft_left ft_pool)[i := ft_left ft_pool ! i - 1]\<rparr>)
      | None \<Rightarrow> (0, ft_pool))"

text \<open>The result tells whether the size was found; otherwise the kernel warns.\<close>

fun put_loop :: "u32 \<Rightarrow> nat \<Rightarrow> int list \<Rightarrow> int list option" where
  "put_loop sz 0 left = None"
| "put_loop sz (Suc i) left = (if sz = FT_POOLS ! i then Some (left[i := left ! i + 1]) else put_loop sz i left)"

definition mlx5_ft_pool_put_sz :: "u32 \<Rightarrow> mlx5_ft_pool \<Rightarrow> bool \<times> mlx5_ft_pool" where
  "mlx5_ft_pool_put_sz sz ft_pool =
     (if sz = 0 then (True, ft_pool)
      else case put_loop sz (length FT_POOLS) (ft_left ft_pool) of
          Some l \<Rightarrow> (True, ft_pool\<lparr>ft_left := l\<rparr>)
        | None \<Rightarrow> (False, ft_pool))"

section \<open>The firmware commands\<close>

definition MLX5_FLOW_TABLE_TUNNEL_EN_REFORMAT :: u32 where "MLX5_FLOW_TABLE_TUNNEL_EN_REFORMAT = push_bit 0 1"
definition MLX5_FLOW_TABLE_TUNNEL_EN_DECAP :: u32 where "MLX5_FLOW_TABLE_TUNNEL_EN_DECAP = push_bit 1 1"
definition MLX5_FLOW_TABLE_TERMINATION :: u32 where "MLX5_FLOW_TABLE_TERMINATION = push_bit 2 1"
definition MLX5_FLOW_TABLE_OTHER_VPORT :: u32 where "MLX5_FLOW_TABLE_OTHER_VPORT = push_bit 4 1"

datatype mlx5_flow_table_miss_action = MLX5_FLOW_TABLE_MISS_ACTION_DEF | MLX5_FLOW_TABLE_MISS_ACTION_FWD | MLX5_FLOW_TABLE_MISS_ACTION_SWITCH_DOMAIN

datatype fs_flow_table_op_mod = FS_FT_OP_MOD_NORMAL | FS_FT_OP_MOD_LAG_DEMUX

record mlx5_flow_table =
  ft_id :: u32
  ft_vport :: u16
  ft_max_fte :: u32
  ft_level :: u32
  ft_type :: u8
  ft_op_mod :: fs_flow_table_op_mod
  ft_flags :: u32
  ft_def_miss_action :: mlx5_flow_table_miss_action

text \<open>The messages to the firmware, field by field; a field that is not set is 0. Each is cut to its width in \<open>mlx5_ifc.h\<close>.\<close>

record create_flow_table_in =
  in_uid :: u16
  in_op_mod :: u16
  in_table_type :: u8
  in_vport_number :: u16
  in_other_vport :: bool
  in_level :: u8
  in_log_size :: u8
  in_decap_en :: bool
  in_reformat_en :: bool
  in_termination_table :: bool
  in_table_miss_action :: mlx5_flow_table_miss_action
  in_table_miss_id :: "24 word"
  in_lag_master_next_table_id :: "24 word"

record destroy_flow_table_in =
  in_d_table_type :: u8
  in_d_table_id :: "24 word"
  in_d_vport_number :: u16
  in_d_other_vport :: bool

text \<open>\<open>ilog2\<close> of a positive number.\<close>

fun ilog2 :: "nat \<Rightarrow> nat" where
  "ilog2 n = (if n \<le> 1 then 0 else Suc (ilog2 (n div 2)))"

declare ilog2.simps [simp del]

definition create_msg :: "u32 \<Rightarrow> u16 \<Rightarrow> mlx5_flow_table option \<Rightarrow> mlx5_flow_table \<Rightarrow> create_flow_table_in" where
  "create_msg sz uid next_ft ft =
     (let m = \<lparr>in_uid = uid, in_op_mod = 0, in_table_type = ft_type ft, in_vport_number = ft_vport ft,
               in_other_vport = has_flag (ft_flags ft) MLX5_FLOW_TABLE_OTHER_VPORT, in_level = ucast (ft_level ft),
               in_log_size = (if sz \<noteq> 0 then of_nat (ilog2 (unat sz)) else 0),
               in_decap_en = has_flag (ft_flags ft) MLX5_FLOW_TABLE_TUNNEL_EN_DECAP,
               in_reformat_en = has_flag (ft_flags ft) MLX5_FLOW_TABLE_TUNNEL_EN_REFORMAT,
               in_termination_table = has_flag (ft_flags ft) MLX5_FLOW_TABLE_TERMINATION,
               in_table_miss_action = MLX5_FLOW_TABLE_MISS_ACTION_DEF, in_table_miss_id = 0, in_lag_master_next_table_id = 0\<rparr>
      in case ft_op_mod ft of
           FS_FT_OP_MOD_NORMAL \<Rightarrow>
             (case next_ft of
                Some n \<Rightarrow> m\<lparr>in_table_miss_action := MLX5_FLOW_TABLE_MISS_ACTION_FWD, in_table_miss_id := ucast (ft_id n)\<rparr>
              | None \<Rightarrow> m\<lparr>in_table_miss_action := ft_def_miss_action ft\<rparr>)
         | FS_FT_OP_MOD_LAG_DEMUX \<Rightarrow>
             (let m = m\<lparr>in_op_mod := 1\<rparr>
              in case next_ft of Some n \<Rightarrow> m\<lparr>in_lag_master_next_table_id := ucast (ft_id n)\<rparr> | None \<Rightarrow> m))"

text \<open>
  \<open>cmd_exec\<close> is the execution of the command, the error or the identifier of the table. The results: the error, the table, the pool and the message that was sent.
\<close>

definition mlx5_cmd_create_flow_table :: "(create_flow_table_in \<Rightarrow> u32 result) \<Rightarrow> nat \<Rightarrow> int \<Rightarrow> u16 \<Rightarrow> mlx5_flow_table option \<Rightarrow> mlx5_flow_table \<Rightarrow> mlx5_ft_pool
    \<Rightarrow> errno option \<times> mlx5_flow_table \<times> mlx5_ft_pool \<times> create_flow_table_in option" where
  "mlx5_cmd_create_flow_table cmd_exec log_max_ft_size max_fte uid next_ft ft ft_pool =
     (let (sz, ft_pool) = mlx5_ft_pool_get_avail_sz log_max_ft_size max_fte ft_pool
      in if sz = 0 then (Some ENOSPC, ft, ft_pool, None)
         else
           let m = create_msg sz uid next_ft ft
           in case cmd_exec m of
                Inr table_id \<Rightarrow> (None, ft\<lparr>ft_id := table_id, ft_max_fte := sz\<rparr>, ft_pool, Some m)
              | Inl err \<Rightarrow> (Some err, ft, snd (mlx5_ft_pool_put_sz sz ft_pool), Some m))"

definition destroy_msg :: "mlx5_flow_table \<Rightarrow> destroy_flow_table_in" where
  "destroy_msg ft =
     \<lparr>in_d_table_type = ft_type ft, in_d_table_id = ucast (ft_id ft), in_d_vport_number = ft_vport ft,
      in_d_other_vport = has_flag (ft_flags ft) MLX5_FLOW_TABLE_OTHER_VPORT\<rparr>"

definition mlx5_cmd_destroy_flow_table :: "(destroy_flow_table_in \<Rightarrow> errno option) \<Rightarrow> mlx5_flow_table \<Rightarrow> mlx5_ft_pool \<Rightarrow> errno option \<times> bool \<times> mlx5_ft_pool" where
  "mlx5_cmd_destroy_flow_table cmd_exec ft ft_pool =
     (case cmd_exec (destroy_msg ft) of
        None \<Rightarrow> (None, mlx5_ft_pool_put_sz (ft_max_fte ft) ft_pool)
      | Some err \<Rightarrow> (Some err, True, ft_pool))"

section \<open>The search\<close>

definition fits :: "int list \<Rightarrow> u32 \<Rightarrow> int \<Rightarrow> nat \<Rightarrow> bool" where
  "fits left max_sz d i \<longleftrightarrow> left ! i \<noteq> 0 \<and> word_of_int d \<le> FT_POOLS ! i \<and> FT_POOLS ! i \<le> max_sz"

lemma avail_loop_any: "avail_loop left mx 0 f n = (if \<exists>i < n. fits left mx 0 i then Some (LEAST i. fits left mx 0 i) else f)"
proof (induction n arbitrary: f)
  case (Suc n)
  let ?L = "LEAST i. fits left mx 0 i"
  show ?case
  proof (cases "\<exists>i < n. fits left mx 0 i")
    case True
    then show ?thesis using Suc by (auto simp: POOL_NEXT_SIZE_def less_Suc_eq)
  next
    case False
    then have "fits left mx 0 n \<Longrightarrow> ?L = n" by (intro Least_equality) (auto simp: not_less [symmetric])
    then show ?thesis using Suc False by (auto simp: POOL_NEXT_SIZE_def less_Suc_eq fits_def)
  qed
qed simp

lemma avail_loop_sized: "d \<noteq> 0 \<Longrightarrow> avail_loop left mx d None n = (if \<exists>i < n. fits left mx d i then Some (GREATEST i. i < n \<and> fits left mx d i) else None)"
proof (induction n)
  case (Suc n)
  show ?case
  proof (cases "fits left mx d n")
    case True
    then have "(GREATEST i. i < Suc n \<and> fits left mx d i) = n" by (intro Greatest_equality) auto
    then show ?thesis using True Suc.prems by (auto simp: fits_def POOL_NEXT_SIZE_def)
  next
    case False
    then have "(\<lambda>i. i < Suc n \<and> fits left mx d i) = (\<lambda>i. i < n \<and> fits left mx d i)" by (auto simp: less_Suc_eq)
    then show ?thesis using False Suc by (auto simp: fits_def less_Suc_eq)
  qed
qed simp

lemma pools_length [simp]: "length FT_POOLS = 5"
  by (simp add: FT_POOLS_def)

lemma pool_cases: "i < 5 \<Longrightarrow> i = 0 \<or> i = 1 \<or> i = 2 \<or> i = 3 \<or> i = (4 :: nat)"
  by auto

lemma pools_desc: "i \<le> j \<Longrightarrow> j < 5 \<Longrightarrow> FT_POOLS ! j \<le> FT_POOLS ! i"
  using pool_cases [of i] pool_cases [of j] by (auto simp: FT_POOLS_def word_le_nat_alt)

lemma pools_inj: "i < 5 \<Longrightarrow> j < 5 \<Longrightarrow> FT_POOLS ! i = FT_POOLS ! j \<longleftrightarrow> i = j"
  using pool_cases [of i] pool_cases [of j] by (auto simp: FT_POOLS_def)

lemma pools_log: "sz \<in> set FT_POOLS \<Longrightarrow> sz \<noteq> 0 \<and> 2 ^ unat (of_nat (ilog2 (unat sz)) :: u8) = sz"
proof -
  have "ilog2 4194304 = 22" "ilog2 1048576 = 20" "ilog2 65536 = 16" "ilog2 128 = 7" "ilog2 1 = 0" by (simp_all add: ilog2.simps [of "numeral _"] ilog2.simps [of "Suc 0"])
  moreover assume "sz \<in> set FT_POOLS"
  ultimately show ?thesis by (auto simp: FT_POOLS_def)
qed

lemma put_loop_pool: "i < n \<Longrightarrow> n \<le> 5 \<Longrightarrow> put_loop (FT_POOLS ! i) n l = Some (l[i := l ! i + 1])"
  by (induction n) (auto simp: pools_inj less_Suc_eq)

lemma put_sz_pool:
  assumes "i < 5"
  shows "mlx5_ft_pool_put_sz (FT_POOLS ! i) p = (True, p\<lparr>ft_left := (ft_left p)[i := ft_left p ! i + 1]\<rparr>)"
proof -
  have "FT_POOLS ! i \<noteq> 0" using pools_log [of "FT_POOLS ! i"] assms by simp
  then show ?thesis using put_loop_pool [OF assms order_refl] by (simp add: mlx5_ft_pool_put_sz_def)
qed

text \<open>What the loop finds: the first index without a wish, and the last one otherwise.\<close>

lemma avail_loop_None: "avail_loop left mx d None 5 = None \<longleftrightarrow> (\<forall>i < 5. \<not> fits left mx d i)"
  by (cases "d = 0") (auto simp: avail_loop_any avail_loop_sized)

lemma avail_loop_Some:
  assumes "avail_loop left mx d None 5 = Some i"
  shows "i < 5 \<and> fits left mx d i \<and> (\<forall>j < 5. fits left mx d j \<longrightarrow> (if d = 0 then i \<le> j else j \<le> i))"
proof (cases "d = 0")
  case True
  then obtain k where "k < 5" "fits left mx 0 k" "i = (LEAST i. fits left mx 0 i)" using assms by (auto simp: avail_loop_any split: if_splits)
  then have "fits left mx 0 i" "i \<le> k" "\<forall>j. fits left mx 0 j \<longrightarrow> i \<le> j" using LeastI [of "fits left mx 0"] Least_le [of "fits left mx 0"] by simp_all
  then show ?thesis using True \<open>k < 5\<close> by simp
next
  case False
  let ?P = "\<lambda>i. i < 5 \<and> fits left mx d i"
  obtain k where "?P k" "i = (GREATEST i. ?P i)" using assms False by (auto simp: avail_loop_sized split: if_splits)
  then have "?P i" "\<forall>j. ?P j \<longrightarrow> j \<le> i" using GreatestI_nat [of ?P k 5] Greatest_le_nat [of ?P _ 5] by auto
  then show ?thesis using False by simp
qed

section \<open>Histories\<close>

definition tables_of :: "u32 \<Rightarrow> mlx5_flow_table list \<Rightarrow> nat" where
  "tables_of sz T = length (filter (\<lambda>ft. ft_max_fte ft = sz) T)"

text \<open>The tables that exist and the pool; the firmware may refuse every command.\<close>

inductive ft_reach :: "mlx5_flow_table list \<Rightarrow> mlx5_ft_pool \<Rightarrow> bool" where
  ft_start: "mlx5_ft_pool_init True = Inr p \<Longrightarrow> ft_reach [] p"
| ft_create: "ft_reach T p \<Longrightarrow> mlx5_cmd_create_flow_table cmd lm d uid nx ft p = (None, ft', p', m) \<Longrightarrow> ft_reach (ft' # T) p'"
| ft_refuse: "ft_reach T p \<Longrightarrow> mlx5_cmd_create_flow_table cmd lm d uid nx ft p = (Some e, ft', p', m) \<Longrightarrow> ft_reach T p'"
| ft_destroy: "ft_reach T p \<Longrightarrow> ft \<in> set T \<Longrightarrow> mlx5_cmd_destroy_flow_table cmd ft p = (None, w, p') \<Longrightarrow> ft_reach (remove1 ft T) p'"
| ft_keep: "ft_reach T p \<Longrightarrow> ft \<in> set T \<Longrightarrow> mlx5_cmd_destroy_flow_table cmd ft p = (Some e, w, p') \<Longrightarrow> ft_reach T p'"

definition ft_inv :: "mlx5_flow_table list \<Rightarrow> mlx5_ft_pool \<Rightarrow> bool" where
  "ft_inv T p \<longleftrightarrow> length (ft_left p) = 5 \<and> (\<forall>ft \<in> set T. ft_max_fte ft \<in> set FT_POOLS) \<and>
     (\<forall>i < 5. 0 \<le> ft_left p ! i \<and> ft_left p ! i + int (tables_of (FT_POOLS ! i) T) = int (unat FT_SIZE div unat (FT_POOLS ! i)))"

lemma ft_invD:
  assumes "ft_inv T p"
  shows "length (ft_left p) = 5" "ft \<in> set T \<Longrightarrow> ft_max_fte ft \<in> set FT_POOLS"
    "i < 5 \<Longrightarrow> 0 \<le> ft_left p ! i" "i < 5 \<Longrightarrow> ft_left p ! i + int (tables_of (FT_POOLS ! i) T) = int (unat FT_SIZE div unat (FT_POOLS ! i))"
  using assms by (simp_all add: ft_inv_def)

lemma ft_inv_upd:
  assumes "ft_inv T p" "i < 5" "0 \<le> ft_left p ! i + d" "\<And>ft. ft \<in> set T' \<Longrightarrow> ft_max_fte ft \<in> set FT_POOLS"
    "\<And>j. j < 5 \<Longrightarrow> int (tables_of (FT_POOLS ! j) T') = int (tables_of (FT_POOLS ! j) T) - (if i = j then d else 0)"
  shows "ft_inv T' (p\<lparr>ft_left := (ft_left p)[i := ft_left p ! i + d]\<rparr>)"
proof -
  note I = ft_invD [OF assms(1)]
  let ?p = "p\<lparr>ft_left := (ft_left p)[i := ft_left p ! i + d]\<rparr>"
  have u: "ft_left ?p ! j = ft_left p ! j + (if i = j then d else 0)" if "j < 5" for j
    using I(1) assms(2) that by (simp add: nth_list_update)
  show ?thesis unfolding ft_inv_def
  proof (intro conjI ballI allI impI)
    fix j :: nat assume j: "j < 5"
    show "0 \<le> ft_left ?p ! j" using u [OF j] I(3) [OF j] assms(3) by (cases "i = j") simp_all
    show "ft_left ?p ! j + int (tables_of (FT_POOLS ! j) T') = int (unat FT_SIZE div unat (FT_POOLS ! j))"
      unfolding u [OF j] assms(5) [OF j] I(4) [OF j, symmetric] by simp
  qed (use I(1) assms(4) in simp_all)
qed

lemma ft_inv_start: "mlx5_ft_pool_init True = Inr p \<Longrightarrow> ft_inv [] p"
proof -
  assume "mlx5_ft_pool_init True = Inr p"
  then have p: "ft_left p = map (\<lambda>sz. uint (FT_SIZE div sz)) FT_POOLS" by (auto simp: mlx5_ft_pool_init_def)
  have "uint (FT_SIZE div sz) = int (unat FT_SIZE div unat sz)" for sz by (simp only: uint_nat unat_div)
  then show ?thesis by (simp add: ft_inv_def p tables_of_def)
qed

text \<open>The four outcomes of a creation.\<close>

lemma create_cases:
  assumes "ft_inv T p"
  obtains (full) "avail_loop (ft_left p) (push_bit lm 1) d None 5 = None"
      "mlx5_cmd_create_flow_table cmd lm d uid nx ft p = (Some ENOSPC, ft, p, None)"
  | (refused) i e where "avail_loop (ft_left p) (push_bit lm 1) d None 5 = Some i" "i < 5"
      "mlx5_cmd_create_flow_table cmd lm d uid nx ft p = (Some e, ft, p, Some (create_msg (FT_POOLS ! i) uid nx ft))"
  | (made) i t where "avail_loop (ft_left p) (push_bit lm 1) d None 5 = Some i" "i < 5"
      "mlx5_cmd_create_flow_table cmd lm d uid nx ft p =
        (None, ft\<lparr>ft_id := t, ft_max_fte := FT_POOLS ! i\<rparr>, p\<lparr>ft_left := (ft_left p)[i := ft_left p ! i - 1]\<rparr>, Some (create_msg (FT_POOLS ! i) uid nx ft))"
proof (cases "avail_loop (ft_left p) (push_bit lm 1) d None 5")
  case None
  then have "mlx5_cmd_create_flow_table cmd lm d uid nx ft p = (Some ENOSPC, ft, p, None)"
    by (simp add: mlx5_cmd_create_flow_table_def mlx5_ft_pool_get_avail_sz_def)
  then show thesis using full None by blast
next
  case (Some i)
  then have i: "i < 5" "FT_POOLS ! i \<noteq> 0" "i < length (ft_left p)" using avail_loop_Some [OF Some] pools_log [of "FT_POOLS ! i"] ft_invD(1) [OF assms] by simp_all
  show thesis
  proof (cases "cmd (create_msg (FT_POOLS ! i) uid nx ft)")
    case (Inl e)
    then have "mlx5_cmd_create_flow_table cmd lm d uid nx ft p = (Some e, ft, p, Some (create_msg (FT_POOLS ! i) uid nx ft))"
      using Some i by (simp add: mlx5_cmd_create_flow_table_def mlx5_ft_pool_get_avail_sz_def put_sz_pool)
    then show thesis using refused Some i(1) by blast
  next
    case (Inr t)
    then have "mlx5_cmd_create_flow_table cmd lm d uid nx ft p =
        (None, ft\<lparr>ft_id := t, ft_max_fte := FT_POOLS ! i\<rparr>, p\<lparr>ft_left := (ft_left p)[i := ft_left p ! i - 1]\<rparr>, Some (create_msg (FT_POOLS ! i) uid nx ft))"
      using Some i by (simp add: mlx5_cmd_create_flow_table_def mlx5_ft_pool_get_avail_sz_def)
    then show thesis using made Some i(1) by blast
  qed
qed

lemma tables_of_Cons: "tables_of sz (ft # T) = tables_of sz T + (if ft_max_fte ft = sz then 1 else 0)"
  by (simp add: tables_of_def)

lemma tables_of_remove1: "ft \<in> set T \<Longrightarrow> tables_of sz T = tables_of sz (remove1 ft T) + (if ft_max_fte ft = sz then 1 else 0)"
  by (induction T) (auto simp: tables_of_def)

lemma ft_inv_create:
  assumes "ft_inv T p" "i < 5" "ft_left p ! i \<noteq> 0" "ft_max_fte ft = FT_POOLS ! i"
  shows "ft_inv (ft # T) (p\<lparr>ft_left := (ft_left p)[i := ft_left p ! i - 1]\<rparr>)"
proof -
  note I = ft_invD [OF assms(1)]
  have "0 < ft_left p ! i" using I(3) [OF assms(2)] assms(3) by simp
  moreover have "x \<in> set (ft # T) \<Longrightarrow> ft_max_fte x \<in> set FT_POOLS" for x using I(2) assms(2,4) by auto
  moreover have "int (tables_of (FT_POOLS ! j) (ft # T)) = int (tables_of (FT_POOLS ! j) T) - (if i = j then - 1 else 0)" if "j < 5" for j
    using assms(2,4) that by (simp add: tables_of_Cons pools_inj)
  ultimately have "ft_inv (ft # T) (p\<lparr>ft_left := (ft_left p)[i := ft_left p ! i + - 1]\<rparr>)" by (intro ft_inv_upd [OF assms(1,2)]) simp_all
  then show ?thesis by simp
qed

lemma destroy_cases:
  assumes "ft_inv T p" "ft \<in> set T"
  obtains (refused) e where "mlx5_cmd_destroy_flow_table cmd ft p = (Some e, True, p)"
  | (gone) i where "i < 5" "ft_max_fte ft = FT_POOLS ! i"
      "mlx5_cmd_destroy_flow_table cmd ft p = (None, True, p\<lparr>ft_left := (ft_left p)[i := ft_left p ! i + 1]\<rparr>)"
proof -
  obtain i where i: "i < 5" "ft_max_fte ft = FT_POOLS ! i" using ft_invD(2) [OF assms] by (auto simp: in_set_conv_nth)
  show thesis
  proof (cases "cmd (destroy_msg ft)")
    case None
    then show thesis using gone i put_sz_pool [OF i(1)] by (simp add: mlx5_cmd_destroy_flow_table_def)
  next
    case (Some e)
    then show thesis using refused by (simp add: mlx5_cmd_destroy_flow_table_def)
  qed
qed

lemma ft_inv_destroy:
  assumes "ft_inv T p" "i < 5" "ft \<in> set T" "ft_max_fte ft = FT_POOLS ! i"
  shows "ft_inv (remove1 ft T) (p\<lparr>ft_left := (ft_left p)[i := ft_left p ! i + 1]\<rparr>)"
proof -
  note I = ft_invD [OF assms(1)]
  have "x \<in> set (remove1 ft T) \<Longrightarrow> ft_max_fte x \<in> set FT_POOLS" for x using I(2) notin_set_remove1 by metis
  moreover have "int (tables_of (FT_POOLS ! j) (remove1 ft T)) = int (tables_of (FT_POOLS ! j) T) - (if i = j then 1 else 0)" if "j < 5" for j
    using tables_of_remove1 [OF assms(3), of "FT_POOLS ! j"] assms(2,4) that by (simp add: pools_inj)
  ultimately show ?thesis using I(3) [OF assms(2)] by (intro ft_inv_upd [OF assms(1,2)]) simp_all
qed

lemma ft_reach_inv: "ft_reach T p \<Longrightarrow> ft_inv T p"
proof (induction rule: ft_reach.induct)
  case (ft_start p) then show ?case by (rule ft_inv_start)
next
  case (ft_create T p cmd lm d uid nx ft ft' p' m)
  show ?case
    by (rule create_cases [OF ft_create.IH, of lm d cmd uid nx ft])
      (use ft_create ft_inv_create [OF ft_create.IH] avail_loop_Some in \<open>auto simp: fits_def\<close>)
next
  case (ft_refuse T p cmd lm d uid nx ft e ft' p' m)
  show ?case by (rule create_cases [OF ft_refuse.IH, of lm d cmd uid nx ft]) (use ft_refuse in auto)
next
  case (ft_destroy T p ft cmd w p')
  show ?case by (rule destroy_cases [OF ft_destroy.IH ft_destroy.hyps(2), of cmd]) (use ft_destroy ft_inv_destroy [OF ft_destroy.IH] in auto)
next
  case (ft_keep T p ft cmd e w p')
  show ?case by (rule destroy_cases [OF ft_keep.IH ft_keep.hyps(2), of cmd]) (use ft_keep in auto)
qed

section \<open>Properties\<close>

text \<open>The sizes that suit a request: large enough, not above the limit of the device, and with room for one more table in the region of 16M entries.\<close>

definition candidates :: "mlx5_flow_table list \<Rightarrow> nat \<Rightarrow> int \<Rightarrow> u32 set" where
  "candidates T lm d = {sz \<in> set FT_POOLS. word_of_int d \<le> sz \<and> sz \<le> push_bit lm 1 \<and> unat sz * (tables_of sz T + 1) \<le> unat FT_SIZE}"

lemma fits_candidate:
  assumes "ft_inv T p" "i < 5"
  shows "fits (ft_left p) (push_bit lm 1) d i \<longleftrightarrow> FT_POOLS ! i \<in> candidates T lm d"
proof -
  note I = ft_invD [OF assms(1)]
  let ?s = "FT_POOLS ! i"
  have "0 < unat ?s" using pools_log [of ?s] assms(2) by (simp add: unat_gt_0)
  then have "tables_of ?s T + 1 \<le> unat FT_SIZE div unat ?s \<longleftrightarrow> unat ?s * (tables_of ?s T + 1) \<le> unat FT_SIZE"
    by (simp only: less_eq_div_iff_mult_less_eq mult.commute)
  moreover have "ft_left p ! i \<noteq> 0 \<longleftrightarrow> tables_of ?s T + 1 \<le> unat FT_SIZE div unat ?s" using I(3,4) [OF assms(2)] by linarith
  ultimately show ?thesis using assms(2) by (auto simp: fits_def candidates_def)
qed

lemma candidate_index: "c \<in> candidates T lm d \<Longrightarrow> \<exists>i < 5. c = FT_POOLS ! i"
  unfolding candidates_def by (metis (no_types, lifting) in_set_conv_nth mem_Collect_eq pools_length)

lemma chosen_size:
  assumes "ft_inv T p" "avail_loop (ft_left p) (push_bit lm 1) d None 5 = Some i"
  shows "FT_POOLS ! i \<in> candidates T lm d" "c \<in> candidates T lm d \<Longrightarrow> if d = 0 then c \<le> FT_POOLS ! i else FT_POOLS ! i \<le> c"
proof -
  note A = avail_loop_Some [OF assms(2)]
  show "FT_POOLS ! i \<in> candidates T lm d" using A fits_candidate [OF assms(1)] by blast
  assume c: "c \<in> candidates T lm d"
  then obtain j where j: "j < 5" "c = FT_POOLS ! j" using candidate_index by blast
  then have "if d = 0 then i \<le> j else j \<le> i" using A c fits_candidate [OF assms(1)] by blast
  then show "if d = 0 then c \<le> FT_POOLS ! i else FT_POOLS ! i \<le> c" using A j pools_desc by (auto split: if_splits)
qed

lemma no_size:
  assumes "ft_inv T p"
  shows "avail_loop (ft_left p) (push_bit lm 1) d None 5 = None \<longleftrightarrow> candidates T lm d = {}"
  unfolding avail_loop_None using fits_candidate [OF assms] candidate_index by (metis all_not_in_conv)

lemma create_msg_size: "sz \<in> set FT_POOLS \<Longrightarrow> 2 ^ unat (in_log_size (create_msg sz uid nx ft)) = sz"
  using pools_log [of sz] by (simp add: create_msg_def Let_def split: fs_flow_table_op_mod.splits option.splits)

text \<open>C32: creating a flow table asks the firmware for the best size: in every history of creations and destructions, also refused ones, a request fails for lack of space exactly when no
  size suits it; otherwise the message has the smallest size that suits, or the largest one when the client leaves the size open, and a refused creation leaves the pool as it was.\<close>

theorem ft_pool_best_fit:
  assumes "ft_reach T p" "mlx5_cmd_create_flow_table cmd lm d uid nx ft p = (r, ft', p', msg)"
  shows "(msg = None \<longleftrightarrow> candidates T lm d = {}) \<and> (msg = None \<longrightarrow> r = Some ENOSPC) \<and> (r \<noteq> None \<longrightarrow> p' = p) \<and>
    (\<forall>m. msg = Some m \<longrightarrow> (let sz = 2 ^ unat (in_log_size m)
       in sz \<in> candidates T lm d \<and> (\<forall>c \<in> candidates T lm d. if d = 0 then c \<le> sz else sz \<le> c) \<and> (r = None \<longrightarrow> ft_max_fte ft' = sz)))"
proof -
  note I = ft_reach_inv [OF assms(1)]
  have m: "2 ^ unat (in_log_size (create_msg (FT_POOLS ! i) uid nx ft)) = FT_POOLS ! i" if "i < 5" for i using that by (simp add: create_msg_size)
  show ?thesis
  proof (rule create_cases [OF I, of lm d cmd uid nx ft])
    assume "avail_loop (ft_left p) (push_bit lm 1) d None 5 = None" "mlx5_cmd_create_flow_table cmd lm d uid nx ft p = (Some ENOSPC, ft, p, None)"
    then show ?thesis using assms(2) no_size [OF I] by simp
  next
    fix i e assume a: "avail_loop (ft_left p) (push_bit lm 1) d None 5 = Some i" "i < 5"
      "mlx5_cmd_create_flow_table cmd lm d uid nx ft p = (Some e, ft, p, Some (create_msg (FT_POOLS ! i) uid nx ft))"
    have "candidates T lm d \<noteq> {}" using chosen_size(1) [OF I a(1)] by blast
    then show ?thesis using a(3) assms(2) chosen_size [OF I a(1)] m [OF a(2)] by auto
  next
    fix i t assume a: "avail_loop (ft_left p) (push_bit lm 1) d None 5 = Some i" "i < 5"
      "mlx5_cmd_create_flow_table cmd lm d uid nx ft p =
        (None, ft\<lparr>ft_id := t, ft_max_fte := FT_POOLS ! i\<rparr>, p\<lparr>ft_left := (ft_left p)[i := ft_left p ! i - 1]\<rparr>, Some (create_msg (FT_POOLS ! i) uid nx ft))"
    have "candidates T lm d \<noteq> {}" using chosen_size(1) [OF I a(1)] by blast
    then show ?thesis using a(3) assms(2) chosen_size [OF I a(1)] m [OF a(2)] by auto
  qed
qed

definition demo_ft :: mlx5_flow_table where
  "demo_ft = \<lparr>ft_id = 0, ft_vport = 0, ft_max_fte = 0, ft_level = 0, ft_type = 0, ft_op_mod = FS_FT_OP_MOD_NORMAL, ft_flags = 0,
     ft_def_miss_action = MLX5_FLOW_TABLE_MISS_ACTION_DEF\<rparr>"

lemma demo_ft_reach: "\<exists>p. ft_reach [] p"
  using ft_start by (auto simp: mlx5_ft_pool_init_def)

text \<open>A request of 100 entries on a device with tables of up to 64K entries gets 128.\<close>

theorem ft_pool_best_fit_witness: "\<exists>p ft' p' m. ft_reach [] p \<and> mlx5_cmd_create_flow_table (\<lambda>_. Inr 7) 16 100 0 None demo_ft p = (None, ft', p', Some m) \<and> ft_max_fte ft' = 128"
proof -
  obtain p where p: "ft_reach [] p" using demo_ft_reach by blast
  have c: "candidates [] 16 100 = {65536, 128}" by (auto simp: candidates_def FT_POOLS_def tables_of_def FT_SIZE_def word_le_nat_alt push_bit_eq_mult)
  obtain r ft' p' msg where m: "mlx5_cmd_create_flow_table (\<lambda>_. Inr 7) 16 100 0 None demo_ft p = (r, ft', p', msg)" by (metis prod_cases4)
  note F = ft_pool_best_fit [OF p m]
  obtain m' where m': "msg = Some m'" using F c by auto
  have "r = None" using m m' by (auto simp: mlx5_cmd_create_flow_table_def Let_def split: prod.splits if_splits)
  moreover have "ft_max_fte ft' = 128" using F m' c calculation by (auto simp: Let_def word_le_nat_alt)
  ultimately show ?thesis using p m m' by blast
qed

text \<open>The tables of one size never exceed the 16M entries of the firmware's region, destroying a table that exists finds its size in the pool, and without tables the
  pool is as it was at the start: nothing is lost and nothing is given back twice.\<close>

theorem ft_pool_accounting:
  assumes "ft_reach T p"
  shows "(\<forall>sz \<in> set FT_POOLS. unat sz * tables_of sz T \<le> unat FT_SIZE) \<and> (\<forall>ft \<in> set T. fst (snd (mlx5_cmd_destroy_flow_table cmd ft p))) \<and>
    (T = [] \<longrightarrow> mlx5_ft_pool_init True = Inr p)"
proof (intro conjI ballI impI)
  note I = ft_reach_inv [OF assms] note D = ft_invD [OF I]
  show "unat sz * tables_of sz T \<le> unat FT_SIZE" if s: "sz \<in> set FT_POOLS" for sz
  proof -
    obtain i where i: "i < 5" "sz = FT_POOLS ! i" using s by (auto simp: in_set_conv_nth)
    have "tables_of sz T \<le> unat FT_SIZE div unat sz" using D(3,4) [OF i(1)] unfolding i(2) by linarith
    then have "unat sz * tables_of sz T \<le> unat sz * (unat FT_SIZE div unat sz)" by (rule mult_le_mono2)
    then show ?thesis using times_div_less_eq_dividend order_trans by blast
  qed
  show "fst (snd (mlx5_cmd_destroy_flow_table cmd ft p))" if "ft \<in> set T" for ft by (rule destroy_cases [OF I that, of cmd]) simp_all
  assume "T = []"
  obtain q where q: "mlx5_ft_pool_init True = Inr q" by (simp add: mlx5_ft_pool_init_def)
  note Q = ft_invD [OF ft_inv_start [OF q]]
  have "ft_left p = ft_left q"
  proof (rule nth_equalityI)
    show "length (ft_left p) = length (ft_left q)" using D(1) Q(1) by simp
    show "ft_left p ! i = ft_left q ! i" if "i < length (ft_left p)" for i using D(1) D(4) [of i] Q(4) [of i] that \<open>T = []\<close> by simp
  qed
  then have "p = q" by simp
  then show "mlx5_ft_pool_init True = Inr p" using q by simp
qed

theorem ft_pool_accounting_witness: "\<exists>p. ft_reach [] p \<and> mlx5_ft_pool_init True = Inr p"
  using demo_ft_reach ft_pool_accounting by blast

end
