(* ===== verification/Spec2Isabelle.thy ===== *)
theory Spec2Isabelle
  imports Verbs_Qp Smi Ud_Header Mlx5_Db Rmpp_Recv Rmpp_Race Sa_Cc Rmpp_Send Mlx5_Rl Mlx5_Uar Mlx5_Mpfs Iwcm_Safety Mcast_Safety Mcast_Sa Mcast_Table Mlx5_Ft
begin

text \<open>
  Verification of core parts of the RDMA kernel drivers.

  \<^bold>\<open>The program.\<close> The repository holds the InfiniBand core (\<open>drivers/infiniband/core\<close>), the mlx5 core and Ethernet
  driver (\<open>drivers/net/ethernet/mellanox/mlx5/core\<close>), the mlx5 RDMA driver (\<open>drivers/infiniband/hw/mlx5\<close>),
  upper-layer protocols and backports. Clients create queue pairs through the verbs; management datagrams (MADs)
  travel over two special queue pairs, some of them routed hop by hop (directed-route SMPs), long ones split into
  segments (RMPP), those to the subnet administrator throttled (SA congestion control); the headers of datagrams are built by a
  bit-field packer; connections over iWARP are managed by identifiers that client, provider and a work queue share;
  clients join multicast groups through a module that serialises their requests to the subnet administrator; the mlx5 core driver hands out the
  resources a device has: DMA buffers, doorbell records, blue-flame registers, packet-pacing rates, entries of the MAC table and flow tables. The development models these parts.

  \<^bold>\<open>Theories.\<close> Each holds the definitions first, then the lemmas, then the properties with their examples.
  \<^item> \<open>Kern_Prelude\<close>: machine integers, error numbers, flag masks, bounds-checked arrays, definedness of partial
    computations. \<open>Bitmaps\<close>: the routines of \<open>linux/bitmap.h\<close> and \<open>linux/find.h\<close>, and the locale \<open>index_pool\<close>, the contract of a
    bitmap of indices, interpreted for bitmaps of free and of used indices. \<open>Jiffies\<close>: wrapping time and lists
    ordered by it.
  \<^item> \<open>Verbs_Qp\<close> (\<open>core/verbs.c\<close>, \<open>ib_verbs.h\<close>): \<open>qp_state_table\<close> with its required and optional attributes,
    \<open>ib_modify_qp_is_ok\<close>, and the rate, width and speed helpers. Transitions form the step relation \<open>qp_step\<close>; reachable queue pairs
    have the attributes their state needs and can always be reset.
  \<^item> \<open>Smi\<close> (\<open>core/smi.c\<close>, \<open>smi.h\<close>, \<open>opa_smi.h\<close>, handlers of \<open>mad.c\<close>): directed-route packets. The locale \<open>dr_smp\<close> states what
    the routing needs of a packet format and is interpreted for InfiniBand and OPA packets; a packet reaches the end of its path
    and its response returns along the recorded path; no access leaves the path arrays.
  \<^item> \<open>Packer\<close> (\<open>core/packer.c\<close>): \<open>ib_pack\<close> and \<open>ib_unpack\<close> on byte memory. The locale \<open>range_writer\<close> gives the effect of a sequence of
    writes to disjoint bit ranges, interpreted for both directions. \<open>Ud_Header\<close> (\<open>core/ud_header.c\<close>, \<open>ib_pack.h\<close>): the header structures
    with their memory layout and tables; the locale \<open>wire_struct\<close>, interpreted for the eight headers, gives the round trip of one
    header, from which that of the packet follows.
  \<^item> \<open>Rmpp_Recv\<close> and \<open>Rmpp_Send\<close> (\<open>core/mad_rmpp.c\<close> with the parts of \<open>mad.c\<close> it rests on): an agent with its receive
    transactions (\<open>mad_rmpp_recv\<close>: window, segment list, timers, reference count) and its sends
    (\<open>mad_send_wr\<close>: segment cursor, window, timeout, retries, the lists it may be in). A handler is one
    step; the relations \<open>rmpp_reach\<close> and \<open>tx_reach\<close> let packets, completions, timers and cancellation come in any
    order, on the sending side also responses of the peer (\<open>ib_mad_complete_recv\<close>), \<open>ib_modify_mad\<close> and \<open>cancel_mads\<close>. Clients
    are held to one rule: they set a timeout other than 0 only for a send whose outcome is open
    (\<open>undecided\<close>); the lemma \<open>modify_decided_reports_twice\<close> shows what happens otherwise. Shown: reassembly delivers exactly the segments, every handler returns, every datagram on the
    wire is a segment of its message, a send is reported once and as successful only when it was acknowledged or answered. The theorem below composes both sides.
  \<^item> \<open>Rmpp_Race\<close> (\<open>continue_rmpp\<close> and \<open>recv_timeout_handler\<close> of \<open>core/mad_rmpp.c\<close>): the two handlers that examine a receive transaction under different
    locks, as threads whose steps interleave (\<open>race_step\<close>). A thread that runs alone does what its handler does in \<open>Rmpp_Recv\<close>. Shown: in which
    interleavings, and only in those, a message is delivered whose buffers the timeout frees.
  \<^item> \<open>Sa_Cc\<close> (the congestion control of \<open>mad.c\<close>, \<open>mad_priv.h\<close>): the timeout queue \<open>to_fifo\<close> and the window \<open>sa_cc_data\<close>. The locale
    \<open>send_queue\<close> is the contract of a first-in first-out queue, interpreted on the code's queue. Shown: every datagram is
    accounted for exactly once, the timer is armed in time, expiry reports what is due.
  \<^item> \<open>Mlx5_Db\<close> (\<open>mlx5/core/alloc.c\<close>), \<open>Mlx5_Uar\<close> (\<open>uar.c\<close>), \<open>Mlx5_Rl\<close> (\<open>rl.c\<close>), \<open>Mlx5_Mpfs\<close> (\<open>lib/mpfs.c\<close>, \<open>lib/mpfs.h\<close>): the allocators.
    Each has a relation over histories of allocations and frees with the clients' holdings beside the driver's state
    (\<open>db_run\<close>, \<open>uar_reach\<close>, \<open>rl_reach\<close>, \<open>mpfs_reach\<close>) and an invariant that ties bitmaps, reference counts and lists to the holdings. A blue-flame register lies in
    the \<open>PAGE_SIZE\<close> bytes the driver maps if the firmware does not claim more regions for a page than it holds (\<open>uars_fit\<close>). Shown:
    nothing is handed out twice, the operations are defined, what is released by its last client is returned, and the tables of
    the firmware agree with the driver's.
  \<^item> \<open>Iwcm\<close> (\<open>core/iwcm.c\<close>, \<open>iwcm.h\<close>, \<open>iw_cm.h\<close>): the identifiers of the iWARP connection manager (\<open>iwcm_id_private\<close>: state, flags, queue of events,
    preallocated work elements, reference count, queue pair) and its functions, divided where they release the lock to call the
    provider or the client. \<open>Iwcm_Safety\<close>: the threads around one identifier (\<open>iw_sys\<close>), the contract of client and provider (\<open>iw_may\<close>), their
    steps (\<open>iw_do\<close>, with those of the work queue in \<open>cm_work_handler\<close>) and the reachable states (\<open>iw_reach\<close>). The locale \<open>guarded_system\<close>, an invariant
    under which every allowed step is defined, is interpreted with the invariant \<open>iw_inv\<close>. Shown: no \<open>BUG()\<close> is hit, an identifier is
    freed exactly when nobody uses it, references to queue pairs balance, events find room, the worker is not blocked.
  \<^item> \<open>Mcast\<close> (\<open>core/multicast.c\<close>, \<open>ib_sa.h\<close>): one multicast group with its members (\<open>mcast_group\<close>, \<open>mcast_member\<close>), the functions divided where they release the
    lock, send to the SA or call a client. \<open>Mcast_Safety\<close>: the threads around a group (\<open>mc_sys\<close>), their steps and the reachable states, and a second
    interpretation of \<open>guarded_system\<close>. Shown: no access to freed memory, one activity per group, the group is freed with its last user, one answer for each
    join, a waiting member is never forgotten. \<open>Mcast_Sa\<close>: the membership the SA has confirmed, followed beside the group's own record (\<open>mc_sa_reach\<close>), provided that the SA
    answers a join with all join states it has granted. Shown: for an idle group the SA holds the join states of the members and those that the module has
    given up. \<open>Mcast_Table\<close>: the search tree of the groups of a port and the histories of a
    port, for any rebalancing that keeps the order of the nodes (\<open>rbtree_ok\<close>): \<open>port_run\<close> has all of them, with the set of groups lost to a collision of
    identifiers, \<open>port_reach\<close> those in which the SA assigns no identifier of a live group. Shown: one group for each identifier, and the references of the port.
  \<^item> \<open>Mlx5_Ft\<close> (\<open>mlx5/core/fs_ft_pool.c\<close>, the commands of \<open>fs_cmd.c\<close> that create and destroy flow tables): the counters of tables left of each size and the histories \<open>ft_reach\<close>. Shown:
    the size of a new table is the best one that is left, and the pool accounts for every table.

  \<^bold>\<open>Conventions.\<close> A C function that may fail returns \<open>Inl\<close> of an error number or \<open>Inr\<close> of its result. A step with undefined
  behaviour in C (an access outside of an array or to freed memory, removal from a list the element is not in, overflow of a
  signed counter) yields \<open>None\<close>, and the properties show that reachable states exclude it. Memory, the answers of the firmware, of
  \<open>ioremap\<close> and of the device are parameters (environment records) that may fail at any call; what is assumed of them is that fresh memory
  is fresh and live mappings, of the lengths asked for, do not overlap. Objects that the code links by pointers are named by numbers. Locks are not modelled as objects: each
  locked section is one step, and the relations over histories interleave these steps arbitrarily. On the receive side of RMPP a whole handler is one
  step, except in \<open>Rmpp_Race\<close>.

  \<^bold>\<open>Bounds.\<close> No definition uses fuel. Loops are recursion over lists or have a measure (the completion of the congestion control decreases
  the length of the queue, the packer's loops the number of fields). Machine integers keep their width where the code can
  wrap: segment numbers, time, counters of entries, lengths of headers. Hypotheses on sizes are those the types of the code give (for example that
  fewer than \<open>2 ^ 64\<close> clients hold a rate).

  \<^bold>\<open>What the model showed.\<close> \<open>ib_unpack\<close> reads a field of more than 32 bits behind word 0 from the wrong place; the
  queue-pair type SRM has no attributes in the table; \<open>tf_dequeue\<close> reads past the end of a queue whose entries are all canceled; after an
  acknowledgement that closes the window the RMPP sender overruns it; a send with a short timeout waits for its deadline
  added to the time twice; the connection manager loses the private data of a connection request that it drops, and cannot connect again after a
  connect that failed; the timeout of an RMPP
  transaction can free the buffers of a message that is being delivered; a datagram that is refused for its P_Key is not freed, because its list of
  buffers is set up later; setting the timeout of a send that is already decided but still at the hardware revives it, so that it can be answered and reported
  twice; a multicast member can be refused with the error of a freed member that had the same address, and
  a group to which the SA assigns the identifier of another one is lost from the table of its port; the warning of \<open>mlx5_mpfs_cleanup\<close> looks at one bucket of the hash. All but the last are stated as theorems
  or lemmas in the theory of the component.

  \<^bold>\<open>Not modelled.\<close> The life cycle of verbs objects (protection domains, shared receive queues, completion queues), connection
  management beyond iWARP (\<open>cm.c\<close>, \<open>cma.c\<close>), the registration of MAD agents and queue-pair plumbing, the GID and P_Key cache, user verbs, the mlx5 RDMA and Ethernet
  drivers beyond the allocators, upper-layer protocols and backports: they are large, mostly encode firmware messages or
  system calls, or are glue between kernel subsystems. \<open>hw/mlx5/scheduler.c\<close> is commented out as a whole. In the modelled files
  the following is left out because it keeps no state of its own: the commands for scheduling elements of \<open>rl.c\<close>, the printing of the PCIe link status in
  \<open>uar.c\<close>, the netlink and sysctl registration of \<open>iwcm.c\<close>, the set-up of devices
  and the address handles of \<open>multicast.c\<close>, the placement on NUMA nodes, log messages. The port mapper that \<open>iwcm.c\<close> asks is a
  parameter.
\<close>

section \<open>From the sender to the receiver of a multi-packet message\<close>

lemma wire_copies:
  assumes "tx_reach strict P w0 s" "(x, rb_mad b) \<in> set (wire s)"
  shows "copies_of (s_seg_count (w0 x)) (seg_mad (w0 x)) [b]"
proof -
  have "on_wire_ok strict (w0 x) (twrs s x) (rb_mad b)" using tx_invD(5) [OF send_reach_inv [OF assms(1)] assms(2)] by simp
  then show ?thesis by (auto simp: copies_of_def on_wire_ok_def)
qed

lemma seg_mad_data:
  assumes "new_msg w"
  shows "map (\<lambda>i. mad_data (seg_mad w i)) [1..s_seg_count w] = s_segs w"
proof (rule nth_equalityI)
  show "length (map (\<lambda>i. mad_data (seg_mad w i)) [1..s_seg_count w]) = length (s_segs w)" using assms by (simp add: new_msg_def)
  fix i
  assume "i < length (map (\<lambda>i. mad_data (seg_mad w i)) [1..s_seg_count w])"
  then have "[1..s_seg_count w] ! i = 1 + int i" "i < nat (s_seg_count w)" by (simp_all add: nth_upto)
  then show "map (\<lambda>i. mad_data (seg_mad w i)) [1..s_seg_count w] ! i = s_segs w ! i" by (simp add: seg_mad_def)
qed

text \<open>
  C1: Sender and receiver together: when the packets that reach the receiver under the key \<open>K\<close>
  are copies of datagrams that the sender put on the wire for the send \<open>x\<close>, in any order and with
  any loss and duplication, a message delivered under \<open>K\<close> carries exactly the data segments that
  the client of the sender handed over, in their order.
\<close>

theorem rmpp_end_to_end:
  assumes "tx_reach strict P w0 s" "x \<in> P"
    and "rmpp_reach G ag D A" "\<And>wc. G wc \<Longrightarrow> wc_key wc = K \<Longrightarrow> (x, rb_mad (recv_buf wc)) \<in> set (wire s)"
    and "w \<in> set D" "wc_key w = K"
  shows "map (\<lambda>b. mad_data (rb_mad b)) (rmpp_list w) = s_segs (w0 x)"
proof -
  have m: "new_msg (w0 x)" by (rule tx_invD(4) [OF send_reach_inv [OF assms(1)] assms(2)])
  have "copies_of (s_seg_count (w0 x)) (seg_mad (w0 x)) [recv_buf wc]" if "G wc" "wc_key wc = K" for wc
    by (rule wire_copies [OF assms(1) assms(4) [OF that]])
  then have "map rb_mad (rmpp_list w) = map (seg_mad (w0 x)) [1..s_seg_count (w0 x)]"
    using reach_delivers [OF assms(3) _ seg_mad_message [OF m]] assms(5,6) by blast
  then have "map mad_data (map rb_mad (rmpp_list w)) = map (\<lambda>i. mad_data (seg_mad (w0 x) i)) [1..s_seg_count (w0 x)]" by simp
  then show ?thesis using seg_mad_data [OF m] by (simp add: comp_def)
qed

definition e2e_wc :: ib_mad_recv_wc where
  "e2e_wc = (let b = \<lparr>rb_addr = 10, rb_mad = snd (hd (wire (sx_posted 1 0)))\<rparr>
     in \<lparr>wc_src_qp = 1, wc_slid = 4, wc_pkey_index = 0, recv_buf = b, rmpp_list = [b], mad_len = 0\<rparr>)"

definition e2e_done :: ib_mad_recv_wc where
  "e2e_done = the (fst (the (process_rmpp_data ex_env e2e_wc ex_agent0)))"

theorem rmpp_end_to_end_witness:
  "wc_key e2e_done = (7, 1, 4, 3, 0, 0) \<and> map (\<lambda>b. mad_data (rb_mad b)) (rmpp_list e2e_done) = s_segs (sx_wr 1 0)"
proof -
  let ?G = "\<lambda>wc. wc = e2e_wc" and ?ag = "snd (the (process_rmpp_data ex_env e2e_wc ex_agent0))"
  have k: "wc_key e2e_done = (7, 1, 4, 3, 0, 0)" by code_simp
  have w: "wire (sx_posted 1 0) \<noteq> []" "fst (hd (wire (sx_posted 1 0))) = 0" by code_simp+
  then have "(0, snd (hd (wire (sx_posted 1 0)))) \<in> set (wire (sx_posted 1 0))" by (metis list.set_sel(1) prod.collapse)
  then have g: "?G wc \<Longrightarrow> wc_key wc = (7, 1, 4, 3, 0, 0) \<Longrightarrow> (0, rb_mad (recv_buf wc)) \<in> set (wire (sx_posted 1 0))" for wc
    by (simp add: e2e_wc_def Let_def)
  have "new_packet e2e_wc ex_agent0" by (simp add: new_packet_def e2e_wc_def Let_def held_def ex_agent0_def)
  moreover have "rmpp_reach ?G ex_agent0 [] []" by (rule reach_init) (simp_all add: ex_agent0_def)
  moreover have "process_rmpp_data ex_env e2e_wc ex_agent0 = Some (Some e2e_done, ?ag)" by code_simp
  ultimately have "rmpp_reach ?G ?ag ([] @ (case Some e2e_done of None \<Rightarrow> [] | Some w \<Rightarrow> [w])) ([] @ [rb_addr (recv_buf e2e_wc)])"
    by (intro reach_data) (assumption | rule refl)+
  then have r: "rmpp_reach ?G ?ag [e2e_done] ([] @ [rb_addr (recv_buf e2e_wc)])" by simp
  have sr: "sx_reach 1 0 (sx_posted 1 0)" by (rule sx_reach_posted) simp
  have "map (\<lambda>b. mad_data (rb_mad b)) (rmpp_list e2e_done) = s_segs (sx_wr 1 0)"
    using rmpp_end_to_end [OF sr _ r g, where w = e2e_done] k by simp
  then show ?thesis using k by simp
qed

end
